(* ===== verification/Prelude.thy ===== *)
theory Prelude
  imports Main "HOL-Library.Word"
begin

text \<open>
  Shared vocabulary of the development: the machine types of \<^verbatim>\<open>sw_types.h\<close>
  (\<^verbatim>\<open>sw_uint\<close> is 32 bits wide on the ARMv7 target, \<^verbatim>\<open>sw_big_ulong\<close> 64 bits), the
  error numbers of \<^verbatim>\<open>sw_errno.h\<close> as a datatype, the page constants of
  \<^verbatim>\<open>page_table.h\<close>, and the generic lemmas on words and lists which the component
  theories share.  A C function that returns \<^verbatim>\<open>SW_ERROR\<close> after \<^verbatim>\<open>sw_seterrno(e)\<close> returns
  \<open>Inl e\<close> in the models; one that returns \<^verbatim>\<open>SW_ERROR\<close> without setting the error number
  returns \<open>Inl SW_ENONE\<close>.
\<close>

unbundle bit_operations_syntax

section \<open>Machine types and error numbers\<close>

type_synonym u8 = "8 word"
type_synonym u32 = "32 word"
type_synonym u64 = "64 word"

datatype sw_error = SW_ENONE | SW_EPERM | SW_ENOENT | SW_ENOMEM | SW_EACCES | SW_EBUSY
  | SW_EINVAL | SW_ENODATA

type_synonym 'a sw_result = "sw_error + 'a"

named_theorems page_simps "facts about page sizes and page indices"

section \<open>Words\<close>

lemma unat_drop_bit: "unat (drop_bit n (w :: 'a::len word)) = unat w div 2 ^ n"
  by (simp only: unat_drop_bit_eq flip: drop_bit_eq_div)

lemma unat_push_bit_small:
  "unat w * 2 ^ n < 2 ^ LENGTH('a) \<Longrightarrow> unat (push_bit n (w :: 'a::len word)) = unat w * 2 ^ n"
  by (simp only: unsigned_push_bit_eq flip: push_bit_eq_mult) (simp only: push_bit_eq_mult take_bit_nat_eq_self)

lemma unat_add_small:
  "unat a + unat b < 2 ^ LENGTH('a) \<Longrightarrow> unat (a + b :: 'a::len word) = unat a + unat b"
  by (simp add: unat_word_ariths)

lemma unat_sub_le: "b \<le> a \<Longrightarrow> unat (a - b :: 'a::len word) = unat a - unat b"
  by (rule unat_sub)

lemma unat_lt_size: "unat (w :: 'a::len word) < 2 ^ LENGTH('a)"
  by (rule unsigned_less)

lemma unat_u32_lt: "unat (w :: u32) < 4294967296"
  using unat_lt_size[of w] by simp

lemma unat_u64_lt: "unat (w :: u64) < 18446744073709551616"
  using unat_lt_size[of w] by simp

lemma unat_and_mask: "unat (w AND mask n :: 'a::len word) = unat w mod 2 ^ n"
  by (simp only: unsigned_take_bit_eq flip: take_bit_eq_mask take_bit_eq_mod)

lemma word_and_not_mask: "w AND NOT (mask n) = w - (w AND mask n :: 'a::len word)"
proof -
  have "w = (w AND NOT (mask n)) + (w AND mask n)"
    by (subst disjunctive_add) (auto simp: bit_simps intro!: bit_eqI)
  then show ?thesis by (metis add_diff_cancel_right')
qed

lemma sint_u32_cases:
  "uint (w :: u32) < 2147483648 \<Longrightarrow> sint w = uint w"
  "2147483648 \<le> uint (w :: u32) \<Longrightarrow> sint w = uint w - 4294967296"
proof -
  have e: "sint w = (uint w + 2147483648) mod 4294967296 - 2147483648"
    by (simp add: sint_uint signed_take_bit_eq_take_bit_shift take_bit_eq_mod)
  have b: "0 \<le> uint w" "uint w < 4294967296" using uint_lt2p[of w] by simp_all
  show "uint w < 2147483648 \<Longrightarrow> sint w = uint w" using e b by simp
  assume "2147483648 \<le> uint w"
  moreover have "(uint w + 2147483648) mod 4294967296 = (uint w - 2147483648 + 4294967296) mod 4294967296"
    by (simp add: add.commute)
  ultimately show "sint w = uint w - 4294967296"
    using e b unfolding mod_add_self2 by (subst (asm) mod_pos_pos_trivial) auto
qed

lemma uint_of_unat: "uint (w :: u32) = int (unat w)"
  by simp

section \<open>Pages\<close>

definition PAGE_SHIFT :: nat where "PAGE_SHIFT = 12"
definition PAGE_SIZE :: u32 where "PAGE_SIZE = 4096"
definition SECTION_SIZE :: u32 where "SECTION_SIZE = push_bit 20 1"

lemma PAGE_SIZE_mask: "PAGE_SIZE - 1 = mask 12"
  by (simp add: PAGE_SIZE_def mask_eq_exp_minus_1)

lemma SECTION_SIZE_mask: "SECTION_SIZE - 1 = mask 20"
  by (simp add: SECTION_SIZE_def mask_eq_exp_minus_1)

text \<open>The rounding that every size-taking operation of the memory manager starts with:
  \<^verbatim>\<open>if(size & (PAGE_SIZE - 1)) size = (size & (~(PAGE_SIZE - 1))) + PAGE_SIZE\<close>.\<close>

definition page_align :: "u32 \<Rightarrow> u32" where
  "page_align sz =
     (if sz AND (PAGE_SIZE - 1) \<noteq> 0 then (sz AND NOT (PAGE_SIZE - 1)) + PAGE_SIZE else sz)"

definition pages_of :: "u32 \<Rightarrow> nat" where
  "pages_of sz = unat (drop_bit PAGE_SHIFT (page_align sz))"

lemma unat_exp: "k < LENGTH('a) \<Longrightarrow> unat (2 ^ k :: 'a::len word) = 2 ^ k"
  using of_nat_inverse[of "2 ^ k" "2 ^ k :: 'a word"] by (simp add: power_strict_increasing)

lemma unat_of_nat_small: "n < 2 ^ LENGTH('a) \<Longrightarrow> unat (of_nat n :: 'a::len word) = n"
  by (simp add: unat_of_nat take_bit_nat_eq_self)

lemma pages_of_ceil: "unat sz + 4096 \<le> 2 ^ 32 \<Longrightarrow> pages_of sz = (unat sz + 4095) div 4096"
proof -
  assume small: "unat sz + 4096 \<le> 2 ^ 32"
  let ?low = "unat sz mod 4096"
  have low: "unat (sz AND mask 12) = ?low" by (simp add: unat_and_mask)
  have hi: "unat (sz AND NOT (mask 12)) = unat sz - ?low"
  proof -
    have "sz AND mask 12 \<le> sz" by (simp add: word_le_nat_alt unat_and_mask)
    then show ?thesis by (simp add: word_and_not_mask unat_sub_le unat_and_mask)
  qed
  have nz: "sz AND mask 12 = 0 \<longleftrightarrow> ?low = 0" using low by (metis unat_0 unsigned_word_eqI)
  have "unat (page_align sz) = (if ?low = 0 then unat sz else unat sz - ?low + 4096)"
    unfolding page_align_def PAGE_SIZE_mask
    using small hi nz by (auto simp: PAGE_SIZE_def unat_word_ariths)
  moreover have "(if ?low = 0 then unat sz else unat sz - ?low + 4096) div 4096 = (unat sz + 4095) div 4096"
  proof -
    obtain q r where qr: "unat sz = 4096 * q + r" "r < 4096"
      using mult_div_mod_eq[of 4096 "unat sz"] mod_less_divisor[of 4096 "unat sz"] by (metis zero_less_numeral)
    then have "?low = r" by simp
    moreover have "(4096 * q + r + 4095) div 4096 = (if r = 0 then q else q + 1)"
      using qr(2) by (auto intro!: div_nat_eqI)
    ultimately show ?thesis using qr by auto
  qed
  ultimately show ?thesis by (simp only: pages_of_def PAGE_SHIFT_def unat_drop_bit) simp
qed

lemma pages_of_less: "pages_of sz < 2 ^ 20"
  using unat_u32_lt[of "page_align sz"] by (simp only: pages_of_def PAGE_SHIFT_def unat_drop_bit) simp

lemma page_align_low: "page_align sz AND mask 12 = 0"
proof (cases "sz AND mask 12 = 0")
  case True
  then show ?thesis by (simp add: page_align_def PAGE_SIZE_mask)
next
  case False
  have "unat ((sz AND NOT (mask 12)) + 4096 :: u32) mod 4096 = 0"
  proof -
    have "unat (sz AND NOT (mask 12)) mod 4096 = 0"
      using unat_and_mask[of "sz AND NOT (mask 12)" 12] by (simp add: and.assoc)
    then have "(unat (sz AND NOT (mask 12)) + 4096) mod 4096 = 0" by simp
    moreover have "(unat (sz AND NOT (mask 12)) + 4096) mod 4294967296 mod 4096 =
        (unat (sz AND NOT (mask 12)) + 4096) mod 4096"
      by (rule mod_mod_cancel) simp
    ultimately show ?thesis by (simp add: unat_word_ariths del: mod_add_self2)
  qed
  then have "unat ((sz AND NOT (mask 12)) + 4096 AND mask 12 :: u32) = 0" by (simp only: unat_and_mask) simp
  then have "(sz AND NOT (mask 12)) + 4096 AND mask 12 = 0" by (simp only: unat_eq_zero)
  moreover have "page_align sz = (sz AND NOT (mask 12)) + 4096"
    unfolding page_align_def PAGE_SIZE_mask unfolding PAGE_SIZE_def by (rule if_P[OF False])
  ultimately show ?thesis by (simp only:)
qed

lemma page_align_idem [page_simps]: "page_align (page_align sz) = page_align sz"
  using page_align_low[of sz] by (simp add: page_align_def[of "page_align sz"] PAGE_SIZE_mask)

lemma pages_of_align [page_simps]: "pages_of (page_align sz) = pages_of sz"
  by (simp add: pages_of_def page_align_idem)

section \<open>Searching lists\<close>

lemma find_map: "List.find P (map f xs) = map_option f (List.find (\<lambda>x. P (f x)) xs)"
  by (induction xs) auto

lemma find_cong: "(\<And>x. x \<in> set xs \<Longrightarrow> P x = Q x) \<Longrightarrow> List.find P xs = List.find Q xs"
  by (induction xs) auto

lemma find_in: "List.find P xs = Some x \<Longrightarrow> x \<in> set xs \<and> P x"
  by (induction xs) (auto split: if_splits)

lemma find_None: "List.find P xs = None \<longleftrightarrow> (\<forall>x\<in>set xs. \<not> P x)"
  by (induction xs) auto

lemma find_id:
  assumes "distinct (map f xs)" and "x \<in> set xs"
  shows "List.find (\<lambda>y. f y = f x) xs = Some x"
  using assms by (induction xs) auto

end
