(* ===== verification/CMath.thy ===== *)
theory CMath
  imports Prelude "HOL-Library.While_Combinator"
begin

text \<open>
  The arithmetic support of \<^verbatim>\<open>src/lib/common\<close>: \<^verbatim>\<open>sw_math.c\<close> (powers of two and the
  de Bruijn logarithm used by the buddy allocator), \<^verbatim>\<open>sw_div.c\<close> (the software division
  routines the compiler calls on cores without a divider) and \<^verbatim>\<open>sw_endian.c\<close>.  The values
  are kept at their C widths; a C loop that may run forever is \<open>while_option\<close>, whose
  result \<open>None\<close> stands for divergence, and \<^verbatim>\<open>tee_panic\<close>, which never returns, is the value
  \<open>Inl Divide_by_0\<close>.
\<close>

section \<open>sw_math.c\<close>

definition is_pow_of_2 :: "u64 \<Rightarrow> bool" where
  "is_pow_of_2 x \<longleftrightarrow> x \<noteq> 0 \<and> \<not> (x AND (x - 1) \<noteq> 0)"

definition next_pow_of_2 :: "u32 \<Rightarrow> u32" where
  "next_pow_of_2 x =
     (if is_pow_of_2 (ucast x) then x
      else let x1 = x OR drop_bit 1 x;
               x2 = x1 OR drop_bit 2 x1;
               x3 = x2 OR drop_bit 4 x2;
               x4 = x3 OR drop_bit 8 x3;
               x5 = x4 OR drop_bit 16 x4
           in x5 + 1)"

definition MultiplyDeBruijnBitPosition2 :: "u32 list" where
  "MultiplyDeBruijnBitPosition2 =
     [0, 1, 28, 2, 29, 14, 24, 3, 30, 22, 20, 15, 25, 17, 4, 8,
      31, 27, 13, 23, 21, 19, 16, 7, 26, 12, 18, 6, 11, 5, 10, 9]"

definition log_of_2 :: "u32 \<Rightarrow> u32" where
  "log_of_2 number = MultiplyDeBruijnBitPosition2 ! unat (drop_bit 27 (number * 0x077CB531))"

text \<open>The table is indexed within its 32 entries for every argument.\<close>

lemma log_of_2_index: "unat (drop_bit 27 (number * 0x077CB531 :: u32)) < length MultiplyDeBruijnBitPosition2"
  using unat_u32_lt[of "number * 0x077CB531"]
  by (simp only: unat_drop_bit) (simp add: MultiplyDeBruijnBitPosition2_def)

lemma exp_word_nonzero: "k < LENGTH('a) \<Longrightarrow> (2 ^ k :: 'a::len word) \<noteq> 0"
  by simp

lemma and_minus_1_eq_0_imp:
  fixes x :: "'a::len word"
  assumes "x \<noteq> 0" and "x AND (x - 1) = 0"
  shows "\<exists>k<LENGTH('a). x = 2 ^ k"
proof -
  let ?P = "\<lambda>k. bit x k"
  have ex: "\<exists>k. ?P k"
  proof (rule ccontr)
    assume "\<nexists>k. bit x k"
    then have "x = 0" by (intro bit_eqI) simp
    with assms(1) show False by simp
  qed
  define k where "k = (LEAST k. bit x k)"
  have bk: "bit x k" unfolding k_def using ex by (rule LeastI_ex)
  have k: "k < LENGTH('a)" using bk by (rule bit_imp_le_length)
  have low: "\<not> bit x j" if "j < k" for j
    using that not_less_Least unfolding k_def by blast
  define y where "y = x AND NOT (2 ^ k)"
  have yk: "y AND 2 ^ k = 0" and ym: "y AND mask k = 0"
    using low by (auto simp: y_def bit_simps intro!: bit_eqI)
  have xor: "x = y OR 2 ^ k"
    using bk k by (intro bit_eqI) (auto simp: y_def bit_simps)
  then have xy: "x = y + 2 ^ k" using yk by (simp add: disjunctive_add_eq_or)
  have "x - 1 = y + (2 ^ k - 1)" by (simp add: xy)
  also have "\<dots> = y OR mask k"
    using ym by (simp add: disjunctive_add_eq_or flip: mask_eq_exp_minus_1)
  finally have m: "x - 1 = y OR mask k" .
  have "y = 0"
  proof (rule bit_eqI)
    fix n
    show "bit y n \<longleftrightarrow> bit 0 n"
    proof
      assume yn: "bit y n"
      then have "bit x n" "bit (x - 1) n" using xor m by (auto simp: bit_simps)
      then have "bit (x AND (x - 1)) n" by (simp add: bit_simps)
      with assms(2) show "bit 0 n" by simp
    qed simp
  qed
  then have "x = 2 ^ k" by (simp add: xy)
  with k show ?thesis by blast
qed

lemma exp_and_minus_1:
  assumes "k < LENGTH('a)" shows "(2 ^ k :: 'a::len word) AND (2 ^ k - 1) = 0"
  by (intro bit_eqI) (auto simp: bit_simps simp flip: mask_eq_exp_minus_1)

lemma is_pow_of_2_iff: "is_pow_of_2 x \<longleftrightarrow> (\<exists>k<64. x = 2 ^ k)"
  unfolding is_pow_of_2_def
  using and_minus_1_eq_0_imp[of x] exp_and_minus_1[where 'a=64] by auto

lemma smear_step:
  fixes x y :: "'a::len word"
  assumes "\<And>n. bit y n \<longleftrightarrow> (\<exists>j<m. bit x (n + j))"
  shows "bit (y OR drop_bit m y) n \<longleftrightarrow> (\<exists>j<2 * m. bit x (n + j))"
proof -
  have "bit (y OR drop_bit m y) n \<longleftrightarrow> (\<exists>j<m. bit x (n + j)) \<or> (\<exists>j<m. bit x (m + n + j))"
    by (simp add: bit_or_iff bit_drop_bit_eq assms)
  also have "\<dots> \<longleftrightarrow> (\<exists>j<2 * m. bit x (n + j))"
  proof
    assume "(\<exists>j<m. bit x (n + j)) \<or> (\<exists>j<m. bit x (m + n + j))"
    then show "\<exists>j<2 * m. bit x (n + j)"
    proof (elim disjE exE conjE)
      fix j assume "j < m" "bit x (m + n + j)"
      then show ?thesis by (intro exI[of _ "m + j"]) (simp add: ac_simps)
    next
      fix j assume "j < m" "bit x (n + j)"
      then show ?thesis by (intro exI[of _ j]) simp
    qed
  next
    assume "\<exists>j<2 * m. bit x (n + j)"
    then obtain j where j: "j < 2 * m" "bit x (n + j)" by blast
    show "(\<exists>j<m. bit x (n + j)) \<or> (\<exists>j<m. bit x (m + n + j))"
    proof (cases "j < m")
      case False
      then have "bit x (m + n + (j - m))" "j - m < m" using j by (auto simp: ac_simps)
      then show ?thesis by blast
    qed (use j in blast)
  qed
  finally show ?thesis .
qed

lemma smear_bits:
  fixes x :: u32
  defines "x1 \<equiv> x OR drop_bit 1 x"
  defines "x2 \<equiv> x1 OR drop_bit 2 x1"
  defines "x3 \<equiv> x2 OR drop_bit 4 x2"
  defines "x4 \<equiv> x3 OR drop_bit 8 x3"
  shows "bit (x4 OR drop_bit 16 x4) n \<longleftrightarrow> (\<exists>j<32. bit x (n + j))"
proof -
  have 1: "bit x1 n \<longleftrightarrow> (\<exists>j<2. bit x (n + j))" for n
    unfolding x1_def using smear_step[of x 1 x n] by simp
  have 2: "bit x2 n \<longleftrightarrow> (\<exists>j<4. bit x (n + j))" for n
    unfolding x2_def using smear_step[of x1 2 x n] 1 by simp
  have 3: "bit x3 n \<longleftrightarrow> (\<exists>j<8. bit x (n + j))" for n
    unfolding x3_def using smear_step[of x2 4 x n] 2 by simp
  have 4: "bit x4 n \<longleftrightarrow> (\<exists>j<16. bit x (n + j))" for n
    unfolding x4_def using smear_step[of x3 8 x n] 3 by simp
  show ?thesis using smear_step[of x4 16 x n] 4 by simp
qed

lemma highest_bit:
  fixes x :: "'a::len word"
  assumes "x \<noteq> 0"
  obtains h where "h < LENGTH('a)" "bit x h" "\<And>j. bit x j \<Longrightarrow> j \<le> h"
    "2 ^ h \<le> unat x" "unat x < 2 ^ Suc h"
proof -
  let ?S = "{j. bit x j}"
  have fin: "finite ?S" by (rule finite_subset[of _ "{..<LENGTH('a)}"]) (auto dest: bit_imp_le_length)
  have ne: "?S \<noteq> {}" using assms by (auto simp: bit_eq_iff)
  define h where "h = Max ?S"
  have bh: "bit x h" and mx: "\<And>j. bit x j \<Longrightarrow> j \<le> h"
    using Max_in[OF fin ne] Max_ge[OF fin] by (auto simp: h_def)
  have bits: "bit (unat x) j \<longleftrightarrow> bit x j" for j
    by (metis bit_unsigned_iff bit_imp_le_length possible_bit_nat)
  have "take_bit (Suc h) (unat x) = unat x"
    by (rule bit_eqI) (use mx bits in \<open>auto simp: bit_take_bit_iff less_Suc_eq_le\<close>)
  then have up: "unat x < 2 ^ Suc h" by (simp only: take_bit_nat_eq_self_iff)
  have "2 ^ h \<le> unat x"
  proof (rule ccontr)
    assume "\<not> 2 ^ h \<le> unat x"
    then have "take_bit h (unat x) = unat x" by (simp add: take_bit_nat_eq_self_iff)
    moreover have "bit (unat x) h" using bh bits by simp
    ultimately show False by (metis bit_take_bit_iff less_irrefl)
  qed
  then show ?thesis using that bh mx up bit_imp_le_length by blast
qed

lemma next_pow_of_2_power: "k < 32 \<Longrightarrow> next_pow_of_2 (2 ^ k) = 2 ^ k"
proof -
  assume k: "k < 32"
  then have "(ucast (2 ^ k :: u32) :: u64) = 2 ^ k"
    by (intro bit_eqI) (auto simp: bit_simps)
  then have "is_pow_of_2 (ucast (2 ^ k :: u32))" using k by (auto simp: is_pow_of_2_iff intro!: exI[of _ k])
  then show ?thesis by (simp add: next_pow_of_2_def)
qed

lemma next_pow_of_2_smear:
  assumes "\<not> is_pow_of_2 (ucast x)" and "x \<noteq> 0" and h: "bit x h" "\<And>j. bit x j \<Longrightarrow> j \<le> h" "h < 32"
  shows "next_pow_of_2 x = 2 ^ Suc h"
proof -
  define y where "y = next_pow_of_2 x - 1"
  have ybits: "bit y n \<longleftrightarrow> (\<exists>j<32. bit x (n + j))" for n
    using smear_bits[of x n] assms(1) by (simp add: y_def next_pow_of_2_def Let_def)
  have "bit y n \<longleftrightarrow> n \<le> h" if "n < 32" for n
  proof
    assume "bit y n" then show "n \<le> h" using ybits h(2) by (meson le_add1 le_trans)
  next
    assume "n \<le> h"
    then have "bit x (n + (h - n))" "h - n < 32" using h by auto
    then show "bit y n" using ybits by blast
  qed
  then have "y = mask (Suc h)"
    using h(3) by (intro bit_eqI) (auto simp: bit_mask_iff less_Suc_eq_le)
  then have "next_pow_of_2 x - 1 = 2 ^ Suc h - 1" by (simp only: y_def mask_eq_exp_minus_1)
  then show ?thesis by simp
qed

lemma unat_ucast_u64: "unat (ucast (x :: u32) :: u64) = unat x"
  using unat_u32_lt[of x] by (simp only: unsigned_ucast_eq) (simp add: take_bit_nat_eq_self)

lemma ucast_pow2_imp:
  assumes "is_pow_of_2 (ucast (x :: u32))" shows "\<exists>k<32. x = 2 ^ k"
proof -
  from assms obtain k where k: "k < 64" and e: "(ucast x :: u64) = 2 ^ k" by (auto simp: is_pow_of_2_iff)
  then have u: "unat x = 2 ^ k" using unat_ucast_u64[of x] by (simp add: unat_exp)
  then have "(2::nat) ^ k < 2 ^ 32" using unat_lt_size[of x] by simp
  then have "k < 32" by (rule power_less_imp_less_exp[rotated]) simp
  then have "unat x = unat (2 ^ k :: u32)" using u by (simp add: unat_exp)
  then show ?thesis using \<open>k < 32\<close> by (blast dest: unsigned_word_eqI)
qed

lemma next_pow_of_2_cases:
  obtains (zero) "x = 0" "next_pow_of_2 x = 1"
  | (power) k where "k < 32" "x = 2 ^ k" "next_pow_of_2 x = 2 ^ k"
  | (between) h where "h < 32" "2 ^ h < unat x" "unat x < 2 ^ Suc h" "next_pow_of_2 x = 2 ^ Suc h"
proof (cases "x = 0")
  case True
  then show ?thesis using zero by (simp add: next_pow_of_2_def is_pow_of_2_def)
next
  case False
  show ?thesis
  proof (cases "is_pow_of_2 (ucast x)")
    case True
    then show ?thesis using power ucast_pow2_imp next_pow_of_2_power by blast
  next
    case npow: False
    obtain h where h: "h < 32" "bit x h" "\<And>j. bit x j \<Longrightarrow> j \<le> h" "2 ^ h \<le> unat x" "unat x < 2 ^ Suc h"
      using highest_bit[OF False] by auto
    have "unat x \<noteq> 2 ^ h"
    proof
      assume "unat x = 2 ^ h"
      then have "(ucast x :: u64) = 2 ^ h"
        using h(1) by (intro unsigned_word_eqI[where 'a=nat]) (simp add: unat_ucast_u64 unat_exp)
      then have "is_pow_of_2 (ucast x)"
        unfolding is_pow_of_2_iff using h(1) by (intro exI[of _ h]) simp
      with npow show False ..
    qed
    with h show ?thesis using between[of h] next_pow_of_2_smear[OF npow False] by simp
  qed
qed

text \<open>\<^verbatim>\<open>next_pow_of_2\<close> returns, for every request up to 2^31 (0 included), the least power
  of two that is not below the request.\<close>

theorem next_pow_of_2_least:
  assumes "unat x \<le> 2 ^ 31"
  shows "unat (next_pow_of_2 x) = (LEAST p. (\<exists>k. p = 2 ^ k) \<and> unat x \<le> p)"
  using next_pow_of_2_cases[of x]
proof cases
  case zero
  have "(LEAST p::nat. (\<exists>k. p = 2 ^ k) \<and> unat x \<le> p) = 1"
    by (rule Least_equality) (use zero in \<open>auto intro: exI[of _ 0]\<close>)
  then show ?thesis using zero by simp
next
  case (power k)
  have "(LEAST p::nat. (\<exists>k. p = 2 ^ k) \<and> unat x \<le> p) = 2 ^ k"
    by (rule Least_equality) (use power in \<open>auto simp: unat_exp\<close>)
  then show ?thesis using power by (simp add: unat_exp)
next
  case (between h)
  have "h < 31"
  proof (rule ccontr)
    assume "\<not> h < 31"
    then have "h = 31" using between(1) by simp
    then show False using between assms by simp
  qed
  have "(LEAST p::nat. (\<exists>k. p = 2 ^ k) \<and> unat x \<le> p) = 2 ^ Suc h"
  proof (rule Least_equality)
    show "(\<exists>k. (2::nat) ^ Suc h = 2 ^ k) \<and> unat x \<le> 2 ^ Suc h"
      using between by (intro conjI exI[of _ "Suc h"]) auto
  next
    fix p assume "(\<exists>k. p = (2::nat) ^ k) \<and> unat x \<le> p"
    then obtain k where p: "p = 2 ^ k" "unat x \<le> 2 ^ k" by blast
    then have "(2::nat) ^ h < 2 ^ k" using between by linarith
    then have "h < k" by (rule power_less_imp_less_exp[rotated]) simp
    then show "2 ^ Suc h \<le> p" using p(1) by (simp add: power_increasing Suc_leI del: power_Suc)
  qed
  then show ?thesis using between \<open>h < 31\<close> by (simp add: unat_exp del: power_Suc)
qed

theorem next_pow_of_2_least_witness:
  "unat (5 :: u32) \<le> 2 ^ 31 \<and> unat (next_pow_of_2 5) = 8"
proof -
  have "(LEAST p::nat. (\<exists>k. p = 2 ^ k) \<and> unat (5 :: u32) \<le> p) = 8"
  proof (rule Least_equality)
    show "(\<exists>k. (8::nat) = 2 ^ k) \<and> unat (5 :: u32) \<le> 8" by (auto intro: exI[of _ 3])
    fix p assume "(\<exists>k. p = (2::nat) ^ k) \<and> unat (5 :: u32) \<le> p"
    then obtain k where "p = 2 ^ k" "5 \<le> (2::nat) ^ k" by auto
    then have "(2::nat) ^ 2 < 2 ^ k" by simp
    then have "2 < k" by (rule power_less_imp_less_exp[rotated]) simp
    then have "(2::nat) ^ 3 \<le> 2 ^ k" by (intro power_increasing) auto
    then show "8 \<le> p" using \<open>p = 2 ^ k\<close> by simp
  qed
  then show ?thesis using next_pow_of_2_least[of 5] by simp
qed

text \<open>Beyond 2^31 the increment wraps around: the result is 0.\<close>

lemma next_pow_of_2_wraps: "2 ^ 31 < unat x \<Longrightarrow> next_pow_of_2 x = 0"
proof -
  assume big: "2 ^ 31 < unat x"
  show ?thesis
    using next_pow_of_2_cases[of x]
  proof cases
    case (power k)
    then have "(2::nat) ^ 31 < 2 ^ k" using big by (simp add: unat_exp)
    then have "31 < k" by (rule power_less_imp_less_exp[rotated]) simp
    with power show ?thesis by simp
  next
    case (between h)
    then have "(2::nat) ^ 31 < 2 ^ Suc h" using big by linarith
    then have "31 < Suc h" by (rule power_less_imp_less_exp[rotated]) simp
    then have "h = 31" using between(1) by simp
    with between show ?thesis by simp
  qed (use big in simp)
qed

lemma log_of_2_exp: "k < 32 \<Longrightarrow> log_of_2 (2 ^ k) = of_nat k"
proof -
  have "\<forall>k\<in>set [0..<32]. log_of_2 (2 ^ k) = of_nat k" by code_simp
  then show "k < 32 \<Longrightarrow> ?thesis" by simp
qed

lemma log_of_2_zero: "log_of_2 0 = 0"
  by code_simp

section \<open>sw_div.c\<close>

datatype panic = Divide_by_0

text \<open>The inner loop of the division routines doubles the divisor and the partial
  quotient while the doubled divisor is still at most the dividend.  The doubling is done
  in the C type, so it can wrap around.\<close>

definition shift_loop :: "'a::len word \<Rightarrow> 'a word \<Rightarrow> 'a word \<Rightarrow> ('a word \<times> 'a word) option" where
  "shift_loop dividend divisor q0 =
     while_option (\<lambda>(d, q). push_bit 1 d \<le> dividend) (\<lambda>(d, q). (push_bit 1 d, push_bit 1 q))
       (divisor, q0)"

partial_function (option) aeabi_uidiv :: "u32 \<Rightarrow> u32 \<Rightarrow> (panic + u32) option" where
  "aeabi_uidiv dividend divisor =
     (if divisor = 0 then Some (Inl Divide_by_0)
      else if divisor = dividend then Some (Inr 1)
      else if dividend < divisor then Some (Inr 0)
      else if is_pow_of_2 (ucast divisor) then Some (Inr (drop_bit (unat (log_of_2 divisor)) dividend))
      else Option.bind (shift_loop dividend divisor 1)
             (\<lambda>(d', q). Option.bind (aeabi_uidiv (dividend - d') divisor)
               (\<lambda>r. Some (map_sum id (\<lambda>q'. q + q') r))))"

record uldivmod_t =
  quot :: u64
  rem :: u64

partial_function (option) aeabi_uldivmod :: "u64 \<Rightarrow> u64 \<Rightarrow> (panic + uldivmod_t) option" where
  "aeabi_uldivmod dividend divisor =
     (if divisor = 0 then Some (Inl Divide_by_0)
      else if divisor = dividend then Some (Inr \<lparr>quot = 1, rem = 0\<rparr>)
      else if dividend < divisor then Some (Inr \<lparr>quot = 0, rem = dividend\<rparr>)
      else if is_pow_of_2 divisor
        then Some (Inr \<lparr>quot = drop_bit (unat (log_of_2 (ucast divisor))) dividend,
                        rem = dividend AND (divisor - 1)\<rparr>)
      else Option.bind (shift_loop dividend divisor 1)
             (\<lambda>(d', q). Option.bind (aeabi_uldivmod (dividend - d') divisor)
               (\<lambda>r. Some (map_sum id (\<lambda>temp. \<lparr>quot = q + quot temp, rem = rem temp\<rparr>) r))))"

text \<open>In \<^verbatim>\<open>__aeabi_idivmod\<close> both parameters are declared \<^verbatim>\<open>sw_uint\<close>, so the tests
  \<^verbatim>\<open>dividend < 0\<close> and \<^verbatim>\<open>divisor < 0\<close> are never true and \<^verbatim>\<open>sign\<close> stays 1: the two operands
  are used as they are.\<close>

partial_function (option) aeabi_idivmod :: "u32 \<Rightarrow> u32 \<Rightarrow> (panic + u32) option" where
  "aeabi_idivmod dividend divisor =
     (if divisor = 0 then Some (Inl Divide_by_0)
      else if divisor = dividend then Some (Inr 0)
      else if dividend < divisor then Some (Inr dividend)
      else if is_pow_of_2 (ucast divisor) then Some (Inr (dividend AND (divisor - 1)))
      else Option.bind (shift_loop dividend divisor 1)
             (\<lambda>(d', q). aeabi_idivmod (dividend - d') divisor))"

lemma shift_loop_unfold:
  "shift_loop n d q = (if push_bit 1 d \<le> n then shift_loop n (push_bit 1 d) (push_bit 1 q) else Some (d, q))"
  unfolding shift_loop_def by (subst while_option_unfold) simp

lemma shift_loop_spec:
  fixes d n :: "'a::len word"
  assumes "0 < unat d" and "d \<le> n" and "unat n < 2 ^ (LENGTH('a) - 1)"
  shows "\<exists>k d'. shift_loop n d q = Some (d', push_bit k q) \<and> unat d' = unat d * 2 ^ k \<and>
           d' \<le> n \<and> unat n < 2 * unat d'"
  using assms
proof (induction "unat n - unat d" arbitrary: d q rule: less_induct)
  case less
  have half: "2 * 2 ^ (LENGTH('a) - 1) = (2::nat) ^ LENGTH('a)"
    by (metis One_nat_def Suc_pred len_gt_0 power_Suc)
  have dn: "unat d \<le> unat n" using less.prems(2) by (simp add: word_le_nat_alt)
  then have "unat d * 2 < 2 ^ LENGTH('a)" using less.prems(3) half by linarith
  then have dbl: "unat (push_bit 1 d) = 2 * unat d" using unat_push_bit_small[of d 1] by simp
  show ?case
  proof (cases "push_bit 1 d \<le> n")
    case True
    have "unat n - unat (push_bit 1 d) < unat n - unat d"
      using True less.prems(1) dbl by (simp add: word_le_nat_alt)
    then obtain k d' where
      "shift_loop n (push_bit 1 d) (push_bit 1 q) = Some (d', push_bit k (push_bit 1 q))"
      "unat d' = unat (push_bit 1 d) * 2 ^ k" "d' \<le> n" "unat n < 2 * unat d'"
      using less.hyps[of "push_bit 1 d" "push_bit 1 q"] True less.prems dbl by auto
    then show ?thesis
      using True dbl by (intro exI[of _ "Suc k"] exI[of _ d']) (simp add: shift_loop_unfold[of n d] push_bit_Suc)
  next
    case False
    then show ?thesis
      using dbl less.prems
      by (intro exI[of _ 0] exI[of _ d]) (simp add: shift_loop_unfold[of n d] word_le_nat_alt)
  qed
qed

lemma shift_loop_diverges:
  assumes "\<And>x. x \<le> (n :: 'a::len word)" shows "shift_loop n d q = None"
proof (cases "shift_loop n d q")
  case (Some t)
  then have "\<not> (case t of (d, q) \<Rightarrow> push_bit 1 d \<le> n)"
    unfolding shift_loop_def by (rule while_option_stop)
  with assms show ?thesis by (auto split: prod.splits)
qed

lemma div_step:
  fixes n d m :: nat
  assumes "0 < d" "d * m \<le> n" shows "m + (n - d * m) div d = n div d" "(n - d * m) mod d = n mod d"
proof -
  obtain r where r: "n = r + d * m" using assms(2) by (metis add.commute le_Suc_ex)
  show "m + (n - d * m) div d = n div d" "(n - d * m) mod d = n mod d"
    using assms(1) by (simp_all add: r)
qed

lemma drop_bit_pow2: "k < LENGTH('a) \<Longrightarrow> drop_bit k n = n div (2 ^ k :: 'a::len word)"
  by (intro word_unat_eq_iff[THEN iffD2]) (simp only: unat_drop_bit unat_div unat_exp)

lemma division_step:
  fixes n d :: "'a::len word"
  assumes "0 < unat d" and "d \<le> n" and "unat n < 2 ^ (LENGTH('a) - 1)"
  obtains d' q where "shift_loop n d 1 = Some (d', q)" "unat (n - d') < unat n"
    "q + (n - d') div d = n div d" "(n - d') mod d = n mod d"
proof -
  obtain k d' where k: "shift_loop n d 1 = Some (d', push_bit k 1)" "unat d' = unat d * 2 ^ k"
    "d' \<le> n" "unat n < 2 * unat d'"
    using shift_loop_spec[OF assms, of 1] by blast
  have dn: "unat d * 2 ^ k \<le> unat n" using k by (simp add: word_le_nat_alt)
  have pk: "2 ^ k \<le> unat n" using dn assms(1) by (metis le_trans mult_le_mono1 nat_mult_1 Suc_leI One_nat_def)
  have "(2::nat) ^ k < 2 ^ (LENGTH('a) - 1)" using pk assms(3) by linarith
  then have "k < LENGTH('a) - 1" by (rule power_less_imp_less_exp[rotated]) simp
  then have kl: "k < LENGTH('a)" by simp
  have q: "unat (push_bit k 1 :: 'a word) = 2 ^ k" using kl by (simp add: push_bit_eq_mult unat_exp)
  have sub: "unat (n - d') = unat n - unat d * 2 ^ k" using k by (simp add: unat_sub_le)
  have quo: "2 ^ k + (unat n - unat d * 2 ^ k) div unat d = unat n div unat d"
    and rem: "(unat n - unat d * 2 ^ k) mod unat d = unat n mod unat d"
    using div_step[OF assms(1) dn] by auto
  have bound: "unat n div unat d < 2 ^ LENGTH('a)"
    using unat_lt_size[of n] div_le_dividend le_less_trans by blast
  have "unat (push_bit k 1 + (n - d') div d :: 'a word) = 2 ^ k + (unat n - unat d * 2 ^ k) div unat d"
    using bound quo by (subst unat_add_small; simp only: q unat_div sub)
  then have "push_bit k 1 + (n - d') div d = n div d"
    using quo by (intro word_unat_eq_iff[THEN iffD2]) (simp add: unat_div)
  moreover have "(n - d') mod d = n mod d"
    using rem by (intro word_unat_eq_iff[THEN iffD2]) (simp add: unat_mod sub)
  moreover have "unat (n - d') < unat n"
    using sub assms(1) dn by (metis diff_less le_zero_eq mult_is_0 not_gr_zero power_not_zero zero_neq_numeral)
  ultimately show ?thesis using that k(1) by blast
qed

lemma word_div_self: "d \<noteq> 0 \<Longrightarrow> d div d = (1 :: 'a::len word)"
  by (intro word_unat_eq_iff[THEN iffD2]) (simp add: unat_div unat_gt_0)

lemma word_div_less: "n < d \<Longrightarrow> n div d = (0 :: 'a::len word)"
  by (intro word_unat_eq_iff[THEN iffD2]) (simp add: unat_div word_less_nat_alt)

lemma word_mod_less: "n < d \<Longrightarrow> n mod d = (n :: 'a::len word)"
  by (intro word_unat_eq_iff[THEN iffD2]) (simp add: unat_mod word_less_nat_alt)

lemma and_pow2_minus_1: "n AND (2 ^ k - 1) = n mod (2 ^ k :: 'a::len word)" if "k < LENGTH('a)"
  using that by (intro word_unat_eq_iff[THEN iffD2])
    (simp only: unat_mod unat_exp unat_and_mask flip: mask_eq_exp_minus_1)

lemma drop_log_of_2:
  assumes "is_pow_of_2 (ucast (d :: u32))"
  shows "drop_bit (unat (log_of_2 d)) n = n div d"
proof -
  obtain k where k: "k < 32" "d = 2 ^ k" using ucast_pow2_imp[OF assms] by blast
  then show ?thesis by (simp add: log_of_2_exp drop_bit_pow2 unat_of_nat take_bit_nat_eq_self)
qed

text \<open>For every dividend below 2^31 and every non-zero divisor \<^verbatim>\<open>__aeabi_uidiv\<close>
  terminates and returns the quotient.\<close>

theorem aeabi_uidiv_correct:
  assumes "unat dividend < 2 ^ 31" and "divisor \<noteq> 0"
  shows "aeabi_uidiv dividend divisor = Some (Inr (dividend div divisor))"
  using assms
proof (induction "unat dividend" arbitrary: dividend rule: less_induct)
  case less
  have pos: "0 < unat divisor" using less.prems(2) by (simp add: unat_gt_0)
  consider "divisor = dividend" | "dividend < divisor" | "divisor < dividend" "is_pow_of_2 (ucast divisor)"
    | "divisor < dividend" "\<not> is_pow_of_2 (ucast divisor)" by fastforce
  then show ?case
  proof cases
    case 4
    obtain d' q where loop: "shift_loop dividend divisor 1 = Some (d', q)"
      and less_n: "unat (dividend - d') < unat dividend"
      and quo: "q + (dividend - d') div divisor = dividend div divisor"
      by (rule division_step[OF pos less_imp_le[OF 4(1)]]) (use less.prems in simp_all)
    have "aeabi_uidiv (dividend - d') divisor = Some (Inr ((dividend - d') div divisor))"
      using less.hyps[OF less_n] less.prems less_n by simp
    moreover have "divisor \<noteq> dividend" "\<not> dividend < divisor" using 4(1) by auto
    ultimately show ?thesis
      using 4 less.prems loop quo by (simp add: aeabi_uidiv.simps[of dividend divisor])
  qed (use less.prems in \<open>(subst aeabi_uidiv.simps, auto simp: word_div_self word_div_less drop_log_of_2)+\<close>)
qed

theorem aeabi_uidiv_correct_witness: "aeabi_uidiv 1000 7 = Some (Inr 142)"
  using aeabi_uidiv_correct[of 1000 7] by simp

text \<open>The shift in \<^verbatim>\<open>while (divisor<<1 <= dividend)\<close> wraps around: for the dividend
  0xFFFFFFFF the test holds for every divisor, so \<^verbatim>\<open>__aeabi_uidiv\<close> never returns, whatever
  the divisor, unless it is a power of two or the dividend itself.\<close>

theorem aeabi_uidiv_diverges:
  assumes "divisor \<noteq> 0" and "divisor \<noteq> 0xFFFFFFFF" and "\<not> is_pow_of_2 (ucast divisor)"
  shows "aeabi_uidiv 0xFFFFFFFF divisor = None"
proof -
  have le: "x \<le> (0xFFFFFFFF :: u32)" for x
    using unat_u32_lt[of x] by (simp add: word_le_nat_alt)
  then have "shift_loop 0xFFFFFFFF divisor 1 = None" by (rule shift_loop_diverges)
  then show ?thesis
    using assms le[of divisor] by (simp add: aeabi_uidiv.simps[of _ divisor] not_less)
qed

theorem aeabi_uidiv_diverges_witness: "aeabi_uidiv 0xFFFFFFFF 3 = None"
  by (rule aeabi_uidiv_diverges) (simp_all add: is_pow_of_2_def)

text \<open>The 64-bit division returns quotient and remainder for every dividend below 2^63
  and every non-zero divisor that is not a power of two above 2^31.\<close>

theorem aeabi_uldivmod_correct:
  assumes "unat dividend < 2 ^ 63" and "divisor \<noteq> 0"
    and "\<not> is_pow_of_2 divisor \<or> unat divisor < 2 ^ 32"
  shows "aeabi_uldivmod dividend divisor =
    Some (Inr \<lparr>quot = dividend div divisor, rem = dividend mod divisor\<rparr>)"
  using assms(1)
proof (induction "unat dividend" arbitrary: dividend rule: less_induct)
  case less
  have pos: "0 < unat divisor" using assms(2) by (simp add: unat_gt_0)
  consider "divisor = dividend" | "dividend < divisor" | "divisor < dividend" "is_pow_of_2 divisor"
    | "divisor < dividend" "\<not> is_pow_of_2 divisor" by fastforce
  then show ?case
  proof cases
    case 3
    then obtain k where k: "k < 64" "divisor = 2 ^ k" by (auto simp: is_pow_of_2_iff)
    then have "(2::nat) ^ k < 2 ^ 32" using assms(3) 3 by (simp add: unat_exp)
    then have k32: "k < 32" by (rule power_less_imp_less_exp[rotated]) simp
    then have "(ucast divisor :: u32) = 2 ^ k"
      using k by (intro bit_eqI) (auto simp: bit_simps)
    then have "unat (log_of_2 (ucast divisor)) = k"
      using k32 by (simp add: log_of_2_exp unat_of_nat take_bit_nat_eq_self)
    then have "drop_bit (unat (log_of_2 (ucast divisor))) dividend = dividend div divisor"
      and "dividend AND (divisor - 1) = dividend mod divisor"
      using k by (simp_all add: drop_bit_pow2 and_pow2_minus_1)
    moreover have "divisor \<noteq> dividend" "\<not> dividend < divisor" using 3 by auto
    ultimately show ?thesis
      using 3 assms(2) by (simp add: aeabi_uldivmod.simps[of dividend divisor])
  next
    case 4
    obtain d' q where loop: "shift_loop dividend divisor 1 = Some (d', q)"
      and less_n: "unat (dividend - d') < unat dividend"
      and quo: "q + (dividend - d') div divisor = dividend div divisor"
      and rem: "(dividend - d') mod divisor = dividend mod divisor"
      by (rule division_step[OF pos less_imp_le[OF 4(1)]]) (use less.prems in simp_all)
    have "aeabi_uldivmod (dividend - d') divisor =
        Some (Inr \<lparr>quot = (dividend - d') div divisor, rem = (dividend - d') mod divisor\<rparr>)"
      using less.hyps[OF less_n] less.prems less_n by simp
    moreover have "divisor \<noteq> dividend" "\<not> dividend < divisor" using 4(1) by auto
    ultimately show ?thesis
      using 4 assms(2) loop quo rem by (simp add: aeabi_uldivmod.simps[of dividend divisor])
  qed (use assms(2) in \<open>(subst aeabi_uldivmod.simps, auto simp: word_div_self word_div_less word_mod_less)+\<close>)
qed

theorem aeabi_uldivmod_correct_witness:
  "aeabi_uldivmod 1000000000000 7 = Some (Inr \<lparr>quot = 142857142857, rem = 1\<rparr>)"
  using aeabi_uldivmod_correct[of 1000000000000 7] by (simp add: is_pow_of_2_def)

text \<open>The logarithm is computed on the low 32 bits of the 64-bit divisor, so a divisor that is
  a power of two from 2^32 on is divided out as if it were 1.\<close>

lemma aeabi_uldivmod_high_power:
  assumes "32 \<le> k" "k < 64" "2 ^ k < dividend"
  shows "aeabi_uldivmod dividend (2 ^ k) =
    Some (Inr \<lparr>quot = dividend, rem = dividend AND (2 ^ k - 1)\<rparr>)"
proof -
  have "(ucast (2 ^ k :: u64) :: u32) = 0"
    using assms(1) by (intro bit_eqI) (auto simp: bit_simps)
  moreover have "is_pow_of_2 (2 ^ k)" using assms(2) by (auto simp: is_pow_of_2_iff)
  moreover have "2 ^ k \<noteq> dividend" "\<not> dividend < 2 ^ k" "(2 ^ k :: u64) \<noteq> 0"
    using assms by auto
  ultimately show ?thesis
    by (simp add: aeabi_uldivmod.simps[of dividend] log_of_2_zero)
qed

text \<open>\<^verbatim>\<open>__aeabi_idivmod\<close>, documented as signed, returns the unsigned remainder for dividends
  below 2^31.\<close>

lemma aeabi_idivmod_correct:
  assumes "unat dividend < 2 ^ 31" and "divisor \<noteq> 0"
  shows "aeabi_idivmod dividend divisor = Some (Inr (dividend mod divisor))"
  using assms(1)
proof (induction "unat dividend" arbitrary: dividend rule: less_induct)
  case less
  have pos: "0 < unat divisor" using assms(2) by (simp add: unat_gt_0)
  consider "divisor = dividend" | "dividend < divisor" | "divisor < dividend" "is_pow_of_2 (ucast divisor)"
    | "divisor < dividend" "\<not> is_pow_of_2 (ucast divisor)" by fastforce
  then show ?case
  proof cases
    case 3
    then obtain k where "k < 32" "divisor = 2 ^ k" using ucast_pow2_imp by blast
    then have "dividend AND (divisor - 1) = dividend mod divisor" by (simp add: and_pow2_minus_1)
    moreover have "divisor \<noteq> dividend" "\<not> dividend < divisor" using 3 by auto
    ultimately show ?thesis
      using 3 assms(2) by (simp add: aeabi_idivmod.simps[of dividend divisor])
  next
    case 4
    obtain d' q where loop: "shift_loop dividend divisor 1 = Some (d', q)"
      and less_n: "unat (dividend - d') < unat dividend"
      and rem: "(dividend - d') mod divisor = dividend mod divisor"
      by (rule division_step[OF pos less_imp_le[OF 4(1)]]) (use less.prems in simp_all)
    moreover have "divisor \<noteq> dividend" "\<not> dividend < divisor" using 4(1) by auto
    ultimately show ?thesis
      using 4 assms(2) less.hyps[OF less_n] less.prems
      by (simp add: aeabi_idivmod.simps[of dividend divisor])
  qed (use assms(2) in \<open>(subst aeabi_idivmod.simps, auto simp: word_mod_less)+\<close>)
qed

text \<open>At the two's complement reading of the arguments the documented contract fails: -7 mod 7
  does not return at all.\<close>

lemma aeabi_idivmod_negative: "aeabi_idivmod (- 1) 7 = None"
proof -
  have "x \<le> (- 1 :: u32)" for x by simp
  then have "shift_loop (- 1 :: u32) 7 1 = None" by (rule shift_loop_diverges)
  then show ?thesis by (simp add: aeabi_idivmod.simps[of _ 7] is_pow_of_2_def)
qed

section \<open>sw_endian.c\<close>

definition change_endian :: "u32 \<Rightarrow> u32" where
  "change_endian value =
     (let m1 = 0 OR drop_bit 24 (0xFF000000 AND value);
          m2 = m1 OR drop_bit 8 (0x00FF0000 AND value);
          m3 = m2 OR push_bit 8 (0x0000FF00 AND value);
          m4 = m3 OR push_bit 24 (0x000000FF AND value)
      in m4)"

lemma change_endian_bit:
  assumes "n < 32"
  shows "bit (change_endian v) n \<longleftrightarrow> bit v (8 * (3 - n div 8) + n mod 8)"
proof -
  have "\<forall>n\<in>set [0..<32]. bit (change_endian v) n \<longleftrightarrow> bit v (8 * (3 - n div 8) + n mod 8)"
    unfolding change_endian_def Let_def
    by (simp add: bit_simps upt_rec bit_numeral_rec) (simp add: numeral_eq_Suc)
  then show ?thesis using assms by simp
qed

text \<open>\<^verbatim>\<open>change_endian\<close> reverses the four bytes of its argument and undoes itself.\<close>

theorem change_endian_involutive:
  "change_endian (change_endian v) = v \<and>
   (\<forall>n<32. bit (change_endian v) n \<longleftrightarrow> bit v (8 * (3 - n div 8) + n mod 8))"
proof -
  have "change_endian (change_endian v) = v"
  proof (rule bit_word_eqI)
    fix n :: nat assume n: "n < LENGTH(32)"
    let ?m = "8 * (3 - n div 8) + n mod 8"
    have q: "n div 8 \<le> 3" "n mod 8 < 8" using n by auto
    then have md: "?m div 8 = 3 - n div 8" "?m mod 8 = n mod 8" by simp_all
    have m: "?m < 32" "8 * (3 - ?m div 8) + ?m mod 8 = n"
      using q unfolding md by (linarith, simp only: diff_diff_cancel mult_div_mod_eq)
    show "bit (change_endian (change_endian v)) n \<longleftrightarrow> bit v n"
      using change_endian_bit[of n "change_endian v"] change_endian_bit[of ?m v] n m by simp
  qed
  then show ?thesis by (simp add: change_endian_bit)
qed

theorem change_endian_involutive_witness:
  "change_endian (change_endian 0x11223344) = 0x11223344 \<and> change_endian 0x11223344 = 0x44332211"
proof
  show "change_endian (change_endian 0x11223344) = 0x11223344"
    using change_endian_involutive[of "0x11223344"] by blast
  show "change_endian 0x11223344 = 0x44332211" by code_simp
qed

end
