(* ===== verification/Range_Alloc.thy ===== *)
theory Range_Alloc
  imports Prelude
begin

text \<open>
  The interface every allocator of contiguous numbered units in the kernel provides to its
  clients: the physical page bitmap and the virtual page bitmap of \<^verbatim>\<open>mem_mng.c\<close> and the
  shared-memory slot pool of \<^verbatim>\<open>sw_shared_memory.c\<close> are instances.  \<open>used s\<close> is the set of units
  that are handed out, \<open>take\<close> hands out a run of units and \<open>release\<close> returns a run.  What a
  client may rely on is proved once here: ranges obtained one after the other are disjoint,
  and returning a range undoes taking it.
\<close>

definition units :: "nat \<times> nat \<Rightarrow> nat set" where
  "units r = {fst r ..< fst r + snd r}"

fun ranges_disjoint :: "(nat \<times> nat) list \<Rightarrow> bool" where
  "ranges_disjoint [] \<longleftrightarrow> True"
| "ranges_disjoint (r # rs) \<longleftrightarrow> (\<forall>q\<in>set rs. units r \<inter> units q = {}) \<and> ranges_disjoint rs"

lemma ranges_disjoint_remove1:
  "ranges_disjoint rs \<Longrightarrow> ranges_disjoint (remove1 r rs)"
  by (induction rs) (auto dest: notin_set_remove1)

lemma ranges_disjoint_not_in:
  "ranges_disjoint rs \<Longrightarrow> r \<in> set rs \<Longrightarrow> q \<in> set (remove1 r rs) \<Longrightarrow> units r \<inter> units q = {}"
  by (induction rs) (auto dest: notin_set_remove1 split: if_splits)

locale range_allocator =
  fixes used :: "'s \<Rightarrow> nat set"
    and take_run :: "nat \<Rightarrow> 's \<Rightarrow> (nat \<times> 's) option"
    and release :: "nat \<Rightarrow> nat \<Rightarrow> 's \<Rightarrow> 's"
  assumes take_fresh: "take_run n s = Some (i, s') \<Longrightarrow> units (i, n) \<inter> used s = {}"
    and take_used: "take_run n s = Some (i, s') \<Longrightarrow> used s' = used s \<union> units (i, n)"
    and release_used: "used (release i n s) = used s - units (i, n)"
begin

lemma release_take:
  "take_run n s = Some (i, s') \<Longrightarrow> used (release i n s') = used s"
  using take_fresh take_used release_used by blast

lemma takes_disjoint:
  "take_run n s = Some (i, s') \<Longrightarrow> take_run m s' = Some (j, s'') \<Longrightarrow>
     units (i, n) \<inter> units (j, m) = {}"
  using take_fresh take_used by blast

definition owns :: "'s \<Rightarrow> (nat \<times> nat) list \<Rightarrow> bool" where
  "owns s rs \<longleftrightarrow> ranges_disjoint rs \<and> (\<forall>r\<in>set rs. units r \<subseteq> used s)"

lemma owns_take: "owns s rs \<Longrightarrow> take_run n s = Some (i, s') \<Longrightarrow> owns s' ((i, n) # rs)"
  using take_fresh[of n s i s'] take_used[of n s i s'] unfolding owns_def by auto

lemma owns_release:
  assumes "owns s rs" and "(i, n) \<in> set rs"
  shows "owns (release i n s) (remove1 (i, n) rs)"
proof -
  have "units q \<subseteq> used s - units (i, n)" if "q \<in> set (remove1 (i, n) rs)" for q
    using assms that ranges_disjoint_not_in[of rs "(i, n)" q] notin_set_remove1[of q rs]
    unfolding owns_def by blast
  then show ?thesis
    using assms by (auto simp: owns_def release_used ranges_disjoint_remove1)
qed

end

end
