(* ===== verification/Mem_Mng.thy ===== *)
theory Mem_Mng
  imports Range_Alloc
begin

text \<open>
  The secure world's page manager, \<^verbatim>\<open>src/core/mem_mng.c\<close>.  \<open>mem_info\<close> is
  \<^verbatim>\<open>struct secure_world_mem_info\<close>: one bitmap of 4K pages for the physical region and one for
  the virtual region, 32 pages to a word with page \<open>i\<close> at bit \<open>31 - i mod 32\<close> of word
  \<open>i div 32\<close>, and a counter of free pages for each.  A bitmap is the memory from its base
  address on, a function from word index to word.  The calls into \<^verbatim>\<open>page_table.c\<close> are
  recorded in order in \<open>pt_calls\<close>; the address translation \<^verbatim>\<open>secure_vir_to_phy\<close> (an MMU
  lookup) is the parameter \<open>v2p\<close>.
\<close>

datatype pt_call = Map_Kernel_Data u32 u32 u32 | Unmap_Kernel u32 u32

record mem_info =
  vir_mem_bmap :: "nat \<Rightarrow> u32"
  phy_mem_bmap :: "nat \<Rightarrow> u32"
  vir_mem_bmap_len :: u32
  phy_mem_bmap_len :: u32
  vir_addr_start :: u32
  vir_memregion_size :: u32
  phy_addr_start :: u32
  phy_memregion_size :: u32
  num_phy_pag_free :: u32
  num_vir_pag_free :: u32
  page_scope :: u32
  elf_flag :: u32
  pt_calls :: "pt_call list"

section \<open>Bitmaps\<close>

definition bmap_test :: "(nat \<Rightarrow> u32) \<Rightarrow> nat \<Rightarrow> bool" where
  "bmap_test bm i \<longleftrightarrow> bm (i div 32) AND push_bit (31 - i mod 32) 1 \<noteq> 0"

definition bmap_mark :: "(nat \<Rightarrow> u32) \<Rightarrow> nat \<Rightarrow> (nat \<Rightarrow> u32)" where
  "bmap_mark bm i = bm(i div 32 := bm (i div 32) OR push_bit (31 - i mod 32) 1)"

definition bmap_clear :: "(nat \<Rightarrow> u32) \<Rightarrow> nat \<Rightarrow> (nat \<Rightarrow> u32)" where
  "bmap_clear bm i = bm(i div 32 := bm (i div 32) AND NOT (push_bit (31 - i mod 32) 1))"

text \<open>The inner scan: how many of the \<open>n\<close> pages from \<open>iter\<close> on are free before the first
  marked one.\<close>

fun count_free :: "(nat \<Rightarrow> u32) \<Rightarrow> nat \<Rightarrow> nat \<Rightarrow> nat \<Rightarrow> nat" where
  "count_free bm iter 0 avl_cnt = avl_cnt"
| "count_free bm iter (Suc n) avl_cnt =
     (if bmap_test bm iter then avl_cnt else count_free bm (Suc iter) n (Suc avl_cnt))"

text \<open>The outer scan: the first start below \<open>bound\<close> whose run of \<open>req\<close> pages is free.\<close>

function find_run :: "(nat \<Rightarrow> u32) \<Rightarrow> nat \<Rightarrow> nat \<Rightarrow> nat \<Rightarrow> nat option" where
  "find_run bm req bound start =
     (if start < bound
      then if count_free bm start req 0 = req then Some start else find_run bm req bound (Suc start)
      else None)"
  by pat_completeness auto
termination by (relation "measure (\<lambda>(_, _, bound, start). bound - start)") auto

declare find_run.simps [simp del]

fun mark_pages :: "(nat \<Rightarrow> u32) \<Rightarrow> nat \<Rightarrow> nat \<Rightarrow> (nat \<Rightarrow> u32)" where
  "mark_pages bm start 0 = bm"
| "mark_pages bm start (Suc n) = mark_pages (bmap_mark bm start) (Suc start) n"

fun clear_pages :: "(nat \<Rightarrow> u32) \<Rightarrow> nat \<Rightarrow> nat \<Rightarrow> (nat \<Rightarrow> u32)" where
  "clear_pages bm start 0 = bm"
| "clear_pages bm start (Suc n) = clear_pages (bmap_clear bm start) (Suc start) n"

section \<open>Allocation\<close>

text \<open>The guard on the free counter and the scan, which both allocators start with.\<close>

definition alloc_run :: "(nat \<Rightarrow> u32) \<Rightarrow> u32 \<Rightarrow> u32 \<Rightarrow> nat \<Rightarrow> nat option" where
  "alloc_run bm bmap_len num_free req_cnt =
     (if unat num_free < req_cnt then None
      else find_run bm req_cnt (unat (push_bit 3 bmap_len - of_nat req_cnt)) 0)"

definition phy_take :: "nat \<Rightarrow> mem_info \<Rightarrow> (nat \<times> mem_info) option" where
  "phy_take req_cnt info =
     (case alloc_run (phy_mem_bmap info) (phy_mem_bmap_len info) (num_phy_pag_free info) req_cnt of
        None \<Rightarrow> None
      | Some start \<Rightarrow>
          Some (start, info\<lparr>phy_mem_bmap := mark_pages (phy_mem_bmap info) start req_cnt,
                            num_phy_pag_free := num_phy_pag_free info - of_nat req_cnt\<rparr>))"

definition phy_release :: "nat \<Rightarrow> nat \<Rightarrow> mem_info \<Rightarrow> mem_info" where
  "phy_release start n info =
     info\<lparr>phy_mem_bmap := clear_pages (phy_mem_bmap info) start n,
          num_phy_pag_free := num_phy_pag_free info + of_nat n\<rparr>"

definition vir_mark :: "nat \<Rightarrow> nat \<Rightarrow> mem_info \<Rightarrow> mem_info" where
  "vir_mark start n info =
     info\<lparr>vir_mem_bmap := mark_pages (vir_mem_bmap info) start n,
          num_vir_pag_free := num_vir_pag_free info - of_nat n\<rparr>"

definition vir_take :: "nat \<Rightarrow> mem_info \<Rightarrow> (nat \<times> mem_info) option" where
  "vir_take req_cnt info =
     (case alloc_run (vir_mem_bmap info) (vir_mem_bmap_len info) (num_vir_pag_free info) req_cnt of
        None \<Rightarrow> None
      | Some start \<Rightarrow> Some (start, vir_mark start req_cnt info))"

definition vir_release :: "nat \<Rightarrow> nat \<Rightarrow> mem_info \<Rightarrow> mem_info" where
  "vir_release start n info =
     info\<lparr>vir_mem_bmap := clear_pages (vir_mem_bmap info) start n,
          num_vir_pag_free := num_vir_pag_free info + of_nat n\<rparr>"

definition sw_phy_page_alloc :: "u32 \<Rightarrow> mem_info \<Rightarrow> mem_info \<times> u32" where
  "sw_phy_page_alloc sz info =
     (case phy_take (pages_of sz) info of
        None \<Rightarrow> (info, 0)
      | Some (start, info') \<Rightarrow> (info', push_bit PAGE_SHIFT (of_nat start) + phy_addr_start info))"

text \<open>The virtual run is looked for first and marked last, after the physical pages have been
  allocated: a failure of the physical allocation leaves the virtual bitmap as it was.\<close>

definition sw_vir_page_alloc :: "u32 \<Rightarrow> mem_info \<Rightarrow> mem_info \<times> u32 sw_result" where
  "sw_vir_page_alloc sz info =
     (let size' = page_align sz; req_cnt = pages_of sz in
      case alloc_run (vir_mem_bmap info) (vir_mem_bmap_len info) (num_vir_pag_free info) req_cnt of
        None \<Rightarrow> (info, Inl SW_ENOMEM)
      | Some start \<Rightarrow>
          (case sw_phy_page_alloc size' info of (info1, phy_addr) \<Rightarrow>
             if phy_addr = 0 then (info1, Inl SW_ENOMEM)
             else let vir_addr = push_bit PAGE_SHIFT (of_nat start) + vir_addr_start info1;
                      info2 = vir_mark start req_cnt info1
               in (info2\<lparr>pt_calls := pt_calls info2 @ [Map_Kernel_Data vir_addr phy_addr size']\<rparr>,
                   Inr vir_addr)))"

section \<open>Reservation and release\<close>

text \<open>\<^verbatim>\<open>size\<close> is a C \<^verbatim>\<open>int\<close> in the remaining operations, so \<^verbatim>\<open>size >> PAGE_SHIFT\<close> keeps the sign.\<close>

definition signed_pages :: "u32 \<Rightarrow> u32" where
  "signed_pages sz = signed_drop_bit PAGE_SHIFT (page_align sz)"

text \<open>The number of iterations of \<^verbatim>\<open>for(; x < x0 + cnt; x++)\<close> in \<^verbatim>\<open>sw_uint\<close> arithmetic.\<close>

definition loop_count :: "u32 \<Rightarrow> u32 \<Rightarrow> nat" where
  "loop_count x0 cnt = unat (x0 + cnt) - unat x0"

definition sw_phy_addr_reserve :: "u32 \<Rightarrow> u32 \<Rightarrow> mem_info \<Rightarrow> mem_info \<times> unit sw_result" where
  "sw_phy_addr_reserve phy_addr sz info =
     (if phy_addr < phy_addr_start info \<or> phy_addr > phy_addr_start info + phy_memregion_size info
      then (info, Inl SW_EINVAL)
      else let pg_cnt = signed_pages sz;
               res_pa = drop_bit PAGE_SHIFT (phy_addr - phy_addr_start info);
               avl_cnt = count_free (phy_mem_bmap info) (unat res_pa) (loop_count res_pa pg_cnt) 0;
               n = unat (drop_bit PAGE_SHIFT (page_align sz))
           in if avl_cnt \<noteq> unat pg_cnt then (info, Inl SW_EINVAL)
              else (info\<lparr>phy_mem_bmap := mark_pages (phy_mem_bmap info) (unat res_pa) n,
                         num_phy_pag_free := num_phy_pag_free info - of_nat n\<rparr>, Inr ()))"

definition sw_vir_addr_reserve :: "u32 \<Rightarrow> u32 \<Rightarrow> mem_info \<Rightarrow> mem_info \<times> unit sw_result" where
  "sw_vir_addr_reserve vir_addr sz info =
     (if vir_addr < vir_addr_start info \<or> vir_addr > vir_addr_start info + vir_memregion_size info
      then (info, Inl SW_EINVAL)
      else let pg_cnt = signed_pages sz;
               res_va = drop_bit PAGE_SHIFT (vir_addr - vir_addr_start info);
               avl_cnt = count_free (vir_mem_bmap info) (unat res_va) (loop_count res_va pg_cnt) 0;
               n = unat (drop_bit PAGE_SHIFT (page_align sz))
           in if avl_cnt \<noteq> unat pg_cnt then (info, Inl SW_EINVAL)
              else (vir_mark (unat res_va) n info, Inr ()))"

text \<open>The loop \<^verbatim>\<open>while(size > 0)\<close> of \<^verbatim>\<open>sw_vir_free_reserve\<close> runs once per page of a positive
  size and not at all for a negative one.\<close>

definition sw_vir_free_reserve :: "u32 \<Rightarrow> u32 \<Rightarrow> mem_info \<Rightarrow> mem_info \<times> unit sw_result" where
  "sw_vir_free_reserve vir_addr sz info =
     (if vir_addr < vir_addr_start info \<or> vir_addr > vir_addr_start info + vir_memregion_size info
      then (info, Inl SW_EINVAL)
      else let res_va = drop_bit PAGE_SHIFT (vir_addr - vir_addr_start info);
               n = (if sint (page_align sz) > 0 then pages_of sz else 0)
           in (vir_release (unat res_va) n info, Inr ()))"

definition sw_phy_addr_free :: "u32 \<Rightarrow> u32 \<Rightarrow> mem_info \<Rightarrow> mem_info \<times> unit sw_result" where
  "sw_phy_addr_free phy_addr sz info =
     (if phy_addr < phy_addr_start info \<or> phy_addr > phy_addr_start info + phy_memregion_size info
      then (info, Inl SW_ENOMEM)
      else let fr_phy = drop_bit PAGE_SHIFT (phy_addr - phy_addr_start info);
               n = loop_count fr_phy (signed_pages sz)
           in (phy_release (unat fr_phy) n info, Inr ()))"

text \<open>The bound check of \<^verbatim>\<open>sw_vir_addr_free\<close> adds the region size to a word pointer, so the
  size is scaled by four.  The result of the nested \<^verbatim>\<open>sw_phy_addr_free\<close> is ignored.\<close>

definition sw_vir_addr_free :: "(u32 \<Rightarrow> u32) \<Rightarrow> u32 \<Rightarrow> u32 \<Rightarrow> mem_info \<Rightarrow> mem_info \<times> unit sw_result" where
  "sw_vir_addr_free v2p vir_addr sz info =
     (if vir_addr < vir_addr_start info \<or> vir_addr > vir_addr_start info + 4 * vir_memregion_size info
      then (info, Inl SW_ENOMEM)
      else let size' = page_align sz;
               fr_vir = drop_bit PAGE_SHIFT (vir_addr - vir_addr_start info);
               n = loop_count fr_vir (signed_pages sz);
               info1 = vir_release (unat fr_vir) n info;
               info2 = fst (sw_phy_addr_free (v2p vir_addr) size' info1)
           in (info2\<lparr>pt_calls := pt_calls info2 @ [Unmap_Kernel vir_addr size']\<rparr>, Inr ()))"

section \<open>Initialisation\<close>

text \<open>\<^verbatim>\<open>sw_meminfo_init\<close>: the RAM limits come from the board and the code limits from the
  linker, both arguments here.  The marking loops step a page address from the start of the
  region to \<^verbatim>\<open>start + tot_len_to_alloc\<close>; their iteration count is written out.\<close>

definition page_loop_count :: "u32 \<Rightarrow> u32 \<Rightarrow> nat" where
  "page_loop_count x0 len = (loop_count x0 len + 4095) div 4096"

definition sw_meminfo_init :: "u32 \<Rightarrow> u32 \<Rightarrow> u32 \<Rightarrow> u32 \<Rightarrow> mem_info" where
  "sw_meminfo_init ram_start ram_end code_start code_end =
     (let size0 = ram_end - ram_start + 1;
          vsize = size0;
          off = ram_start AND 0xFFF;
          start1 = (if off \<noteq> 0 then ram_start + (PAGE_SIZE - off) else ram_start);
          size1 = (if off \<noteq> 0 then size0 - (PAGE_SIZE - (start1 AND 0xFFF)) else size0);
          size2 = (if size1 AND 0xFFF \<noteq> 0 then size1 - (size1 AND 0xFFF) else size1);
          plen0 = drop_bit (PAGE_SHIFT + 3) size2 + 1;
          plen = (if plen0 AND 3 \<noteq> 0 then plen0 + (4 - (plen0 AND 3)) else plen0);
          vlen = drop_bit (PAGE_SHIFT + 3) vsize + 1;
          tot = (code_end - code_start) + SECTION_SIZE;
          np = page_loop_count start1 tot;
          nv = page_loop_count code_start tot
      in \<lparr>vir_mem_bmap = mark_pages (\<lambda>_. 0) 0 nv, phy_mem_bmap = mark_pages (\<lambda>_. 0) 0 np,
          vir_mem_bmap_len = vlen, phy_mem_bmap_len = plen,
          vir_addr_start = code_start, vir_memregion_size = vsize,
          phy_addr_start = start1, phy_memregion_size = size2,
          num_phy_pag_free = drop_bit PAGE_SHIFT size0 - of_nat np,
          num_vir_pag_free = drop_bit PAGE_SHIFT vsize - of_nat nv,
          page_scope = 0, elf_flag = 0, pt_calls = []\<rparr>)"

section \<open>Bitmap lemmas\<close>

lemma bmap_test_bit: "bmap_test bm i \<longleftrightarrow> bit (bm (i div 32)) (31 - i mod 32)"
  unfolding bmap_test_def by (rule bit_iff_and_push_bit_not_eq_0[symmetric])

lemma page_bit_eq_iff: "i div 32 = j div 32 \<Longrightarrow> 31 - i mod 32 = 31 - j mod 32 \<longleftrightarrow> i = (j :: nat)"
proof -
  assume d: "i div 32 = j div 32"
  have "31 - i mod 32 = 31 - j mod 32 \<longleftrightarrow> i mod 32 = j mod 32"
    using mod_less_divisor[of 32 i] mod_less_divisor[of 32 j] by linarith
  also have "\<dots> \<longleftrightarrow> i = j" using d by (metis div_mult_mod_eq)
  finally show ?thesis .
qed

lemma bit_page_mask: "m < 32 \<Longrightarrow> bit (2 ^ m :: u32) n \<longleftrightarrow> n = m"
  by (auto simp: bit_exp_iff)

lemma test_mark [simp]: "bmap_test (bmap_mark bm i) j \<longleftrightarrow> j = i \<or> bmap_test bm j"
proof (cases "i div 32 = j div 32")
  case True
  have "bmap_test (bmap_mark bm i) j \<longleftrightarrow> bmap_test bm j \<or> 31 - j mod 32 = 31 - i mod 32"
    using True by (simp add: bmap_test_bit bmap_mark_def bit_or_iff bit_page_mask)
  then show ?thesis using page_bit_eq_iff[OF True] by metis
next
  case False
  then show ?thesis by (auto simp: bmap_test_bit bmap_mark_def)
qed

lemma test_clear [simp]: "bmap_test (bmap_clear bm i) j \<longleftrightarrow> j \<noteq> i \<and> bmap_test bm j"
proof (cases "i div 32 = j div 32")
  case True
  have "bmap_test (bmap_clear bm i) j \<longleftrightarrow> bmap_test bm j \<and> 31 - j mod 32 \<noteq> 31 - i mod 32"
    using True by (auto simp: bmap_test_bit bmap_clear_def bit_and_iff bit_not_iff bit_page_mask)
  then show ?thesis using page_bit_eq_iff[OF True] by metis
next
  case False
  then show ?thesis by (auto simp: bmap_test_bit bmap_clear_def)
qed

lemma test_mark_pages [simp]:
  "bmap_test (mark_pages bm s n) j \<longleftrightarrow> j \<in> {s..<s + n} \<or> bmap_test bm j"
  by (induction bm s n rule: mark_pages.induct) auto

lemma test_clear_pages [simp]:
  "bmap_test (clear_pages bm s n) j \<longleftrightarrow> j \<notin> {s..<s + n} \<and> bmap_test bm j"
  by (induction bm s n rule: clear_pages.induct) auto

text \<open>A bitmap is determined by its pages.\<close>

lemma bmap_eqI: "(\<And>i. bmap_test bm i = bmap_test bm' i) \<Longrightarrow> bm = bm'"
proof (rule ext, rule bit_word_eqI)
  fix w n assume eq: "\<And>i. bmap_test bm i = bmap_test bm' i" and n: "n < LENGTH(32)"
  define m where "m = 31 - n"
  have "m < 32" "n = 31 - m" using n by (auto simp: m_def)
  then have "(w * 32 + m) div 32 = w" "31 - (w * 32 + m) mod 32 = n" by auto
  then show "bit (bm w) n = bit (bm' w) n"
    using eq[of "w * 32 + m"] by (simp add: bmap_test_bit)
qed

text \<open>All pages of a run are free.\<close>

definition run_free :: "(nat \<Rightarrow> u32) \<Rightarrow> nat \<Rightarrow> nat \<Rightarrow> bool" where
  "run_free bm s n \<longleftrightarrow> (\<forall>i\<in>{s..<s + n}. \<not> bmap_test bm i)"

lemma run_free_Suc: "run_free bm s (Suc n) \<longleftrightarrow> \<not> bmap_test bm s \<and> run_free bm (Suc s) n"
proof -
  have "{s..<s + Suc n} = insert s {Suc s..<Suc s + n}" by auto
  then show ?thesis by (simp add: run_free_def)
qed

lemma run_free_0 [simp]: "run_free bm s 0"
  by (simp add: run_free_def)

lemma clear_mark_pages: "run_free bm s n \<Longrightarrow> clear_pages (mark_pages bm s n) s n = bm"
  by (rule bmap_eqI) (auto simp: run_free_def)

lemma count_free_le: "count_free bm s n a \<le> a + n"
proof (induction bm s n a rule: count_free.induct)
  case (2 bm s n a)
  then show ?case by (cases "bmap_test bm s") auto
qed simp

lemma count_free_all: "count_free bm s n a = a + n \<longleftrightarrow> run_free bm s n"
proof (induction bm s n a rule: count_free.induct)
  case (2 bm s n a)
  then show ?case by (cases "bmap_test bm s") (simp_all add: run_free_Suc)
qed simp

lemma count_free_0: "count_free bm s n 0 = n \<longleftrightarrow> run_free bm s n"
  using count_free_all[of bm s n 0] by simp

lemma find_run_unfold:
  "find_run bm n b s =
     (if s < b then if run_free bm s n then Some s else find_run bm n b (Suc s) else None)"
  by (subst find_run.simps) (simp add: count_free_0)

lemma find_run_Some:
  "find_run bm n b s = Some r \<Longrightarrow>
     s \<le> r \<and> r < b \<and> run_free bm r n \<and> (\<forall>r'. s \<le> r' \<and> r' < r \<longrightarrow> \<not> run_free bm r' n)"
proof (induction bm n b s rule: find_run.induct)
  case (1 bm n b s)
  show ?case
  proof (cases "s < b \<and> \<not> run_free bm s n")
    case True
    then have ih: "Suc s \<le> r \<and> r < b \<and> run_free bm r n \<and>
        (\<forall>r'. Suc s \<le> r' \<and> r' < r \<longrightarrow> \<not> run_free bm r' n)"
      using "1.IH" "1.prems" by (simp add: find_run_unfold[of bm n b s] count_free_0)
    have "\<not> run_free bm r' n" if "s \<le> r'" "r' < r" for r'
      using ih True that by (cases "r' = s") auto
    then show ?thesis using ih by auto
  next
    case False
    then show ?thesis using "1.prems" by (auto simp: find_run_unfold[of bm n b s] split: if_splits)
  qed
qed

lemma find_run_None:
  "find_run bm n b s = None \<longleftrightarrow> (\<forall>r. s \<le> r \<and> r < b \<longrightarrow> \<not> run_free bm r n)"
proof (induction bm n b s rule: find_run.induct)
  case (1 bm n b s)
  show ?case
  proof (cases "s < b \<and> \<not> run_free bm s n")
    case True
    then have "find_run bm n b s = None \<longleftrightarrow> (\<forall>r. Suc s \<le> r \<and> r < b \<longrightarrow> \<not> run_free bm r n)"
      using "1.IH" by (simp add: find_run_unfold[of bm n b s] count_free_0)
    also have "\<dots> \<longleftrightarrow> (\<forall>r. s \<le> r \<and> r < b \<longrightarrow> \<not> run_free bm r n)"
      using True by (metis Suc_leD Suc_leI le_neq_implies_less)
    finally show ?thesis .
  next
    case False
    then show ?thesis by (auto simp: find_run_unfold[of bm n b s])
  qed
qed

section \<open>The allocators as range allocators\<close>

definition phy_used :: "mem_info \<Rightarrow> nat set" where
  "phy_used info = {i. bmap_test (phy_mem_bmap info) i}"

definition vir_used :: "mem_info \<Rightarrow> nat set" where
  "vir_used info = {i. bmap_test (vir_mem_bmap info) i}"

lemma alloc_run_Some:
  assumes "alloc_run bm len nfree n = Some r"
  shows "n \<le> unat nfree" and "run_free bm r n"
    and "r < unat (push_bit 3 len - of_nat n :: u32)"
    and "r' < r \<Longrightarrow> \<not> run_free bm r' n"
  using assms find_run_Some[of bm n "unat (push_bit 3 len - of_nat n)" 0 r]
  by (auto simp: alloc_run_def split: if_splits)

lemma alloc_run_None:
  "alloc_run bm len nfree n = None \<longleftrightarrow>
     unat nfree < n \<or> (\<forall>r < unat (push_bit 3 len - of_nat n :: u32). \<not> run_free bm r n)"
  by (simp add: alloc_run_def find_run_None)

lemma phy_take_Some:
  "phy_take n info = Some (r, info') \<longleftrightarrow>
     alloc_run (phy_mem_bmap info) (phy_mem_bmap_len info) (num_phy_pag_free info) n = Some r \<and>
     info' = info\<lparr>phy_mem_bmap := mark_pages (phy_mem_bmap info) r n,
                  num_phy_pag_free := num_phy_pag_free info - of_nat n\<rparr>"
  by (auto simp: phy_take_def split: option.splits)

lemma vir_take_Some:
  "vir_take n info = Some (r, info') \<longleftrightarrow>
     alloc_run (vir_mem_bmap info) (vir_mem_bmap_len info) (num_vir_pag_free info) n = Some r \<and>
     info' = vir_mark r n info"
  by (auto simp: vir_take_def split: option.splits)

interpretation phy: range_allocator phy_used phy_take phy_release
proof (unfold_locales, goal_cases)
  case (1 n s i s')
  then show ?case
    using alloc_run_Some(2) by (auto simp: phy_take_Some units_def phy_used_def run_free_def)
qed (auto simp: phy_take_Some units_def phy_used_def phy_release_def)

interpretation vir: range_allocator vir_used vir_take vir_release
proof (unfold_locales, goal_cases)
  case (1 n s i s')
  then show ?case
    using alloc_run_Some(2) by (auto simp: vir_take_Some units_def vir_used_def run_free_def)
qed (auto simp: vir_take_Some units_def vir_used_def vir_release_def vir_mark_def)

text \<open>A bitmap whose counter does not exceed its bits and whose page addresses do not wrap.\<close>

definition bmap_sized :: "u32 \<Rightarrow> u32 \<Rightarrow> u32 \<Rightarrow> bool" where
  "bmap_sized base bmap_len num_free \<longleftrightarrow>
     0 < unat base \<and> unat num_free \<le> 8 * unat bmap_len \<and>
     unat base + 4096 * (8 * unat bmap_len) \<le> 2 ^ 32"

definition phy_sized :: "mem_info \<Rightarrow> bool" where
  "phy_sized info \<longleftrightarrow> bmap_sized (phy_addr_start info) (phy_mem_bmap_len info) (num_phy_pag_free info)"

definition vir_sized :: "mem_info \<Rightarrow> bool" where
  "vir_sized info \<longleftrightarrow> bmap_sized (vir_addr_start info) (vir_mem_bmap_len info) (num_vir_pag_free info)"

lemma bmap_bound:
  assumes "bmap_sized base len nfree" and "n \<le> unat nfree"
  shows "unat (push_bit 3 len - of_nat n :: u32) = 8 * unat len - n"
proof -
  have len: "unat (push_bit 3 len) = 8 * unat len"
    using assms(1) by (subst unat_push_bit_small) (auto simp: bmap_sized_def)
  have n: "unat (of_nat n :: u32) = n"
    using assms unat_u32_lt[of nfree] by (intro unat_of_nat_small) auto
  have "(of_nat n :: u32) \<le> push_bit 3 len"
    using assms len n by (auto simp: word_le_nat_alt bmap_sized_def)
  then show ?thesis using len n by (simp only: unat_sub_le)
qed

lemma alloc_run_in_bitmap:
  assumes "bmap_sized base len nfree" and "alloc_run bm len nfree n = Some r"
  shows "r + n < 8 * unat len"
  using alloc_run_Some(1,3)[OF assms(2)] bmap_bound[OF assms(1)] by simp

lemma page_addr:
  assumes "bmap_sized base len nfree" and "r < 8 * unat len"
  shows "unat (push_bit PAGE_SHIFT (of_nat r) + base) = unat base + 4096 * r"
    and "drop_bit PAGE_SHIFT (push_bit PAGE_SHIFT (of_nat r) + base - base) = of_nat r"
    and "push_bit PAGE_SHIFT (of_nat r) + base \<noteq> 0"
proof -
  have len: "8 * unat len \<le> 2 ^ 20" using assms(1) by (auto simp: bmap_sized_def)
  have r: "unat (of_nat r :: u32) = r"
    using assms(2) len by (intro unat_of_nat_small) auto
  have sh: "unat (push_bit PAGE_SHIFT (of_nat r :: u32)) = 4096 * r"
    using assms(2) len r by (subst unat_push_bit_small) (auto simp: PAGE_SHIFT_def)
  show add: "unat (push_bit PAGE_SHIFT (of_nat r) + base) = unat base + 4096 * r"
    using assms sh by (subst unat_add_small) (auto simp: bmap_sized_def)
  show "push_bit PAGE_SHIFT (of_nat r) + base \<noteq> 0"
    using add assms(1) by (auto simp: bmap_sized_def)
  have "unat (drop_bit PAGE_SHIFT (push_bit PAGE_SHIFT (of_nat r) :: u32)) = unat (of_nat r :: u32)"
    using sh r by (simp add: unat_drop_bit PAGE_SHIFT_def del: push_bit_of_nat)
  then have "drop_bit PAGE_SHIFT (push_bit PAGE_SHIFT (of_nat r) :: u32) = of_nat r"
    by (rule unsigned_word_eqI)
  then show "drop_bit PAGE_SHIFT (push_bit PAGE_SHIFT (of_nat r) + base - base) = of_nat r" by simp
qed

lemma signed_pages_small:
  "pages_of sz < 2 ^ 19 \<Longrightarrow> signed_pages sz = of_nat (pages_of sz)"
proof -
  assume a: "pages_of sz < 2 ^ 19"
  have "unat (page_align sz) div 4096 = pages_of sz"
    by (simp add: pages_of_def PAGE_SHIFT_def unat_drop_bit)
  with a have "unat (page_align sz) < 2 ^ 31" by simp
  then have "\<not> bit (page_align sz) 31"
    using bit_iff_odd[of "unat (page_align sz)" 31] by (simp add: bit_unsigned_iff)
  then have "signed_drop_bit PAGE_SHIFT (page_align sz) = drop_bit PAGE_SHIFT (page_align sz)"
    by (intro bit_word_eqI) (auto simp: bit_signed_drop_bit_iff bit_drop_bit_eq PAGE_SHIFT_def not_less dest: bit_imp_le_length)
  then show ?thesis by (simp add: signed_pages_def pages_of_def)
qed

lemma loop_count_of_nat:
  "r + n < 2 ^ 32 \<Longrightarrow> loop_count (of_nat r) (of_nat n) = n"
  using unat_of_nat_small[where 'a = 32, of "r + n"] unat_of_nat_small[where 'a = 32, of r]
  by (simp add: loop_count_def flip: of_nat_add)

section \<open>Properties\<close>

text \<open>C38. A physical allocation that returns an address has chosen the first free run of as
  many pages as the size rounds up to, inside the bitmap; it marks exactly that run, takes the
  pages off the free counter and changes nothing else.\<close>

theorem sw_phy_page_alloc_first_fit:
  assumes "phy_sized info" and "sw_phy_page_alloc sz info = (info', pa)" and "pa \<noteq> 0"
  shows "\<exists>r. unat pa = unat (phy_addr_start info) + 4096 * r \<and>
     r + pages_of sz < 8 * unat (phy_mem_bmap_len info) \<and>
     units (r, pages_of sz) \<inter> phy_used info = {} \<and>
     (\<forall>r'<r. units (r', pages_of sz) \<inter> phy_used info \<noteq> {}) \<and>
     phy_used info' = phy_used info \<union> units (r, pages_of sz) \<and>
     unat (num_phy_pag_free info') + pages_of sz = unat (num_phy_pag_free info) \<and>
     info' = info\<lparr>phy_mem_bmap := phy_mem_bmap info', num_phy_pag_free := num_phy_pag_free info'\<rparr>"
proof -
  let ?n = "pages_of sz"
  obtain r where take: "phy_take ?n info = Some (r, info')"
    and pa: "pa = push_bit PAGE_SHIFT (of_nat r) + phy_addr_start info"
    using assms(2,3) by (auto simp: sw_phy_page_alloc_def split: option.splits)
  note run = take[unfolded phy_take_Some, THEN conjunct1]
  note inb = alloc_run_in_bitmap[OF assms(1)[unfolded phy_sized_def] run]
  have "unat pa = unat (phy_addr_start info) + 4096 * r"
    unfolding pa using inb by (intro page_addr(1)[OF assms(1)[unfolded phy_sized_def]]) simp
  moreover have "units (r', ?n) \<inter> phy_used info \<noteq> {}" if "r' < r" for r'
    using alloc_run_Some(4)[OF run that] by (auto simp: run_free_def units_def phy_used_def)
  moreover have "unat (num_phy_pag_free info - of_nat ?n) + ?n = unat (num_phy_pag_free info)"
  proof -
    have "unat (of_nat ?n :: u32) = ?n"
      using pages_of_less[of sz] by (intro unat_of_nat_small) auto
    then show ?thesis
      using alloc_run_Some(1)[OF run] by (subst unat_sub_le) (auto simp: word_le_nat_alt)
  qed
  ultimately show ?thesis
    using phy.take_fresh[OF take] phy.take_used[OF take] inb take[unfolded phy_take_Some]
    by (intro exI[of _ r]) auto
qed

definition demo_info :: mem_info where
  "demo_info =
     \<lparr>vir_mem_bmap = (\<lambda>_. 0), phy_mem_bmap = (\<lambda>_. 0)(0 := 0xA0000000),
      vir_mem_bmap_len = 4, phy_mem_bmap_len = 4,
      vir_addr_start = 0x3C000000, vir_memregion_size = 0x8000,
      phy_addr_start = 0x3C000000, phy_memregion_size = 0x8000,
      num_phy_pag_free = 6, num_vir_pag_free = 8, page_scope = 0, elf_flag = 0, pt_calls = []\<rparr>"

lemma demo_sized: "phy_sized demo_info" "vir_sized demo_info"
  by (simp_all add: phy_sized_def vir_sized_def bmap_sized_def demo_info_def)

lemma demo_alloc: "snd (sw_phy_page_alloc 8000 demo_info) = 0x3C003000"
  by code_simp

theorem sw_phy_page_alloc_first_fit_witness:
  "\<exists>info' pa r. sw_phy_page_alloc 8000 demo_info = (info', pa) \<and>
     unat pa = unat (phy_addr_start demo_info) + 4096 * r \<and>
     phy_used info' = phy_used demo_info \<union> units (r, pages_of 8000)"
proof -
  have "sw_phy_page_alloc 8000 demo_info = (fst (sw_phy_page_alloc 8000 demo_info), 0x3C003000)"
    by (rule prod_eqI) (simp_all only: demo_alloc fst_conv snd_conv)
  then show ?thesis
    using sw_phy_page_alloc_first_fit[OF demo_sized(1), of 8000 _ "0x3C003000"] by fastforce
qed

lemma signed_positive:
  "0 < pages_of sz \<Longrightarrow> pages_of sz < 2 ^ 19 \<Longrightarrow> signed_pages sz = of_nat (pages_of sz) \<and> 0 < pages_of sz"
  by (simp add: signed_pages_small)

lemma phy_free_alloc:
  assumes "phy_sized info" and "sw_phy_page_alloc sz info = (info', pa)" and "pa \<noteq> 0"
    and "pages_of sz < 2 ^ 19"
    and "phy_addr_start info \<le> pa" and "pa \<le> phy_addr_start info + phy_memregion_size info"
  shows "sw_phy_addr_free pa sz info' = (info, Inr ())"
proof -
  let ?n = "pages_of sz"
  obtain r where take: "phy_take ?n info = Some (r, info')"
    and pa: "pa = push_bit PAGE_SHIFT (of_nat r) + phy_addr_start info"
    using assms(2,3) by (auto simp: sw_phy_page_alloc_def split: option.splits)
  note run = take[unfolded phy_take_Some, THEN conjunct1]
  note inb = alloc_run_in_bitmap[OF assms(1)[unfolded phy_sized_def] run]
  have small: "8 * unat (phy_mem_bmap_len info) \<le> 2 ^ 20"
    using assms(1) by (auto simp: phy_sized_def bmap_sized_def)
  have same: "phy_addr_start info' = phy_addr_start info"
    "phy_memregion_size info' = phy_memregion_size info"
    using take by (auto simp: phy_take_Some)
  have idx: "drop_bit PAGE_SHIFT (pa - phy_addr_start info) = of_nat r"
    unfolding pa using inb by (intro page_addr(2)[OF assms(1)[unfolded phy_sized_def]]) simp
  have cnt: "loop_count (of_nat r) (signed_pages sz) = ?n"
    using inb small by (simp only: signed_pages_small[OF assms(4)]) (intro loop_count_of_nat, simp)
  have r: "unat (of_nat r :: u32) = r"
    using inb small by (intro unat_of_nat_small) simp
  have "phy_release r ?n info' = info"
    using take alloc_run_Some(2)[OF run] by (auto simp: phy_take_Some phy_release_def clear_mark_pages)
  then show ?thesis
    using assms(5,6) by (simp add: sw_phy_addr_free_def same idx cnt r not_less Let_def)
qed

text \<open>Freeing a physical allocation with the address and the size it was made with returns
  the memory manager to the state before the allocation, for sizes that are non-negative as a
  C \<^verbatim>\<open>int\<close> and addresses inside the region.\<close>

theorem sw_phy_addr_free_undoes_alloc:
  assumes "phy_sized info" and "sw_phy_page_alloc sz info = (info', pa)" and "pa \<noteq> 0"
    and "pages_of sz < 2 ^ 19"
    and "phy_addr_start info \<le> pa" and "pa \<le> phy_addr_start info + phy_memregion_size info"
  shows "sw_phy_addr_free pa sz info' = (info, Inr ())"
  using assms by (rule phy_free_alloc)

theorem sw_phy_addr_free_undoes_alloc_witness:
  "sw_phy_addr_free 0x3C003000 8000 (fst (sw_phy_page_alloc 8000 demo_info)) = (demo_info, Inr ())"
proof -
  have "sw_phy_page_alloc 8000 demo_info = (fst (sw_phy_page_alloc 8000 demo_info), 0x3C003000)"
    by (rule prod_eqI) (simp_all only: demo_alloc fst_conv snd_conv)
  moreover have "pages_of 8000 < 2 ^ 19" by (simp add: pages_of_ceil)
  moreover have "phy_addr_start demo_info \<le> 0x3C003000"
    "0x3C003000 \<le> phy_addr_start demo_info + phy_memregion_size demo_info"
    by (simp_all add: demo_info_def)
  ultimately show ?thesis
    by (intro sw_phy_addr_free_undoes_alloc[OF demo_sized(1)]) simp_all
qed

lemma run_free_mono: "run_free bm s n \<Longrightarrow> s \<le> s' \<Longrightarrow> s' + m \<le> s + n \<Longrightarrow> run_free bm s' m"
  by (auto simp: run_free_def)

text \<open>The bitmap is rounded up to whole words and one byte more, and the scan goes to the
  end of the bitmap: when no run of free pages inside the region is long enough, but the counter
  allows the request, and the spare bits are free, the allocator hands out an address range that
  reaches past the end of the region.\<close>

theorem sw_phy_page_alloc_beyond_region:
  assumes "phy_sized info" and "npages = unat (phy_memregion_size info) div 4096"
    and "pages_of sz \<le> unat (num_phy_pag_free info)"
    and "\<forall>r. r + pages_of sz \<le> npages \<longrightarrow> \<not> run_free (phy_mem_bmap info) r (pages_of sz)"
    and "run_free (phy_mem_bmap info) npages (pages_of sz)"
    and "npages + pages_of sz < 8 * unat (phy_mem_bmap_len info)"
  shows "unat (snd (sw_phy_page_alloc sz info)) + 4096 * pages_of sz >
     unat (phy_addr_start info) + unat (phy_memregion_size info) div 4096 * 4096"
proof -
  let ?n = "pages_of sz"
  have "phy_take ?n info \<noteq> None"
    using assms(3,5,6) bmap_bound[OF assms(1)[unfolded phy_sized_def] assms(3)]
    by (auto simp: phy_take_def alloc_run_None split: option.splits intro!: exI[of _ npages])
  then obtain r info' where take: "phy_take ?n info = Some (r, info')" by auto
  note run = take[unfolded phy_take_Some, THEN conjunct1]
  note inb = alloc_run_in_bitmap[OF assms(1)[unfolded phy_sized_def] run]
  have "npages < r + ?n" using assms(4) alloc_run_Some(2)[OF run] by (meson not_less)
  moreover have "unat (snd (sw_phy_page_alloc sz info)) = unat (phy_addr_start info) + 4096 * r"
    using take page_addr(1)[OF assms(1)[unfolded phy_sized_def], of r] inb
    by (simp add: sw_phy_page_alloc_def)
  ultimately show ?thesis using assms(2) by simp
qed

definition fragmented_info :: mem_info where
  "fragmented_info = demo_info\<lparr>phy_mem_bmap := (\<lambda>_. 0)(0 := 0x55000000), num_phy_pag_free := 4\<rparr>"

theorem sw_phy_page_alloc_beyond_region_witness:
  "unat (snd (sw_phy_page_alloc 8192 fragmented_info)) + 4096 * pages_of 8192 >
     unat (phy_addr_start fragmented_info) + unat (phy_memregion_size fragmented_info) div 4096 * 4096"
proof (rule sw_phy_page_alloc_beyond_region)
  show "phy_sized fragmented_info"
    by (simp add: phy_sized_def bmap_sized_def demo_info_def fragmented_info_def)
  have sz: "pages_of 8192 = 2" by code_simp
  have np: "unat (phy_memregion_size fragmented_info) div 4096 = 8"
    by (simp add: fragmented_info_def demo_info_def)
  have "\<forall>r\<in>set [0..<7]. \<not> run_free (phy_mem_bmap fragmented_info) r 2" by code_simp
  then show "\<forall>r. r + pages_of 8192 \<le> unat (phy_memregion_size fragmented_info) div 4096 \<longrightarrow>
      \<not> run_free (phy_mem_bmap fragmented_info) r (pages_of 8192)"
    unfolding sz np by auto
  show "run_free (phy_mem_bmap fragmented_info) (unat (phy_memregion_size fragmented_info) div 4096)
      (pages_of 8192)"
    unfolding sz np numeral_2_eq_2
    by (simp add: run_free_Suc bmap_test_def fragmented_info_def)
  show "unat (phy_memregion_size fragmented_info) div 4096 + pages_of 8192 <
      8 * unat (phy_mem_bmap_len fragmented_info)"
    "pages_of 8192 \<le> unat (num_phy_pag_free fragmented_info)"
    unfolding sz np by (simp_all add: fragmented_info_def demo_info_def)
qed simp

lemma sw_phy_page_alloc_0:
  assumes "phy_sized info" and "sw_phy_page_alloc sz info = (info', 0)"
  shows "info' = info \<and> phy_take (pages_of sz) info = None"
proof (cases "phy_take (pages_of sz) info")
  case (Some p)
  obtain r i where p: "p = (r, i)" by (cases p)
  note run = Some[unfolded p phy_take_Some, THEN conjunct1]
  have "r < 8 * unat (phy_mem_bmap_len info)"
    using alloc_run_in_bitmap[OF assms(1)[unfolded phy_sized_def] run] by simp
  from page_addr(3)[OF assms(1)[unfolded phy_sized_def] this] show ?thesis
    using assms(2) Some p by (simp add: sw_phy_page_alloc_def)
qed (use assms in \<open>simp add: sw_phy_page_alloc_def\<close>)

lemma sw_phy_page_alloc_vir_fields:
  "sw_phy_page_alloc sz info = (info', pa) \<Longrightarrow>
     vir_mem_bmap info' = vir_mem_bmap info \<and> num_vir_pag_free info' = num_vir_pag_free info \<and>
     vir_addr_start info' = vir_addr_start info \<and> vir_mem_bmap_len info' = vir_mem_bmap_len info \<and>
     pt_calls info' = pt_calls info"
  by (auto simp: sw_phy_page_alloc_def phy_take_Some split: option.splits)

text \<open>The two halves of a successful virtual allocation.\<close>

lemma sw_vir_page_alloc_Inr:
  assumes "sw_vir_page_alloc sz info = (info', Inr va)"
  obtains v vinfo p pinfo where
    "vir_take (pages_of sz) info = Some (v, vinfo)" "phy_take (pages_of sz) info = Some (p, pinfo)"
    "va = push_bit PAGE_SHIFT (of_nat v) + vir_addr_start info"
    "vir_used info' = vir_used vinfo" "phy_used info' = phy_used pinfo"
    "pt_calls info' = pt_calls info @
       [Map_Kernel_Data va (push_bit PAGE_SHIFT (of_nat p) + phy_addr_start info) (page_align sz)]"
  using assms
  by (fastforce simp: sw_vir_page_alloc_def Let_def vir_take_def vir_mark_def vir_used_def phy_used_def
      sw_phy_page_alloc_def phy_take_Some page_simps split: option.splits prod.splits if_splits)

text \<open>A virtual allocation is all or nothing: when it fails the error is \<^verbatim>\<open>SW_ENOMEM\<close> and the
  memory manager is unchanged, and it fails exactly when one of the two bitmaps has no run
  within the scanned starts or one of the two counters is too low.\<close>

theorem sw_vir_page_alloc_all_or_nothing:
  assumes "phy_sized info"
  shows "case sw_vir_page_alloc sz info of
       (info', Inl e) \<Rightarrow> info' = info \<and> e = SW_ENOMEM \<and>
         (vir_take (pages_of sz) info = None \<or> phy_take (pages_of sz) info = None)
     | (info', Inr va) \<Rightarrow>
         vir_take (pages_of sz) info \<noteq> None \<and> phy_take (pages_of sz) info \<noteq> None"
proof (cases "sw_vir_page_alloc sz info")
  case (Pair info' res)
  show ?thesis
  proof (cases res)
    case (Inr va)
    from sw_vir_page_alloc_Inr[OF Pair[unfolded Inr]]
    have "vir_take (pages_of sz) info \<noteq> None \<and> phy_take (pages_of sz) info \<noteq> None"
      by (metis option.distinct(1))
    then show ?thesis unfolding Pair Inr by simp
  next
    case (Inl e)
    then show ?thesis
      using Pair sw_phy_page_alloc_0[OF assms, of "page_align sz"]
      by (auto simp: sw_vir_page_alloc_def Let_def vir_take_def page_simps
          split: option.splits prod.splits if_splits)
  qed
qed

theorem sw_vir_page_alloc_all_or_nothing_witness:
  "case sw_vir_page_alloc 0x1000000 demo_info of
       (info', Inl e) \<Rightarrow> info' = demo_info \<and> e = SW_ENOMEM \<and>
         (vir_take (pages_of 0x1000000) demo_info = None \<or> phy_take (pages_of 0x1000000) demo_info = None)
     | (info', Inr va) \<Rightarrow>
         vir_take (pages_of 0x1000000) demo_info \<noteq> None \<and> phy_take (pages_of 0x1000000) demo_info \<noteq> None"
  by (rule sw_vir_page_alloc_all_or_nothing[OF demo_sized(1)])

text \<open>Virtual allocations do not overlap: two allocations made one after the other have
  disjoint virtual ranges, and the page table maps them to disjoint physical ranges.\<close>

theorem sw_vir_page_alloc_disjoint:
  assumes "sw_vir_page_alloc sz1 info = (info1, Inr va1)"
    and "sw_vir_page_alloc sz2 info1 = (info2, Inr va2)"
  shows "\<exists>v1 v2 p1 p2. va1 = push_bit PAGE_SHIFT (of_nat v1) + vir_addr_start info \<and>
     va2 = push_bit PAGE_SHIFT (of_nat v2) + vir_addr_start info1 \<and>
     units (v1, pages_of sz1) \<inter> units (v2, pages_of sz2) = {} \<and>
     units (p1, pages_of sz1) \<inter> units (p2, pages_of sz2) = {} \<and>
     pt_calls info2 = pt_calls info @
       [Map_Kernel_Data va1 (push_bit PAGE_SHIFT (of_nat p1) + phy_addr_start info) (page_align sz1),
        Map_Kernel_Data va2 (push_bit PAGE_SHIFT (of_nat p2) + phy_addr_start info1) (page_align sz2)]"
proof -
  obtain v1 vi1 p1 pi1 where a:
    "vir_take (pages_of sz1) info = Some (v1, vi1)" "phy_take (pages_of sz1) info = Some (p1, pi1)"
    "va1 = push_bit PAGE_SHIFT (of_nat v1) + vir_addr_start info"
    "vir_used info1 = vir_used vi1" "phy_used info1 = phy_used pi1"
    "pt_calls info1 = pt_calls info @
       [Map_Kernel_Data va1 (push_bit PAGE_SHIFT (of_nat p1) + phy_addr_start info) (page_align sz1)]"
    using sw_vir_page_alloc_Inr[OF assms(1)] by metis
  obtain v2 vi2 p2 pi2 where b:
    "vir_take (pages_of sz2) info1 = Some (v2, vi2)" "phy_take (pages_of sz2) info1 = Some (p2, pi2)"
    "va2 = push_bit PAGE_SHIFT (of_nat v2) + vir_addr_start info1"
    "pt_calls info2 = pt_calls info1 @
       [Map_Kernel_Data va2 (push_bit PAGE_SHIFT (of_nat p2) + phy_addr_start info1) (page_align sz2)]"
    using sw_vir_page_alloc_Inr[OF assms(2)] by metis
  have "units (v1, pages_of sz1) \<inter> units (v2, pages_of sz2) = {}"
    using vir.take_used[OF a(1)] vir.take_fresh[OF b(1)] a(4) by blast
  moreover have "units (p1, pages_of sz1) \<inter> units (p2, pages_of sz2) = {}"
    using phy.take_used[OF a(2)] phy.take_fresh[OF b(2)] a(5) by blast
  ultimately show ?thesis
    by (intro exI[of _ v1] exI[of _ v2] exI[of _ p1] exI[of _ p2]) (simp add: a(3,6) b(3,4))
qed

lemma demo_vir:
  "snd (sw_vir_page_alloc 4096 demo_info) = Inr 0x3C000000"
  "snd (sw_vir_page_alloc 4097 (fst (sw_vir_page_alloc 4096 demo_info))) = Inr 0x3C001000"
  by code_simp+

theorem sw_vir_page_alloc_disjoint_witness:
  "\<exists>v1 v2. 0x3C000000 = push_bit PAGE_SHIFT (of_nat v1) + vir_addr_start demo_info \<and>
     0x3C001000 = push_bit PAGE_SHIFT (of_nat v2) +
        vir_addr_start (fst (sw_vir_page_alloc 4096 demo_info)) \<and>
     units (v1, pages_of 4096) \<inter> units (v2, pages_of 4097) = {}"
  using sw_vir_page_alloc_disjoint[of 4096 demo_info _ "0x3C000000" 4097 _ "0x3C001000",
      OF prod_eqI prod_eqI, unfolded fst_conv snd_conv, OF refl demo_vir(1) refl demo_vir(2)]
  by blast

end
