(* ===== verification/Links.thy ===== *)
theory Links
  imports Prelude "HOL-Library.Monad_Syntax"
begin

text \<open>
  The circular doubly linked lists of \<^verbatim>\<open>include/sw_link.h\<close>, which hold the tasks, the ready
  queue, the wait queues, the timers, the semaphores and the page references.  A heap of
  \<^verbatim>\<open>struct link\<close> cells is a record of three functions of the cell's address; \<open>None\<close> as a
  pointer is one that does not point to a cell (\<^verbatim>\<open>NULL\<close>, or one of the two poison values that
  \<^verbatim>\<open>remove_link\<close> leaves behind).  An operation returns \<open>None\<close> when it dereferences such a
  pointer.  \<open>dlist L h xs\<close> says that the list with sentinel \<open>h\<close> holds the cells \<open>xs\<close> in order;
  every operation is shown to refine its list counterpart.
\<close>

section \<open>The code\<close>

record ('l, 'd) links =
  next_of :: "'l \<Rightarrow> 'l option"
  prev_of :: "'l \<Rightarrow> 'l option"
  data_of :: "'l \<Rightarrow> 'd option"

datatype link_pos = HEAD | TAIL

definition link_init :: "'l \<Rightarrow> ('l, 'd) links \<Rightarrow> ('l, 'd) links" where
  "link_init h L =
     L\<lparr>next_of := (next_of L)(h := Some h), prev_of := (prev_of L)(h := Some h),
       data_of := (data_of L)(h := None)\<rparr>"

definition set_link_data :: "'l \<Rightarrow> 'd option \<Rightarrow> ('l, 'd) links \<Rightarrow> ('l, 'd) links" where
  "set_link_data node d L = L\<lparr>data_of := (data_of L)(node := d)\<rparr>"

definition link_empty :: "('l, 'd) links \<Rightarrow> 'l \<Rightarrow> bool" where
  "link_empty L h \<longleftrightarrow> next_of L h = Some h"

definition get_next_node :: "('l, 'd) links \<Rightarrow> 'l \<Rightarrow> 'l option" where
  "get_next_node L h = next_of L h"

definition remove_link :: "'l \<Rightarrow> ('l, 'd) links \<Rightarrow> ('l, 'd) links option" where
  "remove_link node L = do {
     nx \<leftarrow> next_of L node;
     pv \<leftarrow> prev_of L node;
     let L1 = L\<lparr>next_of := (next_of L)(pv := Some nx)\<rparr>;
         L2 = L1\<lparr>prev_of := (prev_of L1)(nx := Some pv)\<rparr>
     in Some (L2\<lparr>next_of := (next_of L2)(node := None), prev_of := (prev_of L2)(node := None)\<rparr>)
   }"

text \<open>The four assignments in the order of the code.\<close>

definition link_between :: "'l \<Rightarrow> 'l \<Rightarrow> 'l \<Rightarrow> ('l, 'd) links \<Rightarrow> ('l, 'd) links" where
  "link_between pv nw nx L =
     (let L1 = L\<lparr>prev_of := (prev_of L)(nw := Some pv)\<rparr>;
          L2 = L1\<lparr>next_of := (next_of L1)(nw := Some nx)\<rparr>;
          L3 = L2\<lparr>next_of := (next_of L2)(pv := Some nw)\<rparr>
      in L3\<lparr>prev_of := (prev_of L3)(nx := Some nw)\<rparr>)"

fun add_link :: "'l \<Rightarrow> 'l \<Rightarrow> link_pos \<Rightarrow> ('l, 'd) links \<Rightarrow> ('l, 'd) links option" where
  "add_link head nw HEAD L = do { nx \<leftarrow> next_of L head; Some (link_between head nw nx L) }"
| "add_link head nw TAIL L = do { pv \<leftarrow> prev_of L head; Some (link_between pv nw head L) }"

text \<open>The queue interface: the queue is a pointer to its first cell, \<open>None\<close> when empty, and the
  cells form a ring without a sentinel.\<close>

definition queue_insert_tail ::
    "'l option \<Rightarrow> 'l \<Rightarrow> ('l, 'd) links \<Rightarrow> ('l option \<times> ('l, 'd) links) option" where
  "queue_insert_tail head nw L =
     (case head of
        Some h \<Rightarrow> do { L' \<leftarrow> add_link h nw TAIL L; Some (Some h, L') }
      | None \<Rightarrow> Some (Some nw, link_init nw L))"

definition queue_remove_head ::
    "'l option \<Rightarrow> ('l, 'd) links \<Rightarrow> ('l option \<times> ('l, 'd) links) option" where
  "queue_remove_head head L = do {
     l \<leftarrow> head;
     nx \<leftarrow> next_of L l;
     if nx = l then Some (None, L)
     else do { L' \<leftarrow> remove_link l L; Some (Some nx, L') }
   }"

definition queue_empty :: "'l option \<Rightarrow> bool" where
  "queue_empty head \<longleftrightarrow> head = None"

text \<open>The traversal loop \<^verbatim>\<open>l = head->next; while (l != head) { ... l = l->next; }\<close> that every
  search in the kernel uses: it stops at the first cell whose data satisfies the test.  It has
  the value \<open>None\<close> when it runs forever or leaves the heap.\<close>

partial_function (option) link_find_from ::
    "('l, 'd) links \<Rightarrow> ('d option \<Rightarrow> bool) \<Rightarrow> 'l \<Rightarrow> 'l option \<Rightarrow> 'l option option" where
  "link_find_from L P head l =
     Option.bind l (\<lambda>c. if c = head then Some None
                       else if P (data_of L c) then Some (Some c)
                       else link_find_from L P head (next_of L c))"

declare link_find_from.simps [code]

definition link_find :: "('l, 'd) links \<Rightarrow> ('d option \<Rightarrow> bool) \<Rightarrow> 'l \<Rightarrow> 'l option option" where
  "link_find L P head = link_find_from L P head (next_of L head)"

section \<open>Which list a heap holds\<close>

fun linked :: "('l, 'd) links \<Rightarrow> 'l list \<Rightarrow> bool" where
  "linked L (x # y # zs) \<longleftrightarrow>
     next_of L x = Some y \<and> prev_of L y = Some x \<and> linked L (y # zs)"
| "linked L _ \<longleftrightarrow> True"

definition dlist :: "('l, 'd) links \<Rightarrow> 'l \<Rightarrow> 'l list \<Rightarrow> bool" where
  "dlist L h xs \<longleftrightarrow> distinct (h # xs) \<and> linked L (h # xs @ [h])"

lemma linked_append: "linked L (xs @ y # ys) \<longleftrightarrow> linked L (xs @ [y]) \<and> linked L (y # ys)"
proof (induction xs)
  case (Cons x xs)
  then show ?case by (cases xs) auto
qed simp

lemma linked_frame:
  "(\<And>x. x \<in> set (butlast zs) \<Longrightarrow> next_of L' x = next_of L x) \<Longrightarrow>
   (\<And>x. x \<in> set (tl zs) \<Longrightarrow> prev_of L' x = prev_of L x) \<Longrightarrow> linked L' zs = linked L zs"
proof (induction zs rule: induct_list012)
  case (3 x y zs)
  have "linked L' (y # zs) = linked L (y # zs)"
    using "3.prems" by (intro "3.IH"(2)) (auto split: if_splits)
  then show ?case using "3.prems" by simp
qed auto

lemma dlist_frame:
  assumes "\<And>x. x \<in> set (h # xs) \<Longrightarrow> next_of L' x = next_of L x"
    and "\<And>x. x \<in> set (h # xs) \<Longrightarrow> prev_of L' x = prev_of L x"
  shows "dlist L' h xs = dlist L h xs"
  unfolding dlist_def using assms by (subst linked_frame[of "h # xs @ [h]" L' L]) (auto simp: butlast_append)

lemma link_init_sels [simp]:
  "next_of (link_init h L) = (next_of L)(h := Some h)"
  "prev_of (link_init h L) = (prev_of L)(h := Some h)"
  "data_of (link_init h L) = (data_of L)(h := None)"
  by (simp_all add: link_init_def)

lemma set_link_data_sels [simp]:
  "next_of (set_link_data n d L) = next_of L" "prev_of (set_link_data n d L) = prev_of L"
  "data_of (set_link_data n d L) = (data_of L)(n := d)"
  by (simp_all add: set_link_data_def)

lemma link_between_sels [simp]:
  "next_of (link_between pv nw nx L) = (next_of L)(nw := Some nx, pv := Some nw)"
  "prev_of (link_between pv nw nx L) = (prev_of L)(nw := Some pv, nx := Some nw)"
  "data_of (link_between pv nw nx L) = data_of L"
  by (simp_all add: link_between_def)

lemma dlist_set_data [simp]: "dlist (set_link_data n d L) h xs = dlist L h xs"
  by (rule dlist_frame) simp_all

lemma dlist_init: "dlist (link_init h L) h []"
  by (simp add: dlist_def)

lemma dlist_next: "dlist L h xs \<Longrightarrow> next_of L h = Some (hd (xs @ [h]))"
  by (cases xs) (auto simp: dlist_def)

lemma linked_pair:
  "linked L (as @ x # y # bs) \<Longrightarrow> next_of L x = Some y \<and> prev_of L y = Some x"
  by (simp add: linked_append[of L as x "y # bs"])

lemma dlist_prev: "dlist L h xs \<Longrightarrow> prev_of L h = Some (last (h # xs))"
proof -
  assume d: "dlist L h xs"
  obtain ys p where eq: "h # xs = ys @ [p]" by (metis list.distinct(1) rev_exhaust)
  have path: "ys @ p # h # [] = h # xs @ [h]" using eq by (metis append.assoc append_Cons append_Nil)
  have "linked L (ys @ p # h # [])" using d unfolding path dlist_def by blast
  then have "prev_of L h = Some p" using linked_pair by metis
  then show ?thesis using eq by (metis last_snoc)
qed

lemma dlist_empty_iff: "dlist L h xs \<Longrightarrow> link_empty L h \<longleftrightarrow> xs = []"
  by (cases xs) (auto simp: dlist_def link_empty_def)

text \<open>Inserting a fresh cell between two neighbours, and taking one out.  The conditions allow
  the sentinel at both ends of the path.\<close>

text \<open>An operation on one list leaves every cell outside it alone.\<close>

definition same_outside :: "'l set \<Rightarrow> ('l, 'd) links \<Rightarrow> ('l, 'd) links \<Rightarrow> bool" where
  "same_outside S L L' \<longleftrightarrow>
     data_of L' = data_of L \<and>
     (\<forall>y. y \<notin> S \<longrightarrow> next_of L' y = next_of L y \<and> prev_of L' y = prev_of L y)"

lemma same_outside_dlist:
  "same_outside S L L' \<Longrightarrow> S \<inter> set (h # xs) = {} \<Longrightarrow> dlist L' h xs = dlist L h xs"
  by (rule dlist_frame) (auto simp: same_outside_def)

lemma same_outside_data: "same_outside S L L' \<Longrightarrow> data_of L' = data_of L"
  by (simp add: same_outside_def)

lemma in_set_tlD: "y \<in> set (tl zs) \<Longrightarrow> y \<in> set zs"
  by (cases zs) auto

lemma linked_insert:
  assumes "linked L (as @ p # n # bs)" and "x \<notin> set (as @ p # n # bs)"
    and "p \<notin> set as" "p \<notin> set (butlast (n # bs))" "n \<notin> set (tl (as @ [p]))" "n \<notin> set bs"
  shows "linked (link_between p x n L) (as @ p # x # n # bs)"
proof -
  have 1: "linked L (as @ [p])" and 2: "linked L (n # bs)"
    using assms(1) by (simp_all add: linked_append[of L as p "n # bs"])
  have "linked (link_between p x n L) (as @ [p]) = linked L (as @ [p])"
  proof (rule linked_frame)
    fix y assume "y \<in> set (butlast (as @ [p]))"
    then show "next_of (link_between p x n L) y = next_of L y" using assms(2,3) by auto
  next
    fix y assume y: "y \<in> set (tl (as @ [p]))"
    then have "y \<in> set (as @ [p])" by (rule in_set_tlD)
    then show "prev_of (link_between p x n L) y = prev_of L y" using assms(2,5) y by auto
  qed
  moreover have "linked (link_between p x n L) (n # bs) = linked L (n # bs)"
  proof (rule linked_frame)
    fix y assume y: "y \<in> set (butlast (n # bs))"
    then have "y \<in> set (n # bs)" by (rule in_set_butlastD)
    then show "next_of (link_between p x n L) y = next_of L y" using assms(2,4) y by auto
  next
    fix y assume "y \<in> set (tl (n # bs))"
    then show "prev_of (link_between p x n L) y = prev_of L y" using assms(2,6) by auto
  qed
  ultimately show ?thesis using 1 2 assms(2) by (auto simp: linked_append[of _ as p "x # n # bs"])
qed

lemma linked_delete:
  assumes "linked L (as @ p # x # n # bs)" and "x \<notin> set (as @ p # n # bs)"
    and "p \<notin> set as" "p \<notin> set (butlast (n # bs))" "n \<notin> set (tl (as @ [p]))" "n \<notin> set bs"
    and L': "next_of L' = (next_of L)(p := Some n, x := None)"
      "prev_of L' = (prev_of L)(n := Some p, x := None)"
  shows "linked L' (as @ p # n # bs)"
proof -
  have 1: "linked L (as @ [p])" and 2: "linked L (n # bs)"
    using assms(1) by (simp_all add: linked_append[of L as p "x # n # bs"])
  have "linked L' (as @ [p]) = linked L (as @ [p])"
  proof (rule linked_frame)
    fix y assume "y \<in> set (butlast (as @ [p]))"
    then show "next_of L' y = next_of L y" using assms(2,3) L' by auto
  next
    fix y assume y: "y \<in> set (tl (as @ [p]))"
    then have "y \<in> set (as @ [p])" by (rule in_set_tlD)
    then show "prev_of L' y = prev_of L y" using assms(2,5) y L' by auto
  qed
  moreover have "linked L' (n # bs) = linked L (n # bs)"
  proof (rule linked_frame)
    fix y assume y: "y \<in> set (butlast (n # bs))"
    then have "y \<in> set (n # bs)" by (rule in_set_butlastD)
    then show "next_of L' y = next_of L y" using assms(2,4) y L' by auto
  next
    fix y assume "y \<in> set (tl (n # bs))"
    then show "prev_of L' y = prev_of L y" using assms(2,6) L' by auto
  qed
  ultimately show ?thesis using 1 2 assms(2) L' by (auto simp: linked_append[of _ as p "n # bs"])
qed

lemma dlist_add_TAIL:
  assumes "dlist L h xs" and "x \<notin> set (h # xs)"
  shows "\<exists>L'. add_link h x TAIL L = Some L' \<and> dlist L' h (xs @ [x]) \<and>
     same_outside (set (x # h # xs)) L L'"
proof -
  obtain ys p where eq: "h # xs = ys @ [p]" by (metis list.distinct(1) rev_exhaust)
  have p: "p = last (h # xs)" using eq by (metis last_snoc)
  have path: "ys @ p # h # [] = h # xs @ [h]" using eq by (metis append.assoc append_Cons append_Nil)
  have path': "ys @ p # x # h # [] = h # (xs @ [x]) @ [h]" using eq by (metis append.assoc append_Cons append_Nil)
  have "distinct (ys @ [p])" "h \<notin> set (tl (ys @ [p]))"
    using assms(1) unfolding eq[symmetric] dlist_def by simp_all
  moreover have "x \<notin> set (ys @ p # h # [])" using assms(2) unfolding path by auto
  ultimately have "linked (link_between p x h L) (ys @ p # x # h # [])"
    using assms(1)[unfolded dlist_def, folded path] by (intro linked_insert) auto
  then have "dlist (link_between p x h L) h (xs @ [x])"
    using assms path' by (auto simp: dlist_def)
  moreover have "same_outside (set (x # h # xs)) L (link_between p x h L)"
    using p by (auto simp: same_outside_def)
  ultimately show ?thesis using dlist_prev[OF assms(1)] p by auto
qed

lemma dlist_add_HEAD:
  assumes "dlist L h xs" and "x \<notin> set (h # xs)"
  shows "\<exists>L'. add_link h x HEAD L = Some L' \<and> dlist L' h (x # xs) \<and>
     same_outside (set (x # h # xs)) L L'"
proof -
  obtain n bs where eq: "xs @ [h] = n # bs" by (cases "xs @ [h]") auto
  have n: "n = hd (xs @ [h])" using eq by simp
  have xs: "xs = butlast (n # bs)" using eq by (metis butlast_snoc)
  have "distinct (xs @ [h])" using assms(1) by (auto simp: dlist_def)
  then have "distinct (n # bs)" unfolding eq .
  moreover have "x \<notin> set (n # bs)" using assms(2) eq[symmetric] by auto
  moreover have "h \<notin> set (butlast (n # bs))" using assms(1) xs by (auto simp: dlist_def)
  ultimately have "linked (link_between h x n L) ([] @ h # x # n # bs)"
    using assms eq by (intro linked_insert) (auto simp: dlist_def)
  then have "dlist (link_between h x n L) h (x # xs)"
    using assms eq by (auto simp: dlist_def)
  moreover have "same_outside (set (x # h # xs)) L (link_between h x n L)"
    using n by (cases xs) (auto simp: same_outside_def)
  ultimately show ?thesis using dlist_next[OF assms(1)] n by auto
qed

lemma dlist_remove:
  assumes "dlist L h xs" and "x \<in> set xs"
  shows "\<exists>L'. remove_link x L = Some L' \<and> dlist L' h (remove1 x xs) \<and>
     same_outside (set (h # xs)) L L' \<and> next_of L' x = None \<and> prev_of L' x = None"
proof -
  obtain as bs where xs: "xs = as @ x # bs" "x \<notin> set as" using split_list_first[OF assms(2)] by blast
  obtain ys p where ys: "h # as = ys @ [p]" by (metis list.distinct(1) rev_exhaust)
  obtain n cs where cs: "bs @ [h] = n # cs" by (cases "bs @ [h]") auto
  have path: "ys @ p # x # n # cs = h # xs @ [h]"
    unfolding xs(1) cs[symmetric] using ys by (metis append.assoc append_Cons append_Nil)
  have path': "ys @ p # n # cs = h # (as @ bs) @ [h]"
    unfolding cs[symmetric] using ys by (metis append.assoc append_Cons append_Nil)
  have d: "distinct (h # xs)" and l: "linked L (ys @ p # x # n # cs)"
    using assms(1) by (auto simp: dlist_def path)
  have dist: "distinct (h # as @ bs)" "x \<notin> set as" "x \<notin> set bs" "x \<noteq> h"
    using d xs by auto
  have setys: "set (h # as) = insert p (set ys)" unfolding ys by simp
  have setcs: "set (bs @ [h]) = insert n (set cs)" unfolding cs by simp
  have bl: "butlast (n # cs) = bs" unfolding cs[symmetric] by simp
  have tl: "tl (ys @ [p]) = as" unfolding ys[symmetric] by simp
  have dys: "distinct (ys @ [p])" using dist(1) unfolding ys[symmetric] by simp
  have dcs: "distinct (n # cs)" using dist(1) unfolding cs[symmetric] by auto
  have pm: "p \<in> set (h # as)" and nm: "n \<in> set (bs @ [h])"
    using setys setcs by auto
  have rest: "x \<notin> set (ys @ p # n # cs)" unfolding path' using dist by auto
  let ?L' = "L\<lparr>next_of := (next_of L)(p := Some n, x := None),
               prev_of := (prev_of L)(n := Some p, x := None)\<rparr>"
  have "linked ?L' (ys @ p # n # cs)"
  proof (rule linked_delete[OF l rest])
    show "p \<notin> set ys" using dys by simp
    show "p \<notin> set (butlast (n # cs))" unfolding bl using pm dist(1) by auto
    show "n \<notin> set (tl (ys @ [p]))" unfolding tl using nm dist(1) by auto
    show "n \<notin> set cs" using dcs by simp
  qed simp_all
  then have "dlist ?L' h (remove1 x xs)"
    using dist xs unfolding dlist_def path' by (simp add: remove1_append)
  moreover have "remove_link x L = Some ?L'"
  proof -
    have "next_of L x = Some n" "prev_of L x = Some p"
      using linked_pair[of L "ys @ [p]" x n cs] linked_pair[of L ys p x "n # cs"] l by simp_all
    then show ?thesis by (simp add: remove_link_def Let_def)
  qed
  moreover have "same_outside (set (h # xs)) L ?L'"
    using pm nm xs by (auto simp: same_outside_def)
  ultimately show ?thesis by auto
qed

lemma link_find_from_walk:
  "linked L (l # zs @ [h]) \<Longrightarrow> h \<notin> set zs \<Longrightarrow>
     link_find_from L P h (next_of L l) = Some (List.find (\<lambda>c. P (data_of L c)) zs)"
proof (induction zs arbitrary: l)
  case Nil
  then show ?case by (simp add: link_find_from.simps)
next
  case (Cons z zs)
  have "link_find_from L P h (next_of L l) = link_find_from L P h (Some z)"
    using Cons.prems by simp
  also have "\<dots> = (if P (data_of L z) then Some (Some z) else link_find_from L P h (next_of L z))"
    using Cons.prems by (subst link_find_from.simps) auto
  finally show ?case using Cons by simp
qed

text \<open>The traversal ends and finds the first match.\<close>

lemma dlist_find:
  "dlist L h xs \<Longrightarrow> link_find L P h = Some (List.find (\<lambda>c. P (data_of L c)) xs)"
  using link_find_from_walk[of L h xs h P] by (auto simp: dlist_def link_find_def)

section \<open>The interface to the list clients\<close>

text \<open>What the scheduler, the wait queues and the timers rely on: the contents of a list after
  an insertion at either end and after a removal.  A queue that is filled at the tail and
  drained from the head is first in, first out; one that is filled at the head is last in,
  first out.\<close>

locale linked_store =
  fixes holds :: "'s \<Rightarrow> 'l \<Rightarrow> 'l list \<Rightarrow> bool"
    and insert_at :: "'l \<Rightarrow> 'l \<Rightarrow> link_pos \<Rightarrow> 's \<Rightarrow> 's option"
    and delete :: "'l \<Rightarrow> 's \<Rightarrow> 's option"
    and first :: "'s \<Rightarrow> 'l \<Rightarrow> 'l option"
  assumes holds_distinct: "holds s h xs \<Longrightarrow> distinct (h # xs)"
    and insert_TAIL: "holds s h xs \<Longrightarrow> x \<notin> set (h # xs) \<Longrightarrow>
          \<exists>s'. insert_at h x TAIL s = Some s' \<and> holds s' h (xs @ [x])"
    and insert_HEAD: "holds s h xs \<Longrightarrow> x \<notin> set (h # xs) \<Longrightarrow>
          \<exists>s'. insert_at h x HEAD s = Some s' \<and> holds s' h (x # xs)"
    and delete_holds: "holds s h xs \<Longrightarrow> x \<in> set xs \<Longrightarrow>
          \<exists>s'. delete x s = Some s' \<and> holds s' h (remove1 x xs)"
    and first_holds: "holds s h xs \<Longrightarrow> first s h = Some (hd (xs @ [h]))"
begin

fun insert_all :: "'l \<Rightarrow> link_pos \<Rightarrow> 'l list \<Rightarrow> 's \<Rightarrow> 's option" where
  "insert_all h p [] s = Some s"
| "insert_all h p (x # xs) s = Option.bind (insert_at h x p s) (insert_all h p xs)"

fun drain :: "'l \<Rightarrow> nat \<Rightarrow> 's \<Rightarrow> ('l list \<times> 's) option" where
  "drain h 0 s = Some ([], s)"
| "drain h (Suc n) s =
     Option.bind (first s h) (\<lambda>x.
     Option.bind (delete x s) (\<lambda>s'.
     map_option (\<lambda>(xs, s''). (x # xs, s'')) (drain h n s')))"

lemma insert_all_TAIL:
  "holds s h xs \<Longrightarrow> distinct ys \<Longrightarrow> set ys \<inter> set (h # xs) = {} \<Longrightarrow>
     \<exists>s'. insert_all h TAIL ys s = Some s' \<and> holds s' h (xs @ ys)"
proof (induction ys arbitrary: s xs)
  case (Cons y ys)
  obtain s1 where s1: "insert_at h y TAIL s = Some s1" "holds s1 h (xs @ [y])"
    using insert_TAIL[OF Cons.prems(1), of y] Cons.prems by auto
  then show ?case using Cons.IH[OF s1(2)] Cons.prems by auto
qed simp

lemma insert_all_HEAD:
  "holds s h xs \<Longrightarrow> distinct ys \<Longrightarrow> set ys \<inter> set (h # xs) = {} \<Longrightarrow>
     \<exists>s'. insert_all h HEAD ys s = Some s' \<and> holds s' h (rev ys @ xs)"
proof (induction ys arbitrary: s xs)
  case (Cons y ys)
  obtain s1 where s1: "insert_at h y HEAD s = Some s1" "holds s1 h (y # xs)"
    using insert_HEAD[OF Cons.prems(1), of y] Cons.prems by auto
  then show ?case using Cons.IH[OF s1(2)] Cons.prems by auto
qed simp

lemma drain_prefix:
  "holds s h (xs @ ys) \<Longrightarrow> \<exists>s'. drain h (length xs) s = Some (xs, s') \<and> holds s' h ys"
proof (induction xs arbitrary: s)
  case (Cons x xs)
  obtain s1 where s1: "delete x s = Some s1" "holds s1 h (xs @ ys)"
    using delete_holds[OF Cons.prems, of x] by auto
  moreover have "first s h = Some x" using first_holds[OF Cons.prems] by simp
  ultimately show ?case using Cons.IH[OF s1(2)] by auto
qed simp

lemma fifo:
  assumes "holds s h []" and "distinct ys" and "h \<notin> set ys"
  shows "\<exists>s' s''. insert_all h TAIL ys s = Some s' \<and> drain h (length ys) s' = Some (ys, s'') \<and> holds s'' h []"
  using insert_all_TAIL[OF assms(1,2)] assms(3) drain_prefix[of _ h ys "[]"] by force

lemma lifo:
  assumes "holds s h []" and "distinct ys" and "h \<notin> set ys"
  shows "\<exists>s' s''. insert_all h HEAD ys s = Some s' \<and> drain h (length ys) s' = Some (rev ys, s'') \<and> holds s'' h []"
  using insert_all_HEAD[OF assms(1,2)] assms(3) drain_prefix[of _ h "rev ys" "[]"] by force

end

interpretation dl: linked_store dlist add_link remove_link get_next_node
proof (unfold_locales, goal_cases)
  case (1 s h xs) then show ?case by (simp add: dlist_def)
next
  case (2 s h xs x) then show ?case using dlist_add_TAIL by metis
next
  case (3 s h xs x) then show ?case using dlist_add_HEAD by metis
next
  case (4 s h xs x) then show ?case using dlist_remove by metis
next
  case (5 s h xs) then show ?case by (simp add: get_next_node_def dlist_next)
qed

section \<open>Queues without a sentinel\<close>

text \<open>A queue is the empty pointer, or a pointer to the first cell of a ring.\<close>

definition holds_queue :: "('l, 'd) links \<Rightarrow> 'l option \<Rightarrow> 'l list \<Rightarrow> bool" where
  "holds_queue L q xs \<longleftrightarrow>
     (case q of None \<Rightarrow> xs = [] | Some h \<Rightarrow> xs \<noteq> [] \<and> hd xs = h \<and> dlist L h (tl xs))"

lemma dlist_rotate: "dlist L h (y # ys) \<Longrightarrow> dlist L y (ys @ [h])"
proof -
  assume d: "dlist L h (y # ys)"
  then have "linked L ([h] @ y # (ys @ [h]))" by (simp add: dlist_def)
  then have l: "linked L ((y # ys) @ [h])" and n: "next_of L h = Some y \<and> prev_of L y = Some h"
    by (simp_all add: linked_append[of L "[h]" y])
  have "linked L ((y # ys) @ h # [y])"
    using l n linked_append[of L "y # ys" h "[y]"] by simp
  moreover have "(y # ys) @ h # [y] = y # (ys @ [h]) @ [y]" by simp
  moreover have "distinct (y # ys @ [h])" using d by (auto simp: dlist_def)
  ultimately show ?thesis unfolding dlist_def by (simp only:)
qed

lemma queue_insert_tail_holds:
  assumes "holds_queue L q xs" and "x \<notin> set xs"
  shows "\<exists>q' L'. queue_insert_tail q x L = Some (q', L') \<and> holds_queue L' q' (xs @ [x])"
proof (cases q)
  case None
  then show ?thesis using assms by (auto simp: queue_insert_tail_def holds_queue_def dlist_init)
next
  case (Some h)
  then obtain ys where ys: "xs = h # ys" "dlist L h ys"
    using assms by (cases xs) (auto simp: holds_queue_def)
  then obtain L' where "add_link h x TAIL L = Some L'" "dlist L' h (ys @ [x])"
    using dlist_add_TAIL[of L h ys x] assms(2) by auto
  then show ?thesis using ys Some by (auto simp: queue_insert_tail_def holds_queue_def)
qed

lemma queue_remove_head_holds:
  assumes "holds_queue L q (x # xs)"
  shows "\<exists>q' L'. queue_remove_head q L = Some (q', L') \<and> holds_queue L' q' xs"
proof -
  have q: "q = Some x" and d: "dlist L x xs" using assms by (auto simp: holds_queue_def split: option.splits)
  show ?thesis
  proof (cases xs)
    case Nil
    then show ?thesis using q dlist_next[OF d] by (simp add: queue_remove_head_def holds_queue_def)
  next
    case (Cons y ys)
    have "y \<noteq> x" using d Cons by (auto simp: dlist_def)
    have rot: "dlist L y (ys @ [x])" by (rule dlist_rotate[OF d[unfolded Cons]])
    then obtain L' where "remove_link x L = Some L'" "dlist L' y (remove1 x (ys @ [x]))"
      using dlist_remove[OF rot, of x] by auto
    moreover have "x \<notin> set ys" using d Cons by (auto simp: dlist_def)
    ultimately show ?thesis using q dlist_next[OF d] Cons \<open>y \<noteq> x\<close>
      by (auto simp: queue_remove_head_def holds_queue_def remove1_append)
  qed
qed

section \<open>Properties\<close>

text \<open>\<^verbatim>\<open>add_link\<close> puts a cell that is in no list at the chosen end of the list, \<^verbatim>\<open>remove_link\<close>
  takes it out again, and neither touches a cell of any other list.\<close>

theorem add_link_remove_link:
  assumes "dlist L h xs" and "x \<notin> set (h # xs)"
  shows "\<exists>L' L''. add_link h x pos L = Some L' \<and>
     dlist L' h (case pos of HEAD \<Rightarrow> x # xs | TAIL \<Rightarrow> xs @ [x]) \<and>
     remove_link x L' = Some L'' \<and> dlist L'' h xs \<and>
     same_outside (set (x # h # xs)) L L' \<and> same_outside (set (x # h # xs)) L L''"
proof -
  let ?ys = "case pos of HEAD \<Rightarrow> x # xs | TAIL \<Rightarrow> xs @ [x]"
  obtain L' where L': "add_link h x pos L = Some L'" "dlist L' h ?ys" "same_outside (set (x # h # xs)) L L'"
    using dlist_add_HEAD[OF assms] dlist_add_TAIL[OF assms] by (cases pos) auto
  have "x \<in> set ?ys" by (cases pos) auto
  from dlist_remove[OF L'(2) this] obtain L'' where L'':
    "remove_link x L' = Some L''" "dlist L'' h (remove1 x ?ys)" "same_outside (set (h # ?ys)) L' L''"
    by auto
  moreover have "remove1 x ?ys = xs" using assms(2) by (cases pos) (auto simp: remove1_append)
  moreover have "set (h # ?ys) = set (x # h # xs)" by (cases pos) auto
  ultimately have "dlist L'' h xs" "same_outside (set (x # h # xs)) L' L''" by simp_all
  moreover from this(2) have "same_outside (set (x # h # xs)) L L''"
    using L'(3) unfolding same_outside_def by metis
  ultimately show ?thesis using L' L''(1) by blast
qed

definition demo_links :: "(nat, nat) links" where
  "demo_links = link_init 0 \<lparr>next_of = (\<lambda>_. None), prev_of = (\<lambda>_. None), data_of = Some\<rparr>"

lemma demo_links_dlist: "dlist demo_links 0 []"
  by (simp add: demo_links_def dlist_init)

theorem add_link_remove_link_witness:
  "\<exists>L' L''. add_link 0 1 TAIL demo_links = Some L' \<and> dlist L' 0 [1] \<and>
     remove_link 1 L' = Some L'' \<and> dlist L'' 0 []"
  using add_link_remove_link[OF demo_links_dlist, of 1 TAIL] by auto

text \<open>The queue interface is a first-in first-out queue: inserting at the tail appends,
  removing the head drops the first cell, and the pointer is empty exactly when the queue is.\<close>

theorem queue_is_fifo:
  assumes "holds_queue L q xs" and "x \<notin> set xs"
  shows "(queue_empty q \<longleftrightarrow> xs = []) \<and>
     (\<exists>q1 L1 q2 L2. queue_insert_tail q x L = Some (q1, L1) \<and> holds_queue L1 q1 (xs @ [x]) \<and>
        queue_remove_head q1 L1 = Some (q2, L2) \<and> holds_queue L2 q2 (tl (xs @ [x])))"
proof -
  obtain q1 L1 where 1: "queue_insert_tail q x L = Some (q1, L1)" "holds_queue L1 q1 (xs @ [x])"
    using queue_insert_tail_holds[OF assms] by blast
  obtain y ys where y: "xs @ [x] = y # ys" by (cases "xs @ [x]") auto
  then obtain q2 L2 where "queue_remove_head q1 L1 = Some (q2, L2)" "holds_queue L2 q2 ys"
    using queue_remove_head_holds 1(2) by metis
  moreover have "queue_empty q \<longleftrightarrow> xs = []"
    using assms(1) by (auto simp: holds_queue_def queue_empty_def split: option.splits)
  ultimately show ?thesis using 1 y by auto
qed

theorem queue_is_fifo_witness:
  "\<exists>q1 L1 q2 L2. queue_insert_tail None 7 demo_links = Some (q1, L1) \<and> holds_queue L1 q1 [7] \<and>
     queue_remove_head q1 L1 = Some (q2, L2) \<and> holds_queue L2 q2 []"
  using queue_is_fifo[of demo_links None "[]" 7] by (auto simp: holds_queue_def)

lemma link_find_from_loop:
  assumes "next_of L x = Some x" and "x \<noteq> h" and "\<not> P (data_of L x)"
  shows "link_find_from L P h (Some x) = None"
proof -
  have "l \<noteq> Some x" if r: "link_find_from L P h l = Some r" for l r
  proof -
    have "(\<lambda>(((L, P), h), l) r. next_of L x = Some x \<longrightarrow> x \<noteq> h \<longrightarrow> \<not> P (data_of L x) \<longrightarrow> l \<noteq> Some x)
        (((L, P), h), l) r"
      using r by (rule link_find_from.raw_induct[rotated]) (clarsimp split: if_splits, blast)
    with assms show ?thesis by simp
  qed
  then show ?thesis by (cases "link_find_from L P h (Some x)") auto
qed

text \<open>Inserting at the head a cell that already is the first one ties its \<^verbatim>\<open>next\<close> pointer to
  itself: every later traversal that does not stop at that cell runs forever.  This is what
  \<^verbatim>\<open>schedule_task_next\<close> does to a task that is first in the ready list.\<close>

theorem add_link_twice_loops:
  assumes "dlist L h (x # xs)" and "\<not> P (data_of L x)"
  shows "\<exists>L'. add_link h x HEAD L = Some L' \<and> link_find L' P h = None"
proof -
  have nx: "next_of L h = Some x" and "x \<noteq> h" using assms(1) by (auto simp: dlist_def)
  then show ?thesis
    using assms(2) by (auto simp: link_find_def intro!: link_find_from_loop)
qed

theorem add_link_twice_loops_witness:
  "\<exists>(L :: (nat, nat) links) L'. dlist L 0 [1] \<and> add_link 0 1 HEAD L = Some L' \<and> link_find L' (\<lambda>_. False) 0 = None"
proof -
  have "(1 :: nat) \<notin> set [0]" by simp
  from dlist_add_HEAD[OF demo_links_dlist this] obtain L :: "(nat, nat) links"
    where "dlist L 0 [1]" by blast
  then show ?thesis using add_link_twice_loops[of L 0 1 "[]" "\<lambda>_. False"] by auto
qed

end
