(* ===== verification/Scheduler.thy ===== *)
theory Scheduler
  imports Links
begin

text \<open>
  The task lists and the round-robin scheduler: \<^verbatim>\<open>core/global.c\<close>, \<^verbatim>\<open>core/scheduler.c\<close>, the
  queries and the start of a task in \<^verbatim>\<open>core/task.c\<close> and \<^verbatim>\<open>arch/arm/armv7/cpu_task.c\<close>.  A
  pointer to a \<^verbatim>\<open>struct sw_task\<close> is a number; the links embedded in the structure and the
  list heads in \<^verbatim>\<open>struct sw_global\<close> are the addresses \<open>cell\<close>.  The kernel runs these
  operations with interrupts disabled (\<^verbatim>\<open>lock_irq_shared_resource\<close>), so each is one atomic
  step.  An operation has the value \<open>None\<close> when it runs forever or follows a bad pointer.
\<close>

section \<open>Tasks and global state\<close>

type_synonym tptr = nat

datatype cell = Task_List | Ready_List | Head_Link tptr | Ready_Link tptr | Wait_Link tptr
  | Task_Wait_List tptr | File_Dev_List tptr

datatype task_state = TASK_STATE_SUSPEND | TASK_STATE_WAIT | TASK_STATE_READY_TO_RUN
  | TASK_STATE_RUNNING

datatype task_mode = TASK_USER_MODE | TASK_KERN_MODE

record cpu_regs =
  r_regs :: "u32 list"
  r_sp :: u32
  r_lr :: u32
  r_spsr :: u32
  r_pc :: u32

record sw_tls =
  tls_params :: "u32 list"
  tls_process :: u32
  tls_heap_size :: u32
  tls_min_alloc_size :: u32
  tls_task_id :: u32
  tls_private_data :: u32
  tls_ret_val :: u32
  tls_ipi_ret_val :: u32

record sw_task =
  task_id :: u32
  service_id :: u32
  entry_addr :: u32
  task_name :: "u8 list"
  state :: task_state
  mode :: task_mode
  task_sp :: u32
  task_sp_size :: u32
  sp_phy_addr :: u32
  sp_kern_addr :: u32
  elf_flag_of :: u32
  tls_addr :: u32
  tls :: sw_tls
  tls_phy_addr :: u32
  regs :: cpu_regs
  acl_uid :: u32
  acl_gid :: u32
  guest_no :: u32

type_synonym sw_links = "(cell, tptr) links"

text \<open>\<^verbatim>\<open>switches\<close> records the calls of \<^verbatim>\<open>task_context_switch\<close>: the task whose registers are
  restored and the one whose registers are saved.\<close>

record sw_global =
  links :: sw_links
  tasks :: "tptr \<Rightarrow> sw_task"
  current_task_id :: u32
  task_id_pool :: "u8 \<Rightarrow> u8"
  switches :: "(tptr option \<times> tptr option) list"

section \<open>Searching the lists\<close>

definition has_task_id :: "'a sw_global_scheme \<Rightarrow> u32 \<Rightarrow> tptr option \<Rightarrow> bool" where
  "has_task_id g tid d = (case d of Some t \<Rightarrow> task_id (tasks g t) = tid | None \<Rightarrow> False)"

text \<open>The search loop of the task functions: the task whose identifier is \<open>tid\<close>, if any.\<close>

definition find_task :: "cell \<Rightarrow> u32 \<Rightarrow> 'a sw_global_scheme \<Rightarrow> tptr option option" where
  "find_task lst tid g =
     (if link_empty (links g) lst then Some None
      else do {
        c \<leftarrow> link_find (links g) (has_task_id g tid) lst;
        Some (case c of None \<Rightarrow> None | Some l \<Rightarrow> data_of (links g) l)
      })"

definition get_task :: "u32 \<Rightarrow> 'a sw_global_scheme \<Rightarrow> tptr option option" where
  "get_task tid g = find_task Task_List tid g"

definition get_current_task :: "'a sw_global_scheme \<Rightarrow> tptr option option" where
  "get_current_task g = find_task Task_List (current_task_id g) g"

definition get_task_state :: "u32 \<Rightarrow> 'a sw_global_scheme \<Rightarrow> task_state option" where
  "get_task_state tid g = do {
     r \<leftarrow> find_task Task_List tid g;
     Some (case r of None \<Rightarrow> TASK_STATE_SUSPEND | Some t \<Rightarrow> state (tasks g t))
   }"

definition get_task_tls :: "u32 \<Rightarrow> 'a sw_global_scheme \<Rightarrow> sw_tls option option" where
  "get_task_tls tid g = do {
     r \<leftarrow> find_task Task_List tid g;
     Some (case r of None \<Rightarrow> None | Some t \<Rightarrow> Some (tls (tasks g t)))
   }"

text \<open>The data pointer is dereferenced without a check here, which the lists in use never make
  \<^verbatim>\<open>NULL\<close>.\<close>

definition check_multiple_instance :: "u32 \<Rightarrow> 'a sw_global_scheme \<Rightarrow> bool option" where
  "check_multiple_instance sid g = do {
     c \<leftarrow> link_find (links g)
           (\<lambda>d. case d of Some t \<Rightarrow> service_id (tasks g t) = sid | None \<Rightarrow> False) Task_List;
     Some (c \<noteq> None)
   }"

section \<open>The ready queue\<close>

definition set_state :: "tptr \<Rightarrow> task_state \<Rightarrow> 'a sw_global_scheme \<Rightarrow> 'a sw_global_scheme" where
  "set_state t st g = g\<lparr>tasks := (tasks g)(t := (tasks g t)\<lparr>state := st\<rparr>)\<rparr>"

definition enqueue :: "link_pos \<Rightarrow> tptr \<Rightarrow> 'a sw_global_scheme \<Rightarrow> 'a sw_global_scheme option" where
  "enqueue pos t g = do {
     L \<leftarrow> add_link Ready_List (Ready_Link t) pos (set_link_data (Ready_Link t) (Some t) (links g));
     Some (g\<lparr>links := L\<rparr>)
   }"

definition schedule_task :: "tptr \<Rightarrow> 'a sw_global_scheme \<Rightarrow> 'a sw_global_scheme option" where
  "schedule_task t g = do {
     c \<leftarrow> link_find (links g) (has_task_id g (task_id (tasks g t))) Ready_List;
     if c \<noteq> None then Some g else enqueue TAIL t g
   }"

definition schedule_task_next :: "tptr \<Rightarrow> 'a sw_global_scheme \<Rightarrow> 'a sw_global_scheme option" where
  "schedule_task_next t g = enqueue HEAD t g"

definition schedule_task_id :: "u32 \<Rightarrow> 'a sw_global_scheme \<Rightarrow> 'a sw_global_scheme option" where
  "schedule_task_id tid g = do {
     r \<leftarrow> get_task tid g;
     case r of None \<Rightarrow> Some g
     | Some t \<Rightarrow> schedule_task t (set_state t TASK_STATE_READY_TO_RUN g)
   }"

definition suspend_task :: "u32 \<Rightarrow> task_state \<Rightarrow> 'a sw_global_scheme \<Rightarrow> 'a sw_global_scheme option" where
  "suspend_task tid st g = do {
     r \<leftarrow> find_task Task_List tid g;
     case r of None \<Rightarrow> Some g
     | Some t \<Rightarrow>
         let g' = set_state t st g in
         Some (if current_task_id g' = tid \<and> state (tasks g' t) = TASK_STATE_SUSPEND
               then g'\<lparr>current_task_id := - 1\<rparr> else g')
   }"

definition update_current_task :: "tptr option \<Rightarrow> 'a sw_global_scheme \<Rightarrow> 'a sw_global_scheme" where
  "update_current_task t g =
     (case t of None \<Rightarrow> g | Some t \<Rightarrow> g\<lparr>current_task_id := task_id (tasks g t)\<rparr>)"

definition runnable :: "'a sw_global_scheme \<Rightarrow> tptr \<Rightarrow> bool" where
  "runnable g t \<longleftrightarrow> state (tasks g t) \<noteq> TASK_STATE_WAIT \<and> state (tasks g t) \<noteq> TASK_STATE_SUSPEND"

definition get_next_task :: "'a sw_global_scheme \<Rightarrow> (tptr option \<times> 'a sw_global_scheme) option" where
  "get_next_task g = do {
     current \<leftarrow> get_current_task g;
     if link_empty (links g) Ready_List
     then Some (case current of
                  Some t \<Rightarrow> if runnable g t then Some t else None
                | None \<Rightarrow> None, g)
     else do {
       l \<leftarrow> next_of (links g) Ready_List;
       let nxt = data_of (links g) l in do {
         L \<leftarrow> remove_link l (links g);
         let g1 = g\<lparr>links := L\<rparr> in
         case current of
           None \<Rightarrow> Some (nxt, g1)
         | Some t \<Rightarrow> do {
             c \<leftarrow> link_find (links g1) (has_task_id g1 (task_id (tasks g1 t))) Ready_List;
             if c \<noteq> None then Some (nxt, g1)
             else if runnable g1 t then do { g2 \<leftarrow> schedule_task t g1; Some (nxt, g2) }
             else Some (nxt, g1)
           }
       }
     }
   }"

definition task_context_switch ::
    "tptr option \<Rightarrow> tptr option \<Rightarrow> 'a sw_global_scheme \<Rightarrow> 'a sw_global_scheme" where
  "task_context_switch nw old g = g\<lparr>switches := switches g @ [(nw, old)]\<rparr>"

definition scheduler :: "'a sw_global_scheme \<Rightarrow> 'a sw_global_scheme option" where
  "scheduler g = do {
     current \<leftarrow> get_current_task g;
     (nxt, g1) \<leftarrow> get_next_task g;
     if current \<noteq> nxt
     then let g2 = (case nxt of None \<Rightarrow> g1
                    | Some t \<Rightarrow> update_current_task (Some t) (set_state t TASK_STATE_RUNNING g1))
          in Some (task_context_switch nxt current g2)
     else Some g1
   }"

section \<open>Starting a task\<close>

definition ARCH_USR_MODE :: u32 where "ARCH_USR_MODE = 0x10"
definition ARCH_SYS_MODE :: u32 where "ARCH_SYS_MODE = 0x1F"
definition IRQ_BIT :: u32 where "IRQ_BIT = 0x80"

definition cpu_task_regs_init :: "sw_task \<Rightarrow> cpu_regs" where
  "cpu_task_regs_init task =
     \<lparr>r_regs = task_id task # tls_addr task # replicate 11 0,
      r_sp = task_sp task + task_sp_size task, r_lr = 0,
      r_spsr = (if mode task = TASK_KERN_MODE then ARCH_SYS_MODE OR IRQ_BIT else ARCH_USR_MODE OR IRQ_BIT),
      r_pc = entry_addr task\<rparr>"

text \<open>\<open>params\<close> is the four-word array the caller passes, or \<^verbatim>\<open>NULL\<close>.\<close>

definition start_task ::
    "u32 \<Rightarrow> u32 list option \<Rightarrow> 'a sw_global_scheme \<Rightarrow> ('a sw_global_scheme \<times> unit sw_result) option" where
  "start_task tid params g =
     (if link_empty (links g) Task_List then Some (g, Inl SW_EINVAL)
      else do {
        r \<leftarrow> find_task Task_List tid g;
        case r of None \<Rightarrow> Some (g, Inl SW_ENODATA)
        | Some t \<Rightarrow>
            let task1 = (tasks g t)\<lparr>regs := cpu_task_regs_init (tasks g t)\<rparr>;
                ps = (case params of Some ps \<Rightarrow> [ps ! 0, ps ! 1, ps ! 2, ps ! 3] | None \<Rightarrow> [0, 0, 0, 0]);
                task2 = task1\<lparr>tls := (tls task1)\<lparr>tls_params := ps\<rparr>\<rparr>
            in do { g' \<leftarrow> schedule_task t (g\<lparr>tasks := (tasks g)(t := task2)\<rparr>); Some (g', Inr ()) }
      })"

definition add_to_wait_list ::
    "tptr option \<Rightarrow> tptr option \<Rightarrow> 'a sw_global_scheme \<Rightarrow> 'a sw_global_scheme option" where
  "add_to_wait_list task tmp_task g =
     (case (task, tmp_task) of
        (Some t, Some w) \<Rightarrow> do {
          L \<leftarrow> add_link (Task_Wait_List t) (Wait_Link t) HEAD
                (set_link_data (Wait_Link t) (Some w) (links g));
          Some (g\<lparr>links := L\<rparr>)
        }
      | _ \<Rightarrow> Some g)"

section \<open>Address space identifiers\<close>

definition TASK_ID_START :: u8 where "TASK_ID_START = 0x11"
definition MAX_ASID :: int where "MAX_ASID = 256"

text \<open>\<^verbatim>\<open>asid\<close> is an unsigned byte, so the comparison with 256 is never true.\<close>

partial_function (option) asid_loop :: "(u8 \<Rightarrow> u8) \<Rightarrow> u8 \<Rightarrow> u8 option" where
  "asid_loop pool asid =
     (if pool asid \<noteq> 0
      then let asid1 = asid + 1;
               asid2 = (if uint asid1 > MAX_ASID then TASK_ID_START else asid1)
           in asid_loop pool asid2
      else Some asid)"

declare asid_loop.simps [code]

definition get_next_asid_val :: "'a sw_global_scheme \<Rightarrow> (u8 \<times> 'a sw_global_scheme) option" where
  "get_next_asid_val g = do {
     asid \<leftarrow> asid_loop (task_id_pool g) TASK_ID_START;
     Some (asid, g\<lparr>task_id_pool := (task_id_pool g)(asid := 1)\<rparr>)
   }"

section \<open>The lists a state holds\<close>

definition sched_rep :: "'a sw_global_scheme \<Rightarrow> tptr list \<Rightarrow> tptr list \<Rightarrow> bool" where
  "sched_rep g ts rs \<longleftrightarrow>
     dlist (links g) Task_List (map Head_Link ts) \<and> dlist (links g) Ready_List (map Ready_Link rs) \<and>
     (\<forall>t\<in>set ts. data_of (links g) (Head_Link t) = Some t) \<and>
     (\<forall>t\<in>set rs. data_of (links g) (Ready_Link t) = Some t) \<and>
     set rs \<subseteq> set ts \<and> distinct (map (\<lambda>t. task_id (tasks g t)) ts)"

lemma link_find_ids:
  assumes "dlist L h (map C ts)" and "\<forall>t\<in>set ts. data_of L (C t) = Some t"
  shows "link_find L (has_task_id g tid) h =
     Some (map_option C (List.find (\<lambda>t. task_id (tasks g t) = tid) ts))"
proof -
  have "List.find (\<lambda>t. has_task_id g tid (data_of L (C t))) ts =
      List.find (\<lambda>t. task_id (tasks g t) = tid) ts"
    using assms(2) by (intro find_cong) (simp add: has_task_id_def)
  then show ?thesis using dlist_find[OF assms(1)] by (simp add: find_map)
qed

text \<open>The abstract task table.\<close>

definition lookup :: "'a sw_global_scheme \<Rightarrow> tptr list \<Rightarrow> u32 \<Rightarrow> tptr option" where
  "lookup g ts tid = List.find (\<lambda>t. task_id (tasks g t) = tid) ts"

lemma find_task_list:
  assumes "dlist (links g) lst (map C ts)" and "\<forall>t\<in>set ts. data_of (links g) (C t) = Some t"
  shows "find_task lst tid g = Some (lookup g ts tid)"
proof (cases "lookup g ts tid")
  case None
  then show ?thesis
    using link_find_ids[OF assms, of g tid] by (simp add: find_task_def lookup_def)
next
  case (Some t)
  then have "t \<in> set ts" by (auto simp: lookup_def dest: find_in)
  then have "ts \<noteq> []" by auto
  then show ?thesis
    using link_find_ids[OF assms, of g tid] Some \<open>t \<in> set ts\<close> assms dlist_empty_iff[OF assms(1)]
    by (simp add: find_task_def lookup_def)
qed

lemma find_task_rep: "sched_rep g ts rs \<Longrightarrow> find_task Task_List tid g = Some (lookup g ts tid)"
  by (rule find_task_list) (auto simp: sched_rep_def)

lemma ready_find:
  assumes "sched_rep g ts rs" and "t \<in> set ts"
  shows "\<exists>c. link_find (links g) (has_task_id g (task_id (tasks g t))) Ready_List = Some c \<and>
     (c \<noteq> None \<longleftrightarrow> t \<in> set rs)"
proof -
  have inj: "s = t" if "s \<in> set rs" "task_id (tasks g s) = task_id (tasks g t)" for s
    using that assms by (auto simp: sched_rep_def distinct_map dest: inj_onD)
  then have "List.find (\<lambda>s. task_id (tasks g s) = task_id (tasks g t)) rs \<noteq> None \<longleftrightarrow> t \<in> set rs"
    by (auto simp: find_None)
  then show ?thesis
    using link_find_ids[of "links g" Ready_List Ready_Link rs g "task_id (tasks g t)"] assms(1)
    by (auto simp: sched_rep_def)
qed

text \<open>Linking a task into the ready list.\<close>

lemma enqueue_rep:
  assumes "sched_rep g ts rs" and "t \<in> set ts" and "t \<notin> set rs"
  shows "\<exists>L. enqueue pos t g = Some (g\<lparr>links := L\<rparr>) \<and>
     sched_rep (g\<lparr>links := L\<rparr>) ts (case pos of HEAD \<Rightarrow> t # rs | TAIL \<Rightarrow> rs @ [t])"
proof -
  let ?L0 = "set_link_data (Ready_Link t) (Some t) (links g)"
  let ?rs = "case pos of HEAD \<Rightarrow> t # rs | TAIL \<Rightarrow> rs @ [t]"
  have d: "dlist ?L0 Ready_List (map Ready_Link rs)" "dlist ?L0 Task_List (map Head_Link ts)"
    using assms(1) by (auto simp: sched_rep_def)
  have new: "Ready_Link t \<notin> set (Ready_List # map Ready_Link rs)" using assms(3) by auto
  obtain L where L: "add_link Ready_List (Ready_Link t) pos ?L0 = Some L"
    "dlist L Ready_List (map Ready_Link ?rs)"
    "same_outside (set (Ready_Link t # Ready_List # map Ready_Link rs)) ?L0 L"
    using dlist_add_HEAD[OF d(1) new] dlist_add_TAIL[OF d(1) new] by (cases pos) auto
  have "dlist L Task_List (map Head_Link ts)"
    using same_outside_dlist[OF L(3), of Task_List "map Head_Link ts"] d(2) by auto
  moreover have "data_of L = (data_of (links g))(Ready_Link t := Some t)"
    using same_outside_data[OF L(3)] by simp
  ultimately have "sched_rep (g\<lparr>links := L\<rparr>) ts ?rs"
    using assms L(2) by (cases pos) (auto simp: sched_rep_def)
  then show ?thesis using L(1) by (auto simp: enqueue_def)
qed

lemma schedule_task_rep:
  assumes "sched_rep g ts rs" and "t \<in> set ts"
  shows "\<exists>L. schedule_task t g = Some (g\<lparr>links := L\<rparr>) \<and>
     sched_rep (g\<lparr>links := L\<rparr>) ts (if t \<in> set rs then rs else rs @ [t])"
proof (cases "t \<in> set rs")
  case True
  then show ?thesis
    using ready_find[OF assms] assms(1) by (intro exI[of _ "links g"]) (auto simp: schedule_task_def)
next
  case False
  then show ?thesis
    using ready_find[OF assms] enqueue_rep[OF assms, of TAIL] by (auto simp: schedule_task_def)
qed

text \<open>Operations that do not change identifiers or links keep the lists.\<close>

lemma sched_rep_cong:
  "links g' = links g \<Longrightarrow> (\<And>t. task_id (tasks g' t) = task_id (tasks g t)) \<Longrightarrow>
     sched_rep g' ts rs = sched_rep g ts rs"
  by (simp add: sched_rep_def)

lemma sched_rep_set_state [simp]: "sched_rep (set_state t st g) ts rs = sched_rep g ts rs"
  by (rule sched_rep_cong) (auto simp: set_state_def)

section \<open>Round robin\<close>

text \<open>What \<^verbatim>\<open>get_next_task\<close> promises: the head of the ready queue is taken off it and the current
  task, when it can still run and is not queued, goes to the tail; with an empty queue a
  current task that can still run goes on.\<close>

definition round_robin :: "tptr option \<Rightarrow> (tptr \<Rightarrow> bool) \<Rightarrow> tptr list \<Rightarrow> tptr option \<times> tptr list" where
  "round_robin cur can_run rs =
     (case rs of
        [] \<Rightarrow> (case cur of Some t \<Rightarrow> if can_run t then Some t else None | None \<Rightarrow> None, [])
      | r # rs' \<Rightarrow> (Some r, case cur of
           Some t \<Rightarrow> if t \<notin> set rs' \<and> can_run t then rs' @ [t] else rs'
         | None \<Rightarrow> rs'))"

lemma remove_head_rep:
  assumes "sched_rep g ts (r # rs)"
  shows "\<exists>L. next_of (links g) Ready_List = Some (Ready_Link r) \<and>
     data_of (links g) (Ready_Link r) = Some r \<and>
     remove_link (Ready_Link r) (links g) = Some L \<and> sched_rep (g\<lparr>links := L\<rparr>) ts rs \<and>
     same_outside (set (Ready_List # map Ready_Link (r # rs))) (links g) L"
proof -
  have d: "dlist (links g) Ready_List (map Ready_Link (r # rs))" using assms by (simp add: sched_rep_def)
  then obtain L where L: "remove_link (Ready_Link r) (links g) = Some L"
    "dlist L Ready_List (map Ready_Link rs)"
    "same_outside (set (Ready_List # map Ready_Link (r # rs))) (links g) L"
    using dlist_remove[OF d, of "Ready_Link r"] by auto
  have "dlist L Task_List (map Head_Link ts)"
    using same_outside_dlist[OF L(3), of Task_List "map Head_Link ts"] assms by (auto simp: sched_rep_def)
  then have "sched_rep (g\<lparr>links := L\<rparr>) ts rs"
    using assms L(2) same_outside_data[OF L(3)] by (auto simp: sched_rep_def)
  then show ?thesis using L(1,3) assms dlist_next[OF d] by (auto simp: sched_rep_def)
qed

lemma lookup_in: "lookup g ts tid = Some t \<Longrightarrow> t \<in> set ts \<and> task_id (tasks g t) = tid"
  by (auto simp: lookup_def dest: find_in)

lemma get_next_task_rep:
  assumes "sched_rep g ts rs"
  shows "\<exists>L. get_next_task g =
       Some (fst (round_robin (lookup g ts (current_task_id g)) (runnable g) rs), g\<lparr>links := L\<rparr>) \<and>
     sched_rep (g\<lparr>links := L\<rparr>) ts
       (snd (round_robin (lookup g ts (current_task_id g)) (runnable g) rs))"
proof -
  let ?cur = "lookup g ts (current_task_id g)"
  have cur: "get_current_task g = Some ?cur"
    by (simp add: get_current_task_def find_task_rep[OF assms])
  have empty: "link_empty (links g) Ready_List \<longleftrightarrow> rs = []"
    using assms dlist_empty_iff[of "links g" Ready_List "map Ready_Link rs"] by (auto simp: sched_rep_def)
  show ?thesis
  proof (cases rs)
    case Nil
    then show ?thesis using cur empty assms
      by (intro exI[of _ "links g"]) (auto simp: get_next_task_def round_robin_def split: option.splits)
  next
    case (Cons r rs')
    from remove_head_rep[OF assms[unfolded Cons]] obtain L where L:
      "next_of (links g) Ready_List = Some (Ready_Link r)" "data_of (links g) (Ready_Link r) = Some r"
      "remove_link (Ready_Link r) (links g) = Some L" "sched_rep (g\<lparr>links := L\<rparr>) ts rs'" by blast
    show ?thesis
    proof (cases ?cur)
      case None
      then show ?thesis using cur empty L Cons
        by (intro exI[of _ L]) (simp add: get_next_task_def round_robin_def Let_def)
    next
      case (Some t)
      then have t: "t \<in> set ts" using lookup_in by blast
      from ready_find[OF L(4) t] obtain c where c:
        "link_find L (has_task_id (g\<lparr>links := L\<rparr>) (task_id (tasks g t))) Ready_List = Some c"
        "c \<noteq> None \<longleftrightarrow> t \<in> set rs'" by auto
      have run: "runnable (g\<lparr>links := L\<rparr>) t = runnable g t" by (simp add: runnable_def)
      show ?thesis
      proof (cases "t \<notin> set rs' \<and> runnable g t")
        case True
        then show ?thesis
          using schedule_task_rep[OF L(4) t] cur empty L Cons Some c run
          by (auto simp: get_next_task_def round_robin_def Let_def)
      next
        case False
        then show ?thesis
          using cur empty L Cons Some c run
          by (intro exI[of _ L]) (auto simp: get_next_task_def round_robin_def Let_def)
      qed
    qed
  qed
qed

text \<open>C27. \<^verbatim>\<open>get_next_task\<close> returns and implements round-robin selection on the linked lists: the
  task it returns and the ready queue it leaves behind are those of \<open>round_robin\<close>, and it
  changes nothing but links.\<close>

theorem get_next_task_round_robin:
  assumes "sched_rep g ts rs"
  shows "\<exists>L. get_next_task g =
       Some (fst (round_robin (lookup g ts (current_task_id g)) (runnable g) rs), g\<lparr>links := L\<rparr>) \<and>
     sched_rep (g\<lparr>links := L\<rparr>) ts
       (snd (round_robin (lookup g ts (current_task_id g)) (runnable g) rs))"
  using assms by (rule get_next_task_rep)

definition demo_task :: "u32 \<Rightarrow> task_state \<Rightarrow> sw_task" where
  "demo_task tid st =
     \<lparr>task_id = tid, service_id = 0, entry_addr = 0x8000, task_name = [], state = st,
      mode = TASK_KERN_MODE, task_sp = 0x10000, task_sp_size = 0x1000, sp_phy_addr = 0,
      sp_kern_addr = 0, elf_flag_of = 0, tls_addr = 0x20000,
      tls = \<lparr>tls_params = [0, 0, 0, 0], tls_process = 0, tls_heap_size = 0,
             tls_min_alloc_size = 0, tls_task_id = tid, tls_private_data = 0, tls_ret_val = 0, tls_ipi_ret_val = 0\<rparr>,
      tls_phy_addr = 0,
      regs = \<lparr>r_regs = replicate 13 0, r_sp = 0, r_lr = 0, r_spsr = 0, r_pc = 0\<rparr>,
      acl_uid = 0, acl_gid = 0, guest_no = 0\<rparr>"

text \<open>Three tasks 17, 18 and 19, the first running, the other two queued.\<close>

definition ring :: "cell list \<Rightarrow> (cell \<Rightarrow> cell option) \<Rightarrow> (cell \<Rightarrow> cell option)" where
  "ring cs f = (\<lambda>c. case map_of (zip cs (tl cs @ [hd cs])) c of None \<Rightarrow> f c | Some d \<Rightarrow> Some d)"

definition demo_global :: sw_global where
  "demo_global =
     \<lparr>links = \<lparr>next_of = ring [Task_List, Head_Link 1, Head_Link 2, Head_Link 3]
                          (ring [Ready_List, Ready_Link 2, Ready_Link 3] (\<lambda>_. None)),
               prev_of = ring [Task_List, Head_Link 3, Head_Link 2, Head_Link 1]
                          (ring [Ready_List, Ready_Link 3, Ready_Link 2] (\<lambda>_. None)),
               data_of = (\<lambda>c. case c of Head_Link t \<Rightarrow> Some t | Ready_Link t \<Rightarrow> Some t | _ \<Rightarrow> None)\<rparr>,
      tasks = (\<lambda>t. demo_task (16 + of_nat t)
                 (if t = 1 then TASK_STATE_RUNNING else TASK_STATE_READY_TO_RUN)),
      current_task_id = 17, task_id_pool = (\<lambda>_. 0), switches = []\<rparr>"

lemma demo_global_rep: "sched_rep demo_global [1, 2, 3] [2, 3]"
  by (simp add: sched_rep_def dlist_def demo_global_def ring_def demo_task_def)

theorem get_next_task_round_robin_witness:
  "\<exists>L. get_next_task demo_global = Some (Some 2, demo_global\<lparr>links := L\<rparr>) \<and>
     sched_rep (demo_global\<lparr>links := L\<rparr>) [1, 2, 3] [3, 1]"
proof -
  have "lookup demo_global [1, 2, 3] (current_task_id demo_global) = Some 1"
    "runnable demo_global 1"
    by (simp_all add: lookup_def demo_global_def demo_task_def runnable_def)
  then show ?thesis
    using get_next_task_round_robin[OF demo_global_rep] by (simp add: round_robin_def)
qed

text \<open>One run of the scheduler: the ready queue and the current task afterwards.\<close>

lemma scheduler_rep:
  assumes "sched_rep g ts rs"
    and "round_robin (lookup g ts (current_task_id g)) (runnable g) rs = (nxt, rs')"
  shows "\<exists>g'. scheduler g = Some g' \<and> sched_rep g' ts rs' \<and>
     (\<forall>t. task_id (tasks g' t) = task_id (tasks g t)) \<and>
     current_task_id g' = (case nxt of None \<Rightarrow> current_task_id g | Some t \<Rightarrow> task_id (tasks g t))"
proof -
  let ?cur = "lookup g ts (current_task_id g)"
  obtain L where L: "get_next_task g = Some (nxt, g\<lparr>links := L\<rparr>)" "sched_rep (g\<lparr>links := L\<rparr>) ts rs'"
    using get_next_task_rep[OF assms(1)] assms(2) by auto
  have cur: "get_current_task g = Some ?cur"
    by (simp add: get_current_task_def find_task_rep[OF assms(1)])
  show ?thesis
  proof (cases "?cur = nxt")
    case True
    moreover have "current_task_id g = task_id (tasks g t)" if "nxt = Some t" for t
      using that True lookup_in by metis
    ultimately show ?thesis using L cur
      by (intro exI[of _ "g\<lparr>links := L\<rparr>"]) (auto simp: scheduler_def split: option.splits)
  next
    case False
    let ?g1 = "g\<lparr>links := L\<rparr>"
    let ?g2 = "case nxt of None \<Rightarrow> ?g1
               | Some t \<Rightarrow> update_current_task (Some t) (set_state t TASK_STATE_RUNNING ?g1)"
    let ?g' = "task_context_switch nxt ?cur ?g2"
    have "scheduler g = Some ?g'" using L cur False by (simp add: scheduler_def)
    moreover have "sched_rep ?g' ts rs' = sched_rep ?g1 ts rs'"
      by (rule sched_rep_cong) (auto simp: task_context_switch_def update_current_task_def set_state_def
          split: option.splits)
    moreover have "task_id (tasks ?g' t) = task_id (tasks g t)" for t
      by (auto simp: task_context_switch_def update_current_task_def set_state_def split: option.splits)
    moreover have "current_task_id ?g' =
        (case nxt of None \<Rightarrow> current_task_id g | Some t \<Rightarrow> task_id (tasks g t))"
      by (auto simp: task_context_switch_def update_current_task_def set_state_def split: option.splits)
    ultimately show ?thesis using L(2) by blast
  qed
qed

text \<open>\<open>n\<close> consecutive runs of the scheduler.\<close>

fun run_scheduler :: "nat \<Rightarrow> 'a sw_global_scheme \<Rightarrow> 'a sw_global_scheme option" where
  "run_scheduler 0 g = Some g"
| "run_scheduler (Suc n) g = Option.bind (scheduler g) (run_scheduler n)"

text \<open>C28. No starvation: a task with \<open>k\<close> tasks before it in the ready queue is the current task
  after \<open>k + 1\<close> runs of the scheduler, whatever the states of the others.\<close>

theorem queued_task_runs:
  assumes "sched_rep g ts rs" and "k < length rs"
  shows "\<exists>g'. run_scheduler (Suc k) g = Some g' \<and> current_task_id g' = task_id (tasks g (rs ! k))"
  using assms
proof (induction k arbitrary: g rs)
  case 0
  then obtain r rs' where rs: "rs = r # rs'" by (cases rs) auto
  then obtain q where "round_robin (lookup g ts (current_task_id g)) (runnable g) rs = (Some r, q)"
    by (simp add: round_robin_def)
  from scheduler_rep[OF 0(1) this] show ?case using rs by auto
next
  case (Suc k)
  then obtain r rs' where rs: "rs = r # rs'" by (cases rs) auto
  let ?rr = "round_robin (lookup g ts (current_task_id g)) (runnable g) rs"
  obtain q where q: "?rr = (Some r, q)" "\<exists>ys. q = rs' @ ys"
    using rs by (simp add: round_robin_def split: option.splits)
  from scheduler_rep[OF Suc.prems(1) q(1)] obtain g1 where g1: "scheduler g = Some g1"
    "sched_rep g1 ts q" "\<forall>t. task_id (tasks g1 t) = task_id (tasks g t)" by blast
  have k: "k < length q" "q ! k = rs ! Suc k" using q(2) rs Suc.prems(2) by (auto simp: nth_append)
  from Suc.IH[OF g1(2) k(1)] show ?case using g1 k(2) by simp
qed

theorem queued_task_runs_witness:
  "\<exists>g'. run_scheduler 2 demo_global = Some g' \<and> current_task_id g' = 19"
  using queued_task_runs[OF demo_global_rep, of 1] by (simp add: numeral_2_eq_2 demo_global_def demo_task_def)

section \<open>Suspending, starting and identifying tasks\<close>

text \<open>\<^verbatim>\<open>suspend_task\<close> does not take the task off the ready queue: a suspended task at the head
  of the queue becomes the current task at the next run of the scheduler.\<close>

theorem suspended_task_runs:
  assumes "sched_rep g ts (r # rs)"
  shows "\<exists>g1 g2. suspend_task (task_id (tasks g r)) TASK_STATE_SUSPEND g = Some g1 \<and>
     state (tasks g1 r) = TASK_STATE_SUSPEND \<and>
     scheduler g1 = Some g2 \<and> current_task_id g2 = task_id (tasks g r)"
proof -
  have r: "r \<in> set ts" using assms by (auto simp: sched_rep_def)
  have lk: "lookup g ts (task_id (tasks g r)) = Some r"
    using assms find_id[of "\<lambda>t. task_id (tasks g t)" ts r] r by (simp add: lookup_def sched_rep_def)
  let ?g0 = "set_state r TASK_STATE_SUSPEND g"
  obtain g1 where g1: "suspend_task (task_id (tasks g r)) TASK_STATE_SUSPEND g = Some g1"
    "links g1 = links g" "tasks g1 = tasks ?g0"
    using find_task_rep[OF assms] lk by (auto simp: suspend_task_def set_state_def Let_def)
  have rep: "sched_rep g1 ts (r # rs)"
    using assms g1 by (subst sched_rep_cong[of g1 g]) (auto simp: set_state_def)
  obtain q where "round_robin (lookup g1 ts (current_task_id g1)) (runnable g1) (r # rs) = (Some r, q)"
    by (simp add: round_robin_def)
  from scheduler_rep[OF rep this] show ?thesis using g1 by (auto simp: set_state_def)
qed

theorem suspended_task_runs_witness:
  "\<exists>g1 g2. suspend_task 18 TASK_STATE_SUSPEND demo_global = Some g1 \<and>
     state (tasks g1 2) = TASK_STATE_SUSPEND \<and> scheduler g1 = Some g2 \<and> current_task_id g2 = 18"
  using suspended_task_runs[OF demo_global_rep] by (simp add: demo_global_def demo_task_def)

text \<open>\<^verbatim>\<open>start_task\<close>: an unknown identifier is \<^verbatim>\<open>SW_ENODATA\<close> (\<^verbatim>\<open>SW_EINVAL\<close> when there is no
  task at all) and changes nothing; otherwise the task gets its initial registers and its
  parameters, and it is queued once, at the tail unless it already is in the queue.\<close>

theorem start_task_queues:
  assumes "sched_rep g ts rs"
  shows "case lookup g ts tid of
       None \<Rightarrow> start_task tid params g = Some (g, Inl (if ts = [] then SW_EINVAL else SW_ENODATA))
     | Some t \<Rightarrow> \<exists>g'. start_task tid params g = Some (g', Inr ()) \<and>
         sched_rep g' ts (if t \<in> set rs then rs else rs @ [t]) \<and>
         regs (tasks g' t) = cpu_task_regs_init (tasks g t) \<and>
         tls_params (tls (tasks g' t)) =
           (case params of Some ps \<Rightarrow> map ((!) ps) [0, 1, 2, 3] | None \<Rightarrow> [0, 0, 0, 0]) \<and>
         state (tasks g' t) = state (tasks g t) \<and> (\<forall>u. u \<noteq> t \<longrightarrow> tasks g' u = tasks g u)"
proof -
  have empty: "link_empty (links g) Task_List \<longleftrightarrow> ts = []"
    using assms dlist_empty_iff[of "links g" Task_List "map Head_Link ts"] by (auto simp: sched_rep_def)
  show ?thesis
  proof (cases "lookup g ts tid")
    case None
    then show ?thesis using empty find_task_rep[OF assms] by (simp add: start_task_def)
  next
    case (Some t)
    then have t: "t \<in> set ts" using lookup_in by blast
    let ?ps = "case params of Some ps \<Rightarrow> [ps ! 0, ps ! 1, ps ! 2, ps ! 3] | None \<Rightarrow> [0, 0, 0, 0]"
    let ?task = "(tasks g t)\<lparr>regs := cpu_task_regs_init (tasks g t),
                             tls := (tls (tasks g t))\<lparr>tls_params := ?ps\<rparr>\<rparr>"
    let ?g1 = "g\<lparr>tasks := (tasks g)(t := ?task)\<rparr>"
    have "sched_rep ?g1 ts rs" using assms by (subst sched_rep_cong[of ?g1 g]) auto
    from schedule_task_rep[OF this t] obtain L where "schedule_task t ?g1 = Some (?g1\<lparr>links := L\<rparr>)"
      "sched_rep (?g1\<lparr>links := L\<rparr>) ts (if t \<in> set rs then rs else rs @ [t])" by blast
    moreover have "ts \<noteq> []" using t by auto
    ultimately show ?thesis
      using Some empty find_task_rep[OF assms, of tid]
      by (intro exI[of _ "?g1\<lparr>links := L\<rparr>"] | simp add: start_task_def Let_def split: option.splits)+
  qed
qed

theorem start_task_queues_witness:
  "\<exists>g'. start_task 17 None demo_global = Some (g', Inr ()) \<and> sched_rep g' [1, 2, 3] [2, 3, 1] \<and>
     r_pc (regs (tasks g' 1)) = 0x8000 \<and> r_sp (regs (tasks g' 1)) = 0x11000"
proof -
  have "lookup demo_global [1, 2, 3] 17 = Some 1"
    by (simp add: lookup_def demo_global_def demo_task_def)
  moreover have "cpu_task_regs_init (tasks demo_global 1) =
      \<lparr>r_regs = 17 # 0x20000 # replicate 11 0, r_sp = 0x11000, r_lr = 0, r_spsr = 0x9F, r_pc = 0x8000\<rparr>"
    by (simp add: cpu_task_regs_init_def demo_global_def demo_task_def ARCH_SYS_MODE_def IRQ_BIT_def)
  ultimately show ?thesis using start_task_queues[OF demo_global_rep, of 17 None] by auto
qed

lemma asid_loop_skip: "pool a \<noteq> 0 \<Longrightarrow> asid_loop pool a = asid_loop pool (a + 1)"
proof -
  assume a: "pool a \<noteq> 0"
  have "\<not> MAX_ASID < uint (a + 1)"
    using uint_lt2p[of "a + 1"] by (simp add: MAX_ASID_def)
  then show ?thesis using a by (subst asid_loop.simps) (simp add: Let_def)
qed

lemma asid_loop_found: "pool a = 0 \<Longrightarrow> asid_loop pool a = Some a"
  by (subst asid_loop.simps) simp

lemma asid_loop_run:
  "(\<And>i. i < n \<Longrightarrow> pool (a + of_nat i) \<noteq> 0) \<Longrightarrow> asid_loop pool a = asid_loop pool (a + of_nat n)"
proof (induction n)
  case (Suc n)
  then have "asid_loop pool a = asid_loop pool (a + of_nat n)" by simp
  also have "\<dots> = asid_loop pool (a + of_nat n + 1)" using Suc.prems[of n] by (intro asid_loop_skip) simp
  finally show ?case by (simp add: ac_simps)
qed simp

text \<open>When any identifier is free \<^verbatim>\<open>get_next_asid_val\<close> returns one and marks it: the first
  free one counting upwards from \<^verbatim>\<open>TASK_ID_START\<close> modulo 256, so the identifiers below
  \<^verbatim>\<open>TASK_ID_START\<close> are candidates too.\<close>

theorem get_next_asid_first_free:
  assumes "task_id_pool g b = 0"
  shows "\<exists>n. get_next_asid_val g =
       Some (TASK_ID_START + of_nat n,
             g\<lparr>task_id_pool := (task_id_pool g)(TASK_ID_START + of_nat n := 1)\<rparr>) \<and>
     task_id_pool g (TASK_ID_START + of_nat n) = 0 \<and>
     (\<forall>i<n. task_id_pool g (TASK_ID_START + of_nat i) \<noteq> 0)"
proof -
  define n where "n = (LEAST n. task_id_pool g (TASK_ID_START + of_nat n) = 0)"
  have "task_id_pool g (TASK_ID_START + of_nat (unat (b - TASK_ID_START))) = 0"
    using assms by simp
  then have n: "task_id_pool g (TASK_ID_START + of_nat n) = 0"
    unfolding n_def by (rule LeastI)
  moreover have less: "task_id_pool g (TASK_ID_START + of_nat i) \<noteq> 0" if "i < n" for i
    using that not_less_Least unfolding n_def by blast
  ultimately have "asid_loop (task_id_pool g) TASK_ID_START = Some (TASK_ID_START + of_nat n)"
    using asid_loop_run[of n "task_id_pool g" TASK_ID_START] by (simp add: asid_loop_found)
  then show ?thesis using n less by (intro exI[of _ n]) (simp add: get_next_asid_val_def)
qed

text \<open>The reserved identifier 0, which \<^verbatim>\<open>global_init\<close> leaves unmarked, is handed out once
  17 to 255 are taken.\<close>

definition full_pool :: "u8 \<Rightarrow> u8" where
  "full_pool a = (if a = 0 then 0 else 1)"

theorem get_next_asid_first_free_witness:
  "get_next_asid_val (demo_global\<lparr>task_id_pool := full_pool\<rparr>) =
     Some (0, demo_global\<lparr>task_id_pool := full_pool(0 := 1)\<rparr>)"
  using get_next_asid_first_free[of "demo_global\<lparr>task_id_pool := full_pool\<rparr>" 0]
  by (auto simp: full_pool_def split: if_splits)

end
