(* ===== verification/Page_Table.thy ===== *)
theory Page_Table
  imports Mem_Mng "HOL-Library.Monad_Syntax" "HOL-Library.Numeral_Type"
begin

text \<open>
  The secure page table, \<^verbatim>\<open>arch/arm/armv7/page_table.c\<close>: ARMv7 short-descriptor tables, section
  and small-page entries, the pool of second-level tables, reference counts of non-secure
  sections, and the range operations.  \<open>mem\<close> is the kernel's memory by word address; a table is
  reached through pointers into it, as in the code.  The reference list and the pool list are
  the lists of their data in list order (\<^verbatim>\<open>sw_link.h\<close> is treated in theory Links).  The MMU's
  translation \<open>v2p\<close>, the linker and board addresses and the outcome of the common heap are
  fields of \<open>pt_env\<close>; \<open>phys_to_virt\<close> is \<^verbatim>\<open>secure_phy_to_vir\<close>.  \<open>None\<close> stands for a panic, an
  endless loop or a bad pointer.
\<close>

section \<open>Descriptors\<close>

abbreviation (input) PAGE_DESC_TYPE_MASK :: u32 where "PAGE_DESC_TYPE_MASK \<equiv> 3"
abbreviation (input) PAGE_DESC_TYPE_FAULT :: u32 where "PAGE_DESC_TYPE_FAULT \<equiv> 0"
abbreviation (input) PAGE_DESC_TYPE_COARSE :: u32 where "PAGE_DESC_TYPE_COARSE \<equiv> 1"
abbreviation (input) PAGE_DESC_TYPE_SECTION :: u32 where "PAGE_DESC_TYPE_SECTION \<equiv> 2"
abbreviation (input) PAGE_DESC_TYPE_SMALL :: u32 where "PAGE_DESC_TYPE_SMALL \<equiv> 2"
abbreviation (input) PAGE_DESC_PAGE_TBL_MASK :: u32 where "PAGE_DESC_PAGE_TBL_MASK \<equiv> 0xFFFFFC00"
abbreviation (input) PAGE_DESC_SEC_MASK :: u32 where "PAGE_DESC_SEC_MASK \<equiv> 0xFFF00000"
abbreviation (input) PAGE_DESC_PAGE_MASK :: u32 where "PAGE_DESC_PAGE_MASK \<equiv> 0xFFFFF000"
abbreviation (input) PAGE_DESC_DOMAIN_MASK_ENTRY :: u32 where "PAGE_DESC_DOMAIN_MASK_ENTRY \<equiv> 0x1E0"
abbreviation (input) PAGE_DESC_L1_SEC_NS_MASK_ENTRY :: u32 where "PAGE_DESC_L1_SEC_NS_MASK_ENTRY \<equiv> 0x80000"
abbreviation (input) L2_PAGE_TABLE_SIZE :: u32 where "L2_PAGE_TABLE_SIZE \<equiv> 1024"

text \<open>\<^verbatim>\<open>struct cpu_pt_entry\<close>; the bit-fields have their widths.\<close>

record cpu_pt_entry =
  e_va :: u32
  e_pa :: u32
  e_ns :: "1 word"
  e_ng :: "1 word"
  e_s :: "1 word"
  e_tex :: "3 word"
  e_ap :: "3 word"
  e_dom :: "4 word"
  e_xn :: "1 word"
  e_c :: "1 word"
  e_b :: "1 word"

definition PRIV_RW_USR_NO :: u32 where "PRIV_RW_USR_NO = 1"
definition PRIV_RW_USR_RO :: u32 where "PRIV_RW_USR_RO = 2"
definition PRIV_RW_USR_RW :: u32 where "PRIV_RW_USR_RW = 3"
definition PRIV_RO_USR_NO :: u32 where "PRIV_RO_USR_NO = 5"
definition PTF_PROT_KRW :: u32 where "PTF_PROT_KRW = PRIV_RW_USR_NO"
definition PTF_PROT_KRO :: u32 where "PTF_PROT_KRO = PRIV_RO_USR_NO"
definition PTF_PROT_URW :: u32 where "PTF_PROT_URW = PRIV_RW_USR_RW"
definition PTF_PROT_URO :: u32 where "PTF_PROT_URO = PRIV_RW_USR_RO"
definition PTF_EXEC :: u32 where "PTF_EXEC = push_bit 3 1"

definition ptf_to_ap :: "u32 \<Rightarrow> 3 word" where
  "ptf_to_ap x = ucast (x AND 7)"

definition ptf_to_xn :: "u32 \<Rightarrow> 1 word" where
  "ptf_to_xn x = ucast (drop_bit 3 (NOT x AND 8))"

definition section_desc :: "cpu_pt_entry \<Rightarrow> u32" where
  "section_desc entry =
     (e_pa entry AND PAGE_DESC_SEC_MASK) OR PAGE_DESC_TYPE_SECTION
     OR push_bit 5 (ucast (e_dom entry))
     OR push_bit 2 (ucast (e_b entry))
     OR push_bit 3 (ucast (e_c entry))
     OR push_bit 12 (ucast (e_tex entry))
     OR push_bit 4 (ucast (e_xn entry))
     OR push_bit 10 (ucast (e_ap entry) AND 3)
     OR push_bit 15 (drop_bit 2 (ucast (e_ap entry)) AND 1)
     OR push_bit 16 (ucast (e_s entry))
     OR push_bit 17 (ucast (e_ng entry))
     OR push_bit 19 (ucast (e_ns entry))"

definition small_desc :: "cpu_pt_entry \<Rightarrow> u32" where
  "small_desc entry =
     (e_pa entry AND PAGE_DESC_PAGE_MASK) OR PAGE_DESC_TYPE_SMALL
     OR push_bit 2 (ucast (e_b entry))
     OR push_bit 3 (ucast (e_c entry))
     OR push_bit 6 (ucast (e_tex entry))
     OR push_bit 0 (ucast (e_xn entry))
     OR push_bit 4 (ucast (e_ap entry) AND 3)
     OR push_bit 9 (drop_bit 2 (ucast (e_ap entry)) AND 1)
     OR push_bit 10 (ucast (e_s entry))
     OR push_bit 11 (ucast (e_ng entry))"

definition coarse_desc :: "u32 \<Rightarrow> cpu_pt_entry \<Rightarrow> u32" where
  "coarse_desc l2_base entry =
     (l2_base AND PAGE_DESC_PAGE_TBL_MASK) OR PAGE_DESC_TYPE_COARSE
     OR push_bit 5 (ucast (e_dom entry)) OR push_bit 3 (ucast (e_ns entry))"

definition with_domain :: "u32 \<Rightarrow> 4 word \<Rightarrow> u32" where
  "with_domain d acc = (d AND NOT PAGE_DESC_DOMAIN_MASK_ENTRY) OR push_bit 5 (ucast acc)"

section \<open>State\<close>

record second_level_pages =
  page_base :: u32
  page :: "u32 list"
  blk_used :: u32
  is_static :: bool

record pt_env =
  secure_ptd :: u32
  v2p :: "u32 \<Rightarrow> u32"
  mmu_enabled :: bool
  code_start :: u32
  ram_start :: u32
  static_l2_page :: u32
  malloc_ok :: bool

record pt_state =
  mem :: "u32 \<Rightarrow> u32"
  l2_list :: "second_level_pages list"
  l2_blk_allocated :: u32
  l2_blk_used :: u32
  static_l2_next_idx :: u8
  page_refs :: "(u32 \<times> u32) list"
  heap_init_done :: bool
  pages_info :: mem_info

definition phys_to_virt :: "pt_env \<Rightarrow> u32 \<Rightarrow> u32" where
  "phys_to_virt env pa = code_start env + (pa - ram_start env)"

definition set_word :: "u32 \<Rightarrow> u32 \<Rightarrow> pt_state \<Rightarrow> pt_state" where
  "set_word a w st = st\<lparr>mem := (mem st)(a := w)\<rparr>"

definition zero_bytes :: "u32 \<Rightarrow> u32 \<Rightarrow> pt_state \<Rightarrow> pt_state" where
  "zero_bytes a n st = st\<lparr>mem := (\<lambda>x. if x - a < n then 0 else mem st x)\<rparr>"

text \<open>The address of the first-level entry, \<^verbatim>\<open>pgd + (va >> 20)\<close> on a word pointer.\<close>

definition l1_pte_addr :: "u32 \<Rightarrow> u32 \<Rightarrow> u32" where
  "l1_pte_addr pgd va = pgd + push_bit 2 (drop_bit 20 va)"

definition l2_pte_addr :: "u32 \<Rightarrow> u32 \<Rightarrow> u32" where
  "l2_pte_addr l2_base_vir va = l2_base_vir + push_bit 2 (drop_bit 12 va AND 0xFF)"

section \<open>Reference counts of non-secure sections\<close>

fun ref_lookup :: "u32 \<Rightarrow> (u32 \<times> u32) list \<Rightarrow> u32 option" where
  "ref_lookup p [] = None"
| "ref_lookup p ((q, n) # rs) = (if q = p then Some n else ref_lookup p rs)"

text \<open>Changing the count of the first reference to \<open>p\<close>, and taking it off the list.\<close>

fun ref_set :: "u32 \<Rightarrow> u32 \<Rightarrow> (u32 \<times> u32) list \<Rightarrow> (u32 \<times> u32) list" where
  "ref_set p n [] = []"
| "ref_set p n ((q, m) # rs) = (if q = p then (q, n) # rs else (q, m) # ref_set p n rs)"

fun ref_remove :: "u32 \<Rightarrow> (u32 \<times> u32) list \<Rightarrow> (u32 \<times> u32) list" where
  "ref_remove p [] = []"
| "ref_remove p ((q, m) # rs) = (if q = p then rs else (q, m) # ref_remove p rs)"

definition page_ref_add :: "pt_env \<Rightarrow> u32 \<Rightarrow> pt_state \<Rightarrow> pt_state \<times> unit sw_result" where
  "page_ref_add env l1_pte st =
     (case ref_lookup l1_pte (page_refs st) of
        Some n \<Rightarrow> (st\<lparr>page_refs := ref_set l1_pte (n + 1) (page_refs st)\<rparr>, Inr ())
      | None \<Rightarrow>
          if \<not> malloc_ok env then (st, Inl SW_ENOMEM)
          else (st\<lparr>page_refs := page_refs st @ [(l1_pte, 0 + 1)]\<rparr>, Inr ()))"

text \<open>The result is the remaining count; a missing reference is an error.\<close>

definition page_ref_release :: "u32 \<Rightarrow> pt_state \<Rightarrow> pt_state \<times> u32 sw_result" where
  "page_ref_release l1_pte st =
     (case ref_lookup l1_pte (page_refs st) of
        None \<Rightarrow> (st, Inl SW_ENODATA)
      | Some n \<Rightarrow>
          (if n - 1 = 0 then st\<lparr>page_refs := ref_remove l1_pte (page_refs st)\<rparr>
           else st\<lparr>page_refs := ref_set l1_pte (n - 1) (page_refs st)\<rparr>, Inr (n - 1)))"

section \<open>Section entries\<close>

definition map_section_entry :: "u32 \<Rightarrow> cpu_pt_entry \<Rightarrow> pt_state \<Rightarrow> pt_state \<times> unit sw_result" where
  "map_section_entry pgd entry st =
     (let l1_pte = l1_pte_addr pgd (e_va entry); ty = mem st l1_pte AND PAGE_DESC_TYPE_MASK in
      if ty = PAGE_DESC_TYPE_FAULT then (set_word l1_pte (section_desc entry) st, Inr ())
      else if ty = PAGE_DESC_TYPE_SECTION then (st, Inr ())
      else (st, Inl SW_EINVAL))"

text \<open>The result of \<^verbatim>\<open>page_ref_add\<close> is ignored.\<close>

definition map_ns_section_entry ::
    "pt_env \<Rightarrow> u32 \<Rightarrow> cpu_pt_entry \<Rightarrow> pt_state \<Rightarrow> pt_state \<times> unit sw_result" where
  "map_ns_section_entry env pgd entry st =
     (let l1_pte = l1_pte_addr pgd (e_va entry); d = mem st l1_pte; ty = d AND PAGE_DESC_TYPE_MASK in
      if ty = PAGE_DESC_TYPE_FAULT
      then (fst (page_ref_add env l1_pte (set_word l1_pte (section_desc entry) st)), Inr ())
      else if ty = PAGE_DESC_TYPE_SECTION
      then let st1 = (if d AND PAGE_DESC_L1_SEC_NS_MASK_ENTRY = 0
                      then set_word l1_pte (d OR push_bit 19 1) st else st)
           in (fst (page_ref_add env l1_pte st1), Inr ())
      else (st, Inl SW_EINVAL))"

definition unmap_section_entry :: "u32 \<Rightarrow> u32 \<Rightarrow> pt_state \<Rightarrow> pt_state" where
  "unmap_section_entry pgd va st =
     (let l1_pte = l1_pte_addr pgd va in
      if mem st l1_pte AND PAGE_DESC_TYPE_MASK = PAGE_DESC_TYPE_SECTION then set_word l1_pte 0 st
      else st)"

text \<open>\<^verbatim>\<open>page_ref_release\<close> returns \<^verbatim>\<open>SW_ERROR\<close>, which is not zero, when there is no reference.\<close>

definition unmap_ns_section_entry :: "u32 \<Rightarrow> u32 \<Rightarrow> pt_state \<Rightarrow> pt_state" where
  "unmap_ns_section_entry pgd va st =
     (let l1_pte = l1_pte_addr pgd va in
      if mem st l1_pte AND PAGE_DESC_TYPE_MASK = PAGE_DESC_TYPE_SECTION
      then case page_ref_release l1_pte st of (st1, r) \<Rightarrow>
             if r = Inr 0 \<and> mem st1 l1_pte AND PAGE_DESC_L1_SEC_NS_MASK_ENTRY \<noteq> 0
             then set_word l1_pte 0 st1 else st1
      else st)"

definition ns_desc :: "u32 \<Rightarrow> cpu_pt_entry" where
  "ns_desc phy_addr =
     \<lparr>e_va = phy_addr, e_pa = phy_addr, e_ns = 1, e_ng = 0, e_s = 1, e_tex = 1,
      e_ap = ucast PRIV_RW_USR_RW, e_dom = 0, e_xn = 0, e_c = 1, e_b = 1\<rparr>"

definition map_to_ns :: "pt_env \<Rightarrow> u32 \<Rightarrow> pt_state \<Rightarrow> pt_state \<times> u32 sw_result" where
  "map_to_ns env phy_addr st =
     (case map_ns_section_entry env (secure_ptd env) (ns_desc phy_addr) st of
        (st', Inr _) \<Rightarrow> (st', Inr phy_addr)
      | (st', Inl e) \<Rightarrow> (st', Inl e))"

definition unmap_from_ns :: "pt_env \<Rightarrow> u32 \<Rightarrow> pt_state \<Rightarrow> pt_state" where
  "unmap_from_ns env va_addr st = unmap_ns_section_entry (secure_ptd env) va_addr st"

section \<open>Second-level tables\<close>

fun first_zero :: "u32 list \<Rightarrow> nat option" where
  "first_zero [] = None"
| "first_zero (p # ps) = (if p = 0 then Some 0 else map_option Suc (first_zero ps))"

text \<open>The pool page and the quarter of it that are free: the first page not fully used with an
  unused table.\<close>

fun l2_free_slot :: "second_level_pages list \<Rightarrow> (nat \<times> nat) option" where
  "l2_free_slot [] = None"
| "l2_free_slot (r # rs) =
     (case (if blk_used r \<noteq> 4 then first_zero (page r) else None) of
        Some j \<Rightarrow> Some (0, j)
      | None \<Rightarrow> map_option (\<lambda>(i, j). (Suc i, j)) (l2_free_slot rs))"

text \<open>\<^verbatim>\<open>alloc_l2_secure_page_table\<close>: the result is the physical and the virtual address of the
  table.  With an empty pool the first static page is entered into it.  When the pool is not
  empty but has no free table, the code goes on with the last page and an index that is 4 or
  not initialised.\<close>

definition alloc_l2_secure_page_table :: "pt_env \<Rightarrow> pt_state \<Rightarrow> (pt_state \<times> u32 \<times> u32) option" where
  "alloc_l2_secure_page_table env st = do {
     (st1, l2_pt_vir) \<leftarrow>
       (case l2_free_slot (l2_list st) of
          Some (i, j) \<Rightarrow>
            let r = l2_list st ! i in
            Some (st\<lparr>l2_list := (l2_list st)[i := r\<lparr>blk_used := blk_used r + 1\<rparr>],
                     l2_blk_used := l2_blk_used st + 1\<rparr>,
                  page_base r + of_nat j * L2_PAGE_TABLE_SIZE)
        | None \<Rightarrow>
            if l2_list st = []
            then Some (st\<lparr>l2_list := [\<lparr>page_base = static_l2_page env, page = [0, 0, 0, 0],
                                      blk_used = 1, is_static = True\<rparr>],
                          l2_blk_used := l2_blk_used st + 1,
                          static_l2_next_idx := static_l2_next_idx st + 1\<rparr>,
                       static_l2_page env)
            else None);
     let l2_pt = (if mmu_enabled env then v2p env l2_pt_vir else l2_pt_vir)
     in Some (zero_bytes l2_pt_vir L2_PAGE_TABLE_SIZE st1, l2_pt, l2_pt_vir)
   }"

text \<open>The pool page that holds the table at \<open>l2_base_vir\<close>.\<close>

fun l2_page_of :: "u32 \<Rightarrow> second_level_pages list \<Rightarrow> nat option" where
  "l2_page_of a [] = None"
| "l2_page_of a (r # rs) =
     (if page_base r \<le> a \<and> a < page_base r + PAGE_SIZE then Some 0
      else map_option Suc (l2_page_of a rs))"

definition set_count :: "nat \<Rightarrow> (u32 \<Rightarrow> u32) \<Rightarrow> second_level_pages \<Rightarrow> second_level_pages" where
  "set_count j f r = r\<lparr>page := (page r)[j := f (page r ! j)]\<rparr>"

text \<open>Counting one more entry of a table; a table in no pool page is counted at index 0 of the
  last one.\<close>

definition count_entry :: "u32 \<Rightarrow> pt_state \<Rightarrow> pt_state option" where
  "count_entry l2_base_vir st =
     (case l2_page_of l2_base_vir (l2_list st) of
        Some i \<Rightarrow>
          let r = l2_list st ! i; j = unat ((l2_base_vir - page_base r) div L2_PAGE_TABLE_SIZE)
          in Some (st\<lparr>l2_list := (l2_list st)[i := set_count j (\<lambda>n. n + 1) r]\<rparr>)
      | None \<Rightarrow>
          if l2_list st = [] then None
          else let i = length (l2_list st) - 1
               in Some (st\<lparr>l2_list := (l2_list st)[i := set_count 0 (\<lambda>n. n + 1) (l2_list st ! i)]\<rparr>))"

text \<open>\<^verbatim>\<open>map_small_page_entry\<close> up to the check of the pool's reserve.\<close>

definition map_small_core ::
    "pt_env \<Rightarrow> u32 \<Rightarrow> cpu_pt_entry \<Rightarrow> pt_state \<Rightarrow> (pt_state \<times> unit sw_result) option" where
  "map_small_core env pgd entry st =
     (let l1_pte = l1_pte_addr pgd (e_va entry); d = mem st l1_pte; ty = d AND PAGE_DESC_TYPE_MASK in
      if ty \<noteq> PAGE_DESC_TYPE_FAULT \<and> ty \<noteq> PAGE_DESC_TYPE_COARSE then Some (st, Inl SW_EINVAL)
      else do {
        (st1, l2_base_vir) \<leftarrow>
          (if ty = PAGE_DESC_TYPE_FAULT
           then do {
             (st1, l2_base, l2_base_vir) \<leftarrow> alloc_l2_secure_page_table env st;
             Some (set_word l1_pte (coarse_desc l2_base entry) st1, l2_base_vir)
           }
           else let d' = with_domain d (e_dom entry)
                in Some (set_word l1_pte d' st,
                         phys_to_virt env (d' AND PAGE_DESC_PAGE_TBL_MASK)));
        st2 \<leftarrow> count_entry l2_base_vir st1;
        Some (set_word (l2_pte_addr l2_base_vir (e_va entry)) (small_desc entry) st2, Inr ())
      })"

section \<open>Ranges\<close>

text \<open>The loop of \<^verbatim>\<open>map_device\<close>, \<^verbatim>\<open>map_secure_memory\<close> and \<^verbatim>\<open>map_user_memory\<close>: sections where size
  and both addresses allow it, small pages otherwise.  The results of the two entry functions
  are ignored.\<close>

partial_function (option) map_range ::
    "(cpu_pt_entry \<Rightarrow> 's \<Rightarrow> 's option) \<Rightarrow> (cpu_pt_entry \<Rightarrow> 's \<Rightarrow> 's option) \<Rightarrow>
     cpu_pt_entry \<Rightarrow> u32 \<Rightarrow> u32 \<Rightarrow> u32 \<Rightarrow> 's \<Rightarrow> 's option" where
  "map_range sect small desc va pa sz s =
     (if sz = 0 then Some s
      else if SECTION_SIZE \<le> sz \<and> va AND (SECTION_SIZE - 1) = 0 \<and> pa AND (SECTION_SIZE - 1) = 0
      then Option.bind (sect (desc\<lparr>e_va := va, e_pa := pa\<rparr>) s)
             (map_range sect small desc (va + SECTION_SIZE) (pa + SECTION_SIZE) (sz - SECTION_SIZE))
      else Option.bind (small (desc\<lparr>e_va := va, e_pa := pa\<rparr>) s)
             (map_range sect small desc (va + PAGE_SIZE) (pa + PAGE_SIZE) (sz - PAGE_SIZE)))"

declare map_range.simps [code]

definition memory_desc :: "u32 \<Rightarrow> 1 word \<Rightarrow> cpu_pt_entry" where
  "memory_desc ptf ng =
     \<lparr>e_va = 0, e_pa = 0, e_ns = 0, e_ng = ng, e_s = 1, e_tex = 1, e_ap = ptf_to_ap ptf,
      e_dom = 0, e_xn = ptf_to_xn ptf, e_c = 1, e_b = 1\<rparr>"

definition device_desc :: cpu_pt_entry where
  "device_desc =
     \<lparr>e_va = 0, e_pa = 0, e_ns = 0, e_ng = 0, e_s = 1, e_tex = 0, e_ap = ucast PRIV_RW_USR_NO,
      e_dom = 0, e_xn = 1, e_c = 0, e_b = 1\<rparr>"

definition section_op :: "u32 \<Rightarrow> cpu_pt_entry \<Rightarrow> pt_state \<Rightarrow> pt_state option" where
  "section_op pgd entry st = Some (fst (map_section_entry pgd entry st))"

definition small_core_op :: "pt_env \<Rightarrow> u32 \<Rightarrow> cpu_pt_entry \<Rightarrow> pt_state \<Rightarrow> pt_state option" where
  "small_core_op env pgd entry st = map_option fst (map_small_core env pgd entry st)"

definition page_aligned3 :: "u32 \<Rightarrow> u32 \<Rightarrow> u32 \<Rightarrow> bool" where
  "page_aligned3 sz va pa \<longleftrightarrow>
     sz AND (PAGE_SIZE - 1) = 0 \<and> va AND (PAGE_SIZE - 1) = 0 \<and> pa AND (PAGE_SIZE - 1) = 0"

text \<open>The body of \<^verbatim>\<open>map_secure_memory\<close> for a given small-page operation.\<close>

definition map_memory_with ::
    "(cpu_pt_entry \<Rightarrow> pt_state \<Rightarrow> pt_state option) \<Rightarrow> u32 \<Rightarrow> u32 \<Rightarrow> u32 \<Rightarrow> u32 \<Rightarrow> cpu_pt_entry \<Rightarrow>
     pt_state \<Rightarrow> (pt_state \<times> unit sw_result) option" where
  "map_memory_with small pgd va pa sz desc st =
     (if \<not> page_aligned3 sz va pa then Some (st, Inl SW_EINVAL)
      else do {
        st' \<leftarrow> map_range (section_op pgd) small desc va pa sz st;
        Some (st', Inr ())
      })"

text \<open>Growing the pool by one page when at most two free tables are left.  The page for it comes
  from \<^verbatim>\<open>sw_vir_page_alloc\<close>, whose own mapping runs with \<^verbatim>\<open>skip\<close> set, i.e. without this check;
  before the heap exists it is the next static page.  Neither the allocation of the bookkeeping
  structure nor that of the page is checked: a failure of the first is a write to \<^verbatim>\<open>NULL\<close>, after
  a failure of the second the pool page has the address 0.\<close>

definition new_pool_page :: "pt_env \<Rightarrow> pt_state \<Rightarrow> (pt_state \<times> u32 \<times> bool) option" where
  "new_pool_page env st =
     (if heap_init_done st
      then if \<not> malloc_ok env then None
           else case sw_vir_page_alloc PAGE_SIZE (pages_info st) of (info, r) \<Rightarrow>
             (case r of
                Inl _ \<Rightarrow> Some (st\<lparr>pages_info := info\<rparr>, 0, False)
              | Inr va \<Rightarrow>
                  (case last (pt_calls info) of
                     Map_Kernel_Data v p n \<Rightarrow> do {
                       (st', _) \<leftarrow> map_memory_with (small_core_op env (secure_ptd env))
                         (secure_ptd env) v p n (memory_desc PTF_PROT_KRW 0) (st\<lparr>pages_info := info\<rparr>);
                       Some (st', va, False)
                     }
                   | Unmap_Kernel _ _ \<Rightarrow> None))
      else if static_l2_next_idx st < 8
      then Some (st\<lparr>static_l2_next_idx := static_l2_next_idx st + 1\<rparr>,
                 static_l2_page env + ucast (static_l2_next_idx st) * PAGE_SIZE, True)
      else None)"

definition grow_pool :: "pt_env \<Rightarrow> pt_state \<Rightarrow> pt_state option" where
  "grow_pool env st =
     (if l2_blk_allocated st - l2_blk_used st \<le> 2
      then do {
        (st1, base, static) \<leftarrow> new_pool_page env st;
        Some (st1\<lparr>l2_list := l2_list st1 @ [\<lparr>page_base = base, page = [0, 0, 0, 0], blk_used = 0,
                                             is_static = static\<rparr>],
                  l2_blk_allocated := l2_blk_allocated st1 + 4\<rparr>)
      }
      else Some st)"

definition map_small_page_entry ::
    "pt_env \<Rightarrow> u32 \<Rightarrow> cpu_pt_entry \<Rightarrow> pt_state \<Rightarrow> (pt_state \<times> unit sw_result) option" where
  "map_small_page_entry env pgd entry st = do {
     (st1, r) \<leftarrow> map_small_core env pgd entry st;
     case r of Inl e \<Rightarrow> Some (st1, Inl e)
     | Inr _ \<Rightarrow> do { st2 \<leftarrow> grow_pool env st1; Some (st2, Inr ()) }
   }"

definition small_op :: "pt_env \<Rightarrow> u32 \<Rightarrow> cpu_pt_entry \<Rightarrow> pt_state \<Rightarrow> pt_state option" where
  "small_op env pgd entry st = map_option fst (map_small_page_entry env pgd entry st)"

definition map_secure_memory ::
    "pt_env \<Rightarrow> u32 \<Rightarrow> u32 \<Rightarrow> u32 \<Rightarrow> u32 \<Rightarrow> pt_state \<Rightarrow> (pt_state \<times> unit sw_result) option" where
  "map_secure_memory env va pa sz ptf st =
     map_memory_with (small_op env (secure_ptd env)) (secure_ptd env) va pa sz (memory_desc ptf 0) st"

definition map_user_memory ::
    "pt_env \<Rightarrow> u32 \<Rightarrow> u32 \<Rightarrow> u32 \<Rightarrow> u32 \<Rightarrow> u32 \<Rightarrow> pt_state \<Rightarrow> (pt_state \<times> unit sw_result) option" where
  "map_user_memory env va pa sz ptf user_pt_base st =
     map_memory_with (small_op env user_pt_base) user_pt_base va pa sz (memory_desc ptf 1) st"

definition map_kernel_text_memory where
  "map_kernel_text_memory env va pa sz = map_secure_memory env va pa sz (PTF_PROT_KRO OR PTF_EXEC)"

definition map_kernel_data_memory where
  "map_kernel_data_memory env va pa sz = map_secure_memory env va pa sz PTF_PROT_KRW"

definition map_user_text_memory where
  "map_user_text_memory env va pa sz pt = map_user_memory env va pa sz (PTF_PROT_URO OR PTF_EXEC) pt"

definition map_user_data_memory where
  "map_user_data_memory env va pa sz pt = map_user_memory env va pa sz PTF_PROT_URW pt"

definition map_user_rodata_memory where
  "map_user_rodata_memory env va pa sz pt = map_user_memory env va pa sz PTF_PROT_URO pt"

definition map_device :: "pt_env \<Rightarrow> u32 \<Rightarrow> u32 \<Rightarrow> u32 \<Rightarrow> pt_state \<Rightarrow> pt_state option" where
  "map_device env va pa sz st =
     map_range (section_op (secure_ptd env)) (small_op env (secure_ptd env)) device_desc va pa sz st"

text \<open>The table of devices ends with an entry whose first word, the virtual address, is 0.\<close>

fun map_device_table :: "pt_env \<Rightarrow> (u32 \<times> u32 \<times> u32) list \<Rightarrow> pt_state \<Rightarrow> pt_state option" where
  "map_device_table env [] st = None"
| "map_device_table env ((va, pa, sz) # dt) st =
     (if va \<noteq> 0 then Option.bind (map_device env va pa sz st) (map_device_table env dt) else Some st)"

text \<open>\<^verbatim>\<open>unmap_small_page_entry\<close>: a table whose count drops to 0 is detached from the first-level
  table; a pool page without used tables leaves the pool when more than five tables are free,
  and a page that came from the page manager goes back to it, which unmaps it in turn.\<close>

definition drop_count :: "nat \<Rightarrow> nat \<Rightarrow> u32 \<Rightarrow> pt_state \<Rightarrow> pt_state" where
  "drop_count i j l1_pte st =
     (let r = set_count j (\<lambda>n. n - 1) (l2_list st ! i) in
      if page r ! j = 0
      then (set_word l1_pte 0 st)\<lparr>l2_list := (l2_list st)[i := r\<lparr>blk_used := blk_used r - 1\<rparr>],
                                  l2_blk_used := l2_blk_used st - 1\<rparr>
      else st\<lparr>l2_list := (l2_list st)[i := r]\<rparr>)"

definition release_pool_page :: "nat \<Rightarrow> pt_state \<Rightarrow> pt_state \<times> u32 option" where
  "release_pool_page i st =
     (let r = l2_list st ! i in
      if blk_used r = 0 \<and> 5 < l2_blk_allocated st - l2_blk_used st
      then (st\<lparr>l2_list := take i (l2_list st) @ drop (Suc i) (l2_list st),
               l2_blk_allocated := l2_blk_allocated st - 4\<rparr>,
            if is_static r then None else Some (page_base r))
      else (st, None))"

partial_function (option) unmap_small_page_entry ::
    "pt_env \<Rightarrow> u32 \<Rightarrow> u32 \<Rightarrow> pt_state \<Rightarrow> (pt_state \<times> unit sw_result) option" where
  "unmap_small_page_entry env pgd va st =
     (let l1_pte = l1_pte_addr pgd va; d = mem st l1_pte in
      if d AND PAGE_DESC_TYPE_MASK \<noteq> PAGE_DESC_TYPE_COARSE then Some (st, Inl SW_EINVAL)
      else
        let l2_base_vir = phys_to_virt env (d AND PAGE_DESC_PAGE_TBL_MASK);
            st1 = set_word (l2_pte_addr l2_base_vir va) 0 st;
            pos = l2_page_of l2_base_vir (l2_list st1)
        in if pos = None then Some (st1, Inl SW_ENOMEM)
           else
             let i = the pos;
                 j = unat ((l2_base_vir - page_base (l2_list st1 ! i)) div L2_PAGE_TABLE_SIZE);
                 rel = release_pool_page i (drop_count i j l1_pte st1);
                 st2 = fst rel
             in if snd rel = None then Some (st2, Inr ())
                else
                  let base = the (snd rel);
                      freed = sw_vir_addr_free (v2p env) base PAGE_SIZE (pages_info st2);
                      st3 = st2\<lparr>pages_info := fst freed\<rparr>
                  in if snd freed \<noteq> Inr () \<or> base AND (PAGE_SIZE - 1) \<noteq> 0 then Some (st3, Inr ())
                     else Option.bind (unmap_small_page_entry env (secure_ptd env) base st3)
                            (\<lambda>(st4, _). Some (st4, Inr ())))"

declare unmap_small_page_entry.simps [code]

definition unmap_small_op :: "pt_env \<Rightarrow> u32 \<Rightarrow> u32 \<Rightarrow> pt_state \<Rightarrow> pt_state option" where
  "unmap_small_op env pgd va st = map_option fst (unmap_small_page_entry env pgd va st)"

definition unmap_section_op :: "u32 \<Rightarrow> u32 \<Rightarrow> pt_state \<Rightarrow> pt_state option" where
  "unmap_section_op pgd va st = Some (unmap_section_entry pgd va st)"

partial_function (option) unmap_range ::
    "(u32 \<Rightarrow> 's \<Rightarrow> 's option) \<Rightarrow> (u32 \<Rightarrow> 's \<Rightarrow> 's option) \<Rightarrow> u32 \<Rightarrow> u32 \<Rightarrow> 's \<Rightarrow> 's option" where
  "unmap_range sect small va sz s =
     (if sz = 0 then Some s
      else if SECTION_SIZE \<le> sz \<and> va AND (SECTION_SIZE - 1) = 0
      then Option.bind (sect va s) (unmap_range sect small (va + SECTION_SIZE) (sz - SECTION_SIZE))
      else Option.bind (small va s) (unmap_range sect small (va + PAGE_SIZE) (sz - PAGE_SIZE)))"

declare unmap_range.simps [code]

definition unmap_user_memory ::
    "pt_env \<Rightarrow> u32 \<Rightarrow> u32 \<Rightarrow> u32 \<Rightarrow> pt_state \<Rightarrow> (pt_state \<times> unit sw_result) option" where
  "unmap_user_memory env va sz user_pt_base st =
     (if \<not> page_aligned3 sz va 0 then Some (st, Inl SW_EINVAL)
      else do {
        st' \<leftarrow> unmap_range (unmap_section_op user_pt_base) (unmap_small_op env user_pt_base) va sz st;
        Some (st', Inr ())
      })"

definition unmap_secure_memory :: "pt_env \<Rightarrow> u32 \<Rightarrow> u32 \<Rightarrow> pt_state \<Rightarrow> (pt_state \<times> unit sw_result) option" where
  "unmap_secure_memory env va sz st = unmap_user_memory env va sz (secure_ptd env) st"

definition unmap_kernel_memory :: "pt_env \<Rightarrow> u32 \<Rightarrow> u32 \<Rightarrow> pt_state \<Rightarrow> (pt_state \<times> unit sw_result) option" where
  "unmap_kernel_memory env va sz st = unmap_secure_memory env va sz st"

text \<open>Non-secure memory is mapped by sections only.\<close>

definition section_aligned :: "u32 \<Rightarrow> bool" where
  "section_aligned a \<longleftrightarrow> a AND (SECTION_SIZE - 1) = 0"

definition ns_memory_desc :: cpu_pt_entry where
  "ns_memory_desc =
     \<lparr>e_va = 0, e_pa = 0, e_ns = 1, e_ng = 1, e_s = 0, e_tex = 1, e_ap = ucast PRIV_RW_USR_NO,
      e_dom = 0, e_xn = 1, e_c = 1, e_b = 1\<rparr>"

fun map_ns_sections :: "pt_env \<Rightarrow> nat \<Rightarrow> u32 \<Rightarrow> u32 \<Rightarrow> pt_state \<Rightarrow> pt_state" where
  "map_ns_sections env 0 va pa st = st"
| "map_ns_sections env (Suc n) va pa st =
     map_ns_sections env n (va + SECTION_SIZE) (pa + SECTION_SIZE)
       (fst (map_ns_section_entry env (secure_ptd env) (ns_memory_desc\<lparr>e_va := va, e_pa := pa\<rparr>) st))"

fun unmap_ns_sections :: "pt_env \<Rightarrow> nat \<Rightarrow> u32 \<Rightarrow> pt_state \<Rightarrow> pt_state" where
  "unmap_ns_sections env 0 va st = st"
| "unmap_ns_sections env (Suc n) va st =
     unmap_ns_sections env n (va + SECTION_SIZE) (unmap_ns_section_entry (secure_ptd env) va st)"

definition map_nsmemsect_normal ::
    "pt_env \<Rightarrow> u32 \<Rightarrow> u32 \<Rightarrow> u32 \<Rightarrow> pt_state \<Rightarrow> pt_state \<times> unit sw_result" where
  "map_nsmemsect_normal env va pa sz st =
     (if section_aligned sz \<and> section_aligned va \<and> section_aligned pa
      then (map_ns_sections env (unat (drop_bit 20 sz)) va pa st, Inr ())
      else (st, Inl SW_EINVAL))"

definition unmap_nsmemsect_normal :: "pt_env \<Rightarrow> u32 \<Rightarrow> u32 \<Rightarrow> pt_state \<Rightarrow> pt_state \<times> unit sw_result" where
  "unmap_nsmemsect_normal env va sz st =
     (if section_aligned sz \<and> section_aligned va
      then (unmap_ns_sections env (unat (drop_bit 20 sz)) va st, Inr ())
      else (st, Inl SW_EINVAL))"

section \<open>What the MMU reads from the tables\<close>

text \<open>The ARMv7 short-descriptor walk, as far as these tables use it: physical address, access
  permissions and the non-secure bit.\<close>

definition l1_ap :: "u32 \<Rightarrow> 3 word" where
  "l1_ap d = ucast ((drop_bit 10 d AND 3) OR push_bit 2 (drop_bit 15 d AND 1))"

definition l2_ap :: "u32 \<Rightarrow> 3 word" where
  "l2_ap d = ucast ((drop_bit 4 d AND 3) OR push_bit 2 (drop_bit 9 d AND 1))"

definition section_ns :: "u32 \<Rightarrow> 1 word" where
  "section_ns d = ucast (drop_bit 19 d AND 1)"

definition table_ns :: "u32 \<Rightarrow> 1 word" where
  "table_ns d = ucast (drop_bit 3 d AND 1)"

definition walk :: "pt_env \<Rightarrow> u32 \<Rightarrow> (u32 \<Rightarrow> u32) \<Rightarrow> u32 \<Rightarrow> (u32 \<times> 3 word \<times> 1 word) option" where
  "walk env pgd m va =
     (let d = m (l1_pte_addr pgd va) in
      if d AND 3 = 2
      then Some ((d AND 0xFFF00000) OR (va AND 0xFFFFF), l1_ap d, section_ns d)
      else if d AND 3 = 1
      then let e = m (l2_pte_addr (phys_to_virt env (d AND 0xFFFFFC00)) va) in
           if e AND 2 \<noteq> 0
           then Some ((e AND 0xFFFFF000) OR (va AND 0xFFF), l2_ap e, table_ns d)
           else None
      else None)"

section \<open>Descriptor lemmas\<close>

lemma bit_beyond: "LENGTH('a) \<le> n \<Longrightarrow> \<not> bit (w :: 'a::len word) n"
  using bit_imp_le_length[of w n] by auto

lemma desc_masks:
  "(0xFFF00000 :: u32) = NOT (mask 20)" "(0xFFFFFC00 :: u32) = NOT (mask 10)"
  "(0xFFFFF000 :: u32) = NOT (mask 12)" "(3 :: u32) = mask 2" "(1 :: u32) = mask 1"
  "(0xFFFFF :: u32) = mask 20" "(0xFFF :: u32) = mask 12" "(0xFF :: u32) = mask 8" 
  by (simp_all add: mask_eq_exp_minus_1)

lemmas desc_bits = bit_or_iff bit_and_iff bit_not_iff bit_push_bit_iff bit_unsigned_iff bit_drop_bit_eq
  o_def bit_mask_iff bit_beyond bit_2_iff bit_1_iff 

lemma section_desc_fields:
  "section_desc e AND 3 = 2"
  "section_desc e AND 0xFFF00000 = e_pa e AND 0xFFF00000"
  "l1_ap (section_desc e) = e_ap e"
  "section_ns (section_desc e) = e_ns e"
proof -
  show "section_desc e AND 3 = 2"
  proof (rule bit_word_eqI)
    fix n :: nat assume "n < LENGTH(32)"
    consider "n = 0" | "n = 1" | "2 \<le> n" by linarith
    then show "bit (section_desc e AND 3) n \<longleftrightarrow> bit (2 :: u32) n"
      unfolding section_desc_def l1_ap_def section_ns_def desc_masks by cases (simp_all add: desc_bits)
  qed
  show "section_desc e AND 0xFFF00000 = e_pa e AND 0xFFF00000"
    unfolding section_desc_def l1_ap_def section_ns_def desc_masks by (rule bit_word_eqI) (auto simp: desc_bits)
  show "l1_ap (section_desc e) = e_ap e"
  proof (rule bit_word_eqI)
    fix n :: nat assume "n < LENGTH(3)"
    then consider "n = 0" | "n = 1" | "n = 2" by fastforce
    then show "bit (l1_ap (section_desc e)) n \<longleftrightarrow> bit (e_ap e) n"
      unfolding section_desc_def l1_ap_def section_ns_def desc_masks by cases (simp_all add: desc_bits flip: numeral_2_eq_2)
  qed
  show "section_ns (section_desc e) = e_ns e"
    unfolding section_desc_def l1_ap_def section_ns_def desc_masks by (rule bit_word_eqI) (auto simp: desc_bits)
qed

lemma small_desc_fields:
  "small_desc e AND 2 \<noteq> 0"
  "small_desc e AND 0xFFFFF000 = e_pa e AND 0xFFFFF000"
  "l2_ap (small_desc e) = e_ap e"
proof -
  have "bit (small_desc e AND 2) 1"
    unfolding small_desc_def l2_ap_def desc_masks by (simp add: desc_bits)
  then show "small_desc e AND 2 \<noteq> 0" by auto
  show "small_desc e AND 0xFFFFF000 = e_pa e AND 0xFFFFF000"
    unfolding small_desc_def l2_ap_def desc_masks by (rule bit_word_eqI) (auto simp: desc_bits)
  show "l2_ap (small_desc e) = e_ap e"
  proof (rule bit_word_eqI)
    fix n :: nat assume "n < LENGTH(3)"
    then consider "n = 0" | "n = 1" | "n = 2" by fastforce
    then show "bit (l2_ap (small_desc e)) n \<longleftrightarrow> bit (e_ap e) n"
      unfolding small_desc_def l2_ap_def desc_masks by cases (simp_all add: desc_bits flip: numeral_2_eq_2)
  qed
qed

lemma coarse_desc_fields:
  "coarse_desc b e AND 3 = 1"
  "coarse_desc b e AND 0xFFFFFC00 = b AND 0xFFFFFC00"
  "table_ns (coarse_desc b e) = e_ns e"
proof -
  show "coarse_desc b e AND 3 = 1"
  proof (rule bit_word_eqI)
    fix n :: nat assume "n < LENGTH(32)"
    consider "n = 0" | "n = 1" | "2 \<le> n" by linarith
    then show "bit (coarse_desc b e AND 3) n \<longleftrightarrow> bit (1 :: u32) n"
      unfolding coarse_desc_def table_ns_def desc_masks by cases (simp_all add: desc_bits)
  qed
  show "coarse_desc b e AND 0xFFFFFC00 = b AND 0xFFFFFC00"
    unfolding coarse_desc_def table_ns_def desc_masks by (rule bit_word_eqI) (auto simp: desc_bits)
  show "table_ns (coarse_desc b e) = e_ns e"
    unfolding coarse_desc_def table_ns_def desc_masks by (rule bit_word_eqI) (auto simp: desc_bits)
qed

lemma set_word_sels [simp]:
  "mem (set_word a w st) = (mem st)(a := w)" "page_refs (set_word a w st) = page_refs st"
  "l2_list (set_word a w st) = l2_list st"
  by (simp_all add: set_word_def)

lemma l1_pte_addr_cong: "drop_bit 20 va = drop_bit 20 va' \<Longrightarrow> l1_pte_addr pgd va = l1_pte_addr pgd va'"
  by (simp add: l1_pte_addr_def)

lemma l2_pte_addr_cong: "drop_bit 12 va = drop_bit 12 va' \<Longrightarrow> l2_pte_addr t va = l2_pte_addr t va'"
  by (simp add: l2_pte_addr_def)

lemma page_in_section: "drop_bit 12 va = drop_bit 12 va' \<Longrightarrow> drop_bit 20 va = (drop_bit 20 va' :: u32)"
  using drop_bit_drop_bit[of 8 12 va] drop_bit_drop_bit[of 8 12 va'] by simp

section \<open>Properties\<close>

text \<open>\<^verbatim>\<open>map_section_entry\<close> on a free entry makes the MMU translate every address of the
  megabyte to the same offset in the physical section, with the permissions and the security
  attribute asked for; it writes no other word.  On an entry that already is a section it
  reports success and changes nothing, on any other it fails.\<close>

theorem map_section_entry_translates:
  assumes "drop_bit 20 va = drop_bit 20 (e_va e)"
    and "d = mem st (l1_pte_addr pgd (e_va e))" and "map_section_entry pgd e st = (st', r)"
  shows "(d AND 3 = 0 \<longrightarrow> r = Inr () \<and>
       walk env pgd (mem st') va =
         Some ((e_pa e AND 0xFFF00000) OR (va AND 0xFFFFF), e_ap e, e_ns e) \<and>
       (\<forall>a. a \<noteq> l1_pte_addr pgd va \<longrightarrow> mem st' a = mem st a)) \<and>
     (d AND 3 = 2 \<longrightarrow> r = Inr () \<and> st' = st) \<and>
     (d AND 3 \<noteq> 0 \<and> d AND 3 \<noteq> 2 \<longrightarrow> r = Inl SW_EINVAL \<and> st' = st)"
proof (cases "d AND 3 = 0")
  case True
  then have "st' = set_word (l1_pte_addr pgd va) (section_desc e) st \<and> r = Inr ()"
    using l1_pte_addr_cong[OF assms(1), of pgd] assms(2,3) by (simp add: map_section_entry_def Let_def)
  then show ?thesis using True by (simp add: walk_def Let_def section_desc_fields)
next
  case False
  then show ?thesis using assms(2,3) by (auto simp: map_section_entry_def Let_def split: if_splits)
qed

text \<open>The table a small page goes to, and the condition that the tables are where the code
  thinks: the address the MMU gets for the table leads back to it, and the two entries are
  different words.\<close>

definition small_table :: "pt_env \<Rightarrow> u32 \<Rightarrow> u32 \<Rightarrow> pt_state \<Rightarrow> u32 option" where
  "small_table env pgd va st =
     (let d = mem st (l1_pte_addr pgd va) in
      if d AND 3 = 0 then map_option (\<lambda>(_, _, t). t) (alloc_l2_secure_page_table env st)
      else Some (phys_to_virt env (d AND 0xFFFFFC00)))"

definition table_placed :: "pt_env \<Rightarrow> u32 \<Rightarrow> u32 \<Rightarrow> u32 \<Rightarrow> bool" where
  "table_placed env pgd va t \<longleftrightarrow>
     phys_to_virt env ((if mmu_enabled env then v2p env t else t) AND 0xFFFFFC00) = t \<and>
     l2_pte_addr t va \<noteq> l1_pte_addr pgd va"

lemma alloc_l2_Some:
  "alloc_l2_secure_page_table env st = Some (st1, b, t) \<Longrightarrow> b = (if mmu_enabled env then v2p env t else t)"
  by (auto simp: alloc_l2_secure_page_table_def Let_def split: option.splits if_splits)

lemma count_entry_mem: "count_entry t st = Some st' \<Longrightarrow> mem st' = mem st"
  by (auto simp: count_entry_def Let_def split: option.splits if_splits)

lemma domain_update_keeps:
  "with_domain d x AND 3 = d AND 3"
  "with_domain d x AND 0xFFFFFC00 = d AND 0xFFFFFC00"
  "table_ns (with_domain d x) = table_ns d"
proof -
  have m: "(0x1E0 :: u32) = push_bit 5 (mask 4)" by (simp add: mask_eq_exp_minus_1)
  show "with_domain d x AND 3 = d AND 3"
    unfolding with_domain_def desc_masks m by (rule bit_word_eqI) (auto simp: desc_bits)
  show "with_domain d x AND 0xFFFFFC00 = d AND 0xFFFFFC00"
    unfolding with_domain_def desc_masks m by (rule bit_word_eqI) (auto simp: desc_bits)
  show "table_ns (with_domain d x) = table_ns d"
    unfolding with_domain_def desc_masks m table_ns_def by (rule bit_word_eqI) (auto simp: desc_bits)
qed

lemma map_small_core_Inr:
  assumes "map_small_core env pgd e st = Some (st', Inr ())"
    and "small_table env pgd (e_va e) st = Some t" and "table_placed env pgd (e_va e) t"
  shows "mem st' (l2_pte_addr t (e_va e)) = small_desc e"
    and "mem st' (l1_pte_addr pgd (e_va e)) AND 3 = 1"
    and "phys_to_virt env (mem st' (l1_pte_addr pgd (e_va e)) AND 0xFFFFFC00) = t"
    and "table_ns (mem st' (l1_pte_addr pgd (e_va e))) =
      (if mem st (l1_pte_addr pgd (e_va e)) AND 3 = 0 then e_ns e
       else table_ns (mem st (l1_pte_addr pgd (e_va e))))"
proof -
  let ?p = "l1_pte_addr pgd (e_va e)" and ?q = "l2_pte_addr t (e_va e)"
  have ne: "?q \<noteq> ?p" using assms(3) by (simp add: table_placed_def)
  have "mem st' ?q = small_desc e \<and> mem st' ?p AND 3 = 1 \<and>
    phys_to_virt env (mem st' ?p AND 0xFFFFFC00) = t \<and>
    table_ns (mem st' ?p) = (if mem st ?p AND 3 = 0 then e_ns e else table_ns (mem st ?p))"
  proof (cases "mem st ?p AND 3 = 0")
    case True
    then obtain st1 b where al: "alloc_l2_secure_page_table env st = Some (st1, b, t)"
      using assms(2) by (auto simp: small_table_def Let_def)
    then obtain st2 where "count_entry t (set_word ?p (coarse_desc b e) st1) = Some st2"
      "st' = set_word ?q (small_desc e) st2"
      using assms(1) True by (auto simp: map_small_core_def Let_def bind_eq_Some_conv)
    then show ?thesis
      using True ne assms(3) alloc_l2_Some[OF al]
      by (auto dest!: count_entry_mem simp: coarse_desc_fields table_placed_def)
  next
    case False
    let ?d = "with_domain (mem st ?p) (e_dom e)"
    have t: "t = phys_to_virt env (mem st ?p AND 0xFFFFFC00)"
      using assms(2) False by (simp add: small_table_def Let_def)
    from False have c: "mem st ?p AND 3 = 1"
      using assms(1) by (auto simp: map_small_core_def Let_def split: if_splits)
    then obtain st2 where "count_entry t (set_word ?p ?d st) = Some st2"
      "st' = set_word ?q (small_desc e) st2"
      using assms(1) False t
      by (auto simp: map_small_core_def Let_def bind_eq_Some_conv domain_update_keeps)
    then show ?thesis
      using c False ne t by (auto dest!: count_entry_mem simp: domain_update_keeps)
  qed
  then show "mem st' ?q = small_desc e" "mem st' ?p AND 3 = 1"
    "phys_to_virt env (mem st' ?p AND 0xFFFFFC00) = t"
    "table_ns (mem st' ?p) = (if mem st ?p AND 3 = 0 then e_ns e else table_ns (mem st ?p))"
    by blast+
qed

text \<open>C34. A successful small-page mapping makes the MMU translate every address of the page to the
  same offset in the physical page, with the permissions asked for; the security attribute is
  the one of the whole table, so it is the entry's own only when the table is new.\<close>

theorem map_small_core_translates:
  assumes "map_small_core env pgd e st = Some (st', Inr ())"
    and "small_table env pgd (e_va e) st = Some t" and "table_placed env pgd (e_va e) t"
    and "drop_bit 12 va = drop_bit 12 (e_va e)"
  shows "walk env pgd (mem st') va =
     Some ((e_pa e AND 0xFFFFF000) OR (va AND 0xFFF), e_ap e,
           if mem st (l1_pte_addr pgd va) AND 3 = 0 then e_ns e
           else table_ns (mem st (l1_pte_addr pgd va)))"
proof -
  note l1 = l1_pte_addr_cong[OF page_in_section[OF assms(4)], of pgd]
  note l2 = l2_pte_addr_cong[OF assms(4), of t]
  show ?thesis
    using map_small_core_Inr[OF assms(1-3)] small_desc_fields[of e]
    by (simp add: walk_def Let_def l1 l2)
qed

text \<open>Unmapping only writes zeros.\<close>

definition zeroed :: "(u32 \<Rightarrow> u32) \<Rightarrow> (u32 \<Rightarrow> u32) \<Rightarrow> bool" where
  "zeroed m m' \<longleftrightarrow> (\<forall>a. m' a = m a \<or> m' a = 0)"

lemma zeroed_refl: "zeroed m m" and zeroed_upd: "zeroed m m' \<Longrightarrow> zeroed m (m'(a := 0))"
  and zeroed_trans: "zeroed m1 m2 \<Longrightarrow> zeroed m2 m3 \<Longrightarrow> zeroed m1 m3"
  by (auto simp: zeroed_def) metis

lemma drop_count_zeroed: "zeroed (mem st) (mem (drop_count i j p st))"
  by (auto simp: drop_count_def Let_def zeroed_def)

lemma release_pool_page_mem [simp]: "mem (fst (release_pool_page i st)) = mem st"
  by (simp add: release_pool_page_def Let_def)

lemma unmap_small_zeroed:
  "unmap_small_page_entry env pgd va st = Some (st', r) \<Longrightarrow> zeroed (mem st) (mem st')"
proof -
  assume r: "unmap_small_page_entry env pgd va st = Some (st', r)"
  have "(\<lambda>(((env, pgd), va), st) (st', r). zeroed (mem st) (mem st')) (((env, pgd), va), st) (st', r)"
    using r
  proof (rule unmap_small_page_entry.raw_induct[rotated], goal_cases)
    case (1 unmap env pgd va st y)
    let ?d = "mem st (l1_pte_addr pgd va)"
    let ?t = "phys_to_virt env (?d AND 0xFFFFFC00)"
    let ?st1 = "set_word (l2_pte_addr ?t va) 0 st"
    let ?pos = "l2_page_of ?t (l2_list ?st1)"
    let ?i = "the ?pos"
    let ?j = "unat ((?t - page_base (l2_list ?st1 ! ?i)) div 1024)"
    let ?rel = "release_pool_page ?i (drop_count ?i ?j (l1_pte_addr pgd va) ?st1)"
    let ?freed = "sw_vir_addr_free (v2p env) (the (snd ?rel)) PAGE_SIZE (pages_info (fst ?rel))"
    let ?st3 = "fst ?rel\<lparr>pages_info := fst ?freed\<rparr>"
    have z1: "zeroed (mem st) (mem ?st1)" by (simp add: zeroed_upd zeroed_refl)
    have z2: "zeroed (mem st) (mem (fst ?rel))"
      using zeroed_trans[OF z1 drop_count_zeroed] by simp
    have z3: "zeroed (mem st) (mem ?st3)" using z2 by simp
    obtain s r where y: "y = (s, r)" by (cases y)
    show ?case
    proof (cases "?d AND 3 \<noteq> 1 \<or> ?pos = None \<or> snd ?rel = None \<or> snd ?freed \<noteq> Inr () \<or>
        the (snd ?rel) AND (PAGE_SIZE - 1) \<noteq> 0")
      case True
      then show ?thesis
        using 1(2) z1 z2 z3 zeroed_refl by (auto simp: Let_def y split: if_splits)
    next
      case False
      then obtain s4 r4 where rec: "unmap env (secure_ptd env) (the (snd ?rel)) ?st3 = Some (s4, r4)"
        "s = s4"
        using 1(2) by (auto simp: Let_def y bind_eq_Some_conv)
      have "zeroed (mem ?st3) (mem s4)" using 1(1)[OF rec(1)] by simp
      from zeroed_trans[OF z3 this] show ?thesis using rec(2) y by simp
    qed
  qed
  then show ?thesis by simp
qed

lemma unmap_small_clears:
  assumes "unmap_small_page_entry env pgd va st = Some (st', Inr ())"
  shows "mem st (l1_pte_addr pgd va) AND 3 = 1"
    and "zeroed ((mem st)(l2_pte_addr (phys_to_virt env
      (mem st (l1_pte_addr pgd va) AND 0xFFFFFC00)) va := 0)) (mem st')"
proof -
  let ?d = "mem st (l1_pte_addr pgd va)"
  let ?t = "phys_to_virt env (?d AND 0xFFFFFC00)"
  let ?st1 = "set_word (l2_pte_addr ?t va) 0 st"
  let ?pos = "l2_page_of ?t (l2_list ?st1)"
  let ?i = "the ?pos"
  let ?j = "unat ((?t - page_base (l2_list ?st1 ! ?i)) div 1024)"
  let ?rel = "release_pool_page ?i (drop_count ?i ?j (l1_pte_addr pgd va) ?st1)"
  let ?freed = "sw_vir_addr_free (v2p env) (the (snd ?rel)) PAGE_SIZE (pages_info (fst ?rel))"
  let ?st3 = "fst ?rel\<lparr>pages_info := fst ?freed\<rparr>"
  note unf = assms(1)[unfolded unmap_small_page_entry.simps[of env pgd va st]]
  show coarse: "?d AND 3 = 1" using unf by (auto simp: Let_def split: if_splits)
  have pos: "?pos \<noteq> None" using unf coarse by (auto simp: Let_def split: if_splits)
  have z: "zeroed (mem ?st1) (mem (fst ?rel))"
    using drop_count_zeroed[of ?st1 ?i ?j "l1_pte_addr pgd va"] by simp
  have "zeroed (mem ?st1) (mem st')"
  proof (cases "snd ?rel = None \<or> snd ?freed \<noteq> Inr () \<or> the (snd ?rel) AND (PAGE_SIZE - 1) \<noteq> 0")
    case True
    then show ?thesis using unf coarse pos z by (auto simp: Let_def split: if_splits)
  next
    case False
    then obtain s4 r4 where rec: "unmap_small_page_entry env (secure_ptd env) (the (snd ?rel)) ?st3 = Some (s4, r4)"
      "st' = s4"
      using unf coarse pos by (auto simp: Let_def bind_eq_Some_conv)
    have "zeroed (mem ?st1) (mem ?st3)" using z by simp
    from zeroed_trans[OF this unmap_small_zeroed[OF rec(1)]] show ?thesis using rec(2) by simp
  qed
  then show "zeroed ((mem st)(l2_pte_addr ?t va := 0)) (mem st')" by simp
qed

text \<open>C35. After a successful \<^verbatim>\<open>unmap_small_page_entry\<close> the MMU has no translation for any address
  of the page, whatever tables the call has given back on the way; and the call only ever
  writes zeros, so it maps nothing.\<close>

theorem unmap_small_page_entry_revokes:
  assumes "unmap_small_page_entry env pgd va st = Some (st', Inr ())"
    and "drop_bit 12 va' = drop_bit 12 va"
  shows "walk env pgd (mem st') va' = None \<and> (\<forall>a. mem st' a = mem st a \<or> mem st' a = 0)"
proof -
  let ?p = "l1_pte_addr pgd va"
  let ?q = "l2_pte_addr (phys_to_virt env (mem st ?p AND 0xFFFFFC00)) va"
  note z = unmap_small_clears(2)[OF assms(1)] and c = unmap_small_clears(1)[OF assms(1)]
  have q: "mem st' ?q = 0" using z[unfolded zeroed_def, THEN spec, of ?q] by simp
  have p: "mem st' ?p = mem st ?p \<or> mem st' ?p = 0"
    using z[unfolded zeroed_def, THEN spec, of ?p] by (simp split: if_splits)
  have a: "l1_pte_addr pgd va' = ?p" by (rule l1_pte_addr_cong[OF page_in_section[OF assms(2)]])
  have b: "l2_pte_addr t va' = l2_pte_addr t va" for t by (rule l2_pte_addr_cong[OF assms(2)])
  have "walk env pgd (mem st') va' = None" using p q c by (auto simp: walk_def Let_def a b)
  then show ?thesis using unmap_small_zeroed[OF assms(1)] by (simp add: zeroed_def)
qed

text \<open>An environment and a state with one pool page and nothing mapped, before the heap exists.\<close>

definition demo_env :: pt_env where
  "demo_env =
     \<lparr>secure_ptd = 0x4000, v2p = (\<lambda>va. va - 0x8000 + 0x3C000000), mmu_enabled = True,
      code_start = 0x8000, ram_start = 0x3C000000, static_l2_page = 0x10000, malloc_ok = True\<rparr>"

definition demo_pt :: pt_state where
  "demo_pt =
     \<lparr>mem = (\<lambda>_. 0),
      l2_list = [\<lparr>page_base = 0x10000, page = [0, 0, 0, 0], blk_used = 0, is_static = True\<rparr>],
      l2_blk_allocated = 4, l2_blk_used = 0, static_l2_next_idx = 1, page_refs = [],
      heap_init_done = False, pages_info = demo_info\<rparr>"

definition demo_entry :: cpu_pt_entry where
  "demo_entry = (memory_desc PTF_PROT_URW 1)\<lparr>e_va := 0x205000, e_pa := 0x3C123000\<rparr>"

lemma demo_fields [simp]:
  "mem demo_pt a = 0" "e_va demo_entry = 0x205000" "e_pa demo_entry = 0x3C123000"
  "l2_list demo_pt = [\<lparr>page_base = 0x10000, page = [0, 0, 0, 0], blk_used = 0, is_static = True\<rparr>]"
  by (simp_all add: demo_pt_def demo_entry_def)

theorem map_section_entry_translates_witness:
  "walk demo_env 0x4000 (mem (fst (map_section_entry 0x4000 demo_entry demo_pt))) 0x2ABCDE =
     Some (0x3C1ABCDE, 3, 0)"
proof -
  have "drop_bit 20 0x2ABCDE = drop_bit 20 (e_va demo_entry)" by simp
  from map_section_entry_translates[OF this refl prod.collapse[symmetric],
      where st = demo_pt and pgd = "0x4000" and env = demo_env]
  show ?thesis by (simp add: demo_entry_def memory_desc_def ptf_to_ap_def PTF_PROT_URW_def PRIV_RW_USR_RW_def)
qed

lemma demo_table:
  "alloc_l2_secure_page_table demo_env demo_pt =
     Some (zero_bytes 0x10000 1024 (demo_pt\<lparr>l2_list :=
             [\<lparr>page_base = 0x10000, page = [0, 0, 0, 0], blk_used = 1, is_static = True\<rparr>],
             l2_blk_used := 1\<rparr>), 0x3C008000, 0x10000)"
  by (simp add: alloc_l2_secure_page_table_def demo_env_def demo_pt_def)

lemma demo_small: "\<exists>st'. map_small_core demo_env 0x4000 demo_entry demo_pt = Some (st', Inr ())"
  by (simp add: map_small_core_def Let_def demo_table count_entry_def zero_bytes_def set_word_def
      PAGE_SIZE_def split: option.splits)

theorem map_small_core_translates_witness:
  "\<exists>st'. map_small_core demo_env 0x4000 demo_entry demo_pt = Some (st', Inr ()) \<and>
     walk demo_env 0x4000 (mem st') 0x205ABC = Some (0x3C123ABC, 3, 0)"
proof -
  obtain st' where st': "map_small_core demo_env 0x4000 demo_entry demo_pt = Some (st', Inr ())"
    using demo_small by blast
  have "small_table demo_env 0x4000 (e_va demo_entry) demo_pt = Some 0x10000"
    by (simp add: small_table_def demo_table)
  moreover have "table_placed demo_env 0x4000 (e_va demo_entry) 0x10000"
    by (simp add: table_placed_def phys_to_virt_def demo_env_def l1_pte_addr_def l2_pte_addr_def)
  moreover have "drop_bit 12 0x205ABC = drop_bit 12 (e_va demo_entry)" by simp
  ultimately show ?thesis
    using map_small_core_translates[OF st'] st'
    by (simp add: demo_entry_def memory_desc_def ptf_to_ap_def PTF_PROT_URW_def PRIV_RW_USR_RW_def)
qed

definition demo_mapped :: pt_state where
  "demo_mapped = demo_pt\<lparr>
     mem := (\<lambda>_. 0)(0x4008 := 0x3C008001, 0x10014 := 0x3C12347E),
     l2_list := [\<lparr>page_base = 0x10000, page = [1, 0, 0, 0], blk_used = 1, is_static = True\<rparr>],
     l2_blk_used := 1\<rparr>"

theorem unmap_small_page_entry_revokes_witness:
  "\<exists>st'. unmap_small_page_entry demo_env 0x4000 0x205000 demo_mapped = Some (st', Inr ()) \<and>
     walk demo_env 0x4000 (mem st') 0x205123 = None"
proof -
  have "\<exists>st'. unmap_small_page_entry demo_env 0x4000 0x205000 demo_mapped = Some (st', Inr ())"
    by (subst unmap_small_page_entry.simps)
      (simp add: Let_def demo_mapped_def demo_pt_def demo_env_def l1_pte_addr_def l2_pte_addr_def
        phys_to_virt_def PAGE_SIZE_def drop_count_def set_count_def release_pool_page_def set_word_def)
  moreover have "drop_bit 12 0x205123 = drop_bit 12 (0x205000 :: u32)" by simp
  ultimately show ?thesis using unmap_small_page_entry_revokes by blast
qed

section \<open>Ranges\<close>

lemma page_size_low: "(sz :: u32) AND (PAGE_SIZE - 1) = 0 \<longleftrightarrow> unat sz mod 4096 = 0"
proof -
  have "unat (sz AND mask 12) = unat sz mod 4096" by (simp add: unat_and_mask)
  then show ?thesis unfolding PAGE_SIZE_mask by (metis unat_eq_zero)
qed
lemma section_size_low: "(sz :: u32) AND (SECTION_SIZE - 1) = 0 \<longleftrightarrow> unat sz mod 1048576 = 0"
proof -
  have "unat (sz AND mask 20) = unat sz mod 1048576" by (simp add: unat_and_mask)
  then show ?thesis unfolding SECTION_SIZE_mask by (metis unat_eq_zero)
qed

lemma unat_sizes: "unat SECTION_SIZE = 1048576" "unat PAGE_SIZE = 4096"
  by (simp_all add: SECTION_SIZE_def PAGE_SIZE_def)

text \<open>The loop ends on page-aligned sizes, and only on those.\<close>

lemma map_range_total:
  assumes "\<And>e s. sect e s \<noteq> None" and "\<And>e s. small e s \<noteq> None" and "unat sz mod 4096 = 0"
  shows "map_range sect small desc va pa sz s \<noteq> None"
  using assms(3)
proof (induction "unat sz" arbitrary: va pa sz s rule: less_induct)
  case less
  show ?case
  proof (cases "sz = 0")
    case True
    then show ?thesis by (simp add: map_range.simps)
  next
    case False
    then have "4096 \<le> unat sz" using less.prems by (metis dvd_imp_le mod_0_imp_dvd unat_gt_0)
    then have p: "unat (sz - PAGE_SIZE) = unat sz - 4096"
      by (simp add: unat_sub_le word_le_nat_alt unat_sizes)
    have s: "unat (sz - SECTION_SIZE) = unat sz - 1048576" if "SECTION_SIZE \<le> sz"
      using that by (simp add: unat_sub_le unat_sizes)
    obtain q where q: "unat sz = 4096 * q" using less.prems by (metis mult_div_mod_eq add.right_neutral)
    have "(unat sz - 4096) mod 4096 = 0" "(unat sz - 1048576) mod 4096 = 0"
      using diff_mult_distrib2[of 4096 q 1] diff_mult_distrib2[of 4096 q 256] unfolding q by simp_all
    moreover have "unat sz - 1048576 < unat sz" "unat sz - 4096 < unat sz" using \<open>4096 \<le> unat sz\<close> by auto
    ultimately have rec: "map_range sect small desc va' pa' (sz - PAGE_SIZE) s' \<noteq> None"
      "SECTION_SIZE \<le> sz \<Longrightarrow> map_range sect small desc va' pa' (sz - SECTION_SIZE) s' \<noteq> None" for va' pa' s'
      using less.hyps[of "sz - PAGE_SIZE"] less.hyps[of "sz - SECTION_SIZE"] p s by auto
    obtain s1 s2 where "sect (desc\<lparr>e_va := va, e_pa := pa\<rparr>) s = Some s1" "small (desc\<lparr>e_va := va, e_pa := pa\<rparr>) s = Some s2"
      using assms(1,2) by blast
    then show ?thesis
      using rec(1)[of "va + PAGE_SIZE" "pa + PAGE_SIZE" s2] rec(2)[of "va + SECTION_SIZE" "pa + SECTION_SIZE" s1] False
      unfolding map_range.simps[of _ _ _ va pa sz s] by (simp split: if_splits)
  qed
qed

lemma map_range_aligned:
  "map_range sect small desc va pa sz s = Some s' \<Longrightarrow> unat sz mod 4096 = 0"
proof -
  assume r: "map_range sect small desc va pa sz s = Some s'"
  have "(\<lambda>((((((section, small), desc), va), pa), sz), s) s'. unat sz mod 4096 = 0)
      ((((((section, small), desc), va), pa), sz), s) s'"
    using r
  proof (rule map_range.raw_induct[rotated], goal_cases)
    case (1 mp sect small desc va pa sz s y)
    have sub: "unat (sz - k) mod 4096 = 0 \<Longrightarrow> unat k mod 4096 = 0 \<Longrightarrow> unat sz mod 4096 = 0" for k :: u32
    proof -
      assume "unat (sz - k) mod 4096 = 0" "unat k mod 4096 = 0"
      then have "(unat (sz - k) + unat k) mod 4096 = 0" by auto
      moreover have "unat sz = (unat (sz - k) + unat k) mod 2 ^ 32"
        using unat_word_ariths(1)[of "sz - k" k] by simp
      ultimately show ?thesis by (simp add: mod_mod_cancel)
    qed
    show ?case
      using 1 sub[of PAGE_SIZE] sub[of SECTION_SIZE] by (auto simp: unat_sizes bind_eq_Some_conv split: if_splits)
  qed
  then show ?thesis by simp
qed

text \<open>C36. The mapping loops end exactly on the sizes that are multiples of the page size: with
  entry operations that return, a page-aligned size is worked off; for any other size the
  counter steps over zero and the loop never ends.  \<^verbatim>\<open>map_secure_memory\<close> and \<^verbatim>\<open>map_user_memory\<close>
  reject such sizes, \<^verbatim>\<open>map_device\<close> does not.\<close>

theorem map_range_ends_iff_aligned:
  assumes "\<And>e s. sect e s \<noteq> None" and "\<And>e s. small e s \<noteq> None"
  shows "(\<exists>s'. map_range sect small desc va pa sz s = Some s') \<longleftrightarrow> sz AND (PAGE_SIZE - 1) = 0"
proof -
  have "map_range sect small desc va pa sz s \<noteq> None" if "unat sz mod 4096 = 0"
    by (rule map_range_total[where sect = sect and small = small]) (use assms that in auto)
  then show ?thesis unfolding page_size_low using map_range_aligned by (metis not_Some_eq)
qed

lemma map_device_unaligned: "sz AND (PAGE_SIZE - 1) \<noteq> 0 \<Longrightarrow> map_device env va pa sz st = None"
  unfolding map_device_def page_size_low using map_range_aligned by (metis not_Some_eq)

text \<open>Which pages a run of the loop visits: both entry operations append to a log.\<close>

definition log_op :: "bool \<Rightarrow> cpu_pt_entry \<Rightarrow> (bool \<times> u32 \<times> u32) list \<Rightarrow> (bool \<times> u32 \<times> u32) list option" where
  "log_op is_section e s = Some (s @ [(is_section, e_va e, e_pa e)])"

definition page_at :: "u32 \<Rightarrow> u32 \<Rightarrow> nat \<Rightarrow> u32 \<times> u32" where
  "page_at va pa i = (va + of_nat i * PAGE_SIZE, pa + of_nat i * PAGE_SIZE)"

fun chunk_pages :: "bool \<times> u32 \<times> u32 \<Rightarrow> (u32 \<times> u32) list" where
  "chunk_pages (is_section, va, pa) = map (page_at va pa) [0..<if is_section then 256 else 1]"

lemma page_at_shift:
  "page_at (va + of_nat k * PAGE_SIZE) (pa + of_nat k * PAGE_SIZE) i = page_at va pa (k + i)"
  by (simp add: page_at_def algebra_simps)

lemma pages_split:
  "map (page_at va pa) [0..<k] @
     map (page_at (va + of_nat k * PAGE_SIZE) (pa + of_nat k * PAGE_SIZE)) [0..<n] =
   map (page_at va pa) [0..<k + n]"
  by (rule nth_equalityI) (auto simp: nth_append page_at_shift)

lemma map_range_log:
  assumes "unat sz mod 4096 = 0"
  shows "\<exists>cs. map_range (log_op True) (log_op False) desc va pa sz s = Some (s @ cs) \<and>
     concat (map chunk_pages cs) = map (page_at va pa) [0..<unat sz div 4096] \<and>
     (\<forall>c\<in>set cs. fst c \<longrightarrow> unat (fst (snd c)) mod 1048576 = 0 \<and> unat (snd (snd c)) mod 1048576 = 0)"
  using assms
proof (induction "unat sz" arbitrary: va pa sz s rule: less_induct)
  case less
  show ?case
  proof (cases "sz = 0")
    case True
    then show ?thesis by (simp add: map_range.simps)
  next
    case False
    obtain q where q: "unat sz = 4096 * q" using less.prems by (metis mult_div_mod_eq add.right_neutral)
    then have q0: "0 < q" using False unat_gt_0[of sz] by auto
    let ?sect = "SECTION_SIZE \<le> sz \<and> va AND (SECTION_SIZE - 1) = 0 \<and> pa AND (SECTION_SIZE - 1) = 0"
    define k where "k = (if ?sect then 256 else 1 :: nat)"
    let ?step = "of_nat k * PAGE_SIZE :: u32"
    have step: "?step = (if ?sect then SECTION_SIZE else PAGE_SIZE)"
      by (simp add: k_def SECTION_SIZE_def PAGE_SIZE_def)
    have kq: "k \<le> q" using q q0 unat_sizes(1) by (auto simp: k_def word_le_nat_alt)
    have "unat ?step = 4096 * k" unfolding step by (simp add: unat_sizes k_def)
    then have sub: "unat (sz - ?step) = 4096 * (q - k)"
      using kq q by (subst unat_sub_le) (auto simp: word_le_nat_alt diff_mult_distrib2)
    have less': "unat (sz - ?step) < unat sz" using sub q kq q0 by (auto simp: k_def)
    have "unat (sz - ?step) mod 4096 = 0" by (simp add: sub)
    from less.hyps[OF less' this, of "va + ?step" "pa + ?step" "s @ [(?sect, va, pa)]"] obtain cs where cs:
      "map_range (log_op True) (log_op False) desc (va + ?step) (pa + ?step) (sz - ?step)
         (s @ [(?sect, va, pa)]) = Some ((s @ [(?sect, va, pa)]) @ cs)"
      "concat (map chunk_pages cs) = map (page_at (va + ?step) (pa + ?step)) [0..<q - k]"
      "\<forall>c\<in>set cs. fst c \<longrightarrow> unat (fst (snd c)) mod 1048576 = 0 \<and> unat (snd (snd c)) mod 1048576 = 0"
      unfolding sub by auto
    have "map_range (log_op True) (log_op False) desc va pa sz s = Some (s @ (?sect, va, pa) # cs)"
      using cs(1) False unfolding step map_range.simps[of _ _ _ va pa sz s]
      by (auto simp: log_op_def)
    moreover have "chunk_pages (?sect, va, pa) = map (page_at va pa) [0..<k]"
      by (simp add: k_def)
    moreover have "map (page_at va pa) [0..<k] @ map (page_at (va + ?step) (pa + ?step)) [0..<q - k] =
        map (page_at va pa) [0..<unat sz div 4096]"
      unfolding pages_split using kq q by simp
    ultimately show ?thesis
      using cs(2,3) by (intro exI[of _ "(?sect, va, pa) # cs"]) (auto simp: section_size_low)
  qed
qed

text \<open>The mapping loop covers the range exactly: for a page-aligned size the entries it makes,
  with a section counting as its 256 pages, are every page of the range once, in order, each
  mapped to the physical page at the same offset; sections are only used at addresses that are
  aligned to them.\<close>

theorem map_range_covers:
  assumes "sz AND (PAGE_SIZE - 1) = 0"
  shows "\<exists>cs. map_range (log_op True) (log_op False) desc va pa sz [] = Some cs \<and>
     concat (map chunk_pages cs) = map (page_at va pa) [0..<unat sz div 4096] \<and>
     (\<forall>c\<in>set cs. fst c \<longrightarrow>
        fst (snd c) AND (SECTION_SIZE - 1) = 0 \<and> snd (snd c) AND (SECTION_SIZE - 1) = 0)"
  using map_range_log[of sz desc va pa "[]"] assms by (simp add: page_size_low section_size_low)

theorem map_range_ends_iff_aligned_witness:
  "map_range (log_op True) (log_op False) device_desc 0xE0000000 0xE0000000 0x1001 [] = None"
proof -
  have "\<not> (\<exists>s'. map_range (log_op True) (log_op False) device_desc 0xE0000000 0xE0000000 0x1001 [] = Some s')"
    by (subst map_range_ends_iff_aligned) (simp_all add: log_op_def PAGE_SIZE_def)
  then show ?thesis by auto
qed

theorem map_range_covers_witness:
  "\<exists>cs. map_range (log_op True) (log_op False) device_desc 0xE00FF000 0x3FF000 0x2000 [] = Some cs \<and>
     concat (map chunk_pages cs) = [(0xE00FF000, 0x3FF000), (0xE0100000, 0x400000)]"
  using map_range_covers[of "0x2000" device_desc "0xE00FF000" "0x3FF000"]
  by (auto simp: PAGE_SIZE_def page_at_def upt_rec)

text \<open>The range operations ignore the results of the entry operations.\<close>

text \<open>\<^verbatim>\<open>map_secure_memory\<close> reports success for a megabyte whose first-level entry points to a
  second-level table, although it maps nothing there.\<close>

theorem map_secure_memory_ignores_failure:
  assumes "va AND (SECTION_SIZE - 1) = 0" and "pa AND (SECTION_SIZE - 1) = 0"
    and "mem st (l1_pte_addr (secure_ptd env) va) AND 3 = 1"
  shows "map_secure_memory env va pa SECTION_SIZE ptf st = Some (st, Inr ())"
proof -
  have al: "unat va mod 4096 = 0" "unat pa mod 4096 = 0"
    using assms(1,2) mod_mod_cancel[of 4096 1048576 "unat va"] mod_mod_cancel[of 4096 1048576 "unat pa"]
    by (simp_all add: section_size_low)
  have "map_section_entry (secure_ptd env) ((memory_desc ptf 0)\<lparr>e_va := va, e_pa := pa\<rparr>) st = (st, Inl SW_EINVAL)"
    using assms(3) by (simp add: map_section_entry_def)
  moreover have "SECTION_SIZE \<noteq> 0" by (simp add: SECTION_SIZE_def)
  ultimately have "map_range (section_op (secure_ptd env)) (small_op env (secure_ptd env))
      (memory_desc ptf 0) va pa SECTION_SIZE st = Some st"
    using assms(1,2) by (simp add: map_range.simps section_op_def)
  moreover have "page_aligned3 SECTION_SIZE va pa"
    using al by (simp add: page_aligned3_def page_size_low unat_sizes)
  ultimately show ?thesis by (simp add: map_secure_memory_def map_memory_with_def)
qed

theorem map_secure_memory_ignores_failure_witness:
  "map_secure_memory demo_env 0x200000 0x3C100000 SECTION_SIZE PTF_PROT_KRW demo_mapped =
     Some (demo_mapped, Inr ())"
  by (rule map_secure_memory_ignores_failure)
    (simp_all add: SECTION_SIZE_def demo_mapped_def demo_env_def l1_pte_addr_def)

section \<open>Shared sections\<close>

lemma ref_set_lookup: "ref_lookup p rs \<noteq> None \<Longrightarrow> ref_lookup p (ref_set p n rs) = Some n"
  by (induction rs) auto

lemma ref_set_set [simp]: "ref_set p n (ref_set p m rs) = ref_set p n rs"
  by (induction rs) auto

lemma ref_append: "ref_lookup p rs = None \<Longrightarrow> ref_lookup p (rs @ [(p, n)]) = Some n \<and>
    ref_set p m (rs @ [(p, n)]) = rs @ [(p, m)] \<and> ref_remove p (rs @ [(p, n)]) = rs"
  by (induction rs) (auto split: if_splits)

definition map_ns_times :: "pt_env \<Rightarrow> u32 \<Rightarrow> nat \<Rightarrow> pt_state \<Rightarrow> pt_state" where
  "map_ns_times env pa n = (\<lambda>st. fst (map_to_ns env pa st)) ^^ n"

definition unmap_ns_times :: "pt_env \<Rightarrow> u32 \<Rightarrow> nat \<Rightarrow> pt_state \<Rightarrow> pt_state" where
  "unmap_ns_times env pa n = (unmap_from_ns env pa) ^^ n"

text \<open>The state with \<open>n\<close> users of the section.\<close>

definition shared :: "pt_env \<Rightarrow> u32 \<Rightarrow> nat \<Rightarrow> pt_state \<Rightarrow> pt_state" where
  "shared env pa n st =
     (if n = 0 then st\<lparr>mem := (mem st)(l1_pte_addr (secure_ptd env) pa := 0)\<rparr>
      else st\<lparr>mem := (mem st)(l1_pte_addr (secure_ptd env) pa := section_desc (ns_desc pa)),
              page_refs := page_refs st @ [(l1_pte_addr (secure_ptd env) pa, of_nat n)]\<rparr>)"

lemma ns_desc_bits: "section_desc (ns_desc pa) AND 0x80000 \<noteq> 0"
proof -
  have m: "(0x80000 :: u32) = push_bit 19 (mask 1)" by (simp add: mask_eq_exp_minus_1)
  have "bit (section_desc (ns_desc pa) AND 0x80000) 19"
    unfolding section_desc_def desc_masks m by (simp add: desc_bits ns_desc_def)
  then show ?thesis by auto
qed

lemma map_shared:
  assumes "malloc_ok env" and "ref_lookup (l1_pte_addr (secure_ptd env) pa) (page_refs st) = None"
  shows "fst (map_to_ns env pa (shared env pa n st)) = shared env pa (Suc n) st"
proof (cases n)
  case 0
  then show ?thesis using assms
    by (simp add: map_to_ns_def map_ns_section_entry_def page_ref_add_def shared_def Let_def
        section_desc_fields ns_desc_def set_word_def)
next
  case (Suc m)
  then show ?thesis using assms ns_desc_bits[of pa] ref_append[OF assms(2)]
    by (simp add: map_to_ns_def map_ns_section_entry_def page_ref_add_def shared_def Let_def
        section_desc_fields ns_desc_def[of pa] set_word_def)
qed

lemma unmap_shared:
  assumes "ref_lookup (l1_pte_addr (secure_ptd env) pa) (page_refs st) = None" and "Suc n < 2 ^ 32"
  shows "unmap_from_ns env pa (shared env pa (Suc n) st) = shared env pa n st"
proof -
  have nz: "(of_nat n :: u32) = 0 \<longleftrightarrow> n = 0"
    using unat_of_nat_small[where 'a = 32, of n] assms(2) by (auto simp: unat_eq_zero[symmetric])
  then show ?thesis using ns_desc_bits[of pa] ref_append[OF assms(1)]
    by (auto simp: unmap_from_ns_def unmap_ns_section_entry_def page_ref_release_def shared_def Let_def
        section_desc_fields set_word_def)
qed

text \<open>C37. A section of non-secure memory stays mapped until it has been unmapped as often as it was
  mapped: after \<open>n\<close> calls of \<^verbatim>\<open>map_to_ns\<close> and \<open>k\<close> calls of \<^verbatim>\<open>unmap_from_ns\<close> the state is the one with
  \<open>n - k\<close> users; with no user left the entry is empty and the reference list is the old one.\<close>

theorem ns_section_reference_counting:
  assumes "malloc_ok env" and "mem st (l1_pte_addr (secure_ptd env) pa) = 0"
    and "ref_lookup (l1_pte_addr (secure_ptd env) pa) (page_refs st) = None"
    and "k \<le> n" and "n < 2 ^ 32"
  shows "unmap_ns_times env pa k (map_ns_times env pa n st) = shared env pa (n - k) st"
proof -
  have 0: "shared env pa 0 st = st" using assms(2) by (simp add: shared_def fun_upd_idem)
  have "((\<lambda>st. fst (map_to_ns env pa st)) ^^ n) (shared env pa 0 st) = shared env pa n st" for n
    by (induction n) (simp_all add: map_shared[OF assms(1,3)])
  moreover have "(unmap_from_ns env pa ^^ k) (shared env pa n st) = shared env pa (n - k) st"
    using assms(4)
  proof (induction k)
    case (Suc k)
    then have "n - k = Suc (n - Suc k)" by simp
    then show ?case using Suc unmap_shared[OF assms(3), of "n - Suc k"] assms(5) by simp
  qed simp
  ultimately show ?thesis by (simp add: map_ns_times_def unmap_ns_times_def 0)
qed

theorem ns_section_reference_counting_witness:
  "unmap_ns_times demo_env 0x3F000000 3 (map_ns_times demo_env 0x3F000000 3 demo_pt) =
     shared demo_env 0x3F000000 0 demo_pt"
  using ns_section_reference_counting[of demo_env demo_pt "0x3F000000" 3 3]
  by (simp add: demo_env_def demo_pt_def)



lemma l2_page_of_less: "l2_page_of a rs = Some i \<Longrightarrow> i < length rs"
  by (induction rs arbitrary: i) (auto split: if_splits)

lemma drop_count_length [simp]: "length (l2_list (drop_count i j a st)) = length (l2_list st)"
  by (simp add: drop_count_def Let_def)

lemma release_pool_page_shrinks:
  "i < length (l2_list st) \<Longrightarrow> snd (release_pool_page i st) \<noteq> None \<Longrightarrow>
     length (l2_list (fst (release_pool_page i st))) < length (l2_list st)"
  by (auto simp: release_pool_page_def Let_def split: if_splits)

lemma unmap_small_total: "unmap_small_page_entry env pgd va st \<noteq> None"
proof (induction "length (l2_list st)" arbitrary: pgd va st rule: less_induct)
  case less
  let ?d = "mem st (l1_pte_addr pgd va)"
  let ?t = "phys_to_virt env (?d AND PAGE_DESC_PAGE_TBL_MASK)"
  let ?st1 = "set_word (l2_pte_addr ?t va) 0 st"
  let ?pos = "l2_page_of ?t (l2_list ?st1)"
  let ?i = "the ?pos"
  let ?j = "unat ((?t - page_base (l2_list ?st1 ! ?i)) div L2_PAGE_TABLE_SIZE)"
  let ?rel = "release_pool_page ?i (drop_count ?i ?j (l1_pte_addr pgd va) ?st1)"
  let ?freed = "sw_vir_addr_free (v2p env) (the (snd ?rel)) PAGE_SIZE (pages_info (fst ?rel))"
  let ?st3 = "fst ?rel\<lparr>pages_info := fst ?freed\<rparr>"
  have "unmap_small_page_entry env (secure_ptd env) (the (snd ?rel)) ?st3 \<noteq> None"
    if "?pos \<noteq> None" "snd ?rel \<noteq> None"
  proof -
    have "?i < length (l2_list ?st1)" using that(1) by (intro l2_page_of_less[of ?t]) simp
    then have "?i < length (l2_list (drop_count ?i ?j (l1_pte_addr pgd va) ?st1))" by simp
    then have "length (l2_list (fst ?rel)) < length (l2_list ?st1)"
      using release_pool_page_shrinks[of ?i "drop_count ?i ?j (l1_pte_addr pgd va) ?st1"] that(2) by simp
    then show ?thesis using less.hyps[of ?st3 "secure_ptd env" "the (snd ?rel)"] by (simp add: set_word_def)
  qed
  then show ?case
    by (subst unmap_small_page_entry.simps) (auto simp: Let_def bind_eq_None_conv split: option.split prod.split)
qed

lemma unmap_range_total:
  assumes "\<And>a s. sect a s \<noteq> None" and "\<And>a s. small a s \<noteq> None" and "unat sz mod 4096 = 0"
  shows "unmap_range sect small va sz s \<noteq> None"
  using assms(3)
proof (induction "unat sz" arbitrary: va sz s rule: less_induct)
  case less
  show ?case
  proof (cases "sz = 0")
    case True
    then show ?thesis by (simp add: unmap_range.simps)
  next
    case False
    then have "4096 \<le> unat sz" using less.prems by (metis dvd_imp_le mod_0_imp_dvd unat_gt_0)
    then have p: "unat (sz - PAGE_SIZE) = unat sz - 4096"
      by (simp add: unat_sub_le word_le_nat_alt unat_sizes)
    have s: "unat (sz - SECTION_SIZE) = unat sz - 1048576" if "SECTION_SIZE \<le> sz"
      using that by (simp add: unat_sub_le unat_sizes)
    obtain q where q: "unat sz = 4096 * q" using less.prems by (metis mult_div_mod_eq add.right_neutral)
    have "(unat sz - 4096) mod 4096 = 0" "(unat sz - 1048576) mod 4096 = 0"
      using diff_mult_distrib2[of 4096 q 1] diff_mult_distrib2[of 4096 q 256] unfolding q by simp_all
    moreover have "unat sz - 1048576 < unat sz" "unat sz - 4096 < unat sz" using \<open>4096 \<le> unat sz\<close> by auto
    ultimately have rec: "unmap_range sect small va' (sz - PAGE_SIZE) s' \<noteq> None"
      "SECTION_SIZE \<le> sz \<Longrightarrow> unmap_range sect small va' (sz - SECTION_SIZE) s' \<noteq> None" for va' s'
      using less.hyps[of "sz - PAGE_SIZE"] less.hyps[of "sz - SECTION_SIZE"] p s by auto
    obtain s1 s2 where "sect va s = Some s1" "small va s = Some s2" using assms(1,2) by blast
    then show ?thesis
      using rec(1)[of "va + PAGE_SIZE" s2] rec(2)[of "va + SECTION_SIZE" s1] False
      unfolding unmap_range.simps[of _ _ va sz s] by (simp split: if_splits)
  qed
qed

lemma unmap_user_memory_total: "\<exists>st' r. unmap_user_memory env va sz pgd st = Some (st', r)"
proof -
  have "unmap_range (unmap_section_op pgd) (unmap_small_op env pgd) va sz st \<noteq> None"
    if "page_aligned3 sz va 0"
    using that by (intro unmap_range_total)
      (simp_all add: unmap_section_op_def unmap_small_op_def unmap_small_total page_aligned3_def page_size_low)
  then show ?thesis by (auto simp: unmap_user_memory_def)
qed

text \<open>Unmapping always returns: a page of the pool that is given back shortens the pool, so the
  nested unmapping of pool pages ends, and the range loop only runs on page-aligned sizes.\<close>

theorem unmap_user_memory_returns: "\<exists>st' r. unmap_user_memory env va sz pgd st = Some (st', r)"
  by (rule unmap_user_memory_total)

end
