(* ===== verification/Timer.thy ===== *)
theory Timer
  imports Links
begin

text \<open>
  The kernel timers: \<^verbatim>\<open>core/sw_timer.c\<close> and the time conversions of
  \<^verbatim>\<open>arch/arm/armv7/cpu_api.c\<close>.  A \<^verbatim>\<open>sw_timeval\<close> is its 64-bit view, with the nanoseconds in
  the low and the seconds in the high signed word.  The free-running counter is a sequence of
  readings, the programmed ticks are a log, and a handler is a function on the state, run
  after the event has left the queue.
\<close>

section \<open>Time values\<close>

definition tv_nsec :: "u64 \<Rightarrow> u32" where "tv_nsec v = ucast v"
definition tv_sec :: "u64 \<Rightarrow> u32" where "tv_sec v = ucast (drop_bit 32 v)"

definition mk_tv :: "u32 \<Rightarrow> u32 \<Rightarrow> u64" where
  "mk_tv nsec sec = push_bit 32 (ucast sec) OR ucast nsec"

definition NANO_SECONDS_PER_SECOND :: u32 where "NANO_SECONDS_PER_SECOND = 1000000000"

definition TIMEVAL_MAX :: u64 where "TIMEVAL_MAX = NOT (push_bit 63 1) AND NOT 0xFFFFFFFF"

definition add_time :: "u64 \<Rightarrow> u64 \<Rightarrow> u64" where
  "add_time value1 value2 =
     (let sum = value1 + value2 in
      if sint (tv_nsec sum) > sint (NANO_SECONDS_PER_SECOND - 1)
      then mk_tv (tv_nsec sum - NANO_SECONDS_PER_SECOND) (tv_sec sum + 1) else sum)"

definition subtract_time :: "u64 \<Rightarrow> u64 \<Rightarrow> u64" where
  "subtract_time value1 value2 =
     (let diff = value1 - value2 in
      if sint (tv_nsec diff) < 0 then mk_tv (tv_nsec diff + NANO_SECONDS_PER_SECOND) (tv_sec diff)
      else diff)"

section \<open>Clock cycles\<close>

text \<open>Division and multiplication by 1000 with shifts, on 64-bit unsigned values.\<close>

definition div1000 :: "u64 \<Rightarrow> u64" where
  "div1000 x = (let y = drop_bit 10 x in y + drop_bit 7 (3 * y) + drop_bit 14 (9 * y))"

definition mul1000 :: "u64 \<Rightarrow> u64" where
  "mul1000 x = push_bit 10 x + push_bit 3 x - push_bit 5 x"

text \<open>The product with the clock period is computed in 32 bits.\<close>

definition clockcycles_to_timeval :: "u32 \<Rightarrow> u32 \<Rightarrow> u64" where
  "clockcycles_to_timeval period_us clockcycles =
     (let usecs = ucast (clockcycles * period_us) :: u64;
          tmp_secs = div1000 (div1000 usecs);
          tmp_usecs = usecs - mul1000 (mul1000 tmp_secs);
          tmp_nsecs = mul1000 tmp_usecs
      in mk_tv (ucast tmp_nsecs) (ucast tmp_secs))"

definition timeval_to_clockcycles :: "u32 \<Rightarrow> u64 \<Rightarrow> u64" where
  "timeval_to_clockcycles period_us time =
     (if sint (tv_sec time) < 0 \<or> sint (tv_nsec time) < 0 then 0
      else let sec = ucast (tv_sec time) :: u64;
               tmp_sec = (if 0 < sec then mul1000 (mul1000 sec) else sec);
               useconds = div1000 (ucast (tv_nsec time)) + tmp_sec;
               clockcycles = ucast ((ucast useconds :: u32) div period_us) :: u64
           in if clockcycles = 0 then ucast period_us else clockcycles)"

definition TIMER_COUNT_MAX :: u64 where "TIMER_COUNT_MAX = 0xFFFF"

text \<open>What \<^verbatim>\<open>trigger_tick\<close> programs.\<close>

definition tick_value :: "u64 \<Rightarrow> u32" where
  "tick_value usecs =
     (let u1 = (if usecs > TIMER_COUNT_MAX then TIMER_COUNT_MAX else usecs);
          u2 = (if u1 = 0 then 1 else u1)
      in ucast u2)"

section \<open>The clock\<close>

record clock =
  period_us :: u32
  sw_timestamp :: u64
  abs_cycles_count :: u64
  cycles_count_old :: u64
  cycles_count_new :: u64
  counter :: "nat \<Rightarrow> u32"
  readings :: nat

definition read_timestamp :: "clock \<Rightarrow> u64 \<times> clock" where
  "read_timestamp c =
     (let new = ucast (counter c (readings c)) :: u64;
          tmp_cycles = new - cycles_count_old c;
          stamp = add_time (sw_timestamp c) (clockcycles_to_timeval (period_us c) (ucast tmp_cycles))
      in (stamp, c\<lparr>readings := readings c + 1, cycles_count_new := new,
                   abs_cycles_count := abs_cycles_count c + tmp_cycles, cycles_count_old := new,
                   sw_timestamp := stamp\<rparr>))"

definition free_running_cntr_intr :: "clock \<Rightarrow> clock" where
  "free_running_cntr_intr c =
     (let new = TIMER_COUNT_MAX;
          tmp_cycles = new - cycles_count_old c
      in c\<lparr>cycles_count_new := new, abs_cycles_count := abs_cycles_count c + tmp_cycles,
           cycles_count_old := 0,
           sw_timestamp := add_time (sw_timestamp c)
             (clockcycles_to_timeval (period_us c) (ucast tmp_cycles))\<rparr>)"

section \<open>Timer events\<close>

datatype timer_cell = Active | Node nat

datatype timer_event_state = TIMER_STATE_INACTIVE | TIMER_STATE_ACTIVE | TIMER_STATE_PENDING
  | TIMER_STATE_EXECUTING

record timer_event =
  timelen :: u64
  tstate :: timer_event_state
  tdata :: u32

record timer_state =
  tlinks :: "(timer_cell, nat) links"
  events :: "nat \<Rightarrow> timer_event"
  next_timelen :: u64
  num_events :: u32
  clock_of :: clock
  ticks :: "u32 list"
  fired :: "nat list"

definition init_sw_timer :: "clock \<Rightarrow> (nat \<Rightarrow> timer_event) \<Rightarrow> (timer_cell, nat) links \<Rightarrow> timer_state" where
  "init_sw_timer c ev L =
     \<lparr>tlinks = link_init Active L, events = ev, next_timelen = TIMEVAL_MAX, num_events = 0,
      clock_of = c\<lparr>sw_timestamp := 0, abs_cycles_count := 0, cycles_count_new := 0, cycles_count_old := 0\<rparr>,
      ticks = [], fired = []\<rparr>"

definition set_event :: "nat \<Rightarrow> (timer_event \<Rightarrow> timer_event) \<Rightarrow> timer_state \<Rightarrow> timer_state" where
  "set_event e f st = st\<lparr>events := (events st)(e := f (events st e))\<rparr>"

text \<open>A new event for the address \<open>e\<close> the heap returns, \<open>None\<close> when it returns \<^verbatim>\<open>NULL\<close>.\<close>

definition timer_event_create :: "nat option \<Rightarrow> u32 \<Rightarrow> timer_state \<Rightarrow> timer_state \<times> nat option" where
  "timer_event_create new_event priv_data st =
     (case new_event of None \<Rightarrow> (st, None)
      | Some e \<Rightarrow>
          ((set_event e (\<lambda>_. \<lparr>timelen = TIMEVAL_MAX, tstate = TIMER_STATE_INACTIVE, tdata = priv_data\<rparr>) st)
             \<lparr>tlinks := link_init (Node e) (tlinks st)\<rparr>, Some e))"

text \<open>The result says whether the event's memory is given back.\<close>

definition timer_event_destroy :: "nat option \<Rightarrow> timer_state \<Rightarrow> unit sw_result" where
  "timer_event_destroy tevent st =
     (case tevent of None \<Rightarrow> Inl SW_EINVAL
      | Some e \<Rightarrow> if tstate (events st e) = TIMER_STATE_INACTIVE then Inr () else Inl SW_EBUSY)"

text \<open>The new event goes before the first one that expires strictly later.\<close>

definition timer_queue_add :: "nat \<Rightarrow> timer_state \<Rightarrow> timer_state option" where
  "timer_queue_add new st =
     (let L = tlinks st;
          later = (\<lambda>d. case d of Some t \<Rightarrow> timelen (events st new) <s timelen (events st t) | None \<Rightarrow> False)
      in do {
        pos \<leftarrow> (if link_empty L Active then Some None else link_find L later Active);
        L' \<leftarrow> add_link (case pos of Some c \<Rightarrow> c | None \<Rightarrow> Active) (Node new) TAIL
               (set_link_data (Node new) (Some new) L);
        Some (set_event new (\<lambda>ev. ev\<lparr>tstate := TIMER_STATE_ACTIVE\<rparr>) (st\<lparr>tlinks := L'\<rparr>))
      })"

definition timer_queue_del :: "nat \<Rightarrow> timer_state \<Rightarrow> timer_state option" where
  "timer_queue_del e st = do {
     L \<leftarrow> remove_link (Node e) (tlinks st);
     Some (set_event e (\<lambda>ev. ev\<lparr>tstate := TIMER_STATE_INACTIVE\<rparr>) (st\<lparr>tlinks := L\<rparr>))
   }"

definition timer_queue_getnext :: "timer_state \<Rightarrow> timer_cell option" where
  "timer_queue_getnext st =
     (if link_empty (tlinks st) Active then None else next_of (tlinks st) Active)"

definition read_now :: "timer_state \<Rightarrow> u64 \<times> timer_state" where
  "read_now st = (case read_timestamp (clock_of st) of (now, c) \<Rightarrow> (now, st\<lparr>clock_of := c\<rparr>))"

definition program_tick_for_event :: "u64 \<Rightarrow> timer_state \<Rightarrow> timer_state" where
  "program_tick_for_event timelen_time st =
     (case read_now st of (now, st1) \<Rightarrow>
        let till = subtract_time timelen_time now;
            clockcycles = (if sint (tv_sec till) < 0 \<or> sint (tv_nsec till) < 0 then 1
                           else timeval_to_clockcycles (period_us (clock_of st1)) till)
        in st1\<lparr>next_timelen := timelen_time, ticks := ticks st1 @ [tick_value clockcycles]\<rparr>)"

definition timer_event_start :: "nat option \<Rightarrow> u64 \<Rightarrow> timer_state \<Rightarrow> timer_state option" where
  "timer_event_start tevent time st =
     (case tevent of None \<Rightarrow> Some st
      | Some e \<Rightarrow>
          (case read_now st of (now, st1) \<Rightarrow>
             let st2 = set_event e (\<lambda>ev. ev\<lparr>timelen := add_time now time\<rparr>) st1 in do {
               st3 \<leftarrow> timer_queue_add e st2;
               Some (if timelen (events st3 e) <s next_timelen st3
                     then program_tick_for_event (timelen (events st3 e)) st3 else st3)
             }))"





definition is_timer_event_active :: "nat option \<Rightarrow> timer_state \<Rightarrow> bool" where
  "is_timer_event_active tevent st =
     (case tevent of None \<Rightarrow> False | Some e \<Rightarrow> tstate (events st e) = TIMER_STATE_ACTIVE)"

definition is_timer_event_waiting_on_callback :: "nat option \<Rightarrow> timer_state \<Rightarrow> bool" where
  "is_timer_event_waiting_on_callback tevent st =
     (case tevent of None \<Rightarrow> False | Some e \<Rightarrow> tstate (events st e) = TIMER_STATE_PENDING)"

definition timer_event_stop :: "nat option \<Rightarrow> timer_state \<Rightarrow> timer_state option" where
  "timer_event_stop tevent st =
     (if is_timer_event_waiting_on_callback tevent st then Some st
      else if is_timer_event_active tevent st
      then let e = the tevent; L = tlinks st in do {
        st1 \<leftarrow>
          (if timer_queue_getnext st = Some (Node e) \<and> timelen (events st e) = next_timelen st
           then do {
             nx \<leftarrow> next_of L (Node e);
             let next = (if nx = Active then TIMEVAL_MAX
                         else timelen (events st (the (data_of L nx))))
             in Some (if next \<noteq> next_timelen st then program_tick_for_event next st else st)
           }
           else Some st);
        timer_queue_del e st1
      }
      else Some st)"

section \<open>Time arithmetic\<close>

lemma unat_tv_nsec: "unat (tv_nsec v) = unat v mod 2 ^ 32"
  by (simp add: tv_nsec_def unsigned_ucast_eq take_bit_eq_mod)

lemma unat_tv_sec: "unat (tv_sec v) = unat v div 2 ^ 32"
proof -
  have "unat v div 2 ^ 32 < 2 ^ 32" using unat_u64_lt[of v] by simp
  then have "take_bit 32 (unat v div 2 ^ 32) = unat v div 2 ^ 32" by (rule take_bit_nat_eq_self)
  then show ?thesis by (simp add: tv_sec_def unsigned_ucast_eq unat_drop_bit)
qed

lemma unat_mk_tv: "unat (mk_tv n s) = unat s * 2 ^ 32 + unat n"
proof -
  have u: "unat (ucast s :: u64) = unat s" "unat (ucast n :: u64) = unat n"
    using unat_u32_lt[of s] unat_u32_lt[of n] by (simp_all add: unsigned_ucast_eq take_bit_nat_eq_self)
  have sh: "unat (push_bit 32 (ucast s :: u64)) = unat s * 2 ^ 32"
    using unat_u32_lt[of s] u by (subst unat_push_bit_small) auto
  have "push_bit 32 (ucast s) AND (ucast n :: u64) = 0"
    by (rule bit_word_eqI) (auto simp: bit_and_iff bit_push_bit_iff bit_unsigned_iff dest: bit_imp_le_length)
  then have "mk_tv n s = push_bit 32 (ucast s) + ucast n"
    unfolding mk_tv_def by (rule disjunctive_add_eq_or[symmetric])
  moreover have "unat (push_bit 32 (ucast s :: u64)) + unat (ucast n :: u64) < 2 ^ 64"
    using unat_u32_lt[of s] unat_u32_lt[of n] unfolding u sh by simp
  ultimately show ?thesis using u sh by (simp add: unat_add_small del: push_bit_of_nat)
qed



lemma sint_zero_iff: "sint (w :: u32) = 0 \<longleftrightarrow> unat w = 0"
  using sint_u32_cases[of w] unat_u32_lt[of w] unfolding uint_of_unat by linarith


definition tv_ns :: "u64 \<Rightarrow> nat" where
  "tv_ns v = unat (tv_sec v) * 1000000000 + unat (tv_nsec v)"


lemma tv_sel: "n < 4294967296 \<Longrightarrow> unat v = s * 4294967296 + n \<Longrightarrow> unat (tv_sec v) = s \<and> unat (tv_nsec v) = n"
  by (simp add: unat_tv_sec unat_tv_nsec)



lemma unat_mul1000: "unat x < 2 ^ 50 \<Longrightarrow> unat (mul1000 x) = 1000 * unat x"
proof -
  assume x: "unat x < 2 ^ 50"
  have p: "unat (push_bit 10 x) = unat x * 1024" "unat (push_bit 3 x) = unat x * 8"
    "unat (push_bit 5 x) = unat x * 32"
    using x by (subst unat_push_bit_small; simp)+
  have "unat (push_bit 10 x + push_bit 3 x) = unat x * 1032"
    using x p by (subst unat_add_small) auto
  then show ?thesis
    using p unfolding mul1000_def by (subst unat_sub_le) (auto simp: word_le_nat_alt)
qed

lemma unat_div1000:
  assumes "unat x < 2 ^ 50"
  shows "unat (div1000 x) = unat x div 1024 + 3 * (unat x div 1024) div 128 + 9 * (unat x div 1024) div 16384"
proof -
  let ?y = "drop_bit 10 x"
  have y: "unat ?y = unat x div 1024" by (simp add: unat_drop_bit)
  have y50: "unat ?y < 2 ^ 40" using assms y by simp
  have m: "unat (3 * ?y) = 3 * unat ?y" "unat (9 * ?y) = 9 * unat ?y"
    using y50 by (simp_all add: unat_word_ariths)
  have d: "unat (drop_bit 7 (3 * ?y)) = 3 * unat ?y div 128" "unat (drop_bit 14 (9 * ?y)) = 9 * unat ?y div 16384"
    by (simp_all only: unat_drop_bit m) simp_all
  have b: "3 * unat ?y div 128 < 2 ^ 40" "9 * unat ?y div 16384 < 2 ^ 40" using y50 by (auto simp: less_mult_imp_div_less)
  have s1: "unat (?y + drop_bit 7 (3 * ?y)) = unat ?y + 3 * unat ?y div 128"
    using y50 b d by (subst unat_add_small) auto
  have "unat (?y + drop_bit 7 (3 * ?y) + drop_bit 14 (9 * ?y)) = unat ?y + 3 * unat ?y div 128 + 9 * unat ?y div 16384"
    using y50 b d s1 by (subst unat_add_small) auto
  then show ?thesis by (simp add: div1000_def Let_def y)
qed

text \<open>The approximation of the number of seconds: never too large, and less than 4.3 seconds too
  small.\<close>

lemma seconds_bounds:
  fixes u :: nat
  defines "a \<equiv> u div 1024"
  defines "s \<equiv> a + 3 * a div 128 + 9 * a div 16384"
  defines "b \<equiv> s div 1024"
  defines "t \<equiv> b + 3 * b div 128 + 9 * b div 16384"
  assumes "u < 4294967296"
  shows "1000000 * t \<le> u" and "u - 1000000 * t < 4294967"
proof -
  define a3 a9 b3 b9 where "a3 = 3 * a div 128" and "a9 = 9 * a div 16384"
    and "b3 = 3 * b div 128" and "b9 = 9 * b div 16384"
  have A: "1024 * a \<le> u" "u < 1024 * a + 1024"
    "128 * a3 \<le> 3 * a" "3 * a < 128 * a3 + 128" "16384 * a9 \<le> 9 * a" "9 * a < 16384 * a9 + 16384"
    "1024 * b \<le> s" "s < 1024 * b + 1024"
    "128 * b3 \<le> 3 * b" "3 * b < 128 * b3 + 128" "16384 * b9 \<le> 9 * b" "9 * b < 16384 * b9 + 16384"
    unfolding a_def a3_def a9_def b_def b3_def b9_def by linarith+
  have s: "s = a + a3 + a9" and t: "t = b + b3 + b9"
    by (simp_all add: s_def a3_def a9_def t_def b3_def b9_def)
  have S: "16384 * s \<le> 16777 * a" "16777 * a \<le> 16384 * s + 32768" using A(3-6) unfolding s distrib_left by linarith+
  have T: "16384 * t \<le> 16777 * b" "16777 * b \<le> 16384 * t + 32768" using A(9-12) unfolding t distrib_left by linarith+
  show le: "1000000 * t \<le> u" using A(1,7) S(1) T(1) by linarith
  have "u < 1000000 * t + 4294967" using A(2,8) S(2) T(2) assms(5) by linarith
  then show "u - 1000000 * t < 4294967" using le by linarith
qed

text \<open>Read as unsigned words, seconds and nanoseconds add up to the microseconds.\<close>

lemma clockcycles_to_timeval_ns:
  "tv_ns (clockcycles_to_timeval period cycles) = 1000 * unat (cycles * period)"
proof -
  define u where "u = unat (cycles * period)"
  define w where "w = (ucast (cycles * period) :: u64)"
  define d where "d = div1000 (div1000 w)"
  have u32: "u < 4294967296" unfolding u_def by (rule unat_u32_lt)
  have w: "unat w = u" using u32 by (simp add: w_def u_def unsigned_ucast_eq take_bit_nat_eq_self)
  have s: "unat (div1000 w) = u div 1024 + 3 * (u div 1024) div 128 + 9 * (u div 1024) div 16384"
    using u32 w by (subst unat_div1000) auto
  have "u div 1024 < 2 ^ 22" using u32 by (simp add: less_mult_imp_div_less)
  then have "u div 1024 < 2 ^ 40" "3 * (u div 1024) div 128 < 2 ^ 40" "9 * (u div 1024) div 16384 < 2 ^ 40"
    by (auto simp: less_mult_imp_div_less)
  then have "unat (div1000 w) < 2 ^ 50" unfolding s by simp
  then have bounds: "1000000 * unat d \<le> u" "u - 1000000 * unat d < 4294967"
    using seconds_bounds[OF u32] unfolding d_def by (simp_all only: unat_div1000 s)
  have t32: "unat d < 4294967296" using bounds(1) u32 by linarith
  have m1: "unat (mul1000 d) = 1000 * unat d" using t32 by (intro unat_mul1000) simp
  have m: "unat (mul1000 (mul1000 d)) = 1000000 * unat d"
    using t32 m1 by (subst unat_mul1000) simp_all
  have us: "unat (w - mul1000 (mul1000 d)) = u - 1000000 * unat d"
    using bounds(1) m w by (subst unat_sub_le) (simp_all add: word_le_nat_alt)
  have ns: "unat (mul1000 (w - mul1000 (mul1000 d))) = 1000 * (u - 1000000 * unat d)"
    using bounds(2) us by (subst unat_mul1000) simp_all
  have c: "unat (ucast x :: u32) = unat x" if "unat (x :: u64) < 4294967296" for x
    using that by (simp add: unsigned_ucast_eq take_bit_nat_eq_self)
  let ?r = "clockcycles_to_timeval period cycles"
  have "?r = mk_tv (ucast (mul1000 (w - mul1000 (mul1000 d)))) (ucast d)"
    by (simp add: clockcycles_to_timeval_def Let_def w_def d_def)
  then have "unat ?r = unat d * 4294967296 + 1000 * (u - 1000000 * unat d)"
    using bounds(2) t32 ns by (simp add: unat_mk_tv c)
  then have "unat (tv_sec ?r) = unat d \<and> unat (tv_nsec ?r) = 1000 * (u - 1000000 * unat d)"
    using bounds(2) by (intro tv_sel) simp_all
  then show ?thesis using bounds(1) by (simp add: tv_ns_def u_def)
qed

text \<open>C26. The conversion of clock cycles to a time, although it divides by 1000 through approximating shifts:
  the seconds and nanoseconds, read as the signed fields they are, add up to the microseconds
  \<open>cycles * period\<close> (a 32-bit product, which wraps) whenever the nanoseconds are not negative; when they
  are, the time is short by exactly \<open>2 ^ 32\<close> nanoseconds.\<close>

theorem clockcycles_to_timeval_value:
  "sint (tv_sec (clockcycles_to_timeval period cycles)) * 1000000000 + sint (tv_nsec (clockcycles_to_timeval period cycles)) =
     1000 * uint (cycles * period) - (if sint (tv_nsec (clockcycles_to_timeval period cycles)) < 0 then 2 ^ 32 else 0)"
proof -
  let ?r = "clockcycles_to_timeval period cycles"
  have ns: "uint (tv_sec ?r) * 1000000000 + uint (tv_nsec ?r) = 1000 * uint (cycles * period)"
    using clockcycles_to_timeval_ns[of period cycles] unfolding tv_ns_def uint_of_unat by linarith
  have "uint (cycles * period) < 4294967296" using unsigned_less[of "cycles * period", where 'a = int] by simp
  then have "uint (tv_sec ?r) < 2147483648" using ns unsigned_greater_eq[of "tv_nsec ?r", where 'a = int] by linarith
  then have sec: "sint (tv_sec ?r) = uint (tv_sec ?r)" by (rule sint_u32_cases(1))
  show ?thesis
  proof (cases "uint (tv_nsec ?r) < 2147483648")
    case True
    then have "sint (tv_nsec ?r) = uint (tv_nsec ?r)" by (rule sint_u32_cases(1))
    then show ?thesis using ns sec unsigned_greater_eq[of "tv_nsec ?r", where 'a = int] by simp
  next
    case False
    then have "sint (tv_nsec ?r) = uint (tv_nsec ?r) - 4294967296" by (intro sint_u32_cases(2)) simp
    then show ?thesis using ns sec unsigned_less[of "tv_nsec ?r", where 'a = int] by simp
  qed
qed

lemma nanoseconds_sign_lost:
  "sint (tv_nsec (clockcycles_to_timeval 1 262148095)) < 0"
  "tv_nsec (clockcycles_to_timeval 1 1000000) = NANO_SECONDS_PER_SECOND"
  by code_simp+



section \<open>The timer queue\<close>

definition timer_rep :: "timer_state \<Rightarrow> nat list \<Rightarrow> bool" where
  "timer_rep st es \<longleftrightarrow>
     dlist (tlinks st) Active (map Node es) \<and> (\<forall>e\<in>set es. data_of (tlinks st) (Node e) = Some e)"

text \<open>Insertion behind all events that do not expire later.\<close>

fun insert_event :: "(nat \<Rightarrow> u64) \<Rightarrow> nat \<Rightarrow> nat list \<Rightarrow> nat list" where
  "insert_event len e [] = [e]"
| "insert_event len e (x # xs) = (if len e <s len x then e # x # xs else x # insert_event len e xs)"

definition by_expiry :: "(nat \<Rightarrow> u64) \<Rightarrow> nat list \<Rightarrow> bool" where
  "by_expiry len es \<longleftrightarrow> sorted (map (\<lambda>e. sint (len e)) es)"

lemma insert_event_set: "set (insert_event len e es) = insert e (set es)"
  by (induction es) auto

lemma insert_event_sorted: "by_expiry len es \<Longrightarrow> by_expiry len (insert_event len e es)"
  unfolding by_expiry_def
  by (induction es) (auto simp: insert_event_set word_sless_alt)

lemma insert_event_split:
  "List.find (\<lambda>x. len e <s len x) es = None \<Longrightarrow> insert_event len e es = es @ [e]"
  "List.find (\<lambda>x. len e <s len x) es = Some c \<Longrightarrow>
     \<exists>as bs. es = as @ c # bs \<and> insert_event len e es = as @ e # c # bs"
proof -
  show "List.find (\<lambda>x. len e <s len x) es = None \<Longrightarrow> insert_event len e es = es @ [e]"
    by (induction es) (auto split: if_splits)
  show "List.find (\<lambda>x. len e <s len x) es = Some c \<Longrightarrow>
     \<exists>as bs. es = as @ c # bs \<and> insert_event len e es = as @ e # c # bs"
  proof (induction es)
    case (Cons x es)
    show ?case
    proof (cases "len e <s len x")
      case True
      then show ?thesis using Cons.prems by (intro exI[of _ "[]"] exI[of _ es]) auto
    next
      case False
      then obtain as bs where "es = as @ c # bs" "insert_event len e es = as @ e # c # bs"
        using Cons by auto
      then show ?thesis using False by (intro exI[of _ "x # as"] exI[of _ bs]) simp
    qed
  qed simp
qed

lemma dlist_add_before:
  assumes "dlist L h (as @ c # bs)" and "x \<notin> set (h # as @ c # bs)"
  shows "\<exists>L'. add_link c x TAIL L = Some L' \<and> dlist L' h (as @ x # c # bs) \<and>
     same_outside (set (x # h # as @ c # bs)) L L'"
proof -
  obtain ys p where ys: "h # as = ys @ [p]" by (metis list.distinct(1) rev_exhaust)
  have path: "ys @ p # c # (bs @ [h]) = h # (as @ c # bs) @ [h]"
    using ys by (metis append.assoc append_Cons append_Nil)
  have path': "ys @ p # x # c # (bs @ [h]) = h # (as @ x # c # bs) @ [h]"
    using ys by (metis append.assoc append_Cons append_Nil)
  have d: "distinct (h # as @ c # bs)" and l: "linked L (ys @ p # c # (bs @ [h]))"
    using assms(1) unfolding path by (auto simp: dlist_def)
  have pm: "p \<in> set (h # as)" unfolding ys by simp
  have dys: "distinct (ys @ [p])" using d unfolding ys[symmetric] by auto
  have tl: "tl (ys @ [p]) = as" unfolding ys[symmetric] by simp
  have "x \<notin> set (ys @ p # c # (bs @ [h]))" using assms(2) unfolding path by auto
  then have "linked (link_between p x c L) (ys @ p # x # c # (bs @ [h]))"
    using l dys d pm tl by (intro linked_insert) (auto simp: butlast_append)
  then have "dlist (link_between p x c L) h (as @ x # c # bs)"
    using d assms(2) unfolding path' dlist_def by auto
  moreover have "prev_of L c = Some p" using linked_pair[OF l] by simp
  moreover have "same_outside (set (x # h # as @ c # bs)) L (link_between p x c L)"
    using pm by (auto simp: same_outside_def)
  ultimately show ?thesis by auto
qed

lemma timer_queue_add_rep:
  assumes "timer_rep st es" and "e \<notin> set es" and "by_expiry (\<lambda>x. timelen (events st x)) es"
  shows "\<exists>st'. timer_queue_add e st = Some st' \<and>
     timer_rep st' (insert_event (\<lambda>x. timelen (events st x)) e es) \<and>
     by_expiry (\<lambda>x. timelen (events st' x)) (insert_event (\<lambda>x. timelen (events st x)) e es) \<and>
     tstate (events st' e) = TIMER_STATE_ACTIVE \<and>
     st' = st\<lparr>tlinks := tlinks st', events := (events st)(e := (events st e)\<lparr>tstate := TIMER_STATE_ACTIVE\<rparr>)\<rparr>"
proof -
  let ?len = "\<lambda>x. timelen (events st x)"
  let ?later = "\<lambda>d. case d of Some t \<Rightarrow> ?len e <s ?len t | None \<Rightarrow> False"
  let ?L0 = "set_link_data (Node e) (Some e) (tlinks st)"
  have d: "dlist (tlinks st) Active (map Node es)" "dlist ?L0 Active (map Node es)"
    and data: "\<forall>x\<in>set es. data_of (tlinks st) (Node x) = Some x"
    using assms(1) by (auto simp: timer_rep_def)
  have f: "link_find (tlinks st) ?later Active = Some (map_option Node (List.find (\<lambda>x. ?len e <s ?len x) es))"
  proof -
    have "List.find (\<lambda>x. ?later (data_of (tlinks st) (Node x))) es = List.find (\<lambda>x. ?len e <s ?len x) es"
      using data by (induction es) auto
    then show ?thesis using dlist_find[OF d(1), of ?later] by (simp add: find_map)
  qed
  have empty: "link_empty (tlinks st) Active \<longleftrightarrow> es = []" using dlist_empty_iff[OF d(1)] by simp
  have new: "Node e \<notin> set (Active # map Node es)" using assms(2) by auto
  have "\<exists>L'. add_link (case map_option Node (List.find (\<lambda>x. ?len e <s ?len x) es) of Some c \<Rightarrow> c | None \<Rightarrow> Active)
       (Node e) TAIL ?L0 = Some L' \<and> dlist L' Active (map Node (insert_event ?len e es)) \<and>
       data_of L' = data_of ?L0"
  proof (cases "List.find (\<lambda>x. ?len e <s ?len x) es")
    case None
    then show ?thesis
      using dlist_add_TAIL[OF d(2) new] insert_event_split(1)[OF None] by (auto dest: same_outside_data)
  next
    case (Some c)
    obtain as bs where ab: "es = as @ c # bs" "insert_event ?len e es = as @ e # c # bs"
      using insert_event_split(2)[OF Some] by blast
    have "dlist ?L0 Active (map Node as @ Node c # map Node bs)" using d(2) ab(1) by simp
    from dlist_add_before[OF this, of "Node e"] new ab Some show ?thesis
      by (auto dest: same_outside_data)
  qed
  then obtain L' where L': "add_link (case map_option Node (List.find (\<lambda>x. ?len e <s ?len x) es) of Some c \<Rightarrow> c | None \<Rightarrow> Active)
       (Node e) TAIL ?L0 = Some L'" "dlist L' Active (map Node (insert_event ?len e es))"
       "data_of L' = (data_of (tlinks st))(Node e := Some e)" by auto
  let ?st' = "set_event e (\<lambda>ev. ev\<lparr>tstate := TIMER_STATE_ACTIVE\<rparr>) (st\<lparr>tlinks := L'\<rparr>)"
  have "timer_queue_add e st = Some ?st'"
    using f empty L'(1) by (cases "es = []") (simp_all add: timer_queue_add_def Let_def del: add_link.simps)
  moreover have "timer_rep ?st' (insert_event ?len e es)"
    using L'(2,3) data by (auto simp: timer_rep_def set_event_def insert_event_set)
  moreover have "(\<lambda>x. timelen (events ?st' x)) = ?len" by (auto simp: set_event_def)
  then have "by_expiry (\<lambda>x. timelen (events ?st' x)) (insert_event ?len e es)"
    using insert_event_sorted[OF assms(3), of e] by simp
  ultimately show ?thesis by (intro exI[of _ ?st']) (auto simp: set_event_def)
qed

text \<open>C24. \<^verbatim>\<open>timer_queue_add\<close> keeps the queue sorted by expiry and puts the event behind those with
  the same expiry; the event becomes active and nothing else changes.\<close>

theorem timer_queue_add_sorted:
  assumes "timer_rep st es" and "e \<notin> set es" and "by_expiry (\<lambda>x. timelen (events st x)) es"
  shows "\<exists>st'. timer_queue_add e st = Some st' \<and>
     timer_rep st' (insert_event (\<lambda>x. timelen (events st x)) e es) \<and>
     by_expiry (\<lambda>x. timelen (events st' x)) (insert_event (\<lambda>x. timelen (events st x)) e es) \<and>
     tstate (events st' e) = TIMER_STATE_ACTIVE \<and>
     st' = st\<lparr>tlinks := tlinks st', events := (events st)(e := (events st e)\<lparr>tstate := TIMER_STATE_ACTIVE\<rparr>)\<rparr>"
  using assms by (rule timer_queue_add_rep)

definition demo_clock :: clock where
  "demo_clock =
     \<lparr>period_us = 18, sw_timestamp = mk_tv 0 10, abs_cycles_count = 0, cycles_count_old = 0,
      cycles_count_new = 0, counter = (\<lambda>_. 0), readings = 0\<rparr>"

text \<open>One event that expires at second 5, and another that is not queued and expires at 20.\<close>

definition demo_timers :: timer_state where
  "demo_timers =
     \<lparr>tlinks = \<lparr>next_of = (\<lambda>_. None)(Active := Some (Node 1), Node 1 := Some Active),
                 prev_of = (\<lambda>_. None)(Active := Some (Node 1), Node 1 := Some Active),
                 data_of = (\<lambda>_. None)(Node 1 := Some 1)\<rparr>,
      events = (\<lambda>e. \<lparr>timelen = mk_tv 0 (if e = 1 then 5 else 20), tstate = TIMER_STATE_INACTIVE, tdata = 0\<rparr>),
      next_timelen = TIMEVAL_MAX, num_events = 0, clock_of = demo_clock, ticks = [], fired = []\<rparr>"

lemma demo_timers_rep: "timer_rep demo_timers [1]"
  by (simp add: timer_rep_def dlist_def demo_timers_def)

theorem timer_queue_add_sorted_witness:
  "\<exists>st'. timer_queue_add 2 demo_timers = Some st' \<and> timer_rep st' [1, 2]"
proof -
  have "by_expiry (\<lambda>x. timelen (events demo_timers x)) [1]" by (simp add: by_expiry_def)
  moreover have "\<not> mk_tv 0 20 <s mk_tv 0 5" by code_simp
  then have "insert_event (\<lambda>x. timelen (events demo_timers x)) 2 [1] = [1, 2]"
    by (simp add: demo_timers_def)
  ultimately show ?thesis using timer_queue_add_sorted[OF demo_timers_rep, of 2] by auto
qed

section \<open>The timer interrupt\<close>




lemma read_now_sels [simp]:
  "tlinks (snd (read_now st)) = tlinks st" "events (snd (read_now st)) = events st"
  "fired (snd (read_now st)) = fired st"
  "fst (read_now st) = fst (read_timestamp (clock_of st))"
  "clock_of (snd (read_now st)) = snd (read_timestamp (clock_of st))"
  by (simp_all add: read_now_def split: prod.splits)

lemma program_tick_sels [simp]:
  "tlinks (program_tick_for_event t st) = tlinks st" "fired (program_tick_for_event t st) = fired st"
  "events (program_tick_for_event t st) = events st"
  by (simp_all add: program_tick_for_event_def read_now_def Let_def split: prod.splits)

lemma set_event_sels [simp]:
  "tlinks (set_event e f st) = tlinks st" "clock_of (set_event e f st) = clock_of st"
  "fired (set_event e f st) = fired st"
  "timelen (events (set_event e f st) x) = (if x = e then timelen (f (events st e)) else timelen (events st x))"
  by (simp_all add: set_event_def)






text \<open>The interrupt forgets which tick it has programmed.  After it, starting an event that
  expires later than the one at the head of the queue programs the timer for the later event,
  so the earlier one is not served in time.\<close>

theorem timer_start_overrides_earlier_tick:
  assumes "timer_rep st (e # es)" and "new \<notin> set (e # es)"
    and "by_expiry (\<lambda>x. timelen (events st x)) (e # es)" and "next_timelen st = TIMEVAL_MAX"
    and "later = add_time (fst (read_timestamp (clock_of st))) time"
    and "timelen (events st e) <s later" and "later <s TIMEVAL_MAX"
  shows "\<exists>st' qs. timer_event_start (Some new) time st = Some st' \<and> timer_rep st' (e # qs) \<and>
     timelen (events st' e) <s later \<and> next_timelen st' = later"
proof -
  let ?st2 = "set_event new (\<lambda>ev. ev\<lparr>timelen := later\<rparr>) (snd (read_now st))"
  have ne: "e \<noteq> new" using assms(2) by auto
  have len: "timelen (events ?st2 x) = (if x = new then later else timelen (events st x))" for x
    by simp
  have "timer_rep ?st2 (e # es)" using assms(1) by (simp add: timer_rep_def)
  moreover have "by_expiry (\<lambda>x. timelen (events ?st2 x)) (e # es)"
  proof -
    have "map (\<lambda>x. sint (timelen (events ?st2 x))) (e # es) = map (\<lambda>x. sint (timelen (events st x))) (e # es)"
      using assms(2) by (intro map_cong) (auto simp: len)
    then show ?thesis using assms(3) unfolding by_expiry_def by (simp only:)
  qed
  ultimately obtain st3 where st3: "timer_queue_add new ?st2 = Some st3"
    "timer_rep st3 (insert_event (\<lambda>x. timelen (events ?st2 x)) new (e # es))"
    "st3 = ?st2\<lparr>tlinks := tlinks st3, events := (events ?st2)(new := (events ?st2 new)\<lparr>tstate := TIMER_STATE_ACTIVE\<rparr>)\<rparr>"
    using timer_queue_add_rep[of ?st2 "e # es" new] assms(2) by blast
  have "\<not> later <s timelen (events st e)" using assms(6) by (simp add: word_sless_alt)
  then have ins: "insert_event (\<lambda>x. timelen (events ?st2 x)) new (e # es) =
      e # insert_event (\<lambda>x. timelen (events ?st2 x)) new es"
    using ne by (simp add: len)
  have l3: "timelen (events st3 new) = later" "timelen (events st3 e) = timelen (events st e)"
    using ne by (subst st3(3); simp add: set_event_def)+
  have n3: "next_timelen st3 = TIMEVAL_MAX"
    using assms(4) by (subst st3(3)) (simp add: set_event_def read_now_def split: prod.splits)
  let ?st' = "program_tick_for_event later st3"
  have "timer_event_start (Some new) time st = Some ?st'"
    using st3(1) l3(1) n3 assms(5,7)
    by (simp add: timer_event_start_def read_now_def Let_def split: prod.splits)
  moreover have "timer_rep ?st' (e # insert_event (\<lambda>x. timelen (events ?st2 x)) new es)"
    using st3(2) unfolding ins by (simp add: timer_rep_def)
  moreover have "next_timelen ?st' = later"
    by (simp add: program_tick_for_event_def Let_def split: prod.splits)
  ultimately show ?thesis using l3(2) assms(6) by auto
qed

theorem timer_start_overrides_earlier_tick_witness:
  "\<exists>st' qs. timer_event_start (Some 2) (mk_tv 0 3) demo_timers = Some st' \<and> timer_rep st' (1 # qs) \<and>
     next_timelen st' = mk_tv 0 13"
proof -
  have "add_time (fst (read_timestamp (clock_of demo_timers))) (mk_tv 0 3) = mk_tv 0 13"
    by (simp add: demo_timers_def) code_simp
  moreover have "timelen (events demo_timers 1) <s mk_tv 0 13"
    by (simp add: demo_timers_def) code_simp
  moreover have "mk_tv 0 13 <s TIMEVAL_MAX" by code_simp
  moreover have "by_expiry (\<lambda>x. timelen (events demo_timers x)) [1]" by (simp add: by_expiry_def)
  moreover have "next_timelen demo_timers = TIMEVAL_MAX" by (simp add: demo_timers_def)
  ultimately show ?thesis
    using timer_start_overrides_earlier_tick[OF demo_timers_rep, of 2 "mk_tv 0 13" "mk_tv 0 3"] by auto
qed
end
