(* ===== verification/Task.thy ===== *)
theory Task
  imports Scheduler Page_Table
begin

text \<open>
  Creation and destruction of tasks, \<^verbatim>\<open>core/task.c\<close>, over the scheduler's lists, the page
  manager and the page table.  \<open>heap_env\<close> carries what the heap answers: the address of the new
  task structure (whose old contents are whatever the memory held) and the effect of creating
  and deleting a private heap.  Closing a device or file is recorded in a log.
\<close>

section \<open>State and configuration\<close>

record sa_config =
  cfg_guest_no :: u32
  cfg_service_uuid :: u32
  cfg_task_id :: u32
  cfg_service_name :: "u8 list"
  cfg_stack_size :: u32
  cfg_heap_size :: u32
  cfg_min_alloc_size :: u32
  cfg_mode :: task_mode
  cfg_entry_point :: u32
  cfg_elf_flag :: u32
  cfg_process :: u32
  cfg_data :: u32
  cfg_allow_multiple_instance :: u32
  cfg_gid :: u32

record tee = sw_global +
  pt :: pt_state
  exec_mode :: u32
  open_fds :: "tptr \<Rightarrow> u32 list"
  closed_fds :: "u32 list"
  freed :: "u32 list"

record heap_env =
  new_task_addr :: "tptr option"
  alloc_private_heap :: "u32 \<Rightarrow> u32 \<Rightarrow> u32 \<Rightarrow> pt_state \<Rightarrow> pt_state \<times> bool"
  free_task_heap :: "u32 \<Rightarrow> task_mode \<Rightarrow> pt_state \<Rightarrow> pt_state"

section \<open>Stacks\<close>

text \<open>The page manager's operations on the page-table state that contains it.\<close>

definition phy_alloc :: "u32 \<Rightarrow> pt_state \<Rightarrow> pt_state \<times> u32" where
  "phy_alloc sz st = (case sw_phy_page_alloc sz (pages_info st) of (i, pa) \<Rightarrow> (st\<lparr>pages_info := i\<rparr>, pa))"

definition vir_reserve :: "u32 \<Rightarrow> u32 \<Rightarrow> pt_state \<Rightarrow> pt_state \<times> unit sw_result" where
  "vir_reserve va sz st = (case sw_vir_addr_reserve va sz (pages_info st) of (i, r) \<Rightarrow> (st\<lparr>pages_info := i\<rparr>, r))"

definition vir_unreserve :: "u32 \<Rightarrow> u32 \<Rightarrow> pt_state \<Rightarrow> pt_state" where
  "vir_unreserve va sz st = st\<lparr>pages_info := fst (sw_vir_free_reserve va sz (pages_info st))\<rparr>"

definition phy_free :: "u32 \<Rightarrow> u32 \<Rightarrow> pt_state \<Rightarrow> pt_state" where
  "phy_free pa sz st = st\<lparr>pages_info := fst (sw_phy_addr_free pa sz (pages_info st))\<rparr>"

text \<open>The result is the stack's lowest address, 0 for \<^verbatim>\<open>NULL\<close>; the page below it is reserved and
  not mapped.\<close>

definition alloc_kernel_stack :: "pt_env \<Rightarrow> u32 \<Rightarrow> pt_state \<Rightarrow> (pt_state \<times> u32) option" where
  "alloc_kernel_stack env sz st =
     (let size' = page_align sz; new_size = size' + PAGE_SIZE in
      case phy_alloc new_size st of (st1, phy_addr) \<Rightarrow>
        if phy_addr = 0 then Some (st1, 0)
        else let vir_addr = phys_to_virt env phy_addr in
          case vir_reserve vir_addr new_size st1 of (st2, r) \<Rightarrow>
            if r \<noteq> Inr () then Some (phy_free phy_addr new_size st2, 0)
            else do {
              (st3, m) \<leftarrow> map_kernel_data_memory env (vir_addr + PAGE_SIZE) (phy_addr + PAGE_SIZE) size' st2;
              Some (if m = Inr () \<and> vir_addr + PAGE_SIZE \<noteq> 0 then (st3, vir_addr + PAGE_SIZE)
                    else (phy_free phy_addr new_size
                           (if vir_addr \<noteq> 0 then vir_unreserve vir_addr new_size st3 else st3), 0))
            })"

definition free_kernel_stack :: "pt_env \<Rightarrow> u32 \<Rightarrow> u32 \<Rightarrow> pt_state \<Rightarrow> pt_state option" where
  "free_kernel_stack env sp_ptr sz st =
     (let size' = page_align sz; new_size = size' + PAGE_SIZE;
          phy_addr = v2p env sp_ptr - PAGE_SIZE; vir_addr = sp_ptr - PAGE_SIZE in do {
        (st1, _) \<leftarrow> unmap_kernel_memory env sp_ptr size' st;
        Some (phy_free phy_addr new_size (vir_unreserve vir_addr new_size st1))
      })"

text \<open>For a user stack the mapped part is at the reserved range's start and the unmapped page
  above it.  The failure path frees from \<^verbatim>\<open>phy_addr + PAGE_SIZE\<close>, because \<^verbatim>\<open>phy_addr\<close> has been
  advanced by then.\<close>

definition alloc_user_stack :: "pt_env \<Rightarrow> sw_task \<Rightarrow> pt_state \<Rightarrow> (pt_state \<times> sw_task \<times> u32) option" where
  "alloc_user_stack env task st =
     (let size' = page_align (task_sp_size task); new_size = size' + PAGE_SIZE in
      case phy_alloc new_size st of (st1, phy_addr) \<Rightarrow>
        if phy_addr = 0 then Some (st1, task, 0)
        else let vir_addr = phys_to_virt env phy_addr in
          case vir_reserve vir_addr new_size st1 of (st2, r) \<Rightarrow>
            if r \<noteq> Inr () then Some (phy_free phy_addr new_size st2, task, 0)
            else
              let task' = task\<lparr>sp_phy_addr := phy_addr, sp_kern_addr := vir_addr\<rparr>;
                  phy_addr' = phy_addr + PAGE_SIZE
              in do {
                (st3, m) \<leftarrow> (if mode task = TASK_USER_MODE
                  then map_user_data_memory env vir_addr phy_addr' size' (secure_ptd env) st2
                  else map_user_memory env vir_addr phy_addr' size' PTF_PROT_KRW (secure_ptd env) st2);
                Some (if m = Inr () \<and> vir_addr \<noteq> 0 then (st3, task', vir_addr)
                      else (let st4 = (if vir_addr \<noteq> 0 then vir_unreserve vir_addr new_size st3 else st3)
                            in if phy_addr' \<noteq> 0 then phy_free phy_addr' new_size st4 else st4, task', 0))
              })"

definition free_user_stack :: "pt_env \<Rightarrow> sw_task \<Rightarrow> pt_state \<Rightarrow> pt_state option" where
  "free_user_stack env task st =
     (let size' = page_align (task_sp_size task); new_size = size' + PAGE_SIZE in do {
        (st1, _) \<leftarrow> unmap_user_memory env (task_sp task) size' (secure_ptd env) st;
        Some (phy_free (sp_phy_addr task) new_size (vir_unreserve (sp_kern_addr task) new_size st1))
      })"

section \<open>Task local storage\<close>

definition sw_alloc_tls :: "pt_env \<Rightarrow> sw_task \<Rightarrow> pt_state \<Rightarrow> pt_state \<times> sw_task \<times> u32" where
  "sw_alloc_tls env task st =
     (case phy_alloc PAGE_SIZE st of (st1, phy_addr) \<Rightarrow>
        if phy_addr = 0 then (st1, task, 0)
        else let vir_addr = phys_to_virt env phy_addr in
          case vir_reserve vir_addr PAGE_SIZE st1 of (st2, r) \<Rightarrow>
            if r \<noteq> Inr () then (st2, task, 0)
            else (st2, task\<lparr>tls_phy_addr := phy_addr\<rparr>, vir_addr))"

definition sw_free_tls :: "sw_task \<Rightarrow> pt_state \<Rightarrow> pt_state" where
  "sw_free_tls task st = phy_free (tls_phy_addr task) PAGE_SIZE (vir_unreserve (tls_addr task) PAGE_SIZE st)"

definition empty_tls :: sw_tls where
  "empty_tls =
     \<lparr>tls_params = [0, 0, 0, 0], tls_process = 0, tls_heap_size = 0, tls_min_alloc_size = 0,
      tls_task_id = 0, tls_private_data = 0, tls_ret_val = 0, tls_ipi_ret_val = 0\<rparr>"

definition sw_map_tls :: "pt_env \<Rightarrow> sw_task \<Rightarrow> pt_state \<Rightarrow> (pt_state \<times> sw_task \<times> unit sw_result) option" where
  "sw_map_tls env task st =
     (if secure_ptd env = 0 then Some (st, task, Inl SW_EINVAL)
      else do {
        (st1, r) \<leftarrow> (if mode task = TASK_USER_MODE
          then map_user_data_memory env (tls_addr task) (tls_phy_addr task) PAGE_SIZE (secure_ptd env) st
          else map_user_memory env (tls_addr task) (tls_phy_addr task) PAGE_SIZE PTF_PROT_KRW (secure_ptd env) st);
        Some (case r of Inl e \<Rightarrow> (st1, task, Inl e)
              | Inr _ \<Rightarrow> (st1, task\<lparr>tls := empty_tls\<rparr>, Inr ()))
      })"

definition sw_unmap_tls :: "pt_env \<Rightarrow> sw_task \<Rightarrow> pt_state \<Rightarrow> pt_state option" where
  "sw_unmap_tls env task st =
     (if secure_ptd env = 0 then Some st
      else map_option fst (unmap_user_memory env (tls_addr task) PAGE_SIZE (secure_ptd env) st))"

section \<open>Creating a task\<close>

definition set_task :: "tptr \<Rightarrow> sw_task \<Rightarrow> tee \<Rightarrow> tee" where
  "set_task t task g = g\<lparr>tasks := (tasks g)(t := task)\<rparr>"

text \<open>The error exit: everything that has been allocated goes back, the task structure as the last,
  and the identifier becomes free again.  \<open>task_sp\<close> is read even when it has not been assigned
  yet, i.e. from the old contents of the memory.\<close>

definition create_task_fail ::
    "pt_env \<Rightarrow> sa_config \<Rightarrow> bool \<Rightarrow> sw_error \<Rightarrow> tptr \<Rightarrow> sw_task \<Rightarrow> pt_state \<Rightarrow> tee \<Rightarrow>
     (tee \<times> u32 sw_result) option" where
  "create_task_fail env cfg map_tls err t task st g = do {
     st1 \<leftarrow> (if map_tls then sw_unmap_tls env task st else Some st);
     st2 \<leftarrow> (if task_sp task = 0 then Some st1
            else if mode task = TASK_KERN_MODE
            then free_kernel_stack env (task_sp task) (task_sp_size task) st1
            else free_user_stack env task st1);
     let st3 = (if tls_addr task \<noteq> 0 then sw_free_tls task st2 else st2);
         g1 = set_task t task (g\<lparr>pt := st3\<rparr>);
         g2 = g1\<lparr>freed := freed g1 @ (if cfg_data cfg \<noteq> 0 then [cfg_data cfg] else []) @ [of_nat t]\<rparr>
     in Some (g2\<lparr>task_id_pool := (task_id_pool g2)(ucast (cfg_task_id cfg) := 0)\<rparr>, Inl err)
   }"

text \<open>Linking the finished task into the task list.\<close>

definition create_task_link :: "sa_config \<Rightarrow> tptr \<Rightarrow> sw_task \<Rightarrow> pt_state \<Rightarrow> tee \<Rightarrow> (tee \<times> u32 sw_result) option" where
  "create_task_link cfg t task st g =
     (let L1 = link_init (Task_Wait_List t) (link_init (File_Dev_List t) (link_init (Wait_Link t)
                 (link_init (Ready_Link t) (link_init (Head_Link t) (links g)))));
          L2 = set_link_data (Head_Link t) (Some t) L1
      in do {
        L3 \<leftarrow> add_link Task_List (Head_Link t) TAIL L2;
        let task' = task\<lparr>state := TASK_STATE_SUSPEND, acl_uid := cfg_service_uuid cfg, acl_gid := cfg_gid cfg\<rparr>
        in Some (set_task t task' (g\<lparr>links := L3, pt := st, open_fds := (open_fds g)(t := [])\<rparr>),
                 Inr (task_id task'))
      })"

text \<open>The part after the local storage is mapped: the stack, the private heap of a kernel task, and
  the task list.\<close>

definition create_task_stack ::
    "pt_env \<Rightarrow> heap_env \<Rightarrow> sa_config \<Rightarrow> tptr \<Rightarrow> sw_task \<Rightarrow> pt_state \<Rightarrow> tee \<Rightarrow> (tee \<times> u32 sw_result) option" where
  "create_task_stack env heap cfg t task2 st2 g =
     (let task3 = task2\<lparr>tls := (tls task2)\<lparr>tls_private_data := cfg_data cfg,
            tls_process := cfg_process cfg, tls_heap_size := cfg_heap_size cfg,
            tls_min_alloc_size := cfg_min_alloc_size cfg, tls_task_id := task_id task2\<rparr>,
            task_sp_size := cfg_stack_size cfg, task_sp := 0\<rparr>
      in do {
        (st3, task4, sp) \<leftarrow> (if mode task3 = TASK_USER_MODE then alloc_user_stack env task3 st2
           else map_option (\<lambda>(s, a). (s, task3, a)) (alloc_kernel_stack env (cfg_stack_size cfg) st2));
        let task5 = task4\<lparr>task_sp := sp\<rparr> in
        if sp = 0 then create_task_fail env cfg True SW_ENOMEM t task5 st3 g
        else
          let hp = (if mode task5 = TASK_KERN_MODE
                    then alloc_private_heap heap (cfg_task_id cfg) (cfg_heap_size cfg)
                           (cfg_min_alloc_size cfg) st3
                    else (st3, True))
          in if \<not> snd hp then create_task_fail env cfg True SW_ENOMEM t task5 (fst hp) g
             else create_task_link cfg t task5 (fst hp) g
      })"

definition init_task :: "sa_config \<Rightarrow> sw_task \<Rightarrow> sw_task" where
  "init_task cfg task =
     task\<lparr>task_id := cfg_task_id cfg, service_id := cfg_service_uuid cfg,
          entry_addr := cfg_entry_point cfg, mode := cfg_mode cfg, guest_no := cfg_guest_no cfg,
          task_name := cfg_service_name cfg, elf_flag_of := cfg_elf_flag cfg\<rparr>"

text \<open>\<open>permitted\<close> is the answer of \<^verbatim>\<open>get_permission\<close>.\<close>

definition create_task ::
    "pt_env \<Rightarrow> heap_env \<Rightarrow> bool \<Rightarrow> sa_config \<Rightarrow> tee \<Rightarrow> (tee \<times> u32 sw_result) option" where
  "create_task env heap permitted cfg g =
     (if exec_mode g = 1 \<and> \<not> permitted then Some (g, Inl SW_EACCES)
      else do {
        multiple \<leftarrow> (if cfg_allow_multiple_instance cfg = 0
                     then check_multiple_instance (cfg_service_uuid cfg) g else Some False);
        if multiple then Some (g, Inl SW_EACCES)
        else case new_task_addr heap of
          None \<Rightarrow> Some (g, Inl SW_ENOMEM)
        | Some t \<Rightarrow>
            (case sw_alloc_tls env (init_task cfg (tasks g t)) (pt g) of (st1, task0, a) \<Rightarrow>
               let task1 = task0\<lparr>tls_addr := a\<rparr> in
               if a = 0 then create_task_fail env cfg False SW_ENOMEM t task1 st1 g
               else do {
                 (st2, task2, m) \<leftarrow> sw_map_tls env task1 st1;
                 case m of Inl e \<Rightarrow> create_task_fail env cfg False e t task2 st2 g
                 | Inr _ \<Rightarrow> create_task_stack env heap cfg t task2 st2 g
               })
      })"

section \<open>Destroying a task\<close>

text \<open>The loop that schedules the tasks waiting for this one: it starts at the list head, whose
  data is \<^verbatim>\<open>NULL\<close>, and ends at the first cell without data.  The state it sets is that of the
  task being destroyed.\<close>

partial_function (option) wake_waiters :: "tptr \<Rightarrow> cell \<Rightarrow> tee \<Rightarrow> tee option" where
  "wake_waiters task temp_link g =
     Option.bind
       (case data_of (links g) temp_link of
          None \<Rightarrow> Some g
        | Some w \<Rightarrow> schedule_task_next w (set_state task TASK_STATE_READY_TO_RUN g))
       (\<lambda>g1. if get_next_node (links g1) temp_link = None then Some g1
             else if data_of (links g1) (the (get_next_node (links g1) temp_link)) = None then Some g1
             else wake_waiters task (the (get_next_node (links g1) temp_link)) g1)"

declare wake_waiters.simps [code]

text \<open>Taking the task off the ready queue.\<close>

definition unqueue :: "u32 \<Rightarrow> tee \<Rightarrow> tee option" where
  "unqueue tid g =
     (if link_empty (links g) Ready_List then Some g
      else do {
        c \<leftarrow> link_find (links g) (has_task_id g tid) Ready_List;
        case c of None \<Rightarrow> Some g
        | Some l \<Rightarrow> do {
            r \<leftarrow> data_of (links g) l;
            L \<leftarrow> remove_link (Ready_Link r) (links g);
            Some (g\<lparr>links := set_link_data (Ready_Link r) None L\<rparr>)
          }
      })"

definition close_files :: "tptr \<Rightarrow> tee \<Rightarrow> tee" where
  "close_files t g =
     g\<lparr>closed_fds := closed_fds g @ filter (\<lambda>fd. fd \<noteq> - 1) (open_fds g t),
       open_fds := (open_fds g)(t := [])\<rparr>"

definition destroy_task :: "pt_env \<Rightarrow> heap_env \<Rightarrow> u32 \<Rightarrow> tee \<Rightarrow> (tee \<times> unit sw_result) option" where
  "destroy_task env heap tid g =
     (if link_empty (links g) Task_List then Some (g, Inl SW_EINVAL)
      else do {
        r \<leftarrow> find_task Task_List tid g;
        case r of None \<Rightarrow> Some (g, Inl SW_ENODATA)
        | Some t \<Rightarrow> do {
            g1 \<leftarrow> unqueue tid g;
            g2 \<leftarrow> (if link_empty (links g1) (Task_Wait_List t) then Some g1
                   else wake_waiters t (Task_Wait_List t) g1);
            let g3 = close_files t g2; task = tasks g3 t;
                st1 = free_task_heap heap tid (mode task) (pt g3)
            in do {
              st3 \<leftarrow> (if tls_addr task = 0 then Some st1
                     else map_option (sw_free_tls task) (sw_unmap_tls env task st1));
              st4 \<leftarrow> (if mode task = TASK_USER_MODE then free_user_stack env task st3
                     else free_kernel_stack env (task_sp task) (task_sp_size task) st3);
              L \<leftarrow> remove_link (Head_Link t) (links g3);
              Some (g3\<lparr>links := L, pt := st4, freed := freed g3 @ [of_nat t],
                       task_id_pool := (task_id_pool g3)(ucast tid := 0)\<rparr>, Inr ())
            }
          }
      })"


section \<open>The lists during creation and destruction\<close>

text \<open>The lists of waiting tasks: \<open>t\<close> has no waiter, or none of the lists has changed.\<close>

definition no_waiter :: "'a sw_global_scheme \<Rightarrow> tptr \<Rightarrow> bool" where
  "no_waiter g t \<longleftrightarrow>
     next_of (links g) (Task_Wait_List t) = Some (Task_Wait_List t) \<and>
     prev_of (links g) (Task_Wait_List t) = Some (Task_Wait_List t) \<and>
     data_of (links g) (Task_Wait_List t) = None"

definition same_waiters :: "tptr list \<Rightarrow> 'a sw_global_scheme \<Rightarrow> 'a sw_global_scheme \<Rightarrow> bool" where
  "same_waiters ts g g' \<longleftrightarrow> (\<forall>t\<in>set ts.
     next_of (links g') (Task_Wait_List t) = next_of (links g) (Task_Wait_List t) \<and>
     prev_of (links g') (Task_Wait_List t) = prev_of (links g) (Task_Wait_List t) \<and>
     data_of (links g') (Task_Wait_List t) = data_of (links g) (Task_Wait_List t))"

lemma sched_rep_links:
  "links g' = links g \<Longrightarrow> (\<And>u. u \<in> set ts \<Longrightarrow> task_id (tasks g' u) = task_id (tasks g u)) \<Longrightarrow>
     sched_rep g ts rs \<Longrightarrow> sched_rep g' ts rs"
  by (simp add: sched_rep_def cong: map_cong)

lemma create_task_fail_rep:
  assumes "create_task_fail env cfg m e t task st g = Some (g', r)" and "sched_rep g ts rs" and "t \<notin> set ts"
  shows "r = Inl e \<and> sched_rep g' ts rs \<and> links g' = links g \<and> (\<forall>u\<in>set ts. tasks g' u = tasks g u) \<and>
     task_id_pool g' = (task_id_pool g)(ucast (cfg_task_id cfg) := 0)"
proof -
  have *: "r = Inl e" "links g' = links g" "\<And>u. u \<noteq> t \<Longrightarrow> tasks g' u = tasks g u"
    "task_id_pool g' = (task_id_pool g)(ucast (cfg_task_id cfg) := 0)"
    using assms(1) by (auto simp: create_task_fail_def Let_def set_task_def bind_eq_Some_conv)
  moreover from this have "sched_rep g' ts rs"
    using assms(2,3) by (intro sched_rep_links[of g' g]) metis+
  moreover have "\<forall>u\<in>set ts. tasks g' u = tasks g u" using *(3) assms(3) by metis
  ultimately show ?thesis by blast
qed

lemma create_task_link_rep:
  assumes "sched_rep g ts rs" and "t \<notin> set ts"
    and "\<forall>u\<in>set ts. task_id (tasks g u) \<noteq> task_id task"
  shows "\<exists>g'. create_task_link cfg t task st g = Some (g', Inr (task_id task)) \<and> sched_rep g' (ts @ [t]) rs \<and>
     state (tasks g' t) = TASK_STATE_SUSPEND \<and> task_id (tasks g' t) = task_id task \<and>
     (\<forall>u\<in>set ts. tasks g' u = tasks g u) \<and> task_id_pool g' = task_id_pool g \<and>
     same_waiters ts g g' \<and> no_waiter g' t"
proof -
  let ?L1 = "link_init (Task_Wait_List t) (link_init (File_Dev_List t) (link_init (Wait_Link t)
                 (link_init (Ready_Link t) (link_init (Head_Link t) (links g)))))"
  let ?L2 = "set_link_data (Head_Link t) (Some t) ?L1"
  have rs: "set rs \<subseteq> set ts" and d: "dlist (links g) Task_List (map Head_Link ts)"
    "dlist (links g) Ready_List (map Ready_Link rs)" using assms(1) by (simp_all add: sched_rep_def)
  have "dlist ?L1 Task_List (map Head_Link ts)" using assms(2) d(1)
    by (subst dlist_frame[of _ _ ?L1 "links g"]) auto
  then have d1: "dlist ?L2 Task_List (map Head_Link ts)" by simp
  have "dlist ?L1 Ready_List (map Ready_Link rs)" using assms(2) d(2) rs
    by (subst dlist_frame[of _ _ ?L1 "links g"]) auto
  then have d2: "dlist ?L2 Ready_List (map Ready_Link rs)" by simp
  have new: "Head_Link t \<notin> set (Task_List # map Head_Link ts)" using assms(2) by auto
  obtain L3 where L3: "add_link Task_List (Head_Link t) TAIL ?L2 = Some L3"
    "dlist L3 Task_List (map Head_Link (ts @ [t]))"
    "same_outside (set (Head_Link t # Task_List # map Head_Link ts)) ?L2 L3"
    using dlist_add_TAIL[OF d1 new] by (auto simp del: add_link.simps)
  have r3: "dlist L3 Ready_List (map Ready_Link rs)"
    using same_outside_dlist[OF L3(3), of Ready_List "map Ready_Link rs"] d2 by auto
  have dat: "data_of L3 = data_of ?L2" using same_outside_data[OF L3(3)] .
  let ?task = "task\<lparr>state := TASK_STATE_SUSPEND, acl_uid := cfg_service_uuid cfg, acl_gid := cfg_gid cfg\<rparr>"
  let ?g = "set_task t ?task (g\<lparr>links := L3, pt := st, open_fds := (open_fds g)(t := [])\<rparr>)"
  have "create_task_link cfg t task st g = Some (?g, Inr (task_id task))"
    unfolding create_task_link_def Let_def L3(1) by simp
  moreover have "sched_rep ?g (ts @ [t]) rs"
    unfolding sched_rep_def
  proof (intro conjI)
    show "distinct (map (\<lambda>u. task_id (tasks ?g u)) (ts @ [t]))"
      using assms by (auto simp: sched_rep_def set_task_def distinct_map inj_on_def image_iff)
  qed (use L3(2) r3 dat rs assms(1,2) in \<open>auto simp: set_task_def sched_rep_def\<close>)
  moreover have "next_of L3 (Task_Wait_List u) = next_of ?L2 (Task_Wait_List u) \<and>
      prev_of L3 (Task_Wait_List u) = prev_of ?L2 (Task_Wait_List u)" for u
  proof -
    have "Task_Wait_List u \<notin> set (Head_Link t # Task_List # map Head_Link ts)" by auto
    then show ?thesis using L3(3) unfolding same_outside_def by blast
  qed
  then have "same_waiters ts g ?g" "no_waiter ?g t"
    using dat assms(2) by (auto simp: same_waiters_def no_waiter_def set_task_def)
  moreover have "\<forall>u\<in>set ts. tasks ?g u = tasks g u" using assms(2) by (auto simp: set_task_def)
  ultimately show ?thesis by (intro exI[of _ ?g]) (simp add: set_task_def)
qed

lemma sw_alloc_tls_id: "task_id (fst (snd (sw_alloc_tls env task st))) = task_id task"
  by (simp add: sw_alloc_tls_def Let_def split: prod.split)

lemma bind_SomeE:
  "Option.bind m f = Some p \<Longrightarrow> (\<And>x. m = Some x \<Longrightarrow> f x = Some p \<Longrightarrow> R) \<Longrightarrow> R"
  by (auto simp: bind_eq_Some_conv)

lemma sw_map_tls_id: "sw_map_tls env task st = Some (st', task', r) \<Longrightarrow> task_id task' = task_id task"
  unfolding sw_map_tls_def
  by (cases "secure_ptd env = 0") (auto elim!: bind_SomeE split: sum.split_asm)

lemma alloc_user_stack_id: "alloc_user_stack env task st = Some (st', task', a) \<Longrightarrow> task_id task' = task_id task"
  unfolding alloc_user_stack_def Let_def
  by (simp only: split: prod.split_asm if_split_asm) (auto elim!: bind_SomeE split: if_split_asm)

definition created :: "tee \<Rightarrow> u32 \<Rightarrow> tptr option \<Rightarrow> tptr list \<Rightarrow> tptr list \<Rightarrow> tee \<times> u32 sw_result \<Rightarrow> bool" where
  "created g i t ts rs = (\<lambda>(g', r).
     same_waiters ts g g' \<and> (\<forall>u\<in>set ts. tasks g' u = tasks g u) \<and>
     (case r of
       Inl e \<Rightarrow> sched_rep g' ts rs \<and>
         (task_id_pool g' = task_id_pool g \<or> task_id_pool g' = (task_id_pool g)(ucast i := 0))
     | Inr j \<Rightarrow> j = i \<and> t \<noteq> None \<and> sched_rep g' (ts @ [the t]) rs \<and>
         state (tasks g' (the t)) = TASK_STATE_SUSPEND \<and> task_id (tasks g' (the t)) = i \<and>
         no_waiter g' (the t) \<and> task_id_pool g' = task_id_pool g))"

lemma created_fail:
  "create_task_fail env cfg m e t task st g = Some p \<Longrightarrow> sched_rep g ts rs \<Longrightarrow> t \<notin> set ts \<Longrightarrow>
     created g (cfg_task_id cfg) (Some t) ts rs p"
  using create_task_fail_rep[of env cfg m e t task st g "fst p" "snd p" ts rs]
  by (cases p) (simp add: created_def same_waiters_def)

lemma created_link:
  "create_task_link cfg t task st g = Some p \<Longrightarrow> sched_rep g ts rs \<Longrightarrow> t \<notin> set ts \<Longrightarrow>
     \<forall>u\<in>set ts. task_id (tasks g u) \<noteq> task_id task \<Longrightarrow> created g (task_id task) (Some t) ts rs p"
  using create_task_link_rep[of g ts rs t task cfg st] by (auto simp: created_def)

lemma create_task_stack_created:
  assumes "create_task_stack env heap cfg t task2 st2 g = Some p" and "sched_rep g ts rs" and "t \<notin> set ts"
    and "\<forall>u\<in>set ts. task_id (tasks g u) \<noteq> task_id task2" and "task_id task2 = cfg_task_id cfg"
  shows "created g (task_id task2) (Some t) ts rs p"
proof -
  let ?task3 = "task2\<lparr>tls := (tls task2)\<lparr>tls_private_data := cfg_data cfg,
            tls_process := cfg_process cfg, tls_heap_size := cfg_heap_size cfg,
            tls_min_alloc_size := cfg_min_alloc_size cfg, tls_task_id := task_id task2\<rparr>,
            task_sp_size := cfg_stack_size cfg, task_sp := 0\<rparr>"
  obtain st3 task4 sp where st:
    "(if mode ?task3 = TASK_USER_MODE then alloc_user_stack env ?task3 st2
      else map_option (\<lambda>(s, a). (s, ?task3, a)) (alloc_kernel_stack env (cfg_stack_size cfg) st2)) = Some (st3, task4, sp)"
    and rest: "(let task5 = task4\<lparr>task_sp := sp\<rparr> in
        if sp = 0 then create_task_fail env cfg True SW_ENOMEM t task5 st3 g
        else
          let hp = (if mode task5 = TASK_KERN_MODE
                    then alloc_private_heap heap (cfg_task_id cfg) (cfg_heap_size cfg)
                           (cfg_min_alloc_size cfg) st3
                    else (st3, True))
          in if \<not> snd hp then create_task_fail env cfg True SW_ENOMEM t task5 (fst hp) g
             else create_task_link cfg t task5 (fst hp) g) = Some p"
    using assms(1)[unfolded create_task_stack_def Let_def[of ?task3]]
    by (elim bind_SomeE) (simp only: split_paired_all prod.case)
  have i: "task_id task4 = task_id task2"
    using st alloc_user_stack_id[of env ?task3 st2 st3 task4 sp] by (auto split: if_splits)
  show ?thesis
    using rest i assms(4) unfolding Let_def assms(5)
    by (simp only: split: if_split_asm)
      (auto intro: created_fail[OF _ assms(2,3)] dest: created_link[OF _ assms(2,3)])
qed

lemma create_task_created:
  assumes "create_task env heap permitted cfg g = Some p" and "sched_rep g ts rs"
    and "\<forall>t. new_task_addr heap = Some t \<longrightarrow> t \<notin> set ts"
    and "\<forall>u\<in>set ts. task_id (tasks g u) \<noteq> cfg_task_id cfg"
  shows "created g (cfg_task_id cfg) (new_task_addr heap) ts rs p"
proof (cases "exec_mode g = 1 \<and> \<not> permitted")
  case True
  then show ?thesis using assms by (auto simp: create_task_def created_def same_waiters_def)
next
  case False
  then obtain m where m: "(if m then Some (g, Inl SW_EACCES)
        else case new_task_addr heap of
          None \<Rightarrow> Some (g, Inl SW_ENOMEM)
        | Some t \<Rightarrow>
            (case sw_alloc_tls env (init_task cfg (tasks g t)) (pt g) of (st1, task0, a) \<Rightarrow>
               let task1 = task0\<lparr>tls_addr := a\<rparr> in
               if a = 0 then create_task_fail env cfg False SW_ENOMEM t task1 st1 g
               else Option.bind (sw_map_tls env task1 st1) (\<lambda>(st2, task2, m).
                 case m of Inl e \<Rightarrow> create_task_fail env cfg False e t task2 st2 g
                 | Inr _ \<Rightarrow> create_task_stack env heap cfg t task2 st2 g))) = Some p"
    using assms(1) unfolding create_task_def by (simp only: if_False) (elim bind_SomeE)
  show ?thesis
  proof (cases "m \<or> new_task_addr heap = None")
    case True
    then show ?thesis using m assms(2) by (auto simp: created_def same_waiters_def split: if_splits)
  next
    case ok: False
    then obtain t where t: "new_task_addr heap = Some t" "t \<notin> set ts" using assms(3) by auto
    obtain st1 task0 a where al: "sw_alloc_tls env (init_task cfg (tasks g t)) (pt g) = (st1, task0, a)"
      by (metis prod_cases3)
    have i: "task_id (task0\<lparr>tls_addr := a\<rparr>) = cfg_task_id cfg"
      using sw_alloc_tls_id[of env "init_task cfg (tasks g t)" "pt g"] al by (simp add: init_task_def)
    note fail = created_fail[OF _ assms(2) t(2), where cfg = cfg]
    show ?thesis
    proof (cases "a = 0")
      case True
      then show ?thesis using m ok t(1) al by (auto intro: fail)
    next
      case False
      then obtain st2 task2 r where r: "sw_map_tls env (task0\<lparr>tls_addr := a\<rparr>) st1 = Some (st2, task2, r)"
        "(case r of Inl e \<Rightarrow> create_task_fail env cfg False e t task2 st2 g
          | Inr _ \<Rightarrow> create_task_stack env heap cfg t task2 st2 g) = Some p"
        using m ok t(1) al by (auto elim!: bind_SomeE)
      then show ?thesis
        using sw_map_tls_id[OF r(1)] i t(1) assms(4)
          create_task_stack_created[OF _ assms(2) t(2), of env heap cfg task2 st2 p]
        by (auto intro: fail split: sum.split_asm)
    qed
  qed
qed



text \<open>C30. \<^verbatim>\<open>create_task\<close> either fails and leaves the task list and the ready queue as they were, or
  returns the identifier of the configuration with the new task, suspended, at the end of the
  task list.\<close>

theorem create_task_lists:
  assumes "create_task env heap permitted cfg g = Some p" and "sched_rep g ts rs"
    and "\<forall>t. new_task_addr heap = Some t \<longrightarrow> t \<notin> set ts"
    and "\<forall>u\<in>set ts. task_id (tasks g u) \<noteq> cfg_task_id cfg"
  shows "created g (cfg_task_id cfg) (new_task_addr heap) ts rs p"
  using assms by (rule create_task_created)

lemma enqueue_HEAD_frame:
  "enqueue HEAD w g = Some g' \<Longrightarrow> c \<noteq> Ready_List \<Longrightarrow> c \<noteq> Ready_Link w \<Longrightarrow>
     next_of (links g') c = next_of (links g) c \<and> data_of (links g') c = data_of (links g) c"
  by (auto simp: enqueue_def elim!: bind_SomeE split: option.split_asm)

lemma unqueue_rep:
  assumes "sched_rep g ts rs" and "lookup g ts tid = Some t"
  shows "\<exists>L. unqueue tid g = Some (g\<lparr>links := L\<rparr>) \<and> sched_rep (g\<lparr>links := L\<rparr>) ts (remove1 t rs) \<and>
     (\<forall>c. c \<noteq> Ready_List \<longrightarrow> c \<notin> range Ready_Link \<longrightarrow>
        next_of L c = next_of (links g) c \<and> prev_of L c = prev_of (links g) c \<and> data_of L c = data_of (links g) c)"
proof (cases "t \<in> set rs")
  case False
  have t: "t \<in> set ts" "task_id (tasks g t) = tid" using lookup_in[OF assms(2)] by auto
  then have "link_find (links g) (has_task_id g tid) Ready_List = Some None"
    using ready_find[OF assms(1) t(1)] False by auto
  then have "unqueue tid g = Some (g\<lparr>links := links g\<rparr>)" by (simp add: unqueue_def)
  then show ?thesis using assms(1) False by (intro exI[of _ "links g"]) (simp add: remove1_idem)
next
  case True
  have t: "t \<in> set ts" "task_id (tasks g t) = tid" using lookup_in[OF assms(2)] by auto
  have d: "dlist (links g) Ready_List (map Ready_Link rs)" "\<forall>s\<in>set rs. data_of (links g) (Ready_Link s) = Some s"
    using assms(1) by (auto simp: sched_rep_def)
  have ne: "\<not> link_empty (links g) Ready_List" using dlist_empty_iff[OF d(1)] True by auto
  have dist: "distinct rs" using d(1) by (auto simp: dlist_def distinct_map)
  have "s = t" if "s \<in> set rs" "task_id (tasks g s) = tid" for s
    using that t assms(1) by (auto simp: sched_rep_def distinct_map dest: inj_onD)
  then have "List.find (\<lambda>s. task_id (tasks g s) = tid) rs = Some t"
    using True t(2) find_in[of "\<lambda>s. task_id (tasks g s) = tid" rs] find_None[of "\<lambda>s. task_id (tasks g s) = tid" rs]
    by (metis option.exhaust)
  then have f: "link_find (links g) (has_task_id g tid) Ready_List = Some (Some (Ready_Link t))"
    using link_find_ids[OF d, of g tid] by simp
  obtain L where L: "remove_link (Ready_Link t) (links g) = Some L"
    "dlist L Ready_List (remove1 (Ready_Link t) (map Ready_Link rs))"
    "same_outside (set (Ready_List # map Ready_Link rs)) (links g) L"
    using dlist_remove[OF d(1), of "Ready_Link t"] True by auto
  let ?L = "set_link_data (Ready_Link t) None L"
  have "remove1 (Ready_Link t) (map Ready_Link rs) = map Ready_Link (remove1 t rs)"
    by (induction rs) auto
  then have r: "dlist ?L Ready_List (map Ready_Link (remove1 t rs))" using L(2) by simp
  have "dlist L Task_List (map Head_Link ts)"
    using same_outside_dlist[OF L(3), of Task_List "map Head_Link ts"] assms(1) by (auto simp: sched_rep_def)
  then have "sched_rep (g\<lparr>links := ?L\<rparr>) ts (remove1 t rs)"
    using r assms(1) dist same_outside_data[OF L(3)] by (auto simp: sched_rep_def dest: notin_set_remove1)
  moreover have "unqueue tid g = Some (g\<lparr>links := ?L\<rparr>)"
    using ne f d(2) True L(1) by (simp add: unqueue_def)
  ultimately show ?thesis using L(3) by (intro exI[of _ ?L]) (auto simp: same_outside_def)
qed

text \<open>The task waiting for \<open>t\<close>, if there is one: a task has room for one waiter, its own
  \<^verbatim>\<open>wait_head\<close>.\<close>

definition waiter_is :: "'a sw_global_scheme \<Rightarrow> tptr \<Rightarrow> tptr option \<Rightarrow> bool" where
  "waiter_is g t w \<longleftrightarrow>
     data_of (links g) (Task_Wait_List t) = None \<and>
     (case w of None \<Rightarrow> dlist (links g) (Task_Wait_List t) []
      | Some u \<Rightarrow> dlist (links g) (Task_Wait_List t) [Wait_Link t] \<and> data_of (links g) (Wait_Link t) = Some u)"

lemma wake_one:
  assumes "sched_rep g ts rs" and "waiter_is g t (Some w)" and "w \<in> set ts" and "w \<notin> set rs"
  shows "\<exists>L. wake_waiters t (Task_Wait_List t) g = Some (set_state t TASK_STATE_READY_TO_RUN g\<lparr>links := L\<rparr>) \<and>
     sched_rep (g\<lparr>links := L\<rparr>) ts (w # rs)"
proof -
  let ?g = "set_state t TASK_STATE_READY_TO_RUN g"
  have "sched_rep ?g ts rs" using assms(1) by simp
  from enqueue_rep[OF this assms(3,4), of HEAD] obtain L where
    L: "enqueue HEAD w ?g = Some (?g\<lparr>links := L\<rparr>)" "sched_rep (?g\<lparr>links := L\<rparr>) ts (w # rs)" by auto
  have frame: "next_of L c = next_of (links g) c \<and> data_of L c = data_of (links g) c"
    if "c \<noteq> Ready_List" "c \<noteq> Ready_Link w" for c
    using enqueue_HEAD_frame[OF L(1) that] by (simp add: set_state_def)
  have n: "next_of (links g) (Task_Wait_List t) = Some (Wait_Link t)"
    "next_of (links g) (Wait_Link t) = Some (Task_Wait_List t)"
    "data_of (links g) (Task_Wait_List t) = None" "data_of (links g) (Wait_Link t) = Some w"
    using assms(2) by (auto simp: waiter_is_def dlist_def)
  have "wake_waiters t (Wait_Link t) g = Some (?g\<lparr>links := L\<rparr>)"
    using n L(1) frame[of "Wait_Link t"] frame[of "Task_Wait_List t"]
    by (subst wake_waiters.simps) (simp add: schedule_task_next_def get_next_node_def)
  then have "wake_waiters t (Task_Wait_List t) g = Some (?g\<lparr>links := L\<rparr>)"
    using n by (subst wake_waiters.simps) (simp add: get_next_node_def)
  moreover have "sched_rep (g\<lparr>links := L\<rparr>) ts (w # rs)"
    using L(2) by (subst sched_rep_cong[of _ "?g\<lparr>links := L\<rparr>"]) (auto simp: set_state_def)
  ultimately show ?thesis by blast
qed

lemma release_returns:
  "\<exists>st'. sw_unmap_tls env task st = Some st'" "\<exists>st'. free_user_stack env task st = Some st'"
  "\<exists>st'. free_kernel_stack env sp sz st = Some st'"
proof -
  have u: "\<exists>st' r. unmap_user_memory env va n pgd s = Some (st', r)" for va n pgd s
    by (rule unmap_user_memory_total)
  show "\<exists>st'. sw_unmap_tls env task st = Some st'"
    using u[of "tls_addr task" PAGE_SIZE "secure_ptd env" st] by (auto simp: sw_unmap_tls_def)
  show "\<exists>st'. free_user_stack env task st = Some st'"
    using u[of "task_sp task" "page_align (task_sp_size task)" "secure_ptd env" st]
    by (auto simp: free_user_stack_def Let_def)
  show "\<exists>st'. free_kernel_stack env sp sz st = Some st'"
    using u[of sp "page_align sz" "secure_ptd env" st]
    by (auto simp: free_kernel_stack_def Let_def unmap_kernel_memory_def unmap_secure_memory_def)
qed

lemma remove_task_rep:
  assumes "sched_rep g ts rs" and "t \<in> set ts" and "t \<notin> set rs"
  shows "\<exists>L. remove_link (Head_Link t) (links g) = Some L \<and> sched_rep (g\<lparr>links := L\<rparr>) (remove1 t ts) rs \<and>
     same_outside (set (Task_List # map Head_Link ts)) (links g) L"
proof -
  have d: "dlist (links g) Task_List (map Head_Link ts)" "dlist (links g) Ready_List (map Ready_Link rs)"
    using assms(1) by (simp_all add: sched_rep_def)
  obtain L where L: "remove_link (Head_Link t) (links g) = Some L"
    "dlist L Task_List (remove1 (Head_Link t) (map Head_Link ts))"
    "same_outside (set (Task_List # map Head_Link ts)) (links g) L"
    using dlist_remove[OF d(1), of "Head_Link t"] assms(2) by auto
  have "remove1 (Head_Link t) (map Head_Link ts) = map Head_Link (remove1 t ts)" by (induction ts) auto
  moreover have "dlist L Ready_List (map Ready_Link rs)"
    using same_outside_dlist[OF L(3), of Ready_List "map Ready_Link rs"] d(2) by auto
  moreover have "distinct (map f (remove1 t ts))" if "distinct (map f ts)" for f :: "tptr \<Rightarrow> u32"
    using that by (induction ts) (auto dest!: subsetD[OF set_remove1_subset])
  moreover have "set rs \<subseteq> set (remove1 t ts)"
    using assms by (auto simp: sched_rep_def) (metis in_set_remove1 subsetD)
  ultimately have "sched_rep (g\<lparr>links := L\<rparr>) (remove1 t ts) rs"
    using L(2) assms(1) same_outside_data[OF L(3)] by (auto simp: sched_rep_def dest: notin_set_remove1)
  then show ?thesis using L(1,3) by blast
qed

lemma wake_any:
  assumes "sched_rep g ts rs" and "waiter_is g t w"
    and "\<And>u. w = Some u \<Longrightarrow> u \<in> set ts \<and> u \<notin> set rs"
  shows "\<exists>g'. (if link_empty (links g) (Task_Wait_List t) then Some g
       else wake_waiters t (Task_Wait_List t) g) = Some g' \<and>
     sched_rep g' ts (case w of None \<Rightarrow> rs | Some u \<Rightarrow> u # rs) \<and> task_id_pool g' = task_id_pool g"
proof (cases w)
  case None
  then have "link_empty (links g) (Task_Wait_List t)"
    using assms(2) dlist_empty_iff[of "links g" "Task_Wait_List t" "[]"] by (simp add: waiter_is_def)
  then show ?thesis using None assms(1) by simp
next
  case (Some u)
  then have "\<not> link_empty (links g) (Task_Wait_List t)"
    using assms(2) dlist_empty_iff[of "links g" "Task_Wait_List t" "[Wait_Link t]"] by (simp add: waiter_is_def)
  moreover obtain L where L: "wake_waiters t (Task_Wait_List t) g = Some (set_state t TASK_STATE_READY_TO_RUN g\<lparr>links := L\<rparr>)"
    "sched_rep (g\<lparr>links := L\<rparr>) ts (u # rs)"
    using wake_one[OF assms(1)] assms(2,3) Some by blast
  moreover have "sched_rep (set_state t TASK_STATE_READY_TO_RUN g\<lparr>links := L\<rparr>) ts (u # rs)"
    using L(2) by (subst sched_rep_cong[of _ "g\<lparr>links := L\<rparr>"]) (auto simp: set_state_def)
  ultimately show ?thesis using Some by (simp add: set_state_def)
qed

lemma destroy_task_rep:
  assumes "sched_rep g ts rs" and "lookup g ts tid = Some t" and "waiter_is g t w"
    and "\<forall>u. w = Some u \<longrightarrow> u \<in> set ts \<and> u \<notin> set rs \<and> u \<noteq> t"
  shows "\<exists>g'. destroy_task env heap tid g = Some (g', Inr ()) \<and>
     sched_rep g' (remove1 t ts) (case w of None \<Rightarrow> remove1 t rs | Some u \<Rightarrow> u # remove1 t rs) \<and>
     task_id_pool g' (ucast tid) = 0"
proof -
  let ?rs = "case w of None \<Rightarrow> remove1 t rs | Some u \<Rightarrow> u # remove1 t rs"
  have t: "t \<in> set ts" using lookup_in[OF assms(2)] by simp
  have "\<not> link_empty (links g) Task_List"
    using t assms(1) dlist_empty_iff[of "links g" Task_List "map Head_Link ts"] by (auto simp: sched_rep_def)
  moreover have "find_task Task_List tid g = Some (Some t)" using find_task_rep[OF assms(1)] assms(2) by simp
  moreover obtain L where L: "unqueue tid g = Some (g\<lparr>links := L\<rparr>)"
    "sched_rep (g\<lparr>links := L\<rparr>) ts (remove1 t rs)"
    "\<forall>c. c \<noteq> Ready_List \<longrightarrow> c \<notin> range Ready_Link \<longrightarrow>
        next_of L c = next_of (links g) c \<and> prev_of L c = prev_of (links g) c \<and> data_of L c = data_of (links g) c"
    using unqueue_rep[OF assms(1,2)] by blast
  let ?g1 = "g\<lparr>links := L\<rparr>"
  have "dlist L (Task_Wait_List t) xs = dlist (links g) (Task_Wait_List t) xs" if "set xs \<subseteq> {Wait_Link t}" for xs
    using L(3) that by (intro dlist_frame) auto
  then have w1: "waiter_is ?g1 t w"
    using assms(3) L(3) by (auto simp: waiter_is_def image_iff split: option.splits)
  obtain g2 where g2: "(if link_empty (links ?g1) (Task_Wait_List t) then Some ?g1
       else wake_waiters t (Task_Wait_List t) ?g1) = Some g2" "sched_rep g2 ts ?rs"
    using wake_any[OF L(2) w1] assms(4) by (metis notin_set_remove1)
  let ?g3 = "close_files t g2"
  let ?task = "tasks ?g3 t"
  let ?st1 = "free_task_heap heap tid (mode ?task) (pt ?g3)"
  have s3: "sched_rep ?g3 ts ?rs"
    using g2(2) by (subst sched_rep_cong[of _ g2]) (auto simp: close_files_def)
  obtain st3 where st3: "(if tls_addr ?task = 0 then Some ?st1
      else map_option (sw_free_tls ?task) (sw_unmap_tls env ?task ?st1)) = Some st3"
    using release_returns(1)[of env ?task ?st1] by (cases "tls_addr ?task = 0") auto
  obtain st4 where st4: "(if mode ?task = TASK_USER_MODE then free_user_stack env ?task st3
      else free_kernel_stack env (task_sp ?task) (task_sp_size ?task) st3) = Some st4"
    using release_returns(2)[of env ?task st3] release_returns(3)[of env "task_sp ?task" "task_sp_size ?task" st3]
    by (cases "mode ?task = TASK_USER_MODE") auto
  have "distinct rs" using assms(1) by (auto simp: sched_rep_def dlist_def distinct_map)
  then have "t \<notin> set ?rs" using assms(4) by (auto split: option.splits)
  from remove_task_rep[OF s3 t this] obtain L' where
    L': "remove_link (Head_Link t) (links ?g3) = Some L'" "sched_rep (?g3\<lparr>links := L'\<rparr>) (remove1 t ts) ?rs" by blast
  let ?g' = "?g3\<lparr>links := L', pt := st4, freed := freed ?g3 @ [of_nat t],
                 task_id_pool := (task_id_pool ?g3)(ucast tid := 0)\<rparr>"
  have "sched_rep ?g' (remove1 t ts) ?rs"
    using L'(2) by (subst sched_rep_cong[of _ "?g3\<lparr>links := L'\<rparr>"]) auto
  moreover have "destroy_task env heap tid g = Some (?g', Inr ())"
    unfolding destroy_task_def Let_def
    using calculation L(1) g2(1) st3 st4 L'(1) by (simp only: if_False bind.bind_lunit option.case)
  ultimately show ?thesis by (intro exI[of _ ?g']) simp
qed

text \<open>C29. \<^verbatim>\<open>destroy_task\<close> returns, whatever the state of the page tables, takes the task off the task
  list and the ready queue, puts a task that waited for it at the front of the ready queue and
  frees the identifier.\<close>

theorem destroy_task_removes:
  assumes "sched_rep g ts rs" and "lookup g ts tid = Some t" and "waiter_is g t w"
    and "\<forall>u. w = Some u \<longrightarrow> u \<in> set ts \<and> u \<notin> set rs \<and> u \<noteq> t"
  shows "\<exists>g'. destroy_task env heap tid g = Some (g', Inr ()) \<and>
     sched_rep g' (remove1 t ts) (case w of None \<Rightarrow> remove1 t rs | Some u \<Rightarrow> u # remove1 t rs) \<and>
     task_id_pool g' (ucast tid) = 0"
  using assms by (rule destroy_task_rep)

lemma wake_waiters_loop:
  assumes "next_of (links g) (Wait_Link t) = Some (Wait_Link t)" and "data_of (links g) (Wait_Link t) \<noteq> None"
  shows "wake_waiters t (Wait_Link t) g = None"
proof (rule ccontr)
  assume "wake_waiters t (Wait_Link t) g \<noteq> None"
  then obtain r where r: "wake_waiters t (Wait_Link t) g = Some r" by blast
  have "(\<lambda>((t, l), g) r. l = Wait_Link t \<longrightarrow> next_of (links g) l = Some l \<longrightarrow> data_of (links g) l = None)
      ((t, Wait_Link t), g) r"
    using r
  proof (rule wake_waiters.raw_induct[rotated], goal_cases)
    case (1 wake t l g r)
    show ?case
    proof (clarsimp, rule ccontr)
      assume l: "l = Wait_Link t" "next_of (links g) (Wait_Link t) = Some (Wait_Link t)"
        "data_of (links g) (Wait_Link t) \<noteq> None"
      then obtain w where w: "data_of (links g) (Wait_Link t) = Some w" by blast
      from 1(2) l w obtain g1 where g1: "schedule_task_next w (set_state t TASK_STATE_READY_TO_RUN g) = Some g1"
        and rest: "(if get_next_node (links g1) l = None then Some g1
             else if data_of (links g1) (the (get_next_node (links g1) l)) = None then Some g1
             else wake t (the (get_next_node (links g1) l)) g1) = Some r"
        by (auto elim!: bind_SomeE)
      have "next_of (links g1) (Wait_Link t) = next_of (links g) (Wait_Link t) \<and>
          data_of (links g1) (Wait_Link t) = data_of (links g) (Wait_Link t)"
        using enqueue_HEAD_frame[OF g1[unfolded schedule_task_next_def], of "Wait_Link t"] by (simp add: set_state_def)
      then show False using 1(1)[of t l g1 r] rest l w by (simp add: get_next_node_def)
    qed
  qed
  then show False using assms by simp
qed

text \<open>A task keeps its waiters on a list through one cell of its own, so it has room for one
  only: after a second task has been added to its wait list, the list is circular without its
  head and \<^verbatim>\<open>destroy_task\<close> never returns.\<close>

theorem destroy_task_two_waiters_hangs:
  assumes "sched_rep g ts rs" and "lookup g ts tid = Some t" and "waiter_is g t None"
  shows "\<exists>g1 g2. add_to_wait_list (Some t) (Some u) g = Some g1 \<and>
     add_to_wait_list (Some t) (Some v) g1 = Some g2 \<and> destroy_task env heap tid g2 = None"
proof -
  let ?h = "Task_Wait_List t" and ?c = "Wait_Link t"
  let ?L1 = "link_between ?h ?c ?h (set_link_data ?c (Some u) (links g))"
  let ?L2 = "link_between ?h ?c ?c (set_link_data ?c (Some v) ?L1)"
  let ?g1 = "g\<lparr>links := ?L1\<rparr>" and ?g2 = "g\<lparr>links := ?L2\<rparr>"
  have h: "next_of (links g) ?h = Some ?h" using assms(3) by (simp add: waiter_is_def dlist_def)
  have add: "add_to_wait_list (Some t) (Some u) g = Some ?g1" "add_to_wait_list (Some t) (Some v) ?g1 = Some ?g2"
    using h by (simp_all add: add_to_wait_list_def)
  have "dlist ?L2 Task_List (map Head_Link ts) = dlist (links g) Task_List (map Head_Link ts)"
    "dlist ?L2 Ready_List (map Ready_Link rs) = dlist (links g) Ready_List (map Ready_Link rs)"
    by (rule dlist_frame; auto)+
  then have rep: "sched_rep ?g2 ts rs" using assms(1) by (auto simp: sched_rep_def)
  have lk: "lookup ?g2 ts tid = Some t" using assms(2) by (simp add: lookup_def)
  have t: "t \<in> set ts" using lookup_in[OF assms(2)] by simp
  have "\<not> link_empty (links ?g2) Task_List"
    using t rep dlist_empty_iff[of "links ?g2" Task_List "map Head_Link ts"] by (auto simp: sched_rep_def)
  moreover have "find_task Task_List tid ?g2 = Some (Some t)" using find_task_rep[OF rep] lk by simp
  moreover obtain L where L: "unqueue tid ?g2 = Some (?g2\<lparr>links := L\<rparr>)"
    "\<forall>c. c \<noteq> Ready_List \<longrightarrow> c \<notin> range Ready_Link \<longrightarrow>
        next_of L c = next_of (links ?g2) c \<and> prev_of L c = prev_of (links ?g2) c \<and>
        data_of L c = data_of (links ?g2) c"
    using unqueue_rep[OF rep lk] by blast
  let ?g3 = "?g2\<lparr>links := L\<rparr>"
  have c: "next_of L ?h = Some ?c" "next_of L ?c = Some ?c" "data_of L ?c = Some v" "data_of L ?h = None"
    using L(2) assms(3) by (auto simp: waiter_is_def image_iff)
  have "wake_waiters t ?c ?g3 = None" by (rule wake_waiters_loop) (simp_all add: c)
  then have "wake_waiters t ?h ?g3 = None"
    using c by (subst wake_waiters.simps) (simp add: get_next_node_def)
  moreover have "\<not> link_empty (links ?g3) ?h" using c by (simp add: link_empty_def)
  ultimately have "destroy_task env heap tid ?g2 = None"
    unfolding destroy_task_def Let_def L(1) by simp
  then show ?thesis using add by blast
qed

section \<open>A concrete state\<close>

text \<open>The three tasks of \<open>demo_global\<close>; all first-level entries are sections, so no second-level
  table is touched.\<close>

definition demo_tee :: tee where
  "demo_tee =
     \<lparr>links = link_init (Task_Wait_List 2) (links demo_global), tasks = tasks demo_global,
      current_task_id = 17, task_id_pool = (\<lambda>_. 1), switches = [],
      pt = demo_pt\<lparr>mem := (\<lambda>_. 2)\<rparr>, exec_mode = 0, open_fds = (\<lambda>_. []), closed_fds = [], freed = []\<rparr>"

definition demo_heap :: heap_env where
  "demo_heap =
     \<lparr>new_task_addr = Some 4, alloc_private_heap = (\<lambda>_ _ _ st. (st, True)), free_task_heap = (\<lambda>_ _ st. st)\<rparr>"

lemma demo_tee_rep: "sched_rep demo_tee [1, 2, 3] [2, 3]" "waiter_is demo_tee 2 None"
  "lookup demo_tee [1, 2, 3] 18 = Some 2"
  using demo_global_rep
  by (simp_all add: sched_rep_def dlist_def waiter_is_def lookup_def demo_tee_def demo_global_def ring_def demo_task_def)

text \<open>The first task waits for the second one.\<close>

definition demo_waiting :: tee where
  "demo_waiting = demo_tee\<lparr>links := link_between (Task_Wait_List 2) (Wait_Link 2) (Task_Wait_List 2)
     (set_link_data (Wait_Link 2) (Some 1) (links demo_tee))\<rparr>"

lemma demo_waiting_rep: "sched_rep demo_waiting [1, 2, 3] [2, 3]" "waiter_is demo_waiting 2 (Some 1)"
  "lookup demo_waiting [1, 2, 3] 18 = Some 2"
  by (simp_all add: sched_rep_def dlist_def waiter_is_def lookup_def demo_waiting_def demo_tee_def
      demo_global_def ring_def demo_task_def)

theorem destroy_task_removes_witness:
  "\<exists>g'. destroy_task demo_env demo_heap 18 demo_waiting = Some (g', Inr ()) \<and>
     sched_rep g' [1, 3] [1, 3] \<and> task_id_pool g' (ucast (18 :: u32)) = 0"
proof -
  have "\<forall>u. Some 1 = Some u \<longrightarrow> u \<in> set [1, 2, 3] \<and> u \<notin> set [2, 3] \<and> u \<noteq> (2 :: tptr)" by simp
  from destroy_task_removes[OF demo_waiting_rep(1,3,2) this, of demo_env demo_heap]
  show ?thesis by simp
qed

theorem destroy_task_two_waiters_hangs_witness:
  "\<exists>g1 g2. add_to_wait_list (Some 2) (Some 1) demo_tee = Some g1 \<and>
     add_to_wait_list (Some 2) (Some 3) g1 = Some g2 \<and> destroy_task demo_env demo_heap 18 g2 = None"
  by (rule destroy_task_two_waiters_hangs[OF demo_tee_rep(1,3,2)])

text \<open>RAM is mapped one to one.\<close>

definition flat_env :: pt_env where
  "flat_env = demo_env\<lparr>code_start := 0x3C000000\<rparr>"

definition demo_config :: sa_config where
  "demo_config =
     \<lparr>cfg_guest_no = 0, cfg_service_uuid = 7, cfg_task_id = 20, cfg_service_name = [], cfg_stack_size = 4096,
      cfg_heap_size = 4096, cfg_min_alloc_size = 8, cfg_mode = TASK_KERN_MODE, cfg_entry_point = 0x8000,
      cfg_elf_flag = 0, cfg_process = 0, cfg_data = 0, cfg_allow_multiple_instance = 1, cfg_gid = 0\<rparr>"

lemma demo_created: "map_option snd (create_task flat_env demo_heap True demo_config demo_tee) = Some (Inr 20)"
  by code_simp

theorem create_task_lists_witness:
  "\<exists>g'. create_task flat_env demo_heap True demo_config demo_tee = Some (g', Inr 20) \<and>
     sched_rep g' [1, 2, 3, 4] [2, 3] \<and> state (tasks g' 4) = TASK_STATE_SUSPEND"
proof -
  obtain p where p: "create_task flat_env demo_heap True demo_config demo_tee = Some p" "snd p = Inr 20"
    using demo_created by auto
  have "created demo_tee (cfg_task_id demo_config) (new_task_addr demo_heap) [1, 2, 3] [2, 3] p"
  proof (rule create_task_lists[OF p(1) demo_tee_rep(1)])
    show "\<forall>t. new_task_addr demo_heap = Some t \<longrightarrow> t \<notin> set [1, 2, 3]" by (simp add: demo_heap_def)
    show "\<forall>u\<in>set [1, 2, 3]. task_id (tasks demo_tee u) \<noteq> cfg_task_id demo_config"
      by (simp add: demo_tee_def demo_global_def demo_task_def demo_config_def)
  qed
  then show ?thesis using p by (cases p) (auto simp: created_def demo_heap_def)
qed

section \<open>An invariant of the kernel's lists and identifiers\<close>

text \<open>The lists hold the tasks \<open>ts\<close>, of which \<open>rs\<close> are ready, no task waits for another, and every
  task's identifier is a byte that is marked as used.\<close>

definition id_marked :: "'a sw_global_scheme \<Rightarrow> tptr \<Rightarrow> bool" where
  "id_marked g t \<longleftrightarrow>
     (\<exists>a. task_id (tasks g t) = ucast (a :: u8) \<and> task_id_pool g a \<noteq> 0)"

definition kernel_ok :: "'a sw_global_scheme \<Rightarrow> tptr list \<Rightarrow> tptr list \<Rightarrow> bool" where
  "kernel_ok g ts rs \<longleftrightarrow> sched_rep g ts rs \<and> (\<forall>t\<in>set ts. no_waiter g t \<and> id_marked g t)"

lemma ucast_u8_u32 [simp]: "(ucast (ucast (a :: u8) :: u32) :: u8) = a"
  by (rule bit_word_eqI) (auto simp: bit_unsigned_iff)

lemma ucast_u8_inj: "ucast (a :: u8) = (ucast b :: u32) \<longleftrightarrow> a = b"
proof
  assume "ucast a = (ucast b :: u32)"
  then have "(ucast (ucast a :: u32) :: u8) = ucast (ucast b :: u32)" by simp
  then show "a = b" by simp
qed simp

lemma kernel_ok_cong:
  assumes "links g' = links g" and "\<And>t. task_id (tasks g' t) = task_id (tasks g t)" and "task_id_pool g' = task_id_pool g"
  shows "kernel_ok g' ts rs = kernel_ok g ts rs"
  using assms by (simp add: kernel_ok_def no_waiter_def id_marked_def sched_rep_cong[of g' g])

text \<open>A fresh identifier.\<close>

lemma asid_loop_free: "asid_loop pool a = Some b \<Longrightarrow> pool b = 0"
proof -
  assume "asid_loop pool a = Some b"
  then show "pool b = 0"
    by (rule asid_loop.raw_induct[rotated, where P = "\<lambda>pool a b. pool b = 0"]) (auto simp: Let_def split: if_split_asm)
qed

lemma kernel_ok_new_id:
  assumes "kernel_ok g ts rs" and "get_next_asid_val g = Some (a, g')"
  shows "kernel_ok g' ts rs \<and> task_id_pool g' a \<noteq> 0 \<and> (\<forall>t\<in>set ts. task_id (tasks g' t) \<noteq> ucast a)"
proof -
  have g': "g' = g\<lparr>task_id_pool := (task_id_pool g)(a := 1)\<rparr>" and a: "task_id_pool g a = 0"
    using assms(2) asid_loop_free by (auto simp: get_next_asid_val_def elim!: bind_SomeE)
  have "sched_rep g' ts rs" using assms(1) sched_rep_cong[of g' g] unfolding g' by (simp add: kernel_ok_def)
  moreover have "id_marked g' t" if "id_marked g t" for t
    using that unfolding g' id_marked_def by auto
  moreover have "task_id (tasks g' t) \<noteq> ucast a" if "id_marked g t" for t
    using that a unfolding g' id_marked_def by (auto simp: ucast_u8_inj)
  ultimately show ?thesis using assms(1) unfolding g' kernel_ok_def no_waiter_def by auto
qed

lemma kernel_ok_create:
  assumes ok: "kernel_ok g ts rs" and c: "create_task env heap permitted cfg g = Some (g', r)"
    and new: "\<forall>t. new_task_addr heap = Some t \<longrightarrow> t \<notin> set ts"
    and a: "cfg_task_id cfg = ucast (a :: u8)" "task_id_pool g a \<noteq> 0" "\<forall>t\<in>set ts. task_id (tasks g t) \<noteq> ucast a"
  shows "case r of Inl _ \<Rightarrow> kernel_ok g' ts rs
    | Inr i \<Rightarrow> i = ucast a \<and> (\<exists>t. new_task_addr heap = Some t \<and> kernel_ok g' (ts @ [t]) rs \<and>
        task_id (tasks g' t) = i \<and> state (tasks g' t) = TASK_STATE_SUSPEND)"
proof -
  have cr: "created g (ucast a) (new_task_addr heap) ts rs (g', r)"
    using create_task_created[OF c _ new] ok a by (simp add: kernel_ok_def)
  have w: "no_waiter g' t" if "t \<in> set ts" for t
    using that cr ok by (simp add: created_def same_waiters_def kernel_ok_def no_waiter_def)
  have old: "tasks g' t = tasks g t" if "t \<in> set ts" for t using that cr by (simp add: created_def)
  show ?thesis
  proof (cases r)
    case (Inl e)
    have "id_marked g' t" if t: "t \<in> set ts" for t
    proof -
      obtain b where b: "task_id (tasks g t) = ucast (b :: u8)" "task_id_pool g b \<noteq> 0"
        using ok t by (auto simp: kernel_ok_def id_marked_def)
      then have "b \<noteq> ucast (ucast a :: u32)" using a(3) t by auto
      then show ?thesis using b cr Inl old[OF t] by (auto simp: created_def id_marked_def)
    qed
    then show ?thesis using Inl cr w by (simp add: created_def kernel_ok_def)
  next
    case (Inr i)
    then obtain t where t: "new_task_addr heap = Some t" using cr by (auto simp: created_def)
    have pool: "task_id_pool g' = task_id_pool g" using cr Inr by (simp add: created_def)
    have "id_marked g' u" if "u \<in> set (ts @ [t])" for u
      using that ok old a cr Inr t unfolding id_marked_def pool kernel_ok_def by (auto simp: created_def)
    then show ?thesis using Inr cr w t by (simp add: created_def kernel_ok_def)
  qed
qed

lemma off_ready_enqueue:
  assumes "sched_rep g ts rs" and "enqueue pos t g = Some g'" and "c \<noteq> Ready_List" and "c \<notin> range Ready_Link"
  shows "next_of (links g') c = next_of (links g) c \<and> prev_of (links g') c = prev_of (links g) c \<and>
     data_of (links g') c = data_of (links g) c"
proof -
  have d: "dlist (links g) Ready_List (map Ready_Link rs)" using assms(1) by (simp add: sched_rep_def)
  have "c \<noteq> Ready_Link t" "c \<noteq> last (Ready_List # map Ready_Link rs)" "c \<noteq> hd (map Ready_Link rs @ [Ready_List])"
    using assms(3,4) by (auto simp: last_map hd_append hd_map split: if_splits)
  then show ?thesis using assms(2,3) dlist_next[OF d] dlist_prev[OF d]
    by (cases pos) (auto simp: enqueue_def elim!: bind_SomeE)
qed

lemma kernel_ok_schedule:
  assumes ok: "kernel_ok g ts rs" and t: "t \<in> set ts"
  shows "\<exists>g'. schedule_task t g = Some g' \<and> kernel_ok g' ts (if t \<in> set rs then rs else rs @ [t])"
proof -
  have s: "sched_rep g ts rs" using ok by (simp add: kernel_ok_def)
  obtain L where L: "schedule_task t g = Some (g\<lparr>links := L\<rparr>)"
    "sched_rep (g\<lparr>links := L\<rparr>) ts (if t \<in> set rs then rs else rs @ [t])"
    using schedule_task_rep[OF s t] by blast
  have same: "L = links g" if "g = g\<lparr>links := L\<rparr>" using that by (metis sw_global.select_convs(1) sw_global.surjective sw_global.update_convs(1))
  have "next_of L c = next_of (links g) c \<and> prev_of L c = prev_of (links g) c \<and> data_of L c = data_of (links g) c"
    if "c \<noteq> Ready_List" "c \<notin> range Ready_Link" for c
    using L(1) off_ready_enqueue[OF s, of TAIL t "g\<lparr>links := L\<rparr>"] that
    by (auto simp: schedule_task_def elim!: bind_SomeE split: if_split_asm dest: same)
  then have "no_waiter (g\<lparr>links := L\<rparr>) u" if "no_waiter g u" for u
    using that by (simp add: no_waiter_def image_iff)
  then show ?thesis using L ok by (auto simp: kernel_ok_def id_marked_def)
qed

lemma kernel_ok_start:
  assumes ok: "kernel_ok g ts rs" and st: "start_task tid params g = Some (g', r)"
  shows "\<exists>rs'. kernel_ok g' ts rs'"
proof -
  have f: "find_task Task_List tid g = Some (lookup g ts tid)"
    using ok find_task_rep by (auto simp: kernel_ok_def)
  show ?thesis
  proof (cases "lookup g ts tid")
    case None
    then show ?thesis using st f ok by (auto simp: start_task_def split: if_splits)
  next
    case (Some t)
    then have t: "t \<in> set ts" using lookup_in by blast
    show ?thesis
    proof (cases "link_empty (links g) Task_List")
      case True
      then show ?thesis using st ok by (auto simp: start_task_def)
    next
      case False
      let ?task = "(tasks g t)\<lparr>regs := cpu_task_regs_init (tasks g t), tls := (tls (tasks g t))\<lparr>tls_params :=
          case params of Some ps \<Rightarrow> [ps ! 0, ps ! 1, ps ! 2, ps ! 3] | None \<Rightarrow> [0, 0, 0, 0]\<rparr>\<rparr>"
      have "kernel_ok (g\<lparr>tasks := (tasks g)(t := ?task)\<rparr>) ts rs"
        using ok by (subst kernel_ok_cong[of _ g]) auto
      from kernel_ok_schedule[OF this t] show ?thesis using False st f Some
        by (auto simp: start_task_def Let_def elim!: bind_SomeE)
    qed
  qed
qed

lemma kernel_ok_suspend:
  assumes ok: "kernel_ok g ts rs"
  shows "\<exists>g'. suspend_task tid st g = Some g' \<and> kernel_ok g' ts rs"
proof -
  have "find_task Task_List tid g = Some (lookup g ts tid)"
    using ok find_task_rep by (auto simp: kernel_ok_def)
  moreover have "kernel_ok (set_state t st g) ts rs" for t
    using ok by (subst kernel_ok_cong[of _ g]) (auto simp: set_state_def)
  moreover have "kernel_ok (set_state t st g\<lparr>current_task_id := - 1\<rparr>) ts rs" for t
    using ok by (subst kernel_ok_cong[of _ g]) (auto simp: set_state_def)
  ultimately show ?thesis using ok by (auto simp: suspend_task_def Let_def split: option.splits)
qed

lemma kernel_ok_destroy:
  assumes ok: "kernel_ok g ts rs" and t: "lookup g ts tid = Some t"
  shows "\<exists>g'. destroy_task env heap tid g = Some (g', Inr ()) \<and> kernel_ok g' (remove1 t ts) (remove1 t rs)"
proof -
  have s: "sched_rep g ts rs" and tin: "t \<in> set ts" "task_id (tasks g t) = tid"
    using ok lookup_in[OF t] by (simp_all add: kernel_ok_def)
  have ne: "\<not> link_empty (links g) Task_List"
    using tin(1) s dlist_empty_iff[of "links g" Task_List "map Head_Link ts"] by (auto simp: sched_rep_def)
  have f: "find_task Task_List tid g = Some (Some t)" using find_task_rep[OF s] t by simp
  obtain L where L: "unqueue tid g = Some (g\<lparr>links := L\<rparr>)"
    "sched_rep (g\<lparr>links := L\<rparr>) ts (remove1 t rs)"
    "\<forall>c. c \<noteq> Ready_List \<longrightarrow> c \<notin> range Ready_Link \<longrightarrow>
        next_of L c = next_of (links g) c \<and> prev_of L c = prev_of (links g) c \<and> data_of L c = data_of (links g) c"
    using unqueue_rep[OF s t] by blast
  let ?g1 = "g\<lparr>links := L\<rparr>"
  let ?g3 = "close_files t ?g1"
  let ?task = "tasks ?g3 t"
  let ?st1 = "free_task_heap heap tid (mode ?task) (pt ?g3)"
  have "Task_Wait_List t \<notin> range Ready_Link" by auto
  then have e: "link_empty (links ?g1) (Task_Wait_List t)"
    using ok tin(1) L(3) by (simp add: kernel_ok_def no_waiter_def link_empty_def)
  obtain st3 where st3: "(if tls_addr ?task = 0 then Some ?st1
      else map_option (sw_free_tls ?task) (sw_unmap_tls env ?task ?st1)) = Some st3"
    using release_returns(1)[of env ?task ?st1] by (cases "tls_addr ?task = 0") auto
  obtain st4 where st4: "(if mode ?task = TASK_USER_MODE then free_user_stack env ?task st3
      else free_kernel_stack env (task_sp ?task) (task_sp_size ?task) st3) = Some st4"
    using release_returns(2)[of env ?task st3] release_returns(3)[of env "task_sp ?task" "task_sp_size ?task" st3]
    by (cases "mode ?task = TASK_USER_MODE") auto
  have s3: "sched_rep ?g3 ts (remove1 t rs)"
    using L(2) by (subst sched_rep_cong[of _ ?g1]) (auto simp: close_files_def)
  have "distinct rs" using s by (auto simp: sched_rep_def dlist_def distinct_map)
  then have "t \<notin> set (remove1 t rs)" by simp
  from remove_task_rep[OF s3 tin(1) this] obtain L' where
    L': "remove_link (Head_Link t) (links ?g3) = Some L'" "sched_rep (?g3\<lparr>links := L'\<rparr>) (remove1 t ts) (remove1 t rs)"
    "same_outside (set (Task_List # map Head_Link ts)) (links ?g3) L'" by blast
  let ?g' = "?g3\<lparr>links := L', pt := st4, freed := freed ?g3 @ [of_nat t],
                 task_id_pool := (task_id_pool ?g3)(ucast tid := 0)\<rparr>"
  have s': "sched_rep ?g' (remove1 t ts) (remove1 t rs)"
    using L'(2) by (subst sched_rep_cong[of _ "?g3\<lparr>links := L'\<rparr>"]) auto
  have "destroy_task env heap tid g = Some (?g', Inr ())"
    unfolding destroy_task_def Let_def
    using ne f L(1) e st3 st4 L'(1) by (simp only: if_False if_True bind.bind_lunit option.case)
  moreover have "kernel_ok ?g' (remove1 t ts) (remove1 t rs)"
  proof -
    have "distinct (map (\<lambda>u. task_id (tasks g u)) ts)" using s by (simp add: sched_rep_def)
    then have dist: "distinct ts" "\<And>u. u \<in> set ts \<Longrightarrow> u \<noteq> t \<Longrightarrow> task_id (tasks g u) \<noteq> tid"
      using tin by (auto simp: distinct_map dest: inj_onD)
    have "no_waiter ?g' u \<and> id_marked ?g' u" if u: "u \<in> set (remove1 t ts)" for u
    proof -
      have u': "u \<in> set ts" "u \<noteq> t" using u dist(1) by auto
      have "Task_Wait_List u \<notin> set (Task_List # map Head_Link ts)" by auto
      then have "next_of L' (Task_Wait_List u) = next_of L (Task_Wait_List u)"
        "prev_of L' (Task_Wait_List u) = prev_of L (Task_Wait_List u)" "data_of L' = data_of L"
        using L'(3) unfolding same_outside_def by (simp_all add: close_files_def)
      then have "no_waiter ?g' u" using ok u'(1) L(3) by (auto simp: kernel_ok_def no_waiter_def image_iff)
      moreover obtain b where b: "task_id (tasks g u) = ucast (b :: u8)" "task_id_pool g b \<noteq> 0"
        using ok u'(1) by (auto simp: kernel_ok_def id_marked_def)
      moreover obtain c where c: "tid = ucast (c :: u8)" using ok tin by (auto simp: kernel_ok_def id_marked_def)
      moreover have "ucast tid \<noteq> b" using dist(2)[OF u'] b(1) c by auto
      ultimately show ?thesis by (auto simp: id_marked_def close_files_def)
    qed
    then show ?thesis using s' by (simp add: kernel_ok_def)
  qed
  ultimately show ?thesis by blast
qed

lemma kernel_ok_remove_head:
  assumes ok: "kernel_ok g ts rs" and rs: "rs = r # rs'"
  shows "\<exists>L. next_of (links g) Ready_List = Some (Ready_Link r) \<and> data_of (links g) (Ready_Link r) = Some r \<and>
     remove_link (Ready_Link r) (links g) = Some L \<and> kernel_ok (g\<lparr>links := L\<rparr>) ts rs'"
proof -
  have "sched_rep g ts (r # rs')" using ok rs by (simp add: kernel_ok_def)
  from remove_head_rep[OF this] obtain L where L: "next_of (links g) Ready_List = Some (Ready_Link r)"
    "data_of (links g) (Ready_Link r) = Some r" "remove_link (Ready_Link r) (links g) = Some L"
    "sched_rep (g\<lparr>links := L\<rparr>) ts rs'" "same_outside (set (Ready_List # map Ready_Link (r # rs'))) (links g) L"
    by blast
  have "no_waiter (g\<lparr>links := L\<rparr>) u" if "no_waiter g u" for u
  proof -
    have "Task_Wait_List u \<notin> set (Ready_List # map Ready_Link (r # rs'))" by auto
    then show ?thesis using that L(5) unfolding same_outside_def no_waiter_def by simp
  qed
  then have "kernel_ok (g\<lparr>links := L\<rparr>) ts rs'" using ok L(4) by (simp add: kernel_ok_def id_marked_def)
  then show ?thesis using L(1-3) by blast
qed

lemma kernel_ok_get_next:
  assumes ok: "kernel_ok g ts rs"
  shows "\<exists>nxt g1 rs'. get_next_task g = Some (nxt, g1) \<and> kernel_ok g1 ts rs'"
proof -
  have cur: "get_current_task g = Some (lookup g ts (current_task_id g))"
    using ok find_task_rep by (auto simp: kernel_ok_def get_current_task_def)
  show ?thesis
  proof (cases rs)
    case Nil
    then have "link_empty (links g) Ready_List"
      using ok dlist_empty_iff[of "links g" Ready_List "map Ready_Link rs"] by (simp add: kernel_ok_def sched_rep_def)
    then show ?thesis using cur ok by (auto simp: get_next_task_def)
  next
    case (Cons r rs')
    have ne: "\<not> link_empty (links g) Ready_List"
      using ok Cons dlist_empty_iff[of "links g" Ready_List "map Ready_Link rs"] by (simp add: kernel_ok_def sched_rep_def)
    obtain L where L: "next_of (links g) Ready_List = Some (Ready_Link r)" "data_of (links g) (Ready_Link r) = Some r"
      "remove_link (Ready_Link r) (links g) = Some L" "kernel_ok (g\<lparr>links := L\<rparr>) ts rs'"
      using kernel_ok_remove_head[OF ok Cons] by blast
    let ?g1 = "g\<lparr>links := L\<rparr>"
    show ?thesis
    proof (cases "lookup g ts (current_task_id g)")
      case None
      then show ?thesis using cur ne L by (auto simp: get_next_task_def)
    next
      case (Some t)
      then have t: "t \<in> set ts" using lookup_in by blast
      obtain c where c: "link_find (links ?g1) (has_task_id ?g1 (task_id (tasks ?g1 t))) Ready_List = Some c"
        using ready_find[of ?g1 ts rs' t] L(4) t by (auto simp: kernel_ok_def)
      obtain g2 where "schedule_task t ?g1 = Some g2" "kernel_ok g2 ts (if t \<in> set rs' then rs' else rs' @ [t])"
        using kernel_ok_schedule[OF L(4) t] by blast
      then show ?thesis using cur ne L Some c
        by (cases "c \<noteq> None"; cases "runnable ?g1 t") (auto simp: get_next_task_def)
    qed
  qed
qed

lemma kernel_ok_scheduler:
  assumes ok: "kernel_ok g ts rs"
  shows "\<exists>g' rs'. scheduler g = Some g' \<and> kernel_ok g' ts rs'"
proof -
  have cur: "get_current_task g = Some (lookup g ts (current_task_id g))"
    using ok find_task_rep by (auto simp: kernel_ok_def get_current_task_def)
  obtain nxt g1 rs' where g1: "get_next_task g = Some (nxt, g1)" "kernel_ok g1 ts rs'"
    using kernel_ok_get_next[OF ok] by blast
  let ?g2 = "case nxt of None \<Rightarrow> g1 | Some t \<Rightarrow> update_current_task (Some t) (set_state t TASK_STATE_RUNNING g1)"
  have "kernel_ok (task_context_switch nxt c ?g2) ts rs'" for c
    using g1(2) by (subst kernel_ok_cong[of _ g1])
      (auto simp: task_context_switch_def update_current_task_def set_state_def split: option.splits)
  then show ?thesis using cur g1 by (auto simp: scheduler_def Let_def)
qed

end
