(* ===== verification/Wait.thy ===== *)
theory Wait
  imports Scheduler
begin

text \<open>
  The pending queues tasks sleep on, \<^verbatim>\<open>lib/kernel/sw_wait.c\<close> and the macro \<^verbatim>\<open>sw_wait_event\<close> of
  \<^verbatim>\<open>sw_wait.h\<close>, over the scheduler's lists.  A queue and a queue item are numbers; their
  embedded links live in a link store of their own.  An item's wake-up function is
  \<^verbatim>\<open>schedule_task_function\<close> or one the caller has installed, whose effect is the parameter
  \<open>custom\<close>.  \<^verbatim>\<open>schedule()\<close> is the system call that runs the scheduler.
\<close>

section \<open>Queues and items\<close>

type_synonym qptr = nat
type_synonym iptr = nat

datatype wcell = Elements_List qptr | Item_Head iptr

datatype wakeup_function = Schedule_Task_Function | Custom_Function nat

record wait_state = sw_global +
  wlinks :: "(wcell, iptr) links"
  elements_count :: "qptr \<Rightarrow> u32"
  item_data :: "iptr \<Rightarrow> tptr option"
  item_func :: "iptr \<Rightarrow> wakeup_function"

type_synonym custom_wakeup = "nat \<Rightarrow> iptr \<Rightarrow> u32 \<Rightarrow> wait_state \<Rightarrow> wait_state option"

definition WAKE_UP :: u32 where "WAKE_UP = 0"
definition WAKE_UP_IMMEDIATE :: u32 where "WAKE_UP_IMMEDIATE = 1"

definition sw_no_lock_pending_queue_add :: "qptr \<Rightarrow> iptr \<Rightarrow> wait_state \<Rightarrow> wait_state option" where
  "sw_no_lock_pending_queue_add q i s = do {
     L \<leftarrow> add_link (Elements_List q) (Item_Head i) TAIL (set_link_data (Item_Head i) (Some i) (wlinks s));
     Some (s\<lparr>wlinks := L, elements_count := (elements_count s)(q := elements_count s q + 1)\<rparr>)
   }"

definition sw_pending_queue_add :: "qptr \<Rightarrow> iptr \<Rightarrow> wait_state \<Rightarrow> wait_state option" where
  "sw_pending_queue_add q i s = sw_no_lock_pending_queue_add q i s"

definition sw_pending_queue_remove :: "qptr \<Rightarrow> iptr \<Rightarrow> wait_state \<Rightarrow> wait_state option" where
  "sw_pending_queue_remove q i s = do {
     L \<leftarrow> remove_link (Item_Head i) (wlinks s);
     Some (s\<lparr>wlinks := L, elements_count := (elements_count s)(q := elements_count s q - 1)\<rparr>)
   }"

text \<open>\<^verbatim>\<open>i\<close> may be \<^verbatim>\<open>NULL\<close>.\<close>

definition sw_init_wakeup_func :: "iptr option \<Rightarrow> wakeup_function \<Rightarrow> wait_state \<Rightarrow> wait_state option" where
  "sw_init_wakeup_func i f s =
     (case i of None \<Rightarrow> Some s
      | Some i \<Rightarrow> do {
          cur \<leftarrow> get_current_task s;
          Some (s\<lparr>item_data := (item_data s)(i := cur), item_func := (item_func s)(i := f)\<rparr>)
        })"

definition sw_set_default_queue_item :: "iptr option \<Rightarrow> wait_state \<Rightarrow> wait_state option" where
  "sw_set_default_queue_item i s = sw_init_wakeup_func i Schedule_Task_Function s"

definition sw_set_task_state :: "task_state \<Rightarrow> wait_state \<Rightarrow> wait_state option" where
  "sw_set_task_state st s = suspend_task (current_task_id s) st s"

definition sw_wait_done :: "qptr \<Rightarrow> iptr \<Rightarrow> wait_state \<Rightarrow> wait_state option" where
  "sw_wait_done q i s =
     (if link_empty (wlinks s) (Item_Head i) then Some s
      else do {
        L \<leftarrow> remove_link (Item_Head i) (wlinks s);
        Some (s\<lparr>wlinks := link_init (Item_Head i) L,
                elements_count := (elements_count s)(q := elements_count s q - 1)\<rparr>)
      })"

section \<open>Waking\<close>

definition schedule_task_function :: "iptr \<Rightarrow> u32 \<Rightarrow> wait_state \<Rightarrow> wait_state option" where
  "schedule_task_function i flag s = do {
     task \<leftarrow> item_data s i;
     let s1 = set_state task TASK_STATE_READY_TO_RUN s in
     if flag = WAKE_UP_IMMEDIATE then Option.bind (schedule_task_next task s1) scheduler
     else schedule_task task s1
   }"

definition call_wakeup :: "custom_wakeup \<Rightarrow> iptr \<Rightarrow> u32 \<Rightarrow> wait_state \<Rightarrow> wait_state option" where
  "call_wakeup custom i flag s =
     (case item_func s i of
        Schedule_Task_Function \<Rightarrow> schedule_task_function i flag s
      | Custom_Function n \<Rightarrow> custom n i flag s)"

text \<open>The loop of \<^verbatim>\<open>sw_wakeup\<close> returns after the first item.\<close>

definition sw_wakeup :: "custom_wakeup \<Rightarrow> qptr \<Rightarrow> u32 \<Rightarrow> wait_state \<Rightarrow> wait_state option" where
  "sw_wakeup custom q flag s = do {
     c \<leftarrow> link_find (wlinks s) (\<lambda>d. d \<noteq> None) (Elements_List q);
     case c of None \<Rightarrow> Some s
     | Some l \<Rightarrow> do { i \<leftarrow> data_of (wlinks s) l; call_wakeup custom i flag s }
   }"

text \<open>\<^verbatim>\<open>l->next\<close> is read after the wake-up function has run.\<close>

partial_function (option) wakeup_loop ::
    "custom_wakeup \<Rightarrow> wcell \<Rightarrow> u32 \<Rightarrow> wcell option \<Rightarrow> wait_state \<Rightarrow> wait_state option" where
  "wakeup_loop custom h flag l s =
     (if l = None then None
      else if the l = h then Some s
      else Option.bind
        (case data_of (wlinks s) (the l) of None \<Rightarrow> Some s | Some i \<Rightarrow> call_wakeup custom i flag s)
        (\<lambda>s1. wakeup_loop custom h flag (next_of (wlinks s1) (the l)) s1))"

declare wakeup_loop.simps [code]

definition sw_wakeup_all :: "custom_wakeup \<Rightarrow> qptr \<Rightarrow> u32 \<Rightarrow> wait_state \<Rightarrow> wait_state option" where
  "sw_wakeup_all custom q flag s =
     wakeup_loop custom (Elements_List q) flag (next_of (wlinks s) (Elements_List q)) s"

section \<open>Waiting\<close>

definition sw_atomic_queue_add_and_state :: "qptr \<Rightarrow> iptr \<Rightarrow> task_state \<Rightarrow> wait_state \<Rightarrow> wait_state option" where
  "sw_atomic_queue_add_and_state q i st s = do {
     s1 \<leftarrow> (if link_empty (wlinks s) (Item_Head i) then sw_no_lock_pending_queue_add q i s else Some s);
     sw_set_task_state st s1
   }"

text \<open>\<^verbatim>\<open>sw_wait_event\<close> up to its first call of \<^verbatim>\<open>schedule\<close>: \<open>holds\<close> is what the condition reads and
  \<open>node\<close> the address of the new item, if the heap has one.  The second component tells whether
  the task sleeps now.\<close>

definition wait_event_start :: "qptr \<Rightarrow> bool \<Rightarrow> iptr option \<Rightarrow> wait_state \<Rightarrow> (wait_state \<times> bool) option" where
  "wait_event_start q holds node s =
     (if holds then Some (s, False)
      else case node of None \<Rightarrow> Some (s, False)
      | Some i \<Rightarrow> do {
          s1 \<leftarrow> sw_set_default_queue_item (Some i) (s\<lparr>wlinks := link_init (Item_Head i) (wlinks s)\<rparr>);
          s2 \<leftarrow> sw_atomic_queue_add_and_state q i TASK_STATE_WAIT s1;
          s3 \<leftarrow> scheduler s2;
          Some (s3, True)
        })"

text \<open>What the task does when it runs again: it leaves the queue when the condition holds and goes
  back to sleep when it does not.\<close>

definition wait_event_resume :: "qptr \<Rightarrow> bool \<Rightarrow> iptr \<Rightarrow> wait_state \<Rightarrow> (wait_state \<times> bool) option" where
  "wait_event_resume q holds i s =
     (if holds then do { s1 \<leftarrow> sw_wait_done q i s; Some (s1, False) }
      else do {
        s2 \<leftarrow> sw_atomic_queue_add_and_state q i TASK_STATE_WAIT s;
        s3 \<leftarrow> scheduler s2;
        Some (s3, True)
      })"

section \<open>The tasks a queue holds\<close>

definition wait_rep :: "wait_state \<Rightarrow> qptr \<Rightarrow> iptr list \<Rightarrow> bool" where
  "wait_rep s q is \<longleftrightarrow>
     dlist (wlinks s) (Elements_List q) (map Item_Head is) \<and>
     (\<forall>i\<in>set is. data_of (wlinks s) (Item_Head i) = Some i)"



text \<open>The order in which woken tasks join the ready queue.\<close>

definition join_once :: "tptr list \<Rightarrow> tptr \<Rightarrow> tptr list" where
  "join_once rs t = (if t \<in> set rs then rs else rs @ [t])"

lemma set_state_sels [simp]:
  "wlinks (set_state t st s) = wlinks s" "item_data (set_state t st s) = item_data s"
  "item_func (set_state t st s) = item_func s" "elements_count (set_state t st s) = elements_count s"
  "links (set_state t st s) = links s" "current_task_id (set_state t st s) = current_task_id s"
  by (simp_all add: set_state_def)

lemma set_state_tasks [simp]:
  "tasks (set_state t st g) u = (if u = t then (tasks g t)\<lparr>state := st\<rparr> else tasks g u)"
  by (simp add: set_state_def)

lemma lookup_set_state [simp]: "lookup (set_state t st g) ts tid = lookup g ts tid"
proof -
  have "(\<lambda>u. task_id (tasks (set_state t st g) u) = tid) = (\<lambda>u. task_id (tasks g u) = tid)" by auto
  then show ?thesis by (simp only: lookup_def)
qed

definition wakes :: "wait_state \<Rightarrow> tptr list \<Rightarrow> iptr \<Rightarrow> tptr \<Rightarrow> bool" where
  "wakes s ts i t \<longleftrightarrow> item_func s i = Schedule_Task_Function \<and> item_data s i = Some t \<and> t \<in> set ts"

lemma call_wakeup_rep:
  assumes "sched_rep s ts rs" and "wakes s ts i t"
  shows "\<exists>L. call_wakeup custom i WAKE_UP s = Some (set_state t TASK_STATE_READY_TO_RUN s\<lparr>links := L\<rparr>) \<and>
     sched_rep (set_state t TASK_STATE_READY_TO_RUN s\<lparr>links := L\<rparr>) ts (join_once rs t)"
proof -
  have "sched_rep (set_state t TASK_STATE_READY_TO_RUN s) ts rs" using assms(1) by simp
  from schedule_task_rep[OF this, of t] show ?thesis
    using assms(2) by (auto simp: call_wakeup_def wakes_def schedule_task_function_def WAKE_UP_def
      WAKE_UP_IMMEDIATE_def join_once_def)
qed

lemma wakeup_loop_walk:
  assumes "linked (wlinks s) (l # map Item_Head is @ [h])" and "h \<notin> Item_Head ` set is"
    and "\<forall>i\<in>set is. data_of (wlinks s) (Item_Head i) = Some i \<and> wakes s ts i (f i)" and "sched_rep s ts rs"
  shows "\<exists>s'. wakeup_loop custom h WAKE_UP (next_of (wlinks s) l) s = Some s' \<and> wlinks s' = wlinks s \<and>
     sched_rep s' ts (foldl join_once rs (map f is)) \<and>
     (\<forall>t. state (tasks s' t) = (if t \<in> f ` set is then TASK_STATE_READY_TO_RUN else state (tasks s t)))"
  using assms
proof (induction "is" arbitrary: l s rs)
  case Nil
  then show ?case by (simp add: wakeup_loop.simps)
next
  case (Cons i "is")
  have i: "data_of (wlinks s) (Item_Head i) = Some i" "wakes s ts i (f i)" using Cons.prems(3) by auto
  obtain L where L: "call_wakeup custom i WAKE_UP s = Some (set_state (f i) TASK_STATE_READY_TO_RUN s\<lparr>links := L\<rparr>)"
    "sched_rep (set_state (f i) TASK_STATE_READY_TO_RUN s\<lparr>links := L\<rparr>) ts (join_once rs (f i))"
    using call_wakeup_rep[OF Cons.prems(4) i(2)] by blast
  let ?s1 = "set_state (f i) TASK_STATE_READY_TO_RUN s\<lparr>links := L\<rparr>"
  have "\<exists>s'. wakeup_loop custom h WAKE_UP (next_of (wlinks ?s1) (Item_Head i)) ?s1 = Some s' \<and> wlinks s' = wlinks ?s1 \<and>
     sched_rep s' ts (foldl join_once (join_once rs (f i)) (map f is)) \<and>
     (\<forall>t. state (tasks s' t) = (if t \<in> f ` set is then TASK_STATE_READY_TO_RUN else state (tasks ?s1 t)))"
    using Cons.prems by (intro Cons.IH L(2)) (auto simp: wakes_def)
  moreover have "wakeup_loop custom h WAKE_UP (next_of (wlinks s) l) s =
      wakeup_loop custom h WAKE_UP (next_of (wlinks ?s1) (Item_Head i)) ?s1"
    using Cons.prems(1,2) i(1) L(1) by (subst wakeup_loop.simps) auto
  ultimately show ?case by auto
qed

text \<open>\<^verbatim>\<open>sw_wakeup_all\<close> makes every task waiting on the queue ready to run and appends those that
  are not queued yet to the ready queue, in the order in which they began to wait; the items
  stay on the queue until their tasks run.\<close>

theorem sw_wakeup_all_schedules:
  assumes "sched_rep s ts rs" and "wait_rep s q is" and "\<forall>i\<in>set is. wakes s ts i (f i)"
  shows "\<exists>s'. sw_wakeup_all custom q WAKE_UP s = Some s' \<and> wait_rep s' q is \<and>
     sched_rep s' ts (foldl join_once rs (map f is)) \<and>
     (\<forall>t. state (tasks s' t) = (if t \<in> f ` set is then TASK_STATE_READY_TO_RUN else state (tasks s t)))"
proof -
  have "linked (wlinks s) (Elements_List q # map Item_Head is @ [Elements_List q])"
    and dat: "\<forall>i\<in>set is. data_of (wlinks s) (Item_Head i) = Some i"
    using assms(2) by (simp_all add: wait_rep_def dlist_def)
  from wakeup_loop_walk[OF this(1) _ _ assms(1), of f custom] dat assms(3)
  obtain s' where "wakeup_loop custom (Elements_List q) WAKE_UP (next_of (wlinks s) (Elements_List q)) s = Some s'"
    "wlinks s' = wlinks s" "sched_rep s' ts (foldl join_once rs (map f is))"
    "\<forall>t. state (tasks s' t) = (if t \<in> f ` set is then TASK_STATE_READY_TO_RUN else state (tasks s t))" by auto
  then show ?thesis using assms(2) by (auto simp: sw_wakeup_all_def wait_rep_def)
qed

lemma sw_wakeup_first:
  assumes "sched_rep s ts rs" and "wait_rep s q (i # is)" and "wakes s ts i t"
  shows "\<exists>s'. sw_wakeup custom q WAKE_UP s = Some s' \<and> wait_rep s' q (i # is) \<and> sched_rep s' ts (join_once rs t) \<and>
     (\<forall>u. state (tasks s' u) = (if u = t then TASK_STATE_READY_TO_RUN else state (tasks s u))) \<and>
     item_func s' = item_func s \<and> item_data s' = item_data s"
proof -
  have "link_find (wlinks s) (\<lambda>d. d \<noteq> None) (Elements_List q) = Some (Some (Item_Head i))"
    using assms(2) dlist_find[of "wlinks s" "Elements_List q" "map Item_Head (i # is)"] by (simp add: wait_rep_def)
  moreover obtain L where "call_wakeup custom i WAKE_UP s = Some (set_state t TASK_STATE_READY_TO_RUN s\<lparr>links := L\<rparr>)"
    "sched_rep (set_state t TASK_STATE_READY_TO_RUN s\<lparr>links := L\<rparr>) ts (join_once rs t)"
    using call_wakeup_rep[OF assms(1,3)] by blast
  ultimately show ?thesis using assms(2) by (auto simp: sw_wakeup_def wait_rep_def)
qed

text \<open>\<^verbatim>\<open>sw_wakeup\<close> leaves the item it wakes on the queue, so a second call before the woken task
  has run wakes the same task again and the next waiting task stays asleep.\<close>

theorem sw_wakeup_twice_wakes_one:
  assumes "sched_rep s ts rs" and "wait_rep s q (i # is)" and "wakes s ts i t"
  shows "\<exists>s1 s2. sw_wakeup custom q WAKE_UP s = Some s1 \<and> sw_wakeup custom q WAKE_UP s1 = Some s2 \<and>
     sched_rep s2 ts (join_once rs t) \<and> wait_rep s2 q (i # is) \<and>
     (\<forall>u. u \<noteq> t \<longrightarrow> state (tasks s2 u) = state (tasks s u))"
proof -
  obtain s1 where 1: "sw_wakeup custom q WAKE_UP s = Some s1" "wait_rep s1 q (i # is)" "sched_rep s1 ts (join_once rs t)"
    "\<forall>u. state (tasks s1 u) = (if u = t then TASK_STATE_READY_TO_RUN else state (tasks s u))"
    "item_func s1 = item_func s" "item_data s1 = item_data s" using sw_wakeup_first[OF assms] by blast
  have "wakes s1 ts i t" using assms(3) 1(5,6) by (simp add: wakes_def)
  from sw_wakeup_first[OF 1(3,2) this, of custom] obtain s2 where "sw_wakeup custom q WAKE_UP s1 = Some s2"
    "wait_rep s2 q (i # is)" "sched_rep s2 ts (join_once (join_once rs t) t)"
    "\<forall>u. state (tasks s2 u) = (if u = t then TASK_STATE_READY_TO_RUN else state (tasks s1 u))" by blast
  then show ?thesis using 1(1,4) by (auto simp: join_once_def split: if_splits)
qed

text \<open>What the scheduler does when the current task cannot go on.\<close>

lemma scheduler_blocked:
  assumes "sched_rep g ts (r # rs)" and "lookup g ts (current_task_id g) = Some t"
    and "t \<notin> set (r # rs)" and "\<not> runnable g t"
  shows "\<exists>L. scheduler g = Some (task_context_switch (Some r) (Some t) (update_current_task (Some r)
       (set_state r TASK_STATE_RUNNING (g\<lparr>links := L\<rparr>)))) \<and> sched_rep (g\<lparr>links := L\<rparr>) ts rs"
proof -
  have "get_current_task g = Some (Some t)"
    by (simp add: get_current_task_def find_task_rep[OF assms(1)] assms(2))
  moreover have "round_robin (lookup g ts (current_task_id g)) (runnable g) (r # rs) = (Some r, rs)"
    using assms(2,4) by (simp add: round_robin_def)
  moreover obtain L where "get_next_task g = Some (Some r, g\<lparr>links := L\<rparr>)" "sched_rep (g\<lparr>links := L\<rparr>) ts rs"
    using get_next_task_rep[OF assms(1)] calculation(2) by auto
  ultimately show ?thesis using assms(3) by (intro exI[of _ L]) (simp add: scheduler_def)
qed

lemma sw_set_task_state_rep:
  assumes "sched_rep s ts rs" and "lookup s ts (current_task_id s) = Some t"
  shows "sw_set_task_state TASK_STATE_WAIT s = Some (set_state t TASK_STATE_WAIT s)"
  using assms find_task_rep[OF assms(1)] by (simp add: sw_set_task_state_def suspend_task_def)

lemma pending_queue_add_rep:
  assumes "dlist (wlinks s) (Elements_List q) (map Item_Head is)" "\<forall>j\<in>set is. data_of (wlinks s) (Item_Head j) = Some j"
    and "i \<notin> set is"
  shows "\<exists>L. sw_no_lock_pending_queue_add q i s =
       Some (s\<lparr>wlinks := L, elements_count := (elements_count s)(q := elements_count s q + 1)\<rparr>) \<and>
     wait_rep (s\<lparr>wlinks := L\<rparr>) q (is @ [i])"
proof -
  let ?L0 = "set_link_data (Item_Head i) (Some i) (wlinks s)"
  have d: "dlist ?L0 (Elements_List q) (map Item_Head is)" using assms(1) by simp
  have "Item_Head i \<notin> set (Elements_List q # map Item_Head is)" using assms(3) by auto
  from dlist_add_TAIL[OF d this] obtain L where
    L: "add_link (Elements_List q) (Item_Head i) TAIL ?L0 = Some L"
    "dlist L (Elements_List q) (map Item_Head is @ [Item_Head i])"
    "same_outside (set (Item_Head i # Elements_List q # map Item_Head is)) ?L0 L" by blast
  have "data_of L = data_of ?L0" using same_outside_data[OF L(3)] .
  then have "wait_rep (s\<lparr>wlinks := L\<rparr>) q (is @ [i])" using L(2) assms(2,3) by (auto simp: wait_rep_def)
  then show ?thesis using L(1) by (auto simp: sw_no_lock_pending_queue_add_def simp del: add_link.simps)
qed

lemma wait_rep_cong: "wlinks s' = wlinks s \<Longrightarrow> wait_rep s' q is = wait_rep s q is"
  by (simp add: wait_rep_def)

text \<open>A task that starts to wait while the condition does not hold sleeps: it is the last of the
  queue, in the wait state, and the processor goes to the first task of the ready queue, from
  which only that one is taken.\<close>

theorem wait_event_sleeps:
  assumes "sched_rep s ts (r # rs)" and "lookup s ts (current_task_id s) = Some t" and "t \<notin> set (r # rs)"
    and "wait_rep s q is" and "i \<notin> set is"
  shows "\<exists>s'. wait_event_start q False (Some i) s = Some (s', True) \<and> wait_rep s' q (is @ [i]) \<and>
     wakes s' ts i t \<and> sched_rep s' ts rs \<and> state (tasks s' t) = TASK_STATE_WAIT \<and>
     current_task_id s' = task_id (tasks s r) \<and> elements_count s' q = elements_count s q + 1"
proof -
  have t: "t \<in> set ts" using lookup_in[OF assms(2)] by simp
  let ?s0 = "s\<lparr>wlinks := link_init (Item_Head i) (wlinks s)\<rparr>"
  let ?s1 = "?s0\<lparr>item_data := (item_data s)(i := Some t), item_func := (item_func s)(i := Schedule_Task_Function)\<rparr>"
  have "sched_rep ?s0 ts (r # rs)" using assms(1) by (subst sched_rep_cong[of _ s]) auto
  then have "get_current_task ?s0 = Some (Some t)"
    using assms(2) by (simp add: get_current_task_def find_task_rep lookup_def)
  then have 1: "sw_set_default_queue_item (Some i) ?s0 = Some ?s1"
    by (simp add: sw_set_default_queue_item_def sw_init_wakeup_func_def)
  have "dlist (link_init (Item_Head i) (wlinks s)) (Elements_List q) (map Item_Head is)"
    using assms(4,5) by (subst dlist_frame[of _ _ _ "wlinks s"]) (auto simp: wait_rep_def)
  then have "dlist (wlinks ?s1) (Elements_List q) (map Item_Head is)"
    "\<forall>j\<in>set is. data_of (wlinks ?s1) (Item_Head j) = Some j"
    using assms(4,5) by (auto simp: wait_rep_def)
  from pending_queue_add_rep[OF this assms(5)] obtain L where
    L: "sw_no_lock_pending_queue_add q i ?s1 =
       Some (?s1\<lparr>wlinks := L, elements_count := (elements_count s)(q := elements_count s q + 1)\<rparr>)"
    "wait_rep (?s1\<lparr>wlinks := L\<rparr>) q (is @ [i])" by auto
  let ?s2 = "?s1\<lparr>wlinks := L, elements_count := (elements_count s)(q := elements_count s q + 1)\<rparr>"
  have r2: "sched_rep ?s2 ts (r # rs)"
    using assms(1) by (subst sched_rep_cong[of _ s]) auto
  have l2: "lookup ?s2 ts (current_task_id ?s2) = Some t" using assms(2) by (simp add: lookup_def)
  let ?s3 = "set_state t TASK_STATE_WAIT ?s2"
  have "link_empty (wlinks ?s1) (Item_Head i)" by (simp add: link_empty_def)
  then have 3: "sw_atomic_queue_add_and_state q i TASK_STATE_WAIT ?s1 = Some ?s3"
    using L(1) sw_set_task_state_rep[OF r2 l2] by (simp add: sw_atomic_queue_add_and_state_def)
  have r3: "sched_rep ?s3 ts (r # rs)" using r2 by simp
  have "lookup ?s3 ts (current_task_id ?s3) = Some t"
    using l2 by simp
  moreover have "\<not> runnable ?s3 t" by (simp add: runnable_def)
  ultimately obtain L3 where L3: "scheduler ?s3 = Some (task_context_switch (Some r) (Some t) (update_current_task (Some r)
       (set_state r TASK_STATE_RUNNING (?s3\<lparr>links := L3\<rparr>))))" "sched_rep (?s3\<lparr>links := L3\<rparr>) ts rs"
    using scheduler_blocked[OF r3 _ assms(3)] by blast
  let ?s' = "task_context_switch (Some r) (Some t) (update_current_task (Some r)
       (set_state r TASK_STATE_RUNNING (?s3\<lparr>links := L3\<rparr>)))"
  have "wait_event_start q False (Some i) s = Some (?s', True)"
    using 1 3 L3(1) by (simp add: wait_event_start_def)
  moreover have "wait_rep ?s' q (is @ [i])"
    using L(2) by (subst wait_rep_cong[of _ "?s1\<lparr>wlinks := L\<rparr>"]) (simp_all add: task_context_switch_def update_current_task_def)
  moreover have "sched_rep ?s' ts rs"
    using L3(2) by (subst sched_rep_cong[of _ "?s3\<lparr>links := L3\<rparr>"]) (simp_all add: task_context_switch_def update_current_task_def)
  moreover have "r \<noteq> t" using assms(3) by auto
  ultimately show ?thesis using t
    by (intro exI[of _ ?s']) (simp add: wakes_def task_context_switch_def update_current_task_def)
qed

section \<open>A concrete state\<close>

text \<open>The three tasks of \<open>demo_global\<close>; the items 5 and 6 of the tasks 1 and 2 are on the queue 0,
  and the queue 1 is empty.\<close>

definition demo_wait :: wait_state where
  "demo_wait =
     \<lparr>links = links demo_global, tasks = tasks demo_global, current_task_id = 17,
      task_id_pool = (\<lambda>_. 1), switches = [],
      wlinks = link_between (Item_Head 5) (Item_Head 6) (Elements_List 0)
        (link_between (Elements_List 0) (Item_Head 5) (Elements_List 0)
          (set_link_data (Item_Head 6) (Some 6) (set_link_data (Item_Head 5) (Some 5)
            (link_init (Elements_List 1) (link_init (Elements_List 0)
              \<lparr>next_of = (\<lambda>_. None), prev_of = (\<lambda>_. None), data_of = (\<lambda>_. None)\<rparr>))))),
      elements_count = (\<lambda>q. if q = 0 then 2 else 0), item_data = (\<lambda>i. Some (i - 4)),
      item_func = (\<lambda>_. Schedule_Task_Function)\<rparr>"

lemma demo_wait_rep: "sched_rep demo_wait [1, 2, 3] [2, 3]" "wait_rep demo_wait 0 [5, 6]" "wait_rep demo_wait 1 []"
  "lookup demo_wait [1, 2, 3] (current_task_id demo_wait) = Some 1"
  using demo_global_rep
  by (simp_all add: sched_rep_def wait_rep_def lookup_def demo_wait_def dlist_def demo_global_def demo_task_def)

theorem sw_wakeup_all_schedules_witness:
  "\<exists>s'. sw_wakeup_all (\<lambda>_ _ _. Some) 0 WAKE_UP demo_wait = Some s' \<and> wait_rep s' 0 [5, 6] \<and>
     sched_rep s' [1, 2, 3] [2, 3, 1]"
proof -
  have "\<forall>i\<in>set [5, 6]. wakes demo_wait [1, 2, 3] i (i - 4)" by (simp add: wakes_def demo_wait_def)
  from sw_wakeup_all_schedules[OF demo_wait_rep(1,2) this, of "\<lambda>_ _ _. Some"]
  show ?thesis by (auto simp: join_once_def)
qed

theorem sw_wakeup_twice_wakes_one_witness:
  "\<exists>s1 s2. sw_wakeup (\<lambda>_ _ _. Some) 0 WAKE_UP demo_wait = Some s1 \<and>
     sw_wakeup (\<lambda>_ _ _. Some) 0 WAKE_UP s1 = Some s2 \<and>
     sched_rep s2 [1, 2, 3] [2, 3, 1] \<and> state (tasks s2 2) = state (tasks demo_wait 2)"
proof -
  have "wakes demo_wait [1, 2, 3] 5 1" by (simp add: wakes_def demo_wait_def)
  from sw_wakeup_twice_wakes_one[OF demo_wait_rep(1,2) this, of "\<lambda>_ _ _. Some"]
  show ?thesis by (auto simp: join_once_def)
qed

theorem wait_event_sleeps_witness:
  "\<exists>s'. wait_event_start 1 False (Some 9) demo_wait = Some (s', True) \<and> wait_rep s' 1 [9] \<and>
     sched_rep s' [1, 2, 3] [3] \<and> state (tasks s' 1) = TASK_STATE_WAIT \<and> current_task_id s' = 18"
proof -
  have "task_id (tasks demo_wait 2) = 18" by (simp add: demo_wait_def demo_global_def demo_task_def)
  then show ?thesis
    using wait_event_sleeps[OF demo_wait_rep(1,4) _ demo_wait_rep(3), of 9] by auto
qed

end
