(* ===== verification/Str_Mem.thy ===== *)
theory Str_Mem
  imports Prelude "HOL-Library.Monad_Syntax"
begin

text \<open>
  The string and memory routines \<^verbatim>\<open>lib/common/sw_string_functions.c\<close> and
  \<^verbatim>\<open>lib/common/sw_mem_functions.c\<close>.  Memory is a function from 32-bit addresses to bytes
  (\<^verbatim>\<open>char\<close> is unsigned on this target), a pointer is an address.  The loops that only stop at a
  zero byte are partial functions: \<open>None\<close> when memory holds none.
\<close>

type_synonym bytes = "u32 \<Rightarrow> u8"

section \<open>Bounded string routines\<close>

text \<open>The rest of the loop of \<^verbatim>\<open>sw_strncmp\<close> from index \<open>i\<close> on, \<open>k\<close> iterations at most.  \<^verbatim>\<open>*str1\<close> and
  \<^verbatim>\<open>*str2\<close> are the first characters in every iteration.\<close>

fun strncmp_loop :: "bytes \<Rightarrow> u32 \<Rightarrow> u32 \<Rightarrow> u32 \<Rightarrow> nat \<Rightarrow> unit sw_result" where
  "strncmp_loop m s1 s2 i 0 = Inr ()"
| "strncmp_loop m s1 s2 i (Suc k) =
     (if m (s1 + i) = 0 \<and> m (s2 + i) = 0 then Inr ()
      else if m (s1 + i) \<noteq> m (s2 + i) \<and> m s1 \<noteq> 0 \<and> m s2 \<noteq> 0 then Inl SW_EINVAL
      else strncmp_loop m s1 s2 (i + 1) k)"

text \<open>\<^verbatim>\<open>n\<close> is a C \<^verbatim>\<open>int\<close>.\<close>

definition sw_strncmp :: "bytes \<Rightarrow> u32 \<Rightarrow> u32 \<Rightarrow> u32 \<Rightarrow> unit sw_result" where
  "sw_strncmp m s1 s2 n = strncmp_loop m s1 s2 0 (nat (sint n))"

fun strnlen_loop :: "bytes \<Rightarrow> u32 \<Rightarrow> nat \<Rightarrow> nat" where
  "strnlen_loop m s 0 = 0"
| "strnlen_loop m s (Suc n) = (if m s \<noteq> 0 then Suc (strnlen_loop m (s + 1) n) else 0)"

definition sw_strnlen :: "bytes \<Rightarrow> u32 \<Rightarrow> u32 \<Rightarrow> u32" where
  "sw_strnlen m s n = of_nat (strnlen_loop m s (unat n))"

fun strncpy_loop :: "u32 \<Rightarrow> u32 \<Rightarrow> nat \<Rightarrow> bytes \<Rightarrow> bytes" where
  "strncpy_loop d s 0 m = m"
| "strncpy_loop d s (Suc n) m =
     (let m' = m(d := m s) in if m' d = 0 then m' else strncpy_loop (d + 1) (s + 1) n m')"

definition sw_strncpy :: "u32 \<Rightarrow> u32 \<Rightarrow> u32 \<Rightarrow> bytes \<Rightarrow> bytes" where
  "sw_strncpy dest src n m = strncpy_loop dest src (unat n) m"

text \<open>The check lets a copy pass that is too long for one of the two.\<close>

definition sw_maxstrncpy :: "u32 \<Rightarrow> u32 \<Rightarrow> u32 \<Rightarrow> u32 \<Rightarrow> u32 \<Rightarrow> bytes \<Rightarrow> bytes \<times> u32" where
  "sw_maxstrncpy dest src n destLen srcLen m =
     (if n \<le> destLen \<or> n \<le> srcLen then (sw_strncpy dest src n m, dest) else (m, 0))"

text \<open>Eight digits become eight nibbles, the first the most significant; \<open>acc\<close> is \<^verbatim>\<open>digit_int\<close>, which
  keeps its old bits.\<close>

fun strtoi_loop :: "bytes \<Rightarrow> u32 \<Rightarrow> nat \<Rightarrow> nat \<Rightarrow> u32 \<Rightarrow> u32 \<Rightarrow> u32 sw_result" where
  "strtoi_loop m s i 0 acc ret = Inr ret"
| "strtoi_loop m s i (Suc k) acc ret =
     (let c = m (s + of_nat i) in
      if c < 0x30 \<or> c > 0x39 then Inl SW_EINVAL
      else let acc' = push_bit (32 - (i + 1) * 4) (acc OR ucast (c - 0x30))
           in strtoi_loop m s (Suc i) k acc' (ret OR acc'))"

definition sw_strtoi :: "bytes \<Rightarrow> u32 \<Rightarrow> u32 sw_result" where
  "sw_strtoi m s = strtoi_loop m s 0 8 0 0"

section \<open>String routines that stop at a zero byte\<close>

partial_function (option) strlen_from :: "bytes \<Rightarrow> u32 \<Rightarrow> u32 \<Rightarrow> u32 option" where
  "strlen_from m s sc = (if m sc \<noteq> 0 then strlen_from m s (sc + 1) else Some (sc - s))"

declare strlen_from.simps [code]

definition sw_strlen :: "bytes \<Rightarrow> u32 \<Rightarrow> u32 option" where
  "sw_strlen m s = strlen_from m s s"

partial_function (option) strcpy_from :: "u32 \<Rightarrow> u32 \<Rightarrow> bytes \<Rightarrow> bytes option" where
  "strcpy_from d s m =
     (if m s \<noteq> 0 then strcpy_from (d + 1) (s + 1) (m(d := m s)) else Some (m(d := m s)))"

declare strcpy_from.simps [code]

definition sw_strcpy :: "u32 \<Rightarrow> u32 \<Rightarrow> bytes \<Rightarrow> bytes option" where
  "sw_strcpy dest src m = strcpy_from dest src m"

partial_function (option) sw_strcmp :: "bytes \<Rightarrow> u32 \<Rightarrow> u32 \<Rightarrow> int option" where
  "sw_strcmp m s1 s2 =
     (if m s1 = m s2
      then if m s1 = 0 \<and> m s2 = 0 then Some 0 else sw_strcmp m (s1 + 1) (s2 + 1)
      else Some (if m s1 < m s2 then - 1 else 1))"

declare sw_strcmp.simps [code]

definition sw_strcat :: "u32 \<Rightarrow> u32 \<Rightarrow> bytes \<Rightarrow> bytes option" where
  "sw_strcat dest src m = do { n \<leftarrow> sw_strlen m dest; strcpy_from (dest + n) src m }"

fun strncat_loop :: "u32 \<Rightarrow> u32 \<Rightarrow> nat \<Rightarrow> bytes \<Rightarrow> bytes \<times> u32" where
  "strncat_loop d s 0 m = (m, d)"
| "strncat_loop d s (Suc n) m =
     (let m' = m(d := m s) in if m' d = 0 then (m', d) else strncat_loop (d + 1) (s + 1) n m')"

definition sw_strncat :: "u32 \<Rightarrow> u32 \<Rightarrow> u32 \<Rightarrow> bytes \<Rightarrow> bytes option" where
  "sw_strncat dest src n m =
     (if n = 0 then Some m
      else do {
        l \<leftarrow> sw_strlen m dest;
        Some (case strncat_loop (dest + l) src (unat n) m of (m', d) \<Rightarrow> m'(d := 0))
      })"

text \<open>The address of the first \<open>c\<close>, 0 for \<^verbatim>\<open>NULL\<close>.\<close>

partial_function (option) sw_strchr :: "bytes \<Rightarrow> u32 \<Rightarrow> u8 \<Rightarrow> u32 option" where
  "sw_strchr m s c =
     (if m s \<noteq> c then if m s = 0 then Some 0 else sw_strchr m (s + 1) c else Some s)"

declare sw_strchr.simps [code]

section \<open>Memory routines\<close>

fun copy_up :: "u32 \<Rightarrow> u32 \<Rightarrow> nat \<Rightarrow> bytes \<Rightarrow> bytes" where
  "copy_up d s 0 m = m"
| "copy_up d s (Suc n) m = copy_up (d + 1) (s + 1) n (m(d := m s))"

text \<open>The pointers are one past the bytes to copy.\<close>

fun copy_down :: "u32 \<Rightarrow> u32 \<Rightarrow> nat \<Rightarrow> bytes \<Rightarrow> bytes" where
  "copy_down d s 0 m = m"
| "copy_down d s (Suc n) m = copy_down (d - 1) (s - 1) n (m(d - 1 := m (s - 1)))"

definition sw_memmove :: "u32 \<Rightarrow> u32 \<Rightarrow> u32 \<Rightarrow> bytes \<Rightarrow> bytes" where
  "sw_memmove dest src count m =
     (if dest \<le> src then copy_up dest src (unat count) m
      else copy_down (dest + count) (src + count) (unat count) m)"

fun memset_loop :: "u32 \<Rightarrow> u8 \<Rightarrow> nat \<Rightarrow> bytes \<Rightarrow> bytes" where
  "memset_loop d c 0 m = m"
| "memset_loop d c (Suc n) m = memset_loop (d + 1) c n (m(d := c))"

definition sw_memset :: "u32 \<Rightarrow> u32 \<Rightarrow> u32 \<Rightarrow> bytes \<Rightarrow> bytes" where
  "sw_memset dest c count m = memset_loop dest (ucast c) (unat count) m"

definition copy_word :: "u32 \<Rightarrow> u32 \<Rightarrow> bytes \<Rightarrow> bytes" where
  "copy_word d s m = m(d := m s, d + 1 := m (s + 1), d + 2 := m (s + 2), d + 3 := m (s + 3))"

text \<open>The word loop: \<open>i\<close> bytes are copied already; \<^verbatim>\<open>i + 3 > count - 1\<close> ends it when fewer than
  four bytes are left.  Counts are below \<open>2 ^ 31\<close>, as the index is an \<^verbatim>\<open>int\<close>.\<close>

function memcpy_words :: "u32 \<Rightarrow> u32 \<Rightarrow> nat \<Rightarrow> nat \<Rightarrow> bytes \<Rightarrow> nat \<times> u32 \<times> u32 \<times> bytes" where
  "memcpy_words d s i count m =
     (if i < count \<and> \<not> i + 3 > count - 1
      then memcpy_words (d + 4) (s + 4) (i + 4) count (copy_word d s m)
      else (i, d, s, m))"
  by auto

termination
  by (relation "measure (\<lambda>(d, s, i, count, m). count - i)") auto

declare memcpy_words.simps [simp del]

definition sw_memcpy :: "u32 \<Rightarrow> u32 \<Rightarrow> u32 \<Rightarrow> bytes \<Rightarrow> bytes" where
  "sw_memcpy dst src count m =
     (if src AND 3 = 0 \<and> dst AND 3 = 0
      then case memcpy_words dst src 0 (unat count) m of (i, d, s, m') \<Rightarrow> copy_up d s (unat count - i) m'
      else copy_up dst src (unat count) m)"

definition sw_memncpy :: "u32 \<Rightarrow> u32 \<Rightarrow> u32 \<Rightarrow> u32 \<Rightarrow> u32 \<Rightarrow> bytes \<Rightarrow> bytes \<times> u32" where
  "sw_memncpy dst src count dst_len src_len m =
     (if count \<le> dst_len \<or> count \<le> src_len then (sw_memcpy dst src count m, dst) else (m, 0))"

text \<open>The number of equal leading bytes.  When all are equal the last pair is compared once more, for
  the length 0 the bytes before the buffers.\<close>

fun equal_bytes :: "bytes \<Rightarrow> u32 \<Rightarrow> u32 \<Rightarrow> nat \<Rightarrow> nat" where
  "equal_bytes m a b 0 = 0"
| "equal_bytes m a b (Suc n) = (if m a = m b then Suc (equal_bytes m (a + 1) (b + 1) n) else 0)"

definition sw_memcmp :: "bytes \<Rightarrow> u32 \<Rightarrow> u32 \<Rightarrow> u32 \<Rightarrow> int" where
  "sw_memcmp m src dest len =
     (let counter = of_nat (equal_bytes m src dest (unat len)) :: u32;
          k = (if counter = len then counter - 1 else counter)
      in uint (m (src + k)) - uint (m (dest + k)))"

section \<open>Copying\<close>

text \<open>The memory in which the \<open>n\<close> bytes at \<open>d\<close> are what was at \<open>s\<close> before.\<close>

definition copied :: "u32 \<Rightarrow> u32 \<Rightarrow> nat \<Rightarrow> bytes \<Rightarrow> bytes" where
  "copied d s n m = (\<lambda>a. if unat (a - d) < n then m (s + (a - d)) else m a)"



lemma unat_dec: "x \<noteq> 0 \<Longrightarrow> unat (x - 1 :: u32) = unat x - 1"
  by (simp add: unat_minus_one)

text \<open>Copying upwards is right when no byte is read after it has been overwritten.\<close>

definition reads_before_writes :: "u32 \<Rightarrow> u32 \<Rightarrow> nat \<Rightarrow> bool" where
  "reads_before_writes d s n \<longleftrightarrow> (\<forall>x y. unat x < n \<longrightarrow> unat y < unat x \<longrightarrow> s + x \<noteq> d + y)"

lemma copy_up_copied:
  "reads_before_writes d s n \<Longrightarrow> n \<le> 2 ^ 32 \<Longrightarrow> copy_up d s n m = copied d s n m"
proof (induction n arbitrary: d s m)
  case 0
  then show ?case by (simp add: copied_def)
next
  case (Suc n)
  let ?m = "m(d := m s)"
  have "reads_before_writes (d + 1) (s + 1) n"
    unfolding reads_before_writes_def
  proof (intro allI impI)
    fix x y :: u32
    assume "unat x < n" "unat y < unat x"
    then have "unat (x + 1) = unat x + 1" "unat (y + 1) = unat y + 1" "unat x < n"
      using Suc.prems(2) by (auto simp: unat_word_ariths)
    then have "s + (x + 1) \<noteq> d + (y + 1)"
      using Suc.prems(1) \<open>unat y < unat x\<close> by (auto simp only: reads_before_writes_def Suc_eq_plus1 add_less_cancel_right)
    then show "s + 1 + x \<noteq> d + 1 + y" by (simp add: algebra_simps)
  qed
  then have "copy_up d s (Suc n) m = copied (d + 1) (s + 1) n ?m" using Suc by simp
  also have "\<dots> = copied d s (Suc n) m"
  proof
    fix a
    define x where "x = a - d"
    have a: "a = d + x" "a - (d + 1) = x - 1" by (simp_all add: x_def)
    have sx: "s + 1 + (x - 1) = s + x" by simp
    show "copied (d + 1) (s + 1) n ?m a = copied d s (Suc n) m a"
    proof (cases "x = 0")
      case True
      then have "unat (x - 1) = 2 ^ 32 - 1" by (simp add: unsigned_minus_1_eq_mask mask_eq_exp_minus_1)
      then have "\<not> unat (x - 1) < n" using Suc.prems(2) by simp
      then show ?thesis unfolding copied_def a(2) x_def[symmetric] using True a(1) by simp
    next
      case False
      then have u: "unat (x - 1) < n \<longleftrightarrow> unat x < Suc n" using unat_dec[OF False] unat_gt_0[of x] by auto
      moreover have "s + x \<noteq> d" if "unat x < Suc n"
      proof -
        have "unat (0 :: u32) < unat x" using False by (simp add: unat_gt_0)
        then have "s + x \<noteq> d + 0" using Suc.prems(1) that unfolding reads_before_writes_def by blast
        then show ?thesis by simp
      qed
      moreover have "a \<noteq> d" using False a(1) by simp
      ultimately show ?thesis unfolding copied_def a(2) x_def[symmetric] sx by auto
    qed
  qed
  finally show ?case .
qed

lemma copy_down_copied:
  "unat s \<le> unat d \<Longrightarrow> unat d + n \<le> 2 ^ 32 \<Longrightarrow>
     copy_down (d + of_nat n) (s + of_nat n) n m = copied d s n m"
proof (induction n arbitrary: m)
  case 0
  then show ?case by (simp add: copied_def)
next
  case (Suc n)
  let ?d = "d + of_nat n" and ?s = "s + of_nat n"
  let ?m = "m(?d := m ?s)"
  have un: "unat (of_nat n :: u32) = n" using Suc.prems(2) by (simp add: unat_of_nat)
  have dn: "unat ?d = unat d + n" using Suc.prems(2) un by (simp add: unat_word_ariths)
  have "copy_down (d + of_nat (Suc n)) (s + of_nat (Suc n)) (Suc n) m = copy_down ?d ?s n ?m"
    by (simp add: algebra_simps)
  also have "\<dots> = copied d s n ?m" using Suc by simp
  also have "\<dots> = copied d s (Suc n) m"
  proof
    fix a
    define x where "x = a - d"
    have a: "a = d + x" by (simp add: x_def)
    consider "unat x < n" | "unat x = n" | "unat x > n" by linarith
    then show "copied d s n ?m a = copied d s (Suc n) m a"
    proof cases
      case 1
      then have "unat (s + x) = unat s + unat x" using Suc.prems by (simp add: unat_word_ariths)
      then have "s + x \<noteq> ?d" using 1 dn Suc.prems(1) by auto
      then show ?thesis using 1 unfolding copied_def x_def[symmetric] by simp
    next
      case 2
      then have "unat x = unat (of_nat n :: u32)" using un by simp
      then have "x = of_nat n" by (rule unsigned_word_eqI)
      then show ?thesis using 2 a unfolding copied_def x_def[symmetric] by simp
    next
      case 3
      then have "a \<noteq> ?d" using un a by auto
      then show ?thesis using 3 unfolding copied_def x_def[symmetric] by simp
    qed
  qed
  finally show ?case .
qed

lemma copy_up_add: "copy_up d s (k + n) m = copy_up (d + of_nat k) (s + of_nat k) n (copy_up d s k m)"
  by (induction k arbitrary: d s m) (simp_all add: algebra_simps)

definition disjoint_ranges :: "u32 \<Rightarrow> u32 \<Rightarrow> nat \<Rightarrow> bool" where
  "disjoint_ranges d s n \<longleftrightarrow> unat d + n \<le> unat s \<or> unat s + n \<le> unat d"


lemma copy_word_up:
  assumes "disjoint_ranges d s 4" and "unat d + 4 \<le> 2 ^ 32" and "unat s + 4 \<le> 2 ^ 32"
  shows "copy_word d s m = copy_up d s 4 m"
proof -
  have add: "unat (d + k) = unat d + unat k" "unat (s + k) = unat s + unat k" if "k < 4" for k :: u32
    using assms(2,3) that by (auto simp: unat_word_ariths word_less_nat_alt)
  have ne: "s + j \<noteq> d + k" if "j < 4" "k < 4" for j k :: u32
    using assms(1) that add[of j] add[of k] by (auto simp: disjoint_ranges_def word_less_nat_alt)
  have "s + 1 \<noteq> d" "s + 2 \<noteq> d" "s + 2 \<noteq> d + 1" "s + 3 \<noteq> d" "s + 3 \<noteq> d + 1" "s + 3 \<noteq> d + 2"
    using ne[of 1 0] ne[of 2 0] ne[of 2 1] ne[of 3 0] ne[of 3 1] ne[of 3 2] by simp_all
  moreover have four: "(4 :: nat) = Suc (Suc (Suc (Suc 0)))" by simp
  moreover have "d + 1 + 1 = d + 2" "d + 1 + 1 + 1 = d + 3" "s + 1 + 1 = s + 2" "s + 1 + 1 + 1 = s + 3"
    by simp_all
  ultimately show ?thesis by (simp only: four copy_word_def copy_up.simps) (simp add: fun_eq_iff)
qed

lemma disjoint_reads_before_writes:
  assumes "disjoint_ranges d s n" and "unat d + n \<le> 2 ^ 32" and "unat s + n \<le> 2 ^ 32"
  shows "reads_before_writes d s n"
  unfolding reads_before_writes_def
proof (intro allI impI)
  fix x y :: u32
  assume xy: "unat x < n" "unat y < unat x"
  then have "unat (s + x) = unat s + unat x" "unat (d + y) = unat d + unat y"
    using assms(2,3) by (auto simp: unat_word_ariths)
  then show "s + x \<noteq> d + y" using assms(1) xy by (auto simp: disjoint_ranges_def)
qed

lemma forward_reads_before_writes:
  assumes "unat d \<le> unat s" and "unat s + n \<le> 2 ^ 32"
  shows "reads_before_writes d s n"
  unfolding reads_before_writes_def
proof (intro allI impI)
  fix x y :: u32
  assume xy: "unat x < n" "unat y < unat x"
  then have "unat (s + x) = unat s + unat x" "unat (d + y) = unat d + unat y"
    using assms by (auto simp: unat_word_ariths)
  then show "s + x \<noteq> d + y" using assms(1) xy by auto
qed

lemma memcpy_words_copy:
  "disjoint_ranges d s (n - i) \<Longrightarrow> unat d + (n - i) \<le> 2 ^ 32 \<Longrightarrow> unat s + (n - i) \<le> 2 ^ 32 \<Longrightarrow>
     memcpy_words d s i n m = (i', d', s', m') \<Longrightarrow> copy_up d' s' (n - i') m' = copy_up d s (n - i) m"
proof (induction d s i n m rule: memcpy_words.induct)
  case (1 d s i n m)
  show ?case
  proof (cases "i < n \<and> \<not> i + 3 > n - 1")
    case False
    then have "memcpy_words d s i n m = (i, d, s, m)" by (subst memcpy_words.simps) (simp only: if_False)
    then show ?thesis using "1.prems"(4) by simp
  next
    case True
    note go = True
    define k where "k = n - (i + 4)"
    have n: "n - i = 4 + k" using go by (auto simp: k_def)
    have step: "memcpy_words d s i n m = memcpy_words (d + 4) (s + 4) (i + 4) n (copy_word d s m)"
      using go by (subst memcpy_words.simps) (simp only: simp_thms if_True)
    have word: "copy_word d s m = copy_up d s 4 m"
      using "1.prems"(1-3) n by (intro copy_word_up) (auto simp: disjoint_ranges_def)
    have "copy_up d' s' (n - i') m' = copy_up (d + 4) (s + 4) k (copy_word d s m)"
    proof (cases "k = 0")
      case True
      then have "i + 4 = n" using n by auto
      moreover from this have "memcpy_words (d + 4) (s + 4) (i + 4) n (copy_word d s m) = (n, d + 4, s + 4, copy_word d s m)"
        by (subst memcpy_words.simps) (simp only: less_irrefl simp_thms if_False)
      ultimately show ?thesis using "1.prems"(4) step True by simp
    next
      case False
      have "unat (d + 4) = (unat d + 4) mod 2 ^ 32" "unat (s + 4) = (unat s + 4) mod 2 ^ 32"
        by (simp_all add: unat_word_ariths)
      then have nw: "unat (d + 4) = unat d + 4" "unat (s + 4) = unat s + 4"
        using "1.prems"(2,3) n False by simp_all
      show ?thesis
      proof (rule "1.IH"[OF go, folded k_def])
        show "disjoint_ranges (d + 4) (s + 4) k"
          using "1.prems"(1) n nw by (auto simp: disjoint_ranges_def)
        show "unat (d + 4) + k \<le> 2 ^ 32" "unat (s + 4) + k \<le> 2 ^ 32"
          using "1.prems"(2,3) n nw by simp_all
        show "memcpy_words (d + 4) (s + 4) (i + 4) n (copy_word d s m) = (i', d', s', m')"
          using "1.prems"(4) step by simp
      qed
    qed
    then show ?thesis unfolding n copy_up_add word by simp
  qed
qed

lemma memmove_memcpy:
  assumes "unat dest + unat count \<le> 2 ^ 32" and "unat src + unat count \<le> 2 ^ 32"
  shows "sw_memmove dest src count m = copied dest src (unat count) m \<and>
     (disjoint_ranges dest src (unat count) \<longrightarrow> sw_memcpy dest src count m = copied dest src (unat count) m)"
proof (intro conjI impI)
  let ?n = "unat count"
  have n: "?n \<le> 2 ^ 32" using assms(1) by simp
  show "sw_memmove dest src count m = copied dest src ?n m"
  proof (cases "dest \<le> src")
    case True
    then show ?thesis
      using copy_up_copied[OF forward_reads_before_writes n] assms(2)
      by (simp add: sw_memmove_def word_le_nat_alt)
  next
    case False
    then have "copy_down (dest + of_nat ?n) (src + of_nat ?n) ?n m = copied dest src ?n m"
      using assms(1) by (intro copy_down_copied) (simp_all add: word_le_nat_alt)
    then show ?thesis using False by (simp add: sw_memmove_def)
  qed
  assume d: "disjoint_ranges dest src ?n"
  have c: "copy_up dest src ?n m = copied dest src ?n m"
    using copy_up_copied[OF disjoint_reads_before_writes[OF d assms] n] .
  obtain i' d' s' m' where w: "memcpy_words dest src 0 ?n m = (i', d', s', m')" by (metis prod_cases4)
  have "copy_up d' s' (?n - i') m' = copy_up dest src ?n m"
    using memcpy_words_copy[of dest src ?n 0 m i' d' s' m'] d assms w by simp
  then show "sw_memcpy dest src count m = copied dest src ?n m"
    using c w by (simp add: sw_memcpy_def)
qed

text \<open>C39. \<^verbatim>\<open>sw_memmove\<close> copies right for overlapping buffers too: afterwards the destination holds
  what the source held before and every other byte is as it was; on disjoint buffers
  \<^verbatim>\<open>sw_memcpy\<close>, which copies by words when both pointers are aligned, does the same.\<close>

theorem memmove_memcpy_copy:
  assumes "unat dest + unat count \<le> 2 ^ 32" and "unat src + unat count \<le> 2 ^ 32"
  shows "sw_memmove dest src count m = copied dest src (unat count) m \<and>
     (disjoint_ranges dest src (unat count) \<longrightarrow> sw_memcpy dest src count m = copied dest src (unat count) m)"
  using assms by (rule memmove_memcpy)

theorem memmove_memcpy_copy_witness:
  "\<forall>m. sw_memmove 0x1002 0x1000 4 m 0x1004 = m 0x1002 \<and> sw_memcpy 0x2000 0x1000 5 m 0x2004 = m 0x1004"
proof
  fix m
  have "sw_memmove 0x1002 0x1000 4 m = copied 0x1002 0x1000 4 m"
    using memmove_memcpy_copy[of "0x1002" 4 "0x1000" m] by simp
  moreover have "sw_memcpy 0x2000 0x1000 5 m = copied 0x2000 0x1000 5 m"
    using memmove_memcpy_copy[of "0x2000" 5 "0x1000" m] by (simp add: disjoint_ranges_def)
  ultimately show "sw_memmove 0x1002 0x1000 4 m 0x1004 = m 0x1002 \<and> sw_memcpy 0x2000 0x1000 5 m 0x2004 = m 0x1004"
    by (simp add: copied_def)
qed

end
