(* ===== verification/Sem.thy ===== *)
theory Sem
  imports Links Str_Mem "HOL-Library.Sublist"
begin

text \<open>
  Kernel mutexes and semaphores, \<^verbatim>\<open>lib/kernel/sw_semaphores.c\<close>, with the exclusive-access
  primitives of \<^verbatim>\<open>arch/arm/armv7/sw_semaphores_asm.S\<close>.  The named objects are found through
  linked lists; a pointer is an address, and the name is the first field of either structure.
  The operations that may block are programs with one control point per access to the lock word,
  the wait queue and the owner, so that every interleaving of several tasks is a run of the step
  relation \<open>mutex_step\<close>.
\<close>

section \<open>Exclusive access\<close>

definition OTZ_FREE :: u32 where "OTZ_FREE = 0"
definition OTZ_LOCKED :: u32 where "OTZ_LOCKED = 1"
definition OTZ_ACQUIRED :: u32 where "OTZ_ACQUIRED = 1"
definition OTZ_RELEASED :: u32 where "OTZ_RELEASED = 0"

text \<open>\<open>fs\<close> are the outcomes of the exclusive stores to come; after them they succeed.  The result is
  the lock word and the returned value.\<close>

fun cpu_acquire_mutex :: "bool list \<Rightarrow> u32 \<Rightarrow> u32 \<times> u32" where
  "cpu_acquire_mutex [] lock = (if lock \<noteq> 0 then (lock, 0) else (1, 1))"
| "cpu_acquire_mutex (f # fs) lock =
     (if lock \<noteq> 0 then (lock, 0) else if f then (1, 1) else cpu_acquire_mutex fs lock)"

text \<open>One pass of \<^verbatim>\<open>cpu_release_mutex\<close>, from its label to a return or to the branch back, with the
  lock word it leaves.  A successful store leaves 0 in \<^verbatim>\<open>r1\<close>, which is not 1, so the routine
  starts again (\<open>None\<close>) and accesses the lock a second time; a failed store leaves 1 there, so it
  returns 0 with the lock still held.\<close>

definition cpu_release_mutex :: "bool \<Rightarrow> u32 \<Rightarrow> u32 \<times> u32 option" where
  "cpu_release_mutex f lock =
     (if lock \<noteq> 1 then (lock, Some 1) else if f then (0, None) else (lock, Some 0))"

definition cpu_acquire_mutex_nowait :: "bool \<Rightarrow> u32 \<Rightarrow> u32 \<times> u32" where
  "cpu_acquire_mutex_nowait f lock =
     (if lock \<noteq> 0 then (lock, lock) else if f then (1, 0) else (lock, 1))"

fun cpu_acquire_semaphore :: "bool list \<Rightarrow> u32 \<Rightarrow> u32 \<times> u32" where
  "cpu_acquire_semaphore [] c = (if c = 0 then (c, 0) else (c - 1, 1))"
| "cpu_acquire_semaphore (f # fs) c =
     (if c = 0 then (c, 0) else if f then (c - 1, 1) else cpu_acquire_semaphore fs c)"

fun cpu_release_semaphore :: "bool list \<Rightarrow> u32 \<Rightarrow> u32 \<Rightarrow> u32 \<times> u32" where
  "cpu_release_semaphore [] c n = (if c = n then (c, 1) else (c + 1, 0))"
| "cpu_release_semaphore (f # fs) c n =
     (if c = n then (c, 1) else if f then (c + 1, 0) else cpu_release_semaphore fs c n)"

section \<open>Named objects\<close>

record sw_mutex =
  init_param :: u32
  lock_param :: u32
  owner_id :: u32

record sw_semaphore =
  sem_init :: u32
  count :: u32
  condition :: u32
  counter_param :: u32

type_synonym optr = u32

datatype scell = Mutex_List | Semaphore_List | Mutex_Head optr | Sem_Head optr

text \<open>\<open>locked\<close>: the list lock is held and interrupts are off.\<close>

record sem_state =
  smem :: bytes
  slinks :: "(scell, optr) links"
  mutexes :: "optr \<Rightarrow> sw_mutex"
  semaphores :: "optr \<Rightarrow> sw_semaphore"
  locked :: bool
  sem_freed :: "optr list"

definition MAX_NAME_LEN :: u32 where "MAX_NAME_LEN = 255"

text \<open>The comparison of an object's name with the requested one: as many characters as the latter
  has.\<close>

definition name_matches :: "bytes \<Rightarrow> u32 \<Rightarrow> optr option \<Rightarrow> bool" where
  "name_matches m name d =
     (case d of None \<Rightarrow> False
      | Some obj \<Rightarrow> sw_strncmp m obj name (sw_strnlen m name MAX_NAME_LEN) = Inr ())"

text \<open>\<open>mem\<close> is what the heap answers.  When it has nothing, the function returns with the list lock
  held.\<close>

definition sw_mutex_init :: "u32 \<Rightarrow> optr option \<Rightarrow> sem_state \<Rightarrow> (sem_state \<times> optr sw_result) option" where
  "sw_mutex_init name mem s = do {
     let s0 = s\<lparr>locked := True\<rparr> in do {
       c \<leftarrow> link_find (slinks s0) (name_matches (smem s0) name) Mutex_List;
       case c of
         Some l \<Rightarrow> do { m \<leftarrow> data_of (slinks s0) l; Some (s0\<lparr>locked := False\<rparr>, Inr m) }
       | None \<Rightarrow>
           (case mem of None \<Rightarrow> Some (s0, Inl SW_ENOMEM)
            | Some m \<Rightarrow> do {
                L \<leftarrow> add_link Mutex_List (Mutex_Head m) TAIL
                  (set_link_data (Mutex_Head m) (Some m) (link_init (Mutex_Head m) (slinks s0)));
                Some (s0\<lparr>slinks := L, smem := sw_strncpy m name MAX_NAME_LEN (smem s0),
                         mutexes := (mutexes s0)(m := \<lparr>init_param = 1, lock_param = OTZ_FREE, owner_id = 0\<rparr>),
                         locked := False\<rparr>, Inr m)
              })
     }
   }"

definition sw_mutex_destroy :: "optr \<Rightarrow> sem_state \<Rightarrow> (sem_state \<times> unit sw_result) option" where
  "sw_mutex_destroy m s =
     (if m = 0 then Some (s, Inl SW_EINVAL)
      else if lock_param (mutexes s m) \<noteq> OTZ_FREE then Some (s, Inl SW_EBUSY)
      else do {
        L \<leftarrow> remove_link (Mutex_Head m) (slinks s);
        Some (s\<lparr>mutexes := (mutexes s)(m := (mutexes s m)\<lparr>init_param := 0, owner_id := 0\<rparr>),
                slinks := L, sem_freed := sem_freed s @ [m]\<rparr>, Inr ())
      })"

text \<open>For a bad mutex the result is \<^verbatim>\<open>SW_OK\<close> with an error number.\<close>

definition sw_acquire_mutex_nowait ::
    "bool \<Rightarrow> u32 \<Rightarrow> optr \<Rightarrow> sem_state \<Rightarrow> sem_state \<times> sw_error option \<times> bool" where
  "sw_acquire_mutex_nowait f tid m s =
     (if m = 0 \<or> init_param (mutexes s m) = 0 then (s, Some SW_EINVAL, True)
      else case cpu_acquire_mutex_nowait f (lock_param (mutexes s m)) of (l, r) \<Rightarrow>
        let s1 = s\<lparr>mutexes := (mutexes s)(m := (mutexes s m)\<lparr>lock_param := l\<rparr>)\<rparr> in
        if r \<noteq> 0 then (s1, Some SW_EBUSY, False)
        else (s1\<lparr>mutexes := (mutexes s1)(m := (mutexes s1 m)\<lparr>owner_id := tid\<rparr>)\<rparr>, None, True))"

definition sw_semaphore_init ::
    "u32 \<Rightarrow> u32 \<Rightarrow> optr option \<Rightarrow> sem_state \<Rightarrow> (sem_state \<times> optr sw_result) option" where
  "sw_semaphore_init name value mem s = do {
     let s0 = s\<lparr>locked := True\<rparr> in do {
       c \<leftarrow> link_find (slinks s0) (name_matches (smem s0) name) Semaphore_List;
       case c of
         Some l \<Rightarrow> do { m \<leftarrow> data_of (slinks s0) l; Some (s0\<lparr>locked := False\<rparr>, Inr m) }
       | None \<Rightarrow>
           (case mem of None \<Rightarrow> Some (s0, Inl SW_ENOMEM)
            | Some m \<Rightarrow> do {
                L \<leftarrow> add_link Semaphore_List (Sem_Head m) TAIL
                  (set_link_data (Sem_Head m) (Some m) (link_init (Sem_Head m) (slinks s0)));
                Some (s0\<lparr>slinks := L, smem := sw_strncpy m name MAX_NAME_LEN (smem s0),
                         semaphores := (semaphores s0)(m := \<lparr>sem_init = 1, count = value,
                            condition = (if value = 0 then 1 else 0), counter_param = value\<rparr>),
                         locked := False\<rparr>, Inr m)
              })
     }
   }"

text \<open>\<^verbatim>\<open>sem->counter_param < 0\<close> is false for the unsigned counter, so a semaphore in use is deleted.\<close>

definition sw_delete_semaphore :: "optr \<Rightarrow> sem_state \<Rightarrow> (sem_state \<times> unit sw_result) option" where
  "sw_delete_semaphore m s =
     (if m = 0 then Some (s, Inl SW_EINVAL)
      else if uint (counter_param (semaphores s m)) < 0 then Some (s, Inl SW_EBUSY)
      else do {
        L \<leftarrow> remove_link (Sem_Head m) (slinks s);
        Some (s\<lparr>semaphores := (semaphores s)(m := (semaphores s m)\<lparr>counter_param := 0, sem_init := 0\<rparr>),
                slinks := L, sem_freed := sem_freed s @ [m]\<rparr>, Inr ())
      })"

definition sw_get_semaphore_count :: "optr \<Rightarrow> u32 \<Rightarrow> sem_state \<Rightarrow> u32 sw_result" where
  "sw_get_semaphore_count m val s =
     (if m = 0 \<or> sem_init (semaphores s m) = 0 \<or> val = 0 then Inl SW_EINVAL
      else Inr (counter_param (semaphores s m)))"

section \<open>One round of a semaphore operation\<close>

text \<open>The second component tells whether the loop ends; otherwise the task waits, for
  \<^verbatim>\<open>counter_param\<close> in the first case and for \<^verbatim>\<open>condition\<close>, which is set first, in the second.\<close>

definition sw_acquire_semaphore_round :: "bool list \<Rightarrow> sw_semaphore \<Rightarrow> sw_semaphore \<times> bool" where
  "sw_acquire_semaphore_round fs sem =
     (case cpu_acquire_semaphore fs (counter_param sem) of (c, r) \<Rightarrow>
        if r = OTZ_ACQUIRED
        then (sem\<lparr>counter_param := c, condition := (if c = 0 then 1 else 0)\<rparr>, True)
        else (sem\<lparr>counter_param := c\<rparr>, False))"

definition sw_release_semaphore_round :: "bool list \<Rightarrow> sw_semaphore \<Rightarrow> sw_semaphore \<times> bool" where
  "sw_release_semaphore_round fs sem =
     (case cpu_release_semaphore fs (counter_param sem) (count sem) of (c, r) \<Rightarrow>
        if r = OTZ_RELEASED then (sem\<lparr>counter_param := c\<rparr>, True)
        else (sem\<lparr>counter_param := c, condition := (if c = 0 then 1 else 0)\<rparr>, False))"

datatype sem_op = Acquire_Round "bool list" | Release_Round "bool list"

text \<open>A run of rounds, by whichever tasks; the number is what has been acquired and not released.\<close>

fun sem_run :: "sem_op list \<Rightarrow> sw_semaphore \<times> int \<Rightarrow> sw_semaphore \<times> int" where
  "sem_run [] st = st"
| "sem_run (Acquire_Round fs # ops) (sem, k) =
     (case sw_acquire_semaphore_round fs sem of (sem', b) \<Rightarrow> sem_run ops (sem', if b then k + 1 else k))"
| "sem_run (Release_Round fs # ops) (sem, k) =
     (case sw_release_semaphore_round fs sem of (sem', b) \<Rightarrow> sem_run ops (sem', if b then k - 1 else k))"

section \<open>Mutexes under interleaving\<close>

text \<open>Where a task is in \<^verbatim>\<open>_sw_acquire_mutex\<close> (up to \<open>Set_Owner\<close>) or \<^verbatim>\<open>_sw_release_mutex\<close> (from
  \<open>Release\<close> on).  \<open>Release_Again\<close> is the start of a further pass of \<^verbatim>\<open>cpu_release_mutex\<close> after the
  task's own store has unlocked the mutex.  An exclusive load and its store are one access: a
  store that another task's access has come between fails, and a failed pass of an acquisition
  changes nothing, so only its last pass is a step.  The kernel executes \<^verbatim>\<open>clrex\<close> in the
  monitor only, so this takes it that a switch of tasks loses the reservation.\<close>

datatype pc = Idle | Acquire | Wait_Test | Wait_Loop | Wait_Add | Asleep | Set_Owner | Holding | Release
  | Release_Again | Wake | Clear_Owner

record mutex_sys =
  mx :: sw_mutex
  waiters :: "u32 list"
  pcs :: "u32 \<Rightarrow> pc"

definition goto :: "u32 \<Rightarrow> pc \<Rightarrow> mutex_sys \<Rightarrow> mutex_sys" where
  "goto t p s = s\<lparr>pcs := (pcs s)(t := p)\<rparr>"

text \<open>One step of the task \<open>t\<close>.  An idle task calls \<^verbatim>\<open>_sw_acquire_mutex\<close>, one that holds the mutex
  calls \<^verbatim>\<open>_sw_release_mutex\<close>.  \<open>fs\<close> are the outcomes of the exclusive stores, \<open>ok\<close> tells whether the
  heap has room for a queue item.  A task asleep is not scheduled.\<close>

definition mutex_task_step :: "u32 \<Rightarrow> bool list \<Rightarrow> bool \<Rightarrow> mutex_sys \<Rightarrow> mutex_sys" where
  "mutex_task_step t fs ok s =
     (let m = mx s in
      case pcs s t of
        Idle \<Rightarrow> if init_param m = 0 then s else if owner_id m = t then s else goto t Acquire s
      | Acquire \<Rightarrow>
          (case cpu_acquire_mutex fs (lock_param m) of (l, r) \<Rightarrow>
             goto t (if r = OTZ_LOCKED then Set_Owner else Wait_Test) (s\<lparr>mx := m\<lparr>lock_param := l\<rparr>\<rparr>))
      | Wait_Test \<Rightarrow> goto t (if lock_param m \<noteq> 0 \<or> \<not> ok then Acquire else Wait_Loop) s
      | Wait_Loop \<Rightarrow>
          if lock_param m \<noteq> 0 then goto t Acquire (s\<lparr>waiters := remove1 t (waiters s)\<rparr>)
          else goto t Wait_Add s
      | Wait_Add \<Rightarrow> goto t Asleep (s\<lparr>waiters := (if t \<in> set (waiters s) then waiters s else waiters s @ [t])\<rparr>)
      | Asleep \<Rightarrow> s
      | Set_Owner \<Rightarrow> goto t Holding (s\<lparr>mx := m\<lparr>owner_id := t\<rparr>\<rparr>)
      | Holding \<Rightarrow> goto t (if init_param m = 0 \<or> owner_id m \<noteq> t then Idle else Release) s
      | Release \<Rightarrow>
          (case cpu_release_mutex (fs = [] \<or> hd fs) (lock_param m) of (l, r) \<Rightarrow>
             goto t (if r = None then Release_Again else Wake) (s\<lparr>mx := m\<lparr>lock_param := l\<rparr>\<rparr>))
      | Release_Again \<Rightarrow>
          (case cpu_release_mutex (fs = [] \<or> hd fs) (lock_param m) of (l, r) \<Rightarrow>
             goto t (if r = None then Release_Again else Wake) (s\<lparr>mx := m\<lparr>lock_param := l\<rparr>\<rparr>))
      | Wake \<Rightarrow>
          (case waiters s of [] \<Rightarrow> goto t Clear_Owner s
           | w # _ \<Rightarrow> goto t Clear_Owner (if pcs s w = Asleep then goto w Wait_Loop s else s))
      | Clear_Owner \<Rightarrow> goto t Idle (s\<lparr>mx := m\<lparr>owner_id := 0\<rparr>\<rparr>))"

text \<open>Task identifiers are not 0.\<close>

inductive mutex_step :: "mutex_sys \<Rightarrow> mutex_sys \<Rightarrow> bool" where
  task: "t \<noteq> 0 \<Longrightarrow> mutex_step s (mutex_task_step t fs ok s)"

inductive_cases mutex_stepE: "mutex_step s s'"

definition mutex_start :: mutex_sys where
  "mutex_start = \<lparr>mx = \<lparr>init_param = 1, lock_param = OTZ_FREE, owner_id = 0\<rparr>, waiters = [], pcs = (\<lambda>_. Idle)\<rparr>"

definition mutex_reachable :: "mutex_sys \<Rightarrow> bool" where
  "mutex_reachable s \<longleftrightarrow> mutex_step\<^sup>*\<^sup>* mutex_start s"

text \<open>The runs in which a task that starts a further pass of its release is not preempted before that
  pass: no other task is scheduled meanwhile.  Everywhere else the tasks interleave freely.\<close>

inductive mutex_calm_step :: "mutex_sys \<Rightarrow> mutex_sys \<Rightarrow> bool" where
  task: "t \<noteq> 0 \<Longrightarrow> \<forall>u. u \<noteq> t \<longrightarrow> pcs s u \<noteq> Release_Again \<Longrightarrow> mutex_calm_step s (mutex_task_step t fs ok s)"

inductive_cases mutex_calm_stepE: "mutex_calm_step s s'"

definition mutex_calm_reachable :: "mutex_sys \<Rightarrow> bool" where
  "mutex_calm_reachable s \<longleftrightarrow> mutex_calm_step\<^sup>*\<^sup>* mutex_start s"


section \<open>Mutual exclusion\<close>

lemma cpu_acquire_mutex_cases:
  "cpu_acquire_mutex fs l = (l', r) \<Longrightarrow> (l \<noteq> 0 \<and> l' = l \<and> r = 0) \<or> (l = 0 \<and> l' = 1 \<and> r = 1)"
  by (induction fs) (auto split: if_splits)

lemma cpu_release_mutex_cases:
  "cpu_release_mutex f l = (l', r) \<Longrightarrow> (l' = l \<and> r \<noteq> None) \<or> (l = 1 \<and> l' = 0 \<and> r = None)"
  by (auto simp: cpu_release_mutex_def split: if_splits)

lemma pcs_goto [simp]: "pcs (goto t p s) u = (if u = t then p else pcs s u)"
  and mx_goto [simp]: "mx (goto t p s) = mx s"
  and waiters_goto [simp]: "waiters (goto t p s) = waiters s"
  by (simp_all add: goto_def)

text \<open>Between the locking and the unlocking store.\<close>

definition critical :: "pc \<Rightarrow> bool" where
  "critical p \<longleftrightarrow> p = Set_Owner \<or> p = Holding \<or> p = Release"

definition mutex_inv :: "mutex_sys \<Rightarrow> bool" where
  "mutex_inv s \<longleftrightarrow>
     (\<forall>t. critical (pcs s t) \<longrightarrow> lock_param (mx s) = 1) \<and>
     (\<forall>t u. critical (pcs s t) \<longrightarrow> critical (pcs s u) \<longrightarrow> t = u) \<and>
     (\<forall>t. pcs s t = Release_Again \<longrightarrow> lock_param (mx s) = 0)"

lemma mutex_task_step_inv:
  assumes "mutex_inv s" and "\<forall>u. u \<noteq> t \<longrightarrow> pcs s u \<noteq> Release_Again"
  shows "mutex_inv (mutex_task_step t fs ok s)"
  using assms
  by (cases "pcs s t")
    (auto simp: mutex_inv_def mutex_task_step_def critical_def OTZ_LOCKED_def Let_def
      split: list.splits prod.splits dest!: cpu_acquire_mutex_cases cpu_release_mutex_cases)

lemma mutex_calm_reachable_inv: "mutex_calm_reachable s \<Longrightarrow> mutex_inv s"
  unfolding mutex_calm_reachable_def
proof (induction rule: rtranclp_induct)
  case base
  then show ?case by (simp add: mutex_inv_def mutex_start_def critical_def)
next
  case (step s s')
  then show ?case by (auto elim: mutex_calm_stepE intro: mutex_task_step_inv)
qed

text \<open>C31. Two tasks never hold a mutex at the same time, for any number of tasks and any outcomes of
  the exclusive stores, in every interleaving in which no task is preempted between two passes of
  its own \<^verbatim>\<open>cpu_release_mutex\<close>.  Preempted there, mutual exclusion is lost
  (\<open>mutex_exclusion_broken\<close>).\<close>

theorem mutex_exclusion:
  assumes "mutex_calm_reachable s" and "pcs s t = Holding" and "pcs s u = Holding"
  shows "t = u"
  using mutex_calm_reachable_inv[OF assms(1)] assms(2,3) by (auto simp: mutex_inv_def critical_def)

text \<open>Running a schedule.\<close>

fun mutex_run :: "(u32 \<times> bool list) list \<Rightarrow> mutex_sys \<Rightarrow> mutex_sys" where
  "mutex_run [] s = s"
| "mutex_run ((t, fs) # sch) s = mutex_run sch (mutex_task_step t fs True s)"

lemma mutex_run_reachable:
  "mutex_reachable s \<Longrightarrow> \<forall>(t, fs)\<in>set sch. t \<noteq> 0 \<Longrightarrow> mutex_reachable (mutex_run sch s)"
proof (induction sch arbitrary: s)
  case (Cons p sch)
  obtain t fs where p: "p = (t, fs)" by (cases p)
  have "mutex_step s (mutex_task_step t fs True s)" using Cons.prems(2) p by (auto intro: mutex_step.task)
  then have "mutex_reachable (mutex_task_step t fs True s)"
    using Cons.prems(1) by (auto simp: mutex_reachable_def intro: rtranclp.rtrancl_into_rtrancl)
  then show ?case using Cons p by auto
qed simp

lemma mutex_start_reachable: "mutex_reachable mutex_start"
  by (simp add: mutex_reachable_def)

text \<open>A schedule that respects the restriction.\<close>

fun calm :: "(u32 \<times> bool list) list \<Rightarrow> mutex_sys \<Rightarrow> bool" where
  "calm [] s \<longleftrightarrow> True"
| "calm ((t, fs) # sch) s \<longleftrightarrow>
     t \<noteq> 0 \<and> (\<forall>u. u \<noteq> t \<longrightarrow> pcs s u \<noteq> Release_Again) \<and> calm sch (mutex_task_step t fs True s)"

lemma mutex_run_calm: "mutex_calm_reachable s \<Longrightarrow> calm sch s \<Longrightarrow> mutex_calm_reachable (mutex_run sch s)"
proof (induction sch s rule: calm.induct)
  case (2 t fs sch s)
  then have "mutex_calm_step s (mutex_task_step t fs True s)" by (auto intro: mutex_calm_step.task)
  then have "mutex_calm_reachable (mutex_task_step t fs True s)"
    using 2 by (auto simp: mutex_calm_reachable_def intro: rtranclp.rtrancl_into_rtrancl)
  then show ?case using 2 by auto
qed simp

lemma mutex_calm_start: "mutex_calm_reachable mutex_start"
  by (simp add: mutex_calm_reachable_def)

lemmas mutex_run_eval = mutex_task_step_def mutex_start_def OTZ_FREE_def OTZ_LOCKED_def
  cpu_release_mutex_def goto_def Let_def fun_eq_iff

text \<open>Task 17 unlocks the mutex and is interrupted before its second pass; task 18 takes the mutex;
  the second pass unlocks it again; task 19 takes it.\<close>

definition broken_schedule :: "(u32 \<times> bool list) list" where
  "broken_schedule =
     [(17, []), (17, []), (17, []), (17, []), (17, []), (18, []), (18, []), (18, []), (17, []), (19, []), (19, []), (19, [])]"

lemma broken_schedule_state:
  "mutex_run broken_schedule mutex_start =
     \<lparr>mx = \<lparr>init_param = 1, lock_param = 1, owner_id = 19\<rparr>, waiters = [],
       pcs = (\<lambda>_. Idle)(17 := Release_Again, 18 := Holding, 19 := Holding)\<rparr>"
  by (simp add: broken_schedule_def mutex_run_eval)

text \<open>\<^verbatim>\<open>cpu_release_mutex\<close> repeats after a successful store: a task that is preempted between its
  passes unlocks the mutex that another task has taken meanwhile, and a third task gets in.\<close>

theorem mutex_exclusion_broken:
  "\<exists>s. mutex_reachable s \<and> pcs s 18 = Holding \<and> pcs s 19 = Holding"
proof (intro exI conjI)
  let ?s = "mutex_run broken_schedule mutex_start"
  show "mutex_reachable ?s"
    by (rule mutex_run_reachable[OF mutex_start_reachable]) (simp add: broken_schedule_def)
  show "pcs ?s 18 = Holding" "pcs ?s 19 = Holding" by (simp_all add: broken_schedule_state)
qed

text \<open>The owner is lost: the lock is taken, but nobody is recorded as its owner.\<close>

definition owner_lost :: "mutex_sys \<Rightarrow> bool" where
  "owner_lost s \<longleftrightarrow> lock_param (mx s) = 1 \<and> owner_id (mx s) = 0 \<and> (\<forall>t. pcs s t \<noteq> Set_Owner \<and> pcs s t \<noteq> Release \<and> pcs s t \<noteq> Release_Again)"

lemma owner_lost_step: "owner_lost s \<Longrightarrow> mutex_step s s' \<Longrightarrow> owner_lost s'"
proof (elim mutex_stepE)
  fix t fs ok
  assume s: "owner_lost s" "s' = mutex_task_step t fs ok s" "t \<noteq> 0"
  have a: "cpu_acquire_mutex fs 1 = (1, 0)" by (cases fs) simp_all
  have [simp]: "lock_param (mx s) = 1" "owner_id (mx s) = 0" "pcs s t \<noteq> Set_Owner" "pcs s t \<noteq> Release" "pcs s t \<noteq> Release_Again"
    using s(1) by (auto simp: owner_lost_def)
  show "owner_lost s'"
    using s by (cases "pcs s t")
      (auto simp: owner_lost_def mutex_task_step_def OTZ_LOCKED_def a Let_def split: list.splits)
qed

lemma owner_lost_forever: "mutex_step\<^sup>*\<^sup>* s s' \<Longrightarrow> owner_lost s \<Longrightarrow> owner_lost s'"
  by (induction rule: rtranclp_induct) (auto intro: owner_lost_step)

text \<open>Task 17 takes and releases the mutex and is interrupted before it clears the owner; task 18
  takes the mutex; task 17 clears the owner.\<close>

definition lost_schedule :: "(u32 \<times> bool list) list" where
  "lost_schedule =
     [(17, []), (17, []), (17, []), (17, []), (17, []), (17, []), (17, []), (18, []), (18, []), (18, []), (17, [])]"

lemma lost_schedule_state:
  "mutex_run lost_schedule mutex_start =
     \<lparr>mx = \<lparr>init_param = 1, lock_param = 1, owner_id = 0\<rparr>, waiters = [], pcs = (\<lambda>_. Idle)(18 := Holding)\<rparr>"
  by (simp add: lost_schedule_def mutex_run_eval)

text \<open>\<^verbatim>\<open>_sw_release_mutex\<close> clears the owner after it has unlocked the mutex and woken a waiter: if
  another task takes the mutex in between, that task's ownership is erased and the mutex can
  never be released again.\<close>

theorem mutex_owner_lost:
  "\<exists>s. mutex_reachable s \<and> pcs s 18 = Holding \<and> {s'. mutex_step\<^sup>*\<^sup>* s s'} \<subseteq> {s'. lock_param (mx s') = 1}"
proof (intro exI conjI subsetI CollectI)
  let ?s = "mutex_run lost_schedule mutex_start"
  show "mutex_reachable ?s"
    by (rule mutex_run_reachable[OF mutex_start_reachable]) (simp add: lost_schedule_def)
  show "pcs ?s 18 = Holding" by (simp add: lost_schedule_state)
  fix s' assume "s' \<in> {s'. mutex_step\<^sup>*\<^sup>* ?s s'}"
  then have "mutex_step\<^sup>*\<^sup>* ?s s'" by simp
  moreover have "owner_lost ?s" by (simp add: lost_schedule_state owner_lost_def)
  ultimately show "lock_param (mx s') = 1" using owner_lost_forever by (auto simp: owner_lost_def)
qed

theorem mutex_exclusion_witness: "{u. pcs (mutex_run lost_schedule mutex_start) u = Holding} = {18}"
proof -
  have "calm lost_schedule mutex_start" by (simp add: lost_schedule_def mutex_run_eval)
  then have "mutex_calm_reachable (mutex_run lost_schedule mutex_start)" by (rule mutex_run_calm[OF mutex_calm_start])
  moreover have h: "pcs (mutex_run lost_schedule mutex_start) 18 = Holding" by (simp add: lost_schedule_state)
  ultimately have "u = 18" if "pcs (mutex_run lost_schedule mutex_start) u = Holding" for u
    using mutex_exclusion that by blast
  then show ?thesis using h by blast
qed

text \<open>Task 18 finds the mutex taken; it is free again when the wait macro reads it.\<close>

definition sleep_schedule :: "(u32 \<times> bool list) list" where
  "sleep_schedule =
     [(17, []), (17, []), (17, []), (18, []), (18, []), (17, []), (17, []), (17, []), (17, []), (17, []), (18, []), (18, []), (18, [])]"

text \<open>The wait condition of a mutex is its lock word, so a task waits while the mutex is free and
  spins while it is taken: a task can sleep with the mutex free and every other task idle.\<close>

theorem mutex_sleeps_while_free:
  "\<exists>s. mutex_reachable s \<and> lock_param (mx s) = OTZ_FREE \<and> pcs s 18 = Asleep \<and> (\<forall>t. t \<noteq> 18 \<longrightarrow> pcs s t = Idle)"
proof (intro exI conjI allI impI)
  let ?s = "mutex_run sleep_schedule mutex_start"
  have s: "?s = \<lparr>mx = \<lparr>init_param = 1, lock_param = 0, owner_id = 0\<rparr>, waiters = [18], pcs = (\<lambda>_. Idle)(18 := Asleep)\<rparr>"
    by (simp add: sleep_schedule_def mutex_run_eval)
  show "mutex_reachable ?s"
    by (rule mutex_run_reachable[OF mutex_start_reachable]) (simp add: sleep_schedule_def)
  show "lock_param (mx ?s) = OTZ_FREE" "pcs ?s 18 = Asleep" by (simp_all add: s OTZ_FREE_def)
  fix t :: u32 assume "t \<noteq> 18"
  then show "pcs ?s t = Idle" by (simp add: s)
qed

section \<open>Semaphore counting\<close>

lemma cpu_acquire_semaphore_cases:
  "cpu_acquire_semaphore fs c = (c', r) \<Longrightarrow> (c = 0 \<and> c' = 0 \<and> r = 0) \<or> (c \<noteq> 0 \<and> c' = c - 1 \<and> r = 1)"
  by (induction fs) (auto split: if_splits)

lemma cpu_release_semaphore_cases:
  "cpu_release_semaphore fs c n = (c', r) \<Longrightarrow> (c = n \<and> c' = c \<and> r = 1) \<or> (c \<noteq> n \<and> c' = c + 1 \<and> r = 0)"
  by (induction fs) (auto split: if_splits)

definition sem_inv :: "sw_semaphore \<times> int \<Rightarrow> bool" where
  "sem_inv st \<longleftrightarrow> counter_param (fst st) \<le> count (fst st) \<and>
     uint (counter_param (fst st)) + snd st = uint (count (fst st))"

lemma sem_inv_acquire:
  assumes "sem_inv (sem, k)" and "sw_acquire_semaphore_round fs sem = (sem', b)"
  shows "sem_inv (sem', if b then k + 1 else k) \<and> count sem' = count sem"
proof -
  obtain c r where c: "cpu_acquire_semaphore fs (counter_param sem) = (c, r)" by fastforce
  have "uint (counter_param sem - 1) = uint (counter_param sem) - 1" if "counter_param sem \<noteq> 0"
  proof -
    have "0 < uint (counter_param sem)" using that by (metis unsigned_eq_0_iff unsigned_greater_eq order_le_less)
    then show ?thesis using unsigned_less[of "counter_param sem", where 'a = int]
      by (simp add: uint_word_ariths mod_pos_pos_trivial)
  qed
  then show ?thesis
    using assms cpu_acquire_semaphore_cases[OF c]
    by (auto simp: sem_inv_def sw_acquire_semaphore_round_def c OTZ_ACQUIRED_def word_le_def split: if_splits)
qed

lemma sem_inv_release:
  assumes "sem_inv (sem, k)" and "sw_release_semaphore_round fs sem = (sem', b)"
  shows "sem_inv (sem', if b then k - 1 else k) \<and> count sem' = count sem"
proof -
  obtain c r where c: "cpu_release_semaphore fs (counter_param sem) (count sem) = (c, r)" by fastforce
  have "uint (counter_param sem + 1) = uint (counter_param sem) + 1 \<and> uint (counter_param sem) + 1 \<le> uint (count sem)"
    if "counter_param sem \<noteq> count sem" "counter_param sem \<le> count sem"
  proof -
    have "counter_param sem < count sem" using that by simp
    then have "uint (counter_param sem) < uint (count sem)" by (simp add: word_less_def)
    then show ?thesis using unsigned_less[of "count sem", where 'a = int] by (simp add: uint_word_ariths)
  qed
  then show ?thesis
    using assms cpu_release_semaphore_cases[OF c]
    by (auto simp: sem_inv_def sw_release_semaphore_round_def c OTZ_RELEASED_def word_le_def split: if_splits)
qed

text \<open>C32. Whatever the tasks do, a semaphore's counter stays between 0 and its initial count, and the
  counter plus what has been acquired and not released is that count.\<close>

theorem semaphore_counts:
  assumes "sem_run ops (sem, 0) = (sem', k)" and "counter_param sem = count sem"
  shows "count sem' = count sem \<and> counter_param sem' \<le> count sem \<and> 0 \<le> k \<and>
     uint (counter_param sem') + k = uint (count sem)"
proof -
  have "sem_inv (sem1, j) \<Longrightarrow> sem_run ops (sem1, j) = (sem', k) \<Longrightarrow> sem_inv (sem', k) \<and> count sem' = count sem1"
    for sem1 j
  proof (induction ops "(sem1, j)" arbitrary: sem1 j rule: sem_run.induct)
    case (2 fs ops sem1 j)
    obtain sem2 b where r: "sw_acquire_semaphore_round fs sem1 = (sem2, b)" by fastforce
    then show ?case using 2 sem_inv_acquire[OF "2.prems"(1) r] by auto
  next
    case (3 fs ops sem1 j)
    obtain sem2 b where r: "sw_release_semaphore_round fs sem1 = (sem2, b)" by fastforce
    then show ?case using 3 sem_inv_release[OF "3.prems"(1) r] by auto
  qed simp
  moreover have "sem_inv (sem, 0)" using assms(2) by (simp add: sem_inv_def)
  ultimately have "sem_inv (sem', k)" "count sem' = count sem" using assms(1) by blast+
  then show ?thesis by (auto simp: sem_inv_def word_le_def)
qed

theorem semaphore_counts_witness:
  "case sem_run [Acquire_Round [False], Acquire_Round [], Acquire_Round [], Release_Round [], Acquire_Round []]
      (\<lparr>sem_init = 1, count = 2, condition = 0, counter_param = 2\<rparr>, 0) of
     (sem', k) \<Rightarrow> counter_param sem' = 0 \<and> k = 2 \<and> uint (counter_param sem') + k = 2"
proof -
  let ?ops = "[Acquire_Round [False], Acquire_Round [], Acquire_Round [], Release_Round [], Acquire_Round []]"
  let ?sem = "\<lparr>sem_init = 1, count = 2, condition = 0, counter_param = 2\<rparr>"
  obtain sem' k where r: "sem_run ?ops (?sem, 0) = (sem', k)" by fastforce
  have "map_prod counter_param id (sem_run ?ops (?sem, 0)) = (0, 2)" by code_simp
  then show ?thesis using r semaphore_counts[OF r] by simp
qed

section \<open>Finding a named object\<close>

definition cstring :: "bytes \<Rightarrow> u32 \<Rightarrow> u8 list \<Rightarrow> bool" where
  "cstring m a s \<longleftrightarrow>
     (\<forall>i<length s. m (a + of_nat i) = s ! i \<and> s ! i \<noteq> 0) \<and> m (a + of_nat (length s)) = 0"

lemma cstring_Cons: "cstring m a (c # s) \<longleftrightarrow> m a = c \<and> c \<noteq> 0 \<and> cstring m (a + 1) s"
  unfolding cstring_def
  by (simp add: All_less_Suc2 add.assoc)

lemma strnlen_loop_cstring: "cstring m a s \<Longrightarrow> strnlen_loop m a n = min (length s) n"
proof (induction s arbitrary: a n)
  case Nil
  then show ?case by (cases n) (simp_all add: cstring_def)
next
  case (Cons c s)
  then show ?case by (cases n) (simp_all add: cstring_Cons)
qed

lemma strncmp_loop_prefix:
  assumes "cstring m a as" and "cstring m b xs" and "as \<noteq> []" and "xs \<noteq> []"
  shows "take i as = take i xs \<Longrightarrow> i \<le> length as \<Longrightarrow> i \<le> length xs \<Longrightarrow>
     strncmp_loop m a b (of_nat i) (length xs - i) = Inr () \<longleftrightarrow> prefix xs as"
proof (induction "length xs - i" arbitrary: i)
  case 0
  then have "xs = take (length xs) as" by simp
  then show ?case using 0 by (metis diff_is_0_eq' strncmp_loop.simps(1) take_is_prefix order_refl)
next
  case (Suc k)
  have i: "i < length xs" using Suc by simp
  have first: "m a \<noteq> 0" "m b \<noteq> 0" using assms by (cases as; cases xs; auto simp: cstring_Cons)+
  have b: "m (b + of_nat i) = xs ! i" "xs ! i \<noteq> 0" using assms(2) i by (auto simp: cstring_def)
  have loop: "strncmp_loop m a b (of_nat i) (length xs - i) =
      (if m (a + of_nat i) \<noteq> xs ! i then Inl SW_EINVAL else strncmp_loop m a b (of_nat (Suc i)) (length xs - Suc i))"
    using first b Suc.hyps(2)[symmetric] by (simp add: algebra_simps Suc_diff_Suc[OF i, symmetric])
  show ?case
  proof (cases "i < length as")
    case True
    then have a: "m (a + of_nat i) = as ! i" using assms(1) by (simp add: cstring_def)
    show ?thesis
    proof (cases "as ! i = xs ! i")
      case eq: True
      then have "take (Suc i) as = take (Suc i) xs" using Suc.prems(1) True i by (simp add: take_Suc_conv_app_nth)
      then have "strncmp_loop m a b (of_nat (Suc i)) (length xs - Suc i) = Inr () \<longleftrightarrow> prefix xs as"
        using Suc.hyps(2) True i by (intro Suc.hyps(1)) auto
      then show ?thesis using loop a eq by simp
    next
      case False
      then have "\<not> prefix xs as" using i by (auto simp: prefix_def nth_append)
      then show ?thesis using loop a False by simp
    qed
  next
    case False
    then have "i = length as" using Suc.prems(2) by simp
    then have "m (a + of_nat i) = 0" using assms(1) by (simp add: cstring_def)
    moreover have "\<not> prefix xs as" using False i by (auto dest: prefix_length_le)
    ultimately show ?thesis using loop b(2) by auto
  qed
qed

lemma name_matches_prefix:
  assumes "cstring m obj as" and "cstring m name xs" and "as \<noteq> []" and "xs \<noteq> []" and "length xs \<le> 255"
  shows "name_matches m name (Some obj) \<longleftrightarrow> prefix xs as"
proof -
  have n: "unat (255 :: u32) = 255" "sw_strnlen m name MAX_NAME_LEN = of_nat (length xs)"
    using strnlen_loop_cstring[OF assms(2), of 255] assms(5) by (simp_all add: sw_strnlen_def MAX_NAME_LEN_def min_def)
  have "nat (sint (of_nat (length xs) :: u32)) = length xs"
    using assms(5) by (simp add: signed_of_nat signed_take_bit_int_eq_self)
  then show ?thesis
    using strncmp_loop_prefix[OF assms(1-4), of 0] by (simp add: name_matches_def sw_strncmp_def n(2))
qed

text \<open>The mutexes of a state and their names.\<close>

definition mutex_rep :: "sem_state \<Rightarrow> optr list \<Rightarrow> (optr \<Rightarrow> u8 list) \<Rightarrow> bool" where
  "mutex_rep s ms nm \<longleftrightarrow>
     dlist (slinks s) Mutex_List (map Mutex_Head ms) \<and>
     (\<forall>m\<in>set ms. data_of (slinks s) (Mutex_Head m) = Some m \<and> cstring (smem s) m (nm m) \<and> nm m \<noteq> [])"

text \<open>\<^verbatim>\<open>_sw_mutex_init\<close> returns the first mutex whose name begins with the requested name, so a
  longer name of another mutex is taken for it; without one it appends a new mutex, and when
  the heap is exhausted it fails with the list lock still held and interrupts off.\<close>

theorem sw_mutex_init_spec:
  assumes "mutex_rep s ms nm" and "cstring (smem s) name xs" and "xs \<noteq> []" and "length xs \<le> 255"
    and "\<forall>p. mem = Some p \<longrightarrow> p \<notin> set ms"
  shows "\<exists>s' r. sw_mutex_init name mem s = Some (s', r) \<and>
     (case List.find (\<lambda>m. prefix xs (nm m)) ms of
        Some m \<Rightarrow> r = Inr m \<and> \<not> locked s' \<and> slinks s' = slinks s
      | None \<Rightarrow>
          (case mem of
             Some p \<Rightarrow> r = Inr p \<and> \<not> locked s' \<and> dlist (slinks s') Mutex_List (map Mutex_Head (ms @ [p])) \<and>
               lock_param (mutexes s' p) = OTZ_FREE
           | None \<Rightarrow> r = Inl SW_ENOMEM \<and> locked s'))"
proof -
  have d: "dlist (slinks s) Mutex_List (map Mutex_Head ms)"
    and dat: "\<forall>m\<in>set ms. data_of (slinks s) (Mutex_Head m) = Some m"
    using assms(1) by (auto simp: mutex_rep_def)
  have "List.find (\<lambda>m. name_matches (smem s) name (data_of (slinks s) (Mutex_Head m))) ms =
      List.find (\<lambda>m. prefix xs (nm m)) ms"
    using assms(1) name_matches_prefix[OF _ assms(2) _ assms(3,4)] by (intro find_cong) (auto simp: mutex_rep_def)
  then have f: "link_find (slinks s) (name_matches (smem s) name) Mutex_List =
      Some (map_option Mutex_Head (List.find (\<lambda>m. prefix xs (nm m)) ms))"
    using dlist_find[OF d] by (simp add: find_map)
  show ?thesis
  proof (cases "List.find (\<lambda>m. prefix xs (nm m)) ms")
    case (Some m)
    then have "m \<in> set ms" using find_in by metis
    then show ?thesis using f Some dat by (simp add: sw_mutex_init_def)
  next
    case None
    show ?thesis
    proof (cases mem)
      case mem: None
      then show ?thesis using f None by (simp add: sw_mutex_init_def)
    next
      case (Some p)
      let ?L = "link_init (Mutex_Head p) (slinks s)"
      have p: "p \<notin> set ms" using assms(5) Some by simp
      then have "dlist ?L Mutex_List (map Mutex_Head ms)"
        using d by (subst dlist_frame[of _ _ ?L "slinks s"]) auto
      then have d1: "dlist (set_link_data (Mutex_Head p) (Some p) ?L) Mutex_List (map Mutex_Head ms)" by simp
      have "Mutex_Head p \<notin> set (Mutex_List # map Mutex_Head ms)" using p by auto
      from dlist_add_TAIL[OF d1 this] obtain L where
        "add_link Mutex_List (Mutex_Head p) TAIL (set_link_data (Mutex_Head p) (Some p) ?L) = Some L"
        "dlist L Mutex_List (map Mutex_Head (ms @ [p]))" by auto
      then show ?thesis using f None Some by (simp add: sw_mutex_init_def OTZ_FREE_def del: add_link.simps)
    qed
  qed
qed

text \<open>A mutex named "ab" at address 256; "a" is requested by the pointer 16.\<close>

definition demo_sem :: sem_state where
  "demo_sem =
     \<lparr>smem = (\<lambda>_. 0)(256 := 97, 257 := 98, 16 := 97),
      slinks = link_between Mutex_List (Mutex_Head 256) Mutex_List
        (set_link_data (Mutex_Head 256) (Some 256) (link_init Mutex_List
          \<lparr>next_of = (\<lambda>_. None), prev_of = (\<lambda>_. None), data_of = (\<lambda>_. None)\<rparr>)),
      mutexes = (\<lambda>_. \<lparr>init_param = 1, lock_param = 1, owner_id = 17\<rparr>),
      semaphores = (\<lambda>_. \<lparr>sem_init = 0, count = 0, condition = 0, counter_param = 0\<rparr>),
      locked = False, sem_freed = []\<rparr>"

theorem sw_mutex_init_spec_witness:
  "\<exists>s'. sw_mutex_init 16 None demo_sem = Some (s', Inr 256)"
proof -
  have "mutex_rep demo_sem [256] (\<lambda>_. [97, 98])"
    by (simp add: mutex_rep_def dlist_def demo_sem_def cstring_Cons) (simp add: cstring_def)
  moreover have "cstring (smem demo_sem) 16 [97]"
    by (simp add: demo_sem_def cstring_Cons) (simp add: cstring_def)
  ultimately show ?thesis using sw_mutex_init_spec[of demo_sem "[256]" "\<lambda>_. [97, 98]" 16 "[97]" None] by auto
qed

end
