(* ===== verification/Big_Int.thy ===== *)
theory Big_Int
  imports Prelude "HOL-Library.Monad_Syntax"
begin

text \<open>
  The big-integer routines of \<^verbatim>\<open>lib/user/otz_tee_arith_api.c\<close>.  A \<^verbatim>\<open>TEE_BigInt\<close> is an array of
  66 words, \<^verbatim>\<open>TEE_BigIntSizeInU32(2048)\<close>, the most significant first; a list of words here.
  In the routines that write their destination while they read their operands, a destination
  that is also an operand is passed as the same list, which gives the same result because every
  limb is read before it is written.  What the heap answers to \<^verbatim>\<open>TEE_Malloc\<close> is a parameter.
\<close>

section \<open>Limbs\<close>

type_synonym bigint = "u32 list"

definition BIGINT_LEN :: nat where "BIGINT_LEN = 66"

definition zero_big :: bigint where "zero_big = replicate BIGINT_LEN 0"

definition TEE_BigIntInit :: "bigint \<Rightarrow> nat \<Rightarrow> bigint" where
  "TEE_BigIntInit b len = replicate len 0 @ drop len b"

definition TEE_BigIntConvertFromS32 :: "u32 \<Rightarrow> bigint" where
  "TEE_BigIntConvertFromS32 shortVal = zero_big[BIGINT_LEN - 1 := shortVal]"

text \<open>Index 64 is skipped, and a nonzero higher limb is forgotten when the last limb is smaller than
  the value; both comparisons are unsigned.\<close>

definition TEE_BigIntCmpS32 :: "bigint \<Rightarrow> u32 \<Rightarrow> int" where
  "TEE_BigIntCmpS32 op1 shortVal =
     (let r0 = (if \<exists>x\<in>set (take (BIGINT_LEN - 2) op1). x \<noteq> 0 then 1 else 0);
          r1 = (if op1 ! (BIGINT_LEN - 1) < shortVal then - 1 else r0)
      in if op1 ! (BIGINT_LEN - 1) > shortVal then 1 else r1)"

section \<open>Addition and subtraction\<close>

text \<open>The loops run from the last index down; \<open>i\<close> is one more than the next index.\<close>

fun add_loop :: "bigint \<Rightarrow> bigint \<Rightarrow> nat \<Rightarrow> u32 \<Rightarrow> bigint \<Rightarrow> bigint" where
  "add_loop a b 0 carry d = d"
| "add_loop a b (Suc i) carry d =
     (let sum = a ! i + b ! i + carry
      in add_loop a b i (if sum < a ! i \<or> sum < b ! i then 1 else 0) (d[i := sum]))"

definition TEE_BigIntAdd :: "bigint \<Rightarrow> bigint \<Rightarrow> bigint \<Rightarrow> bigint" where
  "TEE_BigIntAdd dest op1 op2 = add_loop op1 op2 BIGINT_LEN 0 dest"

definition TEE_BigIntAddMult :: "bigint \<Rightarrow> bigint \<Rightarrow> bigint \<Rightarrow> bigint" where
  "TEE_BigIntAddMult dest op1 op2 = add_loop op1 op2 (BIGINT_LEN * 2) 0 dest"

fun sub_loop :: "bigint \<Rightarrow> bigint \<Rightarrow> nat \<Rightarrow> u32 \<Rightarrow> bigint \<Rightarrow> bigint" where
  "sub_loop a b 0 carry d = d"
| "sub_loop a b (Suc i) carry d =
     (let diff = (a ! i - carry) - b ! i
      in sub_loop a b i (if diff > a ! i then 1 else 0) (d[i := diff]))"

definition TEE_BigIntSub :: "bigint \<Rightarrow> bigint \<Rightarrow> bigint \<Rightarrow> bigint" where
  "TEE_BigIntSub dest op1 op2 = sub_loop op1 op2 BIGINT_LEN 0 dest"

text \<open>Only the indices below 65 are copied.\<close>

definition TEE_BigIntNeg :: "bigint \<Rightarrow> bigint \<Rightarrow> bigint" where
  "TEE_BigIntNeg dest src =
     (src ! 0 OR 0x80000000) # take (BIGINT_LEN - 2) (tl src) @ drop (BIGINT_LEN - 1) dest"

fun increment_loop :: "nat \<Rightarrow> u32 \<Rightarrow> bigint \<Rightarrow> bigint" where
  "increment_loop 0 carry d = d"
| "increment_loop (Suc i) carry d =
     (if carry = 1
      then let sum = d ! i + carry
           in increment_loop i (if sum < d ! i then 1 else 0) (d[i := sum])
      else d)"

definition incrementBigInt :: "bigint \<Rightarrow> bigint" where
  "incrementBigInt d = increment_loop BIGINT_LEN 1 d"

section \<open>Comparison and bits\<close>

fun lex_cmp :: "bigint \<Rightarrow> bigint \<Rightarrow> int" where
  "lex_cmp (x # xs) (y # ys) = (if x < y then - 1 else if x > y then 1 else lex_cmp xs ys)"
| "lex_cmp _ _ = 0"

text \<open>When the first limbs differ the result is \<^verbatim>\<open>*op1 & ((1<<31) != 0)\<close>, the lowest bit of the first
  limb, because \<^verbatim>\<open>!=\<close> binds stronger than \<^verbatim>\<open>&\<close>.\<close>

definition TEE_BigIntCmp :: "bigint \<Rightarrow> bigint \<Rightarrow> int" where
  "TEE_BigIntCmp op1 op2 =
     (if op1 ! 0 = op2 ! 0 then lex_cmp op1 op2 else if op1 ! 0 AND 1 \<noteq> 0 then - 1 else 1)"

text \<open>The highest bit set of a word, looking at the \<open>j\<close> lowest.\<close>

fun high_bit :: "u32 \<Rightarrow> nat \<Rightarrow> nat option" where
  "high_bit v 0 = None"
| "high_bit v (Suc j) = (if drop_bit j v AND 1 \<noteq> 0 then Some j else high_bit v j)"

fun max_bit_loop :: "bigint \<Rightarrow> nat" where
  "max_bit_loop [] = 0"
| "max_bit_loop (v # vs) =
     (case high_bit v 32 of Some j \<Rightarrow> length vs * 32 + j | None \<Rightarrow> max_bit_loop vs)"

definition MaxBitPos :: "bigint \<Rightarrow> nat" where
  "MaxBitPos src = max_bit_loop (take BIGINT_LEN src)"

definition TEE_BigIntGetBit :: "bigint \<Rightarrow> nat \<Rightarrow> bool" where
  "TEE_BigIntGetBit src bitIndex =
     (push_bit (bitIndex mod 32) 1 AND src ! (BIGINT_LEN - 1 - bitIndex div 32) \<noteq> 0)"

section \<open>Shifts\<close>

text \<open>The \<open>n\<close> highest bits of a word, the highest first.\<close>

fun top_bits :: "u32 \<Rightarrow> nat \<Rightarrow> nat \<Rightarrow> u32 \<Rightarrow> u32" where
  "top_bits v j 0 acc = acc"
| "top_bits v j (Suc n) acc = top_bits v (Suc j) n (push_bit 1 acc OR (drop_bit (32 - j - 1) v AND 1))"

fun left_loop :: "nat \<Rightarrow> bigint \<Rightarrow> nat \<Rightarrow> u32 \<Rightarrow> bigint \<Rightarrow> bigint" where
  "left_loop bits src 0 putBit d = d"
| "left_loop bits src (Suc i) putBit d =
     left_loop bits src i (top_bits (src ! i) 0 bits 0) (d[i := push_bit bits (src ! i) OR putBit])"

text \<open>For 32 bits and more whole limbs are moved first, inside \<^verbatim>\<open>src\<close>; that array is returned too.\<close>

definition TEE_BigIntLeftShift :: "bigint \<Rightarrow> bigint \<Rightarrow> nat \<Rightarrow> bigint \<times> bigint" where
  "TEE_BigIntLeftShift dest src bits =
     (let k = bits div 32;
          src' = (if bits \<ge> 32 then drop k src @ replicate k 0 else src)
      in (left_loop (bits mod 32) src' BIGINT_LEN 0 dest, src'))"

text \<open>The bits that leave a limb are collected without the lowest one, and \<^verbatim>\<open>value\<close> is only read in
  that loop, so for shifts by less than two bits it stays 0.\<close>

fun low_bits :: "u32 \<Rightarrow> nat \<Rightarrow> u32 \<Rightarrow> u32" where
  "low_bits v 0 acc = acc"
| "low_bits v (Suc j) acc = low_bits v j (push_bit 1 acc OR (drop_bit (Suc j) v AND 1))"

fun right_loop :: "nat \<Rightarrow> bigint \<Rightarrow> u32 \<Rightarrow> u32 \<Rightarrow> bigint" where
  "right_loop bits [] value putBit = []"
| "right_loop bits (x # xs) value putBit =
     (let value1 = (if bits \<ge> 2 then x else value);
          getBit = low_bits x (bits - 1) 0;
          value2 = drop_bit bits value1 OR putBit
      in value2 # right_loop bits xs value2 (push_bit 31 getBit))"

definition TEE_BigIntRightShift :: "bigint \<Rightarrow> nat \<Rightarrow> bigint" where
  "TEE_BigIntRightShift src bits = right_loop bits (take BIGINT_LEN src) 0 0"

section \<open>Multiplication and division\<close>

fun mult_loop :: "bigint \<Rightarrow> nat \<Rightarrow> nat \<Rightarrow> bigint \<Rightarrow> bigint \<Rightarrow> bigint" where
  "mult_loop op2 x 0 temp dest = dest"
| "mult_loop op2 x (Suc n) temp dest =
     (let temp1 = (if x \<noteq> 0 then TEE_BigIntAddMult temp temp temp else temp)
      in mult_loop op2 (Suc x) n temp1
           (if TEE_BigIntGetBit op2 x then TEE_BigIntAddMult dest dest temp1 else dest))"

text \<open>The product of twice the length is added to what \<^verbatim>\<open>dest\<close> holds.\<close>

definition TEE_BigIntMult :: "bigint \<Rightarrow> bigint \<Rightarrow> bigint \<Rightarrow> bigint" where
  "TEE_BigIntMult dest op1 op2 =
     mult_loop op2 0 (Suc (MaxBitPos op2)) (replicate BIGINT_LEN 0 @ take BIGINT_LEN op1) dest"

definition TEE_BigIntSquare :: "bigint \<Rightarrow> bigint \<Rightarrow> bigint" where
  "TEE_BigIntSquare dest src = TEE_BigIntMult dest src src"

fun XPowerY :: "u32 \<Rightarrow> nat \<Rightarrow> u32" where
  "XPowerY x 0 = 1"
| "XPowerY x (Suc y) = XPowerY x y * x"

text \<open>The loop of \<^verbatim>\<open>TEE_BigIntDivide\<close>: \<open>ok k\<close> is the heap's answer to the \<open>k\<close>-th request for \<^verbatim>\<open>adder\<close>.
  A negative bit difference makes the shift copy far outside its buffer.  The last component
  tells whether the division has been finished.\<close>

definition unit_at :: "nat \<Rightarrow> u32 \<Rightarrow> bigint" where
  "unit_at k v = zero_big[BIGINT_LEN - 1 - k := v]"

definition shifted_by :: "bigint \<Rightarrow> nat \<Rightarrow> bigint" where
  "shifted_by b n = fst (TEE_BigIntLeftShift b b n)"

partial_function (option) divide_loop ::
    "(nat \<Rightarrow> bool) \<Rightarrow> nat \<Rightarrow> bigint \<Rightarrow> bigint \<Rightarrow> bigint \<Rightarrow> (bigint \<times> bigint \<times> bool) option" where
  "divide_loop ok k op2 q t =
     (let m1 = MaxBitPos t; m2 = MaxBitPos op2; diffBit = m1 - m2; shifted = shifted_by op2 diffBit in
      if \<not> TEE_BigIntCmp t op2 \<ge> 0 then Some (q, t, True)
      else if m1 < m2 then None
      else if diffBit = 0
      then divide_loop ok k op2 (incrementBigInt q) (TEE_BigIntSub t t op2)
      else if \<not> ok k then Some (q, t, False)
      else if TEE_BigIntCmp t shifted \<ge> 0
      then divide_loop ok (Suc k) op2
             (TEE_BigIntAdd q q (unit_at (diffBit div 32) (XPowerY 2 (diffBit mod 32))))
             (TEE_BigIntSub t t shifted)
      else if diffBit - 1 \<noteq> 0
      then divide_loop ok (Suc k) op2
             (TEE_BigIntAdd q q (unit_at (diffBit div 31) (XPowerY 2 (unat (of_nat (diffBit mod 31) - 1 :: u32)))))
             (TEE_BigIntSub t t (shifted_by shifted (diffBit - 1)))
      else divide_loop ok (Suc k) op2 (incrementBigInt q) (TEE_BigIntSub t t op2))"

declare divide_loop.simps [code]

text \<open>The result is the quotient, added to what \<^verbatim>\<open>dest_q\<close> holds, and the remainder.\<close>

definition TEE_BigIntDivide ::
    "bool \<Rightarrow> bool \<Rightarrow> (nat \<Rightarrow> bool) \<Rightarrow> bigint \<Rightarrow> bigint \<Rightarrow> bigint \<Rightarrow> bigint \<Rightarrow> (bigint \<times> bigint) option" where
  "TEE_BigIntDivide tmp_ok shifted_ok ok dest_q dest_r op1 op2 =
     (if \<not> tmp_ok \<or> \<not> shifted_ok then Some (dest_q, dest_r)
      else do {
        (q, t, done) \<leftarrow> divide_loop ok 0 op2 dest_q op1;
        Some (q, if done then t else dest_r)
      })"

definition TEE_BigIntReduceMod :: "bigint \<Rightarrow> bigint \<Rightarrow> bigint \<Rightarrow> bigint option" where
  "TEE_BigIntReduceMod dest opd n =
     map_option snd (TEE_BigIntDivide True True (\<lambda>_. True) zero_big dest opd n)"

definition TEE_BigIntAddMod :: "bigint \<Rightarrow> bigint \<Rightarrow> bigint \<Rightarrow> bigint \<Rightarrow> bigint option" where
  "TEE_BigIntAddMod dest op1 op2 n =
     (let temp = TEE_BigIntAdd zero_big op1 op2
      in map_option snd (TEE_BigIntDivide True True (\<lambda>_. True) temp dest temp n))"

definition TEE_BigIntSubMod :: "bigint \<Rightarrow> bigint \<Rightarrow> bigint \<Rightarrow> bigint \<Rightarrow> bigint option" where
  "TEE_BigIntSubMod dest op1 op2 n =
     (let temp = TEE_BigIntSub zero_big op1 op2
      in map_option snd (TEE_BigIntDivide True True (\<lambda>_. True) temp dest temp n))"

section \<open>Values\<close>

abbreviation limb_base :: int where "limb_base \<equiv> 2 ^ 32"

fun big_val :: "bigint \<Rightarrow> int" where
  "big_val [] = 0"
| "big_val (x # xs) = uint x * limb_base ^ length xs + big_val xs"

lemma big_val_append: "big_val (xs @ ys) = big_val xs * limb_base ^ length ys + big_val ys"
  by (induction xs) (simp_all add: algebra_simps power_add)

lemma uint_limb: "0 \<le> uint (x :: u32)" "uint (x :: u32) < limb_base"
  using unsigned_greater_eq[of x] unsigned_less[of x, where 'a = int] by simp_all

lemma big_val_range: "0 \<le> big_val xs \<and> big_val xs < limb_base ^ length xs"
proof (induction xs)
  case (Cons x xs)
  have "(uint x + 1) * limb_base ^ length xs \<le> limb_base * limb_base ^ length xs"
    using uint_limb[of x] by (intro mult_right_mono) auto
  then have "uint x * limb_base ^ length xs + limb_base ^ length xs \<le> limb_base ^ length (x # xs)"
    by (simp only: distrib_right mult_1 length_Cons power_Suc)
  then have "big_val (x # xs) < limb_base ^ length (x # xs)"
    using Cons unfolding big_val.simps by linarith
  then show ?case using Cons by simp
qed simp

lemma take_snoc: "i < length xs \<Longrightarrow> take (Suc i) xs = take i xs @ [xs ! i]"
  by (rule take_Suc_conv_app_nth)

lemma big_val_take_Suc: "i < length xs \<Longrightarrow> big_val (take (Suc i) xs) = big_val (take i xs) * limb_base + uint (xs ! i)"
  by (simp add: take_snoc big_val_append)

lemma mod_limb: "0 \<le> s \<Longrightarrow> s < b \<Longrightarrow> 0 \<le> m \<Longrightarrow> (x mod m) * b + s = (x * b + s) mod (m * b)" for x m b s :: int
proof -
  assume s: "0 \<le> s" "s < b" "0 \<le> m"
  have "(x * b + s) mod (b * m) = b * ((x * b + s) div b mod m) + (x * b + s) mod b"
    by (rule zmod_zmult2_eq[THEN trans]) (use s in simp_all)
  moreover have "(x * b + s) div b = x" "(x * b + s) mod b = s" using s by auto
  ultimately show ?thesis by (simp add: mult.commute)
qed

lemma uint_not_max: "y \<noteq> - 1 \<Longrightarrow> uint (y :: u32) < limb_base - 1"
proof -
  assume "y \<noteq> - 1"
  then have "uint y \<noteq> uint (- 1 :: u32)" by (metis unsigned_word_eqI)
  moreover have "uint (- 1 :: u32) = limb_base - 1" by (simp add: unsigned_minus_1_eq_mask mask_eq_exp_minus_1)
  ultimately show ?thesis using uint_limb[of y] by simp
qed

text \<open>One limb of an addition: right unless both limbs are all ones and a carry comes in.\<close>

lemma add_limb_int:
  fixes X Y C B :: int
  assumes "0 \<le> X" "X < B" "0 \<le> Y" "Y < B - 1" "C = 0 \<or> C = 1"
  shows "(X + Y + C) mod B + (if (X + Y + C) mod B < X \<or> (X + Y + C) mod B < Y then 1 else 0) * B = X + Y + C"
proof (cases "X + Y + C < B")
  case True
  then have "(X + Y + C) mod B = X + Y + C" using assms by (intro mod_pos_pos_trivial) auto
  then show ?thesis using assms by auto
next
  case False
  have "(X + Y + C) mod B = (X + Y + C - B) mod B" by simp
  also have "\<dots> = X + Y + C - B" using False assms by (intro mod_pos_pos_trivial) auto
  finally show ?thesis using False assms by auto
qed

lemma sub_limb_int:
  fixes X Y C B :: int
  assumes "0 \<le> X" "X < B" "0 \<le> Y" "Y < B - 1" "C = 0 \<or> C = 1"
  shows "(X - C - Y) mod B = X - Y - C + (if (X - C - Y) mod B > X then 1 else 0) * B"
proof (cases "X - C - Y \<ge> 0")
  case True
  then have "(X - C - Y) mod B = X - C - Y" using assms by (intro mod_pos_pos_trivial) auto
  then show ?thesis using assms by auto
next
  case False
  have "(X - C - Y) mod B = (X - C - Y + B) mod B" by simp
  also have "\<dots> = X - C - Y + B" using False assms by (intro mod_pos_pos_trivial) auto
  finally show ?thesis using False assms by auto
qed

lemma add_limb:
  fixes x y c :: u32
  assumes "c = 0 \<or> c = 1" and "y \<noteq> - 1"
  shows "uint (x + y + c) + uint (if x + y + c < x \<or> x + y + c < y then 1 else 0 :: u32) * limb_base = uint x + uint y + uint c"
proof -
  have "uint (x + y + c) = (uint x + uint y + uint c) mod limb_base"
    by (simp add: uint_word_ariths mod_simps)
  moreover have "uint c = 0 \<or> uint c = 1" using assms(1) by auto
  ultimately show ?thesis unfolding word_less_def
    using add_limb_int[OF uint_limb(1) uint_limb(2) uint_limb(1) uint_not_max[OF assms(2)], of "uint c" x] by (auto split: if_splits)
qed

lemma sub_limb:
  fixes x y c :: u32
  assumes "c = 0 \<or> c = 1" and "y \<noteq> - 1"
  shows "uint (x - c - y) = uint x - uint y - uint c + uint (if x - c - y > x then 1 else 0 :: u32) * limb_base"
proof -
  have "uint (x - c - y) = (uint x - uint c - uint y) mod limb_base"
    by (simp add: uint_word_ariths mod_simps)
  moreover have "uint c = 0 \<or> uint c = 1" using assms(1) by auto
  ultimately show ?thesis unfolding word_less_def
    using sub_limb_int[OF uint_limb(1) uint_limb(2) uint_limb(1) uint_not_max[OF assms(2)], of "uint c" x] by (auto split: if_splits)
qed

lemma add_loop_keeps: "length d = n \<Longrightarrow> i \<le> n \<Longrightarrow> length (add_loop a b i c d) = n \<and> drop i (add_loop a b i c d) = drop i d"
proof (induction i arbitrary: c d)
  case (Suc i)
  let ?s = "a ! i + b ! i + c" and ?c = "if a ! i + b ! i + c < a ! i \<or> a ! i + b ! i + c < b ! i then 1 else 0"
  have ih: "length (add_loop a b i ?c (d[i := ?s])) = n" "drop i (add_loop a b i ?c (d[i := ?s])) = drop i (d[i := ?s])"
    using Suc by auto
  have "drop (Suc i) (add_loop a b i ?c (d[i := ?s])) = drop 1 (drop i (add_loop a b i ?c (d[i := ?s])))" by simp
  also have "\<dots> = drop (Suc i) d" unfolding ih(2) by simp
  finally show ?case using ih(1) by (simp add: Let_def)
qed simp

lemma sub_loop_keeps: "length d = n \<Longrightarrow> i \<le> n \<Longrightarrow> length (sub_loop a b i c d) = n \<and> drop i (sub_loop a b i c d) = drop i d"
proof (induction i arbitrary: c d)
  case (Suc i)
  let ?s = "a ! i - c - b ! i" and ?c = "if a ! i - c - b ! i > a ! i then 1 else 0"
  have ih: "length (sub_loop a b i ?c (d[i := ?s])) = n" "drop i (sub_loop a b i ?c (d[i := ?s])) = drop i (d[i := ?s])"
    using Suc by auto
  have "drop (Suc i) (sub_loop a b i ?c (d[i := ?s])) = drop 1 (drop i (sub_loop a b i ?c (d[i := ?s])))" by simp
  also have "\<dots> = drop (Suc i) d" unfolding ih(2) by simp
  finally show ?case using ih(1) by (simp add: Let_def)
qed simp

text \<open>The limb the loop writes first is the last of the part it is responsible for.\<close>

lemma loop_last:
  assumes "length l = length d" and "i < length d" and "drop i l = drop i (d[i := s])"
  shows "big_val (take (Suc i) l) = big_val (take i l) * limb_base + uint s"
proof -
  have "l ! i = d[i := s] ! i"
    using assms by (metis hd_drop_conv_nth length_list_update)
  then show ?thesis using assms by (simp add: big_val_take_Suc)
qed

lemma add_loop_val:
  assumes "length a = n" and "length b = n" and "\<forall>y\<in>set b. y \<noteq> - 1"
  shows "length d = n \<Longrightarrow> i \<le> n \<Longrightarrow> c = 0 \<or> c = 1 \<Longrightarrow>
    big_val (take i (add_loop a b i c d)) =
      (big_val (take i a) + big_val (take i b) + uint c) mod limb_base ^ i"
proof (induction i arbitrary: c d)
  case 0
  then show ?case by auto
next
  case (Suc i)
  let ?s = "a ! i + b ! i + c" and ?c = "if a ! i + b ! i + c < a ! i \<or> a ! i + b ! i + c < b ! i then 1 else 0 :: u32"
  let ?l = "add_loop a b i ?c (d[i := ?s])"
  let ?A = "big_val (take i a)" and ?B = "big_val (take i b)"
  have n: "i < n" using Suc.prems by simp
  have k: "length ?l = length d" "drop i ?l = drop i (d[i := ?s])"
    using add_loop_keeps[of "d[i := ?s]" n i a b ?c] Suc.prems by auto
  have limb: "uint ?s + uint ?c * limb_base = uint (a ! i) + uint (b ! i) + uint c"
    using add_limb[OF Suc.prems(3), of "b ! i" "a ! i"] assms n by simp
  have "big_val (take (Suc i) ?l) = (?A + ?B + uint ?c) mod limb_base ^ i * limb_base + uint ?s"
    using loop_last[OF k(1) _ k(2)] Suc n by simp
  also have "\<dots> = ((?A + ?B + uint ?c) * limb_base + uint ?s) mod (limb_base ^ i * limb_base)"
    by (rule mod_limb) (use uint_limb[of ?s] in auto)
  also have "(?A + ?B + uint ?c) * limb_base + uint ?s = big_val (take (Suc i) a) + big_val (take (Suc i) b) + uint c"
    using limb assms n by (simp add: big_val_take_Suc algebra_simps)
  finally show ?case by (simp add: Let_def mult.commute)
qed

lemma sub_loop_val:
  assumes "length a = n" and "length b = n" and "\<forall>y\<in>set b. y \<noteq> - 1"
  shows "length d = n \<Longrightarrow> i \<le> n \<Longrightarrow> c = 0 \<or> c = 1 \<Longrightarrow>
    big_val (take i (sub_loop a b i c d)) =
      (big_val (take i a) - big_val (take i b) - uint c) mod limb_base ^ i"
proof (induction i arbitrary: c d)
  case 0
  then show ?case by auto
next
  case (Suc i)
  let ?s = "a ! i - c - b ! i" and ?c = "if a ! i - c - b ! i > a ! i then 1 else 0 :: u32"
  let ?l = "sub_loop a b i ?c (d[i := ?s])"
  let ?A = "big_val (take i a)" and ?B = "big_val (take i b)"
  have n: "i < n" using Suc.prems by simp
  have k: "length ?l = length d" "drop i ?l = drop i (d[i := ?s])"
    using sub_loop_keeps[of "d[i := ?s]" n i a b ?c] Suc.prems by auto
  have limb: "uint ?s = uint (a ! i) - uint (b ! i) - uint c + uint ?c * limb_base"
    using sub_limb[OF Suc.prems(3), of "b ! i" "a ! i"] assms n by simp
  have "big_val (take (Suc i) ?l) = (?A - ?B - uint ?c) mod limb_base ^ i * limb_base + uint ?s"
    using loop_last[OF k(1) _ k(2)] Suc n by simp
  also have "\<dots> = ((?A - ?B - uint ?c) * limb_base + uint ?s) mod (limb_base ^ i * limb_base)"
    by (rule mod_limb) (use uint_limb[of ?s] in auto)
  also have "(?A - ?B - uint ?c) * limb_base + uint ?s = big_val (take (Suc i) a) - big_val (take (Suc i) b) - uint c"
    using limb assms n by (simp add: big_val_take_Suc algebra_simps)
  finally show ?case by (simp add: Let_def mult.commute)
qed

text \<open>C40. When no limb of the second operand is all ones, \<^verbatim>\<open>TEE_BigIntAdd\<close> and \<^verbatim>\<open>TEE_BigIntSub\<close> compute
  sum and difference modulo \<open>2 ^ 2112\<close>, whatever the destination held.\<close>

theorem big_add_sub_correct:
  assumes "length dest = BIGINT_LEN" and "length a = BIGINT_LEN" and "length b = BIGINT_LEN" and "- 1 \<notin> set b"
  shows "big_val (TEE_BigIntAdd dest a b) = (big_val a + big_val b) mod limb_base ^ BIGINT_LEN \<and>
     big_val (TEE_BigIntSub dest a b) = (big_val a - big_val b) mod limb_base ^ BIGINT_LEN"
proof -
  have b: "\<forall>y\<in>set b. y \<noteq> - 1" using assms(4) by auto
  have "take BIGINT_LEN (add_loop a b BIGINT_LEN 0 dest) = add_loop a b BIGINT_LEN 0 dest"
    "take BIGINT_LEN (sub_loop a b BIGINT_LEN 0 dest) = sub_loop a b BIGINT_LEN 0 dest"
    using add_loop_keeps[of dest BIGINT_LEN BIGINT_LEN a b 0] sub_loop_keeps[of dest BIGINT_LEN BIGINT_LEN a b 0] assms(1)
    by simp_all
  then show ?thesis
    using add_loop_val[OF assms(2,3) b assms(1), of BIGINT_LEN 0] sub_loop_val[OF assms(2,3) b assms(1), of BIGINT_LEN 0]
      assms by (simp add: TEE_BigIntAdd_def TEE_BigIntSub_def)
qed

lemma big_add_sub_correct_witness:
  "big_val (TEE_BigIntAdd zero_big (zero_big[65 := - 1]) (zero_big[65 := 3])) =
     (big_val (zero_big[65 := - 1]) + big_val (zero_big[65 := 3])) mod limb_base ^ BIGINT_LEN \<and>
   big_val (TEE_BigIntSub zero_big (zero_big[65 := - 1]) (zero_big[65 := 3])) =
     (big_val (zero_big[65 := - 1]) - big_val (zero_big[65 := 3])) mod limb_base ^ BIGINT_LEN"
  by (rule big_add_sub_correct) code_simp+

text \<open>The carry that is lost: all ones plus all ones with a carry.\<close>

lemma big_add_loses_carry:
  "big_val (TEE_BigIntAdd zero_big (zero_big[64 := - 1, 65 := - 1]) (zero_big[64 := - 1, 65 := 1])) =
     (limb_base - 1) * limb_base"
  by code_simp

section \<open>Adding one\<close>

lemma inc_limb: "c = 0 \<or> c = 1 \<Longrightarrow> uint (x + c) + uint (if x + c < x then 1 else 0 :: u32) * limb_base = uint x + uint (c :: u32)"
  using add_limb[of c 0 x] by (auto simp: word_less_def split: if_splits)

lemma increment_keeps:
  "length d = n \<Longrightarrow> i \<le> n \<Longrightarrow> length (increment_loop i c d) = n \<and> drop i (increment_loop i c d) = drop i d"
proof (induction i arbitrary: c d)
  case (Suc i)
  let ?c = "if d ! i + c < d ! i then 1 else 0 :: u32"
  have ih: "length (increment_loop i ?c (d[i := d ! i + c])) = n"
    "drop i (increment_loop i ?c (d[i := d ! i + c])) = drop i (d[i := d ! i + c])"
    using Suc by auto
  have "drop (Suc i) (increment_loop i ?c (d[i := d ! i + c])) = drop 1 (drop i (increment_loop i ?c (d[i := d ! i + c])))" by simp
  also have "\<dots> = drop (Suc i) d" unfolding ih(2) by simp
  finally show ?case using ih(1) Suc.prems by (cases "c = 1") (auto simp: Let_def)
qed simp

lemma increment_val:
  "length d = n \<Longrightarrow> i \<le> n \<Longrightarrow> c = 0 \<or> c = 1 \<Longrightarrow>
    big_val (take i (increment_loop i c d)) = (big_val (take i d) + uint c) mod limb_base ^ i"
proof (induction i arbitrary: c d)
  case 0
  then show ?case by auto
next
  case (Suc i)
  show ?case
  proof (cases "c = 1")
    case True
    let ?s = "d ! i + 1" and ?c = "if d ! i + 1 < d ! i then 1 else 0 :: u32"
    let ?l = "increment_loop i ?c (d[i := ?s])"
    have n: "i < n" using Suc.prems by simp
    have k: "length ?l = length d" "drop i ?l = drop i (d[i := ?s])"
      using increment_keeps[of "d[i := ?s]" n i ?c] Suc.prems by auto
    have limb: "uint ?s + uint ?c * limb_base = uint (d ! i) + 1" using inc_limb[of 1 "d ! i"] by simp
    have "big_val (take (Suc i) ?l) = (big_val (take i d) + uint ?c) mod limb_base ^ i * limb_base + uint ?s"
      using loop_last[OF k(1) _ k(2)] Suc n by simp
    also have "\<dots> = ((big_val (take i d) + uint ?c) * limb_base + uint ?s) mod (limb_base ^ i * limb_base)"
      by (rule mod_limb) (use uint_limb[of ?s] in auto)
    also have "(big_val (take i d) + uint ?c) * limb_base + uint ?s = big_val (take (Suc i) d) + 1"
      using limb n Suc.prems(1) by (simp add: big_val_take_Suc algebra_simps)
    finally show ?thesis using True by (simp add: Let_def mult.commute)
  next
    case False
    then show ?thesis using Suc.prems big_val_range[of "take (Suc i) d"] by auto
  qed
qed

lemma increment_correct:
  "length d = BIGINT_LEN \<Longrightarrow> big_val (incrementBigInt d) = (big_val d + 1) mod limb_base ^ BIGINT_LEN"
  using increment_val[of d BIGINT_LEN BIGINT_LEN 1] increment_keeps[of d BIGINT_LEN BIGINT_LEN 1]
  by (simp add: incrementBigInt_def)

section \<open>Highest bit\<close>

lemma and_one_bit: "(drop_bit j (v :: u32) AND 1 \<noteq> 0) = bit v j"
  by (simp add: and_one_eq bit_iff_odd_drop_bit mod2_eq_if)

lemma high_bit_spec:
  "case high_bit v n of None \<Rightarrow> take_bit n (uint v) = 0
   | Some j \<Rightarrow> 2 ^ j \<le> take_bit n (uint v) \<and> take_bit n (uint v) < 2 ^ Suc j \<and> j < n"
proof (induction n)
  case (Suc n)
  show ?case
  proof (cases "bit v n")
    case True
    then have "bit (uint v) n" by (auto simp: bit_uint_iff dest: bit_imp_le_length)
    then show ?thesis using True take_bit_int_less_exp[of n "uint v"]
      by (simp add: and_one_bit take_bit_Suc_from_most)
  next
    case False
    then have "\<not> bit (uint v) n" by (simp add: bit_uint_iff)
    then show ?thesis using False Suc by (auto simp: and_one_bit take_bit_Suc_from_most split: option.splits)
  qed
qed simp

lemma high_bit_word:
  fixes v :: u32
  shows  "case high_bit v 32 of None \<Rightarrow> uint v = 0 | Some j \<Rightarrow> 2 ^ j \<le> uint v \<and> uint v < 2 ^ Suc j \<and> j < 32"
proof -
  have "take_bit 32 (uint v) = uint v" using uint_limb[of v] by (simp add: take_bit_int_eq_self)
  then show ?thesis using high_bit_spec[of 32 v] by (simp only:)
qed

lemma limb_base_power: "limb_base ^ n = 2 ^ (n * 32)"
  by (subst mult.commute) (rule power_mult[symmetric])

lemma max_bit_spec:
  "big_val vs = 0 \<and> max_bit_loop vs = 0 \<or> 2 ^ max_bit_loop vs \<le> big_val vs \<and> big_val vs < 2 ^ Suc (max_bit_loop vs)"
proof (induction vs)
  case (Cons v vs)
  show ?case
  proof (cases "high_bit v 32")
    case None
    then have "uint v = 0" using high_bit_word[of v] by simp
    then show ?thesis using None Cons by simp
  next
    case (Some j)
    let ?k = "length vs * 32"
    have j: "2 ^ j \<le> uint v" "uint v + 1 \<le> 2 ^ Suc j" using high_bit_word[of v] Some by auto
    have r: "0 \<le> big_val vs" "big_val vs < 2 ^ ?k" using big_val_range[of vs] unfolding limb_base_power by auto
    have "2 ^ j * 2 ^ ?k \<le> uint v * 2 ^ ?k" using j(1) by (intro mult_right_mono) auto
    moreover have "(uint v + 1) * 2 ^ ?k \<le> 2 ^ Suc j * 2 ^ ?k" using j(2) by (intro mult_right_mono) auto
    moreover have "max_bit_loop (v # vs) = ?k + j" using Some by simp
    moreover have "big_val (v # vs) = uint v * 2 ^ ?k + big_val vs" by (simp only: big_val.simps limb_base_power)
    moreover have "(2 :: int) ^ (?k + j) = 2 ^ j * 2 ^ ?k" "(2 :: int) ^ Suc (?k + j) = 2 ^ Suc j * 2 ^ ?k"
      by (simp_all add: power_add)
    ultimately have "2 ^ (?k + j) \<le> big_val (v # vs) \<and> big_val (v # vs) < 2 ^ Suc (?k + j)"
      using r by (simp only: distrib_right mult_1) linarith
    then show ?thesis using \<open>max_bit_loop (v # vs) = ?k + j\<close> by simp
  qed
qed simp

lemma int_div_less: "0 < c \<Longrightarrow> x < b * c \<Longrightarrow> x div c < b" for x b c :: int
proof (rule ccontr)
  assume c: "0 < c" "x < b * c" "\<not> x div c < b"
  then have "b * c \<le> x div c * c" by (intro mult_right_mono) auto
  also have "\<dots> \<le> x" using c(1) div_mult_mod_eq[of x c] pos_mod_sign[of c x] by linarith
  finally show False using c(2) by simp
qed

section \<open>Left shift\<close>

lemma top_bits_val: "j + n \<le> 32 \<Longrightarrow> top_bits v j n (drop_bit (32 - j) v) = drop_bit (32 - (j + n)) (v :: u32)"
proof (induction n arbitrary: j)
  case (Suc n)
  have "push_bit 1 (drop_bit (32 - j) v) OR (drop_bit (32 - j - 1) v AND 1) = drop_bit (32 - Suc j) v"
  proof (rule bit_word_eqI)
    fix i assume "i < LENGTH(32)"
    moreover have "bit v (32 - Suc j + i) = (if i = 0 then bit v (31 - j) else bit v (32 - j + (i - 1)))"
      using Suc.prems by (cases i) (auto intro!: arg_cong[where f = "bit v"])
    ultimately show "bit (push_bit 1 (drop_bit (32 - j) v) OR (drop_bit (32 - j - 1) v AND 1)) i = bit (drop_bit (32 - Suc j) v) i"
      by (auto simp: bit_or_iff bit_and_iff bit_push_bit_iff bit_drop_bit_eq bit_1_iff simp del: push_bit_of_1 push_bit_Suc One_nat_def)
  qed
  then show ?case using Suc.IH[of "Suc j"] Suc.prems by simp
qed simp

lemma top_bits_shift: "b < 32 \<Longrightarrow> top_bits v 0 b 0 = drop_bit (32 - b) (v :: u32)"
proof -
  assume "b < 32"
  moreover have "drop_bit 32 v = 0" by (rule bit_word_eqI) (auto simp: bit_drop_bit_eq dest: bit_imp_le_length)
  ultimately show ?thesis using top_bits_val[of 0 b v] by simp
qed

lemma uint_top: "b < 32 \<Longrightarrow> uint (drop_bit (32 - b) (v :: u32)) = uint v div 2 ^ (32 - b)"
  by (subst unsigned_drop_bit_eq) (use uint_limb[of v] in \<open>simp add: drop_bit_eq_div take_bit_int_eq_self\<close>)

lemma shift_limb_int:
  fixes x p :: int
  assumes "b \<le> 32" "0 \<le> x" "0 \<le> p" "p < 2 ^ b"
  shows "(x * 2 ^ b) mod limb_base + p + x div 2 ^ (32 - b) * limb_base = x * 2 ^ b + p"
proof -
  have e: "limb_base = 2 ^ (32 - b) * 2 ^ b" using assms(1) by (simp flip: power_add)
  have "x * 2 ^ b mod limb_base = (x mod 2 ^ (32 - b)) * 2 ^ b" unfolding e by (rule mult_mod_left[symmetric])
  moreover have "x div 2 ^ (32 - b) * limb_base = (x div 2 ^ (32 - b) * 2 ^ (32 - b)) * 2 ^ b" unfolding e by simp
  ultimately have "x * 2 ^ b mod limb_base + x div 2 ^ (32 - b) * limb_base
    = (x div 2 ^ (32 - b) * 2 ^ (32 - b) + x mod 2 ^ (32 - b)) * 2 ^ b" by (simp only: distrib_right add.commute)
  moreover have "x div 2 ^ (32 - b) * 2 ^ (32 - b) + x mod 2 ^ (32 - b) = x" by (rule div_mult_mod_eq)
  ultimately show ?thesis by (metis add.assoc add.commute)
qed

lemma shift_limb:
  assumes "b < 32" and "uint p < 2 ^ b"
  shows "uint (push_bit b x OR p :: u32) + uint (drop_bit (32 - b) x) * limb_base = uint x * 2 ^ b + uint p"
proof -
  have nb: "bit p i \<Longrightarrow> i < b" for i
  proof (rule ccontr)
    assume "bit p i" "\<not> i < b"
    then have "bit (uint p) i" "b \<le> i" by (auto simp: bit_uint_iff dest: bit_imp_le_length)
    moreover have "take_bit b (uint p) = uint p" using assms(2) by (simp add: take_bit_int_eq_self)
    ultimately show False by (metis bit_take_bit_iff leD)
  qed
  have "push_bit b x AND p = 0"
    by (rule bit_word_eqI) (auto simp: bit_and_iff bit_push_bit_iff dest: nb)
  then have s: "push_bit b x OR p = push_bit b x + p" by (simp add: disjunctive_add_eq_or)
  have "uint (push_bit b x) = (uint x * 2 ^ b) mod limb_base"
    by (subst unsigned_push_bit_eq) (simp add: push_bit_eq_mult take_bit_eq_mod)
  moreover have "uint (push_bit b x OR p) = uint (push_bit b x) OR uint p" by (simp add: unsigned_or_eq)
  moreover have "uint (push_bit b x) AND uint p = 0"
    using \<open>push_bit b x AND p = 0\<close> by (metis unsigned_and_eq unsigned_0)
  ultimately have "uint (push_bit b x OR p) = (uint x * 2 ^ b) mod limb_base + uint p"
    by (metis disjunctive_add_eq_or)
  then show ?thesis using shift_limb_int[of b "uint x" "uint p"] assms uint_limb[of x] uint_limb[of p]
    by (simp add: uint_top)
qed

lemma left_keeps: "length d = n \<Longrightarrow> i \<le> n \<Longrightarrow> length (left_loop b s i p d) = n \<and> drop i (left_loop b s i p d) = drop i d"
proof (induction i arbitrary: p d)
  case (Suc i)
  let ?l = "left_loop b s i (top_bits (s ! i) 0 b 0) (d[i := push_bit b (s ! i) OR p])"
  have ih: "length ?l = n" "drop i ?l = drop i (d[i := push_bit b (s ! i) OR p])" using Suc by auto
  have "drop (Suc i) ?l = drop 1 (drop i ?l)" by simp
  also have "\<dots> = drop (Suc i) d" unfolding ih(2) by simp
  finally show ?case using ih(1) by simp
qed simp

lemma left_val:
  assumes "length s = n" and "b < 32"
  shows "length d = n \<Longrightarrow> i \<le> n \<Longrightarrow> uint p < 2 ^ b \<Longrightarrow>
    big_val (take i (left_loop b s i p d)) = (big_val (take i s) * 2 ^ b + uint p) mod limb_base ^ i"
proof (induction i arbitrary: p d)
  case (Suc i)
  let ?v = "push_bit b (s ! i) OR p" and ?t = "drop_bit (32 - b) (s ! i)"
  let ?l = "left_loop b s i ?t (d[i := ?v])" and ?S = "big_val (take i s)"
  have n: "i < n" using Suc.prems by simp
  have k: "length ?l = length d" "drop i ?l = drop i (d[i := ?v])"
    using left_keeps[of "d[i := ?v]" n i b s ?t] Suc.prems by auto
  have "uint (s ! i) < 2 ^ b * 2 ^ (32 - b)" using uint_limb[of "s ! i"] assms(2) by (simp flip: power_add)
  then have t: "uint ?t < 2 ^ b" using assms(2) by (subst uint_top) (auto intro: int_div_less simp: mult.commute)
  have limb: "uint ?v + uint ?t * limb_base = uint (s ! i) * 2 ^ b + uint p" using shift_limb assms(2) Suc.prems(3) by blast
  have "big_val (take (Suc i) ?l) = (?S * 2 ^ b + uint ?t) mod limb_base ^ i * limb_base + uint ?v"
    using loop_last[OF k(1) _ k(2)] Suc.IH[of "d[i := ?v]" ?t] Suc.prems n t by simp
  also have "\<dots> = ((?S * 2 ^ b + uint ?t) * limb_base + uint ?v) mod (limb_base ^ i * limb_base)"
    by (rule mod_limb) (use uint_limb[of ?v] in auto)
  also have "(?S * 2 ^ b + uint ?t) * limb_base + uint ?v = big_val (take (Suc i) s) * 2 ^ b + uint p"
    using limb assms n by (simp add: big_val_take_Suc algebra_simps)
  finally show ?case using assms(2) by (simp add: top_bits_shift mult.commute)
qed simp

lemma big_val_zeros [simp]: "big_val (replicate n 0) = 0"
  by (induction n) simp_all

lemma limb_move: "k \<le> length s \<Longrightarrow> big_val (drop k s @ replicate k 0) = (big_val s * limb_base ^ k) mod limb_base ^ length s"
proof -
  assume k: "k \<le> length s"
  have "big_val s = big_val (take k s) * limb_base ^ (length s - k) + big_val (drop k s)"
    using big_val_append[of "take k s" "drop k s"] by simp
  then have "big_val s * limb_base ^ k = big_val (take k s) * limb_base ^ length s + big_val (drop k s) * limb_base ^ k"
    using k by (simp add: algebra_simps flip: power_add)
  then have "(big_val s * limb_base ^ k) mod limb_base ^ length s = (big_val (drop k s) * limb_base ^ k) mod limb_base ^ length s"
    by simp
  also have "\<dots> = big_val (drop k s @ replicate k 0) mod limb_base ^ length s"
    by (simp add: big_val_append)
  also have "\<dots> = big_val (drop k s @ replicate k 0)"
    using big_val_range[of "drop k s @ replicate k 0"] k by simp
  finally show ?thesis by simp
qed

text \<open>\<^verbatim>\<open>TEE_BigIntLeftShift\<close> multiplies by \<open>2 ^ bits\<close> modulo \<open>2 ^ 2112\<close> for every shift below 2112
  bits, whatever the destination held.\<close>

theorem big_left_shift_correct:
  assumes "length dest = BIGINT_LEN" and "length src = BIGINT_LEN" and "bits < 32 * BIGINT_LEN"
  shows "big_val (fst (TEE_BigIntLeftShift dest src bits)) = (big_val src * 2 ^ bits) mod limb_base ^ BIGINT_LEN"
proof -
  let ?k = "bits div 32" and ?s = "if bits \<ge> 32 then drop (bits div 32) src @ replicate (bits div 32) 0 else src"
  have k: "?k \<le> length src" using assms by auto
  have s: "length ?s = BIGINT_LEN" "big_val ?s = (big_val src * limb_base ^ ?k) mod limb_base ^ BIGINT_LEN"
    using k assms limb_move[OF k] big_val_range[of src] by auto
  have "big_val (fst (TEE_BigIntLeftShift dest src bits)) = (big_val ?s * 2 ^ (bits mod 32)) mod limb_base ^ BIGINT_LEN"
    using left_val[OF s(1) _ assms(1), of "bits mod 32" BIGINT_LEN 0] left_keeps[OF assms(1), of BIGINT_LEN "bits mod 32" ?s 0] s(1)
    by (simp add: TEE_BigIntLeftShift_def Let_def)
  also have "\<dots> = (big_val src * limb_base ^ ?k * 2 ^ (bits mod 32)) mod limb_base ^ BIGINT_LEN"
    unfolding s(2) by (simp add: mod_mult_left_eq)
  also have "limb_base ^ ?k * 2 ^ (bits mod 32) = 2 ^ bits"
    unfolding limb_base_power by (simp flip: power_add)
  then have "big_val src * limb_base ^ ?k * 2 ^ (bits mod 32) = big_val src * 2 ^ bits" by (simp add: mult.assoc)
  finally show ?thesis .
qed

lemma big_left_shift_correct_witness:
  "big_val (fst (TEE_BigIntLeftShift zero_big (zero_big[65 := 5]) 70)) =
     (big_val (zero_big[65 := 5]) * 2 ^ 70) mod limb_base ^ BIGINT_LEN"
  by (rule big_left_shift_correct) code_simp+

text \<open>\<^verbatim>\<open>MaxBitPos\<close> is the binary logarithm, rounded down, of a nonzero number, and 0 for zero.\<close>

theorem max_bit_pos_log:
  "length src = BIGINT_LEN \<Longrightarrow>
     big_val src = 0 \<and> MaxBitPos src = 0 \<or>
     2 ^ MaxBitPos src \<le> big_val src \<and> big_val src < 2 ^ Suc (MaxBitPos src)"
  using max_bit_spec[of src] by (simp add: MaxBitPos_def)

lemma max_bit_pos_log_witness:
  "big_val (TEE_BigIntConvertFromS32 5) = 0 \<and> MaxBitPos (TEE_BigIntConvertFromS32 5) = 0 \<or>
     2 ^ MaxBitPos (TEE_BigIntConvertFromS32 5) \<le> big_val (TEE_BigIntConvertFromS32 5) \<and>
     big_val (TEE_BigIntConvertFromS32 5) < 2 ^ Suc (MaxBitPos (TEE_BigIntConvertFromS32 5))"
  by (rule max_bit_pos_log) code_simp

section \<open>Comparison\<close>

lemma limb_less:
  fixes u v p q B :: int
  assumes "u < v" "p < B" "0 \<le> q" "0 < B"
  shows "u * B + p < v * B + q"
proof -
  have "(u + 1) * B \<le> v * B" using assms by (intro mult_right_mono) auto
  then show ?thesis using assms by (simp add: distrib_right)
qed

lemma lex_cmp_val:
  "length xs = length ys \<Longrightarrow> lex_cmp xs ys = sgn (big_val xs - big_val ys)"
proof (induction xs ys rule: list_induct2)
  case (Cons x xs y ys)
  have r: "0 \<le> big_val xs" "big_val xs < limb_base ^ length xs" "0 \<le> big_val ys" "big_val ys < limb_base ^ length xs"
    using big_val_range[of xs] big_val_range[of ys] Cons.hyps by auto
  have B: "0 < limb_base ^ length xs" by simp
  show ?case
    using limb_less[of "uint x" "uint y" "big_val xs" _ "big_val ys", OF _ r(2,3) B]
      limb_less[of "uint y" "uint x" "big_val ys" _ "big_val xs", OF _ r(4,1) B] Cons
    by (cases x y rule: linorder_cases) (auto simp: word_less_def simp del: power_numeral)
qed simp

text \<open>\<^verbatim>\<open>TEE_BigIntCmp\<close> is the order of the values when the first limbs are equal.\<close>

theorem big_cmp_correct:
  assumes "length a = BIGINT_LEN" and "length b = BIGINT_LEN" and "a ! 0 = b ! 0"
  shows "TEE_BigIntCmp a b = sgn (big_val a - big_val b)"
  using lex_cmp_val[of a b] assms by (simp add: TEE_BigIntCmp_def)

lemma big_cmp_correct_witness:
  "TEE_BigIntCmp (zero_big[65 := 5]) (zero_big[64 := 5]) = sgn (big_val (zero_big[65 := 5]) - big_val (zero_big[64 := 5]))"
  by (rule big_cmp_correct) code_simp+

lemma big_cmp_wrong: "TEE_BigIntCmp (zero_big[0 := 2]) (zero_big[0 := 4]) = 1"
  by code_simp

section \<open>Division\<close>

lemma sub_zero_loop: "i \<le> BIGINT_LEN \<Longrightarrow> sub_loop a zero_big i 0 a = a"
  by (induction i) (simp_all add: zero_big_def)

lemma left_zero_loop: "i \<le> BIGINT_LEN \<Longrightarrow> b < 32 \<Longrightarrow> left_loop b zero_big i 0 zero_big = zero_big"
  by (induction i) (simp_all add: zero_big_def top_bits_shift list_update_same_conv[THEN iffD2])

lemma shifted_zero: "n < 32 * BIGINT_LEN \<Longrightarrow> shifted_by zero_big n = zero_big"
proof -
  assume n: "n < 32 * BIGINT_LEN"
  have "drop (n div 32) zero_big @ replicate (n div 32) 0 = zero_big"
    using n by (simp add: zero_big_def flip: replicate_add)
  then show ?thesis using left_zero_loop[of BIGINT_LEN "n mod 32"]
    by (cases "32 \<le> n") (simp_all add: shifted_by_def TEE_BigIntLeftShift_def Let_def)
qed

lemma zero_big_nth: "i < BIGINT_LEN \<Longrightarrow> zero_big ! i = 0"
  by (simp add: zero_big_def)

lemma max_bit_zero: "MaxBitPos zero_big = 0"
  by code_simp

lemma max_bit_less: "length t = BIGINT_LEN \<Longrightarrow> MaxBitPos t < 32 * BIGINT_LEN"
proof -
  assume t: "length t = BIGINT_LEN"
  have "max_bit_loop vs < 32 * length vs \<or> vs = []" for vs
  proof (induction vs)
    case (Cons v vs)
    then show ?case using high_bit_word[of v] by (auto split: option.splits)
  qed simp
  from this[of t] show ?thesis using t by (auto simp: MaxBitPos_def BIGINT_LEN_def)
qed

lemma cmp_zero: "length t = BIGINT_LEN \<Longrightarrow> t ! 0 = 0 \<Longrightarrow> 0 \<le> TEE_BigIntCmp t zero_big"
proof -
  assume t: "length t = BIGINT_LEN" "t ! 0 = 0"
  have "TEE_BigIntCmp t zero_big = sgn (big_val t - big_val zero_big)"
    using t lex_cmp_val[of t zero_big] by (simp add: TEE_BigIntCmp_def zero_big_def BIGINT_LEN_def)
  moreover have "big_val zero_big = 0" by (simp add: zero_big_def)
  ultimately show ?thesis using big_val_range[of t] by (simp add: sgn_if)
qed

lemma divide_loop_zero:
  assumes t: "length t = BIGINT_LEN" "t ! 0 = 0"
  shows "divide_loop (\<lambda>_. True) k zero_big q t = None"
proof (rule ccontr)
  assume "divide_loop (\<lambda>_. True) k zero_big q t \<noteq> None"
  then obtain r where "divide_loop (\<lambda>_. True) k zero_big q t = Some r" by blast
  then have "(\<lambda>_. True) = (\<lambda>_ :: nat. True) \<and> zero_big = zero_big \<and> t = t \<longrightarrow> False"
  proof (rule divide_loop.raw_induct[rotated, where P = "\<lambda>ok k op2 q t' r. ok = (\<lambda>_. True) \<and> op2 = zero_big \<and> t' = t \<longrightarrow> False"], goal_cases)
    case (1 f ok k op2 q t' r)
    have s: "shifted_by zero_big (MaxBitPos t) = zero_big" by (rule shifted_zero[OF max_bit_less[OF t(1)]])
    have u: "TEE_BigIntSub t t zero_big = t" by (simp add: TEE_BigIntSub_def sub_zero_loop)
    show ?case using 1(2) 1(1) by (cases r) (auto simp: Let_def s u max_bit_zero cmp_zero[OF t] split: if_splits, blast+)
  qed
  then show False by simp
qed

text \<open>Division by zero does not return while the heap serves every request, and neither does a reduction
  modulo zero.\<close>

theorem big_divide_by_zero_diverges:
  "length a = BIGINT_LEN \<Longrightarrow> a ! 0 = 0 \<Longrightarrow> TEE_BigIntReduceMod dest a zero_big = None"
  by (simp add: TEE_BigIntReduceMod_def TEE_BigIntDivide_def divide_loop_zero)

lemma big_divide_by_zero_diverges_witness:
  "TEE_BigIntReduceMod zero_big (zero_big[65 := 5]) zero_big = None"
  by (rule big_divide_by_zero_diverges) code_simp+

text \<open>Division shifts the divisor a second time when the first shift was one too far, so 8 modulo 3 is
  \<open>8 - 24\<close>.\<close>

lemma big_reduce_wrong:
  "map_option big_val (TEE_BigIntReduceMod zero_big (TEE_BigIntConvertFromS32 8) (TEE_BigIntConvertFromS32 3))
     = Some (limb_base ^ 66 - 16)"
  by code_simp

end
