(* ===== verification/ACL.thy ===== *)
theory ACL
  imports Scheduler
begin

text \<open>
  The access control list of \<^verbatim>\<open>lib/kernel/sw_user_mgmt.c\<close>: a list of devices, each with a list of
  groups, each with a list of users.  An entry's address is a number; the cells of the lists are
  the members of the three structures.  An allocation failure ends in \<^verbatim>\<open>tee_panic\<close>, which does not
  return (\<open>None\<close>).  A granted permission is 1 and a denied one \<open>- 1\<close>.
\<close>

section \<open>The code\<close>

datatype acl_cell = Device_Acl_List | Dev_Head nat | Group_Head nat | Grp_Head nat | User_Head nat | Usr_Head nat

record acl_state =
  acl_links :: "(acl_cell, nat) links"
  dev_did :: "nat \<Rightarrow> u32"
  grp_gid :: "nat \<Rightarrow> u32"
  usr_uid :: "nat \<Rightarrow> u32"

record acl_env =
  new_user :: "nat option"
  new_group :: "nat option"
  new_device :: "nat option"

text \<open>The search loop of both functions, with \<^verbatim>\<open>get_next_acl_device\<close> (or \<open>_group\<close>, \<open>_user\<close>) inlined: it
  ends at the list head, at a cell whose successor or data is \<^verbatim>\<open>NULL\<close>, and at the entry searched for.\<close>

partial_function (option) acl_find_from ::
    "('l, nat) links \<Rightarrow> (nat \<Rightarrow> bool) \<Rightarrow> 'l \<Rightarrow> 'l \<Rightarrow> nat option option" where
  "acl_find_from L P head current =
     (if current = head then Some None
      else case next_of L current of None \<Rightarrow> Some None
        | Some nxt \<Rightarrow> (case data_of L current of None \<Rightarrow> Some None
            | Some x \<Rightarrow> if P x then Some (Some x) else acl_find_from L P head nxt))"

declare acl_find_from.simps [code]

definition acl_find :: "('l, nat) links \<Rightarrow> (nat \<Rightarrow> bool) \<Rightarrow> 'l \<Rightarrow> nat option option" where
  "acl_find L P head = Option.bind (next_of L head) (acl_find_from L P head)"

definition find_device :: "u32 \<Rightarrow> acl_state \<Rightarrow> nat option option" where
  "find_device d s = acl_find (acl_links s) (\<lambda>x. dev_did s x = d) Device_Acl_List"

definition find_group :: "u32 \<Rightarrow> nat option \<Rightarrow> acl_state \<Rightarrow> nat option option" where
  "find_group g x s =
     (case x of None \<Rightarrow> Some None
      | Some x \<Rightarrow> acl_find (acl_links s) (\<lambda>y. grp_gid s y = g) (Group_Head x))"

definition find_user :: "u32 \<Rightarrow> nat option \<Rightarrow> acl_state \<Rightarrow> nat option option" where
  "find_user u y s =
     (case y of None \<Rightarrow> Some None
      | Some y \<Rightarrow> acl_find (acl_links s) (\<lambda>z. usr_uid s z = u) (User_Head y))"

text \<open>\<open>exec_task\<close> is the current task, whose group and user are looked up; it is dereferenced when
  the device has a group.\<close>

definition get_permission :: "u32 \<Rightarrow> sw_task option \<Rightarrow> u32 \<Rightarrow> acl_state \<Rightarrow> int option" where
  "get_permission exec exec_task d_id s =
     (if exec = 1
      then do {
        acld \<leftarrow> find_device d_id s;
        case acld of None \<Rightarrow> Some (- 1)
        | Some x \<Rightarrow>
            (case exec_task of
               None \<Rightarrow> if link_empty (acl_links s) (Group_Head x) then Some (- 1) else None
             | Some task \<Rightarrow> do {
                 aclg \<leftarrow> find_group (acl_gid task) acld s;
                 aclu \<leftarrow> find_user (acl_uid task) aclg s;
                 Some (if aclu = None then - 1 else 1)
               })
      }
      else Some 1)"

definition acl_new_user :: "nat \<Rightarrow> u32 \<Rightarrow> acl_state \<Rightarrow> acl_state" where
  "acl_new_user z u s =
     s\<lparr>acl_links := link_init (Usr_Head z) (acl_links s), usr_uid := (usr_uid s)(z := u)\<rparr>"

definition acl_new_group :: "nat \<Rightarrow> u32 \<Rightarrow> acl_state \<Rightarrow> acl_state" where
  "acl_new_group y g s =
     s\<lparr>acl_links := link_init (User_Head y) (link_init (Grp_Head y) (acl_links s)),
       grp_gid := (grp_gid s)(y := g)\<rparr>"

definition acl_new_device :: "nat \<Rightarrow> u32 \<Rightarrow> acl_state \<Rightarrow> acl_state" where
  "acl_new_device x d s =
     s\<lparr>acl_links := link_init (Group_Head x) (link_init (Dev_Head x) (acl_links s)),
       dev_did := (dev_did s)(x := d)\<rparr>"

definition acl_append :: "acl_cell \<Rightarrow> acl_cell \<Rightarrow> nat \<Rightarrow> acl_state \<Rightarrow> acl_state option" where
  "acl_append head node x s =
     map_option (\<lambda>L. s\<lparr>acl_links := L\<rparr>) (add_link head node TAIL (set_link_data node (Some x) (acl_links s)))"

definition update_global_ACL :: "acl_env \<Rightarrow> u32 \<Rightarrow> u32 \<Rightarrow> u32 \<Rightarrow> acl_state \<Rightarrow> acl_state option" where
  "update_global_ACL env d_id g_id u_id s = do {
     acld \<leftarrow> find_device d_id s;
     aclg \<leftarrow> find_group g_id acld s;
     aclu \<leftarrow> find_user u_id aclg s;
     if aclu \<noteq> None then Some s
     else do {
       z \<leftarrow> new_user env;
       let s1 = acl_new_user z u_id s in
       case aclg of
         Some y \<Rightarrow> acl_append (User_Head y) (Usr_Head z) z s1
       | None \<Rightarrow> do {
           y \<leftarrow> new_group env;
           s2 \<leftarrow> acl_append (User_Head y) (Usr_Head z) z (acl_new_group y g_id s1);
           case acld of
             Some x \<Rightarrow> acl_append (Group_Head x) (Grp_Head y) y s2
           | None \<Rightarrow> do {
               x \<leftarrow> new_device env;
               s3 \<leftarrow> acl_append (Group_Head x) (Grp_Head y) y (acl_new_device x d_id s2);
               acl_append Device_Acl_List (Dev_Head x) x s3
             }
         }
     }
   }"

section \<open>Searching\<close>

lemma acl_find_walk:
  "linked L (C z # map C zs @ [h]) \<Longrightarrow> h \<notin> set (map C (z # zs)) \<Longrightarrow> \<forall>x\<in>set (z # zs). data_of L (C x) = Some x \<Longrightarrow>
     acl_find_from L P h (C z) = Some (List.find P (z # zs))"
proof (induction zs arbitrary: z)
  case Nil
  then show ?case by (auto simp: acl_find_from.simps[of L P h "C z"] acl_find_from.simps[of L P h h])
next
  case (Cons y ys)
  then have "acl_find_from L P h (C y) = Some (List.find P (y # ys))" by auto
  then show ?case using Cons.prems by (auto simp: acl_find_from.simps[of L P h "C z"])
qed

lemma acl_find_list:
  assumes "dlist L h (map C xs)" and "\<forall>x\<in>set xs. data_of L (C x) = Some x"
  shows "acl_find L P h = Some (List.find P xs)"
proof (cases xs)
  case Nil
  then show ?thesis using assms by (simp add: acl_find_def dlist_next acl_find_from.simps)
next
  case (Cons z zs)
  then have "linked L (C z # map C zs @ [h])" "h \<notin> set (map C (z # zs))" "next_of L h = Some (C z)"
    using assms(1) by (auto simp: dlist_def)
  then show ?thesis using acl_find_walk[of L C z zs h P] assms(2) Cons by (simp add: acl_find_def)
qed

section \<open>What the lists hold\<close>

text \<open>Allocated devices and groups, the devices in the list, each device's groups and each group's
  users.\<close>

record acl_shape =
  all_devs :: "nat set"
  all_grps :: "nat set"
  devs :: "nat list"
  grps :: "nat \<Rightarrow> nat list"
  usrs :: "nat \<Rightarrow> nat list"

definition acl_lists :: "(acl_cell, nat) links \<Rightarrow> acl_shape \<Rightarrow> bool" where
  "acl_lists L A \<longleftrightarrow>
     dlist L Device_Acl_List (map Dev_Head (devs A)) \<and>
     (\<forall>x\<in>all_devs A. dlist L (Group_Head x) (map Grp_Head (grps A x))) \<and>
     (\<forall>y\<in>all_grps A. dlist L (User_Head y) (map Usr_Head (usrs A y))) \<and>
     (\<forall>x\<in>set (devs A). data_of L (Dev_Head x) = Some x) \<and>
     (\<forall>x\<in>all_devs A. \<forall>y\<in>set (grps A x). data_of L (Grp_Head y) = Some y) \<and>
     (\<forall>y\<in>all_grps A. \<forall>z\<in>set (usrs A y). data_of L (Usr_Head z) = Some z) \<and>
     set (devs A) \<subseteq> all_devs A \<and> (\<forall>x\<in>all_devs A. set (grps A x) \<subseteq> all_grps A) \<and>
     (\<forall>x\<in>all_devs A. \<forall>x'\<in>all_devs A. \<forall>y\<in>set (grps A x). y \<in> set (grps A x') \<longrightarrow> x = x') \<and>
     (\<forall>y\<in>all_grps A. \<forall>y'\<in>all_grps A. \<forall>z\<in>set (usrs A y). z \<in> set (usrs A y') \<longrightarrow> y = y')"

definition acl_rep :: "acl_state \<Rightarrow> acl_shape \<Rightarrow> bool" where
  "acl_rep s A \<longleftrightarrow>
     acl_lists (acl_links s) A \<and> distinct (map (dev_did s) (devs A)) \<and>
     (\<forall>x\<in>set (devs A). distinct (map (grp_gid s) (grps A x)))"

definition allowed :: "acl_state \<Rightarrow> acl_shape \<Rightarrow> u32 \<times> u32 \<times> u32 \<Rightarrow> bool" where
  "allowed s A = (\<lambda>(d, g, u). \<exists>x\<in>set (devs A). dev_did s x = d \<and>
     (\<exists>y\<in>set (grps A x). grp_gid s y = g \<and> (\<exists>z\<in>set (usrs A y). usr_uid s z = u)))"

definition acl_fresh :: "acl_env \<Rightarrow> acl_shape \<Rightarrow> bool" where
  "acl_fresh env A \<longleftrightarrow>
     (case new_user env of Some z \<Rightarrow> \<forall>y\<in>all_grps A. z \<notin> set (usrs A y) | None \<Rightarrow> False) \<and>
     (case new_group env of Some y \<Rightarrow> y \<notin> all_grps A | None \<Rightarrow> False) \<and>
     (case new_device env of Some x \<Rightarrow> x \<notin> all_devs A | None \<Rightarrow> False)"

section \<open>Permissions\<close>

lemma find_None_iff_none: "List.find P xs = None \<longleftrightarrow> (\<forall>x\<in>set xs. \<not> P x)"
  by (auto simp: find_None_iff)

lemma find_unique:
  "distinct (map f xs) \<Longrightarrow> x \<in> set xs \<Longrightarrow> List.find (\<lambda>y. f y = f x) xs = Some x"
  by (induction xs) auto

lemma find_device_rep: "acl_rep s A \<Longrightarrow> find_device d s = Some (List.find (\<lambda>x. dev_did s x = d) (devs A))"
  unfolding find_device_def by (rule acl_find_list) (auto simp: acl_rep_def acl_lists_def)

lemma find_group_rep:
  "acl_rep s A \<Longrightarrow> x \<in> set (devs A) \<Longrightarrow>
     find_group g (Some x) s = Some (List.find (\<lambda>y. grp_gid s y = g) (grps A x))"
  unfolding find_group_def option.case by (rule acl_find_list) (auto simp: acl_rep_def acl_lists_def)

lemma find_user_rep:
  "acl_rep s A \<Longrightarrow> x \<in> set (devs A) \<Longrightarrow> y \<in> set (grps A x) \<Longrightarrow>
     find_user u (Some y) s = Some (List.find (\<lambda>z. usr_uid s z = u) (usrs A y))"
  unfolding find_user_def option.case
  by (rule acl_find_list[where C = Usr_Head]) (simp_all add: acl_rep_def acl_lists_def, blast+)

lemma allowed_find:
  assumes "acl_rep s A"
  shows "allowed s A (d, g, u) \<longleftrightarrow>
    (case List.find (\<lambda>x. dev_did s x = d) (devs A) of None \<Rightarrow> False
     | Some x \<Rightarrow> (case List.find (\<lambda>y. grp_gid s y = g) (grps A x) of None \<Rightarrow> False
         | Some y \<Rightarrow> List.find (\<lambda>z. usr_uid s z = u) (usrs A y) \<noteq> None))"
proof -
  have d: "distinct (map (dev_did s) (devs A))" and g: "x \<in> set (devs A) \<Longrightarrow> distinct (map (grp_gid s) (grps A x))" for x
    using assms by (auto simp: acl_rep_def)
  show ?thesis
    by (auto simp: allowed_def find_None_iff_none split: option.splits dest!: find_in)
      (metis d g distinct_map inj_onD find_unique find_in option.distinct(1) option.inject)+
qed

lemma get_permission_rep:
  assumes "acl_rep s A"
  shows "get_permission 1 (Some t) d s = Some (if allowed s A (d, acl_gid t, acl_uid t) then 1 else - 1)"
proof (cases "List.find (\<lambda>x. dev_did s x = d) (devs A)")
  case None
  then show ?thesis using assms by (simp add: get_permission_def find_device_rep allowed_find)
next
  case (Some x)
  then have x: "x \<in> set (devs A)" using find_in by fastforce
  show ?thesis
  proof (cases "List.find (\<lambda>y. grp_gid s y = acl_gid t) (grps A x)")
    case None
    then show ?thesis using assms Some x
      by (simp add: get_permission_def find_device_rep find_group_rep find_user_def allowed_find)
  next
    case y: (Some y)
    then have "y \<in> set (grps A x)" using find_in by fastforce
    then show ?thesis using assms Some x y
      by (simp add: get_permission_def find_device_rep find_group_rep find_user_rep allowed_find)
  qed
qed

section \<open>Granting\<close>

lemma acl_listsI:
  assumes "dlist L Device_Acl_List (map Dev_Head (devs A))"
    and "\<And>x. x \<in> all_devs A \<Longrightarrow> dlist L (Group_Head x) (map Grp_Head (grps A x))"
    and "\<And>y. y \<in> all_grps A \<Longrightarrow> dlist L (User_Head y) (map Usr_Head (usrs A y))"
    and "\<And>x. x \<in> set (devs A) \<Longrightarrow> data_of L (Dev_Head x) = Some x"
    and "\<And>x y. x \<in> all_devs A \<Longrightarrow> y \<in> set (grps A x) \<Longrightarrow> data_of L (Grp_Head y) = Some y"
    and "\<And>y z. y \<in> all_grps A \<Longrightarrow> z \<in> set (usrs A y) \<Longrightarrow> data_of L (Usr_Head z) = Some z"
    and "\<And>x. x \<in> set (devs A) \<Longrightarrow> x \<in> all_devs A"
    and "\<And>x y. x \<in> all_devs A \<Longrightarrow> y \<in> set (grps A x) \<Longrightarrow> y \<in> all_grps A"
    and "\<And>x x' y. x \<in> all_devs A \<Longrightarrow> x' \<in> all_devs A \<Longrightarrow> y \<in> set (grps A x) \<Longrightarrow> y \<in> set (grps A x') \<Longrightarrow> x = x'"
    and "\<And>y y' z. y \<in> all_grps A \<Longrightarrow> y' \<in> all_grps A \<Longrightarrow> z \<in> set (usrs A y) \<Longrightarrow> z \<in> set (usrs A y') \<Longrightarrow> y = y'"
  shows "acl_lists L A"
  unfolding acl_lists_def
proof (intro conjI)
  show "set (devs A) \<subseteq> all_devs A" "\<forall>x\<in>all_devs A. set (grps A x) \<subseteq> all_grps A" using assms by blast+
qed (use assms in \<open>blast+\<close>)

lemma acl_listsD:
  assumes "acl_lists L A"
  shows "dlist L Device_Acl_List (map Dev_Head (devs A))"
    and "x \<in> all_devs A \<Longrightarrow> dlist L (Group_Head x) (map Grp_Head (grps A x))"
    and "y \<in> all_grps A \<Longrightarrow> dlist L (User_Head y) (map Usr_Head (usrs A y))"
    and "x \<in> set (devs A) \<Longrightarrow> data_of L (Dev_Head x) = Some x"
    and "x \<in> all_devs A \<Longrightarrow> y \<in> set (grps A x) \<Longrightarrow> data_of L (Grp_Head y) = Some y"
    and "y \<in> all_grps A \<Longrightarrow> z \<in> set (usrs A y) \<Longrightarrow> data_of L (Usr_Head z) = Some z"
    and "x \<in> set (devs A) \<Longrightarrow> x \<in> all_devs A"
    and "x \<in> all_devs A \<Longrightarrow> y \<in> set (grps A x) \<Longrightarrow> y \<in> all_grps A"
    and "x \<in> all_devs A \<Longrightarrow> x' \<in> all_devs A \<Longrightarrow> y \<in> set (grps A x) \<Longrightarrow> y \<in> set (grps A x') \<Longrightarrow> x = x'"
    and "y \<in> all_grps A \<Longrightarrow> y' \<in> all_grps A \<Longrightarrow> z \<in> set (usrs A y) \<Longrightarrow> z \<in> set (usrs A y') \<Longrightarrow> y = y'"
  using assms unfolding acl_lists_def by blast+

lemma lists_new_user:
  assumes A: "acl_lists L A" and z: "\<forall>y\<in>all_grps A. z \<notin> set (usrs A y)"
  shows "acl_lists (link_init (Usr_Head z) L) A"
proof -
  let ?L = "link_init (Usr_Head z) L" and ?S = "{Usr_Head z}"
  have o: "dlist ?L h xs" if "dlist L h xs" and "\<And>c. c \<in> set (h # xs) \<Longrightarrow> c \<notin> ?S" for h xs
    using that by (subst dlist_frame[of _ _ ?L L]) auto
  have "dlist ?L Device_Acl_List (map Dev_Head (devs A))"
    by (rule o[OF acl_listsD(1)[OF A]]) auto
  moreover have "dlist ?L (Group_Head x) (map Grp_Head (grps A x))" if "x \<in> all_devs A" for x
    by (rule o[OF acl_listsD(2)[OF A that]]) auto
  moreover have "dlist ?L (User_Head y) (map Usr_Head (usrs A y))" if "y \<in> all_grps A" for y
    by (rule o[OF acl_listsD(3)[OF A that]]) (use z that in auto)
  ultimately show ?thesis using acl_listsD(4-10)[OF A] assms(2)
    by (intro acl_listsI) (auto split: if_splits)
qed

lemma lists_new_group:
  assumes A: "acl_lists L A" and y: "y \<notin> all_grps A"
  shows "acl_lists (link_init (User_Head y) (link_init (Grp_Head y) L)) (A\<lparr>all_grps := insert y (all_grps A), usrs := (usrs A)(y := [])\<rparr>)"
proof -
  let ?L = "link_init (User_Head y) (link_init (Grp_Head y) L)" and ?S = "{User_Head y, Grp_Head y}"
  have "dlist ?L (User_Head y) []" by (rule dlist_init)
  moreover
  have o: "dlist ?L h xs" if "dlist L h xs" and "\<And>c. c \<in> set (h # xs) \<Longrightarrow> c \<notin> ?S" for h xs
    using that by (subst dlist_frame[of _ _ ?L L]) auto
  have "dlist ?L Device_Acl_List (map Dev_Head (devs A))"
    by (rule o[OF acl_listsD(1)[OF A]]) auto
  moreover have "dlist ?L (Group_Head x) (map Grp_Head (grps A x))" if "x \<in> all_devs A" for x
    by (rule o[OF acl_listsD(2)[OF A that]]) (use y that acl_listsD(8)[OF A that] in auto)
  moreover have "dlist ?L (User_Head y) (map Usr_Head (usrs A y))" if "y \<in> all_grps A" for y
    by (rule o[OF acl_listsD(3)[OF A that]]) (use y that in auto)
  ultimately show ?thesis using acl_listsD(4-10)[OF A] assms(2)
    by (intro acl_listsI) (auto split: if_splits)
qed

lemma lists_new_device:
  assumes A: "acl_lists L A" and x: "x \<notin> all_devs A"
  shows "acl_lists (link_init (Group_Head x) (link_init (Dev_Head x) L)) (A\<lparr>all_devs := insert x (all_devs A), grps := (grps A)(x := [])\<rparr>)"
proof -
  let ?L = "link_init (Group_Head x) (link_init (Dev_Head x) L)" and ?S = "{Group_Head x, Dev_Head x}"
  have "dlist ?L (Group_Head x) []" by (rule dlist_init)
  moreover
  have o: "dlist ?L h xs" if "dlist L h xs" and "\<And>c. c \<in> set (h # xs) \<Longrightarrow> c \<notin> ?S" for h xs
    using that by (subst dlist_frame[of _ _ ?L L]) auto
  have "dlist ?L Device_Acl_List (map Dev_Head (devs A))"
    by (rule o[OF acl_listsD(1)[OF A]]) (use x acl_listsD(7)[OF A] in auto)
  moreover have "dlist ?L (Group_Head x) (map Grp_Head (grps A x))" if "x \<in> all_devs A" for x
    by (rule o[OF acl_listsD(2)[OF A that]]) (use x that in auto)
  moreover have "dlist ?L (User_Head y) (map Usr_Head (usrs A y))" if "y \<in> all_grps A" for y
    by (rule o[OF acl_listsD(3)[OF A that]]) auto
  ultimately show ?thesis using acl_listsD(4-10)[OF A] assms(2)
    by (intro acl_listsI) (auto split: if_splits)
qed

lemma lists_append_user:
  assumes A: "acl_lists L A" and y: "y \<in> all_grps A" and z: "\<forall>y\<in>all_grps A. z \<notin> set (usrs A y)"
  shows "\<exists>L'. add_link (User_Head y) (Usr_Head z) TAIL (set_link_data (Usr_Head z) (Some z) L) = Some L' \<and>
    acl_lists L' (A\<lparr>usrs := (usrs A)(y := usrs A y @ [z])\<rparr>)"
proof -
  let ?L = "set_link_data (Usr_Head z) (Some z) L" and ?cs = "map Usr_Head (usrs A y)"
  have d: "dlist ?L (User_Head y) ?cs" using acl_listsD(3)[OF A] assms(2) by simp
  have new: "Usr_Head z \<notin> set (User_Head y # ?cs)" using assms by auto
  obtain L' where L': "add_link (User_Head y) (Usr_Head z) TAIL ?L = Some L'" "dlist L' (User_Head y) (?cs @ [Usr_Head z])"
    "same_outside (set (Usr_Head z # User_Head y # ?cs)) ?L L'"
    using dlist_add_TAIL[OF d new] by blast
  have data: "data_of L' = (data_of L)(Usr_Head z := Some z)" using same_outside_data[OF L'(3)] by simp
  have o: "dlist L' h xs" if "dlist L h xs" and "\<And>c. c \<in> set (h # xs) \<Longrightarrow> c \<notin> set (Usr_Head z # User_Head y # ?cs)" for h xs
  proof -
    have "set (Usr_Head z # User_Head y # ?cs) \<inter> set (h # xs) = {}" using that(2) by blast
    from same_outside_dlist[OF L'(3) this] show ?thesis using that(1) by simp
  qed
  have "dlist L' Device_Acl_List (map Dev_Head (devs A))" by (rule o[OF acl_listsD(1)[OF A]]) auto
  moreover have "dlist L' (Group_Head x) (map Grp_Head (grps A x))" if "x \<in> all_devs A" for x
    by (rule o[OF acl_listsD(2)[OF A that]]) auto
  moreover have "dlist L' (User_Head ya) (map Usr_Head (usrs A ya))" if "ya \<in> all_grps A" and "y \<noteq> ya" for ya
    by (rule o[OF acl_listsD(3)[OF A that(1)]]) (use that y z acl_listsD(10)[OF A y that(1)] in auto)
  ultimately have "acl_lists L' (A\<lparr>usrs := (usrs A)(y := usrs A y @ [z])\<rparr>)" using acl_listsD(4-10)[OF A] assms(2-) L'(2)
    by (intro acl_listsI) (auto simp: data split: if_splits)
  then show ?thesis using L'(1) by blast
qed

lemma lists_append_group:
  assumes A: "acl_lists L A" and x: "x \<in> all_devs A" and y: "y \<in> all_grps A" and n: "\<forall>x\<in>all_devs A. y \<notin> set (grps A x)"
  shows "\<exists>L'. add_link (Group_Head x) (Grp_Head y) TAIL (set_link_data (Grp_Head y) (Some y) L) = Some L' \<and>
    acl_lists L' (A\<lparr>grps := (grps A)(x := grps A x @ [y])\<rparr>)"
proof -
  let ?L = "set_link_data (Grp_Head y) (Some y) L" and ?cs = "map Grp_Head (grps A x)"
  have d: "dlist ?L (Group_Head x) ?cs" using acl_listsD(2)[OF A] assms(2) by simp
  have new: "Grp_Head y \<notin> set (Group_Head x # ?cs)" using assms by auto
  obtain L' where L': "add_link (Group_Head x) (Grp_Head y) TAIL ?L = Some L'" "dlist L' (Group_Head x) (?cs @ [Grp_Head y])"
    "same_outside (set (Grp_Head y # Group_Head x # ?cs)) ?L L'"
    using dlist_add_TAIL[OF d new] by blast
  have data: "data_of L' = (data_of L)(Grp_Head y := Some y)" using same_outside_data[OF L'(3)] by simp
  have o: "dlist L' h xs" if "dlist L h xs" and "\<And>c. c \<in> set (h # xs) \<Longrightarrow> c \<notin> set (Grp_Head y # Group_Head x # ?cs)" for h xs
  proof -
    have "set (Grp_Head y # Group_Head x # ?cs) \<inter> set (h # xs) = {}" using that(2) by blast
    from same_outside_dlist[OF L'(3) this] show ?thesis using that(1) by simp
  qed
  have "dlist L' Device_Acl_List (map Dev_Head (devs A))" by (rule o[OF acl_listsD(1)[OF A]]) auto
  moreover have "dlist L' (Group_Head xa) (map Grp_Head (grps A xa))" if "xa \<in> all_devs A" and "x \<noteq> xa" for xa
    by (rule o[OF acl_listsD(2)[OF A that(1)]]) (use that x n acl_listsD(9)[OF A x that(1)] in auto)
  moreover have "dlist L' (User_Head y) (map Usr_Head (usrs A y))" if "y \<in> all_grps A" for y
    by (rule o[OF acl_listsD(3)[OF A that]]) auto
  ultimately have "acl_lists L' (A\<lparr>grps := (grps A)(x := grps A x @ [y])\<rparr>)" using acl_listsD(4-10)[OF A] assms(2-) L'(2)
    by (intro acl_listsI) (auto simp: data split: if_splits)
  then show ?thesis using L'(1) by blast
qed

lemma lists_append_device:
  assumes A: "acl_lists L A" and x: "x \<in> all_devs A" and n: "x \<notin> set (devs A)"
  shows "\<exists>L'. add_link (Device_Acl_List) (Dev_Head x) TAIL (set_link_data (Dev_Head x) (Some x) L) = Some L' \<and>
    acl_lists L' (A\<lparr>devs := devs A @ [x]\<rparr>)"
proof -
  let ?L = "set_link_data (Dev_Head x) (Some x) L" and ?cs = "map Dev_Head (devs A)"
  have d: "dlist ?L (Device_Acl_List) ?cs" using acl_listsD(1)[OF A] assms(2) by simp
  have new: "Dev_Head x \<notin> set (Device_Acl_List # ?cs)" using assms by auto
  obtain L' where L': "add_link (Device_Acl_List) (Dev_Head x) TAIL ?L = Some L'" "dlist L' (Device_Acl_List) (?cs @ [Dev_Head x])"
    "same_outside (set (Dev_Head x # Device_Acl_List # ?cs)) ?L L'"
    using dlist_add_TAIL[OF d new] by blast
  have data: "data_of L' = (data_of L)(Dev_Head x := Some x)" using same_outside_data[OF L'(3)] by simp
  have o: "dlist L' h xs" if "dlist L h xs" and "\<And>c. c \<in> set (h # xs) \<Longrightarrow> c \<notin> set (Dev_Head x # Device_Acl_List # ?cs)" for h xs
  proof -
    have "set (Dev_Head x # Device_Acl_List # ?cs) \<inter> set (h # xs) = {}" using that(2) by blast
    from same_outside_dlist[OF L'(3) this] show ?thesis using that(1) by simp
  qed
  have "dlist L' (Group_Head x) (map Grp_Head (grps A x))" if "x \<in> all_devs A" for x
    by (rule o[OF acl_listsD(2)[OF A that]]) auto
  moreover have "dlist L' (User_Head y) (map Usr_Head (usrs A y))" if "y \<in> all_grps A" for y
    by (rule o[OF acl_listsD(3)[OF A that]]) auto
  ultimately have "acl_lists L' (A\<lparr>devs := devs A @ [x]\<rparr>)" using acl_listsD(4-10)[OF A] assms(2-) L'(2)
    by (intro acl_listsI) (auto simp: data split: if_splits)
  then show ?thesis using L'(1) by blast
qed

declare add_link.simps [simp del]

lemma acl_append_Some:
  "add_link head node TAIL (set_link_data node (Some x) (acl_links s)) = Some L \<Longrightarrow>
     acl_append head node x s = Some (s\<lparr>acl_links := L\<rparr>)"
  by (simp add: acl_append_def)

lemma grant_user:
  assumes rep: "acl_rep s A" and x: "x \<in> set (devs A)" and y: "y \<in> set (grps A x)"
    and z: "\<forall>y\<in>all_grps A. z \<notin> set (usrs A y)"
  shows "\<exists>s' A'. acl_append (User_Head y) (Usr_Head z) z (acl_new_user z u s) = Some s' \<and> acl_rep s' A' \<and>
     (\<forall>q. allowed s' A' q \<longleftrightarrow> allowed s A q \<or> q = (dev_did s x, grp_gid s y, u))"
proof -
  let ?s1 = "acl_new_user z u s" and ?A = "A\<lparr>usrs := (usrs A)(y := usrs A y @ [z])\<rparr>"
  have l: "acl_lists (acl_links s) A" using rep by (simp add: acl_rep_def)
  have xA: "x \<in> all_devs A" using acl_listsD(7)[OF l x] .
  have yA: "y \<in> all_grps A" using acl_listsD(8)[OF l xA y] .
  have "acl_lists (acl_links ?s1) A" using lists_new_user[OF l z] by (simp add: acl_new_user_def)
  from lists_append_user[OF this yA z] obtain L where
    L: "add_link (User_Head y) (Usr_Head z) TAIL (set_link_data (Usr_Head z) (Some z) (acl_links ?s1)) = Some L"
    "acl_lists L ?A" by blast
  let ?s' = "?s1\<lparr>acl_links := L\<rparr>"
  have g: "x' \<in> set (devs A) \<Longrightarrow> y' \<in> set (grps A x') \<Longrightarrow> y' \<in> all_grps A" for x' y'
    using acl_listsD(7,8)[OF l] by blast
  have u: "y \<in> set (grps A x') \<Longrightarrow> x' \<in> set (devs A) \<Longrightarrow> x' = x" for x'
    using acl_listsD(9)[OF l] acl_listsD(7)[OF l] xA y by blast
  have "acl_rep ?s' ?A" using rep L(2) by (simp add: acl_rep_def acl_new_user_def)
  moreover have "allowed ?s' ?A q \<longleftrightarrow> allowed s A q \<or> q = (dev_did s x, grp_gid s y, u)" for q
  proof -
    obtain d g' u' where q: "q = (d, g', u')" by (cases q)
    have user: "(\<exists>z'\<in>set (usrs ?A y'). usr_uid ?s' z' = u') \<longleftrightarrow>
        (\<exists>z'\<in>set (usrs A y'). usr_uid s z' = u') \<or> y' = y \<and> u' = u" if "y' \<in> all_grps A" for y'
      using z that by (auto simp: acl_new_user_def)
    have "allowed ?s' ?A q \<longleftrightarrow> (\<exists>x'\<in>set (devs A). dev_did s x' = d \<and> (\<exists>y'\<in>set (grps A x'). grp_gid s y' = g' \<and>
        ((\<exists>z'\<in>set (usrs A y'). usr_uid s z' = u') \<or> y' = y \<and> u' = u)))"
      unfolding q allowed_def prod.case using g user by (simp add: acl_new_user_def cong: bex_cong conj_cong)
    also have "\<dots> \<longleftrightarrow> allowed s A q \<or> q = (dev_did s x, grp_gid s y, u)"
      unfolding q allowed_def prod.case using x y u by blast
    finally show ?thesis .
  qed
  ultimately show ?thesis using acl_append_Some[OF L(1)] by blast
qed

lemma fresh_uid:
  "z \<notin> set zs \<Longrightarrow> (\<exists>z'\<in>set zs. (f(z := u)) z' = v) \<longleftrightarrow> (\<exists>z'\<in>set zs. f z' = v)"
  by (auto intro: bexI)

lemma prepare_group:
  assumes l: "acl_lists (acl_links s) A" and y: "y \<notin> all_grps A" and z: "\<forall>y\<in>all_grps A. z \<notin> set (usrs A y)"
  shows "\<exists>L. acl_append (User_Head y) (Usr_Head z) z (acl_new_group y g (acl_new_user z u s)) =
      Some (s\<lparr>acl_links := L, grp_gid := (grp_gid s)(y := g), usr_uid := (usr_uid s)(z := u)\<rparr>) \<and>
    acl_lists L (A\<lparr>all_grps := insert y (all_grps A), usrs := (usrs A)(y := [z])\<rparr>)"
proof -
  let ?s1 = "acl_new_user z u s" and ?s2 = "acl_new_group y g (acl_new_user z u s)"
  have "acl_lists (acl_links ?s1) A" using lists_new_user[OF l z] by (simp add: acl_new_user_def)
  from lists_new_group[OF this y]
  have "acl_lists (acl_links ?s2) (A\<lparr>all_grps := insert y (all_grps A), usrs := (usrs A)(y := [])\<rparr>)"
    by (simp add: acl_new_group_def)
  moreover have "\<forall>ya\<in>insert y (all_grps A). z \<notin> set (((usrs A)(y := [])) ya)" using z by auto
  ultimately obtain L where
    L: "add_link (User_Head y) (Usr_Head z) TAIL (set_link_data (Usr_Head z) (Some z) (acl_links ?s2)) = Some L"
    "acl_lists L (A\<lparr>all_grps := insert y (all_grps A), usrs := (usrs A)(y := [z])\<rparr>)" using lists_append_user[of "acl_links ?s2" _ y z] by fastforce
  show ?thesis using acl_append_Some[OF L(1)] L(2)
    by (intro exI[of _ L]) (simp add: acl_new_group_def acl_new_user_def)
qed

lemma grant_group:
  assumes rep: "acl_rep s A" and x: "x \<in> set (devs A)" and g: "\<forall>y\<in>set (grps A x). grp_gid s y \<noteq> g"
    and y: "y \<notin> all_grps A" and z: "\<forall>y\<in>all_grps A. z \<notin> set (usrs A y)"
  shows "\<exists>s2 s' A'. acl_append (User_Head y) (Usr_Head z) z (acl_new_group y g (acl_new_user z u s)) = Some s2 \<and>
     acl_append (Group_Head x) (Grp_Head y) y s2 = Some s' \<and> acl_rep s' A' \<and>
     (\<forall>q. allowed s' A' q \<longleftrightarrow> allowed s A q \<or> q = (dev_did s x, g, u))"
proof -
  have l: "acl_lists (acl_links s) A" using rep by (simp add: acl_rep_def)
  have xA: "x \<in> all_devs A" using acl_listsD(7)[OF l x] .
  have yn: "\<forall>x\<in>all_devs A. y \<notin> set (grps A x)" using y acl_listsD(8)[OF l] by blast
  let ?A2 = "A\<lparr>all_grps := insert y (all_grps A), usrs := (usrs A)(y := [z])\<rparr>"
  obtain L2 where L2: "acl_append (User_Head y) (Usr_Head z) z (acl_new_group y g (acl_new_user z u s)) =
      Some (s\<lparr>acl_links := L2, grp_gid := (grp_gid s)(y := g), usr_uid := (usr_uid s)(z := u)\<rparr>)"
    "acl_lists L2 ?A2" using prepare_group[OF l y z] by blast
  let ?s2 = "s\<lparr>acl_links := L2, grp_gid := (grp_gid s)(y := g), usr_uid := (usr_uid s)(z := u)\<rparr>"
  let ?A = "?A2\<lparr>grps := (grps A)(x := grps A x @ [y])\<rparr>"
  obtain L where L: "add_link (Group_Head x) (Grp_Head y) TAIL (set_link_data (Grp_Head y) (Some y) (acl_links ?s2)) = Some L"
    "acl_lists L ?A"
    using lists_append_group[OF L2(2), of x y] xA yn by auto
  let ?s' = "?s2\<lparr>acl_links := L\<rparr>"
  have gA: "x' \<in> set (devs A) \<Longrightarrow> y' \<in> set (grps A x') \<Longrightarrow> y' \<in> all_grps A \<and> y' \<noteq> y" for x' y'
    using acl_listsD(7,8)[OF l] y by blast
  have "distinct (map (grp_gid ?s') (grps ?A x'))" if "x' \<in> set (devs A)" for x'
  proof -
    have "map (grp_gid ?s') (grps A x') = map (grp_gid s) (grps A x')" using gA[OF that] by auto
    moreover have "distinct (map (grp_gid s) (grps A x'))" using rep that by (simp add: acl_rep_def)
    ultimately have "distinct (map (grp_gid ?s') (grps A x'))" by (simp only:)
    moreover have "grp_gid ?s' y \<notin> grp_gid ?s' ` set (grps A x)" using g gA[OF x] by auto
    ultimately show ?thesis by auto
  qed
  then have "acl_rep ?s' ?A" using rep L(2) by (simp add: acl_rep_def)
  moreover have "allowed ?s' ?A q \<longleftrightarrow> allowed s A q \<or> q = (dev_did s x, g, u)" for q
  proof -
    obtain d g' u' where q: "q = (d, g', u')" by (cases q)
    have old: "(\<exists>y'\<in>set (grps A x'). grp_gid ?s' y' = g' \<and> (\<exists>z'\<in>set (usrs ?A y'). usr_uid ?s' z' = u')) \<longleftrightarrow>
       (\<exists>y'\<in>set (grps A x'). grp_gid s y' = g' \<and> (\<exists>z'\<in>set (usrs A y'). usr_uid s z' = u'))" if "x' \<in> set (devs A)" for x'
      using gA[OF that] z by (intro bex_cong refl) (simp add: fresh_uid fun_upd_other del: fun_upd_apply)
    let ?P = "\<lambda>y'. grp_gid ?s' y' = g' \<and> (\<exists>z'\<in>set (usrs ?A y'). usr_uid ?s' z' = u')"
    have new: "?P y \<longleftrightarrow> g' = g \<and> u' = u" by auto
    have "set (grps ?A x') = set (grps A x') \<union> (if x' = x then {y} else {})" for x' by simp
    then have "allowed ?s' ?A q \<longleftrightarrow>
        (\<exists>x'\<in>set (devs A). dev_did s x' = d \<and> ((\<exists>y'\<in>set (grps A x'). ?P y') \<or> x' = x \<and> ?P y))"
      unfolding q allowed_def prod.case by (intro bex_cong) (simp_all add: bex_Un)
    also have "\<dots> \<longleftrightarrow> (\<exists>x'\<in>set (devs A). dev_did s x' = d \<and>
        ((\<exists>y'\<in>set (grps A x'). grp_gid s y' = g' \<and> (\<exists>z'\<in>set (usrs A y'). usr_uid s z' = u')) \<or> x' = x \<and> g' = g \<and> u' = u))"
      unfolding new using old by (simp only: cong: bex_cong)
    also have "\<dots> \<longleftrightarrow> allowed s A q \<or> q = (dev_did s x, g, u)"
      unfolding q allowed_def prod.case using x by blast
    finally show ?thesis .
  qed
  ultimately show ?thesis using L2(1) acl_append_Some[OF L(1)] by blast
qed

lemma grant_device:
  assumes rep: "acl_rep s A" and d: "\<forall>x\<in>set (devs A). dev_did s x \<noteq> d" and x: "x \<notin> all_devs A"
    and y: "y \<notin> all_grps A" and z: "\<forall>y\<in>all_grps A. z \<notin> set (usrs A y)"
  shows "\<exists>s2 s3 s' A'. acl_append (User_Head y) (Usr_Head z) z (acl_new_group y g (acl_new_user z u s)) = Some s2 \<and>
     acl_append (Group_Head x) (Grp_Head y) y (acl_new_device x d s2) = Some s3 \<and>
     acl_append Device_Acl_List (Dev_Head x) x s3 = Some s' \<and> acl_rep s' A' \<and>
     (\<forall>q. allowed s' A' q \<longleftrightarrow> allowed s A q \<or> q = (d, g, u))"
proof -
  have l: "acl_lists (acl_links s) A" using rep by (simp add: acl_rep_def)
  have yn: "\<forall>x\<in>all_devs A. y \<notin> set (grps A x)" using y acl_listsD(8)[OF l] by blast
  have xn: "x \<notin> set (devs A)" using x acl_listsD(7)[OF l] by blast
  let ?A2 = "A\<lparr>all_grps := insert y (all_grps A), usrs := (usrs A)(y := [z])\<rparr>"
  obtain L2 where L2: "acl_append (User_Head y) (Usr_Head z) z (acl_new_group y g (acl_new_user z u s)) =
      Some (s\<lparr>acl_links := L2, grp_gid := (grp_gid s)(y := g), usr_uid := (usr_uid s)(z := u)\<rparr>)"
    "acl_lists L2 ?A2" using prepare_group[OF l y z] by blast
  let ?s2 = "s\<lparr>acl_links := L2, grp_gid := (grp_gid s)(y := g), usr_uid := (usr_uid s)(z := u)\<rparr>"
  let ?s2' = "acl_new_device x d ?s2"
  let ?A3 = "?A2\<lparr>all_devs := insert x (all_devs A), grps := (grps A)(x := [])\<rparr>"
  have "acl_lists (acl_links ?s2') ?A3"
    using lists_new_device[OF L2(2), of x] x by (simp add: acl_new_device_def)
  moreover have "\<forall>x'\<in>insert x (all_devs A). y \<notin> set (((grps A)(x := [])) x')" using yn by auto
  ultimately obtain L3 where
    L3: "add_link (Group_Head x) (Grp_Head y) TAIL (set_link_data (Grp_Head y) (Some y) (acl_links ?s2')) = Some L3"
    "acl_lists L3 (?A3\<lparr>grps := (grps A)(x := [y])\<rparr>)"
    using lists_append_group[of "acl_links ?s2'" _ x y] by fastforce
  let ?s3 = "?s2'\<lparr>acl_links := L3\<rparr>" and ?A4 = "?A3\<lparr>grps := (grps A)(x := [y])\<rparr>"
  let ?A = "?A4\<lparr>devs := devs A @ [x]\<rparr>"
  obtain L where L: "add_link Device_Acl_List (Dev_Head x) TAIL (set_link_data (Dev_Head x) (Some x) (acl_links ?s3)) = Some L"
    "acl_lists L ?A"
    using lists_append_device[OF L3(2), of x] xn by auto
  let ?s' = "?s3\<lparr>acl_links := L\<rparr>"
  have sel: "dev_did ?s' = (dev_did s)(x := d)" "grp_gid ?s' = (grp_gid s)(y := g)" "usr_uid ?s' = (usr_uid s)(z := u)"
    by (simp_all add: acl_new_device_def)
  have gA: "x' \<noteq> x" "y' \<in> set (grps A x') \<Longrightarrow> y' \<in> all_grps A \<and> y' \<noteq> y" if "x' \<in> set (devs A)" for x' y'
    using acl_listsD(7,8)[OF l] x y that by blast+
  have "distinct (map (grp_gid ?s') (grps ?A x'))" if "x' \<in> set (devs A)" for x'
  proof -
    have "map (grp_gid ?s') (grps A x') = map (grp_gid s) (grps A x')" using gA(2)[OF that] sel by auto
    moreover have "distinct (map (grp_gid s) (grps A x'))" using rep that by (simp add: acl_rep_def)
    moreover have "grps ?A x' = grps A x'" using gA(1)[OF that] by simp
    ultimately show ?thesis by (simp only:)
  qed
  moreover have "distinct (map (dev_did ?s') (devs ?A))"
  proof -
    have "map (dev_did ?s') (devs A) = map (dev_did s) (devs A)" using gA(1) sel(1) by auto
    moreover have "distinct (map (dev_did s) (devs A))" using rep by (simp add: acl_rep_def)
    ultimately have "distinct (map (dev_did ?s') (devs A))" by (simp only:)
    moreover have "dev_did ?s' x \<notin> dev_did ?s' ` set (devs A)" using d gA(1) sel(1) by auto
    ultimately show ?thesis by simp
  qed
  ultimately have "acl_rep ?s' ?A" using L(2) by (simp add: acl_rep_def)
  moreover have "allowed ?s' ?A q \<longleftrightarrow> allowed s A q \<or> q = (d, g, u)" for q
  proof -
    obtain d' g' u' where q: "q = (d', g', u')" by (cases q)
    have old: "(dev_did ?s' x' = d' \<and> (\<exists>y'\<in>set (grps ?A x'). grp_gid ?s' y' = g' \<and> (\<exists>z'\<in>set (usrs ?A y'). usr_uid ?s' z' = u'))) \<longleftrightarrow>
       (dev_did s x' = d' \<and> (\<exists>y'\<in>set (grps A x'). grp_gid s y' = g' \<and> (\<exists>z'\<in>set (usrs A y'). usr_uid s z' = u')))"
      if "x' \<in> set (devs A)" for x'
    proof -
      have "(\<exists>y'\<in>set (grps A x'). grp_gid ?s' y' = g' \<and> (\<exists>z'\<in>set (usrs ?A y'). usr_uid ?s' z' = u')) \<longleftrightarrow>
         (\<exists>y'\<in>set (grps A x'). grp_gid s y' = g' \<and> (\<exists>z'\<in>set (usrs A y'). usr_uid s z' = u'))"
        using gA(2)[OF that] z unfolding sel by (intro bex_cong refl) (simp add: fresh_uid fun_upd_other del: fun_upd_apply)
      moreover have "grps ?A x' = grps A x'" "dev_did ?s' x' = dev_did s x'" using gA(1)[OF that] sel by simp_all
      ultimately show ?thesis by (simp only:)
    qed
    have new: "(dev_did ?s' x = d' \<and> (\<exists>y'\<in>set (grps ?A x). grp_gid ?s' y' = g' \<and> (\<exists>z'\<in>set (usrs ?A y'). usr_uid ?s' z' = u')))
       \<longleftrightarrow> q = (d, g, u)" unfolding sel q by auto
    have "allowed ?s' ?A q \<longleftrightarrow> (\<exists>x'\<in>set (devs A). dev_did ?s' x' = d' \<and> (\<exists>y'\<in>set (grps ?A x'). grp_gid ?s' y' = g' \<and> (\<exists>z'\<in>set (usrs ?A y'). usr_uid ?s' z' = u')))
       \<or> q = (d, g, u)" unfolding new[symmetric] unfolding q allowed_def prod.case by auto
    also have "\<dots> \<longleftrightarrow> allowed s A q \<or> q = (d, g, u)"
      unfolding q allowed_def prod.case using old by (simp only: cong: bex_cong)
    finally show ?thesis .
  qed
  ultimately show ?thesis using L2(1) acl_append_Some[OF L3(1)] acl_append_Some[OF L(1)] by blast
qed

lemma update_global_ACL_rep:
  assumes rep: "acl_rep s A" and fresh: "acl_fresh env A"
  shows "\<exists>s' A'. update_global_ACL env d g u s = Some s' \<and> acl_rep s' A' \<and>
     (\<forall>q. allowed s' A' q \<longleftrightarrow> allowed s A q \<or> q = (d, g, u))"
proof -
  obtain z y x where env: "new_user env = Some z" "new_group env = Some y" "new_device env = Some x"
    and z: "\<forall>y\<in>all_grps A. z \<notin> set (usrs A y)" and y: "y \<notin> all_grps A" and x: "x \<notin> all_devs A"
    using fresh by (auto simp: acl_fresh_def split: option.splits)
  show ?thesis
  proof (cases "List.find (\<lambda>x. dev_did s x = d) (devs A)")
    case None
    then have "\<forall>x\<in>set (devs A). dev_did s x \<noteq> d" by (simp add: find_None_iff_none)
    from grant_device[OF rep this x y z, of g u] show ?thesis using env None
      by (auto simp: update_global_ACL_def find_device_rep[OF rep] find_group_def find_user_def)
  next
    case (Some x1)
    then have x1: "x1 \<in> set (devs A)" "dev_did s x1 = d" using find_in[OF Some] by simp_all
    show ?thesis
    proof (cases "List.find (\<lambda>y. grp_gid s y = g) (grps A x1)")
      case None
      then have "\<forall>y\<in>set (grps A x1). grp_gid s y \<noteq> g" by (simp add: find_None_iff_none)
      from grant_group[OF rep x1(1) this y z, of u] show ?thesis using env Some None x1
        by (auto simp: update_global_ACL_def find_device_rep[OF rep] find_group_rep[OF rep] find_user_def)
    next
      case y1: (Some y1)
      then have yin: "y1 \<in> set (grps A x1)" "grp_gid s y1 = g" using find_in[OF y1] by simp_all
      show ?thesis
      proof (cases "List.find (\<lambda>z. usr_uid s z = u) (usrs A y1)")
        case None
        from grant_user[OF rep x1(1) yin(1) z, of u] show ?thesis using env Some y1 None x1 yin
          by (auto simp: update_global_ACL_def find_device_rep[OF rep] find_group_rep[OF rep] find_user_rep[OF rep])
      next
        case z1: (Some z1)
        then have "allowed s A (d, g, u)" using Some y1 by (simp add: allowed_find[OF rep])
        moreover have "update_global_ACL env d g u s = Some s" using Some y1 z1 x1 yin
          by (simp add: update_global_ACL_def find_device_rep[OF rep] find_group_rep[OF rep] find_user_rep[OF rep])
        ultimately show ?thesis using rep by blast
      qed
    qed
  qed
qed

text \<open>C33. \<^verbatim>\<open>update_global_ACL\<close> keeps the three levels of lists well formed (no device or group twice) and
  grants exactly the permission asked for: afterwards \<^verbatim>\<open>get_permission\<close> allows a task what it
  allowed before and, to tasks of that group and user, the device.\<close>

theorem update_global_ACL_grants:
  assumes "acl_rep s A" and "acl_fresh env A"
  shows "\<exists>s' A'. update_global_ACL env d g u s = Some s' \<and> acl_rep s' A' \<and>
     (\<forall>t d'. get_permission 1 (Some t) d' s' = Some 1 \<longleftrightarrow>
        get_permission 1 (Some t) d' s = Some 1 \<or> (d', acl_gid t, acl_uid t) = (d, g, u))"
proof -
  obtain s' A' where s': "update_global_ACL env d g u s = Some s'" "acl_rep s' A'"
    "\<forall>q. allowed s' A' q \<longleftrightarrow> allowed s A q \<or> q = (d, g, u)"
    using update_global_ACL_rep[OF assms] by blast
  then show ?thesis using get_permission_rep[OF s'(2)] get_permission_rep[OF assms(1)] by auto
qed

definition acl_empty :: acl_state where
  "acl_empty = \<lparr>acl_links = link_init Device_Acl_List \<lparr>next_of = \<lambda>_. None, prev_of = \<lambda>_. None, data_of = \<lambda>_. None\<rparr>,
     dev_did = \<lambda>_. 0, grp_gid = \<lambda>_. 0, usr_uid = \<lambda>_. 0\<rparr>"

definition shape_empty :: acl_shape where
  "shape_empty = \<lparr>all_devs = {}, all_grps = {}, devs = [], grps = \<lambda>_. [], usrs = \<lambda>_. []\<rparr>"

lemma acl_empty_rep: "acl_rep acl_empty shape_empty"
  using dlist_init[of Device_Acl_List] by (simp add: acl_rep_def acl_lists_def acl_empty_def shape_empty_def)

lemma update_global_ACL_grants_witness:
  "\<exists>s' A'. update_global_ACL \<lparr>new_user = Some 7, new_group = Some 8, new_device = Some 9\<rparr> 10001 1 2 acl_empty = Some s' \<and>
     acl_rep s' A' \<and>
     (\<forall>t d'. get_permission 1 (Some t) d' s' = Some 1 \<longleftrightarrow>
        get_permission 1 (Some t) d' acl_empty = Some 1 \<or> (d', acl_gid t, acl_uid t) = (10001, 1, 2))"
  by (rule update_global_ACL_grants[OF acl_empty_rep]) (simp add: acl_fresh_def shape_empty_def)

end
