(* ===== verification/Codec.thy ===== *)
theory Codec
  imports Str_Mem Page_Table
begin

text \<open>
  The encoding of parameters, \<^verbatim>\<open>lib/common/task_control.c\<close> with \<^verbatim>\<open>include/otz_common.h\<close>.  A command
  carries a request and a response buffer of 1K each and an array of descriptors, the first twelve
  for the request, the next four for the response.  \<open>decode_data\<close> is what a secure application calls
  for each parameter; \<open>otz_encode_data\<close> builds the buffers of a command from one secure application
  to another.  A word is stored at its address byte by byte, the lowest byte first.  The array of
  descriptors is the memory from its first element on, so an index may be negative.
\<close>

section \<open>Words in memory\<close>

definition load32 :: "bytes \<Rightarrow> u32 \<Rightarrow> u32" where
  "load32 m a = ucast (m a) OR push_bit 8 (ucast (m (a + 1))) OR push_bit 16 (ucast (m (a + 2))) OR
     push_bit 24 (ucast (m (a + 3)))"

definition store32 :: "u32 \<Rightarrow> u32 \<Rightarrow> bytes \<Rightarrow> bytes" where
  "store32 a w m = m(a := ucast w, a + 1 := ucast (drop_bit 8 w), a + 2 := ucast (drop_bit 16 w),
     a + 3 := ucast (drop_bit 24 w))"

lemma load_store [simp]: "load32 (store32 a w m) a = w"
proof -
  have "a + 1 \<noteq> a" "a + 2 \<noteq> a" "a + 3 \<noteq> a" "a + 2 \<noteq> a + 1" "a + 3 \<noteq> a + 1" "a + 3 \<noteq> a + 2" by simp_all
  then have "load32 (store32 a w m) a = ucast (ucast w :: u8) OR push_bit 8 (ucast (ucast (drop_bit 8 w) :: u8)) OR
      push_bit 16 (ucast (ucast (drop_bit 16 w) :: u8)) OR push_bit 24 (ucast (ucast (drop_bit 24 w) :: u8))"
    by (simp add: load32_def store32_def)
  also have "\<dots> = w"
  proof (rule bit_word_eqI)
    fix n :: nat assume n: "n < LENGTH(32)"
    consider "n < 8" | "8 \<le> n" "n < 16" | "16 \<le> n" "n < 24" | "24 \<le> n" by linarith
    then show "bit ((ucast (ucast w :: u8) OR push_bit 8 (ucast (ucast (drop_bit 8 w) :: u8)) OR
      push_bit 16 (ucast (ucast (drop_bit 16 w) :: u8)) OR push_bit 24 (ucast (ucast (drop_bit 24 w) :: u8))) :: u32) n = bit w n"
      using n by cases (auto simp: bit_or_iff bit_push_bit_iff bit_ucast_iff bit_drop_bit_eq)
  qed
  finally show ?thesis .
qed

lemma load32_cong: "(\<And>k. k < 4 \<Longrightarrow> m' (a + of_nat k) = m (a + of_nat k)) \<Longrightarrow> load32 m' a = load32 m a"
proof -
  assume eq: "\<And>k. k < 4 \<Longrightarrow> m' (a + of_nat k) = m (a + of_nat k)"
  show ?thesis using eq[of 0] eq[of 1] eq[of 2] eq[of 3] by (simp add: load32_def)
qed

section \<open>Descriptors\<close>

datatype otz_enc_data_type = OTZ_ENC_INVALID_TYPE | OTZ_ENC_UINT32 | OTZ_ENC_ARRAY | OTZ_MEM_REF | OTZ_SECURE_MEM_REF

record otzc_encode_meta =
  mtype :: otz_enc_data_type
  mlen :: u32
  usr_addr :: u32
  ret_len :: u32

definition OTZ_MAX_REQ_PARAMS :: u32 where "OTZ_MAX_REQ_PARAMS = 12"
definition OTZ_MAX_RES_PARAMS :: u32 where "OTZ_MAX_RES_PARAMS = 4"
definition OTZ_1K_SIZE :: u32 where "OTZ_1K_SIZE = 1024"

datatype otzc_param_type = OTZC_PARAM_IN | OTZC_PARAM_OUT | Other_Param

section \<open>Decoding\<close>

record decoded =
  d_type :: otz_enc_data_type
  d_offset :: u32
  d_pos :: int
  d_mapped :: bool
  d_data :: u32
  d_len :: u32

text \<open>For a reference the byte offset is added to a word pointer.  A reference of the non-secure world is
  mapped, and the data is its address; a reference of the secure world is the data.\<close>

definition decode_data ::
    "pt_env \<Rightarrow> bytes \<Rightarrow> u32 \<Rightarrow> (int \<Rightarrow> otzc_encode_meta) \<Rightarrow> u32 \<Rightarrow> int \<Rightarrow> pt_state \<Rightarrow> pt_state \<times> decoded sw_result" where
  "decode_data env m data meta_data offset pos st =
     (let len = mlen (meta_data pos) in
      case mtype (meta_data pos) of
        OTZ_ENC_UINT32 \<Rightarrow>
          (st, Inr \<lparr>d_type = OTZ_ENC_UINT32, d_offset = offset + 4, d_pos = pos + 1, d_mapped = False,
                   d_data = data + offset, d_len = len\<rparr>)
      | OTZ_ENC_ARRAY \<Rightarrow>
          (st, Inr \<lparr>d_type = OTZ_ENC_ARRAY, d_offset = offset + len, d_pos = pos + 1, d_mapped = False,
                   d_data = data + offset, d_len = len\<rparr>)
      | OTZ_MEM_REF \<Rightarrow>
          (case map_to_ns env (load32 m (data + 4 * offset)) st of
             (st', Inl e) \<Rightarrow> (st', Inl e)
           | (st', Inr va) \<Rightarrow>
               (st', Inr \<lparr>d_type = OTZ_MEM_REF, d_offset = offset + 4, d_pos = pos + 1, d_mapped = True,
                         d_data = va, d_len = len\<rparr>))
      | OTZ_SECURE_MEM_REF \<Rightarrow>
          (st, Inr \<lparr>d_type = OTZ_MEM_REF, d_offset = offset + 4, d_pos = pos + 1, d_mapped = False,
                   d_data = load32 m (data + 4 * offset), d_len = len\<rparr>)
      | OTZ_ENC_INVALID_TYPE \<Rightarrow> (st, Inl SW_ENONE))"

definition free_decoded_data :: "pt_env \<Rightarrow> u32 \<Rightarrow> pt_state \<Rightarrow> pt_state" where
  "free_decoded_data env ns_addr st = unmap_from_ns env ns_addr st"

text \<open>The position is that of the next parameter.\<close>

definition update_response_len ::
    "(int \<Rightarrow> otzc_encode_meta) \<Rightarrow> int \<Rightarrow> u32 \<Rightarrow> (int \<Rightarrow> otzc_encode_meta) \<times> unit sw_result" where
  "update_response_len meta_data pos len =
     (if pos \<le> uint (OTZ_MAX_REQ_PARAMS + OTZ_MAX_RES_PARAMS)
      then (meta_data(pos - 1 := (meta_data (pos - 1))\<lparr>ret_len := len\<rparr>), Inr ())
      else (meta_data, Inl SW_EINVAL))"

section \<open>Encoding in the secure world\<close>

record otz_secure_encode_cmd =
  enc_len :: u32
  enc_data :: u32
  enc_param :: otzc_param_type

record otz_secure_encode_ctx =
  req_addr :: u32
  res_addr :: u32
  enc_req_offset :: u32
  enc_res_offset :: u32
  enc_req_pos :: u32
  enc_res_pos :: u32

text \<open>The state of the encoder: the memory, what the heap will answer (0, or an exhausted list, for
  \<^verbatim>\<open>NULL\<close>), what has been freed, and the two pointers of the caller with what they point to,
  \<open>None\<close> for \<^verbatim>\<open>NULL\<close>.\<close>

record codec_state =
  cbytes :: bytes
  answers :: "u32 list"
  cfreed :: "u32 list"
  pmeta :: "(u32 \<times> (int \<Rightarrow> otzc_encode_meta)) option"
  pctx :: "(u32 \<times> otz_secure_encode_ctx) option"

definition cmalloc :: "codec_state \<Rightarrow> u32 \<times> codec_state" where
  "cmalloc s = (case answers s of [] \<Rightarrow> (0, s) | a # as \<Rightarrow> (a, s\<lparr>answers := as\<rparr>))"

definition empty_meta :: otzc_encode_meta where
  "empty_meta = \<lparr>mtype = OTZ_ENC_INVALID_TYPE, mlen = 0, usr_addr = 0, ret_len = 0\<rparr>"

definition empty_ctx :: otz_secure_encode_ctx where
  "empty_ctx = \<lparr>req_addr = 0, res_addr = 0, enc_req_offset = 0, enc_res_offset = 0, enc_req_pos = 0, enc_res_pos = 0\<rparr>"

definition free_if :: "u32 \<Rightarrow> codec_state \<Rightarrow> codec_state" where
  "free_if a s = (if a = 0 then s else s\<lparr>cfreed := cfreed s @ [a]\<rparr>)"

text \<open>The label \<^verbatim>\<open>ret_free_mem\<close>, and \<^verbatim>\<open>otz_release_data\<close>, which does the same; the pointers of the caller
  stay.\<close>

definition otz_release_data :: "codec_state \<Rightarrow> codec_state" where
  "otz_release_data s =
     (let s1 = (case pctx s of None \<Rightarrow> s
            | Some (a, c) \<Rightarrow>
                free_if a ((free_if (res_addr c) (free_if (req_addr c) s))
                  \<lparr>pctx := Some (a, c\<lparr>req_addr := 0, res_addr := 0\<rparr>)\<rparr>))
      in case pmeta s1 of None \<Rightarrow> s1 | Some (a, _) \<Rightarrow> free_if a s1)"

definition encode_fail :: "sw_error \<Rightarrow> codec_state \<Rightarrow> codec_state \<times> unit sw_result" where
  "encode_fail e s = (otz_release_data s, Inl e)"

definition encode_ctx :: "codec_state \<Rightarrow> codec_state \<times> bool" where
  "encode_ctx s =
     (case pctx s of Some _ \<Rightarrow> (s, True)
      | None \<Rightarrow> (case cmalloc s of (a, s1) \<Rightarrow> if a = 0 then (s1, False) else (s1\<lparr>pctx := Some (a, empty_ctx)\<rparr>, True)))"

definition encode_meta :: "codec_state \<Rightarrow> codec_state \<times> bool" where
  "encode_meta s =
     (case pmeta s of Some _ \<Rightarrow> (s, True)
      | None \<Rightarrow> (case cmalloc s of (a, s1) \<Rightarrow> if a = 0 then (s1, False) else (s1\<lparr>pmeta := Some (a, \<lambda>_. empty_meta)\<rparr>, True)))"

definition set_ctx :: "(otz_secure_encode_ctx \<Rightarrow> otz_secure_encode_ctx) \<Rightarrow> codec_state \<Rightarrow> codec_state" where
  "set_ctx f s = s\<lparr>pctx := map_option (\<lambda>(a, c). (a, f c)) (pctx s)\<rparr>"

definition set_meta :: "u32 \<Rightarrow> otz_enc_data_type \<Rightarrow> u32 \<Rightarrow> codec_state \<Rightarrow> codec_state" where
  "set_meta pos ty len s =
     s\<lparr>pmeta := map_option (\<lambda>(a, f). (a, f(uint pos := (f (uint pos))\<lparr>mtype := ty, mlen := len\<rparr>))) (pmeta s)\<rparr>"

text \<open>The stores of the two branches: the word goes to four times the offset.\<close>

definition encode_in :: "otz_enc_data_type \<Rightarrow> otz_secure_encode_cmd \<Rightarrow> codec_state \<Rightarrow> codec_state \<times> unit sw_result" where
  "encode_in ty enc s0 =
     (let c0 = snd (the (pctx s0));
          (s, ok) = (if req_addr c0 \<noteq> 0 then (s0, True)
            else case cmalloc s0 of (a, s1) \<Rightarrow>
              if a = 0 then (s1, False)
              else (set_ctx (\<lambda>c. c\<lparr>req_addr := a, enc_req_offset := 0, enc_req_pos := 0\<rparr>) s1, True));
          c = snd (the (pctx s))
      in if \<not> ok then encode_fail SW_ENOMEM s
      else if enc_req_offset c + 4 \<le> OTZ_1K_SIZE \<and> enc_req_pos c < OTZ_MAX_REQ_PARAMS
      then (set_ctx (\<lambda>c. c\<lparr>enc_req_offset := enc_req_offset c + 4, enc_req_pos := enc_req_pos c + 1\<rparr>)
             (set_meta (enc_req_pos c) ty (enc_len enc)
               (s\<lparr>cbytes := store32 (req_addr c + 4 * enc_req_offset c) (enc_data enc) (cbytes s)\<rparr>)), Inr ())
      else encode_fail SW_ENOMEM s)"

definition encode_out :: "otz_enc_data_type \<Rightarrow> otz_secure_encode_cmd \<Rightarrow> codec_state \<Rightarrow> codec_state \<times> unit sw_result" where
  "encode_out ty enc s0 =
     (let c0 = snd (the (pctx s0));
          (s, ok) = (if res_addr c0 \<noteq> 0 then (s0, True)
            else case cmalloc s0 of (a, s1) \<Rightarrow>
              if a = 0 then (s1, False)
              else (set_ctx (\<lambda>c. c\<lparr>res_addr := a, enc_res_pos := OTZ_MAX_REQ_PARAMS, enc_res_offset := 0\<rparr>) s1, True));
          c = snd (the (pctx s))
      in if \<not> ok then encode_fail SW_ENOMEM s
      else if enc_res_offset c + 4 \<le> OTZ_1K_SIZE \<and> enc_res_pos c < OTZ_MAX_RES_PARAMS + OTZ_MAX_REQ_PARAMS
      then (set_ctx (\<lambda>c. c\<lparr>enc_res_offset := enc_res_offset c + 4, enc_res_pos := enc_res_pos c + 1\<rparr>)
             (set_meta (enc_res_pos c) ty (enc_len enc)
               (s\<lparr>cbytes := store32 (res_addr c + 4 * enc_res_offset c) (enc_data enc) (cbytes s)\<rparr>)), Inr ())
      else encode_fail SW_ENOMEM s)"

text \<open>The pointers of the caller keep their values when they are not \<^verbatim>\<open>NULL\<close>; the model updates what they
  point to in place.\<close>

definition otz_encode_data ::
    "otz_enc_data_type \<Rightarrow> otz_secure_encode_cmd option \<Rightarrow> codec_state \<Rightarrow> codec_state \<times> unit sw_result" where
  "otz_encode_data ty enc s =
     (case enc of
        None \<Rightarrow> (s, Inl SW_EINVAL)
      | Some e \<Rightarrow>
          if ty \<noteq> OTZ_ENC_UINT32 \<and> ty \<noteq> OTZ_SECURE_MEM_REF then (s, Inl SW_EINVAL)
          else case encode_ctx s of (s1, ok1) \<Rightarrow>
            if \<not> ok1 then encode_fail SW_ENOMEM s1
            else case encode_meta s1 of (s2, ok2) \<Rightarrow>
              if \<not> ok2 then encode_fail SW_ENOMEM s2
              else case enc_param e of
                  OTZC_PARAM_IN \<Rightarrow> encode_in ty e s2
                | OTZC_PARAM_OUT \<Rightarrow> encode_out ty e s2
                | Other_Param \<Rightarrow> (s2, Inl SW_EINVAL))"

section \<open>What is encoded is what is decoded\<close>

text \<open>Encoding a sequence of parameters, up to the first error, and decoding as many parameters from one
  buffer.\<close>

fun encode_all :: "otz_enc_data_type \<Rightarrow> otz_secure_encode_cmd list \<Rightarrow> codec_state \<Rightarrow> codec_state \<times> unit sw_result" where
  "encode_all ty [] s = (s, Inr ())"
| "encode_all ty (e # es) s =
     (case otz_encode_data ty (Some e) s of
        (s', Inl err) \<Rightarrow> (s', Inl err)
      | (s', Inr _) \<Rightarrow> encode_all ty es s')"

fun decode_all ::
    "nat \<Rightarrow> pt_env \<Rightarrow> bytes \<Rightarrow> u32 \<Rightarrow> (int \<Rightarrow> otzc_encode_meta) \<Rightarrow> u32 \<Rightarrow> int \<Rightarrow> pt_state \<Rightarrow>
     pt_state \<times> (u32 \<times> u32) list sw_result" where
  "decode_all 0 env m data f offset pos st = (st, Inr [])"
| "decode_all (Suc n) env m data f offset pos st =
     (case decode_data env m data f offset pos st of
        (st', Inl e) \<Rightarrow> (st', Inl e)
      | (st', Inr d) \<Rightarrow>
          (case decode_all n env m data f (d_offset d) (d_pos d) st' of
             (st'', Inl e) \<Rightarrow> (st'', Inl e)
           | (st'', Inr ds) \<Rightarrow> (st'', Inr ((d_data d, d_len d) # ds))))"

text \<open>Two buffers of 1K that do not overlap.\<close>

definition apart :: "u32 \<Rightarrow> u32 \<Rightarrow> bool" where
  "apart a b \<longleftrightarrow> OTZ_1K_SIZE \<le> a - b \<and> OTZ_1K_SIZE \<le> b - a"

lemma apart_sym: "apart a b \<Longrightarrow> apart b a" by (simp add: apart_def)

definition slot_of :: "u32 \<Rightarrow> nat \<Rightarrow> u32" where "slot_of base i = base + of_nat (16 * i)"

lemma store32_other: "(\<And>l. l < 4 \<Longrightarrow> x \<noteq> b + of_nat l) \<Longrightarrow> store32 b w m x = m x"
proof -
  assume ne: "\<And>l. l < 4 \<Longrightarrow> x \<noteq> b + of_nat l"
  show ?thesis using ne[of 0] ne[of 1] ne[of 2] ne[of 3] by (simp add: store32_def)
qed

lemma load_store_other:
  assumes "\<And>k l. k < 4 \<Longrightarrow> l < 4 \<Longrightarrow> a + of_nat k \<noteq> b + of_nat l"
  shows "load32 (store32 b w m) a = load32 m a"
  by (rule load32_cong) (rule store32_other, rule assms)

lemma u32_of_nat_inj:
  assumes "of_nat m = (of_nat n :: u32)" and "m < 4294967296" "n < 4294967296"
  shows "m = n"
  using arg_cong[OF assms(1), of unat] unat_of_nat_small[where 'a = 32, of m] unat_of_nat_small[where 'a = 32, of n]
    assms(2,3) by simp

lemma slots_differ:
  assumes "i \<noteq> n" "i < 16" "n < 16" "k < 4" "l < 4"
  shows "slot_of base i + of_nat k \<noteq> slot_of base n + of_nat l"
proof
  assume "slot_of base i + of_nat k = slot_of base n + of_nat l"
  then have "of_nat (16 * i + k) = (of_nat (16 * n + l) :: u32)" by (simp add: slot_of_def add.assoc)
  then have "16 * i + k = 16 * n + l" by (rule u32_of_nat_inj) (use assms(2-5) in simp_all)
  then show False using assms(1,4,5) by (cases "i < n") linarith+
qed

lemma slots_apart:
  assumes "apart a b" "i < 16" "n < 16" "k < 4" "l < 4"
  shows "slot_of a i + of_nat k \<noteq> slot_of b n + of_nat l"
proof
  assume "slot_of a i + of_nat k = slot_of b n + of_nat l"
  then have eq: "a + of_nat (16 * i + k) = b + of_nat (16 * n + l)" by (simp add: slot_of_def add.assoc)
  have bounds: "16 * i + k < 1024" "16 * n + l < 1024" using assms by simp_all
  show False
  proof (cases "16 * i + k \<le> 16 * n + l")
    case True
    then obtain d where d: "16 * n + l = 16 * i + k + d" using le_Suc_ex by blast
    have "a + of_nat (16 * i + k) = b + of_nat (16 * i + k) + of_nat d" using eq unfolding d by (simp add: add.assoc)
    then have "a = b + of_nat d" by (simp add: algebra_simps)
    then have "a - b = of_nat d" by simp
    then have "unat (a - b) = d" using unat_of_nat_small[where 'a = 32, of d] bounds d by simp
    then show False using assms(1) bounds d by (simp add: apart_def OTZ_1K_SIZE_def word_le_nat_alt)
  next
    case False
    then obtain d where d: "16 * i + k = 16 * n + l + d" using le_Suc_ex by (metis nat_le_linear)
    have "a + of_nat (16 * n + l) + of_nat d = b + of_nat (16 * n + l)" using eq unfolding d by (simp add: add.assoc)
    then have "b = a + of_nat d" by (simp add: algebra_simps)
    then have "b - a = of_nat d" by simp
    then have "unat (b - a) = d" using unat_of_nat_small[where 'a = 32, of d] bounds d by simp
    then show False using assms(1) bounds d by (simp add: apart_def OTZ_1K_SIZE_def word_le_nat_alt)
  qed
qed

text \<open>The parameters of one buffer: the \<open>i\<close>-th at byte \<open>16 i\<close>, described at \<open>p0 + i\<close>.\<close>

definition placed ::
    "bytes \<Rightarrow> (int \<Rightarrow> otzc_encode_meta) \<Rightarrow> u32 \<Rightarrow> int \<Rightarrow> otz_enc_data_type \<Rightarrow> otz_secure_encode_cmd list \<Rightarrow> bool" where
  "placed m f base p0 ty es \<longleftrightarrow>
     (\<forall>i<length es. mtype (f (p0 + int i)) = ty \<and> mlen (f (p0 + int i)) = enc_len (es ! i) \<and>
        load32 m (slot_of base i) = enc_data (es ! i))"

lemma placed_snoc:
  assumes "placed m f base p0 ty es" and "length es < 16"
  shows "placed (store32 (slot_of base (length es)) (enc_data e) m)
     (f(p0 + int (length es) := (f (p0 + int (length es)))\<lparr>mtype := ty, mlen := enc_len e\<rparr>)) base p0 ty (es @ [e])"
  unfolding placed_def
proof (intro allI impI)
  fix i assume i: "i < length (es @ [e])"
  show "mtype ((f(p0 + int (length es) := (f (p0 + int (length es)))\<lparr>mtype := ty, mlen := enc_len e\<rparr>)) (p0 + int i)) = ty \<and>
    mlen ((f(p0 + int (length es) := (f (p0 + int (length es)))\<lparr>mtype := ty, mlen := enc_len e\<rparr>)) (p0 + int i)) = enc_len ((es @ [e]) ! i) \<and>
    load32 (store32 (slot_of base (length es)) (enc_data e) m) (slot_of base i) = enc_data ((es @ [e]) ! i)"
  proof (cases "i = length es")
    case False
    then have "i < length es" using i by simp
    moreover have "load32 (store32 (slot_of base (length es)) (enc_data e) m) (slot_of base i) = load32 m (slot_of base i)"
      using False calculation assms(2) by (intro load_store_other slots_differ) auto
    ultimately show ?thesis using assms(1) False by (simp add: placed_def nth_append)
  qed simp
qed

lemma placed_apart:
  assumes "placed m f base p0 ty es" and "apart base b" and "length es < 17" and "n < 16"
    and "\<forall>i<length es. p \<noteq> p0 + int i"
  shows "placed (store32 (slot_of b n) w m) (f(p := d)) base p0 ty es"
proof -
  have "load32 (store32 (slot_of b n) w m) (slot_of base i) = load32 m (slot_of base i)" if "i < length es" for i
    using that assms(2-4) by (intro load_store_other slots_apart) auto
  then show ?thesis using assms(1,5) by (auto simp: placed_def)
qed

lemma decode_placed:
  assumes "placed m f base p0 OTZ_SECURE_MEM_REF es" and "k \<le> length es"
  shows "decode_all (length es - k) env m base f (of_nat (4 * k)) (p0 + int k) st =
     (st, Inr (map (\<lambda>e. (enc_data e, enc_len e)) (drop k es)))"
  using assms(2)
proof (induction "length es - k" arbitrary: k)
  case (Suc n)
  then have k: "k < length es" and n: "n = length es - Suc k" by simp_all
  have "decode_data env m base f (of_nat (4 * k)) (p0 + int k) st =
     (st, Inr \<lparr>d_type = OTZ_MEM_REF, d_offset = of_nat (4 * Suc k), d_pos = p0 + int (Suc k), d_mapped = False,
        d_data = enc_data (es ! k), d_len = enc_len (es ! k)\<rparr>)"
    using assms(1) k by (simp add: decode_data_def placed_def slot_of_def algebra_simps)
  moreover have "drop k es = es ! k # drop (Suc k) es" using k by (rule Cons_nth_drop_Suc[symmetric])
  ultimately show ?case using Suc.hyps(1)[OF n] k Suc.hyps(2)[symmetric] n
    by simp
qed simp

text \<open>The encoder between two calls: \<open>c\<close> and \<open>p\<close> are the blocks of the context and of the
  descriptors, \<open>bs\<close> the two 1K blocks, of which the first calls take one each.\<close>

definition enc_inv ::
    "otz_enc_data_type \<Rightarrow> otz_secure_encode_cmd list \<Rightarrow> otz_secure_encode_cmd list \<Rightarrow> otz_secure_encode_ctx \<Rightarrow>
     (int \<Rightarrow> otzc_encode_meta) \<Rightarrow> codec_state \<Rightarrow> bool" where
  "enc_inv ty ins outs c f s \<longleftrightarrow>
     (req_addr c = 0 \<longleftrightarrow> ins = []) \<and> (res_addr c = 0 \<longleftrightarrow> outs = []) \<and>
     (ins \<noteq> [] \<longrightarrow> enc_req_offset c = of_nat (4 * length ins) \<and> enc_req_pos c = of_nat (length ins)) \<and>
     (outs \<noteq> [] \<longrightarrow> enc_res_offset c = of_nat (4 * length outs) \<and> enc_res_pos c = of_nat (12 + length outs)) \<and>
     placed (cbytes s) f (req_addr c) 0 ty ins \<and> placed (cbytes s) f (res_addr c) 12 ty outs \<and>
     length ins \<le> 12 \<and> length outs \<le> 4 \<and>
     (let bs = (if ins = [] then [] else [req_addr c]) @ (if outs = [] then [] else [res_addr c]) @ answers s
      in length bs = 2 \<and> 0 \<notin> set bs \<and> sorted_wrt apart bs)"

definition encoding :: "u32 \<Rightarrow> u32 \<Rightarrow> otz_secure_encode_ctx \<Rightarrow> (int \<Rightarrow> otzc_encode_meta) \<Rightarrow> codec_state \<Rightarrow> bool" where
  "encoding a p c f s \<longleftrightarrow> pctx s = Some (a, c) \<and> pmeta s = Some (p, f)"

lemmas encode_defs = encode_in_def encode_out_def set_ctx_def set_meta_def cmalloc_def
  OTZ_1K_SIZE_def OTZ_MAX_REQ_PARAMS_def OTZ_MAX_RES_PARAMS_def

lemma of_nat_u32_less: "m < 4294967296 \<Longrightarrow> n < 4294967296 \<Longrightarrow> (of_nat m :: u32) < of_nat n \<longleftrightarrow> m < n"
  using unat_of_nat_small[where 'a = 32, of m] unat_of_nat_small[where 'a = 32, of n] by (simp add: word_less_nat_alt)

lemma small_counts: "n < 12 \<Longrightarrow> of_nat (4 * n) + 4 \<le> (1024 :: u32)" "n < 12 \<Longrightarrow> of_nat n < (12 :: u32)"
  "n < 12 \<Longrightarrow> uint (of_nat n :: u32) = int n" "n < 4 \<Longrightarrow> of_nat (12 + n) < (16 :: u32)"
  "n < 4 \<Longrightarrow> uint (of_nat (12 + n) :: u32) = 12 + int n"
proof -
  show "of_nat (4 * n) + 4 \<le> (1024 :: u32)" if "n < 12"
  proof -
    have "unat (of_nat (4 * n + 4) :: u32) = 4 * n + 4" by (rule unat_of_nat_small) (use that in simp)
    then show ?thesis using that by (simp add: word_le_nat_alt)
  qed
  show "of_nat n < (12 :: u32)" if "n < 12" using of_nat_u32_less[of n 12] that by simp
  show "uint (of_nat n :: u32) = int n" if "n < 12"
    using unat_of_nat_small[where 'a = 32, of n] that unfolding uint_of_unat by simp
  show "of_nat (12 + n) < (16 :: u32)" if "n < 4" using of_nat_u32_less[of "12 + n" 16] that by simp
  show "uint (of_nat (12 + n) :: u32) = 12 + int n" if "n < 4"
    using unat_of_nat_small[where 'a = 32, of "12 + n"] that unfolding uint_of_unat by simp
qed

lemma encode_in_step:
  assumes e: "encoding a p c f s" and i: "enc_inv ty ins outs c f s" and n: "length ins < 12"
  obtains s' c' f' where "encode_in ty e s = (s', Inr ())" "encoding a p c' f' s'" "enc_inv ty (ins @ [e]) outs c' f' s'"
    "cfreed s' = cfreed s"
proof (cases "ins = []")
  case True
  obtain b bs where b: "answers s = b # bs" "b \<noteq> 0" using i True
    by (cases "answers s") (auto simp: enc_inv_def Let_def split: if_splits)
  define c' where "c' = c\<lparr>req_addr := b, enc_req_offset := 4, enc_req_pos := 1\<rparr>"
  define f' where "f' = f(0 := (f 0)\<lparr>mtype := ty, mlen := enc_len e\<rparr>)"
  define s' where "s' = s\<lparr>answers := bs, cbytes := store32 b (enc_data e) (cbytes s), pctx := Some (a, c'), pmeta := Some (p, f')\<rparr>"
  have r: "encode_in ty e s = (s', Inr ())"
    using e b i True by (simp add: encode_defs encoding_def enc_inv_def Let_def s'_def c'_def f'_def)
  have pl: "placed (cbytes s') f' b 0 ty [e]"
    using placed_snoc[of "cbytes s" f b 0 ty "[]" e] by (simp add: placed_def s'_def f'_def slot_of_def)
  have "apart (res_addr c) b" if "outs \<noteq> []" using i b True that by (auto simp: enc_inv_def Let_def split: if_splits)
  then have po: "placed (cbytes s') f' (res_addr c) 12 ty outs"
    using placed_apart[of "cbytes s" f "res_addr c" 12 ty outs b 0 0] i
    by (cases "outs = []") (auto simp: enc_inv_def slot_of_def s'_def f'_def placed_def)
  have "enc_inv ty (ins @ [e]) outs c' f' s'"
    using i b True pl po by (auto simp: enc_inv_def Let_def c'_def s'_def apart_sym split: if_splits)
  with r show ?thesis by (intro that[of s' c' f']) (auto simp: encoding_def s'_def)
next
  case False
  note sc = small_counts(1,2,3)[OF n]
  let ?k = "length ins"
  define c' where "c' = c\<lparr>enc_req_offset := of_nat (4 * ?k) + 4, enc_req_pos := of_nat ?k + 1\<rparr>"
  define f' where "f' = f(int ?k := (f (int ?k))\<lparr>mtype := ty, mlen := enc_len e\<rparr>)"
  define s' where "s' = s\<lparr>cbytes := store32 (req_addr c + 4 * of_nat (4 * ?k)) (enc_data e) (cbytes s),
     pctx := Some (a, c'), pmeta := Some (p, f')\<rparr>"
  have h: "req_addr c \<noteq> 0" "enc_req_offset c = of_nat (4 * ?k)" "enc_req_pos c = of_nat ?k"
    using i False by (auto simp: enc_inv_def)
  have r: "encode_in ty e s = (s', Inr ())"
    using e h sc by (simp add: encode_defs encoding_def s'_def c'_def f'_def del: of_nat_mult)
  have sl: "req_addr c + 4 * of_nat (4 * ?k) = slot_of (req_addr c) ?k" by (simp add: slot_of_def)
  have pl: "placed (cbytes s') f' (req_addr c) 0 ty (ins @ [e])"
    using placed_snoc[of "cbytes s" f "req_addr c" 0 ty ins e] i n unfolding s'_def f'_def sl by (simp add: enc_inv_def)
  have "apart (res_addr c) (req_addr c)" if "outs \<noteq> []"
    using i False that by (auto simp: enc_inv_def Let_def apart_sym split: if_splits)
  then have po: "placed (cbytes s') f' (res_addr c) 12 ty outs"
    using placed_apart[of "cbytes s" f "res_addr c" 12 ty outs "req_addr c" ?k "int ?k"] i n unfolding s'_def f'_def sl
    by (cases "outs = []") (auto simp: enc_inv_def placed_def)
  have "enc_inv ty (ins @ [e]) outs c' f' s'"
    using i False n pl po by (auto simp: enc_inv_def Let_def c'_def s'_def split: if_splits)
  with r show ?thesis by (intro that[of s' c' f']) (auto simp: encoding_def s'_def)
qed

lemma encode_out_step:
  assumes e: "encoding a p c f s" and i: "enc_inv ty ins outs c f s" and n: "length outs < 4"
  obtains s' c' f' where "encode_out ty e s = (s', Inr ())" "encoding a p c' f' s'" "enc_inv ty ins (outs @ [e]) c' f' s'"
    "cfreed s' = cfreed s"
proof (cases "outs = []")
  case True
  obtain b bs where b: "answers s = b # bs" "b \<noteq> 0" using i True
    by (cases "answers s") (auto simp: enc_inv_def Let_def split: if_splits)
  define c' where "c' = c\<lparr>res_addr := b, enc_res_offset := 4, enc_res_pos := 13\<rparr>"
  define f' where "f' = f(12 := (f 12)\<lparr>mtype := ty, mlen := enc_len e\<rparr>)"
  define s' where "s' = s\<lparr>answers := bs, cbytes := store32 b (enc_data e) (cbytes s), pctx := Some (a, c'), pmeta := Some (p, f')\<rparr>"
  have r: "encode_out ty e s = (s', Inr ())"
    using e b i True by (simp add: encode_defs encoding_def enc_inv_def Let_def s'_def c'_def f'_def)
  have pl: "placed (cbytes s') f' b 12 ty [e]"
    using placed_snoc[of "cbytes s" f b 12 ty "[]" e] by (simp add: placed_def s'_def f'_def slot_of_def)
  have "apart (req_addr c) b" if "ins \<noteq> []" using i b True that by (auto simp: enc_inv_def Let_def split: if_splits)
  then have po: "placed (cbytes s') f' (req_addr c) 0 ty ins"
    using placed_apart[of "cbytes s" f "req_addr c" 0 ty ins b 0 12] i
    by (cases "ins = []") (auto simp: enc_inv_def slot_of_def s'_def f'_def placed_def)
  have "enc_inv ty ins (outs @ [e]) c' f' s'"
    using i b True pl po by (auto simp: enc_inv_def Let_def c'_def s'_def apart_sym split: if_splits)
  with r show ?thesis by (intro that[of s' c' f']) (auto simp: encoding_def s'_def)
next
  case False
  let ?k = "length outs"
  have sc: "of_nat (4 * ?k) + 4 \<le> (1024 :: u32)" "of_nat (12 + ?k) < (16 :: u32)" "uint (of_nat (12 + ?k) :: u32) = 12 + int ?k"
    using small_counts[of ?k] n by simp_all
  define c' where "c' = c\<lparr>enc_res_offset := of_nat (4 * ?k) + 4, enc_res_pos := of_nat (12 + ?k) + 1\<rparr>"
  define f' where "f' = f(12 + int ?k := (f (12 + int ?k))\<lparr>mtype := ty, mlen := enc_len e\<rparr>)"
  define s' where "s' = s\<lparr>cbytes := store32 (res_addr c + 4 * of_nat (4 * ?k)) (enc_data e) (cbytes s),
     pctx := Some (a, c'), pmeta := Some (p, f')\<rparr>"
  have h: "res_addr c \<noteq> 0" "enc_res_offset c = of_nat (4 * ?k)" "enc_res_pos c = of_nat (12 + ?k)"
    using i False by (auto simp: enc_inv_def)
  have r: "encode_out ty e s = (s', Inr ())"
    using e h sc by (simp add: encode_defs encoding_def s'_def c'_def f'_def del: of_nat_mult of_nat_add)
  have sl: "res_addr c + 4 * of_nat (4 * ?k) = slot_of (res_addr c) ?k" by (simp add: slot_of_def)
  have pl: "placed (cbytes s') f' (res_addr c) 12 ty (outs @ [e])"
    using placed_snoc[of "cbytes s" f "res_addr c" 12 ty outs e] i n unfolding s'_def f'_def sl by (simp add: enc_inv_def)
  have "apart (req_addr c) (res_addr c)" if "ins \<noteq> []"
    using i False that by (auto simp: enc_inv_def Let_def split: if_splits)
  then have po: "placed (cbytes s') f' (req_addr c) 0 ty ins"
    using placed_apart[of "cbytes s" f "req_addr c" 0 ty ins "res_addr c" ?k "12 + int ?k"] i n unfolding s'_def f'_def sl
    by (cases "ins = []") (auto simp: enc_inv_def placed_def)
  have "enc_inv ty ins (outs @ [e]) c' f' s'"
    using i False n pl po by (auto simp: enc_inv_def Let_def c'_def s'_def split: if_splits)
  with r show ?thesis by (intro that[of s' c' f']) (auto simp: encoding_def s'_def)
qed

definition params_in :: "otz_secure_encode_cmd list \<Rightarrow> otz_secure_encode_cmd list" where
  "params_in es = filter (\<lambda>e. enc_param e = OTZC_PARAM_IN) es"

definition params_out :: "otz_secure_encode_cmd list \<Rightarrow> otz_secure_encode_cmd list" where
  "params_out es = filter (\<lambda>e. enc_param e = OTZC_PARAM_OUT) es"

lemma encode_data_some:
  assumes "encoding a p c f s" and "ty = OTZ_ENC_UINT32 \<or> ty = OTZ_SECURE_MEM_REF"
  shows "otz_encode_data ty (Some e) s =
     (case enc_param e of OTZC_PARAM_IN \<Rightarrow> encode_in ty e s | OTZC_PARAM_OUT \<Rightarrow> encode_out ty e s
      | Other_Param \<Rightarrow> (s, Inl SW_EINVAL))"
  using assms by (auto simp: otz_encode_data_def encoding_def encode_ctx_def encode_meta_def)

lemma encode_all_inv:
  assumes "encoding a p c f s" "enc_inv ty ins outs c f s" and ty: "ty = OTZ_ENC_UINT32 \<or> ty = OTZ_SECURE_MEM_REF"
    and "\<forall>e\<in>set es. enc_param e \<noteq> Other_Param"
    and "length ins + length (params_in es) \<le> 12" "length outs + length (params_out es) \<le> 4"
  shows "\<exists>s' c' f'. encode_all ty es s = (s', Inr ()) \<and> encoding a p c' f' s' \<and> cfreed s' = cfreed s \<and>
     enc_inv ty (ins @ params_in es) (outs @ params_out es) c' f' s'"
  using assms(1,2,4-6)
proof (induction es arbitrary: s ins outs c f)
  case Nil
  then show ?case by (auto simp: params_in_def params_out_def)
next
  case (Cons e es)
  note sm = encode_data_some[OF Cons.prems(1) ty, of e]
  consider (i) "enc_param e = OTZC_PARAM_IN" | (o) "enc_param e = OTZC_PARAM_OUT"
    using Cons.prems(3) by (cases "enc_param e") auto
  then show ?case
  proof cases
    case i
    then have "length ins < 12" using Cons.prems(4) by (simp add: params_in_def)
    then obtain s1 c1 f1 where "encode_in ty e s = (s1, Inr ())" "encoding a p c1 f1 s1"
      "enc_inv ty (ins @ [e]) outs c1 f1 s1" "cfreed s1 = cfreed s"
      using encode_in_step[OF Cons.prems(1,2)] by metis
    then show ?thesis using Cons.IH[of c1 f1 s1 "ins @ [e]" outs] Cons.prems(3-5) i sm
      by (simp add: params_in_def params_out_def)
  next
    case o
    then have "length outs < 4" using Cons.prems(5) by (simp add: params_out_def)
    then obtain s1 c1 f1 where "encode_out ty e s = (s1, Inr ())" "encoding a p c1 f1 s1"
      "enc_inv ty ins (outs @ [e]) c1 f1 s1" "cfreed s1 = cfreed s"
      using encode_out_step[OF Cons.prems(1,2)] by metis
    then show ?thesis using Cons.IH[of c1 f1 s1 ins "outs @ [e]"] Cons.prems(3-5) o sm
      by (simp add: params_in_def params_out_def)
  qed
qed

text \<open>A caller that has encoded nothing, and a heap that will answer with four blocks.\<close>

definition encode_ready :: "u32 \<Rightarrow> u32 \<Rightarrow> u32 \<Rightarrow> u32 \<Rightarrow> codec_state \<Rightarrow> bool" where
  "encode_ready a p b1 b2 s \<longleftrightarrow>
     pctx s = None \<and> pmeta s = None \<and> answers s = [a, p, b1, b2] \<and> 0 \<notin> {a, p, b1, b2} \<and> apart b1 b2"

lemma encode_first:
  assumes "encode_ready a p b1 b2 s" and "ty = OTZ_ENC_UINT32 \<or> ty = OTZ_SECURE_MEM_REF"
  obtains s0 where "encoding a p empty_ctx (\<lambda>_. empty_meta) s0" "enc_inv ty [] [] empty_ctx (\<lambda>_. empty_meta) s0"
    "otz_encode_data ty (Some e) s = otz_encode_data ty (Some e) s0"
    "cfreed s0 = cfreed s" "cbytes s0 = cbytes s"
proof -
  define s0 where "s0 = s\<lparr>answers := [b1, b2], pctx := Some (a, empty_ctx), pmeta := Some (p, \<lambda>_. empty_meta)\<rparr>"
  have "encode_ctx s = (s\<lparr>answers := [p, b1, b2], pctx := Some (a, empty_ctx)\<rparr>, True)"
    "encode_meta (s\<lparr>answers := [p, b1, b2], pctx := Some (a, empty_ctx)\<rparr>) = (s0, True)"
    "encode_ctx s0 = (s0, True)" "encode_meta s0 = (s0, True)"
    using assms by (simp_all add: encode_ready_def encode_ctx_def encode_meta_def cmalloc_def s0_def)
  then have "otz_encode_data ty (Some e) s = otz_encode_data ty (Some e) s0"
    using assms(2) by (auto simp: otz_encode_data_def)
  moreover have "enc_inv ty [] [] empty_ctx (\<lambda>_. empty_meta) s0"
    using assms by (auto simp: enc_inv_def encode_ready_def empty_ctx_def placed_def s0_def)
  ultimately show ?thesis by (intro that[of s0]) (simp_all add: encoding_def s0_def)
qed

lemma encode_all_ready:
  assumes "encode_ready a p b1 b2 s" and ty: "ty = OTZ_ENC_UINT32 \<or> ty = OTZ_SECURE_MEM_REF"
    and "es \<noteq> []" "\<forall>e\<in>set es. enc_param e \<noteq> Other_Param"
    and "length (params_in es) \<le> 12" "length (params_out es) \<le> 4"
  shows "\<exists>s' c f. encode_all ty es s = (s', Inr ()) \<and> encoding a p c f s' \<and> cfreed s' = cfreed s \<and>
     enc_inv ty (params_in es) (params_out es) c f s'"
proof -
  obtain e es' where es: "es = e # es'" using assms(3) by (cases es) auto
  obtain s0 where s0: "encoding a p empty_ctx (\<lambda>_. empty_meta) s0" "enc_inv ty [] [] empty_ctx (\<lambda>_. empty_meta) s0"
    "otz_encode_data ty (Some e) s = otz_encode_data ty (Some e) s0" "cfreed s0 = cfreed s"
    using encode_first[OF assms(1) ty] by metis
  then show ?thesis using encode_all_inv[OF s0(1,2) ty assms(4)] assms(5,6) by (simp add: es)
qed

text \<open>C14. Parameters passed by reference from one secure application to another arrive: after encoding any
  mixture of at most twelve request and four response references, each in any order, the receiver that
  decodes the request buffer from offset 0 and position 0, and the response buffer from position 12, obtains
  exactly the references and lengths of the sender, in order, and nothing is released on the way.\<close>

theorem secure_refs_roundtrip:
  assumes "encode_ready a p b1 b2 s" and "es \<noteq> []" "\<forall>e\<in>set es. enc_param e \<noteq> Other_Param"
    and "length (params_in es) \<le> 12" "length (params_out es) \<le> 4"
  shows "\<exists>s' c f. encode_all OTZ_SECURE_MEM_REF es s = (s', Inr ()) \<and> pctx s' = Some (a, c) \<and> pmeta s' = Some (p, f) \<and>
     cfreed s' = cfreed s \<and>
     decode_all (length (params_in es)) env (cbytes s') (req_addr c) f 0 0 st =
       (st, Inr (map (\<lambda>e. (enc_data e, enc_len e)) (params_in es))) \<and>
     decode_all (length (params_out es)) env (cbytes s') (res_addr c) f 0 12 st =
       (st, Inr (map (\<lambda>e. (enc_data e, enc_len e)) (params_out es)))"
proof -
  obtain s' c f where *: "encode_all OTZ_SECURE_MEM_REF es s = (s', Inr ())" "encoding a p c f s'"
    "cfreed s' = cfreed s" "enc_inv OTZ_SECURE_MEM_REF (params_in es) (params_out es) c f s'"
    using encode_all_ready[OF assms(1) _ assms(2-5), of OTZ_SECURE_MEM_REF] by auto
  then have "placed (cbytes s') f (req_addr c) 0 OTZ_SECURE_MEM_REF (params_in es)"
    "placed (cbytes s') f (res_addr c) 12 OTZ_SECURE_MEM_REF (params_out es)"
    by (simp_all add: enc_inv_def)
  then show ?thesis using * decode_placed[of "cbytes s'" f _ _ _ 0] by (simp add: encoding_def)
qed

definition demo_cmds :: "otz_secure_encode_cmd list" where
  "demo_cmds = [\<lparr>enc_len = 10, enc_data = 0x7000, enc_param = OTZC_PARAM_OUT\<rparr>,
     \<lparr>enc_len = 20, enc_data = 0x8000, enc_param = OTZC_PARAM_IN\<rparr>,
     \<lparr>enc_len = 30, enc_data = 0x9000, enc_param = OTZC_PARAM_IN\<rparr>]"

definition demo_codec :: codec_state where
  "demo_codec = \<lparr>cbytes = (\<lambda>_. 0), answers = [0x1000, 0x1100, 0x2000, 0x2400], cfreed = [], pmeta = None, pctx = None\<rparr>"

lemma demo_ready: "encode_ready 0x1000 0x1100 0x2000 0x2400 demo_codec"
  unfolding encode_ready_def demo_codec_def apart_def OTZ_1K_SIZE_def by simp

lemma demo_cmds_facts:
  "demo_cmds \<noteq> []" "\<forall>e\<in>set demo_cmds. enc_param e \<noteq> Other_Param"
  "length (params_in demo_cmds) = 2" "length (params_out demo_cmds) = 1" "cfreed demo_codec = []"
  "map (\<lambda>e. (enc_data e, enc_len e)) (params_in demo_cmds) = [(0x8000, 20), (0x9000, 30)]"
  "map (\<lambda>e. (enc_data e, enc_len e)) (params_out demo_cmds) = [(0x7000, 10)]"
  by (simp_all add: demo_cmds_def params_in_def params_out_def demo_codec_def)

theorem secure_refs_roundtrip_witness:
  "\<exists>s' c f. encode_all OTZ_SECURE_MEM_REF demo_cmds demo_codec = (s', Inr ()) \<and>
     pctx s' = Some (0x1000, c) \<and> pmeta s' = Some (0x1100, f) \<and> cfreed s' = [] \<and>
     decode_all 2 demo_env (cbytes s') (req_addr c) f 0 0 demo_pt = (demo_pt, Inr [(0x8000, 20), (0x9000, 30)]) \<and>
     decode_all 1 demo_env (cbytes s') (res_addr c) f 0 12 demo_pt = (demo_pt, Inr [(0x7000, 10)])"
  using secure_refs_roundtrip[OF demo_ready demo_cmds_facts(1,2), of demo_env demo_pt]
  unfolding demo_cmds_facts by simp

text \<open>The words of secure applications do not arrive: the second is stored at byte 16 of the buffer and
  read at byte 4, where the fresh block holds what it held before.\<close>

theorem second_word_is_lost:
  assumes "encode_ready a p b1 b2 s" and "enc_param e1 = OTZC_PARAM_IN" "enc_param e2 = OTZC_PARAM_IN"
  shows "\<exists>s' c f d. encode_all OTZ_ENC_UINT32 [e1, e2] s = (s', Inr ()) \<and> pctx s' = Some (a, c) \<and> pmeta s' = Some (p, f) \<and>
     decode_data env (cbytes s') (req_addr c) f 4 1 st = (st, Inr d) \<and> d_data d = req_addr c + 4 \<and>
     load32 (cbytes s') (d_data d) = load32 (cbytes s) (req_addr c + 4) \<and>
     load32 (cbytes s') (req_addr c + 16) = enc_data e2"
proof -
  define s' where "s' = fst (encode_all OTZ_ENC_UINT32 [e1, e2] s)"
  have a: "answers s = [a, p, b1, b2]" "a \<noteq> 0" "p \<noteq> 0" "b1 \<noteq> 0" "pctx s = None" "pmeta s = None"
    using assms(1) by (auto simp: encode_ready_def)
  have r: "encode_all OTZ_ENC_UINT32 [e1, e2] s = (s', Inr ()) \<and>
     (\<exists>c f. pctx s' = Some (a, c) \<and> pmeta s' = Some (p, f) \<and> req_addr c = b1 \<and> mtype (f 1) = OTZ_ENC_UINT32 \<and>
        cbytes s' = store32 (b1 + 16) (enc_data e2) (store32 b1 (enc_data e1) (cbytes s)))"
    using a assms(2,3)
    by (simp add: s'_def otz_encode_data_def encode_ctx_def encode_meta_def encode_defs empty_ctx_def empty_meta_def Let_def)
  have ne: "b1 + 4 + of_nat k \<noteq> b1 + 16 + of_nat l \<and> b1 + 4 + of_nat k \<noteq> b1 + of_nat l" if "k < 4" "l < 4" for k l :: nat
  proof -
    have "(4 + of_nat k :: u32) = of_nat (4 + k)" "(16 + of_nat l :: u32) = of_nat (16 + l)" by simp_all
    then show ?thesis using u32_of_nat_inj[of "4 + k" "16 + l"] u32_of_nat_inj[of "4 + k" l] that
      by (auto simp: add.assoc)
  qed
  have "load32 (store32 (b1 + 16) (enc_data e2) (store32 b1 (enc_data e1) (cbytes s))) (b1 + 4) = load32 (cbytes s) (b1 + 4)"
    using ne by (simp add: load_store_other)
  then show ?thesis using r by (auto simp: decode_data_def)
qed

text \<open>A failure releases the context, the buffers and the descriptors, but the caller keeps the two pointers: a
  caller that then releases what it holds with \<^verbatim>\<open>otz_release_data\<close> releases both blocks again.\<close>

theorem failed_encoding_freed_twice:
  assumes "encoding a p c f s" "enc_inv ty ins outs c f s" "ty = OTZ_ENC_UINT32 \<or> ty = OTZ_SECURE_MEM_REF"
    and "a \<noteq> 0" "p \<noteq> 0" "length ins = 12" "enc_param e = OTZC_PARAM_IN"
  shows "\<exists>s' bs. otz_encode_data ty (Some e) s = (s', Inl SW_ENOMEM) \<and>
     cfreed s' = cfreed s @ bs @ [a, p] \<and> req_addr c \<in> set bs \<and> cfreed (otz_release_data s') = cfreed s' @ [a, p]"
proof -
  have c: "req_addr c \<noteq> 0" "enc_req_pos c = 12" using assms(2,6) by (auto simp: enc_inv_def)
  have "otz_encode_data ty (Some e) s = encode_fail SW_ENOMEM s"
    using encode_data_some[OF assms(1,3), of e] assms(1,7) c by (simp add: encode_defs encoding_def)
  then show ?thesis using c assms(1,4,5)
    by (intro exI[of _ "fst (encode_fail SW_ENOMEM s)"]
        exI[of _ "if res_addr c = 0 then [req_addr c] else [req_addr c, res_addr c]"])
      (simp add: encode_fail_def otz_release_data_def encoding_def free_if_def)
qed

text \<open>With position 0 the response length is written before the first descriptor.\<close>

theorem update_response_len_range:
  "snd (update_response_len f pos len) = Inr () \<longleftrightarrow> pos \<le> 16"
  "pos \<le> 16 \<Longrightarrow> ret_len (fst (update_response_len f pos len) (pos - 1)) = len"
  "i \<noteq> pos - 1 \<Longrightarrow> fst (update_response_len f pos len) i = f i"
  by (simp_all add: update_response_len_def OTZ_MAX_REQ_PARAMS_def OTZ_MAX_RES_PARAMS_def)

end
