(* ===== verification/Secure_Api.thy ===== *)
theory Secure_Api
  imports Task ACL Codec
begin

text \<open>
  Sessions and commands: \<^verbatim>\<open>core/secure_api.c\<close>, the dispatcher task \<^verbatim>\<open>apps/dispatcher_task.c\<close>, the
  service initialisers of \<^verbatim>\<open>drivers/zynq7/board_config.c\<close> and \<^verbatim>\<open>arch/arm/armv7/cpu_ipi.c\<close>, for the
  configuration of \<^verbatim>\<open>config.zynq7\<close> (the services echo, dispatcher and Linux; no asynchronous
  notification).  \<open>words\<close> is the memory of the commands and their buffers, by address; a mapped
  physical address is its own virtual address.  The environment carries what the heap answers,
  the addresses the linker assigns and the contents of an uninitialised configuration.
\<close>

section \<open>State\<close>

record api_state =
  kern :: tee
  acl :: acl_state
  words :: "u32 \<Rightarrow> u32"
  params_stack :: "u32 list"
  valid_params_flag :: bool
  linux_return_flag :: bool
  linux_task_id :: u32
  secure_interrupt_set :: bool
  g_dispatch_data :: u32
  secure_api_set :: bool
  secure_api_ret_val :: u32
  returned :: "u32 list"

record api_env =
  penv :: pt_env
  henv :: heap_env
  aenv :: "nat \<Rightarrow> acl_env"
  data_addr :: u32
  current_guest_no :: u32
  uninit_config :: sa_config
  entry_point_of :: "u32 \<Rightarrow> u32"
  process_of :: "u32 \<Rightarrow> u32"

definition OTZ_SVC_INVALID :: u32 where "OTZ_SVC_INVALID = 0"
definition OTZ_SVC_GLOBAL :: u32 where "OTZ_SVC_GLOBAL = 1"
definition OTZ_SVC_ECHO :: u32 where "OTZ_SVC_ECHO = 2"
definition OTZ_SVC_LINUX :: u32 where "OTZ_SVC_LINUX = 8"
definition COMMON_GROUP_ID :: u32 where "COMMON_GROUP_ID = 1"
definition UART_DEVICE_ID :: u32 where "UART_DEVICE_ID = 10001"
definition IPC_DEVICE_ID :: u32 where "IPC_DEVICE_ID = 10002"
definition OTZ_CMD_TYPE_NS_TO_SECURE :: u32 where "OTZ_CMD_TYPE_NS_TO_SECURE = 1"
definition OTZ_CMD_TYPE_SECURE_TO_SECURE :: u32 where "OTZ_CMD_TYPE_SECURE_TO_SECURE = 3"
definition CALL_TRUSTZONE_API :: u32 where "CALL_TRUSTZONE_API = 1"
definition OTZ_GLOBAL_CMD_ID_INVALID :: u32 where "OTZ_GLOBAL_CMD_ID_INVALID = 0"
definition OTZ_GLOBAL_CMD_ID_BOOT_ACK :: u32 where "OTZ_GLOBAL_CMD_ID_BOOT_ACK = 1"
definition OTZ_GLOBAL_CMD_ID_OPEN_SESSION :: u32 where "OTZ_GLOBAL_CMD_ID_OPEN_SESSION = 2"
definition OTZ_GLOBAL_CMD_ID_CLOSE_SESSION :: u32 where "OTZ_GLOBAL_CMD_ID_CLOSE_SESSION = 3"
definition OTZ_STATUS_INCOMPLETE :: u32 where "OTZ_STATUS_INCOMPLETE = 0"
definition OTZ_STATUS_COMPLETE :: u32 where "OTZ_STATUS_COMPLETE = 1"

text \<open>\<^verbatim>\<open>struct otz_smc_cmd\<close>: the offsets of its members.\<close>

definition cmd_id_at :: u32 where "cmd_id_at = 0"
definition context_at :: u32 where "context_at = 4"
definition src_id_at :: u32 where "src_id_at = 12"
definition src_context_at :: u32 where "src_context_at = 16"
definition req_buf_len_at :: u32 where "req_buf_len_at = 20"
definition resp_buf_len_at :: u32 where "resp_buf_len_at = 24"
definition ret_resp_buf_len_at :: u32 where "ret_resp_buf_len_at = 28"
definition cmd_status_at :: u32 where "cmd_status_at = 32"
definition req_buf_phys_at :: u32 where "req_buf_phys_at = 36"
definition resp_buf_phys_at :: u32 where "resp_buf_phys_at = 40"
definition meta_data_phys_at :: u32 where "meta_data_phys_at = 44"

definition read_word :: "u32 \<Rightarrow> api_state \<Rightarrow> u32" where
  "read_word a g = words g a"

definition write_word :: "u32 \<Rightarrow> u32 \<Rightarrow> api_state \<Rightarrow> api_state" where
  "write_word a w g = g\<lparr>words := (words g)(a := w)\<rparr>"

definition set_pt :: "pt_state \<Rightarrow> api_state \<Rightarrow> api_state" where
  "set_pt st g = g\<lparr>kern := (kern g)\<lparr>pt := st\<rparr>\<rparr>"

definition map_ns :: "api_env \<Rightarrow> u32 \<Rightarrow> api_state \<Rightarrow> api_state \<times> u32 sw_result" where
  "map_ns env a g = (case map_to_ns (penv env) a (pt (kern g)) of (st, r) \<Rightarrow> (set_pt st g, r))"

text \<open>\<^verbatim>\<open>if(p) unmap_from_ns(p)\<close>.\<close>

definition unmap_ns :: "api_env \<Rightarrow> u32 \<Rightarrow> api_state \<Rightarrow> api_state" where
  "unmap_ns env a g = (if a = 0 then g else set_pt (unmap_from_ns (penv env) a (pt (kern g))) g)"

section \<open>Services\<close>

text \<open>A sequence of calls of \<^verbatim>\<open>update_global_ACL\<close>; \<open>env k\<close> is what the heap answers to the \<open>k\<close>-th.\<close>

fun grant_all :: "(nat \<Rightarrow> acl_env) \<Rightarrow> nat \<Rightarrow> (u32 \<times> u32 \<times> u32) list \<Rightarrow> acl_state \<Rightarrow> acl_state option" where
  "grant_all env k [] s = Some s"
| "grant_all env k ((d, gi, u) # qs) s =
     Option.bind (update_global_ACL (env k) d gi u s) (grant_all env (Suc k) qs)"

text \<open>What the initialisers set in the cleared configuration, up to the private data.\<close>

definition service_config :: "api_env \<Rightarrow> u32 \<Rightarrow> u8 list \<Rightarrow> task_mode \<Rightarrow> u8 \<Rightarrow> sa_config" where
  "service_config env svc name md asid =
     \<lparr>cfg_guest_no = 0, cfg_service_uuid = svc, cfg_task_id = ucast asid,
      cfg_service_name = name @ replicate (32 - length name) 0, cfg_stack_size = 4096,
      cfg_heap_size = 65536, cfg_min_alloc_size = 256, cfg_mode = md,
      cfg_entry_point = entry_point_of env svc, cfg_elf_flag = 0,
      cfg_process = (if md = TASK_USER_MODE then process_of env svc else 0), cfg_data = 0,
      cfg_allow_multiple_instance = 1, cfg_gid = COMMON_GROUP_ID\<rparr>"

definition service_prepare ::
    "api_env \<Rightarrow> u32 \<Rightarrow> u8 list \<Rightarrow> task_mode \<Rightarrow> (u32 \<times> u32 \<times> u32) list \<Rightarrow> api_state \<Rightarrow> (api_state \<times> sa_config) option" where
  "service_prepare env svc name md perms g = do {
     (asid, k) \<leftarrow> get_next_asid_val (kern g);
     a \<leftarrow> grant_all (aenv env) 0 perms (acl g);
     Some (g\<lparr>kern := k, acl := a\<rparr>, service_config env svc name md asid)
   }"

definition echo_task_init :: "api_env \<Rightarrow> api_state \<Rightarrow> (api_state \<times> sa_config \<times> unit sw_result) option" where
  "echo_task_init env g = do {
     (g1, cfg) \<leftarrow> service_prepare env OTZ_SVC_ECHO [101, 99, 104, 111] TASK_USER_MODE
       [(UART_DEVICE_ID, COMMON_GROUP_ID, OTZ_SVC_ECHO), (IPC_DEVICE_ID, COMMON_GROUP_ID, OTZ_SVC_ECHO)] g;
     if data_addr env = 0 then Some (g1, cfg, Inl SW_ENOMEM)
     else Some (g1, cfg\<lparr>cfg_data := data_addr env\<rparr>, Inr ())
   }"

definition dispatch_task_init :: "api_env \<Rightarrow> api_state \<Rightarrow> (api_state \<times> sa_config \<times> unit sw_result) option" where
  "dispatch_task_init env g = do {
     (g1, cfg) \<leftarrow> service_prepare env OTZ_SVC_GLOBAL [100, 105, 115, 112, 97, 116, 99, 104, 101, 114] TASK_KERN_MODE
       (map (\<lambda>s. (s, COMMON_GROUP_ID, OTZ_SVC_GLOBAL)) [1, 2, 3, 4, 5, 8, 13, 12, 10]
        @ [(UART_DEVICE_ID, COMMON_GROUP_ID, OTZ_SVC_GLOBAL)]) g;
     if data_addr env = 0 then Some (g1, cfg, Inl SW_ENOMEM)
     else Some (if g_dispatch_data g1 = 0
                then g1\<lparr>g_dispatch_data := data_addr env, secure_api_set := False, secure_api_ret_val := 0\<rparr>
                else g1,
                cfg\<lparr>cfg_data := data_addr env\<rparr>, Inr ())
   }"

text \<open>The Linux initialiser writes through its data pointer without a check.\<close>

definition linux_task_init :: "api_env \<Rightarrow> api_state \<Rightarrow> (api_state \<times> sa_config \<times> unit sw_result) option" where
  "linux_task_init env g = do {
     (g1, cfg) \<leftarrow> service_prepare env OTZ_SVC_LINUX [76, 105, 110, 117, 120] TASK_KERN_MODE
       [(UART_DEVICE_ID, COMMON_GROUP_ID, OTZ_SVC_LINUX)] g;
     if data_addr env = 0 then None else Some (g1, cfg\<lparr>cfg_data := data_addr env\<rparr>, Inr ())
   }"

definition free_private :: "u32 \<Rightarrow> api_state \<Rightarrow> api_state" where
  "free_private a g = (if a = 0 then g else g\<lparr>kern := (kern g)\<lparr>freed := freed (kern g) @ [a]\<rparr>\<rparr>)"

definition sa_create_entry_point ::
    "api_env \<Rightarrow> u32 \<Rightarrow> api_state \<Rightarrow> (api_state \<times> sa_config \<times> unit sw_result) option" where
  "sa_create_entry_point env svc g =
     (if svc = OTZ_SVC_ECHO then do {
        (g1, cfg, r) \<leftarrow> echo_task_init env g;
        Some (g1, if r = Inr () then cfg\<lparr>cfg_guest_no := - 1\<rparr> else cfg, r)
      }
      else if svc = OTZ_SVC_GLOBAL then do {
        (g1, cfg, r) \<leftarrow> dispatch_task_init env g;
        Some (g1, cfg\<lparr>cfg_guest_no := - 1\<rparr>, r)
      }
      else if svc = OTZ_SVC_LINUX then do {
        (g1, cfg, r) \<leftarrow> linux_task_init env g;
        Some (g1, cfg\<lparr>cfg_guest_no := - 1\<rparr>, r)
      }
      else Some (g, uninit_config env, Inl SW_ENONE))"

definition sa_destroy_entry_point :: "u32 \<Rightarrow> u32 \<Rightarrow> api_state \<Rightarrow> api_state \<times> unit sw_result" where
  "sa_destroy_entry_point svc data g =
     (if svc = OTZ_SVC_ECHO \<or> svc = OTZ_SVC_GLOBAL \<or> svc = OTZ_SVC_LINUX
      then (free_private data g, Inr ())
      else (g, Inl SW_EINVAL))"

section \<open>Sessions\<close>

text \<open>The session identifier, or \<open>- 1\<close>, is written to \<open>ses\<close>.\<close>

definition sa_open_session :: "api_env \<Rightarrow> sa_config \<Rightarrow> u32 \<Rightarrow> api_state \<Rightarrow> (api_state \<times> unit sw_result) option" where
  "sa_open_session env cfg ses g = do {
     cur \<leftarrow> (if exec_mode (kern g) = 1 then get_current_task (kern g) else Some None);
     p \<leftarrow> get_permission (exec_mode (kern g)) (map_option (tasks (kern g)) cur) (cfg_service_uuid cfg) (acl g);
     (k, r) \<leftarrow> create_task (penv env) (henv env) (p \<noteq> - 1) cfg (kern g);
     Some (write_word ses (case r of Inr i \<Rightarrow> i | Inl _ \<Rightarrow> - 1) (g\<lparr>kern := k\<rparr>),
           case r of Inr _ \<Rightarrow> Inr () | Inl e \<Rightarrow> Inl e)
   }"

definition sa_close_session :: "api_env \<Rightarrow> u32 \<Rightarrow> api_state \<Rightarrow> (api_state \<times> unit sw_result) option" where
  "sa_close_session env tid g = do {
     (k, r) \<leftarrow> destroy_task (penv env) (henv env) tid (kern g);
     Some (g\<lparr>kern := k\<rparr>, r)
   }"

text \<open>The part of \<^verbatim>\<open>open_session_from_ns\<close> after the three buffers have been mapped.\<close>

definition open_session_mapped ::
    "api_env \<Rightarrow> u32 \<Rightarrow> u32 \<Rightarrow> u32 \<Rightarrow> api_state \<Rightarrow> (api_state \<times> unit sw_result) option" where
  "open_session_mapped env cmd ses svc g = do {
     (g1, cfg, r1) \<leftarrow> sa_create_entry_point env svc g;
     (g2, r2) \<leftarrow> (if r1 = Inr () then sa_open_session env (cfg\<lparr>cfg_guest_no := current_guest_no env\<rparr>) ses g1
                 else Some (g1, r1));
     Some (case r2 of
         Inr _ \<Rightarrow> (write_word (cmd + cmd_status_at) OTZ_STATUS_COMPLETE
                   (write_word (cmd + ret_resp_buf_len_at) 4 g2), Inr ())
       | Inl e \<Rightarrow> (case sa_destroy_entry_point svc (cfg_data cfg) g2 of (g3, r3) \<Rightarrow>
            (write_word (cmd + cmd_status_at) OTZ_STATUS_INCOMPLETE g3,
             case r3 of Inl e' \<Rightarrow> Inl e' | Inr _ \<Rightarrow> Inl e)))
   }"

text \<open>Mapping the response and the request buffer: the result is the new state, the two addresses (0 for
  \<^verbatim>\<open>NULL\<close>) and the value to return.  The exits before the session is created leave the result 0,
  which is \<^verbatim>\<open>SW_OK\<close>.\<close>

definition open_session_buffers ::
    "api_env \<Rightarrow> u32 \<Rightarrow> api_state \<Rightarrow> (api_state \<times> u32 \<times> u32 \<times> unit sw_result) option" where
  "open_session_buffers env cmd g1 =
     (if read_word (cmd + resp_buf_len_at) g1 = 0 then Some (g1, 0, 0, Inr ())
      else case map_ns env (read_word (cmd + resp_buf_phys_at) g1) g1 of
        (g2, Inl _) \<Rightarrow> Some (g2, 0, 0, Inr ())
      | (g2, Inr ses) \<Rightarrow>
          (case map_ns env (read_word (cmd + req_buf_phys_at) g2) g2 of
             (g3, Inl _) \<Rightarrow> Some (g3, ses, 0, Inr ())
           | (g3, Inr svc_ptr) \<Rightarrow>
               if read_word svc_ptr g3 = OTZ_SVC_INVALID then Some (g3, ses, svc_ptr, Inr ())
               else map_option (\<lambda>(g4, r). (g4, ses, svc_ptr, r))
                      (open_session_mapped env cmd ses (read_word svc_ptr g3) g3)))"

definition open_session_from_ns :: "api_env \<Rightarrow> u32 \<Rightarrow> api_state \<Rightarrow> (api_state \<times> unit sw_result) option" where
  "open_session_from_ns env param g =
     (case map_ns env param g of
        (g1, Inl _) \<Rightarrow> Some (g1, Inr ())
      | (g1, Inr cmd) \<Rightarrow>
          map_option (\<lambda>(g2, ses, svc_ptr, r). (unmap_ns env cmd (unmap_ns env ses (unmap_ns env svc_ptr g2)), r))
            (open_session_buffers env cmd g1))"

text \<open>The part of \<^verbatim>\<open>close_session_from_ns\<close> after the buffers have been mapped.  The service that frees
  the private data is the one the caller names; the result of \<^verbatim>\<open>sa_close_session\<close> is ignored.\<close>

definition close_session_mapped :: "api_env \<Rightarrow> u32 \<Rightarrow> u32 \<Rightarrow> u32 \<Rightarrow> api_state \<Rightarrow> api_state option" where
  "close_session_mapped env cmd ses svc g = do {
     found \<leftarrow> get_task (read_word ses g) (kern g);
     t \<leftarrow> found;
     let g1 = fst (sa_destroy_entry_point svc (tls_private_data (tls (tasks (kern g) t))) g) in do {
       (g2, _) \<leftarrow> sa_close_session env (read_word ses g1) g1;
       Some (write_word (cmd + cmd_status_at) OTZ_STATUS_COMPLETE g2)
     }
   }"

definition close_session_buffers ::
    "api_env \<Rightarrow> u32 \<Rightarrow> api_state \<Rightarrow> (api_state \<times> u32 \<times> u32 \<times> unit sw_result) option" where
  "close_session_buffers env cmd g1 =
     (if read_word (cmd + req_buf_len_at) g1 = 0 then Some (g1, 0, 0, Inl SW_EINVAL)
      else case map_ns env (read_word (cmd + req_buf_phys_at) g1) g1 of
        (g2, Inl e) \<Rightarrow> Some (g2, 0, 0, Inl e)
      | (g2, Inr svc_ptr) \<Rightarrow>
          (case map_ns env (read_word (cmd + resp_buf_phys_at) g2) g2 of
             (g3, Inl e) \<Rightarrow> Some (g3, 0, svc_ptr, Inl e)
           | (g3, Inr ses) \<Rightarrow>
               map_option (\<lambda>g4. (g4, ses, svc_ptr, Inr ()))
                 (close_session_mapped env cmd ses (read_word svc_ptr g3) g3)))"

definition close_session_from_ns :: "api_env \<Rightarrow> u32 \<Rightarrow> api_state \<Rightarrow> (api_state \<times> unit sw_result) option" where
  "close_session_from_ns env param g =
     (case map_ns env param g of
        (g1, Inl e) \<Rightarrow> Some (g1, Inl e)
      | (g1, Inr cmd) \<Rightarrow>
          map_option (\<lambda>(g2, ses, svc_ptr, r). (unmap_ns env cmd (unmap_ns env ses (unmap_ns env svc_ptr g2)), r))
            (close_session_buffers env cmd g1))"

text \<open>No session is opened for a secure caller; only the service is initialised.\<close>

definition open_session_from_secure :: "api_env \<Rightarrow> u32 \<Rightarrow> api_state \<Rightarrow> (api_state \<times> unit sw_result) option" where
  "open_session_from_secure env svc g =
     (if svc = OTZ_SVC_INVALID then Some (g, Inl SW_EINVAL)
      else do {
        (g1, cfg, r) \<leftarrow> sa_create_entry_point env svc g;
        Some (case r of Inr _ \<Rightarrow> (g1, Inr ())
          | Inl e \<Rightarrow> (case sa_destroy_entry_point svc (cfg_data cfg) g1 of
               (g2, r2) \<Rightarrow> (g2, case r2 of Inl e' \<Rightarrow> Inl e' | Inr _ \<Rightarrow> Inl e)))
      })"

definition close_session_from_secure :: "api_env \<Rightarrow> u32 \<Rightarrow> api_state \<Rightarrow> (api_state \<times> unit sw_result) option" where
  "close_session_from_secure env tid g = do {
     found \<leftarrow> get_task tid (kern g);
     case found of None \<Rightarrow> Some (g, Inl SW_ENONE)
     | Some t \<Rightarrow>
         let task = tasks (kern g) t;
             g1 = fst (sa_destroy_entry_point (service_id task) (tls_private_data (tls task)) g) in do {
           (g2, _) \<leftarrow> sa_close_session env tid g1;
           Some (g2, Inr ())
         }
   }"

section \<open>Commands\<close>

text \<open>The result is service, task, command and type.\<close>

definition get_api_context :: "api_env \<Rightarrow> api_state \<Rightarrow> api_state \<times> u32 \<times> u32 \<times> u32 \<times> u32" where
  "get_api_context env g =
     (let cmd_type = params_stack g ! 2; cmd = params_stack g ! 1 in
      if cmd_type = OTZ_CMD_TYPE_NS_TO_SECURE
         then (case map_ns env cmd g of
             (g1, Inl _) \<Rightarrow> (g1, OTZ_SVC_INVALID, 0, OTZ_GLOBAL_CMD_ID_INVALID, cmd_type)
           | (g1, Inr va) \<Rightarrow>
               (set_pt (unmap_from_ns (penv env) va (pt (kern g1))) g1,
                drop_bit 10 (read_word (va + cmd_id_at) g1) AND 0x3ff,
                read_word (va + context_at) g1, read_word (va + cmd_id_at) g1 AND 0x3ff, cmd_type))
         else (g, drop_bit 10 (read_word (cmd + cmd_id_at) g) AND 0x3ff,
               read_word (cmd + context_at) g, read_word (cmd + cmd_id_at) g AND 0x3ff, cmd_type))"

definition set_secure_api_ret :: "u32 \<Rightarrow> api_state \<Rightarrow> api_state" where
  "set_secure_api_ret r g = g\<lparr>secure_api_set := True, secure_api_ret_val := r\<rparr>"

text \<open>How the dispatcher translates the result of opening or closing a session; the codes are
  \<^verbatim>\<open>SMC_ENOMEM\<close>, \<^verbatim>\<open>SMC_EINVAL_ARG\<close> and \<^verbatim>\<open>SMC_SUCCESS\<close> of \<^verbatim>\<open>otz_id.h\<close>.\<close>

definition smc_code :: "unit sw_result \<Rightarrow> u32" where
  "smc_code r = (if r = Inl SW_ENOMEM then 7 else if r = Inl SW_EINVAL then 4 else 0)"

text \<open>One round of the dispatcher's loop before it calls the scheduler.\<close>

definition dispatch_request :: "api_env \<Rightarrow> api_state \<Rightarrow> api_state option" where
  "dispatch_request env g =
     (if secure_interrupt_set g
      then Some (g\<lparr>secure_interrupt_set := False, returned := returned g @ [0]\<rparr>)
      else if linux_return_flag g
      then map_option (\<lambda>(k, _). g\<lparr>kern := k\<rparr>) (start_task (linux_task_id g) None (kern g))
      else if valid_params_flag g \<and> params_stack g ! 0 = CALL_TRUSTZONE_API
      then (case get_api_context env (g\<lparr>valid_params_flag := False\<rparr>) of (g1, svc_id, tid, cmd_id, cmd_type) \<Rightarrow>
        if svc_id = OTZ_SVC_GLOBAL \<and> cmd_id = OTZ_GLOBAL_CMD_ID_BOOT_ACK
        then Some (set_secure_api_ret 0 g1)
        else if svc_id = OTZ_SVC_GLOBAL \<and> cmd_id = OTZ_GLOBAL_CMD_ID_OPEN_SESSION
        then if cmd_type = OTZ_CMD_TYPE_NS_TO_SECURE
          then map_option (\<lambda>(g2, r). set_secure_api_ret (smc_code r) g2)
                 (open_session_from_ns env (params_stack g1 ! 1) g1)
          else Some g1
        else if svc_id = OTZ_SVC_GLOBAL \<and> cmd_id = OTZ_GLOBAL_CMD_ID_CLOSE_SESSION
        then if cmd_type = OTZ_CMD_TYPE_NS_TO_SECURE
          then map_option (\<lambda>(g2, r). set_secure_api_ret (smc_code r) g2)
                 (close_session_from_ns env (params_stack g1 ! 1) g1)
          else Some g1
        else if svc_id \<noteq> OTZ_SVC_INVALID \<and> tid \<noteq> 0 \<and> cmd_id \<noteq> OTZ_GLOBAL_CMD_ID_INVALID
        then map_option (\<lambda>(k, _). g1\<lparr>kern := k\<rparr>) (start_task tid (Some (params_stack g1)) (kern g1))
        else Some (set_secure_api_ret 0 g1))
      else Some g)"

text \<open>What the loop does after the scheduler has come back to it.\<close>

definition dispatch_return :: "api_state \<Rightarrow> api_state" where
  "dispatch_return g =
     (if secure_api_set g then g\<lparr>returned := returned g @ [secure_api_ret_val g], secure_api_set := False\<rparr> else g)"

section \<open>Calls between tasks\<close>

text \<open>The caller is put to sleep; the software interrupt that follows switches to the next task.\<close>

definition otz_ipi :: "u32 \<Rightarrow> api_state \<Rightarrow> api_state option" where
  "otz_ipi smc_cmd g =
     map_option (\<lambda>k. g\<lparr>params_stack := [CALL_TRUSTZONE_API, smc_cmd, OTZ_CMD_TYPE_SECURE_TO_SECURE, 0],
                        valid_params_flag := True, kern := k\<rparr>)
       (suspend_task (read_word (smc_cmd + src_context_at) g) TASK_STATE_WAIT (kern g))"

definition otz_ipi_return :: "u32 \<Rightarrow> u32 \<Rightarrow> api_state \<Rightarrow> api_state option" where
  "otz_ipi_return smc_cmd ret_val g = do {
     found \<leftarrow> get_task (read_word (smc_cmd + src_context_at) g) (kern g);
     case found of None \<Rightarrow> Some g
     | Some t \<Rightarrow>
         let task = tasks (kern g) t;
             k = set_task t (task\<lparr>tls := (tls task)\<lparr>tls_ipi_ret_val := ret_val\<rparr>\<rparr>) (kern g)
         in map_option (\<lambda>k. g\<lparr>kern := k\<rparr>) (schedule_task t k)
   }"

text \<open>\<open>smc_cmd\<close> is the address of the command on the caller's stack; addresses that are 0 stay 0.\<close>

definition ipc_send ::
    "u32 \<Rightarrow> u32 \<Rightarrow> u32 \<Rightarrow> u32 \<Rightarrow> u32 \<Rightarrow> u32 \<Rightarrow> otz_secure_encode_ctx \<Rightarrow> u32 \<Rightarrow> api_state \<Rightarrow>
     (api_state \<times> unit sw_result) option" where
  "ipc_send smc_cmd src_svc_id src_context svc_id session_id cmd_id enc_ctx meta_data g =
     (map_option (\<lambda>g. (g, Inr ()))
          (otz_ipi smc_cmd
            (write_word (smc_cmd + meta_data_phys_at) meta_data
            (write_word (smc_cmd + resp_buf_phys_at) (res_addr enc_ctx)
            (write_word (smc_cmd + req_buf_phys_at) (req_addr enc_ctx)
            (write_word (smc_cmd + ret_resp_buf_len_at) 0
            (write_word (smc_cmd + resp_buf_len_at) (enc_res_offset enc_ctx)
            (write_word (smc_cmd + req_buf_len_at) (enc_req_offset enc_ctx)
            (write_word (smc_cmd + context_at) session_id
            (write_word (smc_cmd + cmd_id_at) (push_bit 10 svc_id OR cmd_id)
            (write_word (smc_cmd + src_context_at) src_context
            (write_word (smc_cmd + src_id_at) (push_bit 10 src_svc_id) g))))))))))))"

definition exit_task :: "u32 \<Rightarrow> sw_tls \<Rightarrow> api_state \<Rightarrow> api_state option" where
  "exit_task tid t g = do {
     k \<leftarrow> suspend_task tid TASK_STATE_SUSPEND (kern g);
     let g1 = g\<lparr>kern := k\<rparr> in
     if tls_params t ! 2 = OTZ_CMD_TYPE_NS_TO_SECURE then Some (set_secure_api_ret (tls_ret_val t) g1)
     else if tls_params t ! 2 = OTZ_CMD_TYPE_SECURE_TO_SECURE
     then otz_ipi_return (tls_params t ! 1) (tls_ret_val t) g1
     else Some g1
   }"

definition handle_task_return :: "u32 \<Rightarrow> sw_tls \<Rightarrow> api_state \<Rightarrow> api_state option" where
  "handle_task_return tid t g = do {
     g1 \<leftarrow> exit_task tid t g;
     k \<leftarrow> scheduler (kern g1);
     Some (g1\<lparr>kern := k\<rparr>)
   }"

text \<open>\<^verbatim>\<open>decode_ipi_out_data\<close>: type, next offset, next position, the data (its address, or the reference
  itself) and its length.  For a reference the byte offset is added to a word pointer.\<close>

definition decode_ipi_out_data ::
    "u32 \<Rightarrow> (int \<Rightarrow> otzc_encode_meta) \<Rightarrow> u32 \<Rightarrow> int \<Rightarrow> api_state \<Rightarrow>
     (otz_enc_data_type \<times> u32 \<times> int \<times> u32 \<times> u32) sw_result" where
  "decode_ipi_out_data data meta_data offset pos g =
     (case mtype (meta_data pos) of
        OTZ_ENC_UINT32 \<Rightarrow> Inr (OTZ_ENC_UINT32, offset + 4, pos + 1, data + offset, mlen (meta_data pos))
      | OTZ_SECURE_MEM_REF \<Rightarrow>
          Inr (OTZ_MEM_REF, offset + 4, pos + 1, read_word (data + 4 * offset) g, ret_len (meta_data pos))
      | _ \<Rightarrow> Inl SW_EINVAL)"

section \<open>The kernel under any sequence of requests\<close>

text \<open>What the heap returns is not a task in use.\<close>

definition heap_fresh :: "api_env \<Rightarrow> api_state \<Rightarrow> bool" where
  "heap_fresh env g \<longleftrightarrow>
     (case new_task_addr (henv env) of None \<Rightarrow> True
      | Some t \<Rightarrow> link_find (links (kern g)) (\<lambda>d. d = Some t) Task_List = Some None)"

text \<open>The steps of the system: the non-secure world writes its memory and issues a command; the
  dispatcher handles a pending command, or hands a result back; a task ends, calls another one, or
  is scheduled.\<close>

inductive api_step :: "api_state \<Rightarrow> api_state \<Rightarrow> bool" where
  request: "api_step g (g\<lparr>words := w, params_stack := ps, valid_params_flag := True\<rparr>)"
| interrupt: "api_step g (g\<lparr>secure_interrupt_set := True\<rparr>)"
| dispatch: "heap_fresh env g \<Longrightarrow> dispatch_request env g = Some g' \<Longrightarrow> api_step g g'"
| hand_back: "api_step g (dispatch_return g)"
| exit: "exit_task tid t g = Some g' \<Longrightarrow> api_step g g'"
| ipi: "otz_ipi smc_cmd g = Some g' \<Longrightarrow> api_step g g'"
| close: "close_session_from_secure env tid g = Some (g', r) \<Longrightarrow> api_step g g'"
| switch: "scheduler (kern g) = Some k \<Longrightarrow> api_step g (g\<lparr>kern := k\<rparr>)"

definition kern_ok :: "api_state \<Rightarrow> bool" where
  "kern_ok g \<longleftrightarrow> (\<exists>ts rs. kernel_ok (kern g) ts rs)"

lemma set_pt_sels [simp]:
  "links (kern (set_pt st g)) = links (kern g)" "tasks (kern (set_pt st g)) = tasks (kern g)"
  "task_id_pool (kern (set_pt st g)) = task_id_pool (kern g)" "words (set_pt st g) = words g"
  "current_task_id (kern (set_pt st g)) = current_task_id (kern g)" "acl (set_pt st g) = acl g"
  "params_stack (set_pt st g) = params_stack g"
  by (simp_all add: set_pt_def)

lemma kernel_ok_set_pt [simp]: "kernel_ok (kern (set_pt st g)) ts rs = kernel_ok (kern g) ts rs"
  by (rule kernel_ok_cong) simp_all

lemma map_ns_ok: "map_ns env a g = (g', r) \<Longrightarrow> kernel_ok (kern g') ts rs = kernel_ok (kern g) ts rs \<and>
    links (kern g') = links (kern g) \<and> words g' = words g"
  by (auto simp: map_ns_def split: prod.split_asm)

lemma unmap_ns_ok [simp]: "kernel_ok (kern (unmap_ns env a g)) ts rs = kernel_ok (kern g) ts rs"
  by (simp add: unmap_ns_def)

lemma write_word_kern [simp]: "kern (write_word a w g) = kern g"
  by (simp add: write_word_def)

lemma destroy_entry_ok: "kernel_ok (kern (fst (sa_destroy_entry_point svc d g))) ts rs = kernel_ok (kern g) ts rs"
  by (rule kernel_ok_cong) (auto simp: sa_destroy_entry_point_def free_private_def)

definition id_reserved :: "tee \<Rightarrow> tptr list \<Rightarrow> u32 \<Rightarrow> bool" where
  "id_reserved k ts i \<longleftrightarrow>
     (\<exists>a :: u8. i = ucast a \<and> task_id_pool k a \<noteq> 0 \<and> (\<forall>t\<in>set ts. task_id (tasks k t) \<noteq> ucast a))"

lemma service_prepare_ok:
  assumes "kernel_ok (kern g) ts rs" and "service_prepare env svc name md perms g = Some (g', cfg)"
  shows "kernel_ok (kern g') ts rs \<and> links (kern g') = links (kern g) \<and> words g' = words g \<and>
    id_reserved (kern g') ts (cfg_task_id cfg)"
proof -
  obtain a k s where *: "get_next_asid_val (kern g) = Some (a, k)" "g' = g\<lparr>kern := k, acl := s\<rparr>"
    "cfg = service_config env svc name md a"
    using assms(2) by (auto simp: service_prepare_def elim!: bind_SomeE)
  have "links k = links (kern g)" using *(1) by (auto simp: get_next_asid_val_def elim!: bind_SomeE)
  then show ?thesis using kernel_ok_new_id[OF assms(1) *(1)] *(2,3)
    by (auto simp: service_config_def id_reserved_def intro!: exI[of _ a])
qed

lemma create_entry_ok:
  assumes "kernel_ok (kern g) ts rs" and "sa_create_entry_point env svc g = Some (g', cfg, r)"
  shows "kernel_ok (kern g') ts rs \<and> links (kern g') = links (kern g) \<and> words g' = words g \<and>
     (r = Inr () \<longrightarrow> id_reserved (kern g') ts (cfg_task_id cfg))"
  using assms(2) unfolding sa_create_entry_point_def echo_task_init_def dispatch_task_init_def linux_task_init_def
  by (auto elim!: bind_SomeE dest!: service_prepare_ok[OF assms(1)] split: if_split_asm)
    (use assms(1) in simp_all)

lemma heap_fresh_notin:
  assumes "heap_fresh env g" and "kernel_ok k ts rs" and "links k = links (kern g)"
  shows "\<forall>t. new_task_addr (henv env) = Some t \<longrightarrow> t \<notin> set ts"
proof (intro allI impI)
  fix t assume t: "new_task_addr (henv env) = Some t"
  have d: "dlist (links (kern g)) Task_List (map Head_Link ts)" "\<forall>u\<in>set ts. data_of (links (kern g)) (Head_Link u) = Some u"
    using assms(2,3) by (auto simp: kernel_ok_def sched_rep_def)
  have "List.find (\<lambda>c. data_of (links (kern g)) c = Some t) (map Head_Link ts) = None"
    using dlist_find[OF d(1), of "\<lambda>x. x = Some t"] assms(1) t by (simp add: heap_fresh_def)
  then have "\<forall>u\<in>set ts. data_of (links (kern g)) (Head_Link u) \<noteq> Some t" by (auto simp: find_None_iff)
  then show "t \<notin> set ts" using d(2) by auto
qed

lemma sa_open_session_ok:
  assumes ok: "kernel_ok (kern g) ts rs" and op: "sa_open_session env cfg ses g = Some (g', r)"
    and new: "\<forall>t. new_task_addr (henv env) = Some t \<longrightarrow> t \<notin> set ts" and i: "id_reserved (kern g) ts (cfg_task_id cfg)"
  shows "case r of Inl _ \<Rightarrow> kernel_ok (kern g') ts rs \<and> words g' = (words g)(ses := - 1)
    | Inr _ \<Rightarrow> words g' = (words g)(ses := cfg_task_id cfg) \<and> (\<exists>t. new_task_addr (henv env) = Some t \<and> kernel_ok (kern g') (ts @ [t]) rs \<and>
        task_id (tasks (kern g') t) = cfg_task_id cfg \<and> state (tasks (kern g') t) = TASK_STATE_SUSPEND)"
proof -
  obtain p k r' where c: "create_task (penv env) (henv env) p cfg (kern g) = Some (k, r')"
    "g' = write_word ses (case r' of Inr i \<Rightarrow> i | Inl _ \<Rightarrow> - 1) (g\<lparr>kern := k\<rparr>)"
    "r = (case r' of Inr _ \<Rightarrow> Inr () | Inl e \<Rightarrow> Inl e)"
    using op by (auto simp: sa_open_session_def elim!: bind_SomeE)
  obtain a :: u8 where a: "cfg_task_id cfg = ucast a" "task_id_pool (kern g) a \<noteq> 0"
    "\<forall>t\<in>set ts. task_id (tasks (kern g) t) \<noteq> ucast a" using i by (auto simp: id_reserved_def)
  show ?thesis using kernel_ok_create[OF ok c(1) new a] c(2,3) a(1)
    by (cases r') (auto simp: read_word_def write_word_def)
qed

text \<open>What a successful and a failed opening write.\<close>

definition session_words :: "u32 \<Rightarrow> u32 \<Rightarrow> u32 \<Rightarrow> (u32 \<Rightarrow> u32) \<Rightarrow> u32 \<Rightarrow> u32" where
  "session_words cmd ses i w =
     w(ses := i, cmd + ret_resp_buf_len_at := 4, cmd + cmd_status_at := OTZ_STATUS_COMPLETE)"

definition failure_words :: "u32 \<Rightarrow> u32 \<Rightarrow> (u32 \<Rightarrow> u32) \<Rightarrow> (u32 \<Rightarrow> u32) set" where
  "failure_words cmd ses w = (\<lambda>v. w(ses := v, cmd + cmd_status_at := OTZ_STATUS_INCOMPLETE)) ` {w ses, - 1}"

lemma words_destroy_entry_point [simp]: "words (fst (sa_destroy_entry_point svc d g)) = words g"
  by (simp add: sa_destroy_entry_point_def free_private_def)

lemma open_session_mapped_ok:
  assumes ok: "kernel_ok (kern g) ts rs" and op: "open_session_mapped env cmd ses svc g = Some (g', r)"
    and new: "\<forall>t. new_task_addr (henv env) = Some t \<longrightarrow> t \<notin> set ts"
  shows "case r of Inl _ \<Rightarrow> kernel_ok (kern g') ts rs \<and> words g' \<in> failure_words cmd ses (words g)
    | Inr _ \<Rightarrow> (\<exists>t. new_task_addr (henv env) = Some t \<and> kernel_ok (kern g') (ts @ [t]) rs \<and>
        state (tasks (kern g') t) = TASK_STATE_SUSPEND \<and>
        words g' = session_words cmd ses (task_id (tasks (kern g') t)) (words g))"
proof -
  obtain g1 cfg r1 g2 r2 where c: "sa_create_entry_point env svc g = Some (g1, cfg, r1)"
    "(if r1 = Inr () then sa_open_session env (cfg\<lparr>cfg_guest_no := current_guest_no env\<rparr>) ses g1
      else Some (g1, r1)) = Some (g2, r2)"
    "(g', r) = (case r2 of
         Inr _ \<Rightarrow> (write_word (cmd + cmd_status_at) OTZ_STATUS_COMPLETE
                   (write_word (cmd + ret_resp_buf_len_at) 4 g2), Inr ())
       | Inl e \<Rightarrow> (case sa_destroy_entry_point svc (cfg_data cfg) g2 of (g3, r3) \<Rightarrow>
            (write_word (cmd + cmd_status_at) OTZ_STATUS_INCOMPLETE g3,
             case r3 of Inl e' \<Rightarrow> Inl e' | Inr _ \<Rightarrow> Inl e)))"
    using op unfolding open_session_mapped_def by (auto elim!: bind_SomeE)
  note c1 = create_entry_ok[OF ok c(1)]
  have "case r2 of Inl _ \<Rightarrow> kernel_ok (kern g2) ts rs \<and> (\<exists>v\<in>{words g ses, - 1}. words g2 = (words g)(ses := v))
    | Inr _ \<Rightarrow> (\<exists>t. new_task_addr (henv env) = Some t \<and> kernel_ok (kern g2) (ts @ [t]) rs \<and>
        state (tasks (kern g2) t) = TASK_STATE_SUSPEND \<and> words g2 = (words g)(ses := task_id (tasks (kern g2) t)))"
    using c(2) c1 sa_open_session_ok[of g1 ts rs env "cfg\<lparr>cfg_guest_no := current_guest_no env\<rparr>" ses g2 r2] new
    by (cases r1; cases r2) auto
  moreover have "words g3 = words g2" if "sa_destroy_entry_point svc (cfg_data cfg) g2 = (g3, r3)" for g3 r3
    using words_destroy_entry_point[of svc "cfg_data cfg" g2] that by simp
  ultimately show ?thesis using c(3) destroy_entry_ok[of svc "cfg_data cfg" g2]
    by (cases r2) (auto simp: write_word_def session_words_def failure_words_def split: prod.split_asm sum.split_asm)
qed

lemma kern_okI: "kernel_ok (kern g) ts rs \<Longrightarrow> kern_ok g"
  unfolding kern_ok_def by (intro exI)

text \<open>Requests that are turned down before a session is created: the command or one of its buffers cannot
  be mapped, the response buffer is empty, or no service is named.\<close>

definition open_rejected :: "api_env \<Rightarrow> u32 \<Rightarrow> api_state \<Rightarrow> bool" where
  "open_rejected env cmd g =
     (case map_ns env cmd g of (g1, r1) \<Rightarrow>
      case map_ns env (words g (cmd + resp_buf_phys_at)) g1 of (g2, r2) \<Rightarrow>
      case map_ns env (words g (cmd + req_buf_phys_at)) g2 of (g3, r3) \<Rightarrow>
        isl r1 \<or> words g (cmd + resp_buf_len_at) = 0 \<or> isl r2 \<or>
        isl r3 \<or> words g (words g (cmd + req_buf_phys_at)) = OTZ_SVC_INVALID)"

text \<open>Only the page tables differ.\<close>

definition untouched :: "api_state \<Rightarrow> api_state \<Rightarrow> bool" where
  "untouched g g' \<longleftrightarrow> (\<exists>st. g' = set_pt st g)"

lemma set_pt_same [simp]: "set_pt (pt (kern g)) g = g" "set_pt st (set_pt st' g) = set_pt st g"
  by (simp_all add: set_pt_def)

lemma untouched_refl [simp]: "untouched g g"
  unfolding untouched_def by (metis set_pt_same(1))

lemma untouched_trans [trans]: "untouched g g' \<Longrightarrow> untouched g' g'' \<Longrightarrow> untouched g g''"
  by (auto simp: untouched_def)

lemma untouched_ok: "untouched g g' \<Longrightarrow> kernel_ok (kern g') ts rs = kernel_ok (kern g) ts rs \<and> words g' = words g"
  by (auto simp: untouched_def)

lemma map_ns_untouched: "map_ns env a g = (g', r) \<Longrightarrow> untouched g g'"
  by (auto simp: map_ns_def untouched_def split: prod.split_asm)

lemma unmap_ns_untouched [simp]: "untouched g (unmap_ns env a g)"
  unfolding unmap_ns_def by (simp add: untouched_def) (metis set_pt_same(1))

text \<open>The outcome of a request to open a session.  A request that is turned down changes nothing but the
  page tables, and the function reports success.  Otherwise a failure adds no task, marks the command as
  incomplete and writes at most \<open>- 1\<close> to the response buffer; a success adds one task, suspended, at
  the end of the task list, with its identifier in the response buffer.\<close>

definition opened :: "api_env \<Rightarrow> tptr list \<Rightarrow> tptr list \<Rightarrow> u32 \<Rightarrow> api_state \<Rightarrow> api_state \<Rightarrow> unit sw_result \<Rightarrow> bool" where
  "opened env ts rs cmd g g' r \<longleftrightarrow>
     (if open_rejected env cmd g then untouched g g' \<and> r = Inr ()
      else case r of
        Inl _ \<Rightarrow> kernel_ok (kern g') ts rs \<and> words g' \<in> failure_words cmd (words g (cmd + resp_buf_phys_at)) (words g)
      | Inr _ \<Rightarrow> \<exists>t. new_task_addr (henv env) = Some t \<and> kernel_ok (kern g') (ts @ [t]) rs \<and>
          state (tasks (kern g') t) = TASK_STATE_SUSPEND \<and>
          words g' = session_words cmd (words g (cmd + resp_buf_phys_at)) (task_id (tasks (kern g') t)) (words g))"

lemma opened_kern_ok:
  assumes "kernel_ok (kern g) ts rs" and "opened env ts rs cmd g g' r"
  shows "kern_ok g'"
  using assms(1,2) untouched_ok[of g g' ts rs]
  by (auto simp: opened_def kern_ok_def split: if_split_asm sum.split_asm)

lemma map_ns_addr: "map_ns env a g = (g', Inr va) \<Longrightarrow> va = a"
  by (auto simp: map_ns_def map_to_ns_def split: prod.split_asm sum.split_asm)

lemma unmap_ns_sels [simp]:
  "links (kern (unmap_ns env a g)) = links (kern g)" "tasks (kern (unmap_ns env a g)) = tasks (kern g)"
  "task_id_pool (kern (unmap_ns env a g)) = task_id_pool (kern g)" "words (unmap_ns env a g) = words g"
  by (simp_all add: unmap_ns_def)

text \<open>The session is created in a state that differs from the first one in the page tables only.\<close>

lemma open_session_cases:
  assumes op: "open_session_from_ns env cmd g = Some (g', r)"
  shows "(if open_rejected env cmd g then untouched g g' \<and> r = Inr ()
     else \<exists>g3 g4. untouched g g3 \<and> untouched g4 g' \<and>
       open_session_mapped env cmd (words g (cmd + resp_buf_phys_at)) (words g (words g (cmd + req_buf_phys_at))) g3 = Some (g4, r))"
proof -
  let ?ses = "words g (cmd + resp_buf_phys_at)" and ?req = "words g (cmd + req_buf_phys_at)"
  obtain g1 r1 where m1: "map_ns env cmd g = (g1, r1)" by fastforce
  obtain g2 r2 where m2: "map_ns env ?ses g1 = (g2, r2)" by fastforce
  obtain g3 r3 where m3: "map_ns env ?req g2 = (g3, r3)" by fastforce
  note u = map_ns_untouched[OF m1] map_ns_untouched[OF m2] map_ns_untouched[OF m3]
  have w: "words g1 = words g" "words g2 = words g" "words g3 = words g"
    using u untouched_ok by metis+
  have v: "r1 = Inr a \<Longrightarrow> a = cmd" "r2 = Inr a \<Longrightarrow> a = ?ses" "r3 = Inr a \<Longrightarrow> a = ?req" for a
    using m1 m2 m3 map_ns_addr by blast+
  have u3: "untouched g g1" "untouched g g2" "untouched g g3" using u untouched_trans by blast+
  have un: "untouched g h \<Longrightarrow> untouched g (unmap_ns env a (unmap_ns env b (unmap_ns env c h)))"
    "untouched h (unmap_ns env a (unmap_ns env b (unmap_ns env c h)))" for h a b c
    using untouched_trans unmap_ns_untouched by metis+
  have rej: "open_rejected env cmd g \<longleftrightarrow> isl r1 \<or> words g (cmd + resp_buf_len_at) = 0 \<or> isl r2 \<or>
        isl r3 \<or> words g ?req = OTZ_SVC_INVALID"
    by (simp add: open_rejected_def m1 m2 m3)
  show ?thesis
  proof (cases "open_rejected env cmd g")
    case True
    then show ?thesis
      using op rej u3 un(1) m1 m2 m3 w v
      by (cases r1; cases r2; cases r3)
        (auto simp: open_session_from_ns_def open_session_buffers_def read_word_def split: if_split_asm)
  next
    case False
    then obtain g4 where
        "open_session_mapped env cmd ?ses (words g ?req) g3 = Some (g4, r)" "g' = unmap_ns env cmd (unmap_ns env ?ses (unmap_ns env ?req g4))"
      using op rej m1 m2 m3 w v
      by (cases r1; cases r2; cases r3)
        (auto simp: open_session_from_ns_def open_session_buffers_def read_word_def split: if_split_asm)
    then show ?thesis using False u3(3) un(2) by auto
  qed
qed

lemma open_session_ok:
  assumes ok: "kernel_ok (kern g) ts rs" and op: "open_session_from_ns env param g = Some (g', r)"
    and new: "\<forall>t. new_task_addr (henv env) = Some t \<longrightarrow> t \<notin> set ts"
  shows "opened env ts rs param g g' r"
proof (cases "open_rejected env param g")
  case True
  then show ?thesis using open_session_cases[OF op] by (simp add: opened_def)
next
  case False
  then obtain g3 g4 where g: "untouched g g3" "untouched g4 g'"
    "open_session_mapped env param (words g (param + resp_buf_phys_at)) (words g (words g (param + req_buf_phys_at))) g3 = Some (g4, r)"
    using open_session_cases[OF op] by auto
  obtain st where "g' = set_pt st g4" using g(2) by (auto simp: untouched_def)
  then show ?thesis
    using open_session_mapped_ok[OF _ g(3) new, of rs] untouched_ok[OF g(1)] ok False
    by (cases r) (auto simp: opened_def)
qed

lemma close_session_ok:
  assumes ok: "kernel_ok (kern g) ts rs" and op: "sa_close_session env tid g = Some (g', r)"
    and "lookup (kern g) ts tid = Some t"
  shows "r = Inr () \<and> kernel_ok (kern g') (remove1 t ts) (remove1 t rs)"
  using kernel_ok_destroy[OF ok assms(3), of "penv env" "henv env"] op
  by (auto simp: sa_close_session_def)

lemma get_task_ok: "kernel_ok k ts rs \<Longrightarrow> get_task tid k = Some (lookup k ts tid)"
  using find_task_rep by (auto simp: kernel_ok_def get_task_def)

lemma lookup_destroy_entry [simp]:
  "lookup (kern (fst (sa_destroy_entry_point svc d g))) ts tid = lookup (kern g) ts tid"
  by (simp add: sa_destroy_entry_point_def free_private_def lookup_def)

lemma words_destroy_entry [simp]:
  "read_word a (fst (sa_destroy_entry_point svc d g)) = read_word a g"
  by (simp add: read_word_def)

lemma close_session_mapped_ok:
  assumes ok: "kernel_ok (kern g) ts rs" and op: "close_session_mapped env cmd ses svc g = Some g'"
  shows "\<exists>t. lookup (kern g) ts (read_word ses g) = Some t \<and> kernel_ok (kern g') (remove1 t ts) (remove1 t rs)"
proof -
  let ?tid = "read_word ses g"
  obtain t where t: "lookup (kern g) ts ?tid = Some t"
    using op get_task_ok[OF ok] by (auto simp: close_session_mapped_def elim!: bind_SomeE)
  let ?g1 = "fst (sa_destroy_entry_point svc (tls_private_data (tls (tasks (kern g) t))) g)"
  obtain g2 r where g2: "sa_close_session env ?tid ?g1 = Some (g2, r)" "kern g' = kern g2"
    using op get_task_ok[OF ok] t by (auto simp: close_session_mapped_def Let_def elim!: bind_SomeE)
  have "kernel_ok (kern ?g1) ts rs" using ok by (simp add: destroy_entry_ok)
  from close_session_ok[OF this g2(1)] t g2(2) show ?thesis by simp
qed

lemma close_session_from_ns_ok:
  assumes ok: "kernel_ok (kern g) ts rs" and op: "close_session_from_ns env param g = Some (g', r)"
  shows "\<exists>ts' rs'. kernel_ok (kern g') ts' rs'"
proof -
  obtain g1 r1 where m: "map_ns env param g = (g1, r1)" by fastforce
  then have k1: "kernel_ok (kern g1) ts rs" using map_ns_ok[OF m] ok by simp
  show ?thesis
  proof (cases r1)
    case (Inl e)
    then show ?thesis using op m k1 by (auto simp: close_session_from_ns_def)
  next
    case (Inr cmd)
    then obtain g2 ses svc where b: "close_session_buffers env cmd g1 = Some (g2, ses, svc, r)"
      "g' = unmap_ns env cmd (unmap_ns env ses (unmap_ns env svc g2))"
      using op m by (auto simp: close_session_from_ns_def)
    have "\<exists>ts' rs'. kernel_ok (kern g2) ts' rs'"
    proof (cases "read_word (cmd + req_buf_len_at) g1 = 0")
      case True
      then show ?thesis using b(1) k1 by (auto simp: close_session_buffers_def)
    next
      case False
      obtain h1 q1 where m1: "map_ns env (read_word (cmd + req_buf_phys_at) g1) g1 = (h1, q1)" by fastforce
      then have l1: "kernel_ok (kern h1) ts rs" using map_ns_ok[OF m1] k1 by simp
      obtain h2 q2 where m2: "map_ns env (read_word (cmd + resp_buf_phys_at) h1) h1 = (h2, q2)" by fastforce
      then have l2: "kernel_ok (kern h2) ts rs" using map_ns_ok[OF m2] l1 by simp
      show ?thesis using b(1) False m1 m2 l1 l2
        by (cases q1; cases q2) (auto simp: close_session_buffers_def dest!: close_session_mapped_ok[OF l2])
    qed
    then show ?thesis using b(2) kernel_ok_cong[of "kern g'" "kern g2"] by simp
  qed
qed

lemma close_session_from_secure_ok:
  assumes ok: "kernel_ok (kern g) ts rs" and op: "close_session_from_secure env tid g = Some (g', r)"
  shows "\<exists>ts' rs'. kernel_ok (kern g') ts' rs'"
proof (cases "lookup (kern g) ts tid")
  case None
  then show ?thesis using op ok by (auto simp: close_session_from_secure_def get_task_ok[OF ok])
next
  case (Some t)
  let ?g1 = "fst (sa_destroy_entry_point (service_id (tasks (kern g) t)) (tls_private_data (tls (tasks (kern g) t))) g)"
  obtain g2 r where g2: "sa_close_session env tid ?g1 = Some (g2, r)" "kern g' = kern g2"
    using op Some by (auto simp: close_session_from_secure_def get_task_ok[OF ok] Let_def elim!: bind_SomeE)
  have "kernel_ok (kern ?g1) ts rs" using ok by (simp add: destroy_entry_ok)
  from close_session_ok[OF this g2(1)] Some g2(2) show ?thesis by auto
qed

lemma get_api_context_ok:
  assumes "get_api_context env g = (g', svc, tid, cmd, ty)"
  shows "kernel_ok (kern g') ts rs = kernel_ok (kern g) ts rs \<and> links (kern g') = links (kern g)"
  using assms unfolding get_api_context_def Let_def
  by (auto split: if_split_asm prod.split_asm sum.split_asm dest!: map_ns_ok[where ts = ts and rs = rs])

lemma dispatch_request_ok:
  assumes ok: "kernel_ok (kern g) ts rs" and op: "dispatch_request env g = Some g'" and fresh: "heap_fresh env g"
  shows "kern_ok g'"
proof (cases "secure_interrupt_set g \<or> linux_return_flag g \<or> \<not> (valid_params_flag g \<and> params_stack g ! 0 = CALL_TRUSTZONE_API)")
  case True
  then show ?thesis using op ok kernel_ok_start[OF ok]
    by (auto simp: dispatch_request_def kern_ok_def split: if_split_asm; metis)
next
  case False
  obtain g1 svc tid cmd ty where c: "get_api_context env (g\<lparr>valid_params_flag := False\<rparr>) = (g1, svc, tid, cmd, ty)"
    by (metis prod_cases5)
  have k1: "kernel_ok (kern g1) ts rs" and l1: "links (kern g1) = links (kern g)"
    using get_api_context_ok[OF c, of ts rs] ok by simp_all
  have new: "\<forall>t. new_task_addr (henv env) = Some t \<longrightarrow> t \<notin> set ts" using heap_fresh_notin[OF fresh k1 l1] .
  have op1: "(if svc = OTZ_SVC_GLOBAL \<and> cmd = OTZ_GLOBAL_CMD_ID_BOOT_ACK
        then Some (set_secure_api_ret 0 g1)
        else if svc = OTZ_SVC_GLOBAL \<and> cmd = OTZ_GLOBAL_CMD_ID_OPEN_SESSION
        then if ty = OTZ_CMD_TYPE_NS_TO_SECURE
          then map_option (\<lambda>(g2, r). set_secure_api_ret (smc_code r) g2)
                 (open_session_from_ns env (params_stack g1 ! 1) g1)
          else Some g1
        else if svc = OTZ_SVC_GLOBAL \<and> cmd = OTZ_GLOBAL_CMD_ID_CLOSE_SESSION
        then if ty = OTZ_CMD_TYPE_NS_TO_SECURE
          then map_option (\<lambda>(g2, r). set_secure_api_ret (smc_code r) g2)
                 (close_session_from_ns env (params_stack g1 ! 1) g1)
          else Some g1
        else if svc \<noteq> OTZ_SVC_INVALID \<and> tid \<noteq> 0 \<and> cmd \<noteq> OTZ_GLOBAL_CMD_ID_INVALID
        then map_option (\<lambda>(k, _). g1\<lparr>kern := k\<rparr>) (start_task tid (Some (params_stack g1)) (kern g1))
        else Some (set_secure_api_ret 0 g1)) = Some g'"
    using op False c by (simp add: dispatch_request_def)
  have ret: "kern (set_secure_api_ret v h) = kern h" for v h by (simp add: set_secure_api_ret_def)
  have opn: "kern_ok h" if "open_session_from_ns env p g1 = Some (h, r)" for h p r
    using opened_kern_ok[OF k1 open_session_ok[OF k1 that new]] .
  have cls: "kern_ok h" if "close_session_from_ns env p g1 = Some (h, r)" for h p r
    using close_session_from_ns_ok[OF k1 that] by (simp add: kern_ok_def)
  have stt: "\<exists>ts rs. kernel_ok k ts rs" if "start_task tid p (kern g1) = Some (k, r)" for k p r
    using kernel_ok_start[OF k1 that] by blast
  show ?thesis
    using op1 k1 opn cls stt unfolding kern_ok_def
    by (simp only: split: if_split_asm) (auto simp: ret; metis)+
qed

lemma exit_task_ok:
  assumes ok: "kernel_ok (kern g) ts rs" and op: "exit_task tid t g = Some g'"
  shows "kern_ok g'"
proof -
  obtain k where k: "suspend_task tid TASK_STATE_SUSPEND (kern g) = Some k" "kernel_ok k ts rs"
    using kernel_ok_suspend[OF ok] by blast
  have ret: "kern_ok h'" if h: "kernel_ok (kern h) ts rs" "otz_ipi_return c v h = Some h'" for c v h h'
  proof (cases "lookup (kern h) ts (read_word (c + src_context_at) h)")
    case None
    then show ?thesis using h get_task_ok[OF h(1)] by (auto simp: otz_ipi_return_def kern_ok_def)
  next
    case (Some u)
    let ?k = "set_task u ((tasks (kern h) u)\<lparr>tls := (tls (tasks (kern h) u))\<lparr>tls_ipi_ret_val := v\<rparr>\<rparr>) (kern h)"
    have "kernel_ok ?k ts rs" using h(1) by (subst kernel_ok_cong[of _ "kern h"]) (auto simp: set_task_def)
    from kernel_ok_schedule[OF this, of u] obtain k' rs' where "schedule_task u ?k = Some k'" "kernel_ok k' ts rs'"
      using lookup_in[OF Some] by blast
    moreover from this have "h' = h\<lparr>kern := k'\<rparr>"
      using h(2) get_task_ok[OF h(1)] Some by (simp add: otz_ipi_return_def Let_def)
    ultimately show ?thesis using kern_okI[of h' ts rs'] by simp
  qed
  let ?g1 = "g\<lparr>kern := k\<rparr>"
  have k1: "kernel_ok (kern ?g1) ts rs" using k(2) by simp
  have "g' = set_secure_api_ret (tls_ret_val t) ?g1 \<or> otz_ipi_return (tls_params t ! 1) (tls_ret_val t) ?g1 = Some g' \<or> g' = ?g1"
    using op k(1) by (auto simp: exit_task_def Let_def split: if_split_asm)
  moreover have "kern_ok ?g1" "kern_ok (set_secure_api_ret (tls_ret_val t) ?g1)"
    using k1 by (auto simp: set_secure_api_ret_def intro!: kern_okI)
  ultimately show ?thesis using ret[OF k1] by metis
qed

lemma api_step_ok: "api_step g g' \<Longrightarrow> kern_ok g \<Longrightarrow> kern_ok g'"
proof (induction rule: api_step.induct)
  case (dispatch env g g')
  then show ?case using dispatch_request_ok unfolding kern_ok_def by metis
next
  case (exit tid t g g')
  then show ?case using exit_task_ok unfolding kern_ok_def by metis
next
  case (ipi c g g')
  then obtain ts rs where "kernel_ok (kern g) ts rs" by (auto simp: kern_ok_def)
  from kernel_ok_suspend[OF this] show ?case using ipi(1) by (auto simp: otz_ipi_def kern_ok_def) (metis option.inject)
next
  case (close env tid g g' r)
  then show ?case using close_session_from_secure_ok unfolding kern_ok_def by metis
next
  case (switch g k)
  then show ?case using kernel_ok_scheduler[of "kern g"] by (fastforce simp: kern_ok_def)
qed (auto simp: kern_ok_def dispatch_return_def)

text \<open>C4. Whatever commands the non-secure world issues and whatever it writes into the buffers, in any
  interleaving with ending, calling and scheduled tasks: the task list and the ready queue stay
  well formed, no two tasks share an identifier, and every identifier in use is marked so.\<close>

theorem sessions_keep_kernel:
  assumes "api_step\<^sup>*\<^sup>* g g'" and "kernel_ok (kern g) ts rs"
  shows "\<exists>ts' rs'. kernel_ok (kern g') ts' rs'"
proof -
  have "kern_ok g'" using assms(1)
    by (induction rule: rtranclp_induct) (use assms(2) api_step_ok in \<open>auto simp: kern_ok_def\<close>)
  then show ?thesis by (simp add: kern_ok_def)
qed

text \<open>An example: three tasks, free identifiers from 20 on, a command at 0x100 whose buffers are at 0x200
  and 0x300.\<close>

definition demo_kern :: tee where
  "demo_kern = demo_tee\<lparr>
     links := link_init (Task_Wait_List 1) (link_init (Task_Wait_List 3) (links demo_tee)),
     task_id_pool := (\<lambda>a. if a \<in> {17, 18, 19} then 1 else 0)\<rparr>"

lemma demo_kern_ok: "kernel_ok demo_kern [1, 2, 3] [2, 3]"
proof -
  have "id_marked demo_kern t" if "t \<in> {1, 2, 3}" for t
    using that unfolding id_marked_def
    by (intro exI[of _ "16 + of_nat t"]) (auto simp: demo_kern_def demo_tee_def demo_global_def demo_task_def)
  then show ?thesis
    by (simp add: kernel_ok_def no_waiter_def sched_rep_def dlist_def demo_kern_def demo_tee_def
      demo_global_def ring_def demo_task_def)
qed

definition demo_words :: "u32 \<Rightarrow> u32" where
  "demo_words = (\<lambda>_. 0)(0x100 := push_bit 10 1 OR 2, 0x118 := 4, 0x124 := 0x300, 0x128 := 0x200, 0x300 := 2)"

definition demo_api :: api_state where
  "demo_api =
     \<lparr>kern = demo_kern, acl = acl_empty, words = demo_words, params_stack = [1, 0x100, 1, 0],
      valid_params_flag = True, linux_return_flag = False, linux_task_id = 0, secure_interrupt_set = False,
      g_dispatch_data = 0x5000, secure_api_set = False, secure_api_ret_val = 0, returned = []\<rparr>"

definition demo_api_env :: api_env where
  "demo_api_env =
     \<lparr>penv = flat_env, henv = demo_heap,
      aenv = (\<lambda>k. \<lparr>new_user = Some (10 + k), new_group = Some (10 + k), new_device = Some (10 + k)\<rparr>),
      data_addr = 0x6000, current_guest_no = 0, uninit_config = demo_config,
      entry_point_of = (\<lambda>_. 0x8000), process_of = (\<lambda>_. 0x9000)\<rparr>"

lemma demo_api_ok: "kernel_ok (kern demo_api) [1, 2, 3] [2, 3]"
  unfolding demo_api_def api_state.select_convs by (rule demo_kern_ok)

lemma demo_api_fresh: "heap_fresh demo_api_env demo_api"
  by code_simp

text \<open>C5. A request of the non-secure world to open a session, when the function returns.  If the command or
  one of its buffers cannot be mapped, the response buffer is empty or no service is named, nothing
  but the page tables changes, and success is reported all the same.  Otherwise a failure adds no
  task, marks the command as incomplete and writes at most \<open>- 1\<close> as the session; and a success adds
  exactly one task, suspended, at the end of the task list, writes its identifier to the response
  buffer and marks the command as complete.\<close>

theorem open_session_adds_task:
  assumes "kernel_ok (kern g) ts rs" and "heap_fresh env g"
    and "open_session_from_ns env param g = Some (g', r)"
  shows "opened env ts rs param g g' r"
  using open_session_ok[OF assms(1,3) heap_fresh_notin[OF assms(2,1) refl]] .

lemma demo_open:
  "map_option (\<lambda>(g, r). (r, words g 0x200, words g 0x120, task_id_pool (kern g) 20, link_empty (links (kern g)) Task_List))
     (open_session_from_ns demo_api_env 0x100 demo_api) = Some (Inr (), 20, 1, 1, False)"
  by code_simp

lemma demo_not_rejected: "\<not> open_rejected demo_api_env 0x100 demo_api"
  by code_simp

lemma open_session_adds_task_witness:
  "\<exists>g' t. open_session_from_ns demo_api_env 0x100 demo_api = Some (g', Inr ()) \<and> words g' 0x200 = 20 \<and>
     kernel_ok (kern g') [1, 2, 3, t] [2, 3] \<and> state (tasks (kern g') t) = TASK_STATE_SUSPEND"
proof -
  obtain g' where g: "open_session_from_ns demo_api_env 0x100 demo_api = Some (g', Inr ())" "words g' 0x200 = 20"
    using demo_open by auto
  from open_session_adds_task[OF demo_api_ok demo_api_fresh g(1)] g demo_not_rejected show ?thesis
    by (auto simp: opened_def)
qed

text \<open>An empty response buffer is rejected with \<^verbatim>\<open>SW_EINVAL\<close>, but the request is answered with success.\<close>

lemma open_session_rejected_as_success:
  "map_option (\<lambda>g. (returned (dispatch_return g), task_id_pool (kern g) 20))
     (dispatch_request demo_api_env (demo_api\<lparr>words := demo_words(0x118 := 0)\<rparr>)) = Some ([0], 0)"
  by code_simp

text \<open>When there is no memory for the new task, its private data is freed twice.\<close>

lemma open_session_double_free:
  "map_option (\<lambda>g. (returned (dispatch_return g), freed (kern g)))
     (dispatch_request demo_api_env (demo_api\<lparr>kern := demo_kern\<lparr>pt := (pt demo_kern)\<lparr>pages_info :=
        (pages_info (pt demo_kern))\<lparr>num_phy_pag_free := 0\<rparr>\<rparr>\<rparr>\<rparr>)) = Some ([7], [0x6000, 4, 0x6000])"
  by code_simp

section \<open>Commands reach their service and results their caller\<close>

lemma small_bits: "x < 1024 \<Longrightarrow> bit (x :: u32) i \<Longrightarrow> i < 10"
proof (rule ccontr)
  assume x: "x < 1024" "bit x i" "\<not> i < 10"
  have "uint x < 2 ^ 10" using x(1) by (simp add: word_less_def)
  then have "take_bit 10 (uint x) = uint x" by (simp add: take_bit_int_eq_self)
  moreover have "bit (uint x) i" using x(2) by (auto simp: bit_uint_iff dest: bit_imp_le_length)
  ultimately show False using x(3) by (metis bit_take_bit_iff)
qed

lemma decode_id:
  assumes "svc < 1024" and "cmd < 1024"
  shows "drop_bit 10 (push_bit 10 svc OR cmd) AND 0x3ff = (svc :: u32)"
    and "(push_bit 10 svc OR cmd) AND 0x3ff = (cmd :: u32)"
proof -
  have m: "(0x3ff :: u32) = mask 10" by (simp add: mask_eq_exp_minus_1)
  have b: "bit svc i \<Longrightarrow> i < 10" "bit cmd i \<Longrightarrow> i < 10" for i using small_bits assms by blast+
  show "drop_bit 10 (push_bit 10 svc OR cmd) AND 0x3ff = (svc :: u32)"
    unfolding m by (rule bit_word_eqI)
      (auto simp: bit_and_iff bit_or_iff bit_mask_iff bit_push_bit_iff bit_drop_bit_eq dest: b)
  show "(push_bit 10 svc OR cmd) AND 0x3ff = (cmd :: u32)"
    unfolding m by (rule bit_word_eqI)
      (auto simp: bit_and_iff bit_or_iff bit_mask_iff bit_push_bit_iff dest: b)
qed

text \<open>C8. A call between tasks: the command the dispatcher decodes is the service, session and command the
  caller named, and the caller waits until its session is scheduled again.\<close>

theorem ipc_send_decoded:
  assumes "kernel_ok (kern g) ts rs" and "svc < 1024" and "cmd < 1024"
  shows "\<exists>g'. ipc_send smc_cmd src_svc src_context svc session cmd enc meta g = Some (g', Inr ()) \<and>
     get_api_context env g' = (g', svc, session, cmd, OTZ_CMD_TYPE_SECURE_TO_SECURE) \<and>
     valid_params_flag g' \<and> kernel_ok (kern g') ts rs \<and>
     (\<forall>t. lookup (kern g) ts src_context = Some t \<longrightarrow> state (tasks (kern g') t) = TASK_STATE_WAIT)"
proof -
  let ?offsets = "[cmd_id_at, context_at, src_id_at, src_context_at, req_buf_len_at, resp_buf_len_at, ret_resp_buf_len_at,
    req_buf_phys_at, resp_buf_phys_at, meta_data_phys_at]"
  have off: "cmd_id_at = 0" "context_at = 4" "src_id_at = 12" "src_context_at = 16" "req_buf_len_at = 20"
    "resp_buf_len_at = 24" "ret_resp_buf_len_at = 28" "req_buf_phys_at = 36" "resp_buf_phys_at = 40" "meta_data_phys_at = 44"
    by (simp_all add: cmd_id_at_def context_at_def src_id_at_def src_context_at_def req_buf_len_at_def
      resp_buf_len_at_def ret_resp_buf_len_at_def req_buf_phys_at_def resp_buf_phys_at_def meta_data_phys_at_def)
  let ?g = "write_word (smc_cmd + meta_data_phys_at) meta
            (write_word (smc_cmd + resp_buf_phys_at) (res_addr enc)
            (write_word (smc_cmd + req_buf_phys_at) (req_addr enc)
            (write_word (smc_cmd + ret_resp_buf_len_at) 0
            (write_word (smc_cmd + resp_buf_len_at) (enc_res_offset enc)
            (write_word (smc_cmd + req_buf_len_at) (enc_req_offset enc)
            (write_word (smc_cmd + context_at) session
            (write_word (smc_cmd + cmd_id_at) (push_bit 10 svc OR cmd)
            (write_word (smc_cmd + src_context_at) src_context
            (write_word (smc_cmd + src_id_at) (push_bit 10 src_svc) g)))))))))"
  have w: "read_word (smc_cmd + cmd_id_at) ?g = push_bit 10 svc OR cmd" "read_word (smc_cmd + context_at) ?g = session"
    "read_word (smc_cmd + src_context_at) ?g = src_context" "kern ?g = kern g"
    unfolding read_word_def write_word_def off by simp_all
  obtain k where k: "suspend_task src_context TASK_STATE_WAIT (kern g) = Some k" "kernel_ok k ts rs"
    using kernel_ok_suspend[OF assms(1)] by blast
  have "state (tasks k t) = TASK_STATE_WAIT" if t: "lookup (kern g) ts src_context = Some t" for t
    using k(1) t assms(1) find_task_rep[of "kern g" ts rs src_context]
    by (auto simp: suspend_task_def kernel_ok_def set_state_def Let_def split: if_split_asm)
  moreover have "OTZ_CMD_TYPE_SECURE_TO_SECURE \<noteq> OTZ_CMD_TYPE_NS_TO_SECURE"
    by (simp add: OTZ_CMD_TYPE_SECURE_TO_SECURE_def OTZ_CMD_TYPE_NS_TO_SECURE_def)
  ultimately show ?thesis using k w decode_id[OF assms(2,3)]
    by (simp add: ipc_send_def otz_ipi_def get_api_context_def read_word_def)
qed

lemma ipc_send_decoded_witness:
  "\<exists>g'. ipc_send 0x7000 2 17 1 18 5 empty_ctx 0 demo_api = Some (g', Inr ()) \<and>
     get_api_context demo_api_env g' = (g', 1, 18, 5, OTZ_CMD_TYPE_SECURE_TO_SECURE) \<and>
     valid_params_flag g' \<and> kernel_ok (kern g') [1, 2, 3] [2, 3] \<and> state (tasks (kern g') 1) = TASK_STATE_WAIT"
proof -
  have "lookup (kern demo_api) [1, 2, 3] 17 = Some 1"
    by (simp add: lookup_def demo_api_def demo_kern_def demo_tee_def demo_global_def demo_task_def)
  then show ?thesis using ipc_send_decoded[OF demo_api_ok, of 1 5 "0x7000" 2 17 18 empty_ctx 0 demo_api_env] by auto
qed

text \<open>C7. When a task ends, its result goes to where its command came from: the next run of the dispatcher
  hands the result of a command of the non-secure world back, once, and a task that waits for its
  call finds the result in its local storage and is ready to run.\<close>

theorem exit_task_hands_back:
  assumes "kernel_ok (kern g) ts rs" and "lookup (kern g) ts tid = Some t"
  shows "\<exists>g' rs'. exit_task tid tlv g = Some g' \<and> kernel_ok (kern g') ts rs' \<and>
     state (tasks (kern g') t) = TASK_STATE_SUSPEND \<and>
     (tls_params tlv ! 2 = OTZ_CMD_TYPE_NS_TO_SECURE \<longrightarrow>
        returned (dispatch_return g') = returned g @ [tls_ret_val tlv] \<and>
        returned (dispatch_return (dispatch_return g')) = returned (dispatch_return g')) \<and>
     (tls_params tlv ! 2 = OTZ_CMD_TYPE_SECURE_TO_SECURE \<longrightarrow>
        (case lookup (kern g) ts (read_word (tls_params tlv ! 1 + src_context_at) g) of
           None \<Rightarrow> True
         | Some u \<Rightarrow> tls_ipi_ret_val (tls (tasks (kern g') u)) = tls_ret_val tlv \<and> u \<in> set rs'))"
proof -
  obtain k where k: "suspend_task tid TASK_STATE_SUSPEND (kern g) = Some k" "kernel_ok k ts rs"
    using kernel_ok_suspend[OF assms(1)] by blast
  have st: "state (tasks k t) = TASK_STATE_SUSPEND" "\<And>u. task_id (tasks k u) = task_id (tasks (kern g) u)"
    using k(1) assms find_task_rep[of "kern g" ts rs tid]
    by (auto simp: suspend_task_def kernel_ok_def set_state_def Let_def split: if_split_asm)
  have lk: "lookup k ts i = lookup (kern g) ts i" for i using st(2) by (simp add: lookup_def)
  let ?g1 = "g\<lparr>kern := k\<rparr>"
  consider (ns) "tls_params tlv ! 2 = OTZ_CMD_TYPE_NS_TO_SECURE"
    | (ipc) "tls_params tlv ! 2 = OTZ_CMD_TYPE_SECURE_TO_SECURE"
    | (other) "tls_params tlv ! 2 \<noteq> OTZ_CMD_TYPE_NS_TO_SECURE" "tls_params tlv ! 2 \<noteq> OTZ_CMD_TYPE_SECURE_TO_SECURE"
    by blast
  then show ?thesis
  proof cases
    case ns
    then show ?thesis using k st(1)
      by (intro exI[of _ "set_secure_api_ret (tls_ret_val tlv) ?g1"] exI[of _ rs])
        (simp add: exit_task_def set_secure_api_ret_def dispatch_return_def
          OTZ_CMD_TYPE_SECURE_TO_SECURE_def OTZ_CMD_TYPE_NS_TO_SECURE_def)
  next
    case other
    then show ?thesis using k st(1) by (intro exI[of _ ?g1] exI[of _ rs]) (simp add: exit_task_def)
  next
    case ipc
    then have ne: "tls_params tlv ! 2 \<noteq> OTZ_CMD_TYPE_NS_TO_SECURE"
      by (simp add: OTZ_CMD_TYPE_SECURE_TO_SECURE_def OTZ_CMD_TYPE_NS_TO_SECURE_def)
    let ?i = "read_word (tls_params tlv ! 1 + src_context_at) g"
    have i: "read_word (tls_params tlv ! 1 + src_context_at) ?g1 = ?i" by (simp add: read_word_def)
    show ?thesis
    proof (cases "lookup (kern g) ts ?i")
      case None
      then have "exit_task tid tlv g = Some ?g1"
        using k ne ipc get_task_ok[OF k(2)] lk i by (simp add: exit_task_def otz_ipi_return_def)
      then show ?thesis using None k st(1) ne by (intro exI[of _ ?g1] exI[of _ rs]) simp
    next
      case (Some u)
      let ?k = "set_task u ((tasks k u)\<lparr>tls := (tls (tasks k u))\<lparr>tls_ipi_ret_val := tls_ret_val tlv\<rparr>\<rparr>) k"
      have u: "u \<in> set ts" using lookup_in[OF Some] by blast
      have "kernel_ok ?k ts rs" using k(2) by (subst kernel_ok_cong[of _ k]) (auto simp: set_task_def)
      then have "sched_rep ?k ts rs" by (simp add: kernel_ok_def)
      obtain L where L: "schedule_task u ?k = Some (?k\<lparr>links := L\<rparr>)"
        using schedule_task_rep[OF \<open>sched_rep ?k ts rs\<close> u] by blast
      have L2: "kernel_ok (?k\<lparr>links := L\<rparr>) ts (if u \<in> set rs then rs else rs @ [u])"
        using kernel_ok_schedule[OF \<open>kernel_ok ?k ts rs\<close> u] L by auto
      let ?g' = "?g1\<lparr>kern := ?k\<lparr>links := L\<rparr>\<rparr>"
      have "exit_task tid tlv g = Some ?g'"
        using k ne ipc get_task_ok[OF k(2)] lk i Some L by (simp add: exit_task_def otz_ipi_return_def Let_def)
      moreover have "state (tasks (kern ?g') t) = TASK_STATE_SUSPEND"
        "tls_ipi_ret_val (tls (tasks (kern ?g') u)) = tls_ret_val tlv" using st(1) by (cases "t = u", simp_all add: set_task_def)
      ultimately show ?thesis using L2 Some ne
        by (intro exI[of _ ?g'] exI[of _ "if u \<in> set rs then rs else rs @ [u]"]) simp
    qed
  qed
qed

lemma exit_task_hands_back_witness:
  "\<exists>g' rs'. exit_task 17 (empty_tls\<lparr>tls_params := [1, 0x100, 1, 0], tls_ret_val := 42\<rparr>) demo_api = Some g' \<and>
     kernel_ok (kern g') [1, 2, 3] rs' \<and> state (tasks (kern g') 1) = TASK_STATE_SUSPEND \<and>
     returned (dispatch_return g') = [42]"
proof -
  have "lookup (kern demo_api) [1, 2, 3] 17 = Some 1"
    by (simp add: lookup_def demo_api_def demo_kern_def demo_tee_def demo_global_def demo_task_def)
  from exit_task_hands_back[OF demo_api_ok this, of "empty_tls\<lparr>tls_params := [1, 0x100, 1, 0], tls_ret_val := 42\<rparr>"]
  show ?thesis by (auto simp: OTZ_CMD_TYPE_NS_TO_SECURE_def demo_api_def)
qed

lemma demo_dispatch: "dispatch_request demo_api_env demo_api \<noteq> None"
proof -
  have "map_option (\<lambda>g. returned (dispatch_return g)) (dispatch_request demo_api_env demo_api) = Some [0]" by code_simp
  then show ?thesis by auto
qed

lemma sessions_keep_kernel_witness:
  "\<exists>g' ts' rs'. dispatch_request demo_api_env demo_api = Some g' \<and> api_step demo_api g' \<and> kernel_ok (kern g') ts' rs'"
proof -
  obtain g' where g': "dispatch_request demo_api_env demo_api = Some g'" using demo_dispatch by auto
  have "api_step demo_api g'" using demo_api_fresh g' by (rule api_step.dispatch)
  then have "api_step\<^sup>*\<^sup>* demo_api g'" by blast
  from sessions_keep_kernel[OF this demo_api_ok] g' \<open>api_step demo_api g'\<close> show ?thesis by blast
qed


text \<open>Closing session 99, which does not exist, follows a null pointer.\<close>

lemma close_unknown_session_faults:
  "dispatch_request demo_api_env (demo_api\<lparr>words := demo_words(0x100 := push_bit 10 1 OR 3, 0x114 := 4, 0x200 := 99)\<rparr>) = None"
  by code_simp

text \<open>A command for session 99, which does not exist, is neither answered nor started.\<close>

lemma command_without_session_dropped:
  "map_option (\<lambda>g. (secure_api_set g, returned (dispatch_return g)))
     (dispatch_request demo_api_env (demo_api\<lparr>words := demo_words(0x100 := push_bit 10 2 OR 1, 0x104 := 99)\<rparr>)) = Some (False, [])"
  by code_simp


text \<open>A request whose command lies in a section that the kernel has mapped for itself turns the mapping
  into a non-secure one and, at the end, removes it: the first-level entry of the section is 2 (a
  secure section) before and 0 (a fault) afterwards.\<close>

lemma request_unmaps_secure_section:
  "map_option (\<lambda>g. (mem (pt (kern demo_api)) (l1_pte_addr 0x4000 0x100), mem (pt (kern g)) (l1_pte_addr 0x4000 0x100)))
     (dispatch_request demo_api_env demo_api) = Some (2, 0)"
  by code_simp

end
