(* ===== verification/Command.thy ===== *)
theory Command
  imports Secure_Api "HOL-Library.Multiset"
begin

text \<open>
  How the task of a session serves a command: \<^verbatim>\<open>process_otzapi\<close> of \<^verbatim>\<open>lib/common/task_control.c\<close>, which
  maps the command, its buffers and descriptors, checks the session, calls the service and unmaps.
  The service is reached through the pointer \<^verbatim>\<open>tls->process\<close>: it is an argument of the definition.
\<close>

section \<open>Serving a command\<close>

text \<open>The arguments of a service are the command, the request and response buffers with their lengths, the
  descriptors and the place of the length of the response; it returns one of the codes of \<^verbatim>\<open>otz_id.h\<close>.\<close>

type_synonym service = "u32 \<Rightarrow> u32 \<Rightarrow> u32 \<Rightarrow> u32 \<Rightarrow> u32 \<Rightarrow> u32 \<Rightarrow> u32 \<Rightarrow> api_state \<Rightarrow> api_state \<times> u32"

definition SMC_SUCCESS :: u32 where "SMC_SUCCESS = 0"
definition SMC_EINVAL_ARG :: u32 where "SMC_EINVAL_ARG = 4"
definition SMC_ENOMEM :: u32 where "SMC_ENOMEM = 7"

text \<open>\<^verbatim>\<open>if(len > 0) map_to_ns(phys, &buf)\<close>: the address stays \<^verbatim>\<open>NULL\<close> when there is no buffer.\<close>

definition map_buffer :: "api_env \<Rightarrow> u32 \<Rightarrow> u32 \<Rightarrow> api_state \<Rightarrow> api_state \<times> u32 sw_result" where
  "map_buffer env len phys g = (if 0 < len then map_ns env phys g else (g, Inr 0))"

definition unmap_cmd :: "api_env \<Rightarrow> u32 \<Rightarrow> api_state \<Rightarrow> api_state" where
  "unmap_cmd env cmd g = set_pt (unmap_from_ns (penv env) cmd (pt (kern g))) g"

text \<open>The check of the session and the call of the service; \<open>True\<close> when the code then goes on to unmap.
  After a mismatch it returns at once.\<close>

definition call_service ::
    "service option \<Rightarrow> u32 \<Rightarrow> u32 \<Rightarrow> u32 \<Rightarrow> u32 \<Rightarrow> u32 \<Rightarrow> api_state \<Rightarrow> api_state \<times> u32 \<times> bool" where
  "call_service process session_id cmd req_buf res_buf meta_data g =
     (if read_word (cmd + context_at) g \<noteq> session_id
      then (write_word (cmd + cmd_status_at) OTZ_STATUS_COMPLETE g, SMC_EINVAL_ARG, False)
      else let svc_cmd_id = read_word (cmd + cmd_id_at) g AND 0x3ff;
               (g1, ret_val) = (case process of None \<Rightarrow> (g, SMC_SUCCESS)
                 | Some f \<Rightarrow> f svc_cmd_id req_buf (read_word (cmd + req_buf_len_at) g)
                     res_buf (read_word (cmd + resp_buf_len_at) g) meta_data (cmd + ret_resp_buf_len_at) g)
           in (if ret_val = 0 then write_word (cmd + cmd_status_at) OTZ_STATUS_COMPLETE g1 else g1, ret_val, True))"

text \<open>The label \<^verbatim>\<open>handle_err2\<close>.\<close>

definition release_buffers :: "api_env \<Rightarrow> u32 \<Rightarrow> u32 \<Rightarrow> u32 \<Rightarrow> u32 \<Rightarrow> api_state \<Rightarrow> api_state" where
  "release_buffers env cmd req_buf res_buf meta_data g =
     unmap_cmd env cmd (unmap_ns env meta_data (unmap_ns env res_buf (unmap_ns env req_buf g)))"

definition process_otzapi ::
    "api_env \<Rightarrow> service option \<Rightarrow> u32 \<Rightarrow> sw_tls \<Rightarrow> api_state \<Rightarrow> api_state \<times> u32" where
  "process_otzapi env process session_id t g =
     (if tls_params t = [] then (g, SMC_ENOMEM)
      else if tls_params t ! 2 = OTZ_CMD_TYPE_NS_TO_SECURE
      then (case map_ns env (tls_params t ! 1) g of
          (g1, Inl _) \<Rightarrow> (g1, SMC_ENOMEM)
        | (g1, Inr cmd) \<Rightarrow>
            (case map_buffer env (read_word (cmd + req_buf_len_at) g1) (read_word (cmd + req_buf_phys_at) g1) g1 of
               (g2, Inl _) \<Rightarrow> (unmap_cmd env cmd g2, SMC_ENOMEM)
             | (g2, Inr req_buf) \<Rightarrow>
                 (case map_buffer env (read_word (cmd + resp_buf_len_at) g2) (read_word (cmd + resp_buf_phys_at) g2) g2 of
                    (g3, Inl _) \<Rightarrow> (release_buffers env cmd req_buf 0 0 g3, SMC_ENOMEM)
                  | (g3, Inr res_buf) \<Rightarrow>
                      (case map_ns env (read_word (cmd + meta_data_phys_at) g3) g3 of
                         (g4, Inl _) \<Rightarrow> (release_buffers env cmd req_buf res_buf 0 g4, SMC_ENOMEM)
                       | (g4, Inr meta_data) \<Rightarrow>
                           (case call_service process session_id cmd req_buf res_buf meta_data g4 of
                              (g5, ret_val, unmap) \<Rightarrow>
                                (if unmap then release_buffers env cmd req_buf res_buf meta_data g5 else g5, ret_val))))))
      else let cmd = tls_params t ! 1 in
        (case call_service process session_id cmd (read_word (cmd + req_buf_phys_at) g) (read_word (cmd + resp_buf_phys_at) g)
            (read_word (cmd + meta_data_phys_at) g) g of
           (g1, ret_val, _) \<Rightarrow> (g1, ret_val)))"

section \<open>Mappings of non-secure sections\<close>

text \<open>A section of the non-secure memory: not mapped and not counted, or mapped as non-secure and counted, with
  room for \<open>k\<close> more users.\<close>

definition ns_entry :: "u32 \<Rightarrow> bool" where
  "ns_entry d \<longleftrightarrow> d AND PAGE_DESC_TYPE_MASK = PAGE_DESC_TYPE_SECTION \<and> d AND PAGE_DESC_L1_SEC_NS_MASK_ENTRY \<noteq> 0"

definition ns_section :: "nat \<Rightarrow> u32 \<Rightarrow> pt_state \<Rightarrow> bool" where
  "ns_section k p st \<longleftrightarrow>
     (case ref_lookup p (page_refs st) of
        None \<Rightarrow> mem st p = 0 \<and> k < 4294967296
      | Some n \<Rightarrow> n \<noteq> 0 \<and> unat n + k < 4294967296 \<and> ns_entry (mem st p))"

text \<open>The references of \<open>R\<close> with the \<open>c p\<close> further users of every section \<open>p\<close>; \<open>ord\<close> are the sections that had none.\<close>

definition refs_with :: "(u32 \<Rightarrow> nat) \<Rightarrow> (u32 \<times> u32) list \<Rightarrow> u32 list \<Rightarrow> (u32 \<times> u32) list" where
  "refs_with c R ord = map (\<lambda>(q, n). (q, n + of_nat (c q))) R @ map (\<lambda>q. (q, of_nat (c q))) ord"

lemma refs_with_cong: "(\<And>q. q \<in> fst ` set R \<union> set ord \<Longrightarrow> c q = d q) \<Longrightarrow> refs_with c R ord = refs_with d R ord"
  by (force simp: refs_with_def)

lemma ref_lookup_None: "ref_lookup p R = None \<longleftrightarrow> p \<notin> fst ` set R"
  by (induction R) (auto split: if_splits)

lemma lookup_refs_with: "ref_lookup p (refs_with c R ord) =
    (case ref_lookup p R of Some n \<Rightarrow> Some (n + of_nat (c p))
     | None \<Rightarrow> if p \<in> set ord then Some (of_nat (c p)) else None)"
proof -
  have o: "ref_lookup p (map (\<lambda>q. (q, of_nat (c q))) ord) = (if p \<in> set ord then Some (of_nat (c p)) else None)"
    by (induction ord) auto
  show ?thesis by (induction R) (auto simp: refs_with_def o)
qed

lemma set_refs_old:
  assumes "distinct (map fst R)" "ref_lookup p R = Some n" "p \<notin> set ord"
  shows "ref_set p (n + of_nat m) (refs_with c R ord) = refs_with (c(p := m)) R ord"
  using assms
proof (induction R)
  case (Cons r R)
  obtain q k where r: "r = (q, k)" by (cases r)
  show ?case
  proof (cases "q = p")
    case True
    then have "refs_with (c(p := m)) R ord = refs_with c R ord"
      using Cons.prems r by (intro refs_with_cong) (auto simp: image_iff)
    then show ?thesis using True Cons.prems r by (simp add: refs_with_def)
  next
    case False
    then show ?thesis using Cons r by (simp add: refs_with_def)
  qed
qed simp

lemma set_refs_new:
  assumes "p \<notin> fst ` set R" "p \<in> set ord" "distinct ord"
  shows "ref_set p (of_nat m) (refs_with c R ord) = refs_with (c(p := m)) R ord"
proof -
  have "ref_set p (of_nat m) (map (\<lambda>q. (q, of_nat (c q))) ord) = map (\<lambda>q. (q, of_nat ((c(p := m)) q))) ord"
    using assms(2,3)
  proof (induction ord)
    case (Cons q ord)
    then show ?case by (cases "q = p") auto
  qed simp
  then show ?thesis using assms(1) by (induction R) (auto simp: refs_with_def)
qed

lemma remove_refs_new:
  assumes "p \<notin> fst ` set R" "p \<in> set ord" "distinct ord"
  shows "ref_remove p (refs_with c R ord) = refs_with (c(p := 0)) R (remove1 p ord)"
proof -
  have "ref_remove p (map (\<lambda>q. (q, of_nat (c q))) ord) = map (\<lambda>q. (q, of_nat ((c(p := 0)) q))) (remove1 p ord)"
    using assms(2,3)
  proof (induction ord)
    case (Cons q ord)
    then show ?case by (cases "q = p") auto
  qed simp
  then show ?thesis using assms(1) by (induction R) (auto simp: refs_with_def)
qed

lemma append_refs_new:
  assumes "p \<notin> fst ` set R" "p \<notin> set ord"
  shows "refs_with c R ord @ [(p, 1)] = refs_with (c(p := 1)) R (ord @ [p])"
  using assms by (force simp: refs_with_def)

text \<open>\<open>st'\<close> is \<open>st\<close> with \<open>c p\<close> further users of every section \<open>p\<close>.\<close>

definition ns_extends :: "(u32 \<Rightarrow> nat) \<Rightarrow> pt_state \<Rightarrow> pt_state \<Rightarrow> bool" where
  "ns_extends c st st' \<longleftrightarrow>
     (\<exists>ord m. st' = st\<lparr>mem := m, page_refs := refs_with c (page_refs st) ord\<rparr> \<and> distinct ord \<and>
        set ord = {p. c p \<noteq> 0 \<and> p \<notin> fst ` set (page_refs st)} \<and>
        (\<forall>p\<in>set ord. ns_entry (m p)) \<and> (\<forall>p. p \<notin> set ord \<longrightarrow> m p = mem st p))"

lemma ns_extends_none: "ns_extends (\<lambda>_. 0) st st' \<longleftrightarrow> st' = st"
proof -
  have "refs_with (\<lambda>_. 0) (page_refs st) [] = page_refs st" by (induction "page_refs st") (auto simp: refs_with_def)
  then show ?thesis by (auto simp: ns_extends_def fun_eq_iff intro!: exI[of _ "mem st"])
qed

lemma ns_entry_ns_desc: "ns_entry (section_desc (ns_desc a))"
  using ns_desc_bits[of a] by (simp add: ns_entry_def section_desc_fields)

lemma map_to_ns_extends:
  assumes "malloc_ok env" and d: "distinct (map fst (page_refs st))"
    and e: "ns_extends c st st'" and p: "p = l1_pte_addr (secure_ptd env) a" and ok: "ns_section k p st" "c p < k"
  shows "snd (map_to_ns env a st') = Inr a" "ns_extends (c(p := Suc (c p))) st (fst (map_to_ns env a st'))"
proof -
  obtain ord m where s: "st' = st\<lparr>mem := m, page_refs := refs_with c (page_refs st) ord\<rparr>" "distinct ord"
    "set ord = {p. c p \<noteq> 0 \<and> p \<notin> fst ` set (page_refs st)}"
    "\<forall>p\<in>set ord. ns_entry (m p)" "\<forall>p. p \<notin> set ord \<longrightarrow> m p = mem st p" using e unfolding ns_extends_def by blast
  have "snd (map_to_ns env a st') = Inr a \<and> ns_extends (c(p := Suc (c p))) st (fst (map_to_ns env a st'))"
  proof (cases "ref_lookup p (page_refs st)")
    case (Some n)
    then have in_R: "p \<in> fst ` set (page_refs st)" using ref_lookup_None[of p] by (metis option.distinct(1))
    then have o: "p \<notin> set ord" "m p = mem st p" using s by auto
    have ent: "ns_entry (m p)" using ok Some o by (simp add: ns_section_def)
    have "map_to_ns env a st' =
        (st'\<lparr>page_refs := ref_set p (n + of_nat (Suc (c p))) (page_refs st')\<rparr>, Inr a)"
      using ent Some p
      by (simp add: map_to_ns_def map_ns_section_entry_def page_ref_add_def Let_def ns_desc_def[of a] s(1) lookup_refs_with
          ns_entry_def add.commute add.left_commute)
    moreover have "ref_set p (n + of_nat (Suc (c p))) (page_refs st') = refs_with (c(p := Suc (c p))) (page_refs st) ord"
      unfolding s(1) using set_refs_old[OF d Some o(1), of "Suc (c p)" c] by simp
    ultimately show ?thesis using s in_R unfolding ns_extends_def
      by (intro conjI, simp, intro exI[of _ ord] exI[of _ m]) auto
  next
    case None
    then have nin: "p \<notin> fst ` set (page_refs st)" by (simp add: ref_lookup_None)
    show ?thesis
    proof (cases "p \<in> set ord")
      case True
      have "map_to_ns env a st' =
          (st'\<lparr>page_refs := ref_set p (of_nat (Suc (c p))) (page_refs st')\<rparr>, Inr a)"
        using s(4) True None p
        by (simp add: map_to_ns_def map_ns_section_entry_def page_ref_add_def Let_def ns_desc_def[of a] s(1) lookup_refs_with
            ns_entry_def add.commute)
      moreover have "ref_set p (of_nat (Suc (c p))) (page_refs st') = refs_with (c(p := Suc (c p))) (page_refs st) ord"
        unfolding s(1) using set_refs_new[OF nin True s(2), of "Suc (c p)" c] by simp
      ultimately show ?thesis using s True nin unfolding ns_extends_def
        by (intro conjI, simp, intro exI[of _ ord] exI[of _ m]) auto
    next
      case False
      then have c: "c p = 0" "m p = 0" using s nin ok None by (auto simp: ns_section_def)
      have "map_to_ns env a st' =
          (st'\<lparr>mem := m(p := section_desc (ns_desc a)), page_refs := page_refs st' @ [(p, 1)]\<rparr>, Inr a)"
        using c assms(1) False None p
        by (simp add: map_to_ns_def map_ns_section_entry_def page_ref_add_def Let_def ns_desc_def[of a] s(1) lookup_refs_with
            set_word_def)
      moreover have "page_refs st' @ [(p, 1)] = refs_with (c(p := Suc (c p))) (page_refs st) (ord @ [p])"
        unfolding s(1) using append_refs_new[OF nin False, of c] c by simp
      ultimately show ?thesis using s False nin c ns_entry_ns_desc[of a] unfolding ns_extends_def
        by (intro conjI, simp, intro exI[of _ "ord @ [p]"] exI[of _ "m(p := section_desc (ns_desc a))"]) auto
    qed
  qed
  then show "snd (map_to_ns env a st') = Inr a" "ns_extends (c(p := Suc (c p))) st (fst (map_to_ns env a st'))" by auto
qed

lemma unmap_from_ns_extends:
  assumes d: "distinct (map fst (page_refs st))"
    and e: "ns_extends c st st'" and p: "p = l1_pte_addr (secure_ptd env) a" and ok: "ns_section k p st" "c p = Suc j" "j < k"
  shows "ns_extends (c(p := j)) st (unmap_from_ns env a st')"
proof -
  obtain ord m where s: "st' = st\<lparr>mem := m, page_refs := refs_with c (page_refs st) ord\<rparr>" "distinct ord"
    "set ord = {p. c p \<noteq> 0 \<and> p \<notin> fst ` set (page_refs st)}"
    "\<forall>p\<in>set ord. ns_entry (m p)" "\<forall>p. p \<notin> set ord \<longrightarrow> m p = mem st p" using e unfolding ns_extends_def by blast
  show ?thesis
  proof (cases "ref_lookup p (page_refs st)")
    case (Some n)
    then have in_R: "p \<in> fst ` set (page_refs st)" using ref_lookup_None[of p] by (metis option.distinct(1))
    then have o: "p \<notin> set ord" "m p = mem st p" using s by auto
    have ent: "ns_entry (m p)" using ok Some o by (simp add: ns_section_def)
    have nz: "n + of_nat j \<noteq> 0"
    proof -
      have "unat n + j < 4294967296" "unat n \<noteq> 0" using ok Some by (auto simp: ns_section_def unat_eq_zero)
      then have "unat (n + of_nat j) = unat n + j"
        using unat_add_small[of n "of_nat j"] unat_of_nat_small[where 'a = 32, of j] by simp
      then show ?thesis using \<open>unat n \<noteq> 0\<close> by (metis add_is_0 unat_0)
    qed
    have "unmap_from_ns env a st' = st'\<lparr>page_refs := ref_set p (n + of_nat j) (page_refs st')\<rparr>"
      using ent Some p nz ok(2)
      by (simp add: unmap_from_ns_def unmap_ns_section_entry_def page_ref_release_def Let_def s(1) lookup_refs_with ns_entry_def)
    moreover have "ref_set p (n + of_nat j) (page_refs st') = refs_with (c(p := j)) (page_refs st) ord"
      unfolding s(1) using set_refs_old[OF d Some o(1), of j c] by simp
    ultimately show ?thesis using s in_R unfolding ns_extends_def
      by (intro exI[of _ ord] exI[of _ m]) auto
  next
    case None
    then have nin: "p \<notin> fst ` set (page_refs st)" by (simp add: ref_lookup_None)
    then have po: "p \<in> set ord" using s ok(2) by simp
    have k: "k < 4294967296" "mem st p = 0" using ok(1) None by (auto simp: ns_section_def)
    have jz: "(of_nat j :: u32) = 0 \<longleftrightarrow> j = 0"
      using unat_of_nat_small[where 'a = 32, of j] ok(3) k by (auto simp: unat_eq_zero[symmetric])
    show ?thesis
    proof (cases j)
      case 0
      have "unmap_from_ns env a st' = st'\<lparr>mem := m(p := 0), page_refs := ref_remove p (page_refs st')\<rparr>"
        using s(4) po None p ok(2) 0
        by (simp add: unmap_from_ns_def unmap_ns_section_entry_def page_ref_release_def Let_def s(1) lookup_refs_with ns_entry_def
            set_word_def)
      moreover have "ref_remove p (page_refs st') = refs_with (c(p := j)) (page_refs st) (remove1 p ord)"
        unfolding s(1) using remove_refs_new[OF nin po s(2), of c] 0 by simp
      ultimately show ?thesis using s po nin k 0 unfolding ns_extends_def
        by (intro exI[of _ "remove1 p ord"] exI[of _ "m(p := 0)"]) auto
    next
      case (Suc i)
      have "(of_nat (Suc (Suc i)) :: u32) - 1 = of_nat (Suc i)" by simp
      moreover from this have "(of_nat (Suc (Suc i)) :: u32) \<noteq> 1" using jz Suc by force
      ultimately
      have "unmap_from_ns env a st' = st'\<lparr>page_refs := ref_set p (of_nat j) (page_refs st')\<rparr>"
        using s(4) po None p ok(2) jz Suc
        by (simp add: unmap_from_ns_def unmap_ns_section_entry_def page_ref_release_def Let_def s(1) lookup_refs_with ns_entry_def
            del: of_nat_Suc)
      moreover have "ref_set p (of_nat j) (page_refs st') = refs_with (c(p := j)) (page_refs st) ord"
        unfolding s(1) using set_refs_new[OF nin po s(2), of j c] by simp
      ultimately show ?thesis using s po nin Suc unfolding ns_extends_def
        by (intro exI[of _ ord] exI[of _ m]) auto
    qed
  qed
qed

section \<open>A command leaves no mapping behind\<close>

abbreviation pte :: "api_env \<Rightarrow> u32 \<Rightarrow> u32" where
  "pte env a \<equiv> l1_pte_addr (secure_ptd (penv env)) a"

text \<open>\<open>g\<close> has the page tables of \<open>st\<close>, with one further user for every occurrence of a section in \<open>M\<close>.\<close>

definition holds_sections :: "u32 multiset \<Rightarrow> pt_state \<Rightarrow> api_state \<Rightarrow> bool" where
  "holds_sections M st g \<longleftrightarrow> ns_extends (count M) st (pt (kern g)) \<and> (\<forall>p\<in>#M. ns_section 5 p st)"

text \<open>An address that can be mapped, or whose section belongs to a page table, so that mapping it fails.\<close>

definition mappable :: "u32 \<Rightarrow> pt_state \<Rightarrow> bool" where
  "mappable p st \<longleftrightarrow> ns_section 5 p st \<or> (mem st p AND PAGE_DESC_TYPE_MASK \<noteq> PAGE_DESC_TYPE_FAULT \<and>
     mem st p AND PAGE_DESC_TYPE_MASK \<noteq> PAGE_DESC_TYPE_SECTION)"

lemma holds_nothing: "holds_sections {#} st g \<longleftrightarrow> pt (kern g) = st"
proof -
  have "count {#} = (\<lambda>_. 0)" by (rule ext) simp
  then have "ns_extends (count {#}) st (pt (kern g)) = ns_extends (\<lambda>_. 0) st (pt (kern g))"
    by (rule arg_cong[where f = "\<lambda>c. ns_extends c st (pt (kern g))"])
  then show ?thesis by (simp only: holds_sections_def ns_extends_none) simp
qed

lemma set_pt_pt [simp]: "pt (kern (set_pt st g)) = st" and set_pt_twice [simp]: "set_pt st (set_pt st' g) = set_pt st g"
  and set_pt_same [simp]: "set_pt (pt (kern g)) g = g"
  by (simp_all add: set_pt_def)

lemma read_word_set_pt [simp]: "read_word a (set_pt st g) = read_word a g"
  by (simp add: read_word_def)

lemma map_ns_success:
  assumes mo: "malloc_ok (penv env)" and d: "distinct (map fst (page_refs st))" and h: "holds_sections M st g"
    and sz: "size M < 5" and p: "ns_section 5 (pte env a) st"
  shows "\<exists>st'. map_ns env a g = (set_pt st' g, Inr a) \<and> holds_sections (add_mset (pte env a) M) st (set_pt st' g)"
proof -
  have "count M (pte env a) < 5" using sz count_le_size[of M "pte env a"] by linarith
  then have "snd (map_to_ns (penv env) a (pt (kern g))) = Inr a"
    "ns_extends ((count M)(pte env a := Suc (count M (pte env a)))) st (fst (map_to_ns (penv env) a (pt (kern g))))"
    using map_to_ns_extends[OF mo d _ refl p] h unfolding holds_sections_def by blast+
  moreover have "(count M)(pte env a := Suc (count M (pte env a))) = count (add_mset (pte env a) M)" by auto
  ultimately show ?thesis using h p
    by (auto simp: map_ns_def holds_sections_def split: prod.splits)
qed

lemma map_ns_holds:
  assumes mo: "malloc_ok (penv env)" and d: "distinct (map fst (page_refs st))" and h: "holds_sections M st g"
    and sz: "size M < 5" and p: "mappable (pte env a) st"
  shows "(\<exists>st'. map_ns env a g = (set_pt st' g, Inr a) \<and> holds_sections (add_mset (pte env a) M) st (set_pt st' g)) \<or>
     (\<exists>e. map_ns env a g = (g, Inl e))"
proof (cases "ns_section 5 (pte env a) st")
  case True
  then show ?thesis using map_ns_success[OF mo d h sz] by blast
next
  case False
  then have ty: "mem st (pte env a) AND 3 \<noteq> 0" "mem st (pte env a) AND 3 \<noteq> 2" using p by (auto simp: mappable_def)
  have nM: "pte env a \<notin># M" using False h by (auto simp: holds_sections_def)
  obtain ord m where s: "pt (kern g) = st\<lparr>mem := m, page_refs := refs_with (count M) (page_refs st) ord\<rparr>"
    "set ord = {p. count M p \<noteq> 0 \<and> p \<notin> fst ` set (page_refs st)}" "\<forall>p. p \<notin> set ord \<longrightarrow> m p = mem st p"
    using h unfolding holds_sections_def ns_extends_def by blast
  have "mem (pt (kern g)) (pte env a) = mem st (pte env a)" using s nM by (simp add: not_in_iff)
  then have "\<exists>e. map_ns env a g = (g, Inl e)"
    using ty by (simp add: map_ns_def map_to_ns_def map_ns_section_entry_def Let_def ns_desc_def[of a])
  then show ?thesis by blast
qed

lemma unmap_cmd_holds:
  assumes d: "distinct (map fst (page_refs st))" and h: "holds_sections M st g" and p: "pte env a \<in># M" and sz: "size M \<le> 5"
  shows "holds_sections (M - {#pte env a#}) st (unmap_cmd env a g)"
proof -
  obtain j where j: "count M (pte env a) = Suc j" using p by (metis count_eq_zero_iff not0_implies_Suc)
  then have "j < 5" using sz count_le_size[of M "pte env a"] by linarith
  then have "ns_extends ((count M)(pte env a := j)) st (unmap_from_ns (penv env) a (pt (kern g)))"
    using unmap_from_ns_extends[OF d, of "count M" "pt (kern g)" "pte env a" "penv env" a 5 j] h p j
    by (simp add: holds_sections_def)
  moreover have "(count M)(pte env a := j) = count (M - {#pte env a#})" using j by auto
  ultimately show ?thesis using h by (auto simp: holds_sections_def unmap_cmd_def dest: in_diffD)
qed

lemma unmap_ns_cmd: "a \<noteq> 0 \<Longrightarrow> unmap_ns env a g = unmap_cmd env a g" "unmap_ns env 0 g = g"
  by (simp_all add: unmap_ns_def unmap_cmd_def)

lemma holds_write [simp]: "holds_sections M st (write_word a w g) = holds_sections M st g"
  by (simp add: holds_sections_def)

text \<open>The sections of a buffer of the given length, and the address the code has for it.\<close>

definition buffer_sections :: "api_env \<Rightarrow> u32 \<Rightarrow> u32 \<Rightarrow> u32 multiset" where
  "buffer_sections env len a = (if 0 < len then {#pte env a#} else {#})"

lemma map_buffer_holds:
  assumes mo: "malloc_ok (penv env)" and d: "distinct (map fst (page_refs st))" and h: "holds_sections M st g"
    and sz: "size M < 5" and p: "0 < len \<Longrightarrow> mappable (pte env a) st"
  shows "(\<exists>st'. map_buffer env len a g = (set_pt st' g, Inr (if 0 < len then a else 0)) \<and>
       holds_sections (buffer_sections env len a + M) st (set_pt st' g)) \<or>
     (\<exists>e. map_buffer env len a g = (g, Inl e))"
proof (cases "0 < len")
  case True
  then show ?thesis using map_ns_holds[OF mo d h sz p[OF True]] by (simp add: map_buffer_def buffer_sections_def)
next
  case False
  then show ?thesis using h by (auto simp: map_buffer_def buffer_sections_def intro!: exI[of _ "pt (kern g)"])
qed

lemma map_buffer_success:
  assumes mo: "malloc_ok (penv env)" and d: "distinct (map fst (page_refs st))" and h: "holds_sections M st g"
    and sz: "size M < 5" and p: "0 < len \<Longrightarrow> ns_section 5 (pte env a) st"
  shows "\<exists>st'. map_buffer env len a g = (set_pt st' g, Inr (if 0 < len then a else 0)) \<and>
       holds_sections (buffer_sections env len a + M) st (set_pt st' g)"
proof (cases "0 < len")
  case True
  then show ?thesis using map_ns_success[OF mo d h sz p[OF True]] by (simp add: map_buffer_def buffer_sections_def)
next
  case False
  then show ?thesis using h by (auto simp: map_buffer_def buffer_sections_def intro!: exI[of _ "pt (kern g)"])
qed

lemma unmap_buffer_holds:
  assumes d: "distinct (map fst (page_refs st))" and h: "holds_sections (buffer_sections env len a + M) st g"
    and nz: "0 < len \<Longrightarrow> a \<noteq> 0" and sz: "size M < 5"
  shows "holds_sections M st (unmap_ns env (if 0 < len then a else 0) g)"
proof (cases "0 < len")
  case True
  then show ?thesis using unmap_cmd_holds[OF d h, of env a] nz sz by (simp add: buffer_sections_def unmap_ns_cmd)
next
  case False
  then show ?thesis using h by (simp add: buffer_sections_def unmap_ns_cmd)
qed

lemma release_buffers_holds:
  assumes d: "distinct (map fst (page_refs st))"
    and h: "holds_sections (buffer_sections env l1 a1 + (buffer_sections env l2 a2 + (buffer_sections env l3 a3 + {#pte env cmd#}))) st g"
    and nz: "0 < l1 \<Longrightarrow> a1 \<noteq> 0" "0 < l2 \<Longrightarrow> a2 \<noteq> 0" "0 < l3 \<Longrightarrow> a3 \<noteq> 0"
  shows "pt (kern (release_buffers env cmd (if 0 < l1 then a1 else 0) (if 0 < l2 then a2 else 0) (if 0 < l3 then a3 else 0) g)) = st"
proof -
  have sz: "size (buffer_sections env l a) \<le> 1" for l a by (simp add: buffer_sections_def)
  have sz3: "size (buffer_sections env l2 a2 + (buffer_sections env l3 a3 + {#pte env cmd#})) < 5"
    using sz[of l2 a2] sz[of l3 a3] by simp
  have sz2: "size (buffer_sections env l3 a3 + {#pte env cmd#}) < 5" using sz[of l3 a3] by simp
  have "holds_sections {#pte env cmd#} st (unmap_ns env (if 0 < l3 then a3 else 0) (unmap_ns env (if 0 < l2 then a2 else 0)
      (unmap_ns env (if 0 < l1 then a1 else 0) g)))"
    using unmap_buffer_holds[OF d unmap_buffer_holds[OF d unmap_buffer_holds[OF d h nz(1) sz3] nz(2) sz2] nz(3)] by simp
  from unmap_cmd_holds[OF d this, of env cmd] show ?thesis
    by (simp add: release_buffers_def holds_nothing)
qed

text \<open>A command of the non-secure world whose addresses can be mapped or fail to.\<close>

definition ns_command :: "api_env \<Rightarrow> u32 \<Rightarrow> api_state \<Rightarrow> bool" where
  "ns_command env cmd g \<longleftrightarrow>
     malloc_ok (penv env) \<and> distinct (map fst (page_refs (pt (kern g)))) \<and> mappable (pte env cmd) (pt (kern g)) \<and>
     (let req = read_word (cmd + req_buf_phys_at) g; res = read_word (cmd + resp_buf_phys_at) g;
          md = read_word (cmd + meta_data_phys_at) g in
      (0 < read_word (cmd + req_buf_len_at) g \<longrightarrow> req \<noteq> 0 \<and> mappable (pte env req) (pt (kern g))) \<and>
      (0 < read_word (cmd + resp_buf_len_at) g \<longrightarrow> res \<noteq> 0 \<and> mappable (pte env res) (pt (kern g))) \<and>
      md \<noteq> 0 \<and> mappable (pte env md) (pt (kern g)))"

lemma call_service_pt:
  assumes "\<And>f c ql rl g. process = Some f \<Longrightarrow> pt (kern (fst (f c req ql res rl md rp g))) = pt (kern g)"
    and "rp = cmd + ret_resp_buf_len_at"
    and "call_service process session cmd req res md g = (g', r, u)"
  shows "pt (kern g') = pt (kern g)" "u \<longleftrightarrow> read_word (cmd + context_at) g = session"
proof -
  show "u \<longleftrightarrow> read_word (cmd + context_at) g = session"
    using assms(3) by (auto simp: call_service_def Let_def split: if_splits prod.splits)
  show "pt (kern g') = pt (kern g)"
    using assms(3) assms(1)[of _ "read_word (cmd + cmd_id_at) g AND 0x3ff" "read_word (cmd + req_buf_len_at) g"
        "read_word (cmd + resp_buf_len_at) g" g]
    unfolding assms(2)
    by (cases process) (auto simp: call_service_def Let_def split: if_splits prod.splits)
qed

lemma process_otzapi_holds:
  assumes c: "ns_command env cmd g" and t: "tls_params t ! 1 = cmd" "tls_params t ! 2 = OTZ_CMD_TYPE_NS_TO_SECURE"
    and f: "\<And>f c q ql s sl m rp g. process = Some f \<Longrightarrow> pt (kern (fst (f c q ql s sl m rp g))) = pt (kern g)"
    and p: "process_otzapi env process session t g = (g', r)"
  shows "pt (kern g') = pt (kern g) \<or> (read_word (cmd + context_at) g \<noteq> session \<and> r = SMC_EINVAL_ARG \<and>
      holds_sections ({#pte env (read_word (cmd + meta_data_phys_at) g)#} +
        (buffer_sections env (read_word (cmd + resp_buf_len_at) g) (read_word (cmd + resp_buf_phys_at) g) +
        (buffer_sections env (read_word (cmd + req_buf_len_at) g) (read_word (cmd + req_buf_phys_at) g) + {#pte env cmd#})))
       (pt (kern g)) g')"
proof (cases "tls_params t = []")
  case True
  then show ?thesis using p by (simp add: process_otzapi_def)
next
  case False
  define st where "st = pt (kern g)"
  define ql where "ql = read_word (cmd + req_buf_len_at) g"
  define q where "q = read_word (cmd + req_buf_phys_at) g"
  define sl where "sl = read_word (cmd + resp_buf_len_at) g"
  define s where "s = read_word (cmd + resp_buf_phys_at) g"
  define md where "md = read_word (cmd + meta_data_phys_at) g"
  note defs = ql_def q_def sl_def s_def md_def
  have mo: "malloc_ok (penv env)" and d: "distinct (map fst (page_refs st))" and mc: "mappable (pte env cmd) st"
    and mq: "0 < ql \<Longrightarrow> q \<noteq> 0 \<and> mappable (pte env q) st" and ms: "0 < sl \<Longrightarrow> s \<noteq> 0 \<and> mappable (pte env s) st"
    and mm: "md \<noteq> 0" "mappable (pte env md) st"
    using c unfolding ns_command_def Let_def st_def defs by auto
  let ?Q = "buffer_sections env ql q" and ?S = "buffer_sections env sl s"
  have sz: "size (buffer_sections env l a) \<le> 1" for l a by (simp add: buffer_sections_def)
  have h0: "holds_sections {#} st g" by (simp add: holds_nothing st_def)
  note unf = process_otzapi_def t t(1)[simplified] False
  consider (ok) st1 where "map_ns env cmd g = (set_pt st1 g, Inr cmd)" "holds_sections {#pte env cmd#} st (set_pt st1 g)"
    | (bad) e where "map_ns env cmd g = (g, Inl e)"
    using map_ns_holds[OF mo d h0 _ mc] by auto
  then show ?thesis
  proof cases
    case bad
    then show ?thesis using p by (simp add: unf)
  next
    case ok
    note m1 = ok
    consider (ok) st2 where "map_buffer env ql q (set_pt st1 g) = (set_pt st2 g, Inr (if 0 < ql then q else 0))"
        "holds_sections (?Q + {#pte env cmd#}) st (set_pt st2 g)"
      | (bad) e where "map_buffer env ql q (set_pt st1 g) = (set_pt st1 g, Inl e)"
      using map_buffer_holds[OF mo d m1(2), of ql q] mq by auto
    then show ?thesis
    proof cases
      case bad
      have "pt (kern (unmap_cmd env cmd (set_pt st1 g))) = st"
        using unmap_cmd_holds[OF d m1(2), of env cmd] by (simp add: holds_nothing)
      then show ?thesis using p m1 bad by (simp add: unf st_def flip: defs)
    next
      case ok
      note m2 = ok
      have sq: "size (?Q + {#pte env cmd#}) < 5" using sz[of ql q] by simp
      consider (ok) st3 where "map_buffer env sl s (set_pt st2 g) = (set_pt st3 g, Inr (if 0 < sl then s else 0))"
          "holds_sections (?S + (?Q + {#pte env cmd#})) st (set_pt st3 g)"
        | (bad) e where "map_buffer env sl s (set_pt st2 g) = (set_pt st2 g, Inl e)"
        using map_buffer_holds[OF mo d m2(2) sq, of sl s] ms by auto
      then show ?thesis
      proof cases
        case bad
        have "pt (kern (release_buffers env cmd (if 0 < ql then q else 0) 0 0 (set_pt st2 g))) = st"
          using release_buffers_holds[OF d, of env ql q 0 0 0 0 cmd "set_pt st2 g"] m2(2) mq by (simp add: buffer_sections_def)
        then show ?thesis using p m1 m2 bad by (simp add: unf st_def flip: defs)
      next
        case ok
        note m3 = ok
        have ss: "size (?S + (?Q + {#pte env cmd#})) < 5" using sz[of ql q] sz[of sl s] by simp
        consider (ok) st4 where "map_ns env md (set_pt st3 g) = (set_pt st4 g, Inr md)"
            "holds_sections (add_mset (pte env md) (?S + (?Q + {#pte env cmd#}))) st (set_pt st4 g)"
          | (bad) e where "map_ns env md (set_pt st3 g) = (set_pt st3 g, Inl e)"
          using map_ns_holds[OF mo d m3(2) ss mm(2)] by auto
        then show ?thesis
        proof cases
          case bad
          have "pt (kern (release_buffers env cmd (if 0 < ql then q else 0) (if 0 < sl then s else 0) 0 (set_pt st3 g))) = st"
            using release_buffers_holds[OF d, of env ql q sl s 0 0 cmd "set_pt st3 g"] m3(2) mq ms
            by (simp add: buffer_sections_def add_mset_commute union_ac)
          then show ?thesis using p m1 m2 m3 bad by (simp add: unf st_def flip: defs)
        next
          case ok
          obtain g5 r5 u where cs: "call_service process session cmd (if 0 < ql then q else 0) (if 0 < sl then s else 0) md (set_pt st4 g) = (g5, r5, u)"
            by (metis prod_cases3)
          have "pt (kern g5) = pt (kern (set_pt st4 g))"
            by (rule call_service_pt(1)[OF _ refl cs]) (rule f)
          moreover have "u \<longleftrightarrow> read_word (cmd + context_at) (set_pt st4 g) = session"
            by (rule call_service_pt(2)[OF _ refl cs]) (rule f)
          ultimately have g5: "pt (kern g5) = st4" "u \<longleftrightarrow> read_word (cmd + context_at) g = session" by simp_all
          then have h5: "holds_sections (add_mset (pte env md) (?S + (?Q + {#pte env cmd#}))) st g5"
            using ok(2) by (simp add: holds_sections_def)
          have res: "(g', r) = (if u then release_buffers env cmd (if 0 < ql then q else 0) (if 0 < sl then s else 0) md g5 else g5, r5)"
            using p m1 m2 m3 ok cs by (simp add: unf flip: defs)
          show ?thesis
          proof (cases u)
            case True
            have "pt (kern (release_buffers env cmd (if 0 < ql then q else 0) (if 0 < sl then s else 0) (if 0 < (1 :: u32) then md else 0) g5)) = st"
              using h5 mq ms mm by (intro release_buffers_holds[OF d]) (simp_all add: buffer_sections_def union_ac)
            then show ?thesis using res True by (simp add: st_def)
          next
            case False
            then have "r5 = SMC_EINVAL_ARG" using cs g5(2) by (simp add: call_service_def)
            then show ?thesis using res False g5(2) h5 by (simp add: st_def add_mset_commute flip: defs)
          qed
        qed
      qed
    qed
  qed
qed

text \<open>A command whose four addresses are non-secure memory.\<close>

definition ns_memory_command :: "api_env \<Rightarrow> u32 \<Rightarrow> api_state \<Rightarrow> bool" where
  "ns_memory_command env cmd g \<longleftrightarrow>
     malloc_ok (penv env) \<and> distinct (map fst (page_refs (pt (kern g)))) \<and> ns_section 5 (pte env cmd) (pt (kern g)) \<and>
     (let req = read_word (cmd + req_buf_phys_at) g; res = read_word (cmd + resp_buf_phys_at) g;
          md = read_word (cmd + meta_data_phys_at) g in
      (0 < read_word (cmd + req_buf_len_at) g \<longrightarrow> req \<noteq> 0 \<and> ns_section 5 (pte env req) (pt (kern g))) \<and>
      (0 < read_word (cmd + resp_buf_len_at) g \<longrightarrow> res \<noteq> 0 \<and> ns_section 5 (pte env res) (pt (kern g))) \<and>
      md \<noteq> 0 \<and> ns_section 5 (pte env md) (pt (kern g)))"

lemma ns_memory_command_ns: "ns_memory_command env cmd g \<Longrightarrow> ns_command env cmd g"
  unfolding ns_memory_command_def ns_command_def mappable_def Let_def by blast

lemma process_otzapi_calls:
  assumes c: "ns_memory_command env cmd g" and t: "tls_params t \<noteq> []" "tls_params t ! 1 = cmd" "tls_params t ! 2 = OTZ_CMD_TYPE_NS_TO_SECURE"
  defines "ql \<equiv> read_word (cmd + req_buf_len_at) g" and "q \<equiv> read_word (cmd + req_buf_phys_at) g"
    and "sl \<equiv> read_word (cmd + resp_buf_len_at) g" and "s \<equiv> read_word (cmd + resp_buf_phys_at) g"
    and "md \<equiv> read_word (cmd + meta_data_phys_at) g"
  shows "\<exists>st'. holds_sections (add_mset (pte env md) (buffer_sections env sl s + (buffer_sections env ql q + {#pte env cmd#})))
       (pt (kern g)) (set_pt st' g) \<and>
     process_otzapi env process session t g =
       (case call_service process session cmd (if 0 < ql then q else 0) (if 0 < sl then s else 0) md (set_pt st' g) of
          (g5, r, u) \<Rightarrow> (if u then release_buffers env cmd (if 0 < ql then q else 0) (if 0 < sl then s else 0) md g5 else g5, r))"
proof -
  define st where "st = pt (kern g)"
  note defs = ql_def q_def sl_def s_def md_def
  have mo: "malloc_ok (penv env)" and d: "distinct (map fst (page_refs st))" and mc: "ns_section 5 (pte env cmd) st"
    and mq: "0 < ql \<Longrightarrow> ns_section 5 (pte env q) st" and ms: "0 < sl \<Longrightarrow> ns_section 5 (pte env s) st"
    and mm: "ns_section 5 (pte env md) st"
    using c unfolding ns_memory_command_def Let_def st_def defs by auto
  let ?Q = "buffer_sections env ql q" and ?S = "buffer_sections env sl s"
  have sz: "size (buffer_sections env l a) \<le> 1" for l a by (simp add: buffer_sections_def)
  have h0: "holds_sections {#} st g" by (simp add: holds_nothing st_def)
  obtain st1 where m1: "map_ns env cmd g = (set_pt st1 g, Inr cmd)" "holds_sections {#pte env cmd#} st (set_pt st1 g)"
    using map_ns_success[OF mo d h0 _ mc] by auto
  obtain st2 where m2: "map_buffer env ql q (set_pt st1 g) = (set_pt st2 g, Inr (if 0 < ql then q else 0))"
    "holds_sections (?Q + {#pte env cmd#}) st (set_pt st2 g)"
    using map_buffer_success[OF mo d m1(2), of ql q] mq by auto
  have sq: "size (?Q + {#pte env cmd#}) < 5" using sz[of ql q] by simp
  obtain st3 where m3: "map_buffer env sl s (set_pt st2 g) = (set_pt st3 g, Inr (if 0 < sl then s else 0))"
    "holds_sections (?S + (?Q + {#pte env cmd#})) st (set_pt st3 g)"
    using map_buffer_success[OF mo d m2(2) sq, of sl s] ms by auto
  have ss: "size (?S + (?Q + {#pte env cmd#})) < 5" using sz[of ql q] sz[of sl s] by simp
  obtain st4 where m4: "map_ns env md (set_pt st3 g) = (set_pt st4 g, Inr md)"
    "holds_sections (add_mset (pte env md) (?S + (?Q + {#pte env cmd#}))) st (set_pt st4 g)"
    using map_ns_success[OF mo d m3(2) ss mm] by auto
  show ?thesis using m1(1) m2(1) m3(1) m4 t t(2)[simplified]
    by (intro exI[of _ st4]) (simp add: process_otzapi_def st_def flip: defs)
qed

lemma words_unmap [simp]: "words (unmap_ns env a g) = words g" "words (unmap_cmd env a g) = words g"
  by (simp_all add: unmap_ns_def unmap_cmd_def)

text \<open>C15. The task of a session serves a command of the non-secure world: when the four addresses of the command are
  non-secure memory and the session is that of the task, the service is called once, in a state in which every
  buffer is mapped, with the low ten bits of the identifier, the buffers, their lengths and the place of the
  response length; its result is returned, and only result 0 marks the command complete.\<close>

theorem process_otzapi_serves:
  assumes "ns_memory_command env cmd g" and "tls_params t \<noteq> []" "tls_params t ! 1 = cmd"
    and "tls_params t ! 2 = OTZ_CMD_TYPE_NS_TO_SECURE" and "read_word (cmd + context_at) g = session"
    and "process_otzapi env (Some f) session t g = (g', r)"
  shows "\<exists>st' g5.
     f (read_word (cmd + cmd_id_at) g AND 0x3ff)
       (if 0 < read_word (cmd + req_buf_len_at) g then read_word (cmd + req_buf_phys_at) g else 0) (read_word (cmd + req_buf_len_at) g)
       (if 0 < read_word (cmd + resp_buf_len_at) g then read_word (cmd + resp_buf_phys_at) g else 0) (read_word (cmd + resp_buf_len_at) g)
       (read_word (cmd + meta_data_phys_at) g) (cmd + ret_resp_buf_len_at) (set_pt st' g) = (g5, r) \<and>
     words g' = (if r = 0 then (words g5)(cmd + cmd_status_at := OTZ_STATUS_COMPLETE) else words g5) \<and>
     holds_sections (add_mset (pte env (read_word (cmd + meta_data_phys_at) g))
        (buffer_sections env (read_word (cmd + resp_buf_len_at) g) (read_word (cmd + resp_buf_phys_at) g) +
        (buffer_sections env (read_word (cmd + req_buf_len_at) g) (read_word (cmd + req_buf_phys_at) g) + {#pte env cmd#})))
       (pt (kern g)) (set_pt st' g)"
proof -
  obtain st' where st': "holds_sections (add_mset (pte env (read_word (cmd + meta_data_phys_at) g))
        (buffer_sections env (read_word (cmd + resp_buf_len_at) g) (read_word (cmd + resp_buf_phys_at) g) +
        (buffer_sections env (read_word (cmd + req_buf_len_at) g) (read_word (cmd + req_buf_phys_at) g) + {#pte env cmd#})))
       (pt (kern g)) (set_pt st' g)"
    "process_otzapi env (Some f) session t g =
       (case call_service (Some f) session cmd
          (if 0 < read_word (cmd + req_buf_len_at) g then read_word (cmd + req_buf_phys_at) g else 0)
          (if 0 < read_word (cmd + resp_buf_len_at) g then read_word (cmd + resp_buf_phys_at) g else 0)
          (read_word (cmd + meta_data_phys_at) g) (set_pt st' g) of
          (g5, r, u) \<Rightarrow> (if u then release_buffers env cmd
            (if 0 < read_word (cmd + req_buf_len_at) g then read_word (cmd + req_buf_phys_at) g else 0)
            (if 0 < read_word (cmd + resp_buf_len_at) g then read_word (cmd + resp_buf_phys_at) g else 0)
            (read_word (cmd + meta_data_phys_at) g) g5 else g5, r))"
    using process_otzapi_calls[OF assms(1-4)] by blast
  show ?thesis
    using st' assms(5,6)
    by (intro exI[of _ st']) (auto simp: call_service_def Let_def release_buffers_def write_word_def split: prod.splits)
qed

text \<open>C16. A command for the session of the task leaves no mapping behind.  The four addresses of the command lie in
  sections that are not mapped, or mapped only for the non-secure world with a reference count that does not
  wrap, or covered by a second-level table, so that mapping them fails (\<open>ns_command\<close>); the kernel's heap has room
  for the list of references (\<open>malloc_ok\<close>), and the service leaves the page tables alone.  Then the page tables and
  the reference counts after the command are those before it, whichever of the four addresses can be mapped, also
  when several lie in one section, and whatever the service returns.  Excluded are sections that the kernel has
  mapped for itself, whose mapping is removed (\<open>request_unmaps_secure_section\<close>), and commands of another session,
  which leave every section mapped (\<open>wrong_session_stays_mapped\<close>).\<close>

theorem command_leaves_no_mapping:
  assumes "ns_command env cmd g" and "tls_params t ! 1 = cmd" "tls_params t ! 2 = OTZ_CMD_TYPE_NS_TO_SECURE"
    and "read_word (cmd + context_at) g = session"
    and "\<And>f c q ql s sl m rp g. process = Some f \<Longrightarrow> pt (kern (fst (f c q ql s sl m rp g))) = pt (kern g)"
  shows "pt (kern (fst (process_otzapi env process session t g))) = pt (kern g)"
proof -
  obtain g' r where p: "process_otzapi env process session t g = (g', r)" by (cases "process_otzapi env process session t g")
  have "pt (kern g') = pt (kern g) \<or> read_word (cmd + context_at) g \<noteq> session"
    using process_otzapi_holds[OF assms(1-3) _ p] assms(5) by blast
  then show ?thesis using assms(4) p by simp
qed

text \<open>With another session the code returns between mapping and unmapping: every section stays mapped.\<close>

theorem wrong_session_stays_mapped:
  assumes "ns_memory_command env cmd g" and "tls_params t \<noteq> []" "tls_params t ! 1 = cmd"
    and "tls_params t ! 2 = OTZ_CMD_TYPE_NS_TO_SECURE" and "read_word (cmd + context_at) g \<noteq> session"
  shows "snd (process_otzapi env process session t g) = SMC_EINVAL_ARG \<and>
     holds_sections (add_mset (pte env (read_word (cmd + meta_data_phys_at) g))
        (buffer_sections env (read_word (cmd + resp_buf_len_at) g) (read_word (cmd + resp_buf_phys_at) g) +
        (buffer_sections env (read_word (cmd + req_buf_len_at) g) (read_word (cmd + req_buf_phys_at) g) + {#pte env cmd#})))
       (pt (kern g)) (fst (process_otzapi env process session t g))"
  using process_otzapi_calls[OF assms(1-4), of process session] assms(5) by (auto simp: call_service_def)

definition demo_cmd_env :: api_env where
  "demo_cmd_env = demo_api_env\<lparr>penv := demo_env\<rparr>"

text \<open>Command 5 of service 2 for session 17; two of the four addresses lie in one section.\<close>

definition demo_cmd_api :: api_state where
  "demo_cmd_api = set_pt demo_pt (demo_api\<lparr>words := (\<lambda>_. 0)
     (0x3F000100 := 2053, 0x3F000104 := 17, 0x3F000114 := 8, 0x3F000118 := 8, 0x3F000124 := 0x3F001000,
      0x3F000128 := 0x3F102000, 0x3F00012C := 0x3F202000)\<rparr>)"

definition demo_cmd_tls :: sw_tls where
  "demo_cmd_tls = (tls (demo_task 17 TASK_STATE_SUSPEND))\<lparr>tls_params := [1, 0x3F000100, 1, 0]\<rparr>"

definition demo_service :: service where
  "demo_service c q ql s sl m rp g = (write_word rp c g, 0)"

lemma demo_cmd_facts:
  "ns_memory_command demo_cmd_env 0x3F000100 demo_cmd_api"
  "tls_params demo_cmd_tls \<noteq> []" "tls_params demo_cmd_tls ! 1 = 0x3F000100"
  "tls_params demo_cmd_tls ! 2 = OTZ_CMD_TYPE_NS_TO_SECURE" "read_word (0x3F000100 + context_at) demo_cmd_api = 17"
proof -
  have "pt (kern demo_cmd_api) = demo_pt" "page_refs demo_pt = []" "malloc_ok (penv demo_cmd_env)"
    by (simp_all add: demo_cmd_api_def demo_pt_def demo_cmd_env_def demo_env_def)
  then show "ns_memory_command demo_cmd_env 0x3F000100 demo_cmd_api"
    by (simp add: ns_memory_command_def ns_section_def Let_def req_buf_phys_at_def resp_buf_phys_at_def
        meta_data_phys_at_def req_buf_len_at_def resp_buf_len_at_def read_word_def demo_cmd_api_def set_pt_def)
qed (simp_all add: demo_cmd_tls_def OTZ_CMD_TYPE_NS_TO_SECURE_def read_word_def demo_cmd_api_def set_pt_def context_at_def)

theorem process_otzapi_serves_witness:
  "\<exists>st' g5. demo_service 5 0x3F001000 8 0x3F102000 8 0x3F202000 0x3F00011C (set_pt st' demo_cmd_api) =
       (g5, snd (process_otzapi demo_cmd_env (Some demo_service) 17 demo_cmd_tls demo_cmd_api))"
proof -
  have w: "read_word (0x3F000100 + req_buf_len_at) demo_cmd_api = 8" "read_word (0x3F000100 + resp_buf_len_at) demo_cmd_api = 8"
    "read_word (0x3F000100 + req_buf_phys_at) demo_cmd_api = 0x3F001000" "read_word (0x3F000100 + resp_buf_phys_at) demo_cmd_api = 0x3F102000"
    "read_word (0x3F000100 + meta_data_phys_at) demo_cmd_api = 0x3F202000" "read_word (0x3F000100 + cmd_id_at) demo_cmd_api = 2053"
    by (simp_all add: req_buf_phys_at_def resp_buf_phys_at_def meta_data_phys_at_def req_buf_len_at_def resp_buf_len_at_def
        cmd_id_at_def read_word_def demo_cmd_api_def set_pt_def)
  obtain g' r where p: "process_otzapi demo_cmd_env (Some demo_service) 17 demo_cmd_tls demo_cmd_api = (g', r)" by fastforce
  have b: "(2053 :: u32) AND 1023 = 5" by simp
  have rp: "0x3F000100 + ret_resp_buf_len_at = 0x3F00011C" by (simp add: ret_resp_buf_len_at_def)
  show ?thesis using process_otzapi_serves[OF demo_cmd_facts p] unfolding w rp p b by auto
qed

theorem command_leaves_no_mapping_witness:
  "pt (kern (fst (process_otzapi demo_cmd_env (Some demo_service) 17 demo_cmd_tls demo_cmd_api))) = demo_pt"
  using command_leaves_no_mapping[OF ns_memory_command_ns[OF demo_cmd_facts(1)] demo_cmd_facts(3-5), of "Some demo_service"]
  by (simp add: demo_service_def) (simp add: demo_cmd_api_def)

end
