(* ===== verification/Driver.thy ===== *)
theory Driver
  imports Codec
begin

text \<open>
  The client driver of the non-secure Linux kernel, \<^verbatim>\<open>otz_driver/otz_client_main.c\<close> (paths of this theory are
  relative to \<^verbatim>\<open>trustzone/tzone_sdk\<close>), for the Cortex-A9 build without asynchronous notification and kernel
  integrity monitor.  Every open file has the services, a service its sessions, a session its encode
  contexts and shared buffers; a context holds two 1K buffers and the descriptors of a command.  The
  intrusive lists are lists in their order; an object that the code also passes around as a number (an
  encode context, the buffers of an SMC) carries its address.  \<open>vmem\<close> is the one address space of the kernel
  and the current process.  What \<^verbatim>\<open>kmalloc\<close> and the page allocator answer, how much of a user range can be
  accessed and what the secure world does to the memory and the descriptors in its \<open>n\<close>-th call are
  parameters.  \<open>None\<close> stands for a fault in the kernel, or for the head of the list of files being written as if
  it was a file (\<^verbatim>\<open>otz_client_mmap\<close> for a file that is not listed).
\<close>

section \<open>State\<close>

record otzc_shared_mem =
  sm_at :: u32
  index :: u32
  k_addr :: u32
  u_addr :: u32
  sm_len :: u32

record otzc_encode =
  encode_id :: u32
  ker_req_data_addr :: u32
  ker_res_data_addr :: u32
  req_off :: u32
  res_off :: u32
  req_pos :: u32
  res_pos :: u32
  dec_pos :: u32
  dec_off :: u32
  meta_at :: u32
  meta :: "int \<Rightarrow> otzc_encode_meta"

record otzc_session =
  ses_at :: u32
  session_id :: u32
  encode_list :: "otzc_encode list"
  ses_shared :: "otzc_shared_mem list"

record otzc_service =
  svc_at :: u32
  service_id :: u32
  sessions :: "otzc_session list"

record otzc_dev_file =
  df_at :: u32
  dev_file_id :: u32
  service_cnt :: nat
  services :: "otzc_service list"
  shared_mem_cnt :: int
  dev_shared :: "otzc_shared_mem list"

text \<open>What is passed to the secure world, \<^verbatim>\<open>struct otz_smc_cmd\<close>.\<close>

record otz_smc_cmd =
  smc_id :: u32
  smc_context :: u32
  smc_enc_id :: u32
  src_id :: u32
  src_context :: u32
  req_buf_len :: u32
  resp_buf_len :: u32
  req_buf_phys :: u32
  resp_buf_phys :: u32
  meta_data_phys :: u32
  smc_dev_file_id :: u32

record driver =
  dev_files :: "otzc_dev_file list"
  dev_file_cnt :: nat
  device_file_cnt :: u32
  vmem :: bytes
  kmallocs :: "u32 list"
  kfreed :: "u32 list"
  page_answers :: "u32 list"
  pages_freed :: "(u32 \<times> u32) list"
  smc_log :: "otz_smc_cmd list"

text \<open>\<open>copyable a n\<close> is how many of the \<open>n\<close> bytes from \<open>a\<close> on can be copied from or to the user, \<open>valid a\<close> that the
  kernel can access the word at \<open>a\<close>; \<open>stack_at\<close> is where \<^verbatim>\<open>otz_client_session_open\<close> keeps its argument.\<close>

record drv_env =
  virt_to_phys :: "u32 \<Rightarrow> u32"
  copyable :: "u32 \<Rightarrow> u32 \<Rightarrow> u32"
  valid :: "u32 \<Rightarrow> bool"
  secure :: "nat \<Rightarrow> otz_smc_cmd \<Rightarrow> bytes \<Rightarrow> (int \<Rightarrow> otzc_encode_meta) \<Rightarrow> bytes \<times> (int \<Rightarrow> otzc_encode_meta) \<times> u32 \<times> u32"
  fresh_meta :: "int \<Rightarrow> otzc_encode_meta"
  tgid :: u32
  stack_at :: u32
  remap_ok :: bool

text \<open>The arguments of the ioctls.\<close>

record otz_client_encode_cmd =
  c_len :: u32
  c_data :: u32
  c_offset :: u32
  c_flags :: u32
  c_param :: otzc_param_type
  c_encode_id :: u32
  c_service :: u32
  c_session :: u32
  c_cmd :: u32

record ser_ses_id =
  so_service :: u32
  so_session :: u32

record otz_session_shared_mem_info =
  mi_service :: u32
  mi_session :: u32
  user_mem_addr :: u32

definition EINVAL :: int where "EINVAL = 22"
definition ENOMEM :: int where "ENOMEM = 12"
definition EFAULT :: int where "EFAULT = 14"
definition EAGAIN :: int where "EAGAIN = 11"

definition GLOBAL_SVC :: u32 where "GLOBAL_SVC = 1"
definition CMD_OPEN_SESSION :: u32 where "CMD_OPEN_SESSION = 2"
definition CMD_CLOSE_SESSION :: u32 where "CMD_CLOSE_SESSION = 3"

section \<open>Lists of entries\<close>

fun upd_first :: "('a \<Rightarrow> bool) \<Rightarrow> ('a \<Rightarrow> 'a) \<Rightarrow> 'a list \<Rightarrow> 'a list" where
  "upd_first P f [] = []"
| "upd_first P f (x # xs) = (if P x then f x # xs else x # upd_first P f xs)"

fun del_first :: "('a \<Rightarrow> bool) \<Rightarrow> 'a list \<Rightarrow> 'a list" where
  "del_first P [] = []"
| "del_first P (x # xs) = (if P x then xs else x # del_first P xs)"

definition find_dev :: "u32 \<Rightarrow> driver \<Rightarrow> otzc_dev_file option" where
  "find_dev dev s = List.find (\<lambda>d. dev_file_id d = dev) (dev_files s)"

definition upd_dev :: "u32 \<Rightarrow> (otzc_dev_file \<Rightarrow> otzc_dev_file) \<Rightarrow> driver \<Rightarrow> driver" where
  "upd_dev dev f s = s\<lparr>dev_files := upd_first (\<lambda>d. dev_file_id d = dev) f (dev_files s)\<rparr>"

definition find_svc :: "u32 \<Rightarrow> u32 \<Rightarrow> driver \<Rightarrow> otzc_service option" where
  "find_svc dev svc s = Option.bind (find_dev dev s) (\<lambda>d. List.find (\<lambda>v. service_id v = svc) (services d))"

definition upd_svc :: "u32 \<Rightarrow> u32 \<Rightarrow> (otzc_service \<Rightarrow> otzc_service) \<Rightarrow> driver \<Rightarrow> driver" where
  "upd_svc dev svc f = upd_dev dev (\<lambda>d. d\<lparr>services := upd_first (\<lambda>v. service_id v = svc) f (services d)\<rparr>)"

text \<open>The search that starts most operations: the first file with the identifier, in it the first such service,
  in it the first such session.\<close>

definition find_ses :: "u32 \<Rightarrow> u32 \<Rightarrow> u32 \<Rightarrow> driver \<Rightarrow> otzc_session option" where
  "find_ses dev svc ses s = Option.bind (find_svc dev svc s) (\<lambda>v. List.find (\<lambda>x. session_id x = ses) (sessions v))"

definition upd_ses :: "u32 \<Rightarrow> u32 \<Rightarrow> u32 \<Rightarrow> (otzc_session \<Rightarrow> otzc_session) \<Rightarrow> driver \<Rightarrow> driver" where
  "upd_ses dev svc ses f = upd_svc dev svc (\<lambda>v. v\<lparr>sessions := upd_first (\<lambda>x. session_id x = ses) f (sessions v)\<rparr>)"

definition find_enc :: "u32 \<Rightarrow> u32 \<Rightarrow> u32 \<Rightarrow> u32 \<Rightarrow> driver \<Rightarrow> otzc_encode option" where
  "find_enc dev svc ses e s = Option.bind (find_ses dev svc ses s) (\<lambda>x. List.find (\<lambda>c. encode_id c = e) (encode_list x))"

definition upd_enc :: "u32 \<Rightarrow> u32 \<Rightarrow> u32 \<Rightarrow> u32 \<Rightarrow> (otzc_encode \<Rightarrow> otzc_encode) \<Rightarrow> driver \<Rightarrow> driver" where
  "upd_enc dev svc ses e f = upd_ses dev svc ses (\<lambda>x. x\<lparr>encode_list := upd_first (\<lambda>c. encode_id c = e) f (encode_list x)\<rparr>)"

section \<open>Memory\<close>

definition kmalloc :: "driver \<Rightarrow> u32 \<times> driver" where
  "kmalloc s = (case kmallocs s of [] \<Rightarrow> (0, s) | a # as \<Rightarrow> (a, s\<lparr>kmallocs := as\<rparr>))"

definition kfree :: "u32 \<Rightarrow> driver \<Rightarrow> driver" where
  "kfree a s = s\<lparr>kfreed := kfreed s @ [a]\<rparr>"

definition ROUND_UP :: "u32 \<Rightarrow> u32 \<Rightarrow> u32" where
  "ROUND_UP n sz = ((n + sz - 1) div sz) * sz"

definition get_free_pages :: "driver \<Rightarrow> u32 \<times> driver" where
  "get_free_pages s = (case page_answers s of [] \<Rightarrow> (0, s) | a # as \<Rightarrow> (a, s\<lparr>page_answers := as\<rparr>))"

definition free_pages :: "u32 \<Rightarrow> u32 \<Rightarrow> driver \<Rightarrow> driver" where
  "free_pages a len s = s\<lparr>pages_freed := pages_freed s @ [(a, ROUND_UP len 4096)]\<rparr>"

text \<open>What cannot be read is filled with zeros; the result tells success.\<close>

definition copy_from_user :: "drv_env \<Rightarrow> u32 \<Rightarrow> u32 \<Rightarrow> u32 \<Rightarrow> driver \<Rightarrow> driver \<times> bool" where
  "copy_from_user env to from n s =
     (s\<lparr>vmem := (\<lambda>x. if x - to < n then if x - to < copyable env from n then vmem s (from + (x - to)) else 0 else vmem s x)\<rparr>,
      n \<le> copyable env from n)"

definition copy_to_user :: "drv_env \<Rightarrow> u32 \<Rightarrow> u32 \<Rightarrow> u32 \<Rightarrow> driver \<Rightarrow> driver \<times> bool" where
  "copy_to_user env to from n s =
     (s\<lparr>vmem := (\<lambda>x. if x - to < n \<and> x - to < copyable env to n then vmem s (from + (x - to)) else vmem s x)\<rparr>,
      n \<le> copyable env to n)"

section \<open>The call of the secure world\<close>

definition smc_cmd_of ::
    "drv_env \<Rightarrow> u32 \<Rightarrow> u32 \<Rightarrow> u32 \<Rightarrow> u32 \<Rightarrow> u32 \<Rightarrow> u32 \<Rightarrow> u32 \<Rightarrow> u32 \<Rightarrow> u32 \<Rightarrow> u32 \<Rightarrow> otz_smc_cmd" where
  "smc_cmd_of env dev svc_id cmd_id context enc_id cmd_buf cmd_len resp_buf resp_len meta_data =
     \<lparr>smc_id = push_bit 10 svc_id OR cmd_id, smc_context = context, smc_enc_id = enc_id,
      src_id = push_bit 10 svc_id OR cmd_id, src_context = tgid env,
      req_buf_len = cmd_len, resp_buf_len = resp_len,
      req_buf_phys = (if cmd_buf \<noteq> 0 then virt_to_phys env cmd_buf else 0),
      resp_buf_phys = (if resp_buf \<noteq> 0 then virt_to_phys env resp_buf else 0),
      meta_data_phys = (if meta_data \<noteq> 0 then virt_to_phys env meta_data else 0),
      smc_dev_file_id = dev\<rparr>"

text \<open>The results are the descriptors, the value to return and the length of the response.\<close>

definition otz_smc_call ::
    "drv_env \<Rightarrow> u32 \<Rightarrow> u32 \<Rightarrow> u32 \<Rightarrow> u32 \<Rightarrow> u32 \<Rightarrow> u32 \<Rightarrow> u32 \<Rightarrow> u32 \<Rightarrow> u32 \<Rightarrow> u32 \<Rightarrow>
     (int \<Rightarrow> otzc_encode_meta) \<Rightarrow> driver \<Rightarrow> driver \<times> (int \<Rightarrow> otzc_encode_meta) \<times> int \<times> u32" where
  "otz_smc_call env dev svc_id cmd_id context enc_id cmd_buf cmd_len resp_buf resp_len meta_data m s =
     (case kmalloc s of (a, s1) \<Rightarrow>
        if a = 0 then (s1, m, - ENOMEM, 0)
        else let cmd = smc_cmd_of env dev svc_id cmd_id context enc_id cmd_buf cmd_len resp_buf resp_len meta_data in
          case secure env (length (smc_log s1)) cmd (vmem s1) m of (mem', m', r, rl) \<Rightarrow>
            (kfree a (s1\<lparr>vmem := mem', smc_log := smc_log s1 @ [cmd]\<rparr>), m', sint r, if r = 0 then rl else 0))"

section \<open>Encode contexts\<close>

definition new_context :: "drv_env \<Rightarrow> u32 \<Rightarrow> u32 \<Rightarrow> otzc_encode" where
  "new_context env a m =
     \<lparr>encode_id = a, ker_req_data_addr = 0, ker_res_data_addr = 0, req_off = 0, res_off = 0, req_pos = 0,
      res_pos = OTZ_MAX_REQ_PARAMS, dec_pos = OTZ_MAX_REQ_PARAMS, dec_off = 0, meta_at = m, meta = fresh_meta env\<rparr>"

text \<open>The command is returned with the identifier of its context, \<open>- 1\<close> standing for none.\<close>

definition prepare_encode ::
    "drv_env \<Rightarrow> u32 \<Rightarrow> otz_client_encode_cmd \<Rightarrow> driver \<Rightarrow> driver \<times> otz_client_encode_cmd \<times> int" where
  "prepare_encode env dev enc s =
     (case find_ses dev (c_service enc) (c_session enc) s of
        None \<Rightarrow> (s, enc, - EINVAL)
      | Some _ \<Rightarrow>
          if c_encode_id enc \<noteq> - 1 \<and> find_enc dev (c_service enc) (c_session enc) (c_encode_id enc) s \<noteq> None
          then (s, enc, 0)
          else case kmalloc s of (a, s1) \<Rightarrow>
            if a = 0 then (s1, enc, - ENOMEM)
            else case kmalloc s1 of (m, s2) \<Rightarrow>
              if m = 0 then (kfree a s2, enc, - ENOMEM)
              else (upd_ses dev (c_service enc) (c_session enc)
                      (\<lambda>x. x\<lparr>encode_list := encode_list x @ [new_context env a m]\<rparr>) s2,
                    enc\<lparr>c_encode_id := a\<rparr>, 0))"

definition prepare_decode :: "u32 \<Rightarrow> otz_client_encode_cmd \<Rightarrow> driver \<Rightarrow> otzc_encode option" where
  "prepare_decode dev dec s =
     (if c_encode_id dec \<noteq> - 1 then find_enc dev (c_service dec) (c_session dec) (c_encode_id dec) s else None)"

text \<open>The context of a command, and an update of it.\<close>

definition cmd_ctx :: "u32 \<Rightarrow> otz_client_encode_cmd \<Rightarrow> driver \<Rightarrow> otzc_encode" where
  "cmd_ctx dev enc s = the (find_enc dev (c_service enc) (c_session enc) (c_encode_id enc) s)"

definition upd_ctx :: "u32 \<Rightarrow> otz_client_encode_cmd \<Rightarrow> (otzc_encode \<Rightarrow> otzc_encode) \<Rightarrow> driver \<Rightarrow> driver" where
  "upd_ctx dev enc f = upd_enc dev (c_service enc) (c_session enc) (c_encode_id enc) f"

text \<open>The buffers are allocated at the first parameter.\<close>

definition req_buffer :: "u32 \<Rightarrow> otz_client_encode_cmd \<Rightarrow> driver \<Rightarrow> driver \<times> bool" where
  "req_buffer dev enc s =
     (if ker_req_data_addr (cmd_ctx dev enc s) \<noteq> 0 then (s, True)
      else case kmalloc s of (a, s1) \<Rightarrow>
        (upd_ctx dev enc (\<lambda>c. c\<lparr>ker_req_data_addr := a\<rparr>) s1, a \<noteq> 0))"

definition res_buffer :: "u32 \<Rightarrow> otz_client_encode_cmd \<Rightarrow> driver \<Rightarrow> driver \<times> bool" where
  "res_buffer dev enc s =
     (if ker_res_data_addr (cmd_ctx dev enc s) \<noteq> 0 then (s, True)
      else case kmalloc s of (a, s1) \<Rightarrow>
        (upd_ctx dev enc (\<lambda>c. c\<lparr>ker_res_data_addr := a\<rparr>) s1, a \<noteq> 0))"

text \<open>Room for a parameter of \<open>n\<close> bytes; the sum may wrap.\<close>

definition req_room :: "u32 \<Rightarrow> otzc_encode \<Rightarrow> bool" where
  "req_room n c \<longleftrightarrow> req_off c + n \<le> OTZ_1K_SIZE \<and> req_pos c < OTZ_MAX_REQ_PARAMS"

definition res_room :: "u32 \<Rightarrow> otzc_encode \<Rightarrow> bool" where
  "res_room n c \<longleftrightarrow> res_off c + n \<le> OTZ_1K_SIZE \<and> res_pos c < OTZ_MAX_RES_PARAMS + OTZ_MAX_REQ_PARAMS"

definition push_req :: "u32 \<Rightarrow> (otzc_encode_meta \<Rightarrow> otzc_encode_meta) \<Rightarrow> otzc_encode \<Rightarrow> otzc_encode" where
  "push_req n f c = c\<lparr>req_off := req_off c + n, meta := (meta c)(uint (req_pos c) := f (meta c (uint (req_pos c)))),
     req_pos := req_pos c + 1\<rparr>"

definition push_res :: "u32 \<Rightarrow> (otzc_encode_meta \<Rightarrow> otzc_encode_meta) \<Rightarrow> otzc_encode \<Rightarrow> otzc_encode" where
  "push_res n f c = c\<lparr>res_off := res_off c + n, meta := (meta c)(uint (res_pos c) := f (meta c (uint (res_pos c)))),
     res_pos := res_pos c + 1\<rparr>"

section \<open>Encoding\<close>

text \<open>The word is read through the user's pointer without a check of the address.\<close>

definition uint32_in :: "drv_env \<Rightarrow> u32 \<Rightarrow> otz_client_encode_cmd \<Rightarrow> driver \<Rightarrow> (driver \<times> int) option" where
  "uint32_in env dev enc s =
     (case req_buffer dev enc s of (s1, ok) \<Rightarrow>
        if \<not> ok then Some (s1, - ENOMEM)
        else let c = cmd_ctx dev enc s1 in
          if req_room 4 c
          then if valid env (c_data enc)
            then Some (upd_ctx dev enc (push_req 4 (\<lambda>m. m\<lparr>mtype := OTZ_ENC_UINT32, mlen := 4\<rparr>))
                  (s1\<lparr>vmem := store32 (ker_req_data_addr c + req_off c) (load32 (vmem s1) (c_data enc)) (vmem s1)\<rparr>), 0)
            else None
          else Some (s1, - ENOMEM))"

definition uint32_out :: "u32 \<Rightarrow> otz_client_encode_cmd \<Rightarrow> driver \<Rightarrow> driver \<times> int" where
  "uint32_out dev enc s =
     (case res_buffer dev enc s of (s1, ok) \<Rightarrow>
        if \<not> ok then (s1, - ENOMEM)
        else if res_room 4 (cmd_ctx dev enc s1)
        then (upd_ctx dev enc (push_res 4 (\<lambda>m. m\<lparr>usr_addr := c_data enc, mtype := OTZ_ENC_UINT32, mlen := 4\<rparr>)) s1, 0)
        else (s1, - ENOMEM))"

text \<open>The flags tell whether the argument of the ioctl can be read and written; the result includes the
  argument afterwards.\<close>

definition encode_uint32 ::
    "drv_env \<Rightarrow> u32 \<Rightarrow> bool \<times> bool \<Rightarrow> otz_client_encode_cmd \<Rightarrow> driver \<Rightarrow> (driver \<times> otz_client_encode_cmd \<times> int) option" where
  "encode_uint32 env dev rw enc s =
     (if \<not> fst rw then Some (s, enc, - EFAULT)
      else case prepare_encode env dev enc s of (s1, enc1, r) \<Rightarrow>
        if r \<noteq> 0 then Some (s1, enc, r)
        else map_option (\<lambda>(s2, r2). if snd rw then (s2, enc1, r2) else (s2, enc, - EFAULT))
          (case c_param enc of
             OTZC_PARAM_IN \<Rightarrow> uint32_in env dev enc1 s1
           | OTZC_PARAM_OUT \<Rightarrow> Some (uint32_out dev enc1 s1)
           | Other_Param \<Rightarrow> Some (s1, 0)))"

definition array_in :: "drv_env \<Rightarrow> u32 \<Rightarrow> otz_client_encode_cmd \<Rightarrow> driver \<Rightarrow> driver \<times> int" where
  "array_in env dev enc s =
     (case req_buffer dev enc s of (s1, ok) \<Rightarrow>
        if \<not> ok then (s1, - ENOMEM)
        else let c = cmd_ctx dev enc s1 in
          if req_room (c_len enc) c
          then case copy_from_user env (ker_req_data_addr c + req_off c) (c_data enc) (c_len enc) s1 of (s2, all_copied) \<Rightarrow>
            if \<not> all_copied then (s2, - EFAULT)
            else (upd_ctx dev enc (push_req (c_len enc) (\<lambda>m. m\<lparr>mtype := OTZ_ENC_ARRAY, mlen := c_len enc\<rparr>)) s2, 0)
          else (s1, - ENOMEM))"

definition array_out :: "u32 \<Rightarrow> otz_client_encode_cmd \<Rightarrow> driver \<Rightarrow> driver \<times> int" where
  "array_out dev enc s =
     (case res_buffer dev enc s of (s1, ok) \<Rightarrow>
        if \<not> ok then (s1, - ENOMEM)
        else if res_room (c_len enc) (cmd_ctx dev enc s1)
        then (upd_ctx dev enc
                (push_res (c_len enc) (\<lambda>m. m\<lparr>usr_addr := c_data enc, mtype := OTZ_ENC_ARRAY, mlen := c_len enc\<rparr>)) s1, 0)
        else (s1, - ENOMEM))"

definition encode_array ::
    "drv_env \<Rightarrow> u32 \<Rightarrow> bool \<times> bool \<Rightarrow> otz_client_encode_cmd \<Rightarrow> driver \<Rightarrow> driver \<times> otz_client_encode_cmd \<times> int" where
  "encode_array env dev rw enc s =
     (if \<not> fst rw then (s, enc, - EFAULT)
      else case prepare_encode env dev enc s of (s1, enc1, r) \<Rightarrow>
        if r \<noteq> 0 then (s1, enc, r)
        else case (case c_param enc of
             OTZC_PARAM_IN \<Rightarrow> array_in env dev enc1 s1
           | OTZC_PARAM_OUT \<Rightarrow> array_out dev enc1 s1
           | Other_Param \<Rightarrow> (s1, 0)) of
          (s2, r2) \<Rightarrow> if snd rw then (s2, enc1, r2) else (s2, enc, - EFAULT))"

text \<open>The shared buffer is searched in the session, then in the file.  As in the secure world, the byte offset
  is added to a word pointer.\<close>

definition find_shared :: "u32 \<Rightarrow> otz_client_encode_cmd \<Rightarrow> driver \<Rightarrow> otzc_shared_mem option" where
  "find_shared dev enc s =
     (case Option.bind (find_ses dev (c_service enc) (c_session enc) s)
        (\<lambda>x. List.find (\<lambda>b. index b = c_data enc) (ses_shared x)) of
        Some b \<Rightarrow> Some b
      | None \<Rightarrow> Option.bind (find_dev dev s) (\<lambda>d. List.find (\<lambda>b. index b = c_data enc) (dev_shared d)))"

definition mem_ref_in :: "drv_env \<Rightarrow> u32 \<Rightarrow> otzc_shared_mem \<Rightarrow> otz_client_encode_cmd \<Rightarrow> driver \<Rightarrow> driver \<times> int" where
  "mem_ref_in env dev b enc s =
     (case req_buffer dev enc s of (s1, ok) \<Rightarrow>
        if \<not> ok then (s1, - ENOMEM)
        else let c = cmd_ctx dev enc s1 in
          if req_room 4 c
          then (upd_ctx dev enc
                  (push_req 4 (\<lambda>m. m\<lparr>usr_addr := u_addr b + c_offset enc, mtype := OTZ_MEM_REF, mlen := c_len enc\<rparr>))
                  (s1\<lparr>vmem := store32 (ker_req_data_addr c + 4 * req_off c) (virt_to_phys env (k_addr b + c_offset enc)) (vmem s1)\<rparr>), 0)
          else (s1, - ENOMEM))"

definition mem_ref_out :: "drv_env \<Rightarrow> u32 \<Rightarrow> otzc_shared_mem \<Rightarrow> otz_client_encode_cmd \<Rightarrow> driver \<Rightarrow> driver \<times> int" where
  "mem_ref_out env dev b enc s =
     (case res_buffer dev enc s of (s1, ok) \<Rightarrow>
        if \<not> ok then (s1, - ENOMEM)
        else let c = cmd_ctx dev enc s1 in
          if res_room 4 c
          then (upd_ctx dev enc
                  (push_res 4 (\<lambda>m. m\<lparr>usr_addr := u_addr b + c_offset enc, mtype := OTZ_MEM_REF, mlen := c_len enc\<rparr>))
                  (s1\<lparr>vmem := store32 (ker_res_data_addr c + 4 * res_off c) (virt_to_phys env (k_addr b + c_offset enc)) (vmem s1)\<rparr>), 0)
          else (s1, - ENOMEM))"

definition kernel_encode_mem_ref ::
    "drv_env \<Rightarrow> u32 \<Rightarrow> otz_client_encode_cmd \<Rightarrow> driver \<Rightarrow> driver \<times> otz_client_encode_cmd \<times> int" where
  "kernel_encode_mem_ref env dev enc s =
     (case prepare_encode env dev enc s of (s1, enc1, r) \<Rightarrow>
        if r \<noteq> 0 then (s1, enc1, r)
        else case find_shared dev enc1 s1 of
            None \<Rightarrow> (s1, enc1, - EINVAL)
          | Some b \<Rightarrow>
              (case (case c_param enc of
                 OTZC_PARAM_IN \<Rightarrow> mem_ref_in env dev b enc1 s1
               | OTZC_PARAM_OUT \<Rightarrow> mem_ref_out env dev b enc1 s1
               | Other_Param \<Rightarrow> (s1, 0)) of
                (s2, r2) \<Rightarrow> (s2, enc1, r2)))"

definition encode_mem_ref ::
    "drv_env \<Rightarrow> u32 \<Rightarrow> bool \<times> bool \<Rightarrow> otz_client_encode_cmd \<Rightarrow> driver \<Rightarrow> driver \<times> otz_client_encode_cmd \<times> int" where
  "encode_mem_ref env dev rw enc s =
     (if \<not> fst rw then (s, enc, - EFAULT)
      else case kernel_encode_mem_ref env dev enc s of (s1, enc1, r) \<Rightarrow>
        if c_encode_id enc1 = - 1 then (s1, enc, r)
        else if snd rw then (s1, enc1, r) else (s1, enc, - EFAULT))"

section \<open>Decoding\<close>

text \<open>The guard on the position admits one position too many.\<close>

definition dec_ok :: "otzc_encode \<Rightarrow> bool" where
  "dec_ok c \<longleftrightarrow> dec_pos c \<le> res_pos c"

definition dec_meta :: "otzc_encode \<Rightarrow> otzc_encode_meta" where
  "dec_meta c = meta c (uint (dec_pos c))"

definition advance :: "u32 \<Rightarrow> otzc_encode \<Rightarrow> otzc_encode" where
  "advance n c = c\<lparr>dec_off := dec_off c + n, dec_pos := dec_pos c + 1\<rparr>"

text \<open>The word is written through the address given when encoding, or else through that of the argument, without a
  check.\<close>

definition decode_uint32 ::
    "drv_env \<Rightarrow> u32 \<Rightarrow> bool \<times> bool \<Rightarrow> otz_client_encode_cmd \<Rightarrow> driver \<Rightarrow> (driver \<times> otz_client_encode_cmd \<times> int) option" where
  "decode_uint32 env dev rw dec s =
     (if \<not> fst rw then Some (s, dec, - EFAULT)
      else case prepare_decode dev dec s of
          None \<Rightarrow> Some (s, dec, - EINVAL)
        | Some c \<Rightarrow>
            (let hit = dec_ok c \<and> mtype (dec_meta c) = OTZ_ENC_UINT32;
                 dec1 = (if hit \<and> usr_addr (dec_meta c) \<noteq> 0 then dec\<lparr>c_data := usr_addr (dec_meta c)\<rparr> else dec);
                 from = ker_res_data_addr c + dec_off c
             in if hit \<and> (\<not> valid env from \<or> \<not> valid env (c_data dec1)) then None
             else let s1 = (if hit
                    then upd_ctx dev dec (advance 4) (s\<lparr>vmem := store32 (c_data dec1) (load32 (vmem s) from) (vmem s)\<rparr>)
                    else s)
               in Some (if snd rw then (s1, dec1, 0) else (s1, dec, - EFAULT))))"

text \<open>The two lengths are compared as signed numbers.\<close>

definition fits :: "otzc_encode_meta \<Rightarrow> bool" where
  "fits m \<longleftrightarrow> sint (ret_len m) \<le> sint (mlen m)"

definition kernel_decode_array_space ::
    "u32 \<Rightarrow> otz_client_encode_cmd \<Rightarrow> driver \<Rightarrow> driver \<times> otz_client_encode_cmd \<times> int" where
  "kernel_decode_array_space dev dec s =
     (case prepare_decode dev dec s of
        None \<Rightarrow> (s, dec, - EINVAL)
      | Some c \<Rightarrow>
          if dec_ok c \<and> mtype (dec_meta c) = OTZ_MEM_REF
          then if fits (dec_meta c)
            then (upd_ctx dev dec (advance 4) s, dec\<lparr>c_data := usr_addr (dec_meta c), c_len := ret_len (dec_meta c)\<rparr>, 0)
            else (s, dec, - EFAULT)
          else (s, dec, - EINVAL))"

definition decode_array ::
    "drv_env \<Rightarrow> u32 \<Rightarrow> otz_client_encode_cmd \<Rightarrow> otzc_encode \<Rightarrow> driver \<Rightarrow> driver \<times> otz_client_encode_cmd \<times> int" where
  "decode_array env dev dec c s =
     (let m = dec_meta c; dec1 = (if usr_addr m \<noteq> 0 then dec\<lparr>c_data := usr_addr m\<rparr> else dec) in
      if \<not> fits m then (s, dec, - EFAULT)
      else case copy_to_user env (c_data dec1) (ker_res_data_addr c + dec_off c) (ret_len m) s of (s1, all_copied) \<Rightarrow>
        if \<not> all_copied then (s1, dec, - EFAULT)
        else (upd_ctx dev dec (advance (mlen m)) s1, dec1\<lparr>c_len := ret_len m\<rparr>, 0))"

definition decode_array_space ::
    "drv_env \<Rightarrow> u32 \<Rightarrow> bool \<times> bool \<Rightarrow> otz_client_encode_cmd \<Rightarrow> driver \<Rightarrow> driver \<times> otz_client_encode_cmd \<times> int" where
  "decode_array_space env dev rw dec s =
     (if \<not> fst rw then (s, dec, - EFAULT)
      else case prepare_decode dev dec s of
          None \<Rightarrow> (s, dec, - EINVAL)
        | Some c \<Rightarrow>
            (case (if dec_ok c \<and> mtype (dec_meta c) = OTZ_ENC_ARRAY then decode_array env dev dec c s
                   else kernel_decode_array_space dev dec s) of
               (s1, dec1, r) \<Rightarrow> if r \<noteq> 0 then (s1, dec, r) else if snd rw then (s1, dec1, 0) else (s1, dec, - EFAULT)))"

definition type_code :: "otz_enc_data_type \<Rightarrow> u32" where
  "type_code ty = (case ty of OTZ_ENC_INVALID_TYPE \<Rightarrow> 0 | OTZ_ENC_UINT32 \<Rightarrow> 1 | OTZ_ENC_ARRAY \<Rightarrow> 2 | OTZ_MEM_REF \<Rightarrow> 3
     | OTZ_SECURE_MEM_REF \<Rightarrow> 4)"

definition get_decode_type ::
    "u32 \<Rightarrow> bool \<times> bool \<Rightarrow> otz_client_encode_cmd \<Rightarrow> driver \<Rightarrow> driver \<times> otz_client_encode_cmd \<times> int" where
  "get_decode_type dev rw dec s =
     (if \<not> fst rw then (s, dec, - EFAULT)
      else case prepare_decode dev dec s of
          None \<Rightarrow> (s, dec, - EINVAL)
        | Some c \<Rightarrow>
            if \<not> dec_ok c then (s, dec, - EINVAL)
            else if snd rw then (s, dec\<lparr>c_data := type_code (mtype (dec_meta c))\<rparr>, 0) else (s, dec, - EFAULT))"

section \<open>Sending a command\<close>

text \<open>The loop over the sessions ends after the first one, whether it is the one looked for or not.\<close>

definition first_session :: "u32 \<Rightarrow> otz_client_encode_cmd \<Rightarrow> driver \<Rightarrow> otzc_session option" where
  "first_session dev enc s =
     (case find_svc dev (c_service enc) s of None \<Rightarrow> None
      | Some v \<Rightarrow> (case sessions v of [] \<Rightarrow> None | x # _ \<Rightarrow> if session_id x = c_session enc then Some x else None))"

definition send_context ::
    "drv_env \<Rightarrow> u32 \<Rightarrow> otz_client_encode_cmd \<Rightarrow> driver \<Rightarrow> driver \<times> otz_client_encode_cmd \<times> bool" where
  "send_context env dev enc s =
     (case first_session dev enc s of
        None \<Rightarrow> (s, enc, False)
      | Some x \<Rightarrow>
          if c_encode_id enc \<noteq> - 1 then (s, enc, List.find (\<lambda>c. encode_id c = c_encode_id enc) (encode_list x) \<noteq> None)
          else (case prepare_encode env dev enc s of (s1, enc1, r) \<Rightarrow> (s1, enc1, r = 0)))"

definition send_call :: "drv_env \<Rightarrow> u32 \<Rightarrow> otz_client_encode_cmd \<Rightarrow> driver \<Rightarrow> driver \<times> int" where
  "send_call env dev enc s =
     (let c = cmd_ctx dev enc s in
      case otz_smc_call env dev (c_service enc) (c_cmd enc) (c_session enc) (c_encode_id enc)
          (ker_req_data_addr c) (req_off c) (ker_res_data_addr c) (res_off c) (meta_at c) (meta c) s of
        (s1, m, r, _) \<Rightarrow> (upd_ctx dev enc (\<lambda>c. c\<lparr>meta := m\<rparr>) s1, r))"

definition kernel_send_cmd ::
    "drv_env \<Rightarrow> u32 \<Rightarrow> otz_client_encode_cmd \<Rightarrow> driver \<Rightarrow> driver \<times> otz_client_encode_cmd \<times> int" where
  "kernel_send_cmd env dev enc s =
     (case send_context env dev enc s of (s1, enc1, found) \<Rightarrow>
        if \<not> found then (s1, enc1, - EINVAL)
        else case send_call env dev enc1 s1 of (s2, r) \<Rightarrow> (s2, enc1, r))"

definition send_cmd ::
    "drv_env \<Rightarrow> u32 \<Rightarrow> bool \<times> bool \<Rightarrow> otz_client_encode_cmd \<Rightarrow> driver \<Rightarrow> driver \<times> otz_client_encode_cmd \<times> int" where
  "send_cmd env dev rw enc s =
     (if \<not> fst rw then (s, enc, - EFAULT)
      else case kernel_send_cmd env dev enc s of (s1, enc1, r) \<Rightarrow>
        if r \<noteq> 0 then (s1, enc, r) else if snd rw then (s1, enc1, 0) else (s1, enc, - EFAULT))"

definition free_nonnull :: "u32 \<Rightarrow> driver \<Rightarrow> driver" where
  "free_nonnull a s = (if a = 0 then s else kfree a s)"

definition kernel_operation_release :: "u32 \<Rightarrow> otz_client_encode_cmd \<Rightarrow> driver \<Rightarrow> driver \<times> int" where
  "kernel_operation_release dev enc s =
     (case find_ses dev (c_service enc) (c_session enc) s of
        None \<Rightarrow> (s, - EINVAL)
      | Some x \<Rightarrow>
          (case (if c_encode_id enc \<noteq> - 1 then List.find (\<lambda>c. encode_id c = c_encode_id enc) (encode_list x) else None) of
             None \<Rightarrow> (s, 0)
           | Some c \<Rightarrow>
               (kfree (encode_id c) (kfree (meta_at c)
                  (upd_ses dev (c_service enc) (c_session enc)
                     (\<lambda>x. x\<lparr>encode_list := del_first (\<lambda>c. encode_id c = c_encode_id enc) (encode_list x)\<rparr>)
                     (free_nonnull (ker_res_data_addr c) (free_nonnull (ker_req_data_addr c) s)))), 0)))"

definition operation_release :: "u32 \<Rightarrow> bool \<times> bool \<Rightarrow> otz_client_encode_cmd \<Rightarrow> driver \<Rightarrow> driver \<times> int" where
  "operation_release dev rw enc s = (if \<not> fst rw then (s, - EFAULT) else kernel_operation_release dev enc s)"

section \<open>Sessions\<close>

text \<open>Releasing a shared buffer; the encode contexts of a closed session are released without their buffers and
  descriptors.\<close>

definition free_shared :: "otzc_shared_mem \<Rightarrow> driver \<Rightarrow> driver" where
  "free_shared b s = kfree (sm_at b) (if k_addr b \<noteq> 0 then free_pages (k_addr b) (sm_len b) s else s)"

definition close_effects :: "drv_env \<Rightarrow> u32 \<Rightarrow> otzc_service \<Rightarrow> otzc_session \<Rightarrow> driver \<Rightarrow> driver" where
  "close_effects env dev v x s =
     (case otz_smc_call env dev GLOBAL_SVC CMD_CLOSE_SESSION 0 0 (svc_at v + 8) 4 (ses_at x + 8) 4 0 (fresh_meta env) s of
        (s1, _) \<Rightarrow> kfree (ses_at x) (fold free_shared (ses_shared x) (fold (\<lambda>c. kfree (encode_id c)) (encode_list x) s1)))"

definition close_session_for_service :: "drv_env \<Rightarrow> u32 \<Rightarrow> otzc_service \<Rightarrow> otzc_session \<Rightarrow> driver \<Rightarrow> driver" where
  "close_session_for_service env dev v x s =
     upd_svc dev (service_id v) (\<lambda>v. v\<lparr>sessions := del_first (\<lambda>y. session_id y = session_id x) (sessions v)\<rparr>)
       (close_effects env dev v x s)"

definition session_open ::
    "drv_env \<Rightarrow> u32 \<Rightarrow> bool \<times> bool \<Rightarrow> ser_ses_id \<Rightarrow> driver \<Rightarrow> driver \<times> ser_ses_id \<times> int" where
  "session_open env dev rw so s =
     (if \<not> fst rw then (s, so, - EFAULT)
      else case find_svc dev (so_service so) s of
          None \<Rightarrow> (s, so, - EINVAL)
        | Some v \<Rightarrow>
            (case kmalloc (s\<lparr>vmem := store32 (stack_at env) (so_service so) (vmem s)\<rparr>) of (a, s1) \<Rightarrow>
               if a = 0 then (s1, so, - ENOMEM)
               else case otz_smc_call env dev GLOBAL_SVC CMD_OPEN_SESSION 0 0 (stack_at env) 4 (a + 8) 4 0 (fresh_meta env) s1 of
                 (s2, _, r, _) \<Rightarrow>
                   let ses = load32 (vmem s2) (a + 8) in
                   if r \<noteq> 0 then (kfree a s2, so, r)
                   else if ses = - 1 then (kfree a s2, so, - EINVAL)
                   else if \<not> snd rw then (kfree a s2, so, - EFAULT)
                   else (upd_svc dev (so_service so)
                           (\<lambda>v. v\<lparr>sessions := sessions v @ [\<lparr>ses_at = a, session_id = ses, encode_list = [], ses_shared = []\<rparr>]\<rparr>) s2,
                         so\<lparr>so_session := ses\<rparr>, 0)))"

definition session_close :: "drv_env \<Rightarrow> u32 \<Rightarrow> bool \<times> bool \<Rightarrow> ser_ses_id \<Rightarrow> driver \<Rightarrow> driver \<times> int" where
  "session_close env dev rw sc s =
     (if \<not> fst rw then (s, - EFAULT)
      else case find_svc dev (so_service sc) s of None \<Rightarrow> (s, 0)
        | Some v \<Rightarrow>
            (case find_ses dev (so_service sc) (so_session sc) s of None \<Rightarrow> (s, 0)
             | Some x \<Rightarrow> (close_session_for_service env dev v x s, 0)))"

section \<open>Shared buffers\<close>

text \<open>The pages stay allocated when mapping them or the allocation of the entry fails.\<close>

definition mmap :: "drv_env \<Rightarrow> u32 \<Rightarrow> u32 \<Rightarrow> u32 \<Rightarrow> driver \<Rightarrow> (driver \<times> int) option" where
  "mmap env dev vm_start vm_end s =
     (case get_free_pages s of (p, s1) \<Rightarrow>
        if p = 0 then Some (s1, - ENOMEM)
        else if \<not> remap_ok env then Some (s1, - EAGAIN)
        else case kmalloc s1 of (a, s2) \<Rightarrow>
          if a = 0 then Some (s2, - ENOMEM)
          else if find_dev dev s2 = None then None
          else Some (upd_dev dev (\<lambda>d. d\<lparr>shared_mem_cnt := shared_mem_cnt d + 1,
              dev_shared := dev_shared d @ [\<lparr>sm_at = a, index = vm_start, k_addr = p, u_addr = vm_start, sm_len = vm_end - vm_start\<rparr>]\<rparr>) s2, 0))"

definition kernel_shared_mem_alloc :: "u32 \<Rightarrow> otz_session_shared_mem_info \<Rightarrow> otzc_shared_mem \<Rightarrow> driver \<Rightarrow> driver \<times> int" where
  "kernel_shared_mem_alloc dev mi b s =
     (if find_ses dev (mi_service mi) (mi_session mi) s = None then (s, - 1)
      else (upd_ses dev (mi_service mi) (mi_session mi) (\<lambda>x. x\<lparr>ses_shared := ses_shared x @ [b]\<rparr>) s, 0))"

definition shared_mem_alloc :: "u32 \<Rightarrow> bool \<times> bool \<Rightarrow> otz_session_shared_mem_info \<Rightarrow> driver \<Rightarrow> driver \<times> int" where
  "shared_mem_alloc dev rw mi s =
     (if \<not> fst rw then (s, - EFAULT)
      else if find_ses dev (mi_service mi) (mi_session mi) s = None then (s, - EINVAL)
      else case Option.bind (find_dev dev s) (\<lambda>d. List.find (\<lambda>b. index b = user_mem_addr mi) (dev_shared d)) of
          None \<Rightarrow> (s, 0)
        | Some b \<Rightarrow>
            (upd_ses dev (mi_service mi) (mi_session mi) (\<lambda>x. x\<lparr>ses_shared := ses_shared x @ [b]\<rparr>)
               (upd_dev dev (\<lambda>d. d\<lparr>dev_shared := del_first (\<lambda>b. index b = user_mem_addr mi) (dev_shared d),
                  shared_mem_cnt := shared_mem_cnt d - 1\<rparr>) s), 0))"

definition shared_mem_free :: "u32 \<Rightarrow> bool \<times> bool \<Rightarrow> otz_session_shared_mem_info \<Rightarrow> driver \<Rightarrow> driver \<times> int" where
  "shared_mem_free dev rw mi s =
     (if \<not> fst rw then (s, - EFAULT)
      else case find_ses dev (mi_service mi) (mi_session mi) s of
          None \<Rightarrow> (s, - EINVAL)
        | Some x \<Rightarrow>
            (case List.find (\<lambda>b. index b = user_mem_addr mi) (ses_shared x) of
               None \<Rightarrow> (s, 0)
             | Some b \<Rightarrow>
                 (free_shared b (upd_ses dev (mi_service mi) (mi_session mi)
                    (\<lambda>x. x\<lparr>ses_shared := del_first (\<lambda>b. index b = user_mem_addr mi) (ses_shared x)\<rparr>) s), 0)))"

section \<open>Opening and closing the device\<close>

text \<open>When there is no memory for a service, those the file already has are released.\<close>

definition service_init :: "u32 \<Rightarrow> u32 \<Rightarrow> driver \<Rightarrow> driver \<times> int" where
  "service_init dev svc s =
     (case kmalloc s of (a, s1) \<Rightarrow>
        if a = 0
        then (upd_dev dev (\<lambda>d. d\<lparr>services := []\<rparr>)
                (fold (\<lambda>v. kfree (svc_at v)) (case find_dev dev s1 of None \<Rightarrow> [] | Some d \<Rightarrow> services d) s1), - ENOMEM)
        else (upd_dev dev (\<lambda>d. d\<lparr>service_cnt := service_cnt d + 1,
                services := \<lparr>svc_at = a, service_id = svc, sessions = []\<rparr> # services d\<rparr>)
                (s1\<lparr>vmem := store32 (a + 8) svc (vmem s1)\<rparr>), 0))"

fun services_init :: "u32 \<Rightarrow> u32 list \<Rightarrow> driver \<Rightarrow> driver \<times> int" where
  "services_init dev [] s = (s, 0)"
| "services_init dev (v # vs) s =
     (case service_init dev v s of (s1, r) \<Rightarrow> if r \<noteq> 0 then (s1, r) else services_init dev vs s1)"

text \<open>The services of a file: global, echo, user test suite, crypto, mutex test, virtual keyboard, DRM, internal API
  and kernel test suite.  The file stays on the list when they cannot be created.\<close>

definition client_services :: "u32 list" where
  "client_services = [1, 2, 13, 4, 5, 6, 3, 12, 10]"

definition client_open :: "driver \<Rightarrow> driver \<times> u32 \<times> int" where
  "client_open s =
     (let s0 = s\<lparr>device_file_cnt := device_file_cnt s + 1\<rparr>; dev = device_file_cnt s0 in
      case kmalloc s0 of (a, s1) \<Rightarrow>
        if a = 0 then (s1, dev, - ENOMEM)
        else case services_init dev client_services
            (s1\<lparr>dev_files := \<lparr>df_at = a, dev_file_id = dev, service_cnt = 0, services = [], shared_mem_cnt = 0, dev_shared = []\<rparr>
                  # dev_files s1, dev_file_cnt := dev_file_cnt s1 + 1\<rparr>) of
          (s2, r) \<Rightarrow> (s2, dev, r))"

definition close_service :: "drv_env \<Rightarrow> u32 \<Rightarrow> otzc_service \<Rightarrow> driver \<Rightarrow> driver" where
  "close_service env dev v s = kfree (svc_at v) (fold (close_effects env dev v) (sessions v) s)"

text \<open>The entries are taken from the lists as they are released; nothing reads the lists in between.\<close>

definition service_exit :: "drv_env \<Rightarrow> u32 \<Rightarrow> driver \<Rightarrow> driver" where
  "service_exit env dev s =
     (case find_dev dev s of None \<Rightarrow> s
      | Some d \<Rightarrow>
          (let s1 = fold (close_service env dev) (services d) (fold free_shared (dev_shared d) s)
           in kfree (df_at d) (s1\<lparr>dev_files := del_first (\<lambda>d. dev_file_id d = dev) (dev_files s1)\<rparr>)))"

definition client_release :: "drv_env \<Rightarrow> u32 \<Rightarrow> driver \<Rightarrow> driver \<times> int" where
  "client_release env dev s = (service_exit env dev s, 0)"

section \<open>The device interface\<close>

datatype ioctl_cmd =
    IOCTL_SEND_CMD_REQ otz_client_encode_cmd
  | IOCTL_ENC_UINT32 otz_client_encode_cmd
  | IOCTL_DEC_UINT32 otz_client_encode_cmd
  | IOCTL_ENC_ARRAY otz_client_encode_cmd
  | IOCTL_DEC_ARRAY_SPACE otz_client_encode_cmd
  | IOCTL_ENC_MEM_REF otz_client_encode_cmd
  | IOCTL_ENC_ARRAY_SPACE otz_client_encode_cmd
  | IOCTL_GET_DECODE_TYPE otz_client_encode_cmd
  | IOCTL_SES_OPEN_REQ ser_ses_id
  | IOCTL_SES_CLOSE_REQ ser_ses_id
  | IOCTL_SHR_MEM_ALLOCATE_REQ otz_session_shared_mem_info
  | IOCTL_SHR_MEM_FREE_REQ otz_session_shared_mem_info
  | IOCTL_OPERATION_RELEASE otz_client_encode_cmd
  | IOCTL_UNKNOWN

text \<open>The result is the state, the argument as the user finds it afterwards, and the value returned.\<close>

definition client_ioctl ::
    "drv_env \<Rightarrow> u32 \<Rightarrow> bool \<times> bool \<Rightarrow> ioctl_cmd \<Rightarrow> driver \<Rightarrow> (driver \<times> ioctl_cmd \<times> int) option" where
  "client_ioctl env dev rw cmd s =
     (case cmd of
        IOCTL_SEND_CMD_REQ enc \<Rightarrow> (case send_cmd env dev rw enc s of (s', e, r) \<Rightarrow> Some (s', IOCTL_SEND_CMD_REQ e, r))
      | IOCTL_ENC_UINT32 enc \<Rightarrow> map_option (\<lambda>(s', e, r). (s', IOCTL_ENC_UINT32 e, r)) (encode_uint32 env dev rw enc s)
      | IOCTL_DEC_UINT32 dec \<Rightarrow> map_option (\<lambda>(s', e, r). (s', IOCTL_DEC_UINT32 e, r)) (decode_uint32 env dev rw dec s)
      | IOCTL_ENC_ARRAY enc \<Rightarrow> (case encode_array env dev rw enc s of (s', e, r) \<Rightarrow> Some (s', IOCTL_ENC_ARRAY e, r))
      | IOCTL_DEC_ARRAY_SPACE dec \<Rightarrow>
          (case decode_array_space env dev rw dec s of (s', e, r) \<Rightarrow> Some (s', IOCTL_DEC_ARRAY_SPACE e, r))
      | IOCTL_ENC_MEM_REF enc \<Rightarrow> (case encode_mem_ref env dev rw enc s of (s', e, r) \<Rightarrow> Some (s', IOCTL_ENC_MEM_REF e, r))
      | IOCTL_ENC_ARRAY_SPACE enc \<Rightarrow>
          (case encode_mem_ref env dev rw enc s of (s', e, r) \<Rightarrow> Some (s', IOCTL_ENC_ARRAY_SPACE e, r))
      | IOCTL_GET_DECODE_TYPE dec \<Rightarrow>
          (case get_decode_type dev rw dec s of (s', e, r) \<Rightarrow> Some (s', IOCTL_GET_DECODE_TYPE e, r))
      | IOCTL_SES_OPEN_REQ so \<Rightarrow> (case session_open env dev rw so s of (s', so', r) \<Rightarrow> Some (s', IOCTL_SES_OPEN_REQ so', r))
      | IOCTL_SES_CLOSE_REQ sc \<Rightarrow> (case session_close env dev rw sc s of (s', r) \<Rightarrow> Some (s', cmd, r))
      | IOCTL_SHR_MEM_ALLOCATE_REQ mi \<Rightarrow> (case shared_mem_alloc dev rw mi s of (s', r) \<Rightarrow> Some (s', cmd, r))
      | IOCTL_SHR_MEM_FREE_REQ mi \<Rightarrow> (case shared_mem_free dev rw mi s of (s', r) \<Rightarrow> Some (s', cmd, r))
      | IOCTL_OPERATION_RELEASE enc \<Rightarrow> (case operation_release dev rw enc s of (s', r) \<Rightarrow> Some (s', cmd, r))
      | IOCTL_UNKNOWN \<Rightarrow> Some (s, cmd, - EINVAL))"

section \<open>Lists of entries with a key\<close>

text \<open>What the operations rely on for every list of the driver: an update of the list is seen by the next
  search, and replacing, removing or adding entries changes the search only for their own key.\<close>

locale keyed_entries =
  fixes items :: "'p \<Rightarrow> 'c list" and upd_items :: "('c list \<Rightarrow> 'c list) \<Rightarrow> 'p \<Rightarrow> 'p" and key :: "'c \<Rightarrow> u32"
  assumes items_upd: "items (upd_items g p) = g (items p)"
begin

lemma find_upd:
  assumes "\<And>c. key (f c) = key c"
  shows "List.find (\<lambda>c. key c = j) (items (upd_items (\<lambda>_. upd_first (\<lambda>c. key c = k) f (items p)) p)) =
    (if j = k then map_option f (List.find (\<lambda>c. key c = k) (items p)) else List.find (\<lambda>c. key c = j) (items p))"
proof -
  have "List.find (\<lambda>c. key c = j) (upd_first (\<lambda>c. key c = k) f xs) =
    (if j = k then map_option f (List.find (\<lambda>c. key c = k) xs) else List.find (\<lambda>c. key c = j) xs)" for xs
    using assms by (induction xs) auto
  then show ?thesis by (simp add: items_upd)
qed

lemma find_del_other:
  "j \<noteq> k \<Longrightarrow> List.find (\<lambda>c. key c = j) (items (upd_items (\<lambda>_. del_first (\<lambda>c. key c = k) (items p)) p)) = List.find (\<lambda>c. key c = j) (items p)"
proof -
  assume ne: "j \<noteq> k"
  have "List.find (\<lambda>c. key c = j) (del_first (\<lambda>c. key c = k) xs) = List.find (\<lambda>c. key c = j) xs" for xs
    using ne by (induction xs) auto
  then show ?thesis by (simp add: items_upd)
qed

lemma find_append:
  "List.find (\<lambda>c. key c = j) (items (upd_items (\<lambda>_. items p @ ys) p)) =
    (case List.find (\<lambda>c. key c = j) (items p) of Some c \<Rightarrow> Some c | None \<Rightarrow> List.find (\<lambda>c. key c = j) ys)"
proof -
  have "List.find (\<lambda>c. key c = j) (xs @ ys) =
    (case List.find (\<lambda>c. key c = j) xs of Some c \<Rightarrow> Some c | None \<Rightarrow> List.find (\<lambda>c. key c = j) ys)" for xs
    by (induction xs) auto
  then show ?thesis by (simp add: items_upd)
qed

end

interpretation devs: keyed_entries dev_files dev_files_update dev_file_id by unfold_locales simp
interpretation svcs: keyed_entries services services_update service_id by unfold_locales simp
interpretation sess: keyed_entries sessions sessions_update session_id by unfold_locales simp
interpretation encs: keyed_entries encode_list encode_list_update encode_id by unfold_locales simp
interpretation dshr: keyed_entries dev_shared dev_shared_update index by unfold_locales simp
interpretation sshr: keyed_entries ses_shared ses_shared_update index by unfold_locales simp

lemma find_dev_upd: "(\<And>d. dev_file_id (f d) = dev_file_id d) \<Longrightarrow>
    find_dev j (upd_dev k f s) = (if j = k then map_option f (find_dev k s) else find_dev j s)"
  unfolding find_dev_def upd_dev_def by (rule devs.find_upd)

lemma find_svc_upd: "(\<And>v. service_id (f v) = service_id v) \<Longrightarrow>
    find_svc d j (upd_svc e k f s) = (if d = e \<and> j = k then map_option f (find_svc d j s) else find_svc d j s)"
proof -
  assume k: "\<And>v. service_id (f v) = service_id v"
  show ?thesis using svcs.find_upd[of f j k, OF k]
    by (auto simp: find_svc_def upd_svc_def find_dev_upd split: bind_splits option.splits)
qed

lemma find_ses_upd: "(\<And>v. session_id (f v) = session_id v) \<Longrightarrow>
    find_ses d v j (upd_ses e w k f s) = (if (d, v, j) = (e, w, k) then map_option f (find_ses d v j s) else find_ses d v j s)"
proof -
  assume k: "\<And>v. session_id (f v) = session_id v"
  show ?thesis using sess.find_upd[of f j k, OF k]
    by (auto simp: find_ses_def upd_ses_def find_svc_upd split: bind_splits option.splits)
qed

lemma find_enc_upd: "(\<And>c. encode_id (f c) = encode_id c) \<Longrightarrow>
    find_enc d v x j (upd_enc e w y k f s) =
      (if (d, v, x, j) = (e, w, y, k) then map_option f (find_enc d v x j s) else find_enc d v x j s)"
proof -
  assume k: "\<And>c. encode_id (f c) = encode_id c"
  show ?thesis using encs.find_upd[of f j k, OF k]
    by (auto simp: find_enc_def upd_enc_def find_ses_upd split: bind_splits option.splits)
qed

text \<open>Two states with the same lists are searched alike.\<close>

lemma find_cong_lists:
  assumes "dev_files s' = dev_files s"
  shows "find_dev d s' = find_dev d s" "find_svc d v s' = find_svc d v s" "find_ses d v x s' = find_ses d v x s"
    "find_enc d v x e s' = find_enc d v x e s"
  using assms by (simp_all add: find_dev_def find_svc_def find_ses_def find_enc_def)

lemma upd_dev_sels [simp]:
  "vmem (upd_dev d f s) = vmem s" "kmallocs (upd_dev d f s) = kmallocs s" "kfreed (upd_dev d f s) = kfreed s"
  "pages_freed (upd_dev d f s) = pages_freed s" "smc_log (upd_dev d f s) = smc_log s"
  "page_answers (upd_dev d f s) = page_answers s" "dev_file_cnt (upd_dev d f s) = dev_file_cnt s"
  by (simp_all add: upd_dev_def)

lemma upd_sels [simp]:
  "vmem (upd_svc d v g s) = vmem s" "kmallocs (upd_svc d v g s) = kmallocs s" "kfreed (upd_svc d v g s) = kfreed s"
  "pages_freed (upd_svc d v g s) = pages_freed s" "smc_log (upd_svc d v g s) = smc_log s"
  "vmem (upd_ses d v x h s) = vmem s" "kmallocs (upd_ses d v x h s) = kmallocs s" "kfreed (upd_ses d v x h s) = kfreed s"
  "pages_freed (upd_ses d v x h s) = pages_freed s" "smc_log (upd_ses d v x h s) = smc_log s"
  "vmem (upd_enc d v x e i s) = vmem s" "kmallocs (upd_enc d v x e i s) = kmallocs s" "kfreed (upd_enc d v x e i s) = kfreed s"
  "pages_freed (upd_enc d v x e i s) = pages_freed s" "smc_log (upd_enc d v x e i s) = smc_log s"
  "vmem (upd_ctx d c i s) = vmem s" "kmallocs (upd_ctx d c i s) = kmallocs s" "kfreed (upd_ctx d c i s) = kfreed s"
  "pages_freed (upd_ctx d c i s) = pages_freed s" "smc_log (upd_ctx d c i s) = smc_log s"
  by (simp_all add: upd_svc_def upd_ses_def upd_enc_def upd_ctx_def)

lemma same_lists [simp]:
  "dev_files (kfree a s) = dev_files s" "dev_files (free_pages a n s) = dev_files s" "dev_files (free_nonnull a s) = dev_files s"
  "dev_files (free_shared b s) = dev_files s" "dev_files (fst (copy_from_user env a c n s)) = dev_files s"
  "dev_files (fst (copy_to_user env a c n s)) = dev_files s" "dev_files (snd (kmalloc s)) = dev_files s"
  "dev_files (snd (get_free_pages s)) = dev_files s"
  by (simp_all add: kfree_def free_pages_def free_nonnull_def free_shared_def copy_from_user_def copy_to_user_def kmalloc_def
      get_free_pages_def split: list.splits)

lemma fold_same_lists: "(\<And>b s. dev_files (g b s) = dev_files s) \<Longrightarrow> dev_files (fold g bs s) = dev_files s"
  by (induction bs arbitrary: s) auto

lemma smc_same_lists:
  assumes "otz_smc_call env dev svc cmd cx e cb cl rb rl mb m s = (s', y)"
  shows "dev_files s' = dev_files s"
proof -
  obtain a s1 where k: "kmalloc s = (a, s1)" by (cases "kmalloc s")
  then have "dev_files s1 = dev_files s" using same_lists(7)[of s] by simp
  then show ?thesis using assms k by (auto simp: otz_smc_call_def Let_def kfree_def split: prod.splits if_splits)
qed

lemma close_effects_lists [simp]: "dev_files (close_effects env dev v x s) = dev_files s"
proof -
  obtain s1 y where c: "otz_smc_call env dev GLOBAL_SVC CMD_CLOSE_SESSION 0 0 (svc_at v + 8) 4 (ses_at x + 8) 4 0 (fresh_meta env) s = (s1, y)"
    by (cases "otz_smc_call env dev GLOBAL_SVC CMD_CLOSE_SESSION 0 0 (svc_at v + 8) 4 (ses_at x + 8) 4 0 (fresh_meta env) s")
  show ?thesis by (simp add: close_effects_def c fold_same_lists smc_same_lists[OF c])
qed

section \<open>What an operation may change\<close>

definition ses_ctx :: "(otzc_encode \<Rightarrow> bool) \<Rightarrow> otzc_session \<Rightarrow> bool" where
  "ses_ctx P x \<longleftrightarrow> (\<forall>c\<in>set (encode_list x). P c)"

definition svc_ctx :: "(otzc_encode \<Rightarrow> bool) \<Rightarrow> otzc_service \<Rightarrow> bool" where
  "svc_ctx P v \<longleftrightarrow> (\<forall>x\<in>set (sessions v). ses_ctx P x)"

definition dev_ctx :: "(otzc_encode \<Rightarrow> bool) \<Rightarrow> otzc_dev_file \<Rightarrow> bool" where
  "dev_ctx P d \<longleftrightarrow> (\<forall>v\<in>set (services d). svc_ctx P v)"

text \<open>Every encode context of the driver satisfies \<open>P\<close>.\<close>

definition all_ctx :: "(otzc_encode \<Rightarrow> bool) \<Rightarrow> driver \<Rightarrow> bool" where
  "all_ctx P s \<longleftrightarrow> (\<forall>d\<in>set (dev_files s). dev_ctx P d)"

lemma all_upd_first:
  assumes "\<And>y. List.find Q xs = Some y \<Longrightarrow> R y \<Longrightarrow> R (f y)" and "\<forall>z\<in>set xs. R z"
  shows "\<forall>z\<in>set (upd_first Q f xs). R z"
  using assms by (induction xs) (auto split: if_splits)

lemma all_ctx_upd_dev:
  "(\<And>y. find_dev d s = Some y \<Longrightarrow> dev_ctx P y \<Longrightarrow> dev_ctx P (f y)) \<Longrightarrow> all_ctx P s \<Longrightarrow> all_ctx P (upd_dev d f s)"
  using all_upd_first[of "\<lambda>y. dev_file_id y = d" "dev_files s" "dev_ctx P" f]
  by (simp add: all_ctx_def upd_dev_def find_dev_def)

lemma all_ctx_upd_svc:
  assumes "\<And>y. find_svc d v s = Some y \<Longrightarrow> svc_ctx P y \<Longrightarrow> svc_ctx P (f y)" and "all_ctx P s"
  shows "all_ctx P (upd_svc d v f s)"
  unfolding upd_svc_def
proof (rule all_ctx_upd_dev[OF _ assms(2)])
  fix y assume y: "find_dev d s = Some y" "dev_ctx P y"
  then show "dev_ctx P (y\<lparr>services := upd_first (\<lambda>z. service_id z = v) f (services y)\<rparr>)"
    using all_upd_first[of "\<lambda>z. service_id z = v" "services y" "svc_ctx P" f] assms(1)
    by (simp add: dev_ctx_def find_svc_def)
qed

lemma all_ctx_upd_ses:
  assumes "\<And>y. find_ses d v x s = Some y \<Longrightarrow> ses_ctx P y \<Longrightarrow> ses_ctx P (f y)" and "all_ctx P s"
  shows "all_ctx P (upd_ses d v x f s)"
  unfolding upd_ses_def
proof (rule all_ctx_upd_svc[OF _ assms(2)])
  fix y assume y: "find_svc d v s = Some y" "svc_ctx P y"
  then show "svc_ctx P (y\<lparr>sessions := upd_first (\<lambda>z. session_id z = x) f (sessions y)\<rparr>)"
    using all_upd_first[of "\<lambda>z. session_id z = x" "sessions y" "ses_ctx P" f] assms(1)
    by (simp add: svc_ctx_def find_ses_def)
qed

lemma all_ctx_upd_enc:
  assumes "\<And>c. find_enc d v x e s = Some c \<Longrightarrow> P c \<Longrightarrow> P (f c)" and "all_ctx P s"
  shows "all_ctx P (upd_enc d v x e f s)"
  unfolding upd_enc_def
proof (rule all_ctx_upd_ses[OF _ assms(2)])
  fix y assume y: "find_ses d v x s = Some y" "ses_ctx P y"
  then show "ses_ctx P (y\<lparr>encode_list := upd_first (\<lambda>z. encode_id z = e) f (encode_list y)\<rparr>)"
    using all_upd_first[of "\<lambda>z. encode_id z = e" "encode_list y" P f] assms(1)
    by (simp add: ses_ctx_def find_enc_def)
qed

lemma set_del_first: "set (del_first Q xs) \<subseteq> set xs"
  by (induction xs) auto

text \<open>The positions and offsets of a context.\<close>

definition ctx_ok :: "otzc_encode \<Rightarrow> bool" where
  "ctx_ok c \<longleftrightarrow> req_off c \<le> 1024 \<and> res_off c \<le> 1024 \<and> req_pos c \<le> 12 \<and> 12 \<le> res_pos c \<and> res_pos c \<le> 16 \<and>
     12 \<le> dec_pos c \<and> dec_pos c \<le> res_pos c + 1"

text \<open>What holds of every step: sessions outside of \<open>T\<close> stay, and the contexts stay within their bounds.\<close>

definition step_ok :: "(u32 \<times> u32 \<times> u32) set \<Rightarrow> driver \<Rightarrow> driver \<Rightarrow> bool" where
  "step_ok T s s' \<longleftrightarrow>
     (\<forall>d v x y. find_ses d v x s = Some y \<and> (d, v, x) \<notin> T \<longrightarrow> find_ses d v x s' = Some y) \<and>
     (all_ctx ctx_ok s \<longrightarrow> all_ctx ctx_ok s')"

named_theorems steps "steps that keep other sessions and the bounds of the contexts"

lemma step_refl [steps]: "step_ok T s s" by (simp add: step_ok_def)

lemma step_trans: "step_ok T s s1 \<Longrightarrow> step_ok T s1 s2 \<Longrightarrow> step_ok T s s2"
  by (simp add: step_ok_def)

lemma step_mono: "step_ok T s s' \<Longrightarrow> T \<subseteq> U \<Longrightarrow> step_ok U s s'"
  unfolding step_ok_def by blast

lemma step_lists: "step_ok T s s1 \<Longrightarrow> dev_files s2 = dev_files s1 \<Longrightarrow> step_ok T s s2"
  using find_cong_lists(3)[of s2 s1] by (simp add: step_ok_def all_ctx_def)

lemma step_upd_ses:
  assumes "step_ok T s s1" and "(d, v, x) \<in> T" and "\<And>y. session_id (f y) = session_id y"
    and "\<And>y. find_ses d v x s1 = Some y \<Longrightarrow> ses_ctx ctx_ok y \<Longrightarrow> ses_ctx ctx_ok (f y)"
  shows "step_ok T s (upd_ses d v x f s1)"
proof (rule step_trans[OF assms(1)])
  show "step_ok T s1 (upd_ses d v x f s1)"
    unfolding step_ok_def using find_ses_upd[of f _ _ _ d v x s1, OF assms(3)] assms(2) all_ctx_upd_ses[of d v x s1 ctx_ok f] assms(4)
    by auto
qed

lemma step_upd_ctx:
  assumes "step_ok T s s1" and "(dev, c_service enc, c_session enc) \<in> T"
    and "ctx_ok (cmd_ctx dev enc s1) \<Longrightarrow> ctx_ok (f (cmd_ctx dev enc s1))"
  shows "step_ok T s (upd_ctx dev enc f s1)"
proof (rule step_trans[OF assms(1)])
  have "find_ses d v x (upd_ctx dev enc f s1) = Some y" if "find_ses d v x s1 = Some y" "(d, v, x) \<notin> T" for d v x y
    using that assms(2) find_ses_upd[of "\<lambda>x. x\<lparr>encode_list := upd_first (\<lambda>c. encode_id c = c_encode_id enc) f (encode_list x)\<rparr>"
        d v x dev "c_service enc" "c_session enc" s1]
    by (auto simp: upd_ctx_def upd_enc_def)
  moreover have "all_ctx ctx_ok (upd_ctx dev enc f s1)" if "all_ctx ctx_ok s1"
    unfolding upd_ctx_def by (rule all_ctx_upd_enc[OF _ that]) (use assms(3) in \<open>simp add: cmd_ctx_def\<close>)
  ultimately show "step_ok T s1 (upd_ctx dev enc f s1)" by (simp add: step_ok_def)
qed

lemma step_upd_dev:
  assumes "step_ok T s s1" and "\<And>d. dev_file_id (f d) = dev_file_id d" and "\<And>d. services (f d) = services d"
  shows "step_ok T s (upd_dev dev f s1)"
proof (rule step_trans[OF assms(1)])
  have "find_ses d v x (upd_dev dev f s1) = find_ses d v x s1" for d v x
    by (auto simp: find_ses_def find_svc_def find_dev_upd[OF assms(2)] assms(3) split: bind_splits option.splits)
  moreover have "all_ctx ctx_ok s1 \<Longrightarrow> all_ctx ctx_ok (upd_dev dev f s1)"
    by (rule all_ctx_upd_dev) (simp_all add: dev_ctx_def assms(3))
  ultimately show "step_ok T s1 (upd_dev dev f s1)" by (simp add: step_ok_def)
qed

lemma step_add_session:
  assumes "step_ok T s s1" and "encode_list new = []"
  shows "step_ok T s (upd_svc dev svc (\<lambda>v. v\<lparr>sessions := sessions v @ [new]\<rparr>) s1)"
proof (rule step_trans[OF assms(1)])
  have "find_ses d v x (upd_svc dev svc (\<lambda>v. v\<lparr>sessions := sessions v @ [new]\<rparr>) s1) = Some y"
    if "find_ses d v x s1 = Some y" for d v x y
    using that by (auto simp: find_ses_def find_svc_upd sess.find_append[simplified] split: bind_splits option.splits)
  moreover have "all_ctx ctx_ok s1 \<Longrightarrow> all_ctx ctx_ok (upd_svc dev svc (\<lambda>v. v\<lparr>sessions := sessions v @ [new]\<rparr>) s1)"
    by (rule all_ctx_upd_svc) (auto simp: svc_ctx_def ses_ctx_def assms(2))
  ultimately show "step_ok T s1 (upd_svc dev svc (\<lambda>v. v\<lparr>sessions := sessions v @ [new]\<rparr>) s1)" by (simp add: step_ok_def)
qed

lemma step_del_session:
  assumes "step_ok T s s1" and "(dev, svc, k) \<in> T"
  shows "step_ok T s (upd_svc dev svc (\<lambda>v. v\<lparr>sessions := del_first (\<lambda>y. session_id y = k) (sessions v)\<rparr>) s1)"
proof (rule step_trans[OF assms(1)])
  have "find_ses d v x (upd_svc dev svc (\<lambda>v. v\<lparr>sessions := del_first (\<lambda>y. session_id y = k) (sessions v)\<rparr>) s1) = Some y"
    if "find_ses d v x s1 = Some y" "(d, v, x) \<noteq> (dev, svc, k)" for d v x y
    using that by (auto simp: find_ses_def find_svc_upd sess.find_del_other[simplified] split: bind_splits option.splits)
  moreover have "all_ctx ctx_ok s1 \<Longrightarrow> all_ctx ctx_ok (upd_svc dev svc (\<lambda>v. v\<lparr>sessions := del_first (\<lambda>y. session_id y = k) (sessions v)\<rparr>) s1)"
    using set_del_first[of "\<lambda>y. session_id y = k"] by (intro all_ctx_upd_svc) (auto simp: svc_ctx_def)
  ultimately show "step_ok T s1 (upd_svc dev svc (\<lambda>v. v\<lparr>sessions := del_first (\<lambda>y. session_id y = k) (sessions v)\<rparr>) s1)"
    using assms(2) by (auto simp: step_ok_def)
qed

lemma u32_inc: "(a :: u32) < b \<Longrightarrow> unat (a + 1) = Suc (unat a)"
proof -
  assume "a < b"
  then have "unat a + 1 < 2 ^ LENGTH(32)" using unat_u32_lt[of b] by (simp add: word_less_nat_alt)
  then show ?thesis using unat_add_small[of a 1] by simp
qed

lemma push_req_ok: "ctx_ok c \<Longrightarrow> req_room n c \<Longrightarrow> ctx_ok (push_req n f c)"
  using u32_inc[of "req_pos c" 12]
  by (auto simp: ctx_ok_def req_room_def push_req_def OTZ_1K_SIZE_def OTZ_MAX_REQ_PARAMS_def word_le_nat_alt word_less_nat_alt)

lemma res_bounds: "ctx_ok c \<Longrightarrow> unat (res_pos c + 1) = Suc (unat (res_pos c)) \<and> unat (res_pos c) \<le> 16"
  using u32_inc[of "res_pos c" 17] by (auto simp: ctx_ok_def word_le_nat_alt word_less_nat_alt)

lemma push_res_ok: "ctx_ok c \<Longrightarrow> res_room n c \<Longrightarrow> ctx_ok (push_res n f c)"
proof -
  assume c: "ctx_ok c" and r: "res_room n c"
  have lt: "res_pos c < 16" and off: "res_off c + n \<le> 1024"
    using r by (simp_all add: res_room_def OTZ_1K_SIZE_def OTZ_MAX_REQ_PARAMS_def OTZ_MAX_RES_PARAMS_def)
  have u: "unat (res_pos c + 1) = Suc (unat (res_pos c))" "unat (res_pos c) < 16"
    using u32_inc[OF lt] lt by (simp_all add: word_less_nat_alt)
  have "res_pos c + 1 < 17" using u by (simp add: word_less_nat_alt)
  note u2 = u32_inc[OF this]
  have p: "12 \<le> unat (res_pos c)" "unat (dec_pos c) \<le> Suc (unat (res_pos c))"
    using c u unfolding ctx_ok_def word_le_nat_alt by simp_all
  have "12 \<le> res_pos c + 1" "res_pos c + 1 \<le> 16" "dec_pos c \<le> res_pos c + 1 + 1"
    using p u u2 unfolding word_le_nat_alt by simp_all
  then show ?thesis using c off by (simp add: ctx_ok_def push_res_def)
qed

lemma advance_ok: "ctx_ok c \<Longrightarrow> dec_ok c \<Longrightarrow> ctx_ok (advance n c)"
proof -
  assume c: "ctx_ok c" and d: "dec_ok c"
  have p: "12 \<le> unat (dec_pos c)" "unat (dec_pos c) \<le> unat (res_pos c)" "unat (res_pos c) \<le> 16"
    using c d unfolding ctx_ok_def dec_ok_def word_le_nat_alt by simp_all
  then have "dec_pos c < 17" by (simp add: word_less_nat_alt)
  note u = u32_inc[OF this] res_bounds[OF c]
  have "12 \<le> dec_pos c + 1" "dec_pos c + 1 \<le> res_pos c + 1"
    using p u unfolding word_le_nat_alt by simp_all
  then show ?thesis using c by (simp add: ctx_ok_def advance_def)
qed

lemma new_context_ok: "ctx_ok (new_context env a m)"
  by (simp add: ctx_ok_def new_context_def OTZ_MAX_REQ_PARAMS_def)

lemma cmd_ctx_lists: "dev_files s' = dev_files s \<Longrightarrow> cmd_ctx dev enc s' = cmd_ctx dev enc s"
  using find_cong_lists(4)[of s' s] by (simp add: cmd_ctx_def)

text \<open>The session of a command.\<close>

definition cmd_key :: "u32 \<Rightarrow> otz_client_encode_cmd \<Rightarrow> u32 \<times> u32 \<times> u32" where
  "cmd_key dev enc = (dev, c_service enc, c_session enc)"

lemma kmalloc_step: "kmalloc s = (a, s1) \<Longrightarrow> dev_files s1 = dev_files s"
  using same_lists(7)[of s] by simp

lemma prepare_encode_step:
  assumes "prepare_encode env dev enc s = (s1, enc1, r)"
  shows "step_ok {cmd_key dev enc} s s1" "\<exists>e. enc1 = enc\<lparr>c_encode_id := e\<rparr>"
proof -
  obtain a sa where a: "kmalloc s = (a, sa)" by (cases "kmalloc s")
  obtain m sm where m: "kmalloc sa = (m, sm)" by (cases "kmalloc sa")
  have l: "dev_files sa = dev_files s" "dev_files sm = dev_files s" using kmalloc_step[OF a] kmalloc_step[OF m] by simp_all
  have st: "step_ok {cmd_key dev enc} s sm" by (rule step_lists[OF step_refl]) (rule l)
  have "step_ok {cmd_key dev enc} s (upd_ses dev (c_service enc) (c_session enc) (\<lambda>x. x\<lparr>encode_list := encode_list x @ [new_context env a m]\<rparr>) sm)"
    by (rule step_upd_ses[OF st]) (auto simp: cmd_key_def ses_ctx_def new_context_ok)
  then show "step_ok {cmd_key dev enc} s s1" using assms a m l
    by (auto simp: prepare_encode_def step_refl intro: step_lists[OF step_refl] split: option.splits if_splits)
  have self: "\<exists>e. x = x\<lparr>c_encode_id := e\<rparr>" for x :: otz_client_encode_cmd
    by (rule exI[of _ "c_encode_id x"]) simp
  show "\<exists>e. enc1 = enc\<lparr>c_encode_id := e\<rparr>" using assms a m
    by (auto simp: prepare_encode_def intro: self split: option.splits if_splits)
qed

lemma cmd_key_id [simp]: "cmd_key dev (enc\<lparr>c_encode_id := e\<rparr>) = cmd_key dev enc"
  by (simp add: cmd_key_def)

lemma upd_ctx_key: "step_ok T s s1 \<Longrightarrow> cmd_key dev enc \<in> T \<Longrightarrow>
    (ctx_ok (cmd_ctx dev enc s1) \<Longrightarrow> ctx_ok (f (cmd_ctx dev enc s1))) \<Longrightarrow> step_ok T s (upd_ctx dev enc f s1)"
  unfolding cmd_key_def by (rule step_upd_ctx)

lemma buffer_step:
  assumes "cmd_key dev enc \<in> T"
  shows "req_buffer dev enc s = (s1, ok) \<Longrightarrow> step_ok T s s1" "res_buffer dev enc s = (s1, ok) \<Longrightarrow> step_ok T s s1"
proof -
  obtain a sa where a: "kmalloc s = (a, sa)" by (cases "kmalloc s")
  have st: "step_ok T s sa" by (rule step_lists[OF step_refl]) (rule kmalloc_step[OF a])
  have "step_ok T s (upd_ctx dev enc (\<lambda>c. c\<lparr>ker_req_data_addr := a\<rparr>) sa)"
    "step_ok T s (upd_ctx dev enc (\<lambda>c. c\<lparr>ker_res_data_addr := a\<rparr>) sa)"
    by (rule upd_ctx_key[OF st assms], simp add: ctx_ok_def)+
  then show "req_buffer dev enc s = (s1, ok) \<Longrightarrow> step_ok T s s1" "res_buffer dev enc s = (s1, ok) \<Longrightarrow> step_ok T s s1"
    using a by (auto simp: req_buffer_def res_buffer_def step_refl split: if_splits)
qed

text \<open>Storing a parameter after the buffer is there; the memory may change in between.\<close>

lemma push_step:
  assumes "step_ok T s s1" "cmd_key dev enc \<in> T" "dev_files s2 = dev_files s1"
  shows "req_room n (cmd_ctx dev enc s1) \<Longrightarrow> step_ok T s (upd_ctx dev enc (push_req n f) s2)"
    "res_room n (cmd_ctx dev enc s1) \<Longrightarrow> step_ok T s (upd_ctx dev enc (push_res n f) s2)"
  using upd_ctx_key[OF step_lists[OF assms(1,3)] assms(2)] push_req_ok push_res_ok
  unfolding cmd_ctx_lists[OF assms(3)] by blast+

lemma param_steps:
  assumes k: "cmd_key dev enc \<in> T"
  shows "uint32_in env dev enc s = Some (s', r) \<Longrightarrow> step_ok T s s'" "uint32_out dev enc s = (s', r) \<Longrightarrow> step_ok T s s'"
    "array_in env dev enc s = (s', r) \<Longrightarrow> step_ok T s s'" "array_out dev enc s = (s', r) \<Longrightarrow> step_ok T s s'"
    "mem_ref_in env dev b enc s = (s', r) \<Longrightarrow> step_ok T s s'" "mem_ref_out env dev b enc s = (s', r) \<Longrightarrow> step_ok T s s'"
proof -
  obtain s1 ok where q: "req_buffer dev enc s = (s1, ok)" by (cases "req_buffer dev enc s")
  obtain s2 ok2 where w: "res_buffer dev enc s = (s2, ok2)" by (cases "res_buffer dev enc s")
  note st1 = buffer_step(1)[OF k q] and st2 = buffer_step(2)[OF k w]
  note p1 = push_step(1)[OF st1 k] and p2 = push_step(2)[OF st2 k]
  obtain sc all_copied where c: "copy_from_user env (ker_req_data_addr (cmd_ctx dev enc s1) + req_off (cmd_ctx dev enc s1)) (c_data enc) (c_len enc) s1 = (sc, all_copied)"
    by (cases "copy_from_user env (ker_req_data_addr (cmd_ctx dev enc s1) + req_off (cmd_ctx dev enc s1)) (c_data enc) (c_len enc) s1")
  then have lc: "dev_files sc = dev_files s1" by (auto simp: copy_from_user_def)
  show "uint32_in env dev enc s = Some (s', r) \<Longrightarrow> step_ok T s s'"
    using st1 p1 by (auto simp: uint32_in_def q Let_def split: if_splits)
  show "uint32_out dev enc s = (s', r) \<Longrightarrow> step_ok T s s'"
    using st2 p2[OF refl] by (auto simp: uint32_out_def w split: if_splits)
  show "array_in env dev enc s = (s', r) \<Longrightarrow> step_ok T s s'"
    using st1 p1[OF lc] step_lists[OF st1 lc] by (auto simp: array_in_def q Let_def c split: if_splits)
  show "array_out dev enc s = (s', r) \<Longrightarrow> step_ok T s s'"
    using st2 p2[OF refl] by (auto simp: array_out_def w split: if_splits)
  show "mem_ref_in env dev b enc s = (s', r) \<Longrightarrow> step_ok T s s'"
    using st1 p1 by (auto simp: mem_ref_in_def q Let_def split: if_splits)
  show "mem_ref_out env dev b enc s = (s', r) \<Longrightarrow> step_ok T s s'"
    using st2 p2 by (auto simp: mem_ref_out_def w Let_def split: if_splits)
qed

lemma encode_steps:
  shows "encode_uint32 env dev rw enc s = Some (s', e', r) \<Longrightarrow> step_ok {cmd_key dev enc} s s'"
    and "encode_array env dev rw enc s = (s', e', r) \<Longrightarrow> step_ok {cmd_key dev enc} s s'"
    and "encode_mem_ref env dev rw enc s = (s', e', r) \<Longrightarrow> step_ok {cmd_key dev enc} s s'"
proof -
  obtain s1 enc1 r1 where p: "prepare_encode env dev enc s = (s1, enc1, r1)" by (cases "prepare_encode env dev enc s")
  note st = prepare_encode_step(1)[OF p]
  have k: "cmd_key dev enc1 \<in> {cmd_key dev enc}" using prepare_encode_step(2)[OF p] by auto
  note steps = param_steps[OF k, THEN step_trans[OF st]]
  show "step_ok {cmd_key dev enc} s s'" if h: "encode_uint32 env dev rw enc s = Some (s', e', r)"
  proof (cases "c_param enc")
    case OTZC_PARAM_IN
    then show ?thesis using h p st steps(1) by (auto simp: encode_uint32_def step_refl split: if_splits)
  next
    case OTZC_PARAM_OUT
    obtain s2 r2 where "uint32_out dev enc1 s1 = (s2, r2)" by (cases "uint32_out dev enc1 s1")
    then show ?thesis using h p st steps(2) OTZC_PARAM_OUT by (auto simp: encode_uint32_def step_refl split: if_splits)
  next
    case Other_Param
    then show ?thesis using h p st by (auto simp: encode_uint32_def step_refl split: if_splits)
  qed
  show "step_ok {cmd_key dev enc} s s'" if h: "encode_array env dev rw enc s = (s', e', r)"
  proof -
    obtain s2 r2 where i: "array_in env dev enc1 s1 = (s2, r2)" by (cases "array_in env dev enc1 s1")
    obtain s3 r3 where o: "array_out dev enc1 s1 = (s3, r3)" by (cases "array_out dev enc1 s1")
    show ?thesis using h p st steps(3)[OF i] steps(4)[OF o] i o
      by (auto simp: encode_array_def step_refl split: if_splits otzc_param_type.splits)
  qed
  show "step_ok {cmd_key dev enc} s s'" if h: "encode_mem_ref env dev rw enc s = (s', e', r)"
  proof (cases "find_shared dev enc1 s1")
    case None
    then show ?thesis using h p st by (auto simp: encode_mem_ref_def kernel_encode_mem_ref_def step_refl split: if_splits)
  next
    case (Some b)
    obtain s2 r2 where i: "mem_ref_in env dev b enc1 s1 = (s2, r2)" by (cases "mem_ref_in env dev b enc1 s1")
    obtain s3 r3 where o: "mem_ref_out env dev b enc1 s1 = (s3, r3)" by (cases "mem_ref_out env dev b enc1 s1")
    show ?thesis using h p st steps(5)[OF i] steps(6)[OF o] i o Some
      by (auto simp: encode_mem_ref_def kernel_encode_mem_ref_def step_refl split: if_splits otzc_param_type.splits)
  qed
qed

lemma prepare_decode_ctx: "prepare_decode dev dec s = Some c \<Longrightarrow> cmd_ctx dev dec s = c"
  by (auto simp: prepare_decode_def cmd_ctx_def split: if_splits)

lemma advance_step:
  assumes "prepare_decode dev dec s = Some c" "dec_ok c" "dev_files s1 = dev_files s"
  shows "step_ok {cmd_key dev dec} s (upd_ctx dev dec (advance n) s1)"
  by (rule upd_ctx_key[OF step_lists[OF step_refl assms(3)]])
    (use advance_ok[of c n] assms(2) prepare_decode_ctx[OF assms(1)] cmd_ctx_lists[OF assms(3)] in simp_all)

lemma decode_steps:
  shows "decode_uint32 env dev rw dec s = Some (s', e', r) \<Longrightarrow> step_ok {cmd_key dev dec} s s'"
    and "decode_array_space env dev rw dec s = (s', e', r) \<Longrightarrow> step_ok {cmd_key dev dec} s s'"
    and "get_decode_type dev rw dec s = (s', e', r) \<Longrightarrow> step_ok {cmd_key dev dec} s s'"
proof -
  show "step_ok {cmd_key dev dec} s s'" if h: "decode_uint32 env dev rw dec s = Some (s', e', r)"
  proof (cases "prepare_decode dev dec s")
    case None
    then show ?thesis using h by (auto simp: decode_uint32_def step_refl split: if_splits)
  next
    case (Some c)
    then show ?thesis using h advance_step[OF Some]
      by (auto simp: decode_uint32_def Let_def step_refl split: if_splits)
  qed
  show "step_ok {cmd_key dev dec} s s'" if h: "decode_array_space env dev rw dec s = (s', e', r)"
  proof (cases "prepare_decode dev dec s")
    case None
    then show ?thesis using h by (auto simp: decode_array_space_def step_refl split: if_splits)
  next
    case (Some c)
    have a: "step_ok {cmd_key dev dec} s s1" if "decode_array env dev dec c s = (s1, d1, r1)" "dec_ok c" for s1 d1 r1
    proof -
      define d2 where "d2 = (if usr_addr (dec_meta c) \<noteq> 0 then dec\<lparr>c_data := usr_addr (dec_meta c)\<rparr> else dec)"
      obtain sc q where cp: "copy_to_user env (c_data d2) (ker_res_data_addr c + dec_off c) (ret_len (dec_meta c)) s = (sc, q)"
        by (cases "copy_to_user env (c_data d2) (ker_res_data_addr c + dec_off c) (ret_len (dec_meta c)) s")
      then have lc: "dev_files sc = dev_files s" by (auto simp: copy_to_user_def)
      show ?thesis using that advance_step[OF Some that(2) lc] step_lists[OF step_refl lc] cp
        by (auto simp: decode_array_def Let_def step_refl d2_def split: if_splits)
    qed
    have b: "step_ok {cmd_key dev dec} s s1" if "kernel_decode_array_space dev dec s = (s1, d1, r1)" for s1 d1 r1
      using that advance_step[OF Some] Some by (auto simp: kernel_decode_array_space_def step_refl split: if_splits)
    show ?thesis using h Some a b
      by (auto simp: decode_array_space_def step_refl split: if_splits prod.splits)
  qed
  show "step_ok {cmd_key dev dec} s s'" if h: "get_decode_type dev rw dec s = (s', e', r)"
    using h by (auto simp: get_decode_type_def step_refl split: if_splits option.splits)
qed

lemma smc_step: "step_ok T s s1 \<Longrightarrow> otz_smc_call env dev svc cmd cx e cb cl rb rl mb m s1 = (s2, y) \<Longrightarrow> step_ok T s s2"
  using step_lists smc_same_lists by blast

lemma send_context_step:
  assumes "send_context env dev enc s = (s1, enc1, f)"
  shows "step_ok {cmd_key dev enc} s s1" "cmd_key dev enc1 = cmd_key dev enc"
proof -
  obtain sp ep rp where p: "prepare_encode env dev enc s = (sp, ep, rp)" by (cases "prepare_encode env dev enc s")
  show "step_ok {cmd_key dev enc} s s1" "cmd_key dev enc1 = cmd_key dev enc"
    using assms p prepare_encode_step[OF p]
    by (auto simp: send_context_def step_refl split: option.splits if_splits)
qed

lemma send_call_step: "send_call env dev enc s = (s1, r) \<Longrightarrow> step_ok {cmd_key dev enc} s s1"
proof -
  assume h: "send_call env dev enc s = (s1, r)"
  obtain s2 m rv l where c: "otz_smc_call env dev (c_service enc) (c_cmd enc) (c_session enc) (c_encode_id enc)
      (ker_req_data_addr (cmd_ctx dev enc s)) (req_off (cmd_ctx dev enc s)) (ker_res_data_addr (cmd_ctx dev enc s))
      (res_off (cmd_ctx dev enc s)) (meta_at (cmd_ctx dev enc s)) (meta (cmd_ctx dev enc s)) s = (s2, m, rv, l)"
    by (metis prod_cases4)
  have "step_ok {cmd_key dev enc} s (upd_ctx dev enc (\<lambda>c. c\<lparr>meta := m\<rparr>) s2)"
    by (rule upd_ctx_key[OF smc_step[OF step_refl c]]) (simp_all add: ctx_ok_def)
  then show ?thesis using h c by (simp add: send_call_def Let_def)
qed

lemma send_cmd_step: "send_cmd env dev rw enc s = (s', e', r) \<Longrightarrow> step_ok {cmd_key dev enc} s s'"
proof -
  assume h: "send_cmd env dev rw enc s = (s', e', r)"
  obtain s1 enc1 f where c: "send_context env dev enc s = (s1, enc1, f)" by (cases "send_context env dev enc s")
  obtain s2 r2 where d: "send_call env dev enc1 s1 = (s2, r2)" by (cases "send_call env dev enc1 s1")
  note st = send_context_step[OF c]
  have "step_ok {cmd_key dev enc} s s2" using step_trans[OF st(1)] send_call_step[OF d] st(2) by simp
  then show ?thesis using h st c d
    by (auto simp: send_cmd_def kernel_send_cmd_def step_refl split: if_splits)
qed

lemma operation_release_step: "operation_release dev rw enc s = (s', r) \<Longrightarrow> step_ok {cmd_key dev enc} s s'"
proof -
  assume h: "operation_release dev rw enc s = (s', r)"
  have st: "step_ok {cmd_key dev enc} s (upd_ses dev (c_service enc) (c_session enc)
      (\<lambda>x. x\<lparr>encode_list := del_first (\<lambda>c. encode_id c = c_encode_id enc) (encode_list x)\<rparr>)
      (free_nonnull b (free_nonnull a s)))" for a b
    by (rule step_upd_ses[OF step_lists[OF step_refl]])
      (use set_del_first[of "\<lambda>c. encode_id c = c_encode_id enc"] in \<open>auto simp: cmd_key_def ses_ctx_def\<close>)
  show ?thesis using h step_lists[OF st]
    by (auto simp: operation_release_def kernel_operation_release_def step_refl split: if_splits option.splits)
qed

lemma session_open_step: "session_open env dev rw so s = (s', so', r) \<Longrightarrow> step_ok {} s s'"
proof -
  assume h: "session_open env dev rw so s = (s', so', r)"
  obtain a s1 where k: "kmalloc (s\<lparr>vmem := store32 (stack_at env) (so_service so) (vmem s)\<rparr>) = (a, s1)" by fastforce
  obtain s2 m rv l where c: "otz_smc_call env dev GLOBAL_SVC CMD_OPEN_SESSION 0 0 (stack_at env) 4 (a + 8) 4 0 (fresh_meta env) s1 = (s2, m, rv, l)"
    by (metis prod_cases4)
  have l1: "step_ok {} s s1" by (rule step_lists[OF step_refl]) (use kmalloc_step[OF k] in simp)
  note l2 = smc_step[OF l1 c]
  have "step_ok {} s (kfree a s2)" by (rule step_lists[OF l2]) simp
  then show ?thesis using h k c l1 step_add_session[OF l2]
    by (auto simp: session_open_def Let_def step_refl split: if_splits option.splits)
qed

lemma session_close_step: "session_close env dev rw sc s = (s', r) \<Longrightarrow> step_ok {(dev, so_service sc, so_session sc)} s s'"
proof -
  assume h: "session_close env dev rw sc s = (s', r)"
  have "step_ok {(dev, so_service sc, so_session sc)} s (close_session_for_service env dev v x s)"
    if "find_svc dev (so_service sc) s = Some v" "find_ses dev (so_service sc) (so_session sc) s = Some x" for v x
  proof -
    have "service_id v = so_service sc" "session_id x = so_session sc" using that
      by (auto simp: find_svc_def find_ses_def dest!: find_in split: bind_splits)
    then show ?thesis unfolding close_session_for_service_def
      by (intro step_del_session step_lists[OF step_refl]) auto
  qed
  then show ?thesis using h by (auto simp: session_close_def step_refl split: if_splits option.splits)
qed

lemma shared_steps:
  shows "shared_mem_alloc dev rw mi s = (s', r) \<Longrightarrow> step_ok {(dev, mi_service mi, mi_session mi)} s s'"
    and "shared_mem_free dev rw mi s = (s', r) \<Longrightarrow> step_ok {(dev, mi_service mi, mi_session mi)} s s'"
proof -
  have "step_ok {(dev, mi_service mi, mi_session mi)} s (upd_ses dev (mi_service mi) (mi_session mi) (\<lambda>x. x\<lparr>ses_shared := ses_shared x @ [b]\<rparr>)
      (upd_dev dev (\<lambda>d. d\<lparr>dev_shared := del_first (\<lambda>b. index b = user_mem_addr mi) (dev_shared d), shared_mem_cnt := shared_mem_cnt d - 1\<rparr>) s))" for b
    by (rule step_upd_ses[OF step_upd_dev[OF step_refl]]) (simp_all add: ses_ctx_def)
  then show "shared_mem_alloc dev rw mi s = (s', r) \<Longrightarrow> step_ok {(dev, mi_service mi, mi_session mi)} s s'"
    by (auto simp: shared_mem_alloc_def step_refl split: if_splits option.splits)
  have st: "step_ok {(dev, mi_service mi, mi_session mi)} s (upd_ses dev (mi_service mi) (mi_session mi)
      (\<lambda>x. x\<lparr>ses_shared := del_first (\<lambda>b. index b = user_mem_addr mi) (ses_shared x)\<rparr>) s)"
    by (rule step_upd_ses[OF step_refl]) (simp_all add: ses_ctx_def)
  have "step_ok {(dev, mi_service mi, mi_session mi)} s (free_shared b (upd_ses dev (mi_service mi) (mi_session mi)
      (\<lambda>x. x\<lparr>ses_shared := del_first (\<lambda>b. index b = user_mem_addr mi) (ses_shared x)\<rparr>) s))" for b
    by (rule step_lists[OF st]) simp
  then show "shared_mem_free dev rw mi s = (s', r) \<Longrightarrow> step_ok {(dev, mi_service mi, mi_session mi)} s s'"
    by (auto simp: shared_mem_free_def step_refl split: if_splits option.splits)
qed

section \<open>The interface as a whole\<close>

text \<open>The session a request is about.\<close>

definition ioctl_session :: "u32 \<Rightarrow> ioctl_cmd \<Rightarrow> (u32 \<times> u32 \<times> u32) set" where
  "ioctl_session dev cmd =
     (case cmd of
        IOCTL_SEND_CMD_REQ enc \<Rightarrow> {cmd_key dev enc} | IOCTL_ENC_UINT32 enc \<Rightarrow> {cmd_key dev enc}
      | IOCTL_DEC_UINT32 enc \<Rightarrow> {cmd_key dev enc} | IOCTL_ENC_ARRAY enc \<Rightarrow> {cmd_key dev enc}
      | IOCTL_DEC_ARRAY_SPACE enc \<Rightarrow> {cmd_key dev enc} | IOCTL_ENC_MEM_REF enc \<Rightarrow> {cmd_key dev enc}
      | IOCTL_ENC_ARRAY_SPACE enc \<Rightarrow> {cmd_key dev enc} | IOCTL_GET_DECODE_TYPE enc \<Rightarrow> {cmd_key dev enc}
      | IOCTL_OPERATION_RELEASE enc \<Rightarrow> {cmd_key dev enc}
      | IOCTL_SES_CLOSE_REQ sc \<Rightarrow> {(dev, so_service sc, so_session sc)}
      | IOCTL_SHR_MEM_ALLOCATE_REQ mi \<Rightarrow> {(dev, mi_service mi, mi_session mi)}
      | IOCTL_SHR_MEM_FREE_REQ mi \<Rightarrow> {(dev, mi_service mi, mi_session mi)}
      | IOCTL_SES_OPEN_REQ so \<Rightarrow> {} | IOCTL_UNKNOWN \<Rightarrow> {})"

lemma ioctl_step: "client_ioctl env dev rw cmd s = Some (s', cmd', r) \<Longrightarrow> step_ok (ioctl_session dev cmd) s s'"
  by (cases cmd) (auto simp: client_ioctl_def ioctl_session_def step_refl
    dest: send_cmd_step encode_steps decode_steps session_open_step session_close_step shared_steps operation_release_step
    split: prod.splits)

lemma mmap_step: "mmap env dev a b s = Some (s', r) \<Longrightarrow> step_ok {} s s'"
proof -
  assume h: "mmap env dev a b s = Some (s', r)"
  obtain p s1 where p: "get_free_pages s = (p, s1)" by (cases "get_free_pages s")
  obtain k s2 where k: "kmalloc s1 = (k, s2)" by (cases "kmalloc s1")
  have l1: "step_ok {} s s1" by (rule step_lists[OF step_refl]) (use same_lists(8)[of s] p in simp)
  have l2: "step_ok {} s s2" by (rule step_lists[OF l1]) (rule kmalloc_step[OF k])
  show ?thesis using h p k l1 l2 step_upd_dev[OF l2]
    by (auto simp: mmap_def split: if_splits)
qed

definition dev_sessions :: "u32 \<Rightarrow> (u32 \<times> u32 \<times> u32) set" where
  "dev_sessions dev = {k. fst k = dev}"

lemma step_dev_any:
  assumes "step_ok (dev_sessions dev) s s1" and "\<And>d. dev_file_id (f d) = dev_file_id d"
    and "\<And>d. dev_ctx ctx_ok d \<Longrightarrow> dev_ctx ctx_ok (f d)"
  shows "step_ok (dev_sessions dev) s (upd_dev dev f s1)"
proof (rule step_trans[OF assms(1)])
  have "find_ses d v x (upd_dev dev f s1) = find_ses d v x s1" if "d \<noteq> dev" for d v x
    using that by (simp add: find_ses_def find_svc_def find_dev_upd[OF assms(2)])
  moreover have "all_ctx ctx_ok s1 \<Longrightarrow> all_ctx ctx_ok (upd_dev dev f s1)"
    by (rule all_ctx_upd_dev) (rule assms(3))
  ultimately show "step_ok (dev_sessions dev) s1 (upd_dev dev f s1)" by (auto simp: step_ok_def dev_sessions_def)
qed

lemma services_init_step: "services_init dev vs s = (s', r) \<Longrightarrow> step_ok (dev_sessions dev) s s'"
proof (induction vs arbitrary: s)
  case Nil
  then show ?case by (simp add: step_refl)
next
  case (Cons v vs)
  obtain a s1 where k: "kmalloc s = (a, s1)" by (cases "kmalloc s")
  have l1: "step_ok (dev_sessions dev) s s1" by (rule step_lists[OF step_refl]) (rule kmalloc_step[OF k])
  obtain s2 r2 where i: "service_init dev v s = (s2, r2)" by (cases "service_init dev v s")
  have "step_ok (dev_sessions dev) s s2"
  proof (cases "a = 0")
    case True
    then have "s2 = upd_dev dev (\<lambda>d. d\<lparr>services := []\<rparr>) (fold (\<lambda>v. kfree (svc_at v)) (case find_dev dev s1 of None \<Rightarrow> [] | Some d \<Rightarrow> services d) s1)"
      using i k by (simp add: service_init_def)
    moreover have "dev_files (fold (\<lambda>v. kfree (svc_at v)) vs s1) = dev_files s1" for vs by (rule fold_same_lists) simp
    ultimately show ?thesis
      by (simp only:) (rule step_dev_any[OF step_lists[OF l1]], simp_all add: dev_ctx_def)
  next
    case False
    then have "s2 = upd_dev dev (\<lambda>d. d\<lparr>service_cnt := service_cnt d + 1,
                services := \<lparr>svc_at = a, service_id = v, sessions = []\<rparr> # services d\<rparr>) (s1\<lparr>vmem := store32 (a + 8) v (vmem s1)\<rparr>)"
      using i k by (simp add: service_init_def)
    then show ?thesis
      by (simp only:) (rule step_dev_any[OF step_lists[OF l1]], simp_all add: dev_ctx_def svc_ctx_def)
  qed
  then show ?case using Cons i step_trans by (fastforce split: if_splits)
qed

lemma client_open_step: "client_open s = (s', dev, r) \<Longrightarrow> step_ok (dev_sessions dev) s s'"
proof -
  assume h: "client_open s = (s', dev, r)"
  obtain a s1 where k: "kmalloc (s\<lparr>device_file_cnt := device_file_cnt s + 1\<rparr>) = (a, s1)" by fastforce
  have dev: "dev = device_file_cnt s + 1" using h k by (auto simp: client_open_def Let_def split: if_splits prod.splits)
  have l: "dev_files s1 = dev_files s" using kmalloc_step[OF k] by simp
  have l1: "step_ok (dev_sessions dev) s s1" by (rule step_lists[OF step_refl]) (rule l)
  define s2 where "s2 = s1\<lparr>dev_files := \<lparr>df_at = a, dev_file_id = dev, service_cnt = 0, services = [], shared_mem_cnt = 0, dev_shared = []\<rparr>
                  # dev_files s1, dev_file_cnt := dev_file_cnt s1 + 1\<rparr>"
  have "step_ok (dev_sessions dev) s s2"
    by (auto simp: step_ok_def s2_def l dev_sessions_def find_ses_def find_svc_def find_dev_def all_ctx_def dev_ctx_def)
  moreover obtain s3 r3 where i: "services_init dev client_services s2 = (s3, r3)" by (cases "services_init dev client_services s2")
  ultimately have "step_ok (dev_sessions dev) s s3" using step_trans services_init_step by blast
  then show ?thesis using h k l1 i by (auto simp: client_open_def Let_def dev s2_def split: if_splits)
qed

lemma client_release_step: "client_release env dev s = (s', r) \<Longrightarrow> step_ok (dev_sessions dev) s s'"
proof -
  assume h: "client_release env dev s = (s', r)"
  show ?thesis
  proof (cases "find_dev dev s")
    case None
    then show ?thesis using h by (simp add: client_release_def service_exit_def step_refl)
  next
    case (Some d)
    define s1 where "s1 = fold (close_service env dev) (services d) (fold free_shared (dev_shared d) s)"
    have cs: "dev_files (close_service env dev v s) = dev_files s" for v s
      by (simp add: close_service_def fold_same_lists)
    have l: "dev_files s1 = dev_files s"
      unfolding s1_def by (simp add: fold_same_lists cs)
    have s': "s' = kfree (df_at d) (s1\<lparr>dev_files := del_first (\<lambda>d. dev_file_id d = dev) (dev_files s1)\<rparr>)"
      using h Some by (simp add: client_release_def service_exit_def Let_def s1_def)
    have "find_dev d' s' = find_dev d' s" if "d' \<noteq> dev" for d'
      using that by (simp add: s' find_dev_def l devs.find_del_other[simplified])
    then show ?thesis using set_del_first[of "\<lambda>d. dev_file_id d = dev" "dev_files s"]
      by (auto simp: step_ok_def dev_sessions_def find_ses_def find_svc_def all_ctx_def s' l)
  qed
qed

end
