(* ===== verification/Driver_Runs.thy ===== *)
theory Driver_Runs
  imports Driver
begin

text \<open>
  What the client driver does for the secure world: parameters encoded by the driver are decoded by the
  session as the user had them, every run of the device interface keeps the contexts within bounds, requests change
  only the session they name, and what a command, a release and a close do.
\<close>

section \<open>From the user to the secure application\<close>

text \<open>A parameter: whether it is an array, its address and its length.\<close>

type_synonym param = "bool \<times> u32 \<times> u32"

definition param_type :: "param \<Rightarrow> otz_enc_data_type" where
  "param_type p = (if fst p then OTZ_ENC_ARRAY else OTZ_ENC_UINT32)"

definition param_addr :: "param \<Rightarrow> u32" where "param_addr p = fst (snd p)"
definition param_len :: "param \<Rightarrow> u32" where "param_len p = snd (snd p)"

lemmas param_defs = param_type_def param_addr_def param_len_def

text \<open>The requests of a user that passes parameters one after the other; \<open>None\<close> when one of them fails.\<close>

definition encode_param ::
    "drv_env \<Rightarrow> u32 \<Rightarrow> param \<Rightarrow> otz_client_encode_cmd \<Rightarrow> driver \<Rightarrow> (driver \<times> otz_client_encode_cmd \<times> int) option" where
  "encode_param env dev p enc s =
     (let e = enc\<lparr>c_param := OTZC_PARAM_IN, c_data := param_addr p, c_len := param_len p\<rparr> in
      if fst p then Some (encode_array env dev (True, True) e s) else encode_uint32 env dev (True, True) e s)"

fun encode_params ::
    "drv_env \<Rightarrow> u32 \<Rightarrow> param list \<Rightarrow> otz_client_encode_cmd \<Rightarrow> driver \<Rightarrow> (driver \<times> otz_client_encode_cmd) option" where
  "encode_params env dev [] enc s = Some (s, enc)"
| "encode_params env dev (p # ps) enc s =
     (case encode_param env dev p enc s of
        Some (s', enc', r) \<Rightarrow> if r = 0 then encode_params env dev ps enc' s' else None
      | None \<Rightarrow> None)"

definition copy_mem :: "u32 \<Rightarrow> u32 \<Rightarrow> u32 \<Rightarrow> bytes \<Rightarrow> bytes" where
  "copy_mem to from n m = (\<lambda>x. if x - to < n then m (from + (x - to)) else m x)"

lemma byte_of_load:
  "ucast (load32 m a) = m a" "ucast (drop_bit 8 (load32 m a)) = m (a + 1)"
  "ucast (drop_bit 16 (load32 m a)) = m (a + 2)" "ucast (drop_bit 24 (load32 m a)) = m (a + 3)"
proof -
  show "ucast (load32 m a) = m a"
    unfolding load32_def by (rule bit_word_eqI) (auto simp: bit_or_iff bit_push_bit_iff bit_ucast_iff)
  show "ucast (drop_bit 8 (load32 m a)) = m (a + 1)"
    unfolding load32_def by (rule bit_word_eqI)
      (auto simp: bit_or_iff bit_push_bit_iff bit_ucast_iff bit_drop_bit_eq dest: bit_imp_le_length)
  show "ucast (drop_bit 16 (load32 m a)) = m (a + 2)"
    unfolding load32_def by (rule bit_word_eqI)
      (auto simp: bit_or_iff bit_push_bit_iff bit_ucast_iff bit_drop_bit_eq dest: bit_imp_le_length)
  show "ucast (drop_bit 24 (load32 m a)) = m (a + 3)"
    unfolding load32_def by (rule bit_word_eqI)
      (auto simp: bit_or_iff bit_push_bit_iff bit_ucast_iff bit_drop_bit_eq dest: bit_imp_le_length)
qed

lemma u32_less_4: "(d :: u32) < 4 \<longleftrightarrow> d = 0 \<or> d = 1 \<or> d = 2 \<or> d = 3"
proof -
  have "d < 4 \<longleftrightarrow> unat d < 4" by (simp add: word_less_nat_alt)
  also have "\<dots> \<longleftrightarrow> unat d = 0 \<or> unat d = 1 \<or> unat d = 2 \<or> unat d = 3" by linarith
  also have "\<dots> \<longleftrightarrow> d = 0 \<or> d = 1 \<or> d = 2 \<or> d = 3"
    using word_unat_eq_iff[of d 0] word_unat_eq_iff[of d 1] word_unat_eq_iff[of d 2] word_unat_eq_iff[of d 3] by simp
  finally show ?thesis .
qed

lemma store_load_copy: "store32 to (load32 m from) m = copy_mem to from 4 m"
proof
  fix x :: u32
  consider "x = to" | "x = to + 1" | "x = to + 2" | "x = to + 3" | "x \<notin> {to, to + 1, to + 2, to + 3}" by blast
  then show "store32 to (load32 m from) m x = copy_mem to from 4 m x"
  proof cases
    case 5
    then have "\<not> x - to < 4" unfolding u32_less_4 by (auto simp: diff_eq_eq add.commute)
    then show ?thesis using 5 by (simp add: store32_def copy_mem_def)
  qed (simp_all add: store32_def copy_mem_def byte_of_load)
qed

text \<open>What a request of one parameter does.\<close>

definition param_ok :: "drv_env \<Rightarrow> param \<Rightarrow> bool" where
  "param_ok env p \<longleftrightarrow> (if fst p then param_len p \<le> copyable env (param_addr p) (param_len p)
     else valid env (param_addr p) \<and> param_len p = 4)"

lemma encode_param_eq:
  assumes "prepare_encode env dev (enc\<lparr>c_param := OTZC_PARAM_IN, c_data := param_addr p, c_len := param_len p\<rparr>) s = (s0, e0, 0)"
    and "req_buffer dev e0 s0 = (s1, True)" and "param_ok env p" and "req_room (param_len p) (cmd_ctx dev e0 s1)"
    and "c_data e0 = param_addr p" "c_len e0 = param_len p" "c_param e0 = OTZC_PARAM_IN"
  shows "encode_param env dev p enc s =
    Some (upd_ctx dev e0 (push_req (param_len p) (\<lambda>m. m\<lparr>mtype := param_type p, mlen := param_len p\<rparr>))
      (s1\<lparr>vmem := copy_mem (ker_req_data_addr (cmd_ctx dev e0 s1) + req_off (cmd_ctx dev e0 s1)) (param_addr p) (param_len p) (vmem s1)\<rparr>), e0, 0)"
proof (cases "fst p")
  case True
  then have c: "param_len p \<le> copyable env (param_addr p) (param_len p)" using assms(3) by (simp add: param_ok_def)
  moreover from c have "(\<lambda>x. if x - to < param_len p then if x - to < copyable env (param_addr p) (param_len p) then vmem s1 (param_addr p + (x - to)) else 0
      else vmem s1 x) = copy_mem to (param_addr p) (param_len p) (vmem s1)" for to
    by (intro ext) (auto simp: copy_mem_def intro: less_le_trans)
  ultimately have "copy_from_user env to (param_addr p) (param_len p) s1 =
     (s1\<lparr>vmem := copy_mem to (param_addr p) (param_len p) (vmem s1)\<rparr>, True)" for to
    by (simp only: copy_from_user_def)
  then show ?thesis using True assms
    by (simp add: encode_param_def Let_def encode_array_def array_in_def param_type_def)
next
  case False
  then show ?thesis using assms
    by (simp add: encode_param_def Let_def encode_uint32_def uint32_in_def param_type_def param_ok_def store_load_copy)
qed

lemma of_nat_diff_big:
  assumes "j < t" "t \<le> 1024" "unat n \<le> 1024"
  shows "\<not> (of_nat j - of_nat t :: u32) < n"
proof
  assume l: "(of_nat j - of_nat t :: u32) < n"
  define d where "d = t - j"
  define a :: u32 where "a = of_nat j - of_nat t"
  have t: "t = j + d" and d: "0 < d" "d \<le> 1024" using assms by (simp_all add: d_def)
  have "a + of_nat d = 0" unfolding a_def t by simp
  moreover have "unat (of_nat d :: u32) = d" using d by (intro unat_of_nat_small) simp
  moreover have "unat a < 1024" using l assms(3) by (simp add: word_less_nat_alt a_def)
  ultimately have "unat a + d = 0" using unat_add_small[of a "of_nat d"] d by simp
  then show False using d by simp
qed

definition offs :: "param list \<Rightarrow> nat \<Rightarrow> nat" where
  "offs ps i = sum_list (map (\<lambda>p. unat (param_len p)) (take i ps))"

definition total_len :: "param list \<Rightarrow> nat" where
  "total_len ps = sum_list (map (\<lambda>p. unat (param_len p)) ps)"

lemma offs_len: "offs ps (length ps) = total_len ps" and offs_snoc: "i \<le> length ps \<Longrightarrow> offs (ps @ [p]) i = offs ps i"
  by (simp_all add: offs_def total_len_def)

lemma total_snoc: "total_len (ps @ [p]) = total_len ps + unat (param_len p)"
  by (simp add: total_len_def)

lemma offs_Suc: "i < length ps \<Longrightarrow> offs ps (Suc i) = offs ps i + unat (param_len (ps ! i))"
  by (simp add: offs_def take_Suc_conv_app_nth)

lemma offs_mono: "i \<le> j \<Longrightarrow> offs ps i \<le> offs ps j"
proof (induction j)
  case (Suc j)
  have "offs ps j \<le> offs ps (Suc j)"
    by (cases "j < length ps") (simp add: offs_Suc, simp add: offs_def)
  then show ?case using Suc by (auto simp: le_Suc_eq intro: le_trans)
qed simp

lemma offs_in: "i < length ps \<Longrightarrow> offs ps i + unat (param_len (ps ! i)) \<le> total_len ps"
  using offs_mono[of "Suc i" "length ps" ps] by (simp add: offs_Suc offs_len)

text \<open>The parameters in the buffer at \<open>b\<close>, as they were in the memory \<open>m0\<close>; the rest of the memory is that of \<open>m0\<close>.\<close>

definition stored :: "bytes \<Rightarrow> bytes \<Rightarrow> u32 \<Rightarrow> (int \<Rightarrow> otzc_encode_meta) \<Rightarrow> param list \<Rightarrow> bool" where
  "stored m0 m b f ps \<longleftrightarrow>
     (\<forall>i<length ps. mtype (f (int i)) = param_type (ps ! i) \<and> mlen (f (int i)) = param_len (ps ! i) \<and>
        (\<forall>k<unat (param_len (ps ! i)). m (b + of_nat (offs ps i + k)) = m0 (param_addr (ps ! i) + of_nat k))) \<and>
     (\<forall>x. OTZ_1K_SIZE \<le> x - b \<longrightarrow> m x = m0 x)"

definition outside :: "u32 \<Rightarrow> param \<Rightarrow> bool" where
  "outside b p \<longleftrightarrow> (\<forall>k<unat (param_len p). OTZ_1K_SIZE \<le> param_addr p + of_nat k - b)"

lemma stored_snoc:
  assumes st: "stored m0 m b f ps" and o: "outside b p" and t: "total_len ps + unat (param_len p) \<le> 1024"
  shows "stored m0 (copy_mem (b + of_nat (total_len ps)) (param_addr p) (param_len p) m) b
    (f(int (length ps) := (f (int (length ps)))\<lparr>mtype := param_type p, mlen := param_len p\<rparr>)) (ps @ [p])"
    (is "stored m0 ?m b ?f _")
proof -
  have old: "?m (b + of_nat j) = m (b + of_nat j)" if "j < total_len ps" for j
  proof -
    have "b + of_nat j - (b + of_nat (total_len ps)) = (of_nat j - of_nat (total_len ps) :: u32)" by simp
    then show ?thesis using of_nat_diff_big[OF that, of "param_len p"] t by (simp add: copy_mem_def)
  qed
  have new: "?m (b + of_nat (total_len ps + k)) = m0 (param_addr p + of_nat k)" if k: "k < unat (param_len p)" for k
  proof -
    have "b + of_nat (total_len ps + k) - (b + of_nat (total_len ps)) = (of_nat k :: u32)" by simp
    moreover have "(of_nat k :: u32) < param_len p"
      using k t unat_of_nat_small[where 'a = 32, of k] by (simp add: word_less_nat_alt)
    moreover have "m (param_addr p + of_nat k) = m0 (param_addr p + of_nat k)" using st o k by (simp add: stored_def outside_def)
    ultimately show ?thesis by (simp add: copy_mem_def)
  qed
  have rest: "?m x = m0 x" if x: "OTZ_1K_SIZE \<le> x - b" for x
  proof -
    have "of_nat (total_len ps) \<le> x - b"
      using x t unat_of_nat_small[where 'a = 32, of "total_len ps"] by (simp add: word_le_nat_alt OTZ_1K_SIZE_def)
    then have "unat (x - b - of_nat (total_len ps)) = unat (x - b) - total_len ps"
      using t unat_of_nat_small[where 'a = 32, of "total_len ps"] by (simp add: unat_sub_le)
    then have "\<not> x - (b + of_nat (total_len ps)) < param_len p"
      using x t by (simp add: word_le_nat_alt word_less_nat_alt OTZ_1K_SIZE_def diff_diff_eq)
    then show ?thesis using st x by (simp add: copy_mem_def stored_def)
  qed
  show ?thesis
    unfolding stored_def
  proof (intro conjI allI impI)
    fix i assume i: "i < length (ps @ [p])"
    show "mtype (?f (int i)) = param_type ((ps @ [p]) ! i)" "mlen (?f (int i)) = param_len ((ps @ [p]) ! i)"
      using st i by (auto simp: stored_def nth_append less_Suc_eq)
    fix k assume k: "k < unat (param_len ((ps @ [p]) ! i))"
    show "?m (b + of_nat (offs (ps @ [p]) i + k)) = m0 (param_addr ((ps @ [p]) ! i) + of_nat k)"
    proof (cases "i = length ps")
      case True
      then show ?thesis using new[of k] k by (simp add: offs_snoc offs_len)
    next
      case False
      then have il: "i < length ps" using i by simp
      then have "offs ps i + k < total_len ps" using offs_in[OF il] k by (simp add: nth_append)
      then show ?thesis using old[of "offs ps i + k"] st il k by (simp add: offs_snoc nth_append stored_def)
    qed
  next
    fix x assume "OTZ_1K_SIZE \<le> x - b"
    then show "?m x = m0 x" by (rule rest)
  qed
qed

lemma decode_stored:
  assumes st: "stored m0 m b f ps" and u: "\<forall>p\<in>set ps. \<not> fst p \<longrightarrow> param_len p = 4" and k: "k \<le> length ps"
  shows "decode_all (length ps - k) env m b f (of_nat (offs ps k)) (int k) pst =
     (pst, Inr (map (\<lambda>i. (b + of_nat (offs ps i), param_len (ps ! i))) [k..<length ps]))"
  using k
proof (induction "length ps - k" arbitrary: k)
  case (Suc n)
  then have k: "k < length ps" and n: "n = length ps - Suc k" by simp_all
  have m: "mtype (f (int k)) = param_type (ps ! k)" "mlen (f (int k)) = param_len (ps ! k)"
    using st k by (simp_all add: stored_def)
  have o: "of_nat (offs ps (Suc k)) = of_nat (offs ps k) + param_len (ps ! k)" using k by (simp add: offs_Suc)
  have "decode_data env m b f (of_nat (offs ps k)) (int k) pst =
     (pst, Inr \<lparr>d_type = param_type (ps ! k), d_offset = of_nat (offs ps (Suc k)), d_pos = int (Suc k), d_mapped = False,
        d_data = b + of_nat (offs ps k), d_len = param_len (ps ! k)\<rparr>)"
    using m u k unfolding o by (auto simp: decode_data_def param_type_def Let_def add.commute)
  moreover have "[k..<length ps] = k # [Suc k..<length ps]" using k by (simp add: upt_conv_Cons)
  ultimately show ?case using Suc.hyps(1)[OF n] k Suc.hyps(2)[symmetric] n by simp
qed simp

text \<open>The driver while it encodes for a context with identifier \<open>a\<close> and the request buffer \<open>b\<close>, after which the
  allocator answers \<open>ks\<close>.\<close>

definition encoded ::
    "bytes \<Rightarrow> u32 \<Rightarrow> u32 \<Rightarrow> u32 \<Rightarrow> u32 list \<Rightarrow> otz_client_encode_cmd \<Rightarrow> param list \<Rightarrow> driver \<Rightarrow> bool" where
  "encoded m0 dev a b ks enc ps s \<longleftrightarrow>
     (\<exists>c. find_enc dev (c_service enc) (c_session enc) a s = Some c \<and> a \<noteq> - 1 \<and> b \<noteq> 0 \<and>
        req_off c = of_nat (total_len ps) \<and> req_pos c = of_nat (length ps) \<and> stored m0 (vmem s) b (meta c) ps \<and>
        (ker_req_data_addr c = b \<and> kmallocs s = ks \<or> (ps = [] \<and> ker_req_data_addr c = 0 \<and> kmallocs s = b # ks)))"

lemma find_ses_of_enc: "find_enc d v x e s = Some c \<Longrightarrow> \<exists>y. find_ses d v x s = Some y"
  by (auto simp: find_enc_def split: bind_splits)

lemma encode_param_step:
  assumes e: "encoded m0 dev a b ks enc ps s" and id: "c_encode_id enc = a" and p: "param_ok env p" "outside b p"
    and t: "total_len ps + unat (param_len p) \<le> 1024" "length ps < 12"
  shows "\<exists>s'. encode_param env dev p enc s =
      Some (s', enc\<lparr>c_param := OTZC_PARAM_IN, c_data := param_addr p, c_len := param_len p\<rparr>, 0) \<and>
    encoded m0 dev a b ks enc (ps @ [p]) s'"
proof -
  let ?e = "enc\<lparr>c_param := OTZC_PARAM_IN, c_data := param_addr p, c_len := param_len p\<rparr>"
  obtain c where c: "find_enc dev (c_service enc) (c_session enc) a s = Some c" "a \<noteq> - 1" "b \<noteq> 0"
    "req_off c = of_nat (total_len ps)" "req_pos c = of_nat (length ps)" "stored m0 (vmem s) b (meta c) ps"
    "ker_req_data_addr c = b \<and> kmallocs s = ks \<or> (ker_req_data_addr c = 0 \<and> kmallocs s = b # ks)"
    using e by (auto simp: encoded_def)
  have prep: "prepare_encode env dev ?e s = (s, ?e, 0)"
    using c(1,2) id find_ses_of_enc[OF c(1)] by (auto simp: prepare_encode_def)
  obtain s1 where s1: "req_buffer dev ?e s = (s1, True)" "find_enc dev (c_service enc) (c_session enc) a s1 = Some (c\<lparr>ker_req_data_addr := b\<rparr>)"
    "vmem s1 = vmem s" "kmallocs s1 = ks"
  proof (cases "ker_req_data_addr c = b")
    case True
    then have "c\<lparr>ker_req_data_addr := b\<rparr> = c" "kmallocs s = ks" using c(3,7) by auto
    then show ?thesis using that[of s] c True id by (simp add: req_buffer_def cmd_ctx_def)
  next
    case False
    then have as: "ker_req_data_addr c = 0" "kmallocs s = b # ks" using c(7) by blast+
    define s2 where "s2 = upd_ctx dev ?e (\<lambda>c. c\<lparr>ker_req_data_addr := b\<rparr>) (s\<lparr>kmallocs := ks\<rparr>)"
    have "find_enc dev (c_service enc) (c_session enc) a (s\<lparr>kmallocs := ks\<rparr>) = Some c"
      using c(1) find_cong_lists(4)[of "s\<lparr>kmallocs := ks\<rparr>" s] by simp
    then have "find_enc dev (c_service enc) (c_session enc) a s2 = Some (c\<lparr>ker_req_data_addr := b\<rparr>)"
      by (simp add: s2_def upd_ctx_def id find_enc_upd)
    moreover have "req_buffer dev ?e s = (s2, True)" using as c(1,3) id
      by (simp add: req_buffer_def cmd_ctx_def kmalloc_def s2_def)
    ultimately show ?thesis using that[of s2] by (simp add: s2_def)
  qed
  have ctx: "cmd_ctx dev ?e s1 = c\<lparr>ker_req_data_addr := b\<rparr>" using s1(2) id by (simp add: cmd_ctx_def)
  have room: "req_room (param_len p) (c\<lparr>ker_req_data_addr := b\<rparr>)"
  proof -
    have "unat (of_nat (total_len ps) :: u32) = total_len ps" using t by (intro unat_of_nat_small) simp
    then have "unat (of_nat (total_len ps) + param_len p) = total_len ps + unat (param_len p)"
      using unat_add_small[of "of_nat (total_len ps)" "param_len p"] t by simp
    then have "of_nat (total_len ps) + param_len p \<le> OTZ_1K_SIZE"
      using t by (simp add: word_le_nat_alt OTZ_1K_SIZE_def)
    then show ?thesis using c(4,5) small_counts(2)[OF t(2)] by (simp add: req_room_def OTZ_MAX_REQ_PARAMS_def)
  qed
  define f where "f = (\<lambda>m :: otzc_encode_meta. m\<lparr>mtype := param_type p, mlen := param_len p\<rparr>)"
  define m' where "m' = copy_mem (b + of_nat (total_len ps)) (param_addr p) (param_len p) (vmem s)"
  define s' where "s' = upd_ctx dev ?e (push_req (param_len p) f) (s1\<lparr>vmem := m'\<rparr>)"
  have r: "encode_param env dev p enc s = Some (s', ?e, 0)"
    using encode_param_eq[OF prep s1(1) p(1)] ctx room c(4) s1(3) by (simp add: s'_def m'_def f_def)
  have "find_enc dev (c_service enc) (c_session enc) a (s1\<lparr>vmem := m'\<rparr>) = Some (c\<lparr>ker_req_data_addr := b\<rparr>)"
    using s1(2) find_cong_lists(4)[of "s1\<lparr>vmem := m'\<rparr>" s1] by simp
  then have f': "find_enc dev (c_service enc) (c_session enc) a s' = Some (push_req (param_len p) f (c\<lparr>ker_req_data_addr := b\<rparr>))"
    by (simp add: s'_def upd_ctx_def id find_enc_upd push_req_def)
  have "encoded m0 dev a b ks enc (ps @ [p]) s'"
    unfolding encoded_def
    using f' c s1(4) stored_snoc[OF c(6) p(2) t(1)] small_counts(3)[OF t(2)]
    by (intro exI[of _ "push_req (param_len p) f (c\<lparr>ker_req_data_addr := b\<rparr>)"])
      (simp add: push_req_def total_snoc f_def s'_def m'_def add.commute)
  then show ?thesis using r by blast
qed

lemma encode_params_all:
  assumes "encoded m0 dev a b ks enc ps s" and "c_encode_id enc = a" and "\<forall>p\<in>set qs. param_ok env p \<and> outside b p"
    and "total_len (ps @ qs) \<le> 1024" "length (ps @ qs) \<le> 12"
  shows "\<exists>s' enc'. encode_params env dev qs enc s = Some (s', enc') \<and> encoded m0 dev a b ks enc (ps @ qs) s' \<and>
    c_service enc' = c_service enc \<and> c_session enc' = c_session enc \<and> c_encode_id enc' = a"
  using assms
proof (induction qs arbitrary: ps enc s)
  case (Cons q qs)
  have t: "total_len ps + unat (param_len q) \<le> 1024" "length ps < 12" using Cons.prems(4,5) by (simp_all add: total_len_def)
  let ?e = "enc\<lparr>c_param := OTZC_PARAM_IN, c_data := param_addr q, c_len := param_len q\<rparr>"
  obtain s1 where s1: "encode_param env dev q enc s = Some (s1, ?e, 0)" "encoded m0 dev a b ks enc (ps @ [q]) s1"
    using encode_param_step[OF Cons.prems(1,2) _ _ t] Cons.prems(3) by auto
  then have "encoded m0 dev a b ks ?e (ps @ [q]) s1" by (simp add: encoded_def)
  then obtain s' enc' where "encode_params env dev qs ?e s1 = Some (s', enc')" "encoded m0 dev a b ks ?e ((ps @ [q]) @ qs) s'"
    "c_service enc' = c_service enc" "c_session enc' = c_session enc" "c_encode_id enc' = a"
    using Cons.IH[of ?e "ps @ [q]" s1] Cons.prems(2-5) by auto
  then show ?case using s1(1) by (simp add: encoded_def)
qed simp

text \<open>C19. What a user passes arrives: in a session without a context of that address, at most twelve words and arrays of
  together at most 1K, all of which the kernel can read and none of which lies in the buffer it allocates, are
  accepted; and the receiver that decodes the request buffer from offset 0 and position 0 finds as many
  parameters, with the lengths of the user, at addresses where the bytes are those the user had.\<close>

theorem user_params_roundtrip:
  assumes ses: "find_ses dev (c_service enc) (c_session enc) s = Some x" and id: "c_encode_id enc = - 1"
    and mem: "kmallocs s = a # m # b # as" "0 \<notin> {a, m, b}" "a \<noteq> - 1"
    and fresh: "find_enc dev (c_service enc) (c_session enc) a s = None"
    and ps: "ps \<noteq> []" "\<forall>p\<in>set ps. param_ok env p \<and> outside b p" "total_len ps \<le> 1024" "length ps \<le> 12"
  shows "\<exists>s' enc' c. encode_params env dev ps enc s = Some (s', enc') \<and>
     find_enc dev (c_service enc) (c_session enc) (c_encode_id enc') s' = Some c \<and>
     (\<exists>addrs. decode_all (length ps) penv (vmem s') (ker_req_data_addr c) (meta c) 0 0 pst =
          (pst, Inr (zip addrs (map param_len ps))) \<and> length addrs = length ps \<and>
        (\<forall>i<length ps. \<forall>k<unat (param_len (ps ! i)). vmem s' (addrs ! i + of_nat k) = vmem s (param_addr (ps ! i) + of_nat k)))"
proof -
  obtain q qs where ps_eq: "ps = q # qs" using ps(1) by (cases ps) auto
  define s0 where "s0 = upd_ses dev (c_service enc) (c_session enc) (\<lambda>x. x\<lparr>encode_list := encode_list x @ [new_context env a m]\<rparr>) (s\<lparr>kmallocs := b # as\<rparr>)"
  let ?e = "enc\<lparr>c_encode_id := a\<rparr>"
  have ses0: "find_ses dev (c_service enc) (c_session enc) (s\<lparr>kmallocs := b # as\<rparr>) = Some x"
    using ses find_cong_lists(3)[of "s\<lparr>kmallocs := b # as\<rparr>" s] by simp
  have "List.find (\<lambda>c. encode_id c = a) (encode_list x) = None" using fresh ses by (simp add: find_enc_def)
  then have enc0: "find_enc dev (c_service enc) (c_session enc) a s0 = Some (new_context env a m)"
    using ses0 by (simp add: s0_def find_enc_def find_ses_upd encs.find_append[simplified] new_context_def)
  have prep: "prepare_encode env dev (enc\<lparr>c_param := OTZC_PARAM_IN, c_data := param_addr q, c_len := param_len q\<rparr>) s =
      (s0, ?e\<lparr>c_param := OTZC_PARAM_IN, c_data := param_addr q, c_len := param_len q\<rparr>, 0)"
    using ses id mem by (simp add: prepare_encode_def kmalloc_def s0_def)
  have prep0: "prepare_encode env dev (?e\<lparr>c_param := OTZC_PARAM_IN, c_data := param_addr q, c_len := param_len q\<rparr>) s0 =
      (s0, ?e\<lparr>c_param := OTZC_PARAM_IN, c_data := param_addr q, c_len := param_len q\<rparr>, 0)"
    using enc0 mem(3) find_ses_of_enc[OF enc0] by (auto simp: prepare_encode_def)
  have first: "encode_param env dev q enc s = encode_param env dev q ?e s0"
    using prep prep0 by (simp add: encode_param_def Let_def encode_array_def encode_uint32_def)
  have "encoded (vmem s) dev a b as ?e [] s0"
    using enc0 mem by (simp add: encoded_def new_context_def total_len_def stored_def s0_def)
  then obtain s' enc' where r: "encode_params env dev ps ?e s0 = Some (s', enc')" "encoded (vmem s) dev a b as ?e ps s'" "c_encode_id enc' = a"
    using encode_params_all[of "vmem s" dev a b as ?e "[]" s0 ps env] ps(2-4) by auto
  then have r': "encode_params env dev ps enc s = Some (s', enc')" using first by (simp add: ps_eq)
  obtain c where c: "find_enc dev (c_service enc) (c_session enc) a s' = Some c" "stored (vmem s) (vmem s') b (meta c) ps"
    "ker_req_data_addr c = b"
    using r(2) ps(1) by (auto simp: encoded_def)
  define addrs where "addrs = map (\<lambda>i. b + of_nat (offs ps i)) [0..<length ps]"
  have z: "map (\<lambda>i. (b + of_nat (offs ps i), param_len (ps ! i))) [0..<length ps] = zip addrs (map param_len ps)"
    by (rule nth_equalityI) (simp_all add: addrs_def)
  have "\<forall>p\<in>set ps. \<not> fst p \<longrightarrow> param_len p = 4" using ps(2) by (auto simp: param_ok_def)
  from decode_stored[OF c(2) this, of 0 penv pst]
  have "decode_all (length ps) penv (vmem s') b (meta c) 0 0 pst = (pst, Inr (zip addrs (map param_len ps)))"
    using offs_def[of ps 0] by (simp add: z)
  moreover have "\<forall>i<length ps. \<forall>k<unat (param_len (ps ! i)). vmem s' (addrs ! i + of_nat k) = vmem s (param_addr (ps ! i) + of_nat k)"
    using c(2) by (simp add: stored_def addrs_def add.assoc)
  ultimately show ?thesis using r' r(3) c by (intro exI[of _ s'] exI[of _ enc'] exI[of _ c]) (auto simp: addrs_def)
qed

section \<open>Every run of the driver\<close>




text \<open>In the driver's lists a request changes no session but the one it names, and opening a session changes none.
  Nothing is said of memory: a decoded word is written to any address (\<open>words_use_kernel_addresses\<close>).\<close>

theorem requests_isolated:
  assumes "client_ioctl env dev rw cmd s = Some (s', cmd', r)"
    and "find_ses dev' svc' ses' s = Some x" and "(dev', svc', ses') \<notin> ioctl_session dev cmd"
  shows "find_ses dev' svc' ses' s' = Some x"
  using ioctl_step[OF assms(1)] assms(2,3) by (simp add: step_ok_def)

text \<open>In the driver's lists, opening or closing the device changes no session of another file.\<close>

theorem files_isolated:
  assumes "client_open s = (s', dev, r) \<or> client_release env dev s = (s', r)"
    and "find_ses dev' svc' ses' s = Some x" and "dev' \<noteq> dev"
  shows "find_ses dev' svc' ses' s' = Some x"
proof -
  have "step_ok (dev_sessions dev) s s'" using assms(1) client_open_step client_release_step by blast
  then show ?thesis using assms(2,3) by (simp add: step_ok_def dev_sessions_def)
qed

text \<open>Only the oldest session of a service can send a command: the search ends after the first session, so every
  command for another one is refused, with the state unchanged and no call of the secure world.\<close>

theorem later_session_cannot_send:
  assumes "find_svc dev (c_service enc) s = Some v" and "sessions v = x # xs" and "session_id x \<noteq> c_session enc"
  shows "client_ioctl env dev (True, wr) (IOCTL_SEND_CMD_REQ enc) s = Some (s, IOCTL_SEND_CMD_REQ enc, - EINVAL)"
  using assms by (simp add: client_ioctl_def send_cmd_def kernel_send_cmd_def send_context_def first_session_def EINVAL_def)

lemma send_serves:
  assumes "find_svc dev (c_service enc) s = Some v" and "sessions v = x # xs" and "session_id x = c_session enc"
    and "find_enc dev (c_service enc) (c_session enc) (c_encode_id enc) s = Some c" and "c_encode_id enc \<noteq> - 1"
    and "kmallocs s = a # as" and "a \<noteq> 0"
    and "secure env (length (smc_log s)) (smc_cmd_of env dev (c_service enc) (c_cmd enc) (c_session enc) (c_encode_id enc)
       (ker_req_data_addr c) (req_off c) (ker_res_data_addr c) (res_off c) (meta_at c)) (vmem s) (meta c) = (mem', m', r, l)"
  shows "\<exists>s'. client_ioctl env dev (True, True) (IOCTL_SEND_CMD_REQ enc) s = Some (s', IOCTL_SEND_CMD_REQ enc, sint r) \<and>
     smc_log s' = smc_log s @ [smc_cmd_of env dev (c_service enc) (c_cmd enc) (c_session enc) (c_encode_id enc)
       (ker_req_data_addr c) (req_off c) (ker_res_data_addr c) (res_off c) (meta_at c)] \<and>
     vmem s' = mem' \<and> find_enc dev (c_service enc) (c_session enc) (c_encode_id enc) s' = Some (c\<lparr>meta := m'\<rparr>)"
proof -
  let ?cmd = "smc_cmd_of env dev (c_service enc) (c_cmd enc) (c_session enc) (c_encode_id enc)
       (ker_req_data_addr c) (req_off c) (ker_res_data_addr c) (res_off c) (meta_at c)"
  define s1 where "s1 = kfree a (s\<lparr>kmallocs := as, vmem := mem', smc_log := smc_log s @ [?cmd]\<rparr>)"
  have ctx: "cmd_ctx dev enc s = c" using assms(4) by (simp add: cmd_ctx_def)
  have "find_ses dev (c_service enc) (c_session enc) s = Some x"
    using assms(1-3) by (simp add: find_ses_def)
  then have "List.find (\<lambda>c. encode_id c = c_encode_id enc) (encode_list x) = Some c"
    using assms(4) by (simp add: find_enc_def)
  then have sc: "send_context env dev enc s = (s, enc, True)"
    using assms(1-3,5) by (simp add: send_context_def first_session_def)
  have "send_call env dev enc s = (upd_ctx dev enc (\<lambda>c. c\<lparr>meta := m'\<rparr>) s1, sint r)"
    using assms(6-8) by (simp add: send_call_def ctx Let_def otz_smc_call_def kmalloc_def s1_def)
  moreover have "dev_files s1 = dev_files s" by (simp add: s1_def)
  then have "find_enc dev (c_service enc) (c_session enc) (c_encode_id enc) s1 = Some c"
    using find_cong_lists(4)[of s1 s] assms(4) by simp
  ultimately show ?thesis using sc
    by (auto simp: client_ioctl_def send_cmd_def kernel_send_cmd_def upd_ctx_def find_enc_upd s1_def kfree_def)
qed

text \<open>C21. A command of the oldest session reaches the secure world once: with the service and the command in its
  identifiers, the session and the context, the process as its source, the lengths encoded so far, the physical
  addresses of the buffers and descriptors (0 where there is none) and the file.  The memory afterwards is as the
  secure world left it, the descriptors of the context are the ones it wrote, and its answer is returned.\<close>

theorem send_reaches_secure_world:
  assumes "find_svc dev (c_service enc) s = Some v" and "sessions v = x # xs" and "session_id x = c_session enc"
    and "find_enc dev (c_service enc) (c_session enc) (c_encode_id enc) s = Some c" and "c_encode_id enc \<noteq> - 1"
    and "kmallocs s = a # as" and "a \<noteq> 0"
  shows "\<exists>s' cmd mem' m' r l.
     client_ioctl env dev (True, True) (IOCTL_SEND_CMD_REQ enc) s = Some (s', IOCTL_SEND_CMD_REQ enc, sint r) \<and>
     smc_log s' = smc_log s @ [cmd] \<and>
     secure env (length (smc_log s)) cmd (vmem s) (meta c) = (mem', m', r, l) \<and> vmem s' = mem' \<and>
     find_enc dev (c_service enc) (c_session enc) (c_encode_id enc) s' = Some (c\<lparr>meta := m'\<rparr>) \<and>
     smc_id cmd = push_bit 10 (c_service enc) OR c_cmd enc \<and> src_id cmd = smc_id cmd \<and>
     smc_context cmd = c_session enc \<and> smc_enc_id cmd = c_encode_id enc \<and> src_context cmd = tgid env \<and>
     req_buf_len cmd = req_off c \<and> resp_buf_len cmd = res_off c \<and>
     req_buf_phys cmd = (if ker_req_data_addr c = 0 then 0 else virt_to_phys env (ker_req_data_addr c)) \<and>
     resp_buf_phys cmd = (if ker_res_data_addr c = 0 then 0 else virt_to_phys env (ker_res_data_addr c)) \<and>
     meta_data_phys cmd = (if meta_at c = 0 then 0 else virt_to_phys env (meta_at c)) \<and> smc_dev_file_id cmd = dev"
proof -
  define cmd where "cmd = smc_cmd_of env dev (c_service enc) (c_cmd enc) (c_session enc) (c_encode_id enc)
       (ker_req_data_addr c) (req_off c) (ker_res_data_addr c) (res_off c) (meta_at c)"
  obtain mem' m' r l where sec: "secure env (length (smc_log s)) cmd (vmem s) (meta c) = (mem', m', r, l)"
    by (metis prod_cases4)
  from send_serves[OF assms sec[unfolded cmd_def]] show ?thesis
    using sec unfolding cmd_def[symmetric] by (fastforce simp: cmd_def smc_cmd_of_def)
qed

text \<open>C22. Releasing an operation frees exactly what it holds, its request and response buffer if there are such, the
  descriptors and the context, in this order, and takes the context from its session.\<close>

theorem release_frees_operation:
  assumes "find_enc dev (c_service enc) (c_session enc) (c_encode_id enc) s = Some c" and "c_encode_id enc \<noteq> - 1"
    and "find_ses dev (c_service enc) (c_session enc) s = Some x" and "distinct (map encode_id (encode_list x))"
  shows "\<exists>s'. client_ioctl env dev (True, wr) (IOCTL_OPERATION_RELEASE enc) s = Some (s', IOCTL_OPERATION_RELEASE enc, 0) \<and>
     kfreed s' = kfreed s @ filter (\<lambda>a. a \<noteq> 0) [ker_req_data_addr c, ker_res_data_addr c] @ [meta_at c, encode_id c] \<and>
     find_enc dev (c_service enc) (c_session enc) (c_encode_id enc) s' = None \<and>
     (\<forall>e. e \<noteq> c_encode_id enc \<longrightarrow> find_enc dev (c_service enc) (c_session enc) e s' = find_enc dev (c_service enc) (c_session enc) e s)"
proof -
  have c: "List.find (\<lambda>c. encode_id c = c_encode_id enc) (encode_list x) = Some c" using assms(1,3) by (simp add: find_enc_def)
  define g where "g = (\<lambda>x :: otzc_session. x\<lparr>encode_list := del_first (\<lambda>c. encode_id c = c_encode_id enc) (encode_list x)\<rparr>)"
  define s0 where "s0 = free_nonnull (ker_res_data_addr c) (free_nonnull (ker_req_data_addr c) s)"
  define s' where "s' = kfree (encode_id c) (kfree (meta_at c) (upd_ses dev (c_service enc) (c_session enc) g s0))"
  have r: "kernel_operation_release dev enc s = (s', 0)"
    using assms(2,3) c by (simp add: kernel_operation_release_def s'_def s0_def g_def)
  have "find_ses dev (c_service enc) (c_session enc) s0 = Some x"
    using assms(3) find_cong_lists(3)[of s0 s] by (simp add: s0_def)
  moreover have "\<And>v. session_id (g v) = session_id v" by (simp add: g_def)
  ultimately have x: "find_ses dev (c_service enc) (c_session enc) s' = Some (g x)"
    using find_cong_lists(3)[of s' "upd_ses dev (c_service enc) (c_session enc) g s0"] find_ses_upd[of g]
    by (simp add: s'_def)
  have gone: "List.find (\<lambda>c. encode_id c = k) (del_first (\<lambda>c. encode_id c = k) xs) = None"
    if "distinct (map encode_id xs)" for k and xs :: "otzc_encode list"
    using that
  proof (induction xs)
    case (Cons a xs)
    then show ?case by (cases "encode_id a = k") (auto simp: find_None_iff image_iff)
  qed simp
  have "find_enc dev (c_service enc) (c_session enc) (c_encode_id enc) s' = None"
    using x gone[OF assms(4)] by (simp add: find_enc_def g_def)
  moreover have "find_enc dev (c_service enc) (c_session enc) e s' = find_enc dev (c_service enc) (c_session enc) e s"
    if "e \<noteq> c_encode_id enc" for e
    using x assms(3) that by (simp add: find_enc_def g_def encs.find_del_other[simplified])
  moreover have "kfreed s' = kfreed s @ filter (\<lambda>a. a \<noteq> 0) [ker_req_data_addr c, ker_res_data_addr c] @ [meta_at c, encode_id c]"
    by (simp add: s'_def s0_def kfree_def free_nonnull_def)
  ultimately show ?thesis using r by (simp add: client_ioctl_def operation_release_def)
qed

text \<open>Closing a session does not free the buffers and descriptors of its contexts.\<close>

lemma fold_free_shared: "kfreed (fold free_shared bs s) = kfreed s @ map sm_at bs"
  by (induction bs arbitrary: s) (simp_all add: free_shared_def kfree_def free_pages_def)

lemma fold_free_ctx: "kfreed (fold (\<lambda>c. kfree (encode_id c)) cs s) = kfreed s @ map encode_id cs"
  by (induction cs arbitrary: s) (simp_all add: kfree_def)

theorem close_leaks_buffers:
  assumes "find_svc dev (so_service sc) s = Some v" and "find_ses dev (so_service sc) (so_session sc) s = Some x"
    and "kmallocs s = a # as" "a \<noteq> 0"
  shows "\<exists>s'. session_close env dev (True, wr) sc s = (s', 0) \<and>
     kfreed s' = kfreed s @ a # map encode_id (encode_list x) @ map sm_at (ses_shared x) @ [ses_at x]"
proof -
  obtain s1 y where c: "otz_smc_call env dev GLOBAL_SVC CMD_CLOSE_SESSION 0 0 (svc_at v + 8) 4 (ses_at x + 8) 4 0 (fresh_meta env) s = (s1, y)"
    by (cases "otz_smc_call env dev GLOBAL_SVC CMD_CLOSE_SESSION 0 0 (svc_at v + 8) 4 (ses_at x + 8) 4 0 (fresh_meta env) s")
  then have "kfreed s1 = kfreed s @ [a]" using assms(3,4)
    by (auto simp: otz_smc_call_def kmalloc_def Let_def kfree_def split: prod.splits)
  then have "kfreed (close_effects env dev v x s) = kfreed s @ a # map encode_id (encode_list x) @ map sm_at (ses_shared x) @ [ses_at x]"
    by (simp add: close_effects_def c kfree_def fold_free_shared fold_free_ctx)
  then show ?thesis using assms(1,2) by (simp add: session_close_def close_session_for_service_def)
qed

text \<open>From byte 256 on, a reference is stored outside of the buffer.\<close>

theorem mem_ref_overflows:
  assumes "req_buffer dev enc s = (s, True)" and "req_room 4 (cmd_ctx dev enc s)" and "256 \<le> req_off (cmd_ctx dev enc s)"
    and "req_off (cmd_ctx dev enc s) \<le> 1024"
  shows "\<exists>off. 1024 \<le> off \<and> off \<le> 4080 \<and>
     vmem (fst (mem_ref_in env dev b enc s)) =
       store32 (ker_req_data_addr (cmd_ctx dev enc s) + off) (virt_to_phys env (k_addr b + c_offset enc)) (vmem s)"
proof -
  define ro where "ro = req_off (cmd_ctx dev enc s)"
  have ro: "256 \<le> unat ro" "unat ro \<le> 1024" using assms(3,4) by (simp_all add: ro_def word_le_nat_alt)
  have "unat (ro + 4) = unat ro + 4" using unat_add_small[of ro 4] ro by simp
  then have "unat ro \<le> 1020" using assms(2) by (simp add: req_room_def OTZ_1K_SIZE_def word_le_nat_alt ro_def)
  moreover have "unat (4 * ro) = 4 * unat ro" using ro by (simp add: unat_word_ariths)
  ultimately have "1024 \<le> 4 * ro" "4 * ro \<le> 4080" using ro by (simp_all add: word_le_nat_alt)
  moreover have "vmem (fst (mem_ref_in env dev b enc s)) =
      store32 (ker_req_data_addr (cmd_ctx dev enc s) + 4 * ro) (virt_to_phys env (k_addr b + c_offset enc)) (vmem s)"
    using assms(1,2) by (simp add: mem_ref_in_def Let_def ro_def)
  ultimately show ?thesis by blast
qed

text \<open>The word a user passes is read from any address the kernel can access, and a decoded word is written to any.\<close>

theorem words_use_kernel_addresses:
  assumes "find_enc dev (c_service enc) (c_session enc) (c_encode_id enc) s = Some c" and "c_encode_id enc \<noteq> - 1"
    and "valid env (c_data enc)"
  shows "ker_req_data_addr c \<noteq> 0 \<Longrightarrow> req_room 4 c \<Longrightarrow> c_param enc = OTZC_PARAM_IN \<Longrightarrow>
      \<exists>s'. client_ioctl env dev (True, True) (IOCTL_ENC_UINT32 enc) s = Some (s', IOCTL_ENC_UINT32 enc, 0) \<and>
        vmem s' = store32 (ker_req_data_addr c + req_off c) (load32 (vmem s) (c_data enc)) (vmem s)"
    and "dec_ok c \<Longrightarrow> mtype (dec_meta c) = OTZ_ENC_UINT32 \<Longrightarrow> usr_addr (dec_meta c) = 0 \<Longrightarrow> valid env (ker_res_data_addr c + dec_off c) \<Longrightarrow>
      \<exists>s'. client_ioctl env dev (True, True) (IOCTL_DEC_UINT32 enc) s = Some (s', IOCTL_DEC_UINT32 enc, 0) \<and>
        vmem s' = store32 (c_data enc) (load32 (vmem s) (ker_res_data_addr c + dec_off c)) (vmem s)"
proof -
  have ctx: "cmd_ctx dev enc s = c" using assms(1) by (simp add: cmd_ctx_def)
  have prep: "prepare_encode env dev enc s = (s, enc, 0)" "prepare_decode dev enc s = Some c"
    using assms(1,2) find_ses_of_enc[OF assms(1)] by (auto simp: prepare_encode_def prepare_decode_def)
  show "ker_req_data_addr c \<noteq> 0 \<Longrightarrow> req_room 4 c \<Longrightarrow> c_param enc = OTZC_PARAM_IN \<Longrightarrow>
      \<exists>s'. client_ioctl env dev (True, True) (IOCTL_ENC_UINT32 enc) s = Some (s', IOCTL_ENC_UINT32 enc, 0) \<and>
        vmem s' = store32 (ker_req_data_addr c + req_off c) (load32 (vmem s) (c_data enc)) (vmem s)"
    using ctx prep(1) assms(3) by (simp add: client_ioctl_def encode_uint32_def uint32_in_def req_buffer_def Let_def)
  show "dec_ok c \<Longrightarrow> mtype (dec_meta c) = OTZ_ENC_UINT32 \<Longrightarrow> usr_addr (dec_meta c) = 0 \<Longrightarrow> valid env (ker_res_data_addr c + dec_off c) \<Longrightarrow>
      \<exists>s'. client_ioctl env dev (True, True) (IOCTL_DEC_UINT32 enc) s = Some (s', IOCTL_DEC_UINT32 enc, 0) \<and>
        vmem s' = store32 (c_data enc) (load32 (vmem s) (ker_res_data_addr c + dec_off c)) (vmem s)"
    using prep(2) assms(3) by (simp add: client_ioctl_def decode_uint32_def Let_def)
qed

section \<open>Concrete runs of the driver\<close>

definition demo_meta :: "int \<Rightarrow> otzc_encode_meta" where
  "demo_meta = (\<lambda>_. \<lparr>mtype = OTZ_ENC_INVALID_TYPE, mlen = 0, usr_addr = 0, ret_len = 0\<rparr>)"

definition demo_drv_env :: drv_env where
  "demo_drv_env = \<lparr>virt_to_phys = (\<lambda>a. a - 0x40000000), copyable = (\<lambda>_ n. n), valid = (\<lambda>_. True),
     secure = (\<lambda>_ cmd v m. (v, m, 0, 0)), fresh_meta = demo_meta, tgid = 7, stack_at = 0x100, remap_ok = True\<rparr>"

definition demo_ctx :: otzc_encode where
  "demo_ctx = (new_context demo_drv_env 0x5000 0x6000)\<lparr>ker_req_data_addr := 0x7000, req_off := 8, req_pos := 2\<rparr>"

text \<open>A file with one service that has two sessions, the first with a context.\<close>

definition demo_driver :: driver where
  "demo_driver =
     \<lparr>dev_files = [\<lparr>df_at = 0x900, dev_file_id = 1, service_cnt = 1,
        services = [\<lparr>svc_at = 0xA00, service_id = 2,
          sessions = [\<lparr>ses_at = 0xB00, session_id = 11, encode_list = [demo_ctx], ses_shared = []\<rparr>,
                      \<lparr>ses_at = 0xC00, session_id = 12, encode_list = [], ses_shared = []\<rparr>]\<rparr>],
        shared_mem_cnt = 0, dev_shared = []\<rparr>],
      dev_file_cnt = 1, device_file_cnt = 1, vmem = (\<lambda>_. 0), kmallocs = [0xD00, 0xE00, 0xF00], kfreed = [], page_answers = [],
      pages_freed = [], smc_log = []\<rparr>"


definition demo_enc :: "u32 \<Rightarrow> u32 \<Rightarrow> otz_client_encode_cmd" where
  "demo_enc ses e = \<lparr>c_len = 4, c_data = 0x200, c_offset = 0, c_flags = 0, c_param = OTZC_PARAM_IN, c_encode_id = e,
     c_service = 2, c_session = ses, c_cmd = 1\<rparr>"

lemma demo_simps:
  "find_svc 1 2 demo_driver = Some (hd (services (hd (dev_files demo_driver))))"
  "find_ses 1 2 11 demo_driver = Some \<lparr>ses_at = 0xB00, session_id = 11, encode_list = [demo_ctx], ses_shared = []\<rparr>"
  "find_ses 1 2 12 demo_driver = Some \<lparr>ses_at = 0xC00, session_id = 12, encode_list = [], ses_shared = []\<rparr>"
  "find_enc 1 2 11 0x5000 demo_driver = Some demo_ctx"
  by (simp_all add: find_enc_def find_ses_def find_svc_def find_dev_def demo_driver_def demo_ctx_def new_context_def)



theorem requests_isolated_witness:
  "\<exists>s' cmd' r. client_ioctl demo_drv_env 1 (True, True) (IOCTL_OPERATION_RELEASE (demo_enc 11 0x5000)) demo_driver = Some (s', cmd', r) \<and>
     find_ses 1 2 12 s' = find_ses 1 2 12 demo_driver"
proof -
  obtain s' r where q: "operation_release 1 (True, True) (demo_enc 11 0x5000) demo_driver = (s', r)"
    by (cases "operation_release 1 (True, True) (demo_enc 11 0x5000) demo_driver")
  then have c: "client_ioctl demo_drv_env 1 (True, True) (IOCTL_OPERATION_RELEASE (demo_enc 11 0x5000)) demo_driver =
     Some (s', IOCTL_OPERATION_RELEASE (demo_enc 11 0x5000), r)" by (simp add: client_ioctl_def)
  have "(1 :: u32, 2 :: u32, 12 :: u32) \<notin> ioctl_session 1 (IOCTL_OPERATION_RELEASE (demo_enc 11 0x5000))"
    by (simp add: ioctl_session_def cmd_key_def demo_enc_def)
  then show ?thesis using requests_isolated[OF c demo_simps(3)] c demo_simps(3) by simp
qed

theorem files_isolated_witness:
  "find_ses 1 2 11 (fst (client_open demo_driver)) = find_ses 1 2 11 demo_driver"
proof -
  obtain s' dev r where q: "client_open demo_driver = (s', dev, r)" by (cases "client_open demo_driver")
  then have "dev = 2" by (auto simp: client_open_def demo_driver_def Let_def split: prod.splits if_splits)
  then show ?thesis using files_isolated[of demo_driver s' dev r demo_drv_env 1 2 11] q demo_simps(2) by simp
qed

theorem later_session_cannot_send_witness:
  "client_ioctl demo_drv_env 1 (True, True) (IOCTL_SEND_CMD_REQ (demo_enc 12 (- 1))) demo_driver =
     Some (demo_driver, IOCTL_SEND_CMD_REQ (demo_enc 12 (- 1)), - 22)"
proof -
  have "find_svc 1 (c_service (demo_enc 12 (- 1))) demo_driver = Some (hd (services (hd (dev_files demo_driver))))"
    using demo_simps(1) by (simp add: demo_enc_def)
  from later_session_cannot_send[OF this] show ?thesis by (simp add: demo_driver_def demo_enc_def EINVAL_def)
qed

theorem send_reaches_secure_world_witness:
  "\<exists>s'. client_ioctl demo_drv_env 1 (True, True) (IOCTL_SEND_CMD_REQ (demo_enc 11 0x5000)) demo_driver =
     Some (s', IOCTL_SEND_CMD_REQ (demo_enc 11 0x5000), 0) \<and> length (smc_log s') = 1 \<and> smc_id (hd (smc_log s')) = 0x801 \<and>
     req_buf_len (hd (smc_log s')) = 8 \<and> req_buf_phys (hd (smc_log s')) = 0xC0007000 \<and> resp_buf_phys (hd (smc_log s')) = 0"
proof -
  have h: "find_svc 1 (c_service (demo_enc 11 0x5000)) demo_driver = Some (hd (services (hd (dev_files demo_driver))))"
    "find_enc 1 (c_service (demo_enc 11 0x5000)) (c_session (demo_enc 11 0x5000)) (c_encode_id (demo_enc 11 0x5000)) demo_driver = Some demo_ctx"
    using demo_simps by (simp_all add: demo_enc_def)
  have s: "sessions (hd (services (hd (dev_files demo_driver)))) =
      \<lparr>ses_at = 0xB00, session_id = 11, encode_list = [demo_ctx], ses_shared = []\<rparr> # [\<lparr>ses_at = 0xC00, session_id = 12, encode_list = [], ses_shared = []\<rparr>]"
    by (simp add: demo_driver_def)
  have k: "kmallocs demo_driver = 0xD00 # [0xE00, 0xF00]" and l: "smc_log demo_driver = []" by (simp_all add: demo_driver_def)
  have e: "session_id \<lparr>ses_at = 0xB00, session_id = 11, encode_list = [demo_ctx], ses_shared = []\<rparr> = c_session (demo_enc 11 0x5000)"
    "c_encode_id (demo_enc 11 0x5000) \<noteq> - 1" by (simp_all add: demo_enc_def)
  have sec: "secure demo_drv_env n cmd v m = (v, m, 0, 0)" for n cmd v m by (simp add: demo_drv_env_def)
  have ctx: "req_off demo_ctx = 8" "ker_req_data_addr demo_ctx = 0x7000" "ker_res_data_addr demo_ctx = 0"
    "virt_to_phys demo_drv_env 0x7000 = 0xC0007000"
    by (simp_all add: demo_ctx_def new_context_def demo_drv_env_def)
  have cmd: "push_bit 10 (c_service (demo_enc 11 0x5000)) OR c_cmd (demo_enc 11 0x5000) = 0x801" by (simp add: demo_enc_def)
  from send_reaches_secure_world[OF h(1) s e(1) h(2) e(2) k, of demo_drv_env] show ?thesis
    unfolding l sec ctx cmd by auto
qed

theorem release_frees_operation_witness:
  "\<exists>s'. client_ioctl demo_drv_env 1 (True, True) (IOCTL_OPERATION_RELEASE (demo_enc 11 0x5000)) demo_driver =
     Some (s', IOCTL_OPERATION_RELEASE (demo_enc 11 0x5000), 0) \<and> kfreed s' = [0x7000, 0x6000, 0x5000] \<and> find_enc 1 2 11 0x5000 s' = None"
proof -
  have h: "find_enc 1 (c_service (demo_enc 11 0x5000)) (c_session (demo_enc 11 0x5000)) (c_encode_id (demo_enc 11 0x5000)) demo_driver = Some demo_ctx"
    "c_encode_id (demo_enc 11 0x5000) \<noteq> - 1"
    "find_ses 1 (c_service (demo_enc 11 0x5000)) (c_session (demo_enc 11 0x5000)) demo_driver =
       Some \<lparr>ses_at = 0xB00, session_id = 11, encode_list = [demo_ctx], ses_shared = []\<rparr>"
    using demo_simps by (simp_all add: demo_enc_def)
  have "kfreed demo_driver = []" by (simp add: demo_driver_def)
  with release_frees_operation[OF h, of demo_drv_env True] show ?thesis
    by (auto simp: demo_enc_def demo_ctx_def new_context_def)
qed

theorem user_params_roundtrip_witness:
  "\<exists>s' enc'. encode_params demo_drv_env 1 [(True, 0x8000, 5), (False, 0x9000, 4)] (demo_enc 12 (- 1)) demo_driver = Some (s', enc') \<and>
     find_enc 1 2 12 (c_encode_id enc') s' \<noteq> None"
proof -
  have h: "find_ses 1 (c_service (demo_enc 12 (- 1))) (c_session (demo_enc 12 (- 1))) demo_driver =
       Some \<lparr>ses_at = 0xC00, session_id = 12, encode_list = [], ses_shared = []\<rparr>"
    "c_encode_id (demo_enc 12 (- 1)) = - 1" "kmallocs demo_driver = 0xD00 # 0xE00 # 0xF00 # []"
    using demo_simps by (simp_all add: demo_enc_def demo_driver_def)
  have p: "\<forall>p\<in>set [(True, 0x8000, 5), (False, 0x9000, 4)]. param_ok demo_drv_env p \<and> outside 0xF00 p"
  proof -
    have "\<forall>k\<in>set [0..<5]. 1024 \<le> 0x7100 + (of_nat k :: u32)" "\<forall>k\<in>set [0..<4]. 1024 \<le> 0x8100 + (of_nat k :: u32)"
      by code_simp+
    moreover have "unat (5 :: u32) = 5" "unat (4 :: u32) = 4" by code_simp+
    ultimately show ?thesis
      by (auto simp del: unat_numeral simp: param_ok_def outside_def param_len_def param_addr_def demo_drv_env_def OTZ_1K_SIZE_def add.commute)
  qed
  have "find_enc 1 (c_service (demo_enc 12 (- 1))) (c_session (demo_enc 12 (- 1))) 0xD00 demo_driver = None"
    using h(1) by (simp add: find_enc_def)
  from user_params_roundtrip[OF h _ _ this _ p] show ?thesis
    by (fastforce simp: total_len_def param_len_def demo_enc_def)
qed

end
