(* ===== verification/Tee_Client.thy ===== *)
theory Tee_Client
  imports Driver "HOL-Library.Monad_Syntax"
begin

text \<open>
  The client library of the TEE interface, \<^verbatim>\<open>otz_api/otz_tee_api.c\<close> with the structures of
  \<^verbatim>\<open>include/otz_tee_client_api.h\<close> (paths relative to \<^verbatim>\<open>trustzone/tzone_sdk\<close>), on top of the client driver.
  Contexts, sessions and shared memory blocks are records found by their address, 0 being the null pointer; an
  operation is read from and written to the byte memory \<open>vmem\<close>, because the driver gets pointers into it.
  Linux hands out descriptors and addresses from \<open>fd_answers\<close> and \<open>mmap_answers\<close>; a descriptor refers to a
  file of the driver or to another file, which supports neither ioctl nor mmap.  The C library returns \<open>- 1\<close> for
  the errors of the driver and keeps the number in \<open>errno\<close>.  Unmapping a block changes nothing the model keeps.
  \<open>None\<close> stands for what C leaves undefined: a null dereference, a read beyond a table, an overrun buffer.
\<close>

section \<open>State\<close>

record tee_context =
  fd :: u32
  session_count :: int
  ctx_shared_cnt :: u32
  ctx_shared :: "u32 list"
  ctx_errno :: int

record tee_session =
  operation_cnt :: int
  ts_session :: u32
  ts_service :: u32
  device :: u32
  ts_errno :: int

record tee_shared =
  buffer :: u32
  shm_size :: u32
  shm_flags :: u32
  shm_context :: u32
  shm_operations :: int
  allocated :: u32
  shm_errno :: int

record tee =
  drv :: driver
  files :: "u32 \<Rightarrow> u32 option option"
  fd_answers :: "u32 list"
  mmap_answers :: "u32 list"
  errno :: int
  contexts :: "u32 \<Rightarrow> tee_context"
  tee_sessions :: "u32 \<Rightarrow> tee_session"
  shms :: "u32 \<Rightarrow> tee_shared"

text \<open>\<open>garbage\<close> is what the variables on the stack hold before they are assigned.\<close>

record tee_env =
  os :: drv_env
  is_device :: "string \<Rightarrow> bool"
  garbage :: otz_client_encode_cmd
  garbage_session :: u32

definition upd_context :: "u32 \<Rightarrow> (tee_context \<Rightarrow> tee_context) \<Rightarrow> tee \<Rightarrow> tee" where
  "upd_context c f st = st\<lparr>contexts := (contexts st)(c := f (contexts st c))\<rparr>"

definition upd_session :: "u32 \<Rightarrow> (tee_session \<Rightarrow> tee_session) \<Rightarrow> tee \<Rightarrow> tee" where
  "upd_session x f st = st\<lparr>tee_sessions := (tee_sessions st)(x := f (tee_sessions st x))\<rparr>"

definition upd_shm :: "u32 \<Rightarrow> (tee_shared \<Rightarrow> tee_shared) \<Rightarrow> tee \<Rightarrow> tee" where
  "upd_shm b f st = st\<lparr>shms := (shms st)(b := f (shms st b))\<rparr>"

section \<open>Numbers\<close>

definition TEEC_SUCCESS :: u32 where "TEEC_SUCCESS = 0"
definition TEEC_ERROR_GENERIC :: u32 where "TEEC_ERROR_GENERIC = 0xFFFF0000"
definition TEEC_ERROR_ACCESS_DENIED :: u32 where "TEEC_ERROR_ACCESS_DENIED = 0xFFFF0001"
definition TEEC_ERROR_EXCESS_DATA :: u32 where "TEEC_ERROR_EXCESS_DATA = 0xFFFF0004"
definition TEEC_ERROR_BAD_FORMAT :: u32 where "TEEC_ERROR_BAD_FORMAT = 0xFFFF0005"
definition TEEC_ERROR_BAD_PARAMETERS :: u32 where "TEEC_ERROR_BAD_PARAMETERS = 0xFFFF0006"
definition TEEC_ERROR_NOT_IMPLEMENTED :: u32 where "TEEC_ERROR_NOT_IMPLEMENTED = 0xFFFF0009"
definition TEEC_ERROR_NO_DATA :: u32 where "TEEC_ERROR_NO_DATA = 0xFFFF000B"
definition TEEC_ERROR_OUT_OF_MEMORY :: u32 where "TEEC_ERROR_OUT_OF_MEMORY = 0xFFFF000C"

definition TEEC_ORIGIN_API :: u32 where "TEEC_ORIGIN_API = 1"
definition TEEC_ORIGIN_TRUSTED_APP :: u32 where "TEEC_ORIGIN_TRUSTED_APP = 4"

definition TEEC_MEM_INPUT :: u32 where "TEEC_MEM_INPUT = 1"
definition TEEC_MEM_OUTPUT :: u32 where "TEEC_MEM_OUTPUT = 2"
definition OTZ_MEM_SERVICE_RO :: u32 where "OTZ_MEM_SERVICE_RO = 0"
definition OTZ_MEM_SERVICE_WO :: u32 where "OTZ_MEM_SERVICE_WO = 1"

definition TEEC_VALUE_INPUT :: u32 where "TEEC_VALUE_INPUT = 2"
definition TEEC_VALUE_OUTPUT :: u32 where "TEEC_VALUE_OUTPUT = 3"
definition TEEC_VALUE_INOUT :: u32 where "TEEC_VALUE_INOUT = 4"
definition TEEC_MEMREF_TEMP_INPUT :: u32 where "TEEC_MEMREF_TEMP_INPUT = 5"
definition TEEC_MEMREF_TEMP_OUTPUT :: u32 where "TEEC_MEMREF_TEMP_OUTPUT = 6"
definition TEEC_MEMREF_TEMP_INOUT :: u32 where "TEEC_MEMREF_TEMP_INOUT = 7"
definition TEEC_MEMREF_WHOLE :: u32 where "TEEC_MEMREF_WHOLE = 0xC"
definition TEEC_MEMREF_PARTIAL_INPUT :: u32 where "TEEC_MEMREF_PARTIAL_INPUT = 0xD"
definition TEEC_MEMREF_PARTIAL_OUTPUT :: u32 where "TEEC_MEMREF_PARTIAL_OUTPUT = 0xE"
definition TEEC_MEMREF_PARTIAL_INOUT :: u32 where "TEEC_MEMREF_PARTIAL_INOUT = 0xF"
definition TEEC_VALUE_UNDEF :: u32 where "TEEC_VALUE_UNDEF = 0xFFFFFFFF"

lemmas tee_codes = TEEC_SUCCESS_def TEEC_ERROR_GENERIC_def TEEC_ERROR_ACCESS_DENIED_def TEEC_ERROR_EXCESS_DATA_def
  TEEC_ERROR_BAD_FORMAT_def TEEC_ERROR_BAD_PARAMETERS_def TEEC_ERROR_NOT_IMPLEMENTED_def TEEC_ERROR_NO_DATA_def
  TEEC_ERROR_OUT_OF_MEMORY_def

lemmas tee_types = TEEC_VALUE_INPUT_def TEEC_VALUE_OUTPUT_def TEEC_VALUE_INOUT_def TEEC_MEMREF_TEMP_INPUT_def
  TEEC_MEMREF_TEMP_OUTPUT_def TEEC_MEMREF_TEMP_INOUT_def TEEC_MEMREF_WHOLE_def TEEC_MEMREF_PARTIAL_INPUT_def
  TEEC_MEMREF_PARTIAL_OUTPUT_def TEEC_MEMREF_PARTIAL_INOUT_def

text \<open>The messages; an index outside of the table reads what follows it.\<close>

definition TEEC_errorlist :: "string list" where
  "TEEC_errorlist =
     [''The operation succeeded'', ''Non-specific cause'', ''Access privileges are not sufficient'',
      ''The operation was cancelled'', ''Concurrent accesses caused conflict'',
      ''Too much data for the requested operation was passed'', ''Input data was of invalid format'',
      ''Input parameters were invalid'', ''Operation is not valid in the current state'',
      ''The requested data item is not found'',
      ''The requested operation should exist but is not yet implemented'',
      ''The requested operation is valid but is not supported in this '' @ [CHR 0x09, CHR 0x09] @ ''Implementation'',
      ''Expected data was missing'', ''System ran out of resources'', ''The system is busy working on something else'',
      ''Communication with a remote party failed'', ''A security fault was detected'',
      ''The supplied buffer is too short for the generated output'']"

definition TEEC_service_errorlist :: "string list" where
  "TEEC_service_errorlist =
     [''Service Success'', ''Service Pending'', ''Service Interrupted'', ''Service Error'',
      ''Service - Invalid Argument'', ''Service -Invalid Address'', ''Service No Support'', ''Service No Memory'']"

definition TEEC_GetError :: "int \<Rightarrow> u32 \<Rightarrow> string option" where
  "TEEC_GetError error origin =
     (let msgs = (if origin = TEEC_ORIGIN_TRUSTED_APP then TEEC_service_errorlist else TEEC_errorlist)
      in if 0 \<le> error \<and> nat error < length msgs then Some (msgs ! nat error) else None)"

section \<open>System calls\<close>

definition EBADF :: int where "EBADF = 9"
definition ENOTTY :: int where "ENOTTY = 25"
definition ENODEV :: int where "ENODEV = 19"
definition EMFILE :: int where "EMFILE = 24"

definition linux_result :: "int \<Rightarrow> tee \<Rightarrow> tee \<times> int" where
  "linux_result r st = (if r < 0 \<and> - 4096 < r then (st\<lparr>errno := - r\<rparr>, - 1) else (st, r))"

definition sys_open :: "tee_env \<Rightarrow> string \<Rightarrow> tee \<Rightarrow> tee \<times> int" where
  "sys_open env path st =
     (case fd_answers st of
        [] \<Rightarrow> (st\<lparr>errno := EMFILE\<rparr>, - 1)
      | f # fs \<Rightarrow>
          if \<not> is_device env path then (st\<lparr>fd_answers := fs, files := (files st)(f := Some None)\<rparr>, sint f)
          else (case client_open (drv st) of (s', dev, r) \<Rightarrow>
            if r \<noteq> 0 then (st\<lparr>drv := s', errno := - r\<rparr>, - 1)
            else (st\<lparr>drv := s', fd_answers := fs, files := (files st)(f := Some (Some dev))\<rparr>, sint f)))"

definition sys_close :: "tee_env \<Rightarrow> u32 \<Rightarrow> tee \<Rightarrow> tee" where
  "sys_close env f st =
     (case files st f of
        None \<Rightarrow> st\<lparr>errno := EBADF\<rparr>
      | Some None \<Rightarrow> st\<lparr>files := (files st)(f := None)\<rparr>
      | Some (Some dev) \<Rightarrow> st\<lparr>drv := fst (client_release (os env) dev (drv st)), files := (files st)(f := None)\<rparr>)"

definition sys_ioctl :: "tee_env \<Rightarrow> u32 \<Rightarrow> ioctl_cmd \<Rightarrow> tee \<Rightarrow> (tee \<times> ioctl_cmd \<times> int) option" where
  "sys_ioctl env f cmd st =
     (case files st f of
        None \<Rightarrow> Some (st\<lparr>errno := EBADF\<rparr>, cmd, - 1)
      | Some None \<Rightarrow> Some (st\<lparr>errno := ENOTTY\<rparr>, cmd, - 1)
      | Some (Some dev) \<Rightarrow>
          map_option (\<lambda>(s', cmd', r). case linux_result r (st\<lparr>drv := s'\<rparr>) of (st', r') \<Rightarrow> (st', cmd', r'))
            (client_ioctl (os env) dev (True, True) cmd (drv st)))"

text \<open>Lengths are rounded to pages; the result 0 stands for \<^verbatim>\<open>MAP_FAILED\<close>.\<close>

definition sys_mmap :: "tee_env \<Rightarrow> u32 \<Rightarrow> u32 \<Rightarrow> tee \<Rightarrow> (tee \<times> u32) option" where
  "sys_mmap env f len st =
     (let n = ROUND_UP len 4096 in
      if n = 0 then Some (st\<lparr>errno := (if len = 0 then EINVAL else ENOMEM)\<rparr>, 0)
      else case files st f of
        None \<Rightarrow> Some (st\<lparr>errno := EBADF\<rparr>, 0)
      | Some None \<Rightarrow> Some (st\<lparr>errno := ENODEV\<rparr>, 0)
      | Some (Some dev) \<Rightarrow>
          (case mmap_answers st of
             [] \<Rightarrow> Some (st\<lparr>errno := ENOMEM\<rparr>, 0)
           | a # as \<Rightarrow>
               map_option (\<lambda>(s', r). if r \<noteq> 0 then (st\<lparr>drv := s', errno := - r\<rparr>, 0)
                   else (st\<lparr>drv := s', mmap_answers := as\<rparr>, a))
                 (mmap (os env) dev a (a + n) (drv st))))"

text \<open>Words of the caller, if there is a pointer to them.\<close>

definition set_origin :: "u32 \<Rightarrow> u32 \<Rightarrow> tee \<Rightarrow> tee" where
  "set_origin ro v st =
     (if ro = 0 then st else st\<lparr>drv := (drv st)\<lparr>vmem := store32 ro v (vmem (drv st))\<rparr>\<rparr>)"

section \<open>Contexts and shared memory\<close>

definition TEEC_InitializeContext :: "tee_env \<Rightarrow> string option \<Rightarrow> u32 \<Rightarrow> tee \<Rightarrow> (tee \<times> u32) option" where
  "TEEC_InitializeContext env name ctx st =
     (if ctx = 0 then Some (st, TEEC_ERROR_BAD_PARAMETERS)
      else let path = (case name of None \<Rightarrow> ''/dev/otz_client'' | Some n \<Rightarrow> n) in
        if 256 \<le> length path then None
        else case sys_open env path st of (st1, ret) \<Rightarrow>
          if ret = - 1
          then Some (upd_context ctx (\<lambda>c. c\<lparr>ctx_errno := errno st1\<rparr>) st1, TEEC_ERROR_GENERIC)
          else Some (upd_context ctx (\<lambda>c. c\<lparr>fd := word_of_int ret, session_count := 0, ctx_shared_cnt := 0, ctx_shared := []\<rparr>) st1,
                 TEEC_SUCCESS))"

definition TEEC_FinalizeContext :: "tee_env \<Rightarrow> u32 \<Rightarrow> tee \<Rightarrow> tee" where
  "TEEC_FinalizeContext env ctx st =
     (if ctx \<noteq> 0 \<and> session_count (contexts st ctx) = 0 \<and> ctx_shared_cnt (contexts st ctx) = 0
      then upd_context ctx (\<lambda>c. c\<lparr>fd := 0\<rparr>) (sys_close env (fd (contexts st ctx)) st)
      else st)"

definition bad_shared :: "tee_shared \<Rightarrow> bool" where
  "bad_shared b \<longleftrightarrow> shm_size b = 0 \<or>
     (shm_flags b \<noteq> TEEC_MEM_INPUT \<and> shm_flags b \<noteq> TEEC_MEM_OUTPUT \<and> shm_flags b \<noteq> (TEEC_MEM_INPUT OR TEEC_MEM_OUTPUT))"

text \<open>A block is appended to the list of its context.  The links are inside the block, so linking one that is
  listed already would break the list; the definition is for blocks that are not.\<close>

definition link_shared :: "u32 \<Rightarrow> u32 \<Rightarrow> u32 \<Rightarrow> tee \<Rightarrow> tee" where
  "link_shared ctx b a st =
     upd_context ctx (\<lambda>c. c\<lparr>ctx_shared := ctx_shared c @ [b], ctx_shared_cnt := ctx_shared_cnt c + 1\<rparr>)
       (upd_shm b (\<lambda>x. x\<lparr>allocated := a, shm_context := ctx, shm_operations := 0\<rparr>) st)"

definition TEEC_AllocateSharedMemory :: "tee_env \<Rightarrow> u32 \<Rightarrow> u32 \<Rightarrow> tee \<Rightarrow> (tee \<times> u32) option" where
  "TEEC_AllocateSharedMemory env ctx b st =
     (if ctx = 0 \<or> b = 0 \<or> bad_shared (shms st b) then Some (st, TEEC_ERROR_BAD_PARAMETERS)
      else do {
        (st1, a) \<leftarrow> sys_mmap env (fd (contexts st ctx)) (shm_size (shms st b)) st;
        if a = 0
        then Some (upd_shm b (\<lambda>x. x\<lparr>shm_errno := errno st1, buffer := 0\<rparr>) st1, TEEC_ERROR_OUT_OF_MEMORY)
        else Some (link_shared ctx b 1 (upd_shm b (\<lambda>x. x\<lparr>buffer := a\<rparr>) st1), TEEC_SUCCESS)
      })"

definition TEEC_RegisterSharedMemory :: "u32 \<Rightarrow> u32 \<Rightarrow> tee \<Rightarrow> tee \<times> u32" where
  "TEEC_RegisterSharedMemory ctx b st =
     (if ctx = 0 \<or> b = 0 \<or> bad_shared (shms st b) \<or> buffer (shms st b) = 0 then (st, TEEC_ERROR_BAD_PARAMETERS)
      else (link_shared ctx b 0 st, TEEC_SUCCESS))"

definition TEEC_ReleaseSharedMemory :: "u32 \<Rightarrow> tee \<Rightarrow> tee option" where
  "TEEC_ReleaseSharedMemory b st =
     (if b = 0 \<or> shm_operations (shms st b) \<noteq> 0 then Some st
      else let ctx = shm_context (shms st b) in
        if ctx = 0 then None
        else Some (upd_shm b (\<lambda>x. x\<lparr>buffer := 0, shm_size := 0, shm_context := 0\<rparr>)
          (if b \<in> set (ctx_shared (contexts st ctx))
           then upd_context ctx (\<lambda>c. c\<lparr>ctx_shared := remove1 b (ctx_shared c), ctx_shared_cnt := ctx_shared_cnt c - 1\<rparr>) st
           else st)))"

section \<open>Sessions\<close>

definition login_error :: "u32 \<Rightarrow> bool \<Rightarrow> u32 option" where
  "login_error method data =
     (if method = 0 then if data then Some TEEC_ERROR_BAD_PARAMETERS else None
      else if method = 1 \<or> method = 4 \<or> method = 5
      then Some (if data then TEEC_ERROR_BAD_PARAMETERS else TEEC_ERROR_NOT_IMPLEMENTED)
      else if method = 2 \<or> method = 6
      then Some (if \<not> data then TEEC_ERROR_BAD_PARAMETERS else TEEC_ERROR_NOT_IMPLEMENTED)
      else None)"

text \<open>The comparisons with error numbers of the driver are kept, although the C library returns \<open>- 1\<close>.\<close>

definition open_error :: "int \<Rightarrow> u32" where
  "open_error ret =
     (if ret = - ENOMEM then TEEC_ERROR_OUT_OF_MEMORY
      else if ret = - EFAULT then TEEC_ERROR_ACCESS_DENIED
      else if ret = - EINVAL then TEEC_ERROR_BAD_PARAMETERS else TEEC_ERROR_GENERIC)"

definition TEEC_OpenSession ::
    "tee_env \<Rightarrow> u32 \<Rightarrow> u32 \<Rightarrow> u32 option \<Rightarrow> u32 \<Rightarrow> bool \<Rightarrow> u32 \<Rightarrow> tee \<Rightarrow> (tee \<times> u32) option" where
  "TEEC_OpenSession env ctx ses dest method data ro st =
     (if ctx = 0 \<or> ses = 0 \<or> dest = None then Some (st, TEEC_ERROR_BAD_PARAMETERS)
      else case login_error method data of Some e \<Rightarrow> Some (st, e)
      | None \<Rightarrow> do {
          (st1, cmd, ret) \<leftarrow> sys_ioctl env (fd (contexts st ctx))
            (IOCTL_SES_OPEN_REQ \<lparr>so_service = the dest, so_session = garbage_session env\<rparr>) st;
          if ret < 0
          then (let st2 = set_origin ro TEEC_ORIGIN_API st1
                in Some (upd_context ctx (\<lambda>c. c\<lparr>ctx_errno := errno st2\<rparr>) st2, open_error ret))
          else if 0 < ret
          then do { _ \<leftarrow> TEEC_GetError ret TEEC_ORIGIN_TRUSTED_APP;
                    Some (set_origin ro TEEC_ORIGIN_TRUSTED_APP st1, word_of_int ret) }
          else Some (upd_session ses (\<lambda>x. x\<lparr>operation_cnt := 0,
                         ts_session := (case cmd of IOCTL_SES_OPEN_REQ so \<Rightarrow> so_session so | _ \<Rightarrow> garbage_session env),
                         ts_service := the dest, device := ctx\<rparr>)
                       (upd_context ctx (\<lambda>c. c\<lparr>session_count := session_count c + 1\<rparr>) st1), TEEC_SUCCESS)
        })"

definition TEEC_CloseSession :: "tee_env \<Rightarrow> u32 \<Rightarrow> tee \<Rightarrow> tee option" where
  "TEEC_CloseSession env ses st =
     (if ses = 0 \<or> operation_cnt (tee_sessions st ses) \<noteq> 0 then Some st
      else let x = tee_sessions st ses in
        if device x = 0 then None
        else do {
          (st1, _, ret) \<leftarrow> sys_ioctl env (fd (contexts st (device x)))
            (IOCTL_SES_CLOSE_REQ \<lparr>so_service = ts_service x, so_session = ts_session x\<rparr>) st;
          Some (if ret = 0
            then upd_session ses (\<lambda>x. x\<lparr>device := 0, ts_session := - 1\<rparr>)
                   (upd_context (device x) (\<lambda>c. c\<lparr>session_count := session_count c - 1\<rparr>) st1)
            else st1)
        })"

section \<open>Invoking a command\<close>

text \<open>The operation at \<open>op\<close>: \<^verbatim>\<open>started\<close>, \<^verbatim>\<open>paramTypes\<close> and four parameters of three words.\<close>

definition param_at :: "u32 \<Rightarrow> nat \<Rightarrow> u32" where
  "param_at op i = op + 8 + of_nat (12 * i)"

definition word_at :: "tee \<Rightarrow> u32 \<Rightarrow> u32" where
  "word_at st a = load32 (vmem (drv st)) a"

definition set_word :: "u32 \<Rightarrow> u32 \<Rightarrow> tee \<Rightarrow> tee" where
  "set_word a v st = st\<lparr>drv := (drv st)\<lparr>vmem := store32 a v (vmem (drv st))\<rparr>\<rparr>"

definition param_types :: "u32 \<Rightarrow> nat \<Rightarrow> u32" where
  "param_types pt i = drop_bit (4 * i) pt AND 0xF"

definition is_value :: "u32 \<Rightarrow> bool" where
  "is_value ty \<longleftrightarrow> ty = TEEC_VALUE_INPUT \<or> ty = TEEC_VALUE_INOUT \<or> ty = TEEC_VALUE_OUTPUT"

definition is_partial :: "u32 \<Rightarrow> bool" where
  "is_partial ty \<longleftrightarrow> ty = TEEC_MEMREF_PARTIAL_INPUT \<or> ty = TEEC_MEMREF_PARTIAL_INOUT \<or> ty = TEEC_MEMREF_PARTIAL_OUTPUT"

definition is_temp :: "u32 \<Rightarrow> bool" where
  "is_temp ty \<longleftrightarrow> ty = TEEC_MEMREF_TEMP_INPUT \<or> ty = TEEC_MEMREF_TEMP_OUTPUT \<or> ty = TEEC_MEMREF_TEMP_INOUT"

datatype enc_kind = Enc_Uint32 | Enc_Array | Enc_Mem_Ref

definition enc_request :: "enc_kind \<Rightarrow> otz_client_encode_cmd \<Rightarrow> ioctl_cmd" where
  "enc_request k enc = (case k of Enc_Uint32 \<Rightarrow> IOCTL_ENC_UINT32 enc | Enc_Array \<Rightarrow> IOCTL_ENC_ARRAY enc
     | Enc_Mem_Ref \<Rightarrow> IOCTL_ENC_MEM_REF enc)"

text \<open>The argument of a request afterwards.\<close>

fun cmd_arg :: "ioctl_cmd \<Rightarrow> otz_client_encode_cmd \<Rightarrow> otz_client_encode_cmd" where
  "cmd_arg (IOCTL_SEND_CMD_REQ e) _ = e"
| "cmd_arg (IOCTL_ENC_UINT32 e) _ = e"
| "cmd_arg (IOCTL_DEC_UINT32 e) _ = e"
| "cmd_arg (IOCTL_ENC_ARRAY e) _ = e"
| "cmd_arg (IOCTL_DEC_ARRAY_SPACE e) _ = e"
| "cmd_arg (IOCTL_ENC_MEM_REF e) _ = e"
| "cmd_arg (IOCTL_OPERATION_RELEASE e) _ = e"
| "cmd_arg _ e = e"

text \<open>A request on behalf of a session; when it fails, the origin and the error number are stored.\<close>

definition session_ioctl ::
    "tee_env \<Rightarrow> u32 \<Rightarrow> (otz_client_encode_cmd \<Rightarrow> ioctl_cmd) \<Rightarrow> otz_client_encode_cmd \<Rightarrow> tee \<Rightarrow>
     (tee \<times> otz_client_encode_cmd \<times> int) option" where
  "session_ioctl env ses req enc st =
     (let d = device (tee_sessions st ses) in
      if d = 0 then None
      else map_option (\<lambda>(st1, cmd, r). (st1, cmd_arg cmd enc, r)) (sys_ioctl env (fd (contexts st d)) (req enc) st))"

definition api_failure :: "u32 \<Rightarrow> u32 \<Rightarrow> tee \<Rightarrow> tee" where
  "api_failure ses ro st =
     (let st1 = set_origin ro TEEC_ORIGIN_API st in upd_session ses (\<lambda>x. x\<lparr>ts_errno := errno st1\<rparr>) st1)"

definition checked_ioctl ::
    "tee_env \<Rightarrow> u32 \<Rightarrow> u32 \<Rightarrow> (otz_client_encode_cmd \<Rightarrow> ioctl_cmd) \<Rightarrow> otz_client_encode_cmd \<Rightarrow> tee \<Rightarrow>
     (tee \<times> otz_client_encode_cmd \<times> int) option" where
  "checked_ioctl env ses ro req enc st =
     do { (st1, enc1, r) \<leftarrow> session_ioctl env ses req enc st;
          Some (if r \<noteq> 0 then api_failure ses ro st1 else st1, enc1, r) }"

text \<open>\<open>inout\<close> is 0 for input, 1 for output and 2 for both, which takes two requests.\<close>

definition encode_both ::
    "tee_env \<Rightarrow> u32 \<Rightarrow> u32 \<Rightarrow> enc_kind \<Rightarrow> (bool \<Rightarrow> otz_client_encode_cmd \<Rightarrow> otz_client_encode_cmd) \<Rightarrow> nat \<Rightarrow>
     otz_client_encode_cmd \<Rightarrow> tee \<Rightarrow> (tee \<times> otz_client_encode_cmd \<times> int) option" where
  "encode_both env ses ro k dir inout enc st =
     do { (st1, enc1, r) \<leftarrow> checked_ioctl env ses ro (enc_request k) (dir (inout = 1) enc) st;
          if r \<noteq> 0 \<or> inout \<noteq> 2 then Some (st1, enc1, r)
          else checked_ioctl env ses ro (enc_request k) (dir True enc1) st1 }"

definition value_dir :: "bool \<Rightarrow> otz_client_encode_cmd \<Rightarrow> otz_client_encode_cmd" where
  "value_dir out enc = enc\<lparr>c_param := (if out then OTZC_PARAM_OUT else OTZC_PARAM_IN)\<rparr>"

definition mem_dir :: "bool \<Rightarrow> otz_client_encode_cmd \<Rightarrow> otz_client_encode_cmd" where
  "mem_dir out enc = enc\<lparr>c_flags := (if out then OTZ_MEM_SERVICE_WO else OTZ_MEM_SERVICE_RO),
     c_param := (if out then OTZC_PARAM_OUT else OTZC_PARAM_IN)\<rparr>"

text \<open>The results of encoding a parameter: the state, the command, \<open>inout\<close> and the error.\<close>

type_synonym encoding = "tee \<times> otz_client_encode_cmd \<times> nat \<times> int"

definition api_error :: "u32 \<Rightarrow> u32 \<Rightarrow> otz_client_encode_cmd \<Rightarrow> nat \<Rightarrow> tee \<Rightarrow> encoding" where
  "api_error ro code enc inout st = (set_origin ro TEEC_ORIGIN_API st, enc, inout, sint code)"

definition encode_value ::
    "tee_env \<Rightarrow> u32 \<Rightarrow> u32 \<Rightarrow> u32 \<Rightarrow> u32 \<Rightarrow> otz_client_encode_cmd \<Rightarrow> tee \<Rightarrow> encoding option" where
  "encode_value env ses ro p ty enc st =
     (let inout = (if ty = TEEC_VALUE_INPUT then 0 else if ty = TEEC_VALUE_OUTPUT then 1 else 2) in do {
        (st1, enc1, r) \<leftarrow> encode_both env ses ro Enc_Uint32 value_dir inout (enc\<lparr>c_data := p, c_len := 4\<rparr>) st;
        if r \<noteq> 0 then Some (st1, enc1, inout, r)
        else if word_at st1 (p + 4) = TEEC_VALUE_UNDEF then Some (st1, enc1, inout, 0)
        else do {
          (st2, enc2, r) \<leftarrow> encode_both env ses ro Enc_Uint32 value_dir inout (enc1\<lparr>c_data := p + 4, c_len := 4\<rparr>) st1;
          Some (st2, enc2, inout, r) } })"

definition partial_error :: "u32 \<Rightarrow> u32 \<Rightarrow> tee_shared \<Rightarrow> u32 \<Rightarrow> u32 option" where
  "partial_error p ty b end =
     (if ty = TEEC_MEMREF_PARTIAL_INPUT \<and> shm_flags b AND TEEC_MEM_INPUT = 0 then Some TEEC_ERROR_BAD_FORMAT
      else if ty = TEEC_MEMREF_PARTIAL_OUTPUT \<and> shm_flags b AND TEEC_MEM_OUTPUT = 0 then Some TEEC_ERROR_BAD_FORMAT
      else if ty = TEEC_MEMREF_PARTIAL_INOUT \<and> (shm_flags b AND TEEC_MEM_INPUT = 0 \<or> shm_flags b AND TEEC_MEM_OUTPUT = 0)
      then Some TEEC_ERROR_BAD_FORMAT
      else if is_partial ty \<and> shm_size b < end then Some TEEC_ERROR_EXCESS_DATA
      else None)"

definition whole_inout :: "tee_shared \<Rightarrow> nat \<Rightarrow> nat" where
  "whole_inout b inout =
     (if shm_flags b = TEEC_MEM_INPUT OR TEEC_MEM_OUTPUT then 2 else if shm_flags b = TEEC_MEM_INPUT then 0
      else if shm_flags b = TEEC_MEM_OUTPUT then 1 else inout)"

definition memref_inout :: "u32 \<Rightarrow> tee_shared \<Rightarrow> nat \<Rightarrow> nat" where
  "memref_inout ty b inout =
     (if ty = TEEC_MEMREF_PARTIAL_INPUT then 0 else if ty = TEEC_MEMREF_PARTIAL_OUTPUT then 1
      else if ty = TEEC_MEMREF_PARTIAL_INOUT then 2 else whole_inout b inout)"

text \<open>The sum of offset and size may wrap.  An allocated block is passed by reference, a registered one is copied.\<close>

definition encode_memref ::
    "tee_env \<Rightarrow> u32 \<Rightarrow> u32 \<Rightarrow> u32 \<Rightarrow> u32 \<Rightarrow> otz_client_encode_cmd \<Rightarrow> nat \<Rightarrow> tee \<Rightarrow> encoding option" where
  "encode_memref env ses ro p ty enc inout0 st =
     (let parent = word_at st p; b = shms st parent; size = word_at st (p + 4); offset = word_at st (p + 8) in
      if parent = 0 \<or> buffer b = 0 then Some (api_error ro TEEC_ERROR_NO_DATA enc inout0 st)
      else case partial_error p ty b (offset + size) of Some e \<Rightarrow> Some (api_error ro e enc inout0 st)
      | None \<Rightarrow>
          (let inout = memref_inout ty b inout0;
               enc1 = (if ty = TEEC_MEMREF_WHOLE then enc\<lparr>c_len := shm_size b, c_offset := 0\<rparr>
                       else enc\<lparr>c_len := size, c_offset := offset\<rparr>);
               byref = (allocated b \<noteq> 0);
               enc2 = (if byref then enc1\<lparr>c_data := buffer b\<rparr> else enc1\<lparr>c_data := buffer b + c_offset enc1, c_offset := 0\<rparr>)
           in do {
             (st1, enc3, r) \<leftarrow> encode_both env ses ro (if byref then Enc_Mem_Ref else Enc_Array) mem_dir inout enc2 st;
             Some (st1, enc3, inout, r) }))"

definition encode_tmpref ::
    "tee_env \<Rightarrow> u32 \<Rightarrow> u32 \<Rightarrow> u32 \<Rightarrow> u32 \<Rightarrow> otz_client_encode_cmd \<Rightarrow> nat \<Rightarrow> tee \<Rightarrow> encoding option" where
  "encode_tmpref env ses ro p ty enc inout0 st =
     (if word_at st p = 0 \<or> word_at st (p + 4) = 0 then Some (api_error ro TEEC_ERROR_NO_DATA enc inout0 st)
      else let inout = (if ty = TEEC_MEMREF_TEMP_INPUT then 0 else if ty = TEEC_MEMREF_TEMP_OUTPUT then 1 else 2) in do {
        (st1, enc1, r) \<leftarrow> encode_both env ses ro Enc_Array mem_dir inout
            (enc\<lparr>c_len := word_at st (p + 4), c_data := word_at st p\<rparr>) st;
        Some (st1, enc1, inout, r) })"

definition encode_tee_param ::
    "tee_env \<Rightarrow> u32 \<Rightarrow> u32 \<Rightarrow> u32 \<Rightarrow> u32 \<Rightarrow> otz_client_encode_cmd \<Rightarrow> nat \<Rightarrow> tee \<Rightarrow> encoding option" where
  "encode_tee_param env ses ro p ty enc inout st =
     (if is_value ty then encode_value env ses ro p ty enc st
      else if ty = TEEC_MEMREF_WHOLE \<or> is_partial ty then encode_memref env ses ro p ty enc inout st
      else if is_temp ty then encode_tmpref env ses ro p ty enc inout st
      else Some (st, enc, inout, 0))"

text \<open>The parameters in their order, up to the first error.\<close>

fun encode_tee_params ::
    "tee_env \<Rightarrow> u32 \<Rightarrow> u32 \<Rightarrow> u32 \<Rightarrow> u32 \<Rightarrow> nat list \<Rightarrow> otz_client_encode_cmd \<Rightarrow> nat \<Rightarrow> tee \<Rightarrow>
     (tee \<times> otz_client_encode_cmd \<times> int) option" where
  "encode_tee_params env ses ro op pt [] enc inout st = Some (st, enc, 0)"
| "encode_tee_params env ses ro op pt (i # is) enc inout st =
     do { (st1, enc1, inout1, r) \<leftarrow> encode_tee_param env ses ro (param_at op i) (param_types pt i) enc inout st;
          if r \<noteq> 0 then Some (st1, enc1, r) else encode_tee_params env ses ro op pt is enc1 inout1 st1 }"

text \<open>Sending the command; again the comparisons with error numbers of the driver.\<close>

definition send_result :: "int \<Rightarrow> int" where
  "send_result ret =
     (let ret1 = (if ret = - EFAULT then sint TEEC_ERROR_ACCESS_DENIED else ret)
      in if ret1 = - EINVAL then sint TEEC_ERROR_BAD_PARAMETERS else ret1)"

definition send_request ::
    "tee_env \<Rightarrow> u32 \<Rightarrow> u32 \<Rightarrow> otz_client_encode_cmd \<Rightarrow> tee \<Rightarrow> (tee \<times> otz_client_encode_cmd \<times> int) option" where
  "send_request env ses ro enc st =
     do { (st1, enc1, ret) \<leftarrow> session_ioctl env ses IOCTL_SEND_CMD_REQ enc st;
          if ret < 0 then Some (api_failure ses ro st1, enc1, send_result ret)
          else if 0 < ret
          then do { _ \<leftarrow> TEEC_GetError ret TEEC_ORIGIN_TRUSTED_APP;
                    Some (set_origin ro TEEC_ORIGIN_TRUSTED_APP st1, enc1, ret) }
          else Some (st1, enc1, 0) }"

text \<open>The value of the parameter is read through the address that the driver returned.\<close>

definition decode_value_word ::
    "tee_env \<Rightarrow> u32 \<Rightarrow> u32 \<Rightarrow> u32 \<Rightarrow> otz_client_encode_cmd \<Rightarrow> tee \<Rightarrow> (tee \<times> otz_client_encode_cmd \<times> int) option" where
  "decode_value_word env ses ro a enc st =
     do { (st1, enc1, r) \<leftarrow> checked_ioctl env ses ro IOCTL_DEC_UINT32 (enc\<lparr>c_len := 4\<rparr>) st;
          if r \<noteq> 0 then Some (st1, enc1, r)
          else if \<not> valid (os env) (c_data enc1) then None
          else Some (set_word a (word_at st1 (c_data enc1)) st1, enc1, 0) }"

definition decode_value ::
    "tee_env \<Rightarrow> u32 \<Rightarrow> u32 \<Rightarrow> u32 \<Rightarrow> otz_client_encode_cmd \<Rightarrow> tee \<Rightarrow> (tee \<times> otz_client_encode_cmd \<times> int) option" where
  "decode_value env ses ro p enc st =
     do { (st1, enc1, r) \<leftarrow> decode_value_word env ses ro p enc st;
          if r \<noteq> 0 \<or> word_at st1 (p + 4) = TEEC_VALUE_UNDEF then Some (st1, enc1, r)
          else decode_value_word env ses ro (p + 4) enc1 st1 }"

definition decode_buffer ::
    "tee_env \<Rightarrow> u32 \<Rightarrow> u32 \<Rightarrow> u32 \<Rightarrow> u32 \<Rightarrow> otz_client_encode_cmd \<Rightarrow> tee \<Rightarrow> (tee \<times> otz_client_encode_cmd \<times> int) option" where
  "decode_buffer env ses ro p ty enc st =
     (if ty = TEEC_MEMREF_WHOLE \<and> word_at st p = 0 then None
      else if ty = TEEC_MEMREF_WHOLE \<and> whole_inout (shms st (word_at st p)) 2 = 0 then Some (st, enc, 0)
      else do {
        (st1, enc1, r) \<leftarrow> checked_ioctl env ses ro IOCTL_DEC_ARRAY_SPACE enc st;
        Some (if r \<noteq> 0 then st1 else set_word (p + 4) (c_len enc1) st1, enc1, r) })"

definition decode_tee_param ::
    "tee_env \<Rightarrow> u32 \<Rightarrow> u32 \<Rightarrow> u32 \<Rightarrow> u32 \<Rightarrow> otz_client_encode_cmd \<Rightarrow> tee \<Rightarrow> (tee \<times> otz_client_encode_cmd \<times> int) option" where
  "decode_tee_param env ses ro p ty enc st =
     (if ty = TEEC_VALUE_INOUT \<or> ty = TEEC_VALUE_OUTPUT then decode_value env ses ro p enc st
      else if ty = TEEC_MEMREF_WHOLE \<or> ty = TEEC_MEMREF_PARTIAL_INOUT \<or> ty = TEEC_MEMREF_PARTIAL_OUTPUT \<or>
        ty = TEEC_MEMREF_TEMP_INOUT \<or> ty = TEEC_MEMREF_TEMP_OUTPUT then decode_buffer env ses ro p ty enc st
      else Some (st, enc, 0))"

fun decode_tee_params ::
    "tee_env \<Rightarrow> u32 \<Rightarrow> u32 \<Rightarrow> u32 \<Rightarrow> u32 \<Rightarrow> nat list \<Rightarrow> otz_client_encode_cmd \<Rightarrow> tee \<Rightarrow>
     (tee \<times> otz_client_encode_cmd \<times> int) option" where
  "decode_tee_params env ses ro op pt [] enc st = Some (st, enc, 0)"
| "decode_tee_params env ses ro op pt (i # is) enc st =
     do { (st1, enc1, r) \<leftarrow> decode_tee_param env ses ro (param_at op i) (param_types pt i) enc st;
          if r \<noteq> 0 then Some (st1, enc1, r) else decode_tee_params env ses ro op pt is enc1 st1 }"

text \<open>The types are read before encoding; whether there are any is read again before decoding, where they would
  be undefined if there were none before.\<close>

definition run_operation ::
    "tee_env \<Rightarrow> u32 \<Rightarrow> u32 \<Rightarrow> u32 \<Rightarrow> otz_client_encode_cmd \<Rightarrow> tee \<Rightarrow> (tee \<times> otz_client_encode_cmd \<times> int) option" where
  "run_operation env ses ro op enc st =
     (let pt = word_at st (op + 4) in do {
        (st1, enc1, r1) \<leftarrow> encode_tee_params env ses ro op pt (if pt \<noteq> 0 then [0..<4] else []) enc 0 st;
        if r1 \<noteq> 0 then Some (st1, enc1, r1)
        else do {
          (st2, enc2, r2) \<leftarrow> send_request env ses ro enc1 st1;
          if r2 \<noteq> 0 then Some (st2, enc2, r2)
          else if word_at st2 (op + 4) = 0 then Some (st2, enc2, 0)
          else if pt = 0 then None
          else decode_tee_params env ses ro op pt [0..<4] enc2 st2 } })"

definition start_command :: "tee_env \<Rightarrow> tee_session \<Rightarrow> u32 \<Rightarrow> otz_client_encode_cmd" where
  "start_command env x cid =
     (garbage env)\<lparr>c_encode_id := - 1, c_cmd := cid, c_service := ts_service x, c_session := ts_session x\<rparr>"

definition TEEC_InvokeCommand :: "tee_env \<Rightarrow> u32 \<Rightarrow> u32 \<Rightarrow> u32 \<Rightarrow> u32 \<Rightarrow> tee \<Rightarrow> (tee \<times> u32) option" where
  "TEEC_InvokeCommand env ses cid op ro st =
     (if ses = 0 then Some (st, TEEC_ERROR_BAD_PARAMETERS)
      else if op \<noteq> 0 \<and> word_at st op = 0 then Some (st, TEEC_ERROR_NOT_IMPLEMENTED)
      else if op = 0 then None
      else do {
        (st1, enc1, r) \<leftarrow> run_operation env ses ro op (start_command env (tee_sessions st ses) cid)
          (upd_session ses (\<lambda>x. x\<lparr>operation_cnt := operation_cnt x + 1\<rparr>) st);
        (st2, _, _) \<leftarrow> session_ioctl env ses IOCTL_OPERATION_RELEASE enc1 st1;
        Some (upd_session ses (\<lambda>x. x\<lparr>operation_cnt := operation_cnt x - 1\<rparr>) st2, word_of_int r)
      })"

end
