(* ===== verification/Tee_Client_Runs.thy ===== *)
theory Tee_Client_Runs
  imports Tee_Client Driver_Runs
begin

text \<open>
  What the client library of the TEE interface guarantees on top of the driver: an invocation leaves no encode
  context behind, and the inputs of a client arrive in the secure world, across the library, the driver and the
  decoder of the secure sessions.
\<close>

section \<open>One context per operation\<close>

definition ctx_ids :: "u32 \<Rightarrow> u32 \<Rightarrow> u32 \<Rightarrow> driver \<Rightarrow> u32 list option" where
  "ctx_ids dev svc ses s = map_option (\<lambda>x. map encode_id (encode_list x)) (find_ses dev svc ses s)"

text \<open>Steps that keep the identifiers of the contexts and take addresses from the allocator at most.\<close>

definition keeps_ids :: "driver \<Rightarrow> driver \<Rightarrow> bool" where
  "keeps_ids s s' \<longleftrightarrow> (\<forall>d v x. ctx_ids d v x s' = ctx_ids d v x s) \<and> set (kmallocs s') \<subseteq> set (kmallocs s)"

lemma keeps_refl [simp]: "keeps_ids s s" by (simp add: keeps_ids_def)

lemma keeps_trans: "keeps_ids s s1 \<Longrightarrow> keeps_ids s1 s2 \<Longrightarrow> keeps_ids s s2"
  by (auto simp: keeps_ids_def)

lemma keeps_lists: "dev_files s' = dev_files s \<Longrightarrow> set (kmallocs s') \<subseteq> set (kmallocs s) \<Longrightarrow> keeps_ids s s'"
  using find_cong_lists(3)[of s' s] by (simp add: keeps_ids_def ctx_ids_def)

lemma map_upd_first: "(\<And>c. g (f c) = g c) \<Longrightarrow> map g (upd_first P f xs) = map g xs"
  by (induction xs) auto

lemma keeps_upd_ctx:
  assumes "\<And>c. encode_id (f c) = encode_id c"
  shows "keeps_ids s (upd_ctx dev enc f s)"
proof -
  have "ctx_ids d v x (upd_ctx dev enc f s) = ctx_ids d v x s" for d v x
    by (cases "find_ses d v x s") (auto simp: ctx_ids_def upd_ctx_def upd_enc_def find_ses_upd map_upd_first[of encode_id f, OF assms])
  then show ?thesis by (simp add: keeps_ids_def)
qed

lemma keeps_kmalloc: "kmalloc s = (a, s') \<Longrightarrow> keeps_ids s s'"
  by (rule keeps_lists) (auto simp: kmalloc_def split: list.splits)

lemma keeps_kfree: "keeps_ids s (kfree a s)" "keeps_ids s (free_nonnull a s)"
  by (auto intro!: keeps_lists simp: kfree_def free_nonnull_def)

lemma keeps_buffer:
  "req_buffer dev enc s = (s', ok) \<Longrightarrow> keeps_ids s s'"
  "res_buffer dev enc s = (s', ok) \<Longrightarrow> keeps_ids s s'"
proof -
  obtain a s1 where k: "kmalloc s = (a, s1)" by (cases "kmalloc s")
  show "req_buffer dev enc s = (s', ok) \<Longrightarrow> keeps_ids s s'"
    using k keeps_trans[OF keeps_kmalloc[OF k] keeps_upd_ctx[of "\<lambda>c. c\<lparr>ker_req_data_addr := a\<rparr>" s1 dev enc]]
    by (auto simp: req_buffer_def split: if_splits)
  show "res_buffer dev enc s = (s', ok) \<Longrightarrow> keeps_ids s s'"
    using k keeps_trans[OF keeps_kmalloc[OF k] keeps_upd_ctx[of "\<lambda>c. c\<lparr>ker_res_data_addr := a\<rparr>" s1 dev enc]]
    by (auto simp: res_buffer_def split: if_splits)
qed

text \<open>After a change of the memory, a context may be changed.\<close>

lemma keeps_push:
  assumes "keeps_ids s s1" and "dev_files s2 = dev_files s1" and "kmallocs s2 = kmallocs s1"
  shows "keeps_ids s (upd_ctx dev enc (push_req n f) s2)" "keeps_ids s (upd_ctx dev enc (push_res n f) s2)"
    "keeps_ids s (upd_ctx dev enc (advance n) s2)" "keeps_ids s s2"
proof -
  have k: "keeps_ids s s2" using keeps_trans[OF assms(1) keeps_lists[of s2 s1]] assms(2,3) by simp
  show "keeps_ids s s2" by (rule k)
  show "keeps_ids s (upd_ctx dev enc (push_req n f) s2)"
    by (rule keeps_trans[OF k keeps_upd_ctx]) (simp add: push_req_def)
  show "keeps_ids s (upd_ctx dev enc (push_res n f) s2)"
    by (rule keeps_trans[OF k keeps_upd_ctx]) (simp add: push_res_def)
  show "keeps_ids s (upd_ctx dev enc (advance n) s2)"
    by (rule keeps_trans[OF k keeps_upd_ctx]) (simp add: advance_def)
qed

lemma copies_kmallocs [simp]:
  "kmallocs (fst (copy_from_user env a b n s)) = kmallocs s" "kmallocs (fst (copy_to_user env a b n s)) = kmallocs s"
  by (simp_all add: copy_from_user_def copy_to_user_def)

lemma keeps_copies:
  "copy_from_user env a b n s = (s', ok) \<Longrightarrow> dev_files s' = dev_files s \<and> kmallocs s' = kmallocs s"
  "copy_to_user env a b n s = (s', ok) \<Longrightarrow> dev_files s' = dev_files s \<and> kmallocs s' = kmallocs s"
  by (auto simp: copy_from_user_def copy_to_user_def)

lemma keeps_params:
  "uint32_in env dev enc s = Some (s', r) \<Longrightarrow> keeps_ids s s'"
  "uint32_out dev enc s = (s', r) \<Longrightarrow> keeps_ids s s'"
  "array_in env dev enc s = (s', r) \<Longrightarrow> keeps_ids s s'"
  "array_out dev enc s = (s', r) \<Longrightarrow> keeps_ids s s'"
  "mem_ref_in env dev b enc s = (s', r) \<Longrightarrow> keeps_ids s s'"
  "mem_ref_out env dev b enc s = (s', r) \<Longrightarrow> keeps_ids s s'"
proof -
  obtain s1 ok where q: "req_buffer dev enc s = (s1, ok)" by (cases "req_buffer dev enc s")
  obtain s2 ok2 where p: "res_buffer dev enc s = (s2, ok2)" by (cases "res_buffer dev enc s")
  note k = keeps_push[OF keeps_buffer(1)[OF q]] and k2 = keeps_push[OF keeps_buffer(2)[OF p]]
  note b = keeps_buffer(1)[OF q] keeps_buffer(2)[OF p]
  show "uint32_in env dev enc s = Some (s', r) \<Longrightarrow> keeps_ids s s'"
    using q b by (auto simp: uint32_in_def Let_def intro!: k(1) split: if_splits)
  show "uint32_out dev enc s = (s', r) \<Longrightarrow> keeps_ids s s'"
    using p b by (auto simp: uint32_out_def Let_def intro!: k2(2) split: if_splits)
  show "array_out dev enc s = (s', r) \<Longrightarrow> keeps_ids s s'"
    using p b by (auto simp: array_out_def Let_def intro!: k2(2) split: if_splits)
  show "mem_ref_in env dev b enc s = (s', r) \<Longrightarrow> keeps_ids s s'"
    using q b by (auto simp: mem_ref_in_def Let_def intro!: k(1) split: if_splits)
  show "mem_ref_out env dev b enc s = (s', r) \<Longrightarrow> keeps_ids s s'"
    using p b by (auto simp: mem_ref_out_def Let_def intro!: k2(2) split: if_splits)
  show "array_in env dev enc s = (s', r) \<Longrightarrow> keeps_ids s s'"
    using q b by (fastforce simp: array_in_def Let_def intro: k(1,4) dest: keeps_copies split: if_splits prod.splits)
qed

text \<open>While the session holds the contexts \<open>xs\<close> and at most one of the operation.\<close>

definition one_context :: "u32 \<Rightarrow> u32 \<Rightarrow> u32 \<Rightarrow> u32 list \<Rightarrow> otz_client_encode_cmd \<Rightarrow> driver \<Rightarrow> bool" where
  "one_context dev svc ses xs enc s \<longleftrightarrow>
     c_service enc = svc \<and> c_session enc = ses \<and> set (kmallocs s) \<inter> insert (- 1) (set xs) = {} \<and>
     (if c_encode_id enc = - 1 then ctx_ids dev svc ses s = Some xs
      else c_encode_id enc \<notin> set xs \<and> ctx_ids dev svc ses s = Some (xs @ [c_encode_id enc]))"

lemma one_context_keeps: "one_context dev svc ses xs enc s \<Longrightarrow> keeps_ids s s' \<Longrightarrow> one_context dev svc ses xs enc s'"
  by (auto simp: one_context_def keeps_ids_def)

lemma one_context_cong:
  "c_service e = c_service enc \<Longrightarrow> c_session e = c_session enc \<Longrightarrow> c_encode_id e = c_encode_id enc \<Longrightarrow>
    one_context dev svc ses xs e s = one_context dev svc ses xs enc s"
  by (simp add: one_context_def)

lemma find_some_map: "(List.find (\<lambda>c. g c = k) xs = None) \<longleftrightarrow> k \<notin> set (map g xs)"
  by (auto simp: find_None_iff)

lemma prepare_one_context:
  assumes o: "one_context dev svc ses xs enc s" and p: "prepare_encode env dev enc s = (s', enc', r)"
  shows "one_context dev svc ses xs enc' s'" "r = 0 \<Longrightarrow> c_encode_id enc' \<noteq> - 1" "r \<noteq> 0 \<Longrightarrow> enc' = enc"
proof -
  have keys: "c_service enc = svc" "c_session enc = ses" using o by (auto simp: one_context_def)
  obtain x where x: "find_ses dev svc ses s = Some x" using o by (auto simp: one_context_def ctx_ids_def split: if_splits)
  obtain a s1 where k: "kmalloc s = (a, s1)" by (cases "kmalloc s")
  obtain m s2 where k2: "kmalloc s1 = (m, s2)" by (cases "kmalloc s1")
  have "one_context dev svc ses xs enc' s' \<and> (r = 0 \<longrightarrow> c_encode_id enc' \<noteq> - 1) \<and> (r \<noteq> 0 \<longrightarrow> enc' = enc)"
  proof (cases "c_encode_id enc = - 1")
    case False
    then have "map encode_id (encode_list x) = xs @ [c_encode_id enc]" using o x by (simp add: one_context_def ctx_ids_def)
    then have "c_encode_id enc \<in> set (map encode_id (encode_list x))" by simp
    then have "List.find (\<lambda>c. encode_id c = c_encode_id enc) (encode_list x) \<noteq> None" by (metis find_some_map)
    then show ?thesis using p False keys x o by (simp add: prepare_encode_def find_enc_def)
  next
    case True
    have ids: "ctx_ids dev svc ses s = Some xs" and fresh: "set (kmallocs s) \<inter> insert (- 1) (set xs) = {}"
      using o True by (simp_all add: one_context_def)
    have ks: "keeps_ids s s1" "keeps_ids s s2" using keeps_kmalloc[OF k] keeps_trans[OF keeps_kmalloc[OF k] keeps_kmalloc[OF k2]] by auto
    show ?thesis
    proof (cases "a = 0 \<or> m = 0")
      case bad: True
      then have "keeps_ids s s'" using p True keys x k k2 ks keeps_trans[OF ks(2) keeps_kfree(1)]
        by (auto simp: prepare_encode_def split: if_splits)
      moreover have "enc' = enc \<and> r \<noteq> 0" using p True keys x k k2 bad by (auto simp: prepare_encode_def ENOMEM_def split: if_splits)
      ultimately show ?thesis using one_context_keeps[OF o] by auto
    next
      case ok: False
      have a: "a \<in> set (kmallocs s)" using k ok by (auto simp: kmalloc_def split: list.splits)
      define g where "g = (\<lambda>x :: otzc_session. x\<lparr>encode_list := encode_list x @ [new_context env a m]\<rparr>)"
      have s': "s' = upd_ses dev svc ses g s2" "enc' = enc\<lparr>c_encode_id := a\<rparr>" "r = 0"
        using p True keys x k k2 ok by (auto simp: prepare_encode_def g_def)
      have "ctx_ids dev svc ses s2 = Some xs" using ks(2) ids by (simp add: keeps_ids_def)
      then have "ctx_ids dev svc ses s' = Some (xs @ [a])"
        unfolding s'(1) by (auto simp: ctx_ids_def find_ses_upd g_def new_context_def)
      moreover have "set (kmallocs s') \<subseteq> set (kmallocs s)" using ks(2) by (simp add: s'(1) keeps_ids_def)
      ultimately show ?thesis using s'(2,3) fresh a keys by (auto simp: one_context_def)
    qed
  qed
  then show "one_context dev svc ses xs enc' s'" "r = 0 \<Longrightarrow> c_encode_id enc' \<noteq> - 1" "r \<noteq> 0 \<Longrightarrow> enc' = enc" by auto
qed

lemma encode_one_context:
  assumes o: "one_context dev svc ses xs enc s"
  shows "encode_uint32 env dev (True, True) enc s = Some (s', enc', r) \<Longrightarrow>
      one_context dev svc ses xs enc' s' \<and> (r = 0 \<longrightarrow> c_encode_id enc' \<noteq> - 1)"
    and "encode_array env dev (True, True) enc s = (s', enc', r) \<Longrightarrow>
      one_context dev svc ses xs enc' s' \<and> (r = 0 \<longrightarrow> c_encode_id enc' \<noteq> - 1)"
    and "encode_mem_ref env dev (True, True) enc s = (s', enc', r) \<Longrightarrow>
      one_context dev svc ses xs enc' s' \<and> (r = 0 \<longrightarrow> c_encode_id enc' \<noteq> - 1)"
proof -
  obtain s1 enc1 r1 where p: "prepare_encode env dev enc s = (s1, enc1, r1)" by (cases "prepare_encode env dev enc s")
  note q = prepare_one_context[OF o p]
  show "encode_uint32 env dev (True, True) enc s = Some (s', enc', r) \<Longrightarrow>
      one_context dev svc ses xs enc' s' \<and> (r = 0 \<longrightarrow> c_encode_id enc' \<noteq> - 1)"
    using q by (auto simp: encode_uint32_def p intro: one_context_keeps keeps_params split: if_splits otzc_param_type.splits)
  show "encode_array env dev (True, True) enc s = (s', enc', r) \<Longrightarrow>
      one_context dev svc ses xs enc' s' \<and> (r = 0 \<longrightarrow> c_encode_id enc' \<noteq> - 1)"
    using q by (auto simp: encode_array_def p intro: one_context_keeps keeps_params split: if_splits prod.splits otzc_param_type.splits)
  show "encode_mem_ref env dev (True, True) enc s = (s', enc', r) \<Longrightarrow>
      one_context dev svc ses xs enc' s' \<and> (r = 0 \<longrightarrow> c_encode_id enc' \<noteq> - 1)"
    using q by (auto simp: encode_mem_ref_def kernel_encode_mem_ref_def p intro: one_context_keeps keeps_params
        split: if_splits prod.splits option.splits otzc_param_type.splits)
qed

lemma keeps_decode:
  "decode_array env dev enc c s = (s', enc', r) \<Longrightarrow>
    keeps_ids s s' \<and> c_service enc' = c_service enc \<and> c_session enc' = c_session enc \<and> c_encode_id enc' = c_encode_id enc"
  "kernel_decode_array_space dev enc s = (s', enc', r) \<Longrightarrow>
    keeps_ids s s' \<and> c_service enc' = c_service enc \<and> c_session enc' = c_session enc \<and> c_encode_id enc' = c_encode_id enc"
proof -
  note k = keeps_push[OF keeps_refl]
  show "decode_array env dev enc c s = (s', enc', r) \<Longrightarrow>
      keeps_ids s s' \<and> c_service enc' = c_service enc \<and> c_session enc' = c_session enc \<and> c_encode_id enc' = c_encode_id enc"
    by (fastforce simp: decode_array_def Let_def intro: k(3,4) dest: keeps_copies split: if_splits prod.splits)
  show "kernel_decode_array_space dev enc s = (s', enc', r) \<Longrightarrow>
      keeps_ids s s' \<and> c_service enc' = c_service enc \<and> c_session enc' = c_session enc \<and> c_encode_id enc' = c_encode_id enc"
    by (auto simp: kernel_decode_array_space_def intro!: k(3) split: if_splits option.splits)
qed

lemma decode_one_context:
  assumes o: "one_context dev svc ses xs enc s"
  shows "decode_uint32 env dev (True, True) enc s = Some (s', enc', r) \<Longrightarrow> one_context dev svc ses xs enc' s'"
    and "decode_array_space env dev (True, True) enc s = (s', enc', r) \<Longrightarrow> one_context dev svc ses xs enc' s'"
proof -
  note k = keeps_push[OF keeps_refl]
  have c: "one_context dev svc ses xs e s'" if "keeps_ids s s'" "c_service e = c_service enc" "c_session e = c_session enc"
    "c_encode_id e = c_encode_id enc" for e s'
    using one_context_keeps[OF o that(1)] one_context_cong[OF that(2-4)] by simp
  show "decode_uint32 env dev (True, True) enc s = Some (s', enc', r) \<Longrightarrow> one_context dev svc ses xs enc' s'"
    using o by (auto simp: decode_uint32_def Let_def intro!: c k(3) split: if_splits option.splits)
  show "decode_array_space env dev (True, True) enc s = (s', enc', r) \<Longrightarrow> one_context dev svc ses xs enc' s'"
    using o by (auto simp: decode_array_space_def intro!: c dest!: keeps_decode split: if_splits prod.splits option.splits)
qed

lemma keeps_smc: "otz_smc_call env dev svc cmd cx e cb cl rb rl mb m s = (s', y) \<Longrightarrow> keeps_ids s s'"
proof -
  assume h: "otz_smc_call env dev svc cmd cx e cb cl rb rl mb m s = (s', y)"
  obtain a s1 where k: "kmalloc s = (a, s1)" by (cases "kmalloc s")
  have "set (kmallocs s') \<subseteq> set (kmallocs s1)"
    using h k by (auto simp: otz_smc_call_def Let_def kfree_def split: prod.splits if_splits)
  then have "set (kmallocs s') \<subseteq> set (kmallocs s)" using keeps_kmalloc[OF k] by (auto simp: keeps_ids_def)
  then show ?thesis using keeps_lists smc_same_lists[OF h] by blast
qed

lemma keeps_send_call: "send_call env dev enc s = (s', r) \<Longrightarrow> keeps_ids s s'"
proof -
  assume h: "send_call env dev enc s = (s', r)"
  let ?c = "cmd_ctx dev enc s"
  obtain s1 m r1 l where e: "otz_smc_call env dev (c_service enc) (c_cmd enc) (c_session enc) (c_encode_id enc)
        (ker_req_data_addr ?c) (req_off ?c) (ker_res_data_addr ?c) (res_off ?c) (meta_at ?c) (meta ?c) s = (s1, m, r1, l)"
    using prod_cases4 by blast
  then have "s' = upd_ctx dev enc (\<lambda>c. c\<lparr>meta := m\<rparr>) s1" using h by (simp add: send_call_def Let_def)
  then show ?thesis using keeps_trans[OF keeps_smc[OF e] keeps_upd_ctx[of "\<lambda>c. c\<lparr>meta := m\<rparr>" s1 dev enc]] by simp
qed

lemma send_one_context:
  assumes o: "one_context dev svc ses xs enc s" and h: "send_cmd env dev (True, True) enc s = (s', enc', r)"
    and "r = 0 \<or> c_encode_id enc \<noteq> - 1"
  shows "one_context dev svc ses xs enc' s'"
proof -
  obtain s1 enc1 found where c: "send_context env dev enc s = (s1, enc1, found)" by (cases "send_context env dev enc s")
  have o1: "one_context dev svc ses xs enc1 s1 \<and> (enc1 = enc \<or> c_encode_id enc = - 1)"
  proof (cases "first_session dev enc s")
    case None
    then show ?thesis using c o by (simp add: send_context_def)
  next
    case (Some x)
    then show ?thesis using c o prepare_one_context(1)[OF o, of env]
      by (auto simp: send_context_def split: if_splits prod.splits)
  qed
  obtain s2 r2 where d: "send_call env dev enc1 s1 = (s2, r2)" by (cases "send_call env dev enc1 s1")
  have "keeps_ids s1 s2" by (rule keeps_send_call[OF d])
  then have o2: "one_context dev svc ses xs enc1 s2" using o1 one_context_keeps by blast
  show ?thesis using h c d o1 o2 assms(3) by (auto simp: send_cmd_def kernel_send_cmd_def EINVAL_def split: if_splits)
qed

lemma release_one_context:
  assumes o: "one_context dev svc ses xs enc s" and h: "operation_release dev (True, True) enc s = (s', r)"
  shows "ctx_ids dev svc ses s' = Some xs"
proof -
  have keys: "c_service enc = svc" "c_session enc = ses" using o by (auto simp: one_context_def)
  obtain x where x: "find_ses dev svc ses s = Some x" using o by (auto simp: one_context_def ctx_ids_def split: if_splits)
  show ?thesis
  proof (cases "c_encode_id enc = - 1")
    case True
    then show ?thesis using o h x keys by (simp add: one_context_def operation_release_def kernel_operation_release_def)
  next
    case False
    then have i: "map encode_id (encode_list x) = xs @ [c_encode_id enc]" "c_encode_id enc \<notin> set xs"
      using o x by (simp_all add: one_context_def ctx_ids_def)
    have "c_encode_id enc \<in> set (map encode_id (encode_list x))" using i(1) by simp
    then have "List.find (\<lambda>c. encode_id c = c_encode_id enc) (encode_list x) \<noteq> None" by (metis find_some_map)
    then obtain c where c: "List.find (\<lambda>c. encode_id c = c_encode_id enc) (encode_list x) = Some c" by blast
    define g where "g = (\<lambda>x :: otzc_session. x\<lparr>encode_list := del_first (\<lambda>c. encode_id c = c_encode_id enc) (encode_list x)\<rparr>)"
    define s0 where "s0 = free_nonnull (ker_res_data_addr c) (free_nonnull (ker_req_data_addr c) s)"
    have s': "s' = kfree (encode_id c) (kfree (meta_at c) (upd_ses dev svc ses g s0))"
      using h x keys c False by (simp add: operation_release_def kernel_operation_release_def s0_def g_def)
    have del: "map encode_id (del_first (\<lambda>c. encode_id c = k) cs) = ys" if "map encode_id cs = ys @ [k]" "k \<notin> set ys"
      for k ys and cs :: "otzc_encode list"
      using that
    proof (induction ys arbitrary: cs)
      case Nil
      then obtain z where "cs = [z]" "encode_id z = k" by (auto simp: map_eq_Cons_conv)
      then show ?case by simp
    next
      case (Cons y ys)
      then obtain z zs where "cs = z # zs" "encode_id z = y" "map encode_id zs = ys @ [k]" by (auto simp: map_eq_Cons_conv)
      then show ?case using Cons by auto
    qed
    have "find_ses dev svc ses s0 = Some x" using x find_cong_lists(3)[of s0 s] by (simp add: s0_def)
    moreover have "\<And>v. session_id (g v) = session_id v" by (simp add: g_def)
    ultimately have "find_ses dev svc ses s' = Some (g x)"
      using find_cong_lists(3)[of s' "upd_ses dev svc ses g s0"] find_ses_upd[of g] by (simp add: s')
    then show ?thesis using del[OF i] by (simp add: ctx_ids_def g_def)
  qed
qed

section \<open>Operations of the client library\<close>

text \<open>A session of the library that is connected to the file \<open>dev\<close> of the driver and runs \<open>n\<close> operations.\<close>

definition connected :: "u32 \<Rightarrow> u32 \<Rightarrow> int \<Rightarrow> tee \<Rightarrow> bool" where
  "connected ses dev n st \<longleftrightarrow>
     (let x = tee_sessions st ses in device x \<noteq> 0 \<and> files st (fd (contexts st (device x))) = Some (Some dev) \<and> operation_cnt x = n)"

definition op_runs ::
    "u32 \<Rightarrow> u32 \<Rightarrow> u32 \<Rightarrow> u32 \<Rightarrow> u32 list \<Rightarrow> int \<Rightarrow> otz_client_encode_cmd \<Rightarrow> tee \<Rightarrow> bool" where
  "op_runs ses dev svc sn xs n enc st \<longleftrightarrow> connected ses dev n st \<and> one_context dev svc sn xs enc (drv st)"

lemma one_context_vmem [simp]: "one_context dev svc sn xs enc (s\<lparr>vmem := m\<rparr>) = one_context dev svc sn xs enc s"
  by (simp add: one_context_def ctx_ids_def find_cong_lists(3)[of "s\<lparr>vmem := m\<rparr>" s])

lemma op_runs_words [simp]:
  "op_runs ses dev svc sn xs n enc (set_origin ro v st) = op_runs ses dev svc sn xs n enc st"
  "op_runs ses dev svc sn xs n enc (set_word a v st) = op_runs ses dev svc sn xs n enc st"
  by (simp_all add: op_runs_def set_origin_def set_word_def connected_def)

lemma op_runs_failure [simp]: "op_runs ses dev svc sn xs n enc (api_failure ses ro st) = op_runs ses dev svc sn xs n enc st"
proof -
  have "op_runs ses dev svc sn xs n enc (upd_session ses (\<lambda>x. x\<lparr>ts_errno := e\<rparr>) s) = op_runs ses dev svc sn xs n enc s" for e s
    by (simp add: upd_session_def op_runs_def connected_def Let_def)
  then show ?thesis by (simp add: api_failure_def Let_def)
qed

lemma op_runs_cong:
  "c_service e = c_service enc \<Longrightarrow> c_session e = c_session enc \<Longrightarrow> c_encode_id e = c_encode_id enc \<Longrightarrow>
    op_runs ses dev svc sn xs n e st = op_runs ses dev svc sn xs n enc st"
  using one_context_cong[of e enc dev svc sn xs "drv st"] by (simp add: op_runs_def)

lemma session_ioctl_run:
  assumes "connected ses dev n st" and "session_ioctl env ses req enc st = Some (st1, enc1, r)"
  shows "\<exists>s' cmd' r'. client_ioctl (os env) dev (True, True) (req enc) (drv st) = Some (s', cmd', r') \<and>
    drv st1 = s' \<and> enc1 = cmd_arg cmd' enc \<and> (r = 0 \<longleftrightarrow> r' = 0) \<and> connected ses dev n st1 \<and> (r \<noteq> - 1 \<longrightarrow> r = r')"
  using assms by (auto simp: session_ioctl_def sys_ioctl_def connected_def linux_result_def Let_def split: if_splits prod.splits)

lemma enc_request_run:
  assumes o: "op_runs ses dev svc sn xs n enc st" and h: "session_ioctl env ses (enc_request k) enc st = Some (st1, enc1, r)"
  shows "op_runs ses dev svc sn xs n enc1 st1 \<and> (r = 0 \<longrightarrow> c_encode_id enc1 \<noteq> - 1)"
proof -
  have o': "one_context dev svc sn xs enc (drv st)" and c: "connected ses dev n st" using o by (simp_all add: op_runs_def)
  obtain s' cmd' r' where i: "client_ioctl (os env) dev (True, True) (enc_request k enc) (drv st) = Some (s', cmd', r')"
    "drv st1 = s'" "enc1 = cmd_arg cmd' enc" "r = 0 \<longleftrightarrow> r' = 0" "connected ses dev n st1"
    using session_ioctl_run[OF c h] by blast
  have "one_context dev svc sn xs enc1 s' \<and> (r' = 0 \<longrightarrow> c_encode_id enc1 \<noteq> - 1)"
    using i(1,3) encode_one_context[OF o', of "os env" s']
    by (cases k) (auto simp: client_ioctl_def enc_request_def split: prod.splits)
  then show ?thesis using i by (simp add: op_runs_def)
qed

lemma checked_request_run:
  assumes o: "op_runs ses dev svc sn xs n enc st" and h: "checked_ioctl env ses ro (enc_request k) enc st = Some (st1, enc1, r)"
  shows "op_runs ses dev svc sn xs n enc1 st1 \<and> (r = 0 \<longrightarrow> c_encode_id enc1 \<noteq> - 1)"
  using h enc_request_run[OF o] by (auto simp: checked_ioctl_def split: bind_splits prod.splits)

text \<open>Setting the direction of a request does not change which context it is for.\<close>

definition keeps_key :: "(bool \<Rightarrow> otz_client_encode_cmd \<Rightarrow> otz_client_encode_cmd) \<Rightarrow> bool" where
  "keeps_key dir \<longleftrightarrow> (\<forall>b e. c_service (dir b e) = c_service e \<and> c_session (dir b e) = c_session e \<and> c_encode_id (dir b e) = c_encode_id e)"

lemma keeps_key_dirs [simp]: "keeps_key value_dir" "keeps_key mem_dir"
  by (simp_all add: keeps_key_def value_dir_def mem_dir_def)

lemma encode_both_run:
  assumes o: "op_runs ses dev svc sn xs n enc st" and d: "keeps_key dir"
    and h: "encode_both env ses ro k dir inout enc st = Some (st1, enc1, r)"
  shows "op_runs ses dev svc sn xs n enc1 st1 \<and> (r = 0 \<longrightarrow> c_encode_id enc1 \<noteq> - 1)"
proof -
  have c: "op_runs ses dev svc sn xs n (dir b e) st' = op_runs ses dev svc sn xs n e st'" for b e st'
    using d op_runs_cong[of "dir b e" e] by (simp add: keeps_key_def)
  obtain st2 enc2 r2 where a: "checked_ioctl env ses ro (enc_request k) (dir (inout = 1) enc) st = Some (st2, enc2, r2)"
    using h by (auto simp: encode_both_def split: bind_splits)
  have o2: "op_runs ses dev svc sn xs n enc2 st2 \<and> (r2 = 0 \<longrightarrow> c_encode_id enc2 \<noteq> - 1)"
    using checked_request_run[OF _ a] o c by blast
  show ?thesis
  proof (cases "r2 \<noteq> 0 \<or> inout \<noteq> 2")
    case True
    then show ?thesis using h a o2 by (simp add: encode_both_def)
  next
    case False
    then have "checked_ioctl env ses ro (enc_request k) (dir True enc2) st2 = Some (st1, enc1, r)"
      using h a by (simp add: encode_both_def)
    then show ?thesis using checked_request_run o2 c by blast
  qed
qed

text \<open>The types of parameter that are passed at all.\<close>

definition active :: "u32 \<Rightarrow> bool" where
  "active ty \<longleftrightarrow> is_value ty \<or> ty = TEEC_MEMREF_WHOLE \<or> is_partial ty \<or> is_temp ty"

lemma sint_codes [simp]:
  "sint TEEC_ERROR_NO_DATA \<noteq> 0" "sint TEEC_ERROR_BAD_FORMAT \<noteq> 0" "sint TEEC_ERROR_EXCESS_DATA \<noteq> 0"
  by (simp_all add: tee_codes)

lemma encode_value_run:
  assumes o: "op_runs ses dev svc sn xs n enc st" and h: "encode_value env ses ro p ty enc st = Some (st1, enc1, io1, r)"
  shows "op_runs ses dev svc sn xs n enc1 st1 \<and> (r = 0 \<longrightarrow> c_encode_id enc1 \<noteq> - 1)"
proof -
  define io where "io = (if ty = TEEC_VALUE_INPUT then 0 else if ty = TEEC_VALUE_OUTPUT then 1 else 2 :: nat)"
  have o': "op_runs ses dev svc sn xs n (enc\<lparr>c_data := p, c_len := 4\<rparr>) st"
    using o op_runs_cong[of "enc\<lparr>c_data := p, c_len := 4\<rparr>" enc] by simp
  obtain st2 enc2 r2 where a: "encode_both env ses ro Enc_Uint32 value_dir io (enc\<lparr>c_data := p, c_len := 4\<rparr>) st = Some (st2, enc2, r2)"
    using h by (auto simp: encode_value_def io_def[symmetric] Let_def split: bind_splits)
  have o2: "op_runs ses dev svc sn xs n enc2 st2 \<and> (r2 = 0 \<longrightarrow> c_encode_id enc2 \<noteq> - 1)"
    by (rule encode_both_run[OF o' _ a]) simp
  have o3: "op_runs ses dev svc sn xs n (enc2\<lparr>c_data := p + 4, c_len := 4\<rparr>) st2"
    using o2 op_runs_cong[of "enc2\<lparr>c_data := p + 4, c_len := 4\<rparr>" enc2] by simp
  show ?thesis
  proof (cases "r2 \<noteq> 0 \<or> word_at st2 (p + 4) = TEEC_VALUE_UNDEF")
    case True
    then show ?thesis using h a o2 by (auto simp: encode_value_def io_def[symmetric] Let_def split: if_splits)
  next
    case False
    then have "encode_both env ses ro Enc_Uint32 value_dir io (enc2\<lparr>c_data := p + 4, c_len := 4\<rparr>) st2 = Some (st1, enc1, r)"
      using h a by (auto simp: encode_value_def io_def[symmetric] Let_def split: bind_splits)
    then show ?thesis using encode_both_run[OF o3] keeps_key_dirs(1) by blast
  qed
qed

lemma encode_tee_param_run:
  assumes o: "op_runs ses dev svc sn xs n enc st" and h: "encode_tee_param env ses ro p ty enc io st = Some (st1, enc1, io1, r)"
  shows "op_runs ses dev svc sn xs n enc1 st1 \<and> (r = 0 \<longrightarrow> active ty \<or> c_encode_id enc \<noteq> - 1 \<longrightarrow> c_encode_id enc1 \<noteq> - 1)"
proof -
  have upd: "op_runs ses dev svc sn xs n e st" if "c_service e = c_service enc" "c_session e = c_session enc" "c_encode_id e = c_encode_id enc" for e
    using o op_runs_cong[of e enc] that by simp
  have both: "op_runs ses dev svc sn xs n enc1 st1 \<and> (r = 0 \<longrightarrow> c_encode_id enc1 \<noteq> - 1)"
    if "encode_both env ses ro k mem_dir inout e st = Some (st1, enc1, r)"
      "c_service e = c_service enc" "c_session e = c_session enc" "c_encode_id e = c_encode_id enc" for k inout e
    using encode_both_run[OF upd[OF that(2-4)] _ that(1)] by simp
  consider "is_value ty" | "\<not> is_value ty" "ty = TEEC_MEMREF_WHOLE \<or> is_partial ty"
    | "\<not> is_value ty" "\<not> (ty = TEEC_MEMREF_WHOLE \<or> is_partial ty)" "is_temp ty" | "\<not> active ty"
    by (auto simp: active_def)
  then show ?thesis
  proof cases
    case 1
    then show ?thesis using h encode_value_run[OF o] by (simp add: encode_tee_param_def)
  next
    case 2
    then have h': "encode_memref env ses ro p ty enc io st = Some (st1, enc1, io1, r)" using h by (simp add: encode_tee_param_def)
    define b where "b = shms st (word_at st p)"
    define f where "f = word_at st (p + 8) + word_at st (p + 4)"
    show ?thesis
    proof (cases "word_at st p = 0 \<or> buffer b = 0 \<or> partial_error p ty b f \<noteq> None")
      case True
      have "partial_error p ty b f = Some e \<Longrightarrow> sint e \<noteq> 0" for e
        by (auto simp: partial_error_def split: if_splits)
      then show ?thesis using True h' o
        by (auto simp: encode_memref_def api_error_def Let_def b_def[symmetric] f_def[symmetric] split: if_splits)
    next
      case False
      define e where "e = (if ty = TEEC_MEMREF_WHOLE then enc\<lparr>c_len := shm_size b, c_offset := 0\<rparr>
        else enc\<lparr>c_len := word_at st (p + 4), c_offset := word_at st (p + 8)\<rparr>)"
      define e' where "e' = (if allocated b \<noteq> 0 then e\<lparr>c_data := buffer b\<rparr> else e\<lparr>c_data := buffer b + c_offset e, c_offset := 0\<rparr>)"
      have "encode_both env ses ro (if allocated b \<noteq> 0 then Enc_Mem_Ref else Enc_Array) mem_dir (memref_inout ty b io) e' st = Some (st1, enc1, r)"
        using False h' by (auto simp: encode_memref_def b_def f_def e_def e'_def Let_def split: bind_splits)
      then have "op_runs ses dev svc sn xs n enc1 st1 \<and> (r = 0 \<longrightarrow> c_encode_id enc1 \<noteq> - 1)"
        by (rule both) (simp_all add: e'_def e_def)
      then show ?thesis by simp
    qed
  next
    case 3
    then have h': "encode_tmpref env ses ro p ty enc io st = Some (st1, enc1, io1, r)" using h by (auto simp: encode_tee_param_def)
    define e where "e = enc\<lparr>c_len := word_at st (p + 4), c_data := word_at st p\<rparr>"
    show ?thesis
    proof (cases "word_at st p = 0 \<or> word_at st (p + 4) = 0")
      case True
      then show ?thesis using h' o by (auto simp: encode_tmpref_def api_error_def)
    next
      case False
      then have "encode_both env ses ro Enc_Array mem_dir
          (if ty = TEEC_MEMREF_TEMP_INPUT then 0 else if ty = TEEC_MEMREF_TEMP_OUTPUT then 1 else 2) e st = Some (st1, enc1, r)"
        using h' by (auto simp: encode_tmpref_def e_def Let_def split: bind_splits)
      then have "op_runs ses dev svc sn xs n enc1 st1 \<and> (r = 0 \<longrightarrow> c_encode_id enc1 \<noteq> - 1)"
        by (rule both) (simp_all add: e_def)
      then show ?thesis by simp
    qed
  next
    case 4
    then show ?thesis using h o by (auto simp: encode_tee_param_def active_def)
  qed
qed

lemma encode_tee_params_run:
  assumes "op_runs ses dev svc sn xs n enc st" and "encode_tee_params env ses ro op pt is enc io st = Some (st1, enc1, r)"
  shows "op_runs ses dev svc sn xs n enc1 st1 \<and>
    (r = 0 \<longrightarrow> (\<exists>i\<in>set is. active (param_types pt i)) \<or> c_encode_id enc \<noteq> - 1 \<longrightarrow> c_encode_id enc1 \<noteq> - 1)"
  using assms
proof (induction "is" arbitrary: enc io st)
  case (Cons i "is")
  obtain st2 enc2 io2 r2 where a: "encode_tee_param env ses ro (param_at op i) (param_types pt i) enc io st = Some (st2, enc2, io2, r2)"
    using Cons.prems(2) by (auto split: bind_splits)
  note o2 = encode_tee_param_run[OF Cons.prems(1) a]
  show ?case
  proof (cases "r2 = 0")
    case True
    then have "encode_tee_params env ses ro op pt is enc2 io2 st2 = Some (st1, enc1, r)" using Cons.prems(2) a by simp
    then show ?thesis using Cons.IH o2 True by fastforce
  next
    case False
    then show ?thesis using Cons.prems(2) a o2 by simp
  qed
qed simp

definition s32_range :: "int \<Rightarrow> bool" where "s32_range r \<longleftrightarrow> - (2 ^ 31) \<le> r \<and> r < 2 ^ 31"

lemma s32_sint [simp]: "s32_range (sint (w :: u32))"
  using sint_greater_eq[of w] sint_less[of w] by (simp add: s32_range_def)

lemma s32_zero: "s32_range r \<Longrightarrow> (word_of_int r :: u32) = 0 \<longleftrightarrow> r = 0"
proof
  assume r: "s32_range r" and z: "(word_of_int r :: u32) = 0"
  then have "r mod 2 ^ 32 = 0" by (simp add: word_of_int_eq_0_iff dvd_eq_mod_eq_0)
  then obtain k where "r = 2 ^ 32 * k" by auto
  then show "r = 0" using r unfolding s32_range_def by (cases "k \<le> - 1"; cases "k \<ge> 1") auto
qed simp

lemma send_cmd_range: "send_cmd env dev rw enc s = (s', enc', r) \<Longrightarrow> s32_range r"
proof -
  assume h: "send_cmd env dev rw enc s = (s', enc', r)"
  have sc: "s32_range (snd (send_call env dev e t))" for e t
    by (auto simp: send_call_def otz_smc_call_def Let_def ENOMEM_def s32_range_def[of "- 12"] split: prod.splits)
  obtain s1 enc1 found where c: "send_context env dev enc s = (s1, enc1, found)" by (cases "send_context env dev enc s")
  show ?thesis using h c sc[of enc1 s1]
    by (auto simp: send_cmd_def kernel_send_cmd_def EFAULT_def EINVAL_def s32_range_def split: if_splits prod.splits)
qed

lemma send_request_run:
  assumes o: "op_runs ses dev svc sn xs n enc st" and h: "send_request env ses ro enc st = Some (st1, enc1, r)"
  shows "connected ses dev n st1" "s32_range r" "r = 0 \<or> c_encode_id enc \<noteq> - 1 \<Longrightarrow> op_runs ses dev svc sn xs n enc1 st1"
proof -
  have o': "one_context dev svc sn xs enc (drv st)" and c: "connected ses dev n st" using o by (simp_all add: op_runs_def)
  obtain st2 enc2 r2 where a: "session_ioctl env ses IOCTL_SEND_CMD_REQ enc st = Some (st2, enc2, r2)"
    using h by (auto simp: send_request_def split: bind_splits)
  obtain s' cmd' r' where i: "client_ioctl (os env) dev (True, True) (IOCTL_SEND_CMD_REQ enc) (drv st) = Some (s', cmd', r')"
    "drv st2 = s'" "enc2 = cmd_arg cmd' enc" "r2 = 0 \<longleftrightarrow> r' = 0" "connected ses dev n st2" "r2 \<noteq> - 1 \<longrightarrow> r2 = r'"
    using session_ioctl_run[OF c a] by blast
  then have send: "send_cmd (os env) dev (True, True) enc (drv st) = (s', enc2, r')"
    by (auto simp: client_ioctl_def split: prod.splits)
  have r: "r = 0 \<longleftrightarrow> r2 = 0" "enc1 = enc2" "r2 < 0 \<Longrightarrow> st1 = api_failure ses ro st2" "0 < r2 \<Longrightarrow> st1 = set_origin ro TEEC_ORIGIN_TRUSTED_APP st2"
    "r2 = 0 \<Longrightarrow> st1 = st2" "r = r2 \<or> r = sint TEEC_ERROR_ACCESS_DENIED \<or> r = sint TEEC_ERROR_BAD_PARAMETERS"
    using h a by (auto simp: send_request_def send_result_def Let_def tee_codes split: bind_splits if_splits)
  have "s32_range r2" using send_cmd_range[OF send] i(6) by (cases "r2 = - 1") (auto simp: s32_range_def)
  then show "s32_range r" using r(6) by auto
  have conn: "connected ses dev n (set_origin ro v s)" "connected ses dev n (api_failure ses ro s)"
    if "connected ses dev n s" for v s
    using that by (simp_all add: api_failure_def set_origin_def connected_def upd_session_def Let_def)
  show "connected ses dev n st1" using r(3-5) conn[OF i(5)] i(5) by (cases "r2 < 0"; cases "0 < r2") auto
  show "op_runs ses dev svc sn xs n enc1 st1" if "r = 0 \<or> c_encode_id enc \<noteq> - 1"
  proof -
    have "op_runs ses dev svc sn xs n enc2 st2"
      using send_one_context[OF o' send] i(2,4,5) r(1) that by (simp add: op_runs_def)
    then show ?thesis using r(2-5) by (cases "r2 < 0"; cases "0 < r2") auto
  qed
qed

lemma checked_decode_run:
  assumes o: "op_runs ses dev svc sn xs n enc st"
    and h: "checked_ioctl env ses ro IOCTL_DEC_UINT32 enc st = Some (st1, enc1, r) \<or>
      checked_ioctl env ses ro IOCTL_DEC_ARRAY_SPACE enc st = Some (st1, enc1, r)"
  shows "op_runs ses dev svc sn xs n enc1 st1"
proof -
  have o': "one_context dev svc sn xs enc (drv st)" and c: "connected ses dev n st" using o by (simp_all add: op_runs_def)
  have "op_runs ses dev svc sn xs n enc2 st2"
    if a: "session_ioctl env ses req enc st = Some (st2, enc2, r2)" and q: "req = IOCTL_DEC_UINT32 \<or> req = IOCTL_DEC_ARRAY_SPACE"
    for req st2 enc2 r2
  proof -
    obtain s' cmd' r' where i: "client_ioctl (os env) dev (True, True) (req enc) (drv st) = Some (s', cmd', r')"
      "drv st2 = s'" "enc2 = cmd_arg cmd' enc" "connected ses dev n st2"
      using session_ioctl_run[OF c a] by blast
    then have "one_context dev svc sn xs enc2 s'"
      using q decode_one_context[OF o', of "os env" s' _ r'] by (auto simp: client_ioctl_def split: prod.splits)
    then show ?thesis using i by (simp add: op_runs_def)
  qed
  then show ?thesis using h by (auto simp: checked_ioctl_def split: bind_splits if_splits)
qed

lemma decode_value_word_run:
  assumes o: "op_runs ses dev svc sn xs n enc st" and h: "decode_value_word env ses ro a enc st = Some (st1, enc1, r)"
  shows "op_runs ses dev svc sn xs n enc1 st1"
proof -
  obtain st2 r2 where a: "checked_ioctl env ses ro IOCTL_DEC_UINT32 (enc\<lparr>c_len := 4\<rparr>) st = Some (st2, enc1, r2)"
    "st1 = st2 \<or> st1 = set_word a (word_at st2 (c_data enc1)) st2"
    using h by (auto simp: decode_value_word_def split: bind_splits if_splits)
  have "op_runs ses dev svc sn xs n (enc\<lparr>c_len := 4\<rparr>) st" using o op_runs_cong[of "enc\<lparr>c_len := 4\<rparr>" enc] by simp
  then have "op_runs ses dev svc sn xs n enc1 st2" using checked_decode_run a(1) by blast
  then show ?thesis using a(2) by auto
qed

lemma decode_tee_param_run:
  assumes o: "op_runs ses dev svc sn xs n enc st" and h: "decode_tee_param env ses ro p ty enc st = Some (st1, enc1, r)"
  shows "op_runs ses dev svc sn xs n enc1 st1"
proof -
  have v: "op_runs ses dev svc sn xs n enc1 st1" if d: "decode_value env ses ro p enc st = Some (st1, enc1, r)"
  proof -
    obtain st2 enc2 r2 where a: "decode_value_word env ses ro p enc st = Some (st2, enc2, r2)"
      using d by (auto simp: decode_value_def split: bind_splits)
    moreover have "st1 = st2 \<and> enc1 = enc2 \<or> decode_value_word env ses ro (p + 4) enc2 st2 = Some (st1, enc1, r)"
      using d a by (auto simp: decode_value_def split: bind_splits if_splits)
    ultimately show ?thesis using decode_value_word_run[OF o a] decode_value_word_run[OF decode_value_word_run[OF o a], of env ro "p + 4" st1 enc1 r]
      by blast
  qed
  have b: "op_runs ses dev svc sn xs n enc1 st1" if d: "decode_buffer env ses ro p ty enc st = Some (st1, enc1, r)"
  proof (cases "st1 = st \<and> enc1 = enc")
    case False
    then obtain st2 where "checked_ioctl env ses ro IOCTL_DEC_ARRAY_SPACE enc st = Some (st2, enc1, r)"
      "st1 = st2 \<or> st1 = set_word (p + 4) (c_len enc1) st2"
      using d by (auto simp: decode_buffer_def split: bind_splits if_splits)
    then show ?thesis using checked_decode_run[OF o] by fastforce
  qed (use o in simp)
  show ?thesis using h o v b by (auto simp: decode_tee_param_def split: if_splits)
qed

lemma decode_tee_params_run:
  "op_runs ses dev svc sn xs n enc st \<Longrightarrow> decode_tee_params env ses ro op pt is enc st = Some (st1, enc1, r) \<Longrightarrow>
    op_runs ses dev svc sn xs n enc1 st1"
proof (induction "is" arbitrary: enc st)
  case (Cons i "is")
  obtain st2 enc2 r2 where a: "decode_tee_param env ses ro (param_at op i) (param_types pt i) enc st = Some (st2, enc2, r2)"
    using Cons.prems(2) by (auto split: bind_splits)
  then show ?case using Cons decode_tee_param_run[OF Cons.prems(1) a] by (auto split: if_splits)
qed simp

lemma upd_session_connected [simp]:
  "connected ses dev m (upd_session ses (\<lambda>x. x\<lparr>operation_cnt := k\<rparr>) st) \<longleftrightarrow>
     connected ses dev (operation_cnt (tee_sessions st ses)) st \<and> m = k"
  by (auto simp: connected_def upd_session_def Let_def)

lemma run_operation_run:
  assumes o: "op_runs ses dev svc sn xs n enc st" and h: "run_operation env ses ro op enc st = Some (st1, enc1, r)"
  shows "connected ses dev n st1" "s32_range r \<or> op_runs ses dev svc sn xs n enc1 st1"
    and "r = 0 \<or> (\<exists>i<4. active (param_types (word_at st (op + 4)) i)) \<Longrightarrow> op_runs ses dev svc sn xs n enc1 st1"
proof -
  define pt where "pt = word_at st (op + 4)"
  define idx where "idx = (if pt \<noteq> 0 then [0..<4] else [])"
  have idx: "(\<exists>i\<in>set idx. active (param_types pt i)) \<longleftrightarrow> (\<exists>i<4. active (param_types pt i))"
    by (auto simp: idx_def active_def param_types_def is_value_def is_partial_def is_temp_def tee_types)
  obtain st2 enc2 r2 where e: "encode_tee_params env ses ro op pt idx enc 0 st = Some (st2, enc2, r2)"
    using h by (auto simp: run_operation_def pt_def idx_def Let_def split: bind_splits if_splits)
  note e' = encode_tee_params_run[OF o e]
  have "connected ses dev n st1 \<and> (s32_range r \<or> op_runs ses dev svc sn xs n enc1 st1) \<and>
    (r = 0 \<or> (\<exists>i<4. active (param_types pt i)) \<longrightarrow> op_runs ses dev svc sn xs n enc1 st1)"
  proof (cases "r2 = 0")
    case False
    then show ?thesis using h e e' by (simp add: run_operation_def pt_def[symmetric] idx_def[symmetric] op_runs_def)
  next
    case True
    then obtain st3 enc3 r3 where s: "send_request env ses ro enc2 st2 = Some (st3, enc3, r3)"
      using h e by (auto simp: run_operation_def pt_def[symmetric] idx_def[symmetric] Let_def split: bind_splits)
    note s' = send_request_run[OF conjunct1[OF e'] s]
    show ?thesis
    proof (cases "r3 = 0")
      case False
      then have "st1 = st3" "enc1 = enc3" "r = r3"
        using h e s True by (auto simp: run_operation_def pt_def[symmetric] idx_def[symmetric] Let_def)
      then show ?thesis using s' False e' True idx by auto
    next
      case r3: True
      then have o3: "op_runs ses dev svc sn xs n enc3 st3" using s' by simp
      show ?thesis
      proof (cases "word_at st3 (op + 4) = 0")
        case z: True
        then show ?thesis using h e s True r3 o3 by (auto simp: run_operation_def pt_def[symmetric] idx_def[symmetric] Let_def op_runs_def)
      next
        case False
        then have "decode_tee_params env ses ro op pt [0..<4] enc3 st3 = Some (st1, enc1, r)"
          using h e s True r3 by (auto simp: run_operation_def pt_def[symmetric] idx_def[symmetric] Let_def split: if_splits)
        then have "op_runs ses dev svc sn xs n enc1 st1" by (rule decode_tee_params_run[OF o3])
        then show ?thesis by (simp add: op_runs_def)
      qed
    qed
  qed
  then show "connected ses dev n st1" "s32_range r \<or> op_runs ses dev svc sn xs n enc1 st1"
    "r = 0 \<or> (\<exists>i<4. active (param_types (word_at st (op + 4)) i)) \<Longrightarrow> op_runs ses dev svc sn xs n enc1 st1"
    by (simp_all add: pt_def)
qed

text \<open>C18. An invocation that returns leaves nothing behind: whatever parameters it has, and whatever fails in the
  client, the driver or the secure world, the session of the driver has the encode contexts it had before and the
  session of the library as many operations, unless a command without parameters fails.  The allocator must not
  return the address of a context of the session.\<close>

theorem invoke_releases_context:
  assumes "TEEC_InvokeCommand env ses cid op ro st = Some (st', ret)" and "connected ses dev n st"
    and "ctx_ids dev (ts_service (tee_sessions st ses)) (ts_session (tee_sessions st ses)) (drv st) = Some xs"
    and "set (kmallocs (drv st)) \<inter> insert (- 1) (set xs) = {}"
    and "ret = 0 \<or> (\<exists>i<4. active (param_types (word_at st (op + 4)) i))"
  shows "ctx_ids dev (ts_service (tee_sessions st ses)) (ts_session (tee_sessions st ses)) (drv st') = Some xs \<and> connected ses dev n st'"
proof (cases "ses = 0 \<or> op \<noteq> 0 \<and> word_at st op = 0")
  case True
  then have "st' = st" using assms(1) by (auto simp: TEEC_InvokeCommand_def split: if_splits)
  then show ?thesis using assms by simp
next
  case False
  define x where "x = tee_sessions st ses"
  define st0 where "st0 = upd_session ses (\<lambda>x. x\<lparr>operation_cnt := operation_cnt x + 1\<rparr>) st"
  have op: "op \<noteq> 0" using assms(1) False by (auto simp: TEEC_InvokeCommand_def split: if_splits)
  obtain st1 enc1 r st2 enc2 r2 where
    run: "run_operation env ses ro op (start_command env x cid) st0 = Some (st1, enc1, r)" and
    rel: "session_ioctl env ses IOCTL_OPERATION_RELEASE enc1 st1 = Some (st2, enc2, r2)" and
    st': "st' = upd_session ses (\<lambda>x. x\<lparr>operation_cnt := operation_cnt x - 1\<rparr>) st2" "ret = word_of_int r"
    using assms(1) False op by (auto simp: TEEC_InvokeCommand_def x_def st0_def Let_def split: bind_splits if_splits)
  have n: "n = operation_cnt x" using assms(2) by (simp add: connected_def x_def Let_def)
  have o: "op_runs ses dev (ts_service x) (ts_session x) xs (n + 1) (start_command env x cid) st0"
    using assms(2-4) n by (simp add: op_runs_def one_context_def start_command_def st0_def connected_def upd_session_def x_def Let_def)
  have w: "word_at st0 (op + 4) = word_at st (op + 4)" by (simp add: word_at_def st0_def upd_session_def)
  note q = run_operation_run[OF o run]
  have "op_runs ses dev (ts_service x) (ts_session x) xs (n + 1) enc1 st1"
    using q(2,3) assms(5) s32_zero[of r] st'(2) w by auto
  then have o1: "one_context dev (ts_service x) (ts_session x) xs enc1 (drv st1)" by (simp add: op_runs_def)
  obtain s' cmd' r' where i: "client_ioctl (os env) dev (True, True) (IOCTL_OPERATION_RELEASE enc1) (drv st1) = Some (s', cmd', r')"
    "drv st2 = s'" "connected ses dev (n + 1) st2"
    using session_ioctl_run[OF q(1) rel] by blast
  then have "ctx_ids dev (ts_service x) (ts_session x) (drv st2) = Some xs"
    using release_one_context[OF o1] by (auto simp: client_ioctl_def split: prod.splits)
  moreover have "connected ses dev n st'" using i(3) by (auto simp: st'(1) connected_def upd_session_def Let_def)
  ultimately show ?thesis by (simp add: st'(1) upd_session_def x_def)
qed

text \<open>But a command without parameters whose service answers with an error leaves its context in the session: the
  driver returns before it tells the library which context it made.\<close>

theorem failed_command_leaks_context:
  assumes "connected ses dev n st" and "ses \<noteq> 0" "op \<noteq> 0" and "word_at st op \<noteq> 0" "word_at st (op + 4) = 0"
    and "find_svc dev (ts_service (tee_sessions st ses)) (drv st) = Some v" and "sessions v = x # xs"
    and "session_id x = ts_session (tee_sessions st ses)"
    and "kmallocs (drv st) = a # m # c # as" and "0 \<notin> {a, m, c}" and "a \<noteq> - 1"
    and "secure (os env) = (\<lambda>n cmd v m. (v, m, r, l))" and "0 < sint r" "sint r < 8"
  shows "\<exists>st'. TEEC_InvokeCommand env ses cid op 0 st = Some (st', r) \<and>
    ctx_ids dev (ts_service (tee_sessions st ses)) (ts_session (tee_sessions st ses)) (drv st') =
      Some (map encode_id (encode_list x) @ [a])"
proof -
  define svc where "svc = ts_service (tee_sessions st ses)"
  define sn where "sn = ts_session (tee_sessions st ses)"
  define st0 where "st0 = upd_session ses (\<lambda>x. x\<lparr>operation_cnt := operation_cnt x + 1\<rparr>) st"
  define enc where "enc = start_command env (tee_sessions st ses) cid"
  have keys: "c_service enc = svc" "c_session enc = sn" "c_encode_id enc = - 1" by (simp_all add: enc_def start_command_def svc_def sn_def)
  have drv0: "drv st0 = drv st" by (simp add: st0_def upd_session_def)
  have ses: "find_ses dev svc sn (drv st) = Some x" using assms(6-8) by (simp add: find_ses_def svc_def sn_def)
  define g where "g = (\<lambda>x :: otzc_session. x\<lparr>encode_list := encode_list x @ [new_context (os env) a m]\<rparr>)"
  define s1 where "s1 = upd_ses dev svc sn g ((drv st)\<lparr>kmallocs := c # as\<rparr>)"
  have prep: "prepare_encode (os env) dev enc (drv st) = (s1, enc\<lparr>c_encode_id := a\<rparr>, 0)"
    using ses keys assms(9,10) by (simp add: prepare_encode_def kmalloc_def s1_def g_def)
  have "\<And>v. session_id (g v) = session_id v" by (simp add: g_def)
  moreover have "find_ses dev svc sn ((drv st)\<lparr>kmallocs := c # as\<rparr>) = Some x"
    using ses find_cong_lists(3)[of "(drv st)\<lparr>kmallocs := c # as\<rparr>" "drv st"] by simp
  ultimately have ids1: "ctx_ids dev svc sn s1 = Some (map encode_id (encode_list x) @ [a])"
    by (simp add: s1_def ctx_ids_def find_ses_upd g_def new_context_def)
  obtain s2 where call: "send_call (os env) dev (enc\<lparr>c_encode_id := a\<rparr>) s1 = (s2, sint r)"
    using assms(9,10,12) by (simp add: send_call_def otz_smc_call_def kmalloc_def s1_def Let_def)
  have ids2: "ctx_ids dev svc sn s2 = Some (map encode_id (encode_list x) @ [a])"
    using keeps_send_call[OF call] ids1 by (simp add: keeps_ids_def)
  have "first_session dev enc (drv st) = Some x" using assms(6-8) keys by (simp add: first_session_def svc_def sn_def)
  then have "send_cmd (os env) dev (True, True) enc (drv st) = (s2, enc, sint r)"
    using prep call keys assms(13) by (simp add: send_cmd_def kernel_send_cmd_def send_context_def)
  then have cmd: "client_ioctl (os env) dev (True, True) (IOCTL_SEND_CMD_REQ enc) (drv st0) = Some (s2, IOCTL_SEND_CMD_REQ enc, sint r)"
    by (simp add: client_ioctl_def drv0)
  have conn: "device (tee_sessions st0 ses) \<noteq> 0" "files st0 (fd (contexts st0 (device (tee_sessions st0 ses)))) = Some (Some dev)"
    using assms(1) by (simp_all add: connected_def st0_def upd_session_def Let_def)
  have "TEEC_GetError (sint r) TEEC_ORIGIN_TRUSTED_APP \<noteq> None"
    using assms(13,14) by (simp add: TEEC_GetError_def TEEC_service_errorlist_def)
  then have "send_request env ses 0 enc st0 = Some (st0\<lparr>drv := s2\<rparr>, enc, sint r)"
    using cmd conn assms(13) by (auto simp: send_request_def session_ioctl_def sys_ioctl_def linux_result_def Let_def set_origin_def)
  moreover have "word_at st0 (op + 4) = 0" using assms(5) drv0 by (simp add: word_at_def)
  ultimately have run: "run_operation env ses 0 op enc st0 = Some (st0\<lparr>drv := s2\<rparr>, enc, sint r)"
    using assms(13) by (simp add: run_operation_def)
  obtain y where "find_ses dev svc sn s2 = Some y" using ids2 by (auto simp: ctx_ids_def)
  then have "client_ioctl (os env) dev (True, True) (IOCTL_OPERATION_RELEASE enc) s2 = Some (s2, IOCTL_OPERATION_RELEASE enc, 0)"
    using keys by (simp add: client_ioctl_def operation_release_def kernel_operation_release_def)
  then have "session_ioctl env ses IOCTL_OPERATION_RELEASE enc (st0\<lparr>drv := s2\<rparr>) = Some (st0\<lparr>drv := s2\<rparr>, enc, 0)"
    using conn by (simp add: session_ioctl_def sys_ioctl_def linux_result_def Let_def)
  then have "TEEC_InvokeCommand env ses cid op 0 st =
      Some (upd_session ses (\<lambda>x. x\<lparr>operation_cnt := operation_cnt x - 1\<rparr>) (st0\<lparr>drv := s2\<rparr>), r)"
    using run assms(2-4) by (simp add: TEEC_InvokeCommand_def st0_def enc_def)
  then show ?thesis using ids2 by (simp add: upd_session_def svc_def sn_def)
qed

text \<open>Opening a session reports what the service answered, but no error of the driver: all of them become the
  same error of the library.  Only success changes the library's session and the number of sessions of its context.\<close>

theorem open_session_reports:
  assumes "ctx \<noteq> 0" "ses \<noteq> 0" and "files st (fd (contexts st ctx)) = Some (Some dev)"
    and "session_open (os env) dev (True, True) \<lparr>so_service = svc, so_session = garbage_session env\<rparr> (drv st) = (s', so', r)"
    and "- 4096 < r"
  shows "TEEC_OpenSession env ctx ses (Some svc) 0 False 0 st =
     (if r = 0 then Some
        (upd_session ses (\<lambda>x. x\<lparr>operation_cnt := 0, ts_session := so_session so', ts_service := svc, device := ctx\<rparr>)
           (upd_context ctx (\<lambda>c. c\<lparr>session_count := session_count c + 1\<rparr>) (st\<lparr>drv := s'\<rparr>)), TEEC_SUCCESS)
      else if r < 0 then Some
        (upd_context ctx (\<lambda>c. c\<lparr>ctx_errno := - r\<rparr>) (st\<lparr>drv := s', errno := - r\<rparr>), TEEC_ERROR_GENERIC)
      else if r < 8 then Some (st\<lparr>drv := s'\<rparr>, word_of_int r)
      else None)"
proof -
  have io: "sys_ioctl env (fd (contexts st ctx)) (IOCTL_SES_OPEN_REQ \<lparr>so_service = svc, so_session = garbage_session env\<rparr>) st =
     (case linux_result r (st\<lparr>drv := s'\<rparr>) of (st', r') \<Rightarrow> Some (st', IOCTL_SES_OPEN_REQ so', r'))"
    using assms(3,4) by (simp add: sys_ioctl_def client_ioctl_def split: prod.splits)
  note d = TEEC_OpenSession_def login_error_def io linux_result_def set_origin_def open_error_def ENOMEM_def EFAULT_def EINVAL_def
  consider "r = 0" | "r < 0" | "0 < r" "r < 8" | "8 \<le> r" by linarith
  then show ?thesis
    by cases (use assms(1,2,5) in \<open>auto simp: d Let_def TEEC_GetError_def TEEC_service_errorlist_def\<close>)
qed

section \<open>From the library to the secure application\<close>

text \<open>Encoding for a context that may still have to be made: the addresses \<open>a\<close>, \<open>m\<close> and \<open>b\<close> are the next of the
  allocator, before \<open>ks\<close>.\<close>

definition ready ::
    "bytes \<Rightarrow> u32 \<Rightarrow> u32 \<Rightarrow> u32 \<Rightarrow> u32 list \<Rightarrow> otz_client_encode_cmd \<Rightarrow> param list \<Rightarrow> driver \<Rightarrow> bool" where
  "ready m0 dev a b ks enc ps s \<longleftrightarrow>
     (c_encode_id enc = a \<and> encoded m0 dev a b ks enc ps s) \<or>
     (c_encode_id enc = - 1 \<and> ps = [] \<and> vmem s = m0 \<and> a \<noteq> - 1 \<and> find_enc dev (c_service enc) (c_session enc) a s = None \<and>
        (\<exists>x m. find_ses dev (c_service enc) (c_session enc) s = Some x \<and> kmallocs s = a # m # b # ks \<and> 0 \<notin> {a, m, b}))"

text \<open>Making the context first or with the first parameter is the same.\<close>

lemma ready_starts:
  assumes "ready m0 dev a b ks enc [] s" and "c_encode_id enc = - 1"
  shows "\<exists>s0. encoded m0 dev a b ks enc [] s0 \<and>
    (\<forall>e. c_service e = c_service enc \<and> c_session e = c_session enc \<and> c_encode_id e = - 1 \<longrightarrow>
       prepare_encode env dev e s = (s0, e\<lparr>c_encode_id := a\<rparr>, 0) \<and>
       prepare_encode env dev (e\<lparr>c_encode_id := a\<rparr>) s0 = (s0, e\<lparr>c_encode_id := a\<rparr>, 0))"
proof -
  have "a \<noteq> - 1" using assms by (auto simp: ready_def encoded_def)
  then obtain x m where h: "vmem s = m0" "find_enc dev (c_service enc) (c_session enc) a s = None"
    "find_ses dev (c_service enc) (c_session enc) s = Some x" "kmallocs s = a # m # b # ks" "0 \<notin> {a, m, b}"
    using assms by (auto simp: ready_def)
  define s0 where "s0 = upd_ses dev (c_service enc) (c_session enc) (\<lambda>x. x\<lparr>encode_list := encode_list x @ [new_context env a m]\<rparr>) (s\<lparr>kmallocs := b # ks\<rparr>)"
  have ses0: "find_ses dev (c_service enc) (c_session enc) (s\<lparr>kmallocs := b # ks\<rparr>) = Some x"
    using h(3) find_cong_lists(3)[of "s\<lparr>kmallocs := b # ks\<rparr>" s] by simp
  have "List.find (\<lambda>c. encode_id c = a) (encode_list x) = None" using h(2,3) by (simp add: find_enc_def)
  then have enc0: "find_enc dev (c_service enc) (c_session enc) a s0 = Some (new_context env a m)"
    using ses0 by (simp add: s0_def find_enc_def find_ses_upd encs.find_append[simplified] new_context_def)
  have "encoded m0 dev a b ks enc [] s0"
    using enc0 h \<open>a \<noteq> - 1\<close> by (simp add: encoded_def new_context_def total_len_def stored_def s0_def)
  moreover have "prepare_encode env dev e s = (s0, e\<lparr>c_encode_id := a\<rparr>, 0)"
    if "c_service e = c_service enc" "c_session e = c_session enc" "c_encode_id e = - 1" for e
    using that h by (simp add: prepare_encode_def kmalloc_def s0_def)
  moreover have "prepare_encode env dev (e\<lparr>c_encode_id := a\<rparr>) s0 = (s0, e\<lparr>c_encode_id := a\<rparr>, 0)"
    if "c_service e = c_service enc" "c_session e = c_session enc" for e
    using that enc0 \<open>a \<noteq> - 1\<close> find_ses_of_enc[OF enc0] by (auto simp: prepare_encode_def)
  ultimately show ?thesis by blast
qed

lemma encoded_cong: "c_service e = c_service enc \<Longrightarrow> c_session e = c_session enc \<Longrightarrow>
    encoded m0 dev a b ks e ps s = encoded m0 dev a b ks enc ps s"
  by (simp add: encoded_def)

lemma ready_step:
  assumes r: "ready m0 dev a b ks enc ps s" and p: "param_ok env p" "outside b p"
    and t: "total_len ps + unat (param_len p) \<le> 1024" "length ps < 12"
    and e: "c_service e = c_service enc" "c_session e = c_session enc" "c_encode_id e = c_encode_id enc"
      "c_param e = OTZC_PARAM_IN" "c_data e = param_addr p" "c_len e = param_len p"
  shows "\<exists>s'. encode_param env dev p e s = Some (s', e\<lparr>c_encode_id := a\<rparr>, 0) \<and>
    encoded m0 dev a b ks (e\<lparr>c_encode_id := a\<rparr>) (ps @ [p]) s'"
proof -
  let ?e = "e\<lparr>c_encode_id := a\<rparr>"
  have same: "?e\<lparr>c_param := OTZC_PARAM_IN, c_data := param_addr p, c_len := param_len p\<rparr> = ?e" using e by simp
  have step: "\<exists>s'. encode_param env dev p ?e s0 = Some (s', ?e, 0) \<and> encoded m0 dev a b ks ?e (ps @ [p]) s'"
    if "encoded m0 dev a b ks ?e ps s0" for s0
    using encode_param_step[OF that _ p t] unfolding same by simp
  show ?thesis
  proof (cases "c_encode_id enc = a \<and> encoded m0 dev a b ks enc ps s")
    case True
    then have "?e = e" using e by simp
    moreover have "encoded m0 dev a b ks ?e ps s" using True encoded_cong[of ?e enc] e by simp
    ultimately show ?thesis using step[of s] by simp
  next
    case False
    then have ps: "ps = []" "c_encode_id enc = - 1" using r by (auto simp: ready_def)
    then obtain s0 where s0: "encoded m0 dev a b ks enc [] s0"
      "prepare_encode env dev e s = (s0, ?e, 0)" "prepare_encode env dev ?e s0 = (s0, ?e, 0)"
      using ready_starts[of m0 dev a b ks enc s env] r e by auto
    have "e\<lparr>c_param := OTZC_PARAM_IN, c_data := param_addr p, c_len := param_len p\<rparr> = e" using e by simp
    then have "encode_param env dev p e s = encode_param env dev p ?e s0"
      using s0(2,3) same by (simp add: encode_param_def Let_def encode_array_def encode_uint32_def)
    moreover have "encoded m0 dev a b ks ?e ps s0" using s0(1) ps encoded_cong[of ?e enc] e by simp
    ultimately show ?thesis using step[of s0] by simp
  qed
qed

text \<open>What the library passes: the words of a value and the bytes of a temporary buffer.\<close>

definition tee_inputs :: "bytes \<Rightarrow> u32 \<Rightarrow> u32 \<Rightarrow> param list" where
  "tee_inputs m p ty =
     (if ty = TEEC_VALUE_INPUT
      then (False, p, 4) # (if load32 m (p + 4) = TEEC_VALUE_UNDEF then [] else [(False, p + 4, 4)])
      else if ty = TEEC_MEMREF_TEMP_INPUT then [(True, load32 m p, load32 m (p + 4))]
      else [])"

definition only_inputs :: "u32 \<Rightarrow> bool" where
  "only_inputs ty \<longleftrightarrow> ty = TEEC_VALUE_INPUT \<or> ty = TEEC_MEMREF_TEMP_INPUT \<or> \<not> active ty"

text \<open>Encoding does not call the secure world and keeps the order of the sessions.\<close>

definition ses_ids :: "u32 \<Rightarrow> u32 \<Rightarrow> driver \<Rightarrow> u32 list option" where
  "ses_ids d v s = map_option (\<lambda>v. map session_id (sessions v)) (find_svc d v s)"

definition quiet :: "driver \<Rightarrow> driver \<Rightarrow> bool" where
  "quiet s s' \<longleftrightarrow> smc_log s' = smc_log s \<and> (\<forall>d v. ses_ids d v s' = ses_ids d v s)"

lemma quiet_refl [simp]: "quiet s s"
  by (simp add: quiet_def)

lemma quiet_trans: "quiet s s1 \<Longrightarrow> quiet s1 s2 \<Longrightarrow> quiet s s2"
  by (simp add: quiet_def)

lemma quiet_lists: "dev_files s' = dev_files s \<Longrightarrow> smc_log s' = smc_log s \<Longrightarrow> quiet s s'"
  by (simp add: quiet_def ses_ids_def find_cong_lists(2)[of s' s])

lemma quiet_upd_ses:
  assumes "\<And>x. session_id (f x) = session_id x"
  shows "quiet s (upd_ses dev svc ses f s)"
proof -
  have "smc_log (upd_ses dev svc ses f s) = smc_log s" by (simp add: upd_ses_def upd_svc_def upd_dev_def)
  moreover have "ses_ids d v (upd_ses dev svc ses f s) = ses_ids d v s" for d v
    by (cases "find_svc d v s") (auto simp: ses_ids_def upd_ses_def find_svc_upd map_upd_first[of session_id f, OF assms])
  ultimately show ?thesis by (simp add: quiet_def)
qed

lemma quiet_upd_ctx: "quiet s (upd_ctx dev enc f s)"
  unfolding upd_ctx_def upd_enc_def by (rule quiet_upd_ses) simp

lemma quiet_kmalloc: "kmalloc s = (a, s') \<Longrightarrow> quiet s s'"
  by (rule quiet_lists) (auto simp: kmalloc_def split: list.splits)

lemma quiet_kfree: "quiet s (kfree a s)" "quiet s (free_nonnull a s)"
  by (auto intro!: quiet_lists simp: kfree_def free_nonnull_def)

lemma quiet_prepare: "prepare_encode env dev e s = (s', e', r) \<Longrightarrow> quiet s s'"
proof -
  assume h: "prepare_encode env dev e s = (s', e', r)"
  obtain a s1 where k: "kmalloc s = (a, s1)" by (cases "kmalloc s")
  obtain m s2 where k2: "kmalloc s1 = (m, s2)" by (cases "kmalloc s1")
  note q = quiet_kmalloc[OF k] quiet_trans[OF quiet_kmalloc[OF k] quiet_kmalloc[OF k2]]
  show ?thesis
    using h k k2 q quiet_trans[OF q(2) quiet_kfree(1)[of s2 a]]
      quiet_trans[OF q(2) quiet_upd_ses[of "\<lambda>x. x\<lparr>encode_list := encode_list x @ [new_context env a m]\<rparr>" s2 dev "c_service e" "c_session e"]]
    by (auto simp: prepare_encode_def split: option.splits if_splits)
qed

lemma quiet_req_buffer: "req_buffer dev e s = (s', ok) \<Longrightarrow> quiet s s'"
proof -
  assume h: "req_buffer dev e s = (s', ok)"
  obtain a s1 where k: "kmalloc s = (a, s1)" by (cases "kmalloc s")
  show ?thesis
    using h k quiet_trans[OF quiet_kmalloc[OF k] quiet_upd_ctx[of s1 dev e "\<lambda>c. c\<lparr>ker_req_data_addr := a\<rparr>"]]
    by (auto simp: req_buffer_def split: if_splits)
qed

text \<open>After a change of the memory, a context may be changed.\<close>

lemma quiet_push: "quiet s (s\<lparr>vmem := v\<rparr>)" "quiet s (upd_ctx dev enc f (s\<lparr>vmem := v\<rparr>))"
proof -
  show q: "quiet s (s\<lparr>vmem := v\<rparr>)" by (rule quiet_lists) simp_all
  show "quiet s (upd_ctx dev enc f (s\<lparr>vmem := v\<rparr>))" by (rule quiet_trans[OF q quiet_upd_ctx])
qed

lemma quiet_param_in:
  "uint32_in env dev e s = Some (s', r) \<Longrightarrow> quiet s s'"
  "array_in env dev e s = (s', r) \<Longrightarrow> quiet s s'"
proof -
  obtain s1 ok where b: "req_buffer dev e s = (s1, ok)" by (cases "req_buffer dev e s")
  note q = quiet_req_buffer[OF b]
  show "uint32_in env dev e s = Some (s', r) \<Longrightarrow> quiet s s'"
    using b q quiet_trans[OF q quiet_push(2)] by (auto simp: uint32_in_def Let_def split: if_splits)
  show "array_in env dev e s = (s', r) \<Longrightarrow> quiet s s'"
    using b q quiet_trans[OF q quiet_push(1)] quiet_trans[OF q quiet_push(2)]
    by (auto simp: array_in_def copy_from_user_def Let_def split: if_splits)
qed

lemma quiet_encode_param: "encode_param env dev q e s = Some (s', e', r) \<Longrightarrow> quiet s s'"
proof -
  assume h: "encode_param env dev q e s = Some (s', e', r)"
  let ?e = "e\<lparr>c_param := OTZC_PARAM_IN, c_data := param_addr q, c_len := param_len q\<rparr>"
  obtain s1 e1 r1 where p: "prepare_encode env dev ?e s = (s1, e1, r1)" by (cases "prepare_encode env dev ?e s")
  note q = quiet_prepare[OF p]
  show ?thesis
    using h p q by (auto simp: encode_param_def encode_array_def encode_uint32_def Let_def
        split: if_splits prod.splits intro: quiet_trans[OF q] dest!: quiet_param_in)
qed

lemma quiet_release: "operation_release dev rw e s = (s', r) \<Longrightarrow> smc_log s' = smc_log s"
  by (auto simp: operation_release_def kernel_operation_release_def upd_ses_def upd_svc_def upd_dev_def kfree_def free_nonnull_def
      split: if_splits option.splits)

text \<open>The library during encoding: the memory outside of the buffer is still \<open>m0\<close>.\<close>

definition passing ::
    "bytes \<Rightarrow> u32 \<Rightarrow> u32 \<Rightarrow> u32 \<Rightarrow> u32 \<Rightarrow> u32 list \<Rightarrow> otz_client_encode_cmd \<Rightarrow> param list \<Rightarrow> tee \<Rightarrow> tee \<Rightarrow> bool" where
  "passing m0 ses dev a b ks enc ps st st' \<longleftrightarrow> ready m0 dev a b ks enc ps (drv st') \<and> (\<exists>s. st' = st\<lparr>drv := s\<rparr> \<and> quiet (drv st) s)"

lemma request_passes:
  assumes p: "passing m0 ses dev a b ks enc ps st st'" and c: "connected ses dev n st"
    and ok: "param_ok (os env) q" "outside b q" "total_len ps + unat (param_len q) \<le> 1024" "length ps < 12"
    and e: "c_service e = c_service enc" "c_session e = c_session enc" "c_encode_id e = c_encode_id enc" "c_cmd e = c_cmd enc"
      "c_data e = param_addr q" "c_len e = param_len q"
    and k: "k = (if fst q then Enc_Array else Enc_Uint32)" and d: "dir = value_dir \<or> dir = mem_dir"
  shows "\<exists>s enc1. encode_both env ses ro k dir 0 e st' = Some (st\<lparr>drv := s\<rparr>, enc1, 0) \<and>
    passing m0 ses dev a b ks enc1 (ps @ [q]) st (st\<lparr>drv := s\<rparr>) \<and> c_service enc1 = c_service enc \<and>
    c_session enc1 = c_session enc \<and> c_cmd enc1 = c_cmd enc"
proof -
  define e1 where "e1 = dir False e"
  have e1: "c_service e1 = c_service enc" "c_session e1 = c_session enc" "c_encode_id e1 = c_encode_id enc"
    "c_cmd e1 = c_cmd enc" "c_param e1 = OTZC_PARAM_IN" "c_data e1 = param_addr q" "c_len e1 = param_len q"
    using d e by (auto simp: e1_def value_dir_def mem_dir_def)
  obtain s where st': "st' = st\<lparr>drv := s\<rparr>" "quiet (drv st) s" and r: "ready m0 dev a b ks enc ps s"
    using p by (auto simp: passing_def)
  obtain s' where s': "encode_param (os env) dev q e1 s = Some (s', e1\<lparr>c_encode_id := a\<rparr>, 0)"
    "encoded m0 dev a b ks (e1\<lparr>c_encode_id := a\<rparr>) (ps @ [q]) s'"
    using ready_step[OF r ok e1(1-3,5-7)] by blast
  have "e1\<lparr>c_param := OTZC_PARAM_IN, c_data := param_addr q, c_len := param_len q\<rparr> = e1" using e1(5-7) by simp
  then have "client_ioctl (os env) dev (True, True) (enc_request k e1) s = Some (s', enc_request k (e1\<lparr>c_encode_id := a\<rparr>), 0)"
    using s'(1) k by (auto simp: client_ioctl_def encode_param_def enc_request_def Let_def split: if_splits)
  moreover have "files st' (fd (contexts st' (device (tee_sessions st' ses)))) = Some (Some dev)" "device (tee_sessions st' ses) \<noteq> 0"
    using c by (simp_all add: st' connected_def Let_def)
  moreover have "cmd_arg (enc_request k x) y = x" for x y by (cases k) (simp_all add: enc_request_def)
  ultimately have "encode_both env ses ro k dir 0 e st' = Some (st\<lparr>drv := s'\<rparr>, e1\<lparr>c_encode_id := a\<rparr>, 0)"
    by (simp add: encode_both_def checked_ioctl_def session_ioctl_def sys_ioctl_def linux_result_def e1_def[symmetric] st' Let_def)
  moreover have "passing m0 ses dev a b ks (e1\<lparr>c_encode_id := a\<rparr>) (ps @ [q]) st (st\<lparr>drv := s'\<rparr>)"
    using s' quiet_trans[OF st'(2) quiet_encode_param[OF s'(1)]] by (auto simp: passing_def ready_def)
  ultimately show ?thesis using e1 by (intro exI[of _ s'] exI[of _ "e1\<lparr>c_encode_id := a\<rparr>"]) simp
qed

lemma passing_word:
  assumes "passing m0 ses dev a b ks enc ps st st'" and "\<And>k. k < 4 \<Longrightarrow> OTZ_1K_SIZE \<le> x + of_nat k - b"
  shows "word_at st' x = load32 m0 x"
proof -
  have "\<forall>y. OTZ_1K_SIZE \<le> y - b \<longrightarrow> vmem (drv st') y = m0 y"
    using assms(1) by (auto simp: passing_def ready_def encoded_def stored_def)
  then show ?thesis using assms(2) by (auto simp: word_at_def intro: load32_cong)
qed

definition inputs_ok :: "drv_env \<Rightarrow> u32 \<Rightarrow> bytes \<Rightarrow> u32 \<Rightarrow> u32 \<Rightarrow> bool" where
  "inputs_ok env b m p ty \<longleftrightarrow>
     only_inputs ty \<and> outside b (True, p, 8) \<and>
     (ty = TEEC_MEMREF_TEMP_INPUT \<longrightarrow> load32 m p \<noteq> 0 \<and> load32 m (p + 4) \<noteq> 0) \<and>
     (\<forall>q\<in>set (tee_inputs m p ty). param_ok env q \<and> outside b q)"

lemma outside_words:
  assumes "outside b (True, p, 8)" and "k < 4"
  shows "OTZ_1K_SIZE \<le> p + of_nat k - b" "OTZ_1K_SIZE \<le> p + 4 + of_nat k - b"
proof -
  have o: "\<forall>k<8. OTZ_1K_SIZE \<le> p + of_nat k - b" using assms(1) by (simp add: outside_def param_len_def param_addr_def)
  then show "OTZ_1K_SIZE \<le> p + of_nat k - b" using assms(2) by simp
  have "OTZ_1K_SIZE \<le> p + of_nat (4 + k) - b" using o assms(2) by (metis add_less_cancel_left nat_add_left_cancel_less numeral_Bit0)
  then show "OTZ_1K_SIZE \<le> p + 4 + of_nat k - b" by (simp add: add.assoc)
qed

lemma total_append: "total_len (ps @ qs) = total_len ps + total_len qs"
  by (simp add: total_len_def)

lemma inputs_pass:
  assumes p: "passing m0 ses dev a b ks enc ps st st'" and c: "connected ses dev n st"
    and i: "inputs_ok (os env) b m0 p ty" and t: "total_len (ps @ tee_inputs m0 p ty) \<le> 1024" "length (ps @ tee_inputs m0 p ty) \<le> 12"
  shows "\<exists>s enc1 io1. encode_tee_param env ses ro p ty enc io st' = Some (st\<lparr>drv := s\<rparr>, enc1, io1, 0) \<and>
    passing m0 ses dev a b ks enc1 (ps @ tee_inputs m0 p ty) st (st\<lparr>drv := s\<rparr>) \<and>
    c_service enc1 = c_service enc \<and> c_session enc1 = c_session enc \<and> c_cmd enc1 = c_cmd enc"
proof -
  have w: "word_at s' p = load32 m0 p" "word_at s' (p + 4) = load32 m0 (p + 4)"
    if "passing m0 ses dev a b ks e qs st s'" for e qs s'
    using that i outside_words[of b p] by (auto simp: inputs_ok_def intro!: passing_word)
  consider "ty = TEEC_VALUE_INPUT" | "ty = TEEC_MEMREF_TEMP_INPUT" | "\<not> active ty" using i by (auto simp: inputs_ok_def only_inputs_def)
  then show ?thesis
  proof cases
    case 1
    let ?q = "(False, p, 4) :: param" and ?q2 = "(False, p + 4, 4) :: param"
    have q: "?q \<in> set (tee_inputs m0 p ty)" by (simp add: tee_inputs_def 1)
    have t1: "total_len ps + unat (param_len ?q) \<le> 1024" "length ps < 12"
      using t by (simp_all add: tee_inputs_def 1 total_len_def param_len_def split: if_splits)
    obtain s1 enc1 where s1: "encode_both env ses ro Enc_Uint32 value_dir 0 (enc\<lparr>c_data := p, c_len := 4\<rparr>) st' = Some (st\<lparr>drv := s1\<rparr>, enc1, 0)"
      "passing m0 ses dev a b ks enc1 (ps @ [?q]) st (st\<lparr>drv := s1\<rparr>)" "c_service enc1 = c_service enc" "c_session enc1 = c_session enc" "c_cmd enc1 = c_cmd enc"
      using request_passes[OF p c _ _ t1, of env "enc\<lparr>c_data := p, c_len := 4\<rparr>" Enc_Uint32 value_dir ro] i q
      by (auto simp: inputs_ok_def param_addr_def param_len_def)
    show ?thesis
    proof (cases "load32 m0 (p + 4) = TEEC_VALUE_UNDEF")
      case True
      then have "encode_tee_param env ses ro p ty enc io st' = Some (st\<lparr>drv := s1\<rparr>, enc1, 0, 0)"
        using s1(1) w(2)[OF s1(2)] by (simp add: encode_tee_param_def is_value_def encode_value_def 1)
      then show ?thesis using s1 True by (auto simp: tee_inputs_def 1)
    next
      case False
      have q2: "?q2 \<in> set (tee_inputs m0 p ty)" using False by (simp add: tee_inputs_def 1)
      have t2: "total_len (ps @ [?q]) + unat (param_len ?q2) \<le> 1024" "length (ps @ [?q]) < 12"
        using t False by (simp_all add: tee_inputs_def 1 total_len_def param_len_def)
      obtain s2 enc2 where s2: "encode_both env ses ro Enc_Uint32 value_dir 0 (enc1\<lparr>c_data := p + 4, c_len := 4\<rparr>) (st\<lparr>drv := s1\<rparr>) = Some (st\<lparr>drv := s2\<rparr>, enc2, 0)"
        "passing m0 ses dev a b ks enc2 ((ps @ [?q]) @ [?q2]) st (st\<lparr>drv := s2\<rparr>)" "c_service enc2 = c_service enc1" "c_session enc2 = c_session enc1" "c_cmd enc2 = c_cmd enc1"
        using request_passes[OF s1(2) c _ _ t2, of env "enc1\<lparr>c_data := p + 4, c_len := 4\<rparr>" Enc_Uint32 value_dir ro] i q2
        by (auto simp: inputs_ok_def param_addr_def param_len_def)
      have "encode_tee_param env ses ro p ty enc io st' = Some (st\<lparr>drv := s2\<rparr>, enc2, 0, 0)"
        using s1(1) s2(1) w(2)[OF s1(2)] False by (simp add: encode_tee_param_def is_value_def encode_value_def 1)
      then show ?thesis using s1(3-5) s2 False by (auto simp: tee_inputs_def 1)
    qed
  next
    case 2
    let ?q = "(True, load32 m0 p, load32 m0 (p + 4)) :: param"
    have ins: "tee_inputs m0 p ty = [?q]" by (simp add: tee_inputs_def 2 tee_types)
    have t1: "total_len ps + unat (param_len ?q) \<le> 1024" "length ps < 12"
      using t by (simp_all add: ins total_len_def)
    have e: "encode_tee_param env ses ro p ty enc io st' = encode_tmpref env ses ro p ty enc io st'"
      by (simp add: encode_tee_param_def 2 is_value_def is_partial_def is_temp_def tee_types)
    obtain s1 enc1 where s1: "encode_both env ses ro Enc_Array mem_dir 0 (enc\<lparr>c_len := load32 m0 (p + 4), c_data := load32 m0 p\<rparr>) st' = Some (st\<lparr>drv := s1\<rparr>, enc1, 0)"
      "passing m0 ses dev a b ks enc1 (ps @ [?q]) st (st\<lparr>drv := s1\<rparr>)" "c_service enc1 = c_service enc" "c_session enc1 = c_session enc" "c_cmd enc1 = c_cmd enc"
      using request_passes[OF p c _ _ t1, of env "enc\<lparr>c_len := load32 m0 (p + 4), c_data := load32 m0 p\<rparr>" Enc_Array mem_dir ro] i ins
      by (auto simp: inputs_ok_def param_addr_def param_len_def)
    have "encode_tee_param env ses ro p ty enc io st' = Some (st\<lparr>drv := s1\<rparr>, enc1, 0, 0)"
      unfolding e using s1(1) w[OF p] i by (simp add: encode_tmpref_def inputs_ok_def 2)
    then show ?thesis using s1 ins by auto
  next
    case 3
    have "tee_inputs m0 p ty = []" using 3 by (auto simp: tee_inputs_def active_def is_value_def is_temp_def)
    moreover have "encode_tee_param env ses ro p ty enc io st' = Some (st', enc, io, 0)" using 3 by (auto simp: encode_tee_param_def active_def)
    moreover obtain s where "st' = st\<lparr>drv := s\<rparr>" using p by (auto simp: passing_def)
    ultimately show ?thesis using p by auto
  qed
qed

definition all_inputs :: "bytes \<Rightarrow> u32 \<Rightarrow> u32 \<Rightarrow> nat list \<Rightarrow> param list" where
  "all_inputs m op pt is = concat (map (\<lambda>i. tee_inputs m (param_at op i) (param_types pt i)) is)"

lemma all_inputs_pass:
  assumes "passing m0 ses dev a b ks enc ps st st'" and "connected ses dev n st"
    and "\<forall>i\<in>set is. inputs_ok (os env) b m0 (param_at op i) (param_types pt i)"
    and "total_len (ps @ all_inputs m0 op pt is) \<le> 1024" and "length (ps @ all_inputs m0 op pt is) \<le> 12"
  shows "\<exists>s enc1. encode_tee_params env ses ro op pt is enc io st' = Some (st\<lparr>drv := s\<rparr>, enc1, 0) \<and>
    passing m0 ses dev a b ks enc1 (ps @ all_inputs m0 op pt is) st (st\<lparr>drv := s\<rparr>) \<and>
    c_service enc1 = c_service enc \<and> c_session enc1 = c_session enc \<and> c_cmd enc1 = c_cmd enc"
  using assms
proof (induction "is" arbitrary: enc ps st' io)
  case Nil
  obtain s where "st' = st\<lparr>drv := s\<rparr>" using Nil by (auto simp: passing_def)
  then show ?case using Nil by (auto simp: all_inputs_def)
next
  case (Cons i "is")
  let ?qs = "tee_inputs m0 (param_at op i) (param_types pt i)"
  have all: "ps @ all_inputs m0 op pt (i # is) = (ps @ ?qs) @ all_inputs m0 op pt is" by (simp add: all_inputs_def)
  have t: "total_len (ps @ ?qs) \<le> 1024" "length (ps @ ?qs) \<le> 12" using Cons.prems(4,5) unfolding all by (simp_all add: total_append)
  obtain s1 enc1 io1 where s1: "encode_tee_param env ses ro (param_at op i) (param_types pt i) enc io st' = Some (st\<lparr>drv := s1\<rparr>, enc1, io1, 0)"
    "passing m0 ses dev a b ks enc1 (ps @ ?qs) st (st\<lparr>drv := s1\<rparr>)" "c_service enc1 = c_service enc" "c_session enc1 = c_session enc" "c_cmd enc1 = c_cmd enc"
    using inputs_pass[OF Cons.prems(1,2) _ t, of env ro io] Cons.prems(3) by auto
  obtain s2 enc2 where "encode_tee_params env ses ro op pt is enc1 io1 (st\<lparr>drv := s1\<rparr>) = Some (st\<lparr>drv := s2\<rparr>, enc2, 0)"
    "passing m0 ses dev a b ks enc2 ((ps @ ?qs) @ all_inputs m0 op pt is) st (st\<lparr>drv := s2\<rparr>)" "c_service enc2 = c_service enc1" "c_session enc2 = c_session enc1" "c_cmd enc2 = c_cmd enc1"
    using Cons.IH[OF s1(2) Cons.prems(2), of io1] Cons.prems(3-5) unfolding all by auto
  then show ?case using s1 unfolding all by (intro exI[of _ s2] exI[of _ enc2]) simp
qed

lemma decode_inputs:
  "\<forall>i\<in>set is. only_inputs (param_types pt i) \<Longrightarrow> decode_tee_params env ses ro op pt is enc st = Some (st, enc, 0)"
proof (induction "is")
  case (Cons i "is")
  have "decode_tee_param env ses ro p ty enc st = Some (st, enc, 0)" if "only_inputs ty" for p ty
    using that by (auto simp: only_inputs_def active_def decode_tee_param_def is_value_def is_partial_def is_temp_def tee_types)
  then show ?case using Cons by simp
qed simp

lemma length_inputs: "length (all_inputs m op pt is) \<le> 2 * length is"
proof (induction "is")
  case (Cons i "is")
  have "length (tee_inputs m (param_at op i) (param_types pt i)) \<le> 2" by (simp add: tee_inputs_def)
  then show ?case using Cons by (simp add: all_inputs_def)
qed (simp add: all_inputs_def)

lemma no_types_no_inputs: "all_inputs m op 0 is = []"
  by (simp add: all_inputs_def tee_inputs_def param_types_def tee_types)

lemma inputs_words: "\<forall>p\<in>set (all_inputs m op pt is). \<not> fst p \<longrightarrow> param_len p = 4"
  by (auto simp: all_inputs_def tee_inputs_def param_len_def split: if_splits)

lemma stored_decodes:
  assumes st: "stored m0 m b f ps" and u: "\<forall>p\<in>set ps. \<not> fst p \<longrightarrow> param_len p = 4"
  shows "\<exists>addrs. decode_all (length ps) env m b f 0 0 pst = (pst, Inr (zip addrs (map param_len ps))) \<and> length addrs = length ps \<and>
    (\<forall>i<length ps. \<forall>k<unat (param_len (ps ! i)). m (addrs ! i + of_nat k) = m0 (param_addr (ps ! i) + of_nat k))"
proof -
  define addrs where "addrs = map (\<lambda>i. b + of_nat (offs ps i) :: u32) [0..<length ps]"
  have "map (\<lambda>i. (b + of_nat (offs ps i), param_len (ps ! i))) [0..<length ps] = zip addrs (map param_len ps)"
    by (rule nth_equalityI) (simp_all add: addrs_def)
  then have "decode_all (length ps) env m b f 0 0 pst = (pst, Inr (zip addrs (map param_len ps)))"
    using decode_stored[OF st u, of 0 env pst] offs_def[of ps 0] by simp
  moreover have "\<forall>i<length ps. \<forall>k<unat (param_len (ps ! i)). m (addrs ! i + of_nat k) = m0 (param_addr (ps ! i) + of_nat k)"
    using st by (simp add: stored_def addrs_def add.assoc)
  ultimately show ?thesis by (intro exI[of _ addrs]) (simp add: addrs_def)
qed

text \<open>Releasing the operation does not call the secure world.\<close>

lemma release_request_returns:
  assumes "connected ses dev n st"
  shows "\<exists>st1 e r. session_ioctl env ses IOCTL_OPERATION_RELEASE enc st = Some (st1, e, r) \<and> smc_log (drv st1) = smc_log (drv st)"
proof -
  obtain s r where "operation_release dev (True, True) enc (drv st) = (s, r)" by (cases "operation_release dev (True, True) enc (drv st)")
  then show ?thesis using assms quiet_release
    by (fastforce simp: session_ioctl_def sys_ioctl_def client_ioctl_def connected_def linux_result_def Let_def)
qed

text \<open>A command whose service answers a number from 0 to 7.\<close>

lemma request_served:
  assumes c: "connected ses dev n (st\<lparr>drv := s1\<rparr>)"
    and i: "client_ioctl (os env) dev (True, True) (IOCTL_SEND_CMD_REQ enc) s1 = Some (s2, IOCTL_SEND_CMD_REQ enc, sint r)"
    and r: "0 \<le> sint r" "sint r < 8"
  shows "\<exists>s3. send_request env ses ro enc (st\<lparr>drv := s1\<rparr>) = Some (st\<lparr>drv := s3\<rparr>, enc, sint r) \<and>
    smc_log s3 = smc_log s2 \<and> dev_files s3 = dev_files s2"
proof -
  have "session_ioctl env ses IOCTL_SEND_CMD_REQ enc (st\<lparr>drv := s1\<rparr>) = Some (st\<lparr>drv := s2\<rparr>, enc, sint r)"
    using c i r(1) by (simp add: session_ioctl_def sys_ioctl_def connected_def linux_result_def Let_def)
  moreover have "0 < sint r \<Longrightarrow> TEEC_GetError (sint r) TEEC_ORIGIN_TRUSTED_APP \<noteq> None"
    using r by (simp add: TEEC_GetError_def TEEC_service_errorlist_def)
  ultimately show ?thesis using r(1) by (cases "sint r = 0") (auto simp: send_request_def set_origin_def)
qed

lemma inputs_reach:
  assumes conn: "connected ses dev n st" and nz: "ses \<noteq> 0" "op \<noteq> 0" "word_at st op \<noteq> 0"
    and old: "ses_ids dev (ts_service (tee_sessions st ses)) (drv st) = Some (ts_session (tee_sessions st ses) # ids)"
    and fresh: "find_enc dev (ts_service (tee_sessions st ses)) (ts_session (tee_sessions st ses)) a (drv st) = None"
    and mem: "kmallocs (drv st) = a # m # b # k # ks" "0 \<notin> {a, m, b, k}" "a \<noteq> - 1"
    and ins: "\<forall>i<4. inputs_ok (os env) b (vmem (drv st)) (param_at op i) (param_types (word_at st (op + 4)) i)"
    and ps: "ps = all_inputs (vmem (drv st)) op (word_at st (op + 4)) [0..<4]" "ps \<noteq> []" "total_len ps \<le> 1024"
    and ans: "\<And>i cmd v f. case secure (os env) i cmd v f of (v', f', r, l) \<Rightarrow> 0 \<le> sint r \<and> sint r < 8"
  shows "\<exists>st' cmd v f v' f' r l addrs.
     TEEC_InvokeCommand env ses cid op ro st = Some (st', r) \<and> smc_log (drv st') = smc_log (drv st) @ [cmd] \<and>
     secure (os env) (length (smc_log (drv st))) cmd v f = (v', f', r, l) \<and>
     smc_id cmd = push_bit 10 (ts_service (tee_sessions st ses)) OR cid \<and> smc_context cmd = ts_session (tee_sessions st ses) \<and>
     req_buf_phys cmd = virt_to_phys (os env) b \<and> req_buf_len cmd = of_nat (total_len ps) \<and>
     decode_all (length ps) penv v b f 0 0 pst = (pst, Inr (zip addrs (map param_len ps))) \<and> length addrs = length ps \<and>
     (\<forall>i<length ps. \<forall>k<unat (param_len (ps ! i)). v (addrs ! i + of_nat k) = vmem (drv st) (param_addr (ps ! i) + of_nat k))"
proof -
  define svc where "svc = ts_service (tee_sessions st ses)"
  define sn where "sn = ts_session (tee_sessions st ses)"
  define pt where "pt = word_at st (op + 4)"
  define m0 where "m0 = vmem (drv st)"
  define st0 where "st0 = upd_session ses (\<lambda>x. x\<lparr>operation_cnt := operation_cnt x + 1\<rparr>) st"
  define enc0 where "enc0 = start_command env (tee_sessions st ses) cid"
  have keys: "c_service enc0 = svc" "c_session enc0 = sn" "c_encode_id enc0 = - 1" "c_cmd enc0 = cid"
    by (simp_all add: enc0_def start_command_def svc_def sn_def)
  have drv0: "drv st0 = drv st" by (simp add: st0_def upd_session_def)
  have conn0: "connected ses dev (n + 1) (st0\<lparr>drv := s\<rparr>)" for s
    using conn by (simp add: st0_def upd_session_def connected_def Let_def)
  obtain v0 y ys where v0: "find_svc dev svc (drv st) = Some v0" "sessions v0 = y # ys" "session_id y = sn"
    using old by (auto simp: ses_ids_def svc_def sn_def)
  then have "find_ses dev svc sn (drv st) = Some y" by (simp add: find_ses_def)
  then have start: "passing m0 ses dev a b (k # ks) enc0 [] st0 st0"
    using mem fresh keys drv0 by (auto simp: passing_def ready_def m0_def svc_def sn_def intro!: exI[of _ "drv st0"])
  have ps': "[] @ all_inputs m0 op pt [0..<4] = ps" by (simp add: ps(1) m0_def pt_def)
  have len: "length ps \<le> 12" using length_inputs[of m0 op pt "[0..<4]"] ps' by simp
  have connst0: "connected ses dev (n + 1) st0" using conn0[of "drv st0"] by simp
  obtain s1 enc1 where e: "encode_tee_params env ses ro op pt [0..<4] enc0 0 st0 = Some (st0\<lparr>drv := s1\<rparr>, enc1, 0)"
    "passing m0 ses dev a b (k # ks) enc1 ps st0 (st0\<lparr>drv := s1\<rparr>)" "c_service enc1 = svc" "c_session enc1 = sn" "c_cmd enc1 = cid"
    using all_inputs_pass[OF start connst0, of "[0..<4]" env op pt ro 0] ins ps(3) len keys unfolding ps'
    by (auto simp: m0_def pt_def)
  obtain s where "st0\<lparr>drv := s1\<rparr> = st0\<lparr>drv := s\<rparr>" "quiet (drv st) s" using e(2) drv0 by (auto simp: passing_def)
  moreover from this have "s = s1" by (metis tee.select_convs(1) tee.surjective tee.update_convs(1))
  ultimately have q: "quiet (drv st) s1" by simp
  have enc1: "c_encode_id enc1 = a" "encoded m0 dev a b (k # ks) enc1 ps s1"
    using e(2) ps(2) by (auto simp: passing_def ready_def)
  obtain c where c: "find_enc dev svc sn a s1 = Some c" "b \<noteq> 0" "req_off c = of_nat (total_len ps)" "stored m0 (vmem s1) b (meta c) ps"
    "ker_req_data_addr c = b" "kmallocs s1 = k # ks"
    using enc1(2) ps(2) e(3,4) by (auto simp: encoded_def)
  have "ses_ids dev svc s1 = Some (sn # ids)" using q old by (simp add: quiet_def svc_def sn_def)
  then obtain v1 y1 ys1 where v1: "find_svc dev svc s1 = Some v1" "sessions v1 = y1 # ys1" "session_id y1 = sn"
    by (auto simp: ses_ids_def)
  obtain cmd v' f' r l where sec: "cmd = smc_cmd_of (os env) dev (c_service enc1) (c_cmd enc1) (c_session enc1) (c_encode_id enc1)
       (ker_req_data_addr c) (req_off c) (ker_res_data_addr c) (res_off c) (meta_at c)"
    "secure (os env) (length (smc_log s1)) cmd (vmem s1) (meta c) = (v', f', r, l)" by (metis prod_cases4)
  have r: "0 \<le> sint r" "sint r < 8" using ans[of "length (smc_log s1)" cmd "vmem s1" "meta c"] sec(2) by simp_all
  obtain s2 where s2: "client_ioctl (os env) dev (True, True) (IOCTL_SEND_CMD_REQ enc1) s1 = Some (s2, IOCTL_SEND_CMD_REQ enc1, sint r)"
    "smc_log s2 = smc_log s1 @ [cmd]"
    using send_serves[of dev enc1 s1 v1 y1 ys1 c k ks "os env" v' f' r l] v1 c enc1(1) e(3,4) mem(2,3) sec by auto
  obtain s3 where s3: "send_request env ses ro enc1 (st0\<lparr>drv := s1\<rparr>) = Some (st0\<lparr>drv := s3\<rparr>, enc1, sint r)" "smc_log s3 = smc_log s2"
    using request_served[OF conn0 s2(1) r] by blast
  have pt0: "pt \<noteq> 0" "word_at st0 (op + 4) = pt"
    using ps(1,2) no_types_no_inputs drv0 by (auto simp: pt_def[symmetric] word_at_def[of st0]) (simp add: pt_def word_at_def)
  have "decode_tee_params env ses ro op pt [0..<4] enc1 (st0\<lparr>drv := s3\<rparr>) = Some (st0\<lparr>drv := s3\<rparr>, enc1, 0)"
    by (rule decode_inputs) (use ins in \<open>simp add: inputs_ok_def pt_def\<close>)
  then have run: "run_operation env ses ro op enc0 st0 = Some (st0\<lparr>drv := s3\<rparr>, enc1, sint r)"
    using e(1) s3(1) pt0 by (simp add: run_operation_def)
  obtain st1 e1 r1 where rel: "session_ioctl env ses IOCTL_OPERATION_RELEASE enc1 (st0\<lparr>drv := s3\<rparr>) = Some (st1, e1, r1)"
    "smc_log (drv st1) = smc_log s3"
    using release_request_returns[OF conn0[of s3], where enc = enc1 and env = env] by auto
  define st' where "st' = upd_session ses (\<lambda>x. x\<lparr>operation_cnt := operation_cnt x - 1\<rparr>) st1"
  have "TEEC_InvokeCommand env ses cid op ro st = Some (st', r)"
    using run rel(1) nz by (simp add: TEEC_InvokeCommand_def st0_def enc0_def st'_def)
  moreover have log: "smc_log s1 = smc_log (drv st)" using q by (simp add: quiet_def)
  then have "smc_log (drv st') = smc_log (drv st) @ [cmd]" using rel(2) s3(2) s2(2) by (simp add: st'_def upd_session_def)
  moreover have "secure (os env) (length (smc_log (drv st))) cmd (vmem s1) (meta c) = (v', f', r, l)" using sec(2) log by simp
  moreover obtain addrs where "decode_all (length ps) penv (vmem s1) b (meta c) 0 0 pst = (pst, Inr (zip addrs (map param_len ps)))"
    "length addrs = length ps"
    "\<forall>i<length ps. \<forall>k<unat (param_len (ps ! i)). vmem s1 (addrs ! i + of_nat k) = m0 (param_addr (ps ! i) + of_nat k)"
    using stored_decodes[OF c(4), of penv pst] inputs_words[of m0 op pt "[0..<4]"] ps' by auto
  moreover have "smc_id cmd = push_bit 10 svc OR cid" "smc_context cmd = sn" "req_buf_phys cmd = virt_to_phys (os env) b"
    "req_buf_len cmd = of_nat (total_len ps)"
    using c(2,3,5) e(3-5) by (simp_all add: sec(1) smc_cmd_of_def)
  ultimately show ?thesis unfolding svc_def sn_def m0_def by blast
qed

text \<open>C17. Values and temporary buffers that a client passes to \<^verbatim>\<open>TEEC_InvokeCommand\<close> as inputs arrive: for the oldest
  session of its service, when the types are inputs or none with at least one input, temporary buffers are neither
  null nor empty, the memory passed is readable and outside of the request buffer, the inputs take at most 1024 bytes, the four allocations of the driver succeed and
  the service answers a number from 0 to 7, the library makes one call of the secure world, for its service, command
  and session, in which the secure session decodes exactly the words and bytes passed, in their order, from the
  buffer whose physical address is in the command; and it returns what the service answered.\<close>

theorem tee_inputs_reach_service:
  assumes "connected ses dev n st" and "ses \<noteq> 0" "op \<noteq> 0" "word_at st op \<noteq> 0"
    and "ses_ids dev (ts_service (tee_sessions st ses)) (drv st) = Some (ts_session (tee_sessions st ses) # ids)"
    and "find_enc dev (ts_service (tee_sessions st ses)) (ts_session (tee_sessions st ses)) a (drv st) = None"
    and "kmallocs (drv st) = a # m # b # k # ks" "0 \<notin> {a, m, b, k}" "a \<noteq> - 1"
    and "\<forall>i<4. inputs_ok (os env) b (vmem (drv st)) (param_at op i) (param_types (word_at st (op + 4)) i)"
    and "ps = all_inputs (vmem (drv st)) op (word_at st (op + 4)) [0..<4]" "ps \<noteq> []" "total_len ps \<le> 1024"
    and "\<And>i cmd v f. case secure (os env) i cmd v f of (v', f', r, l) \<Rightarrow> 0 \<le> sint r \<and> sint r < 8"
  shows "\<exists>st' cmd v f v' f' r l addrs.
     TEEC_InvokeCommand env ses cid op ro st = Some (st', r) \<and> smc_log (drv st') = smc_log (drv st) @ [cmd] \<and>
     secure (os env) (length (smc_log (drv st))) cmd v f = (v', f', r, l) \<and>
     smc_id cmd = push_bit 10 (ts_service (tee_sessions st ses)) OR cid \<and> smc_context cmd = ts_session (tee_sessions st ses) \<and>
     req_buf_phys cmd = virt_to_phys (os env) b \<and> req_buf_len cmd = of_nat (total_len ps) \<and>
     decode_all (length ps) penv v b f 0 0 pst = (pst, Inr (zip addrs (map param_len ps))) \<and> length addrs = length ps \<and>
     (\<forall>i<length ps. \<forall>k<unat (param_len (ps ! i)). v (addrs ! i + of_nat k) = vmem (drv st) (param_addr (ps ! i) + of_nat k))"
  using assms by (rule inputs_reach)

section \<open>A concrete client\<close>

text \<open>Session 11 of service 2 through the descriptor 3; the operation at 0x10000 passes a value and a buffer of
  five bytes.\<close>

definition demo_tee_env :: tee_env where
  "demo_tee_env = \<lparr>os = demo_drv_env, is_device = (\<lambda>_. True), garbage = demo_enc 0 0, garbage_session = 0\<rparr>"

definition demo_tee :: tee where
  "demo_tee =
     \<lparr>drv = demo_driver\<lparr>kmallocs := [0xD00, 0xE00, 0xF00, 0xF80],
        vmem := (\<lambda>_. 0)(0x10000 := 1, 0x10004 := 0x52, 0x10008 := 7, 0x10015 := 0x80, 0x10018 := 5, 0x8000 := 104, 0x8004 := 33)\<rparr>,
      files = (\<lambda>_. None)(3 := Some (Some 1)), fd_answers = [], mmap_answers = [], errno = 0,
      contexts = (\<lambda>_. \<lparr>fd = 3, session_count = 1, ctx_shared_cnt = 0, ctx_shared = [], ctx_errno = 0\<rparr>),
      tee_sessions = (\<lambda>_. \<lparr>operation_cnt = 0, ts_session = 11, ts_service = 2, device = 5, ts_errno = 0\<rparr>),
      shms = (\<lambda>_. \<lparr>buffer = 0, shm_size = 0, shm_flags = 0, shm_context = 0, shm_operations = 0, allocated = 0, shm_errno = 0\<rparr>)\<rparr>"

definition demo_inputs :: "param list" where
  "demo_inputs = [(False, 0x10008, 4), (False, 0x1000C, 4), (True, 0x8000, 5)]"

lemma demo_tee_facts:
  "connected 1 1 0 demo_tee" "word_at demo_tee 0x10000 = 1" "word_at demo_tee (0x10000 + 4) = 0x52"
  "ses_ids 1 2 (drv demo_tee) = Some [11, 12]" "Option.is_none (find_enc 1 2 11 0xD00 (drv demo_tee))"
  "all_inputs (vmem (drv demo_tee)) 0x10000 0x52 [0..<4] = demo_inputs"
  "total_len demo_inputs = 13"
  by code_simp+

lemma demo_outside:
  "\<forall>p\<in>set ((True, 0x10008, 8) # (True, 0x10014, 8) # (True, 0x10020, 8) # (True, 0x1002C, 8) # demo_inputs). outside 0xF00 p"
proof -
  have "\<forall>k\<in>set [0..<8]. 1024 \<le> 0xF108 + (of_nat k :: u32)" "\<forall>k\<in>set [0..<8]. 1024 \<le> 0xF114 + (of_nat k :: u32)"
    "\<forall>k\<in>set [0..<8]. 1024 \<le> 0xF120 + (of_nat k :: u32)" "\<forall>k\<in>set [0..<8]. 1024 \<le> 0xF12C + (of_nat k :: u32)"
    "\<forall>k\<in>set [0..<4]. 1024 \<le> 0xF108 + (of_nat k :: u32)" "\<forall>k\<in>set [0..<4]. 1024 \<le> 0xF10C + (of_nat k :: u32)"
    "\<forall>k\<in>set [0..<5]. 1024 \<le> 0x7100 + (of_nat k :: u32)"
    by code_simp+
  moreover have "unat (8 :: u32) = 8" "unat (5 :: u32) = 5" "unat (4 :: u32) = 4" by code_simp+
  ultimately show ?thesis
    by (auto simp del: unat_numeral simp: outside_def param_len_def param_addr_def OTZ_1K_SIZE_def demo_inputs_def add.commute)
qed

abbreviation (input) demo_mem :: bytes where "demo_mem \<equiv> vmem (drv demo_tee)"

lemma demo_types: "param_types 0x52 0 = 2" "param_types 0x52 1 = 5" "param_types 0x52 2 = 0" "param_types 0x52 3 = 0"
  "param_at 0x10000 0 = 0x10008" "param_at 0x10000 1 = 0x10014" "param_at 0x10000 2 = 0x10020" "param_at 0x10000 3 = 0x1002C"
  by code_simp+

lemma demo_passed: "tee_inputs demo_mem 0x10008 2 = [(False, 0x10008, 4), (False, 0x1000C, 4)]"
  "tee_inputs demo_mem 0x10014 5 = [(True, 0x8000, 5)]" "tee_inputs demo_mem p 0 = []"
  "load32 demo_mem 0x10014 = 0x8000" "load32 demo_mem 0x10018 = 5"
  by (code_simp, code_simp, simp add: tee_inputs_def tee_types, code_simp, code_simp)

lemma demo_param_ok: "q \<in> set demo_inputs \<Longrightarrow> param_ok demo_drv_env q"
  by (auto simp: param_ok_def demo_inputs_def demo_drv_env_def param_len_def param_addr_def)

lemma demo_inputs_ok:
  "\<forall>i<4. inputs_ok demo_drv_env 0xF00 demo_mem (param_at 0x10000 i) (param_types 0x52 i)"
proof (intro allI impI)
  fix i :: nat assume "i < 4"
  then consider "i = 0" | "i = 1" | "i = 2" | "i = 3" by linarith
  moreover have "only_inputs 2" "only_inputs 5" "only_inputs 0" "(2 :: u32) \<noteq> TEEC_MEMREF_TEMP_INPUT" "(0 :: u32) \<noteq> TEEC_MEMREF_TEMP_INPUT"
    by (simp_all add: only_inputs_def active_def is_value_def is_partial_def is_temp_def tee_types)
  moreover have "\<forall>q\<in>set demo_inputs. param_ok demo_drv_env q \<and> outside 0xF00 q" "outside 0xF00 (True, 0x10008, 8)" "outside 0xF00 (True, 0x10014, 8)"
    "outside 0xF00 (True, 0x10020, 8)" "outside 0xF00 (True, 0x1002C, 8)"
    using demo_param_ok demo_outside by simp_all
  ultimately show "inputs_ok demo_drv_env 0xF00 demo_mem (param_at 0x10000 i) (param_types 0x52 i)"
    by cases (simp_all add: inputs_ok_def demo_types demo_passed demo_inputs_def del: One_nat_def)
qed

lemma demo_secure: "case secure demo_drv_env i cmd v f of (v', f', r, l) \<Rightarrow> 0 \<le> sint r \<and> sint r < 8"
  "secure demo_drv_env i cmd v f = (v, f, 0, 0)"
  by (simp_all add: demo_drv_env_def)

lemma demo_invoke_facts:
  "ts_service (tee_sessions demo_tee 1) = 2" "ts_session (tee_sessions demo_tee 1) = 11" "smc_log (drv demo_tee) = []"
  "os demo_tee_env = demo_drv_env" "kmallocs (drv demo_tee) = 0xD00 # 0xE00 # 0xF00 # 0xF80 # []"
  "find_enc 1 2 11 0xD00 (drv demo_tee) = None" "word_at demo_tee 0x10000 \<noteq> 0"
  "\<forall>i<4. inputs_ok (os demo_tee_env) 0xF00 demo_mem (param_at 0x10000 i) (param_types (word_at demo_tee (0x10000 + 4)) i)"
  "demo_inputs = all_inputs demo_mem 0x10000 (word_at demo_tee (0x10000 + 4)) [0..<4]" "demo_inputs \<noteq> []" "total_len demo_inputs \<le> 1024"
proof -
  show "find_enc 1 2 11 0xD00 (drv demo_tee) = None" using demo_tee_facts(5) by (simp add: Option.is_none_def)
  show "word_at demo_tee 0x10000 \<noteq> 0" unfolding demo_tee_facts(2) by simp
  show "os demo_tee_env = demo_drv_env" by (simp add: demo_tee_env_def)
  then show "\<forall>i<4. inputs_ok (os demo_tee_env) 0xF00 demo_mem (param_at 0x10000 i) (param_types (word_at demo_tee (0x10000 + 4)) i)"
    using demo_inputs_ok unfolding demo_tee_facts(3) by simp
  show "demo_inputs = all_inputs demo_mem 0x10000 (word_at demo_tee (0x10000 + 4)) [0..<4]"
    unfolding demo_tee_facts(3) demo_tee_facts(6) ..
  show "total_len demo_inputs \<le> 1024" unfolding demo_tee_facts(7) by simp
qed (simp_all add: demo_tee_def demo_driver_def demo_inputs_def)

text \<open>Command 9 delivers the words 7 and 0 and the five bytes.\<close>

theorem tee_inputs_reach_service_witness:
  "\<exists>st' cmd v f addrs. TEEC_InvokeCommand demo_tee_env 1 9 0x10000 0 demo_tee = Some (st', 0) \<and>
     smc_log (drv st') = [cmd] \<and> smc_id cmd = 0x809 \<and> req_buf_phys cmd = 0xC0000F00 \<and> req_buf_len cmd = 13 \<and>
     decode_all 3 demo_env v 0xF00 f 0 0 demo_pt = (demo_pt, Inr (zip addrs [4, 4, 5])) \<and> v (addrs ! 2) = 104 \<and> v (addrs ! 2 + 4) = 33"
proof -
  note f = demo_invoke_facts
  have h: "ses_ids 1 (ts_service (tee_sessions demo_tee 1)) (drv demo_tee) = Some (ts_session (tee_sessions demo_tee 1) # [12])"
    "find_enc 1 (ts_service (tee_sessions demo_tee 1)) (ts_session (tee_sessions demo_tee 1)) 0xD00 (drv demo_tee) = None"
    using demo_tee_facts(4) f(6) by (simp_all add: f)
  have nz: "(1 :: u32) \<noteq> 0" "(0x10000 :: u32) \<noteq> 0" "0 \<notin> {0xD00, 0xE00, 0xF00, 0xF80 :: u32}" "(0xD00 :: u32) \<noteq> - 1" by simp_all
  have ans: "case secure (os demo_tee_env) i cmd v f of (v', f', r, l) \<Rightarrow> 0 \<le> sint r \<and> sint r < 8" for i cmd v f
    unfolding demo_invoke_facts(4) by (rule demo_secure(1))
  obtain st' cmd v m v' m' r l addrs where r: "TEEC_InvokeCommand demo_tee_env 1 9 0x10000 0 demo_tee = Some (st', r)"
    "smc_log (drv st') = smc_log (drv demo_tee) @ [cmd]"
    "secure (os demo_tee_env) (length (smc_log (drv demo_tee))) cmd v m = (v', m', r, l)"
    "smc_id cmd = push_bit 10 (ts_service (tee_sessions demo_tee 1)) OR 9"
    "req_buf_phys cmd = virt_to_phys (os demo_tee_env) 0xF00" "req_buf_len cmd = of_nat (total_len demo_inputs)"
    "decode_all (length demo_inputs) demo_env v 0xF00 m 0 0 demo_pt = (demo_pt, Inr (zip addrs (map param_len demo_inputs)))"
    "\<forall>i<length demo_inputs. \<forall>k<unat (param_len (demo_inputs ! i)). v (addrs ! i + of_nat k) = demo_mem (param_addr (demo_inputs ! i) + of_nat k)"
    using tee_inputs_reach_service[OF demo_tee_facts(1) nz(1,2) f(7) h f(5) nz(3,4) f(8-11) ans, of 9 0 demo_env demo_pt] by blast
  have "r = 0" using r(3) by (simp add: f(4) demo_secure(2))
  moreover have "v (addrs ! 2) = 104" "v (addrs ! 2 + 4) = 33"
  proof -
    have "demo_mem 0x8000 = 104" "demo_mem 0x8004 = 33" by code_simp+
    moreover have "unat (5 :: u32) = 5" by code_simp
    ultimately show "v (addrs ! 2) = 104" "v (addrs ! 2 + 4) = 33"
      using r(8)[rule_format, of 2 0] r(8)[rule_format, of 2 4] by (simp_all del: unat_numeral add: demo_inputs_def param_len_def param_addr_def)
  qed
  moreover have "virt_to_phys demo_drv_env 0xF00 = 0xC0000F00" by (simp add: demo_drv_env_def)
  moreover have "map param_len demo_inputs = [4, 4, 5]" "length demo_inputs = 3" by (simp_all add: demo_inputs_def param_len_def)
  moreover have "push_bit 10 (2 :: u32) OR 9 = 0x809" by code_simp
  ultimately show ?thesis using r(1,2,4-7) unfolding f(1-4) demo_tee_facts(7) by auto
qed

theorem invoke_releases_context_witness:
  "\<exists>st'. TEEC_InvokeCommand demo_tee_env 1 9 0x10000 0 demo_tee = Some (st', 0) \<and> ctx_ids 1 2 11 (drv st') = Some [0x5000] \<and> connected 1 1 0 st'"
proof -
  note f = demo_invoke_facts
  have h: "ses_ids 1 (ts_service (tee_sessions demo_tee 1)) (drv demo_tee) = Some (ts_session (tee_sessions demo_tee 1) # [12])"
    "find_enc 1 (ts_service (tee_sessions demo_tee 1)) (ts_session (tee_sessions demo_tee 1)) 0xD00 (drv demo_tee) = None"
    using demo_tee_facts(4) f(6) by (simp_all add: f)
  have nz: "(1 :: u32) \<noteq> 0" "(0x10000 :: u32) \<noteq> 0" "0 \<notin> {0xD00, 0xE00, 0xF00, 0xF80 :: u32}" "(0xD00 :: u32) \<noteq> - 1" by simp_all
  have ans: "case secure (os demo_tee_env) i cmd v f of (v', f', r, l) \<Rightarrow> 0 \<le> sint r \<and> sint r < 8" for i cmd v f
    unfolding demo_invoke_facts(4) by (rule demo_secure(1))
  obtain st' cmd v m v' m' r l where r: "TEEC_InvokeCommand demo_tee_env 1 9 0x10000 0 demo_tee = Some (st', r)"
    "secure (os demo_tee_env) (length (smc_log (drv demo_tee))) cmd v m = (v', m', r, l)"
    using inputs_reach[OF demo_tee_facts(1) nz(1,2) f(7) h f(5) nz(3,4) f(8-11) ans, of 9 0 demo_env demo_pt] by blast
  have "r = 0" using r(2) by (simp add: f(4) demo_secure(2))
  have i: "ctx_ids 1 (ts_service (tee_sessions demo_tee 1)) (ts_session (tee_sessions demo_tee 1)) (drv demo_tee) = Some [0x5000]"
    unfolding f(1,2) by code_simp
  have k: "set (kmallocs (drv demo_tee)) \<inter> insert (- 1) (set [0x5000]) = {}" by (simp add: f(5))
  from invoke_releases_context[OF r(1) demo_tee_facts(1) i k] r(1) \<open>r = 0\<close> show ?thesis by (simp add: f(1,2))
qed

end
