(* ===== verification/Buddy_Tree.thy ===== *)
theory Buddy_Tree
  imports Prelude "HOL-Library.Tree" "HOL-Library.Monad_Syntax"
begin

text \<open>
  The binary trees of \<^verbatim>\<open>lib/common/sw_buddy.c\<close>.  Their nodes are the \<^verbatim>\<open>struct sw_area\<close>
  descriptors: the roots embedded in the pool (\<open>Alloc_Tree\<close>, and \<open>Free_Area b\<close> for each bin) and
  the elements of the descriptor array (\<open>Area i\<close>).  A pointer is an \<open>anode option\<close>; an operation
  is \<open>None\<close> when it follows \<^verbatim>\<open>NULL\<close> or never ends.  \<open>bt h par p t\<close> says that the pointer \<open>p\<close>, with
  parent \<open>par\<close>, is the tree \<open>t\<close>; every operation is shown to refine its counterpart on trees.
\<close>

section \<open>Descriptors\<close>

datatype anode = Alloc_Tree | Free_Area nat | Area nat

record sw_area =
  parent :: "anode option"
  lchild :: "anode option"
  rchild :: "anode option"
  mem_addr :: u32
  block_size :: u32
  bin :: u32
  cnt :: u32

type_synonym area_mem = "anode \<Rightarrow> sw_area"

definition upd :: "anode \<Rightarrow> (sw_area \<Rightarrow> sw_area) \<Rightarrow> area_mem \<Rightarrow> area_mem" where
  "upd x f h = h(x := f (h x))"

definition upd_at :: "anode option \<Rightarrow> (sw_area \<Rightarrow> sw_area) \<Rightarrow> area_mem \<Rightarrow> area_mem option" where
  "upd_at p f h = map_option (\<lambda>x. upd x f h) p"

abbreviation addr :: "area_mem \<Rightarrow> anode \<Rightarrow> u32" where
  "addr h x \<equiv> mem_addr (h x)"

section \<open>The operations\<close>

partial_function (option) add_sorted_btree_node :: "anode \<Rightarrow> anode \<Rightarrow> area_mem \<Rightarrow> area_mem option" where
  "add_sorted_btree_node p n h =
     (if addr h n < addr h p then
        (case lchild (h p) of
           Some c \<Rightarrow> add_sorted_btree_node c n h
         | None \<Rightarrow> Some (upd n (\<lambda>a. a\<lparr>parent := Some p\<rparr>) (upd p (\<lambda>a. a\<lparr>lchild := Some n\<rparr>) h)))
      else
        (case rchild (h p) of
           Some c \<Rightarrow>
             if addr h n < addr h c
             then Some (upd p (\<lambda>a. a\<lparr>rchild := Some n\<rparr>)
                    (upd c (\<lambda>a. a\<lparr>parent := Some n\<rparr>)
                    (upd n (\<lambda>a. a\<lparr>rchild := Some c\<rparr>)
                    (upd n (\<lambda>a. a\<lparr>parent := Some p\<rparr>) h))))
             else add_sorted_btree_node c n h
         | None \<Rightarrow> Some (upd n (\<lambda>a. a\<lparr>parent := Some p\<rparr>) (upd p (\<lambda>a. a\<lparr>rchild := Some n\<rparr>) h))))"

partial_function (option) add_btree_node :: "anode \<Rightarrow> anode \<Rightarrow> area_mem \<Rightarrow> area_mem option" where
  "add_btree_node p n h =
     (if addr h n < addr h p then
        (case lchild (h p) of
           Some c \<Rightarrow> add_btree_node c n h
         | None \<Rightarrow> Some (upd n (\<lambda>a. a\<lparr>parent := Some p\<rparr>) (upd p (\<lambda>a. a\<lparr>lchild := Some n\<rparr>) h)))
      else if addr h n > addr h p then
        (case rchild (h p) of
           Some c \<Rightarrow> add_btree_node c n h
         | None \<Rightarrow> Some (upd n (\<lambda>a. a\<lparr>parent := Some p\<rparr>) (upd p (\<lambda>a. a\<lparr>rchild := Some n\<rparr>) h)))
      else Some h)"

partial_function (option) get_max_node :: "anode \<Rightarrow> area_mem \<Rightarrow> anode option" where
  "get_max_node x h = (case rchild (h x) of None \<Rightarrow> Some x | Some c \<Rightarrow> get_max_node c h)"

partial_function (option) get_min_node :: "anode \<Rightarrow> area_mem \<Rightarrow> anode option" where
  "get_min_node x h = (case lchild (h x) of None \<Rightarrow> Some x | Some c \<Rightarrow> get_min_node c h)"

partial_function (option) search_btree_node :: "anode option \<Rightarrow> u32 \<Rightarrow> area_mem \<Rightarrow> anode option option" where
  "search_btree_node p a h =
     (case p of
        None \<Rightarrow> Some None
      | Some x \<Rightarrow>
          if addr h x = a then Some (Some x)
          else if a < addr h x then search_btree_node (lchild (h x)) a h
          else search_btree_node (rchild (h x)) a h)"

text \<open>The steps of \<^verbatim>\<open>remove_btree_node\<close>: redirecting the parent's pointer, taking the minimum
  (maximum) node out of its place, and the four cases of the deleted node's children.\<close>

definition redirect :: "anode \<Rightarrow> anode option \<Rightarrow> area_mem \<Rightarrow> area_mem option" where
  "redirect d q h =
     map_option (\<lambda>p. if rchild (h p) = Some d then upd p (\<lambda>a. a\<lparr>rchild := q\<rparr>) h
                     else if lchild (h p) = Some d then upd p (\<lambda>a. a\<lparr>lchild := q\<rparr>) h else h)
       (parent (h d))"

definition detach_min :: "anode \<Rightarrow> area_mem \<Rightarrow> area_mem option" where
  "detach_min m h =
     (case rchild (h m) of
        Some c \<Rightarrow> do {
          h \<leftarrow> upd_at (parent (h m)) (\<lambda>a. a\<lparr>lchild := Some c\<rparr>) h;
          Some (upd c (\<lambda>a. a\<lparr>parent := parent (h m)\<rparr>) h)
        }
      | None \<Rightarrow> upd_at (parent (h m)) (\<lambda>a. a\<lparr>lchild := None\<rparr>) h)"

definition detach_max :: "anode \<Rightarrow> area_mem \<Rightarrow> area_mem option" where
  "detach_max m h =
     (case lchild (h m) of
        Some c \<Rightarrow> do {
          h \<leftarrow> upd_at (parent (h m)) (\<lambda>a. a\<lparr>rchild := Some c\<rparr>) h;
          Some (upd c (\<lambda>a. a\<lparr>parent := parent (h m)\<rparr>) h)
        }
      | None \<Rightarrow> upd_at (parent (h m)) (\<lambda>a. a\<lparr>rchild := None\<rparr>) h)"

definition take_left :: "anode \<Rightarrow> anode \<Rightarrow> area_mem \<Rightarrow> area_mem option" where
  "take_left m d h = do {
     h \<leftarrow> Some (upd m (\<lambda>a. a\<lparr>lchild := lchild (h d)\<rparr>) h);
     upd_at (lchild (h m)) (\<lambda>a. a\<lparr>parent := Some m\<rparr>) h
   }"

definition take_right :: "anode \<Rightarrow> anode \<Rightarrow> area_mem \<Rightarrow> area_mem option" where
  "take_right m d h = do {
     h \<leftarrow> Some (upd m (\<lambda>a. a\<lparr>rchild := rchild (h d)\<rparr>) h);
     upd_at (rchild (h m)) (\<lambda>a. a\<lparr>parent := Some m\<rparr>) h
   }"

definition take_parent :: "anode \<Rightarrow> anode \<Rightarrow> area_mem \<Rightarrow> area_mem" where
  "take_parent m d h = upd m (\<lambda>a. a\<lparr>parent := parent (h d)\<rparr>) h"

definition replace_node :: "anode \<Rightarrow> area_mem \<Rightarrow> area_mem option" where
  "replace_node d h =
     (case (lchild (h d), rchild (h d)) of
        (Some l, Some r) \<Rightarrow> do {
          m \<leftarrow> get_min_node r h;
          h \<leftarrow> redirect d (Some m) h;
          if m = r then map_option (take_parent m d) (take_left m d h)
          else do {
            h \<leftarrow> detach_min m h;
            h \<leftarrow> take_left m d h;
            h \<leftarrow> take_right m d h;
            Some (take_parent m d h)
          }
        }
      | (None, None) \<Rightarrow> redirect d None h
      | (Some l, None) \<Rightarrow> do {
          m \<leftarrow> get_max_node l h;
          h \<leftarrow> redirect d (Some m) h;
          h \<leftarrow> (if m = l then Some h
               else do { h \<leftarrow> detach_max m h; take_left m d h });
          Some (take_parent m d h)
        }
      | (None, Some r) \<Rightarrow> do {
          m \<leftarrow> get_min_node r h;
          h \<leftarrow> redirect d (Some m) h;
          h \<leftarrow> (if m = r then Some h
               else do { h \<leftarrow> detach_min m h; take_right m d h });
          Some (take_parent m d h)
        })"

definition delete_node :: "anode \<Rightarrow> area_mem \<Rightarrow> area_mem option" where
  "delete_node d h =
     map_option (upd d (\<lambda>a. a\<lparr>parent := None, lchild := None, rchild := None\<rparr>)) (replace_node d h)"

partial_function (option) remove_btree_node :: "anode \<Rightarrow> anode \<Rightarrow> area_mem \<Rightarrow> area_mem option" where
  "remove_btree_node p d h =
     (if addr h d < addr h p then
        (case lchild (h p) of Some c \<Rightarrow> remove_btree_node c d h | None \<Rightarrow> Some h)
      else if addr h d > addr h p then
        (case rchild (h p) of Some c \<Rightarrow> remove_btree_node c d h | None \<Rightarrow> Some h)
      else delete_node d h)"

declare add_sorted_btree_node.simps [code] add_btree_node.simps [code] get_max_node.simps [code]
  get_min_node.simps [code] search_btree_node.simps [code] remove_btree_node.simps [code]

section \<open>Trees in memory\<close>

fun bt :: "area_mem \<Rightarrow> anode option \<Rightarrow> anode option \<Rightarrow> anode tree \<Rightarrow> bool" where
  "bt h par p \<langle>\<rangle> \<longleftrightarrow> p = None"
| "bt h par p \<langle>l, x, r\<rangle> \<longleftrightarrow> p = Some x \<and> parent (h x) = par \<and>
     bt h (Some x) (lchild (h x)) l \<and> bt h (Some x) (rchild (h x)) r"

fun root_of :: "'a tree \<Rightarrow> 'a option" where
  "root_of \<langle>\<rangle> = None" | "root_of \<langle>l, x, r\<rangle> = Some x"

definition same_links :: "area_mem \<Rightarrow> area_mem \<Rightarrow> anode \<Rightarrow> bool" where
  "same_links h h' x \<longleftrightarrow> parent (h' x) = parent (h x) \<and> lchild (h' x) = lchild (h x) \<and> rchild (h' x) = rchild (h x)"

definition same_data :: "area_mem \<Rightarrow> area_mem \<Rightarrow> bool" where
  "same_data h h' \<longleftrightarrow> (\<forall>x. mem_addr (h' x) = mem_addr (h x) \<and> block_size (h' x) = block_size (h x) \<and>
     bin (h' x) = bin (h x) \<and> cnt (h' x) = cnt (h x))"

lemma same_data_refl [simp]: "same_data h h"
  by (simp add: same_data_def)

lemma same_data_trans [trans]: "same_data h h' \<Longrightarrow> same_data h' h'' \<Longrightarrow> same_data h h''"
  by (simp add: same_data_def)

lemma same_data_addr: "same_data h h' \<Longrightarrow> addr h' x = addr h x"
  by (simp add: same_data_def)

lemma bt_root: "bt h par p t \<Longrightarrow> p = root_of t"
  by (cases t) auto

lemma bt_cong: "bt h par p t \<Longrightarrow> \<forall>x\<in>set_tree t. same_links h h' x \<Longrightarrow> bt h' par p t"
  by (induction t arbitrary: par p) (auto simp: same_links_def)

lemma upd_same [simp]: "upd x f h x = f (h x)"
  by (simp add: upd_def)

lemma upd_other [simp]: "y \<noteq> x \<Longrightarrow> upd x f h y = h y"
  by (simp add: upd_def)

lemma upd_apply: "upd x f h y = (if y = x then f (h y) else h y)"
  by (simp add: upd_def)

lemma root_of_in: "root_of t = Some x \<Longrightarrow> x \<in> set_tree t"
  by (cases t) auto

text \<open>Moving a tree under another parent changes the parent field of its root.\<close>

definition reparent :: "anode option \<Rightarrow> anode option \<Rightarrow> area_mem \<Rightarrow> area_mem" where
  "reparent q p h = (case q of None \<Rightarrow> h | Some x \<Rightarrow> upd x (\<lambda>a. a\<lparr>parent := p\<rparr>) h)"

section \<open>Deleting from a tree\<close>

fun without_min :: "'a tree \<Rightarrow> 'a tree" where
  "without_min \<langle>\<rangle> = \<langle>\<rangle>"
| "without_min \<langle>l, x, r\<rangle> = (if l = \<langle>\<rangle> then r else \<langle>without_min l, x, r\<rangle>)"

fun without_max :: "'a tree \<Rightarrow> 'a tree" where
  "without_max \<langle>\<rangle> = \<langle>\<rangle>"
| "without_max \<langle>l, x, r\<rangle> = (if r = \<langle>\<rangle> then l else \<langle>l, x, without_max r\<rangle>)"

definition joined :: "'a tree \<Rightarrow> 'a tree \<Rightarrow> 'a tree" where
  "joined l r =
     (if r \<noteq> \<langle>\<rangle> then \<langle>l, hd (inorder r), without_min r\<rangle>
      else if l \<noteq> \<langle>\<rangle> then \<langle>without_max l, last (inorder l), \<langle>\<rangle>\<rangle> else \<langle>\<rangle>)"

fun cut :: "'a \<Rightarrow> 'a tree \<Rightarrow> 'a tree" where
  "cut d \<langle>\<rangle> = \<langle>\<rangle>"
| "cut d \<langle>l, x, r\<rangle> = (if x = d then joined l r else \<langle>cut d l, x, cut d r\<rangle>)"

lemma inorder_Nil [simp]: "inorder t = [] \<longleftrightarrow> t = \<langle>\<rangle>"
  by (cases t) auto

lemma inorder_without_min: "inorder (without_min t) = tl (inorder t)"
  by (induction t) auto

lemma inorder_without_max: "inorder (without_max t) = butlast (inorder t)"
  by (induction t) (auto simp: butlast_append)

lemma inorder_joined: "inorder (joined l r) = inorder l @ inorder r"
  by (auto simp: joined_def inorder_without_min inorder_without_max)

lemma cut_notin: "d \<notin> set_tree t \<Longrightarrow> cut d t = t"
  by (induction t) auto

lemma inorder_cut: "distinct (inorder t) \<Longrightarrow> inorder (cut d t) = remove1 d (inorder t)"
proof (induction t)
  case (Node l x r)
  then show ?case
    by (auto simp: inorder_joined remove1_append cut_notin intro!: remove1_idem)
qed simp

lemma set_tree_cut: "distinct (inorder t) \<Longrightarrow> set_tree (cut d t) = set_tree t - {d}"
  using inorder_cut[of t d] by (metis set_inorder set_remove1_eq)

lemma hd_in_tree: "t \<noteq> \<langle>\<rangle> \<Longrightarrow> hd (inorder t) \<in> set_tree t"
  using hd_in_set[of "inorder t"] by simp

lemma last_in_tree: "t \<noteq> \<langle>\<rangle> \<Longrightarrow> last (inorder t) \<in> set_tree t"
  using last_in_set[of "inorder t"] by simp

lemma get_min_node_bt: "bt h par (Some x) t \<Longrightarrow> get_min_node x h = Some (hd (inorder t))"
proof (induction t arbitrary: par x)
  case (Node l y r)
  then show ?case by (subst get_min_node.simps) (cases l; auto simp: hd_append)
qed simp

lemma get_max_node_bt: "bt h par (Some x) t \<Longrightarrow> get_max_node x h = Some (last (inorder t))"
proof (induction t arbitrary: par x)
  case (Node l y r)
  then show ?case by (subst get_max_node.simps) (cases r; auto)
qed simp

text \<open>\<open>changes h h' S\<close>: only the links of the nodes of \<open>S\<close> differ.\<close>

definition changes :: "area_mem \<Rightarrow> area_mem \<Rightarrow> anode set \<Rightarrow> bool" where
  "changes h h' S \<longleftrightarrow> (\<forall>x. x \<notin> S \<longrightarrow> h' x = h x) \<and> same_data h h'"

lemma changesD: "changes h h' S \<Longrightarrow> x \<notin> S \<Longrightarrow> h' x = h x"
  by (simp add: changes_def)

lemma changes_addr: "changes h h' S \<Longrightarrow> addr h' x = addr h x"
  by (simp add: changes_def same_data_def)

lemma changes_trans: "changes h h' S \<Longrightarrow> changes h' h'' T \<Longrightarrow> S \<subseteq> U \<Longrightarrow> T \<subseteq> U \<Longrightarrow> changes h h'' U"
  by (auto simp: changes_def intro: same_data_trans) (metis subsetD)

lemma changes_upd:
  assumes "\<And>a. mem_addr (f a) = mem_addr a" "\<And>a. block_size (f a) = block_size a" "\<And>a. bin (f a) = bin a" "\<And>a. cnt (f a) = cnt a"
  shows "changes h (upd x f h) {x}"
  using assms by (simp add: changes_def same_data_def upd_apply)

lemma bt_changes: "bt h par p t \<Longrightarrow> changes h h' S \<Longrightarrow> S \<inter> set_tree t = {} \<Longrightarrow> bt h' par p t"
  by (erule bt_cong) (auto simp: same_links_def changes_def disjoint_iff)

lemma detach_min_bt:
  assumes "bt h (Some d) (Some x) t" and "hd (inorder t) = m" and "m \<noteq> x" and "distinct (inorder t)"
  shows "\<exists>h'. detach_min m h = Some h' \<and> bt h' (Some d) (Some x) (without_min t) \<and> changes h h' (set_tree t - {m}) \<and> h' m = h m"
  using assms
proof (induction t arbitrary: d x)
  case (Node l y r)
  then obtain l1 z l2 where l: "l = \<langle>l1, z, l2\<rangle>" by (cases l) auto
  have y: "y \<noteq> m" "y = x" using Node.prems by (cases l1; auto)+
  show ?case
  proof (cases "l1 = \<langle>\<rangle>")
    case True
    then have z: "z = m" using Node.prems l by simp
    have links: "parent (h m) = Some x" "lchild (h x) = Some m" "bt h (Some m) (rchild (h m)) l2"
        "bt h (Some x) (rchild (h x)) r" "parent (h x) = Some d"
      using Node.prems l True z y by auto
    have dist: "m \<notin> set_tree l2" "m \<notin> set_tree r" "x \<notin> set_tree l2" "x \<notin> set_tree r" "set_tree l2 \<inter> set_tree r = {}" "distinct (inorder l2)"
      using Node.prems l True z y by auto
    show ?thesis
    proof (cases l2)
      case Leaf
      then have "detach_min m h = Some (upd x (\<lambda>a. a\<lparr>lchild := None\<rparr>) h)"
        using links by (simp add: detach_min_def upd_at_def)
      moreover have "changes h (upd x (\<lambda>a. a\<lparr>lchild := None\<rparr>) h) {x}" by (rule changes_upd) simp_all
      moreover from this have "bt (upd x (\<lambda>a. a\<lparr>lchild := None\<rparr>) h) (Some x) (rchild (h x)) r"
        by (rule bt_changes[OF links(4)]) (use dist in auto)
      ultimately show ?thesis using Leaf l True z y links by (auto simp: changes_def)
    next
      case (Node l3 c l4)
      let ?h1 = "upd x (\<lambda>a. a\<lparr>lchild := Some c\<rparr>) h"
      let ?h2 = "upd c (\<lambda>a. a\<lparr>parent := Some x\<rparr>) ?h1"
      have c: "rchild (h m) = Some c" "c \<noteq> x" "c \<noteq> m" using links(3) Node dist by auto
      have "detach_min m h = Some ?h2" using links c y by (simp add: detach_min_def upd_at_def)
      moreover have ch: "changes h ?h2 {x, c}"
        by (rule changes_trans[OF changes_upd changes_upd]) auto
      moreover from this have "bt ?h2 (Some x) (rchild (h x)) r"
        by (rule bt_changes[OF links(4)]) (use dist Node in auto)
      moreover have "bt ?h2 (Some c) (lchild (h c)) l3" "bt ?h2 (Some c) (rchild (h c)) l4"
        using bt_changes[OF _ ch, of _ _ l3] bt_changes[OF _ ch, of _ _ l4] links(3) dist Node by auto
      ultimately show ?thesis using Node l True z y links c by (auto simp: changes_def)
    qed
  next
    case False
    have "m \<in> set_tree l1" using Node.prems(2) l False hd_in_tree[of l1] by simp
    then have "bt h (Some y) (Some z) l" "hd (inorder l) = m" "m \<noteq> z" "distinct (inorder l)"
      using Node.prems l False by auto
    from Node.IH(1)[OF this] obtain h' where h': "detach_min m h = Some h'"
        "bt h' (Some y) (Some z) (without_min l)" "changes h h' (set_tree l - {m})" "h' m = h m" by blast
    have eq: "h' y = h y" using h'(3) Node.prems by (auto simp: changes_def)
    have "bt h' (Some y) (rchild (h y)) r"
      by (rule bt_changes[OF _ h'(3)]) (use Node.prems in auto)
    then have "bt h' (Some d) (Some x) (without_min \<langle>l, y, r\<rangle>)" using h' Node.prems l y eq by auto
    moreover have "changes h h' (set_tree \<langle>l, y, r\<rangle> - {m})" using h'(3) by (auto simp: changes_def)
    ultimately show ?thesis using h' by blast
  qed
qed simp

lemma detach_max_bt:
  assumes "bt h (Some d) (Some x) t" and "last (inorder t) = m" and "m \<noteq> x" and "distinct (inorder t)"
  shows "\<exists>h'. detach_max m h = Some h' \<and> bt h' (Some d) (Some x) (without_max t) \<and> changes h h' (set_tree t - {m}) \<and> h' m = h m"
  using assms
proof (induction t arbitrary: d x)
  case (Node l y r)
  then obtain r1 z r2 where r: "r = \<langle>r1, z, r2\<rangle>" by (cases r) auto
  have y: "y \<noteq> m" "y = x" using Node.prems by auto
  show ?case
  proof (cases "r2 = \<langle>\<rangle>")
    case True
    then have z: "z = m" using Node.prems r by simp
    have links: "parent (h m) = Some x" "rchild (h x) = Some m" "bt h (Some m) (lchild (h m)) r1"
        "bt h (Some x) (lchild (h x)) l" "parent (h x) = Some d"
      using Node.prems r True z y by auto
    have dist: "m \<notin> set_tree r1" "m \<notin> set_tree l" "x \<notin> set_tree r1" "x \<notin> set_tree l" "set_tree r1 \<inter> set_tree l = {}" "distinct (inorder r1)"
      using Node.prems r True z y by auto
    show ?thesis
    proof (cases r1)
      case Leaf
      then have "detach_max m h = Some (upd x (\<lambda>a. a\<lparr>rchild := None\<rparr>) h)"
        using links by (simp add: detach_max_def upd_at_def)
      moreover have "changes h (upd x (\<lambda>a. a\<lparr>rchild := None\<rparr>) h) {x}" by (rule changes_upd) simp_all
      moreover from this have "bt (upd x (\<lambda>a. a\<lparr>rchild := None\<rparr>) h) (Some x) (lchild (h x)) l"
        by (rule bt_changes[OF links(4)]) (use dist in auto)
      ultimately show ?thesis using Leaf r True z y links by (auto simp: changes_def)
    next
      case (Node r3 c r4)
      let ?h1 = "upd x (\<lambda>a. a\<lparr>rchild := Some c\<rparr>) h"
      let ?h2 = "upd c (\<lambda>a. a\<lparr>parent := Some x\<rparr>) ?h1"
      have c: "lchild (h m) = Some c" "c \<noteq> x" "c \<noteq> m" using links(3) Node dist by auto
      have "detach_max m h = Some ?h2" using links c y by (simp add: detach_max_def upd_at_def)
      moreover have ch: "changes h ?h2 {x, c}"
        by (rule changes_trans[OF changes_upd changes_upd]) auto
      moreover from this have "bt ?h2 (Some x) (lchild (h x)) l"
        by (rule bt_changes[OF links(4)]) (use dist Node in auto)
      moreover have "bt ?h2 (Some c) (lchild (h c)) r3" "bt ?h2 (Some c) (rchild (h c)) r4"
        using bt_changes[OF _ ch, of _ _ r3] bt_changes[OF _ ch, of _ _ r4] links(3) dist Node by auto
      ultimately show ?thesis using Node r True z y links c by (auto simp: changes_def)
    qed
  next
    case False
    have "m \<in> set_tree r2" using Node.prems(2) r False last_in_tree[of r2] by simp
    then have "bt h (Some y) (Some z) r" "last (inorder r) = m" "m \<noteq> z" "distinct (inorder r)"
      using Node.prems r False by auto
    from Node.IH(2)[OF this] obtain h' where h': "detach_max m h = Some h'"
        "bt h' (Some y) (Some z) (without_max r)" "changes h h' (set_tree r - {m})" "h' m = h m" by blast
    have eq: "h' y = h y" using h'(3) Node.prems by (auto simp: changes_def)
    have "bt h' (Some y) (lchild (h y)) l"
      by (rule bt_changes[OF _ h'(3)]) (use Node.prems in auto)
    then have "bt h' (Some d) (Some x) (without_max \<langle>l, y, r\<rangle>)" using h' Node.prems r y eq by auto
    moreover have "changes h h' (set_tree \<langle>l, y, r\<rangle> - {m})" using h'(3) by (auto simp: changes_def)
    ultimately show ?thesis using h' by blast
  qed
qed simp

lemma bt_reparent:
  assumes "bt h par (Some x) t" and "distinct (inorder t)" and "parent (h' x) = par'"
    and "lchild (h' x) = lchild (h x)" and "rchild (h' x) = rchild (h x)"
    and "\<And>y. y \<in> set_tree t \<Longrightarrow> y \<noteq> x \<Longrightarrow> same_links h h' y"
  shows "bt h' par' (Some x) t"
proof (cases t)
  case (Node l y r)
  then have "bt h' (Some x) (lchild (h x)) l" "bt h' (Some x) (rchild (h x)) r"
    using assms by (auto intro!: bt_cong[of h _ _ _ h'])
  then show ?thesis using Node assms by auto
qed (use assms in simp)

definition child_to :: "anode \<Rightarrow> anode option \<Rightarrow> sw_area \<Rightarrow> sw_area" where
  "child_to d q a = (if rchild a = Some d then a\<lparr>rchild := q\<rparr> else a\<lparr>lchild := q\<rparr>)"

lemma child_to_fields [simp]:
  "parent (child_to d q a) = parent a" "mem_addr (child_to d q a) = mem_addr a"
  "block_size (child_to d q a) = block_size a" "bin (child_to d q a) = bin a" "cnt (child_to d q a) = cnt a"
  by (simp_all add: child_to_def)

lemma redirect_child:
  "parent (h d) = Some p \<Longrightarrow> lchild (h p) = Some d \<or> rchild (h p) = Some d \<Longrightarrow>
     redirect d q h = Some (upd p (child_to d q) h)"
  by (auto simp: redirect_def child_to_def upd_def)

lemma root_without_min: "hd (inorder t) \<noteq> x \<Longrightarrow> root_of t = Some x \<Longrightarrow> root_of (without_min t) = Some x"
  by (cases t) auto

lemma root_without_max: "last (inorder t) \<noteq> x \<Longrightarrow> root_of t = Some x \<Longrightarrow> root_of (without_max t) = Some x"
  by (cases t) auto

lemma set_without_min: "distinct (inorder t) \<Longrightarrow> set_tree (without_min t) = set_tree t - {hd (inorder t)}"
proof -
  assume "distinct (inorder t)"
  then have "set (tl (inorder t)) = set (inorder t) - {hd (inorder t)}" by (cases "inorder t") auto
  then show ?thesis by (metis inorder_without_min set_inorder)
qed

lemma set_without_max: "distinct (inorder t) \<Longrightarrow> set_tree (without_max t) = set_tree t - {last (inorder t)}"
proof -
  assume "distinct (inorder t)"
  then have "set (butlast (inorder t)) = set (inorder t) - {last (inorder t)}"
    by (cases "inorder t" rule: rev_cases) auto
  then show ?thesis by (metis inorder_without_max set_inorder)
qed

lemma distinct_without_min: "distinct (inorder t) \<Longrightarrow> distinct (inorder (without_min t))"
  by (simp add: inorder_without_min distinct_tl)

lemma distinct_without_max: "distinct (inorder t) \<Longrightarrow> distinct (inorder (without_max t))"
  by (simp add: inorder_without_max distinct_butlast)

text \<open>The result of \<open>replace_node\<close>: the node's place is taken by the joined subtrees.\<close>

definition replaced :: "anode \<Rightarrow> anode \<Rightarrow> anode tree \<Rightarrow> anode set \<Rightarrow> area_mem \<Rightarrow> area_mem \<Rightarrow> bool" where
  "replaced p d j S h h' \<longleftrightarrow> bt h' (Some p) (root_of j) j \<and> changes h h' (insert p S) \<and>
     h' p = child_to d (root_of j) (h p)"

definition hung :: "area_mem \<Rightarrow> anode \<Rightarrow> anode \<Rightarrow> anode tree \<Rightarrow> anode tree \<Rightarrow> bool" where
  "hung h p d l r \<longleftrightarrow> bt h (Some p) (Some d) \<langle>l, d, r\<rangle> \<and> distinct (inorder \<langle>l, d, r\<rangle>) \<and>
     p \<notin> set_tree \<langle>l, d, r\<rangle> \<and> (lchild (h p) = Some d \<or> rchild (h p) = Some d)"

lemma hung_links:
  assumes "hung h p d l r"
  shows "parent (h d) = Some p" "lchild (h d) = root_of l" "rchild (h d) = root_of r"
    "bt h (Some d) (root_of l) l" "bt h (Some d) (root_of r) r"
  using assms bt_root[of h "Some d" "lchild (h d)" l] bt_root[of h "Some d" "rchild (h d)" r]
  by (auto simp: hung_def)

lemma hung_nodes:
  assumes "hung h p d l r"
  shows "d \<notin> set_tree l" "d \<notin> set_tree r" "set_tree l \<inter> set_tree r = {}" "distinct (inorder l)"
    "distinct (inorder r)" "p \<noteq> d" "p \<notin> set_tree l" "p \<notin> set_tree r"
  using assms by (auto simp: hung_def)

lemma hung_redirect: "hung h p d l r \<Longrightarrow> redirect d q h = Some (upd p (child_to d q) h)"
  by (rule redirect_child) (auto simp: hung_def)

lemma changes_child: "changes h (upd p (child_to d q) h) {p}"
  by (rule changes_upd) simp_all

lemma changes_refl: "changes h h S"
  by (simp add: changes_def)

lemma changes_upd_in:
  assumes "changes h h' S" and "x \<in> S"
    and "\<And>a. mem_addr (f a) = mem_addr a" "\<And>a. block_size (f a) = block_size a" "\<And>a. bin (f a) = bin a" "\<And>a. cnt (f a) = cnt a"
  shows "changes h (upd x f h') S"
  using assms by (auto simp: changes_def same_data_def upd_apply)

lemma replace_none:
  assumes "hung h p d \<langle>\<rangle> \<langle>\<rangle>"
  shows "\<exists>h'. replace_node d h = Some h' \<and> replaced p d \<langle>\<rangle> {d} h h'"
  using hung_redirect[OF assms] hung_links[OF assms] changes_child[of h p d None]
  by (auto simp: replace_node_def replaced_def changes_def)

lemma min_is_root:
  assumes "root_of r = Some y" and "hd (inorder r) = y" and "distinct (inorder r)"
  shows "\<exists>r2. r = \<langle>\<langle>\<rangle>, y, r2\<rangle>"
proof -
  obtain a b where r: "r = \<langle>a, y, b\<rangle>" using assms(1) by (cases r) auto
  have "y \<in> set_tree a" if "a \<noteq> \<langle>\<rangle>" using that r assms(2) hd_in_tree[OF that] by simp
  then show ?thesis using r assms(3) by auto
qed

lemma max_is_root:
  assumes "root_of l = Some y" and "last (inorder l) = y" and "distinct (inorder l)"
  shows "\<exists>l2. l = \<langle>l2, y, \<langle>\<rangle>\<rangle>"
proof -
  obtain a b where l: "l = \<langle>a, y, b\<rangle>" using assms(1) by (cases l) auto
  have "y \<in> set_tree b" if "b \<noteq> \<langle>\<rangle>" using that l assms(2) last_in_tree[OF that] by simp
  then show ?thesis using l assms(3) by auto
qed

lemma min_no_left: "bt h par (Some y) t \<Longrightarrow> lchild (h (hd (inorder t))) = None"
proof (induction t arbitrary: par y)
  case (Node l x r)
  then show ?case by (cases l) (auto simp: hd_append)
qed simp

lemma max_no_right: "bt h par (Some y) t \<Longrightarrow> rchild (h (last (inorder t))) = None"
proof (induction t arbitrary: par y)
  case (Node l x r)
  then show ?case by (cases r) auto
qed simp

text \<open>Taking the minimum \<open>m\<close> out of the right subtree, whose root is \<open>y\<close>: first its own place, then
  its new links.\<close>

definition min_out :: "area_mem \<Rightarrow> anode \<Rightarrow> anode \<Rightarrow> anode tree \<Rightarrow> anode \<Rightarrow> anode \<Rightarrow> area_mem \<Rightarrow> bool" where
  "min_out h p d r m y h2 \<longleftrightarrow>
     (if m = y then Some (upd p (child_to d (Some m)) h) else detach_min m (upd p (child_to d (Some m)) h)) = Some h2 \<and>
     changes h h2 (insert p (set_tree r)) \<and> h2 m = h m \<and> h2 p = child_to d (Some m) (h p) \<and>
     (if m = y then bt h (Some m) (rchild (h m)) (without_min r) \<and> rchild (h m) = root_of (without_min r) \<and>
        (\<forall>z\<in>set_tree (without_min r). h2 z = h z)
      else bt h2 (Some d) (Some y) (without_min r))"

lemma min_outI:
  assumes "hung h p d l r" and "root_of r = Some y" and "hd (inorder r) = m"
  shows "\<exists>h2. min_out h p d r m y h2"
proof -
  note links = hung_links[OF assms(1)] and nodes = hung_nodes[OF assms(1)]
  have mr: "m \<in> set_tree r" using assms(2,3) hd_in_tree[of r] by (cases "r = \<langle>\<rangle>") auto
  let ?h1 = "upd p (child_to d (Some m)) h"
  have bt1: "bt ?h1 (Some d) (Some y) r" using bt_changes[OF _ changes_child] links(5) nodes assms(2) by auto
  have hm: "?h1 m = h m" using mr nodes by (auto simp: upd_apply)
  show ?thesis
  proof (cases "m = y")
    case True
    then obtain r2 where r2: "r = \<langle>\<langle>\<rangle>, y, r2\<rangle>" using min_is_root[OF assms(2)] assms(3) nodes(5) by blast
    then have b: "bt h (Some m) (rchild (h m)) r2" using links(5) True by auto
    show ?thesis using True r2 hm changes_child[of h p d "Some m"] b bt_root[OF b] nodes
      by (auto simp: min_out_def changes_def upd_apply)
  next
    case False
    from detach_min_bt[OF bt1 assms(3) False nodes(5)] obtain h2 where h2: "detach_min m ?h1 = Some h2"
      "bt h2 (Some d) (Some y) (without_min r)" "changes ?h1 h2 (set_tree r - {m})" "h2 m = ?h1 m" by blast
    have "changes h h2 (insert p (set_tree r))" by (rule changes_trans[OF changes_child h2(3)]) auto
    moreover have "h2 p = child_to d (Some m) (h p)" using h2(3) nodes(8) by (auto simp: changes_def)
    ultimately have "min_out h p d r m y h2" using False h2 hm by (auto simp: min_out_def)
    then show ?thesis by blast
  qed
qed

lemma min_placed:
  assumes "min_out h p d r m y h2" and "root_of r = Some y" and "hd (inorder r) = m" and "distinct (inorder r)"
    and "rchild (h' m) = (if m = y then rchild (h m) else Some y)"
    and "m \<noteq> y \<Longrightarrow> h' y = (h2 y)\<lparr>parent := Some m\<rparr>"
    and "\<And>z. z \<in> set_tree r \<Longrightarrow> z \<noteq> m \<Longrightarrow> z \<noteq> y \<Longrightarrow> h' z = h2 z"
  shows "bt h' (Some m) (rchild (h' m)) (without_min r) \<and> rchild (h' m) = root_of (without_min r)"
proof (cases "m = y")
  case True
  have "same_links h h' z" if "z \<in> set_tree (without_min r)" for z
  proof -
    from that have "z \<in> set_tree r" "z \<noteq> m" using set_without_min[OF assms(4)] assms(3) by auto
    then have "h' z = h2 z" using assms(7) True by auto
    then show ?thesis using assms(1) that True by (simp add: min_out_def same_links_def)
  qed
  then show ?thesis using True assms(1,5) by (auto simp: min_out_def intro: bt_cong)
next
  case False
  have r: "root_of (without_min r) = Some y" using root_without_min assms(2,3) False by metis
  have b: "bt h2 (Some d) (Some y) (without_min r)" using assms(1) False by (simp add: min_out_def)
  have "bt h' (Some m) (Some y) (without_min r)"
    by (rule bt_reparent[OF b]) (use False assms set_without_min[OF assms(4)] in \<open>auto simp: same_links_def distinct_without_min\<close>)
  then show ?thesis using False assms(5) r by simp
qed

lemma replace_both:
  assumes "hung h p d l r" and "l \<noteq> \<langle>\<rangle>" and "r \<noteq> \<langle>\<rangle>"
  shows "\<exists>h'. replace_node d h = Some h' \<and> replaced p d (joined l r) (set_tree \<langle>l, d, r\<rangle>) h h'"
proof -
  note links = hung_links[OF assms(1)] and nodes = hung_nodes[OF assms(1)]
  obtain x y where x: "root_of l = Some x" and y: "root_of r = Some y" using assms(2,3) by (cases l; cases r) auto
  obtain m where m: "hd (inorder r) = m" by blast
  have gm: "get_min_node y h = Some m" using links(5) get_min_node_bt y m by metis
  have xy: "x \<in> set_tree l" "y \<in> set_tree r" "m \<in> set_tree r" using root_of_in x y hd_in_tree[OF assms(3)] m by auto
  have ne: "m \<noteq> x" "m \<noteq> p" "x \<noteq> p" "m \<noteq> d" "x \<noteq> y" "y \<noteq> p" "x \<noteq> d" "y \<noteq> d" using nodes xy by auto
  obtain h2 where h2: "min_out h p d r m y h2" using min_outI[OF assms(1) y m] by blast
  have ch2: "changes h h2 (insert p (set_tree r))" "h2 m = h m" "h2 p = child_to d (Some m) (h p)"
    using h2 by (auto simp: min_out_def)
  have h2o: "h2 z = h z" if "z \<noteq> p" "z \<notin> set_tree r" for z using that ch2(1) by (auto simp: changes_def)
  have h2d: "h2 d = h d" "h2 x = h x" using h2o nodes xy ne by auto
  let ?h4 = "upd x (\<lambda>a. a\<lparr>parent := Some m\<rparr>) (upd m (\<lambda>a. a\<lparr>lchild := Some x\<rparr>) h2)"
  have left: "take_left m d h2 = Some ?h4" using links x h2d by (simp add: take_left_def upd_at_def)
  define h' where "h' = take_parent m d (if m = y then ?h4
      else upd y (\<lambda>a. a\<lparr>parent := Some m\<rparr>) (upd m (\<lambda>a. a\<lparr>rchild := Some y\<rparr>) ?h4))"
  have run: "replace_node d h = Some h'"
    using links x y gm hung_redirect[OF assms(1), of "Some m"] h2 left h2d ne
    by (auto simp: replace_node_def h'_def take_right_def upd_at_def upd_apply take_parent_def min_out_def)
  have h'm: "parent (h' m) = Some p" "lchild (h' m) = Some x" "rchild (h' m) = (if m = y then rchild (h m) else Some y)"
    using links ne ch2 h2d by (auto simp: h'_def take_parent_def upd_apply)
  have h'o: "h' z = h2 z" if "z \<noteq> m" "z \<noteq> x" "z \<noteq> y" for z using that by (auto simp: h'_def take_parent_def upd_apply)
  have h'x: "h' x = (h x)\<lparr>parent := Some m\<rparr>" using h2d ne by (auto simp: h'_def take_parent_def upd_apply)
  have h'y: "h' y = (h2 y)\<lparr>parent := Some m\<rparr>" if "m \<noteq> y" using that ne by (auto simp: h'_def take_parent_def upd_apply)
  have ch3: "changes h2 h' {m, x, y}"
    unfolding h'_def take_parent_def by (cases "m = y") (simp_all add: changes_upd_in changes_refl)
  have ch: "changes h h' (insert p (set_tree \<langle>l, d, r\<rangle>))"
    by (rule changes_trans[OF ch2(1) ch3]) (use xy in auto)
  have h'l: "h' z = h z" if z: "z \<in> set_tree l" "z \<noteq> x" for z
  proof -
    have "z \<notin> set_tree r" "z \<noteq> p" using z(1) nodes(3,7) by auto
    then have "z \<noteq> m" "z \<noteq> y" "h2 z = h z" using xy h2o by auto
    then show ?thesis using h'o z(2) by simp
  qed
  have btl: "bt h' (Some m) (Some x) l"
    by (rule bt_reparent[of h "Some d"]) (use links x nodes h'x h'l in \<open>auto simp: same_links_def\<close>)
  have btr: "bt h' (Some m) (rchild (h' m)) (without_min r)"
    using min_placed[of h p d r m y h2 h', OF h2 y m nodes(5) h'm(3)] h'y h'o nodes(3) xy by blast
  have "joined l r = \<langle>l, m, without_min r\<rangle>" using assms(3) by (simp add: joined_def m)
  then have "replaced p d (joined l r) (set_tree \<langle>l, d, r\<rangle>) h h'"
    using btl btr ch h'm h'o ne ch2 x by (auto simp: replaced_def)
  then show ?thesis using run by blast
qed

lemma replace_right:
  assumes "hung h p d \<langle>\<rangle> r" and "r \<noteq> \<langle>\<rangle>"
  shows "\<exists>h'. replace_node d h = Some h' \<and> replaced p d (joined \<langle>\<rangle> r) (set_tree \<langle>\<langle>\<rangle>, d, r\<rangle>) h h'"
proof -
  note links = hung_links[OF assms(1)] and nodes = hung_nodes[OF assms(1)]
  obtain y where y: "root_of r = Some y" using assms(2) by (cases r) auto
  obtain m where m: "hd (inorder r) = m" by blast
  have gm: "get_min_node y h = Some m" using links(5) get_min_node_bt y m by metis
  have xy: "y \<in> set_tree r" "m \<in> set_tree r" using root_of_in y hd_in_tree[OF assms(2)] m by auto
  have ne: "m \<noteq> p" "m \<noteq> d" "y \<noteq> p" "y \<noteq> d" using nodes xy by auto
  obtain h2 where h2: "min_out h p d r m y h2" using min_outI[OF assms(1) y m] by blast
  have ch2: "changes h h2 (insert p (set_tree r))" "h2 m = h m" "h2 p = child_to d (Some m) (h p)"
    using h2 by (auto simp: min_out_def)
  have h2o: "h2 z = h z" if "z \<noteq> p" "z \<notin> set_tree r" for z using that ch2(1) by (auto simp: changes_def)
  have h2d: "h2 d = h d" using h2o nodes by auto
  define h' where "h' = take_parent m d (if m = y then h2
      else upd y (\<lambda>a. a\<lparr>parent := Some m\<rparr>) (upd m (\<lambda>a. a\<lparr>rchild := Some y\<rparr>) h2))"
  have run: "replace_node d h = Some h'"
    using links y gm hung_redirect[OF assms(1), of "Some m"] h2 h2d ne
    by (auto simp: replace_node_def h'_def take_right_def upd_at_def upd_apply take_parent_def min_out_def)
  have h'm: "parent (h' m) = Some p" "lchild (h' m) = lchild (h m)" "rchild (h' m) = (if m = y then rchild (h m) else Some y)"
    using links ne ch2 h2d by (auto simp: h'_def take_parent_def upd_apply)
  have h'o: "h' z = h2 z" if "z \<noteq> m" "z \<noteq> y" for z using that by (auto simp: h'_def take_parent_def upd_apply)
  have h'y: "h' y = (h2 y)\<lparr>parent := Some m\<rparr>" if "m \<noteq> y" using that by (auto simp: h'_def take_parent_def upd_apply)
  have ch3: "changes h2 h' {m, y}"
    unfolding h'_def take_parent_def by (cases "m = y") (simp_all add: changes_upd_in changes_refl)
  have ch: "changes h h' (insert p (set_tree \<langle>\<langle>\<rangle>, d, r\<rangle>))"
    by (rule changes_trans[OF ch2(1) ch3]) (use xy in auto)
  have btr: "bt h' (Some m) (rchild (h' m)) (without_min r)"
    using min_placed[of h p d r m y h2 h', OF h2 y m nodes(5) h'm(3)] h'y h'o by blast
  have lm: "lchild (h m) = None" using min_no_left links(5) y m by metis
  have "joined \<langle>\<rangle> r = \<langle>\<langle>\<rangle>, m, without_min r\<rangle>" using assms(2) by (simp add: joined_def m)
  then have "replaced p d (joined \<langle>\<rangle> r) (set_tree \<langle>\<langle>\<rangle>, d, r\<rangle>) h h'"
    using btr ch h'm h'o ne ch2 lm by (auto simp: replaced_def)
  then show ?thesis using run by blast
qed

text \<open>Taking the maximum \<open>m\<close> out of the left subtree, whose root is \<open>y\<close>: first its own place, then
  its new links.\<close>

definition max_out :: "area_mem \<Rightarrow> anode \<Rightarrow> anode \<Rightarrow> anode tree \<Rightarrow> anode \<Rightarrow> anode \<Rightarrow> area_mem \<Rightarrow> bool" where
  "max_out h p d l m y h2 \<longleftrightarrow>
     (if m = y then Some (upd p (child_to d (Some m)) h) else detach_max m (upd p (child_to d (Some m)) h)) = Some h2 \<and>
     changes h h2 (insert p (set_tree l)) \<and> h2 m = h m \<and> h2 p = child_to d (Some m) (h p) \<and>
     (if m = y then bt h (Some m) (lchild (h m)) (without_max l) \<and> lchild (h m) = root_of (without_max l) \<and>
        (\<forall>z\<in>set_tree (without_max l). h2 z = h z)
      else bt h2 (Some d) (Some y) (without_max l))"

lemma max_outI:
  assumes "hung h p d l r" and "root_of l = Some y" and "last (inorder l) = m"
  shows "\<exists>h2. max_out h p d l m y h2"
proof -
  note links = hung_links[OF assms(1)] and nodes = hung_nodes[OF assms(1)]
  have mr: "m \<in> set_tree l" using assms(2,3) last_in_tree[of l] by (cases "l = \<langle>\<rangle>") auto
  let ?h1 = "upd p (child_to d (Some m)) h"
  have bt1: "bt ?h1 (Some d) (Some y) l" using bt_changes[OF _ changes_child] links(4) nodes assms(2) by auto
  have hm: "?h1 m = h m" using mr nodes by (auto simp: upd_apply)
  show ?thesis
  proof (cases "m = y")
    case True
    then obtain l2 where l2: "l = \<langle>l2, y, \<langle>\<rangle>\<rangle>" using max_is_root[OF assms(2)] assms(3) nodes(4) by blast
    then have b: "bt h (Some m) (lchild (h m)) l2" using links(4) True by auto
    show ?thesis using True l2 hm changes_child[of h p d "Some m"] b bt_root[OF b] nodes
      by (auto simp: max_out_def changes_def upd_apply)
  next
    case False
    from detach_max_bt[OF bt1 assms(3) False nodes(4)] obtain h2 where h2: "detach_max m ?h1 = Some h2"
      "bt h2 (Some d) (Some y) (without_max l)" "changes ?h1 h2 (set_tree l - {m})" "h2 m = ?h1 m" by blast
    have "changes h h2 (insert p (set_tree l))" by (rule changes_trans[OF changes_child h2(3)]) auto
    moreover have "h2 p = child_to d (Some m) (h p)" using h2(3) nodes(7) by (auto simp: changes_def)
    ultimately have "max_out h p d l m y h2" using False h2 hm by (auto simp: max_out_def)
    then show ?thesis by blast
  qed
qed

lemma max_placed:
  assumes "max_out h p d l m y h2" and "root_of l = Some y" and "last (inorder l) = m" and "distinct (inorder l)"
    and "lchild (h' m) = (if m = y then lchild (h m) else Some y)"
    and "m \<noteq> y \<Longrightarrow> h' y = (h2 y)\<lparr>parent := Some m\<rparr>"
    and "\<And>z. z \<in> set_tree l \<Longrightarrow> z \<noteq> m \<Longrightarrow> z \<noteq> y \<Longrightarrow> h' z = h2 z"
  shows "bt h' (Some m) (lchild (h' m)) (without_max l) \<and> lchild (h' m) = root_of (without_max l)"
proof (cases "m = y")
  case True
  have "same_links h h' z" if "z \<in> set_tree (without_max l)" for z
  proof -
    from that have "z \<in> set_tree l" "z \<noteq> m" using set_without_max[OF assms(4)] assms(3) by auto
    then have "h' z = h2 z" using assms(7) True by auto
    then show ?thesis using assms(1) that True by (simp add: max_out_def same_links_def)
  qed
  then show ?thesis using True assms(1,5) by (auto simp: max_out_def intro: bt_cong)
next
  case False
  have l: "root_of (without_max l) = Some y" using root_without_max assms(2,3) False by metis
  have b: "bt h2 (Some d) (Some y) (without_max l)" using assms(1) False by (simp add: max_out_def)
  have "bt h' (Some m) (Some y) (without_max l)"
    by (rule bt_reparent[OF b]) (use False assms set_without_max[OF assms(4)] in \<open>auto simp: same_links_def distinct_without_max\<close>)
  then show ?thesis using False assms(5) l by simp
qed

lemma replace_left:
  assumes "hung h p d l \<langle>\<rangle>" and "l \<noteq> \<langle>\<rangle>"
  shows "\<exists>h'. replace_node d h = Some h' \<and> replaced p d (joined l \<langle>\<rangle>) (set_tree \<langle>l, d, \<langle>\<rangle>\<rangle>) h h'"
proof -
  note links = hung_links[OF assms(1)] and nodes = hung_nodes[OF assms(1)]
  obtain y where y: "root_of l = Some y" using assms(2) by (cases l) auto
  obtain m where m: "last (inorder l) = m" by blast
  have gm: "get_max_node y h = Some m" using links(4) get_max_node_bt y m by metis
  have xy: "y \<in> set_tree l" "m \<in> set_tree l" using root_of_in y last_in_tree[OF assms(2)] m by auto
  have ne: "m \<noteq> p" "m \<noteq> d" "y \<noteq> p" "y \<noteq> d" using nodes xy by auto
  obtain h2 where h2: "max_out h p d l m y h2" using max_outI[OF assms(1) y m] by blast
  have ch2: "changes h h2 (insert p (set_tree l))" "h2 m = h m" "h2 p = child_to d (Some m) (h p)"
    using h2 by (auto simp: max_out_def)
  have h2o: "h2 z = h z" if "z \<noteq> p" "z \<notin> set_tree l" for z using that ch2(1) by (auto simp: changes_def)
  have h2d: "h2 d = h d" using h2o nodes by auto
  define h' where "h' = take_parent m d (if m = y then h2
      else upd y (\<lambda>a. a\<lparr>parent := Some m\<rparr>) (upd m (\<lambda>a. a\<lparr>lchild := Some y\<rparr>) h2))"
  have run: "replace_node d h = Some h'"
    using links y gm hung_redirect[OF assms(1), of "Some m"] h2 h2d ne
    by (auto simp: replace_node_def h'_def take_left_def upd_at_def upd_apply take_parent_def max_out_def)
  have h'm: "parent (h' m) = Some p" "rchild (h' m) = rchild (h m)" "lchild (h' m) = (if m = y then lchild (h m) else Some y)"
    using links ne ch2 h2d by (auto simp: h'_def take_parent_def upd_apply)
  have h'o: "h' z = h2 z" if "z \<noteq> m" "z \<noteq> y" for z using that by (auto simp: h'_def take_parent_def upd_apply)
  have h'y: "h' y = (h2 y)\<lparr>parent := Some m\<rparr>" if "m \<noteq> y" using that by (auto simp: h'_def take_parent_def upd_apply)
  have ch3: "changes h2 h' {m, y}"
    unfolding h'_def take_parent_def by (cases "m = y") (simp_all add: changes_upd_in changes_refl)
  have ch: "changes h h' (insert p (set_tree \<langle>l, d, \<langle>\<rangle>\<rangle>))"
    by (rule changes_trans[OF ch2(1) ch3]) (use xy in auto)
  have btr: "bt h' (Some m) (lchild (h' m)) (without_max l)"
    using max_placed[of h p d l m y h2 h', OF h2 y m nodes(4) h'm(3)] h'y h'o by blast
  have lm: "rchild (h m) = None" using max_no_right links(4) y m by metis
  have "joined l \<langle>\<rangle> = \<langle>without_max l, m, \<langle>\<rangle>\<rangle>" using assms(2) by (simp add: joined_def m)
  then have "replaced p d (joined l \<langle>\<rangle>) (set_tree \<langle>l, d, \<langle>\<rangle>\<rangle>) h h'"
    using btr ch h'm h'o ne ch2 lm by (auto simp: replaced_def)
  then show ?thesis using run by blast
qed

lemma replace_node_ok:
  assumes "hung h p d l r"
  shows "\<exists>h'. replace_node d h = Some h' \<and> replaced p d (joined l r) (set_tree \<langle>l, d, r\<rangle>) h h'"
proof (cases "r = \<langle>\<rangle>")
  case True
  then show ?thesis using assms replace_none[of h p d] replace_left[of h p d l]
    by (cases "l = \<langle>\<rangle>") (auto simp: joined_def)
next
  case False
  then show ?thesis using assms replace_right[of h p d r] replace_both[of h p d l r] by blast
qed

definition unlinked :: "area_mem \<Rightarrow> anode \<Rightarrow> bool" where
  "unlinked h d \<longleftrightarrow> parent (h d) = None \<and> lchild (h d) = None \<and> rchild (h d) = None"

lemma set_joined: "set_tree (joined l r) = set_tree l \<union> set_tree r"
  by (metis inorder_joined set_append set_inorder)

lemma delete_node_hung:
  assumes "hung h p d l r"
  shows "\<exists>h'. delete_node d h = Some h' \<and> bt h' (Some p) (root_of (joined l r)) (joined l r) \<and>
     changes h h' (insert p (set_tree \<langle>l, d, r\<rangle>)) \<and> h' p = child_to d (root_of (joined l r)) (h p) \<and> unlinked h' d"
proof -
  obtain h1 where h1: "replace_node d h = Some h1" "replaced p d (joined l r) (set_tree \<langle>l, d, r\<rangle>) h h1"
    using replace_node_ok[OF assms] by blast
  define h' where "h' = upd d (\<lambda>a. a\<lparr>parent := None, lchild := None, rchild := None\<rparr>) h1"
  have c: "changes h1 h' {d}" unfolding h'_def by (rule changes_upd) simp_all
  have "bt h' (Some p) (root_of (joined l r)) (joined l r)"
    by (rule bt_changes[OF _ c]) (use h1(2) hung_nodes[OF assms] in \<open>auto simp: replaced_def set_joined\<close>)
  moreover have "changes h h' (insert p (set_tree \<langle>l, d, r\<rangle>))"
    using h1(2) by (auto simp: replaced_def h'_def intro!: changes_upd_in)
  moreover have "h' p = child_to d (root_of (joined l r)) (h p)"
    using h1(2) hung_nodes(6)[OF assms] by (simp add: replaced_def h'_def)
  ultimately show ?thesis using h1(1) by (simp add: delete_node_def h'_def unlinked_def)
qed

lemma delete_node_bt:
  assumes "bt h par (Some y) t" and "distinct (inorder t)" and "d \<in> set_tree t" and "d \<noteq> y"
  shows "\<exists>h'. delete_node d h = Some h' \<and> bt h' par (Some y) (cut d t) \<and> changes h h' (set_tree t) \<and> unlinked h' d"
  using assms
proof (induction t arbitrary: par y)
  case (Node l x r)
  have x: "x = y" "parent (h y) = par" and l: "bt h (Some y) (lchild (h y)) l" and r: "bt h (Some y) (rchild (h y)) r"
    and y: "y \<notin> set_tree l" "y \<notin> set_tree r" and lr: "set_tree l \<inter> set_tree r = {}" "distinct (inorder l)" "distinct (inorder r)"
    using Node.prems by auto
  have "d \<in> set_tree l \<or> d \<in> set_tree r" using Node.prems x by auto
  then show ?case
  proof
    assume d: "d \<in> set_tree l"
    then have dr: "d \<notin> set_tree r" using lr by auto
    show ?thesis
    proof (cases "root_of l = Some d")
      case True
      then obtain a b where ab: "l = \<langle>a, d, b\<rangle>" by (cases l) auto
      have "hung h y d a b" unfolding hung_def using l lr y ab bt_root[OF l] by auto
      from delete_node_hung[OF this] obtain h' where h': "delete_node d h = Some h'"
          "bt h' (Some y) (root_of (joined a b)) (joined a b)" "changes h h' (insert y (set_tree l))"
          "h' y = child_to d (root_of (joined a b)) (h y)" "unlinked h' d" unfolding ab by blast
      have "rchild (h y) \<noteq> Some d" using bt_root[OF r] dr root_of_in by metis
      then have hy: "lchild (h' y) = root_of (joined a b)" "rchild (h' y) = rchild (h y)" "parent (h' y) = par"
        using h'(4) x by (auto simp: child_to_def)
      have "bt h' (Some y) (rchild (h y)) r" by (rule bt_changes[OF r h'(3)]) (use lr y in auto)
      then have "bt h' par (Some y) (cut d \<langle>l, x, r\<rangle>)"
        using h'(2) hy ab x Node.prems(4) cut_notin[OF dr] by auto
      moreover have "changes h h' (set_tree \<langle>l, x, r\<rangle>)" using h'(3) x by (auto simp: changes_def)
      ultimately show ?thesis using h'(1,5) by blast
    next
      case False
      then obtain z where z: "lchild (h y) = Some z" "d \<noteq> z" using bt_root[OF l] d by (cases l) auto
      from Node.IH(1)[OF l[unfolded z(1)] lr(2) d z(2)] obtain h' where h': "delete_node d h = Some h'"
        "bt h' (Some y) (Some z) (cut d l)" "changes h h' (set_tree l)" "unlinked h' d" by blast
      have "h' y = h y" using h'(3) y by (simp add: changes_def)
      moreover have "bt h' (Some y) (rchild (h y)) r" by (rule bt_changes[OF r h'(3)]) (use lr in auto)
      ultimately have "bt h' par (Some y) (cut d \<langle>l, x, r\<rangle>)" using h'(2) x z Node.prems(4) cut_notin[OF dr] by auto
      moreover have "changes h h' (set_tree \<langle>l, x, r\<rangle>)" using h'(3) by (auto simp: changes_def)
      ultimately show ?thesis using h'(1,4) by blast
    qed
  next
    assume d: "d \<in> set_tree r"
    then have dl: "d \<notin> set_tree l" using lr by auto
    show ?thesis
    proof (cases "root_of r = Some d")
      case True
      then obtain a b where ab: "r = \<langle>a, d, b\<rangle>" by (cases r) auto
      have "hung h y d a b" unfolding hung_def using r lr y ab bt_root[OF r] by auto
      from delete_node_hung[OF this] obtain h' where h': "delete_node d h = Some h'"
          "bt h' (Some y) (root_of (joined a b)) (joined a b)" "changes h h' (insert y (set_tree r))"
          "h' y = child_to d (root_of (joined a b)) (h y)" "unlinked h' d" unfolding ab by blast
      have "rchild (h y) = Some d" using bt_root[OF r] True by simp
      then have hy: "rchild (h' y) = root_of (joined a b)" "lchild (h' y) = lchild (h y)" "parent (h' y) = par"
        using h'(4) x by (auto simp: child_to_def)
      have "bt h' (Some y) (lchild (h y)) l" by (rule bt_changes[OF l h'(3)]) (use lr y in auto)
      then have "bt h' par (Some y) (cut d \<langle>l, x, r\<rangle>)"
        using h'(2) hy ab x Node.prems(4) cut_notin[OF dl] by auto
      moreover have "changes h h' (set_tree \<langle>l, x, r\<rangle>)" using h'(3) x by (auto simp: changes_def)
      ultimately show ?thesis using h'(1,5) by blast
    next
      case False
      then obtain z where z: "rchild (h y) = Some z" "d \<noteq> z" using bt_root[OF r] d by (cases r) auto
      from Node.IH(2)[OF r[unfolded z(1)] lr(3) d z(2)] obtain h' where h': "delete_node d h = Some h'"
        "bt h' (Some y) (Some z) (cut d r)" "changes h h' (set_tree r)" "unlinked h' d" by blast
      have "h' y = h y" using h'(3) y by (simp add: changes_def)
      moreover have "bt h' (Some y) (lchild (h y)) l" by (rule bt_changes[OF l h'(3)]) (use lr in auto)
      ultimately have "bt h' par (Some y) (cut d \<langle>l, x, r\<rangle>)" using h'(2) x z Node.prems(4) cut_notin[OF dl] by auto
      moreover have "changes h h' (set_tree \<langle>l, x, r\<rangle>)" using h'(3) by (auto simp: changes_def)
      ultimately show ?thesis using h'(1,4) by blast
    qed
  qed
qed simp

section \<open>Search trees\<close>

definition ordered :: "area_mem \<Rightarrow> anode list \<Rightarrow> bool" where
  "ordered h xs \<longleftrightarrow> sorted_wrt (<) (map (addr h) xs)"

lemma ordered_simps [simp]:
  "ordered h []" "ordered h (x # xs) \<longleftrightarrow> (\<forall>y\<in>set xs. addr h x < addr h y) \<and> ordered h xs"
  "ordered h (xs @ ys) \<longleftrightarrow> ordered h xs \<and> ordered h ys \<and> (\<forall>x\<in>set xs. \<forall>y\<in>set ys. addr h x < addr h y)"
  by (auto simp: ordered_def sorted_wrt_append)

lemma ordered_data: "same_data h h' \<Longrightarrow> ordered h' xs = ordered h xs"
  by (simp add: ordered_def same_data_def)

lemma ordered_distinct: "ordered h xs \<Longrightarrow> distinct xs"
  by (induction xs) auto

lemma ordered_remove1: "ordered h xs \<Longrightarrow> ordered h (remove1 x xs)"
  by (induction xs) (auto dest: set_mp[OF set_remove1_subset])

lemma search_bt:
  assumes "bt h par p t" and "ordered h (inorder t)"
  shows "search_btree_node p a h = Some (List.find (\<lambda>x. addr h x = a) (inorder t))"
  using assms
proof (induction t arbitrary: par p)
  case Leaf
  then show ?case by (subst search_btree_node.simps) simp
next
  case (Node l x r)
  have n: "List.find (\<lambda>y. addr h y = a) (inorder l) = None" if "addr h x \<le> a"
    using Node.prems that by (auto simp: find_None)
  have m: "List.find (\<lambda>y. addr h y = a) (inorder r) = None" if "a \<le> addr h x"
    using Node.prems that by (auto simp: find_None)
  have app: "List.find P (xs @ ys) = (case List.find P xs of None \<Rightarrow> List.find P ys | Some z \<Rightarrow> Some z)" for P and xs ys :: "anode list"
    by (induction xs) auto
  show ?case
    using Node n m by (subst search_btree_node.simps) (auto simp: app not_less split: option.split)
qed

lemma remove_bt:
  assumes "bt h par (Some y) t" and "ordered h (inorder t)" and "d \<in> set_tree t"
  shows "remove_btree_node y d h = delete_node d h"
  using assms
proof (induction t arbitrary: par y)
  case (Node l x r)
  have x: "x = y" using Node.prems by simp
  consider "d = x" | "d \<in> set_tree l" "addr h d < addr h x" | "d \<in> set_tree r" "addr h x < addr h d"
    using Node.prems by auto
  then show ?case
  proof cases
    case 1
    then show ?thesis using x by (subst remove_btree_node.simps) simp
  next
    case 2
    then obtain z where "lchild (h x) = Some z" using Node.prems by (cases l) auto
    then show ?thesis using 2 x Node by (subst remove_btree_node.simps) auto
  next
    case 3
    then obtain z where "rchild (h x) = Some z" using Node.prems by (cases r) auto
    then show ?thesis using 3 x Node by (subst remove_btree_node.simps) auto
  qed
qed simp

lemma remove_btree_node_bt:
  assumes "bt h par (Some y) t" and "ordered h (inorder t)" and "d \<in> set_tree t" and "d \<noteq> y"
  shows "\<exists>h'. remove_btree_node y d h = Some h' \<and> bt h' par (Some y) (cut d t) \<and>
     inorder (cut d t) = remove1 d (inorder t) \<and> changes h h' (set_tree t) \<and> unlinked h' d"
  using delete_node_bt[OF assms(1) ordered_distinct[OF assms(2)] assms(3,4)] remove_bt[OF assms(1-3)]
    inorder_cut[OF ordered_distinct[OF assms(2)]] by simp

lemma add_btree_node_bt:
  assumes "bt h par (Some y) t" and "ordered h (inorder t)" and "n \<notin> set_tree t"
    and "\<forall>x\<in>set_tree t. addr h x \<noteq> addr h n" and "lchild (h n) = None" and "rchild (h n) = None"
  shows "\<exists>h' t'. add_btree_node y n h = Some h' \<and> bt h' par (Some y) t' \<and> set_tree t' = insert n (set_tree t) \<and>
     ordered h (inorder t') \<and> changes h h' (insert n (set_tree t))"
  using assms
proof (induction t arbitrary: par y)
  case (Node l x r)
  have x: "x = y" "parent (h y) = par" and l: "bt h (Some y) (lchild (h y)) l" and r: "bt h (Some y) (rchild (h y)) r"
    and y: "y \<notin> set_tree l" "y \<notin> set_tree r" and lr: "set_tree l \<inter> set_tree r = {}"
    and o: "ordered h (inorder l)" "ordered h (inorder r)" and n: "n \<noteq> y" "n \<notin> set_tree l" "n \<notin> set_tree r"
    using Node.prems ordered_distinct[OF Node.prems(2)] by auto
  have ne: "addr h n \<noteq> addr h y" using Node.prems(4) x by force
  show ?case
  proof (cases "addr h n < addr h y")
    case True
    show ?thesis
    proof (cases "lchild (h y)")
      case None
      then have e: "l = \<langle>\<rangle>" using bt_root[OF l] by (cases l) auto
      let ?h = "upd n (\<lambda>a. a\<lparr>parent := Some y\<rparr>) (upd y (\<lambda>a. a\<lparr>lchild := Some n\<rparr>) h)"
      have c: "changes h ?h {n, y}" by (intro changes_upd_in changes_refl) auto
      have "bt ?h (Some y) (rchild (h y)) r" by (rule bt_changes[OF r c]) (use n y in auto)
      then have "bt ?h par (Some y) \<langle>\<langle>\<langle>\<rangle>, n, \<langle>\<rangle>\<rangle>, x, r\<rangle>" using x n Node.prems(5,6) by (simp add: upd_apply)
      moreover have "add_btree_node y n h = Some ?h" using True None by (subst add_btree_node.simps) simp
      moreover have "ordered h (inorder \<langle>\<langle>\<langle>\<rangle>, n, \<langle>\<rangle>\<rangle>, x, r\<rangle>)" using Node.prems(2) True x by auto
      moreover have "changes h ?h (insert n (set_tree \<langle>l, x, r\<rangle>))" using c x by (auto simp: changes_def)
      ultimately show ?thesis using e by (intro exI[of _ ?h] exI[of _ "\<langle>\<langle>\<langle>\<rangle>, n, \<langle>\<rangle>\<rangle>, x, r\<rangle>"]) auto
    next
      case (Some z)
      have "\<forall>w\<in>set_tree l. addr h w \<noteq> addr h n" using Node.prems(4) by auto
      from Node.IH(1)[OF l[unfolded Some] o(1) n(2) this Node.prems(5,6)] obtain h' t' where h':
        "add_btree_node z n h = Some h'" "bt h' (Some y) (Some z) t'" "set_tree t' = insert n (set_tree l)"
        "ordered h (inorder t')" "changes h h' (insert n (set_tree l))" by blast
      have "h' y = h y" using h'(5) y n by (simp add: changes_def)
      moreover have "bt h' (Some y) (rchild (h y)) r" by (rule bt_changes[OF r h'(5)]) (use n lr in auto)
      ultimately have "bt h' par (Some y) \<langle>t', x, r\<rangle>" using x Some h'(2) by simp
      moreover have "add_btree_node y n h = Some h'" using True Some h'(1) by (subst add_btree_node.simps) simp
      moreover have "ordered h (inorder \<langle>t', x, r\<rangle>)" using Node.prems(2) h'(3,4) True x by auto
      moreover have "changes h h' (insert n (set_tree \<langle>l, x, r\<rangle>))" using h'(5) by (auto simp: changes_def)
      ultimately show ?thesis using h'(3) by (intro exI[of _ h'] exI[of _ "\<langle>t', x, r\<rangle>"]) auto
    qed
  next
    case False
    then have gt: "addr h y < addr h n" using ne by simp
    show ?thesis
    proof (cases "rchild (h y)")
      case None
      then have e: "r = \<langle>\<rangle>" using bt_root[OF r] by (cases r) auto
      let ?h = "upd n (\<lambda>a. a\<lparr>parent := Some y\<rparr>) (upd y (\<lambda>a. a\<lparr>rchild := Some n\<rparr>) h)"
      have c: "changes h ?h {n, y}" by (intro changes_upd_in changes_refl) auto
      have "bt ?h (Some y) (lchild (h y)) l" by (rule bt_changes[OF l c]) (use n y in auto)
      then have "bt ?h par (Some y) \<langle>l, x, \<langle>\<langle>\<rangle>, n, \<langle>\<rangle>\<rangle>\<rangle>" using x n Node.prems(5,6) by (simp add: upd_apply)
      moreover have "add_btree_node y n h = Some ?h" using gt False None by (subst add_btree_node.simps) simp
      moreover have "ordered h (inorder \<langle>l, x, \<langle>\<langle>\<rangle>, n, \<langle>\<rangle>\<rangle>\<rangle>)" using Node.prems(2) gt x by auto
      moreover have "changes h ?h (insert n (set_tree \<langle>l, x, r\<rangle>))" using c x by (auto simp: changes_def)
      ultimately show ?thesis using e by (intro exI[of _ ?h] exI[of _ "\<langle>l, x, \<langle>\<langle>\<rangle>, n, \<langle>\<rangle>\<rangle>\<rangle>"]) auto
    next
      case (Some z)
      have "\<forall>w\<in>set_tree r. addr h w \<noteq> addr h n" using Node.prems(4) by auto
      from Node.IH(2)[OF r[unfolded Some] o(2) n(3) this Node.prems(5,6)] obtain h' t' where h':
        "add_btree_node z n h = Some h'" "bt h' (Some y) (Some z) t'" "set_tree t' = insert n (set_tree r)"
        "ordered h (inorder t')" "changes h h' (insert n (set_tree r))" by blast
      have "h' y = h y" using h'(5) y n by (simp add: changes_def)
      moreover have "bt h' (Some y) (lchild (h y)) l" by (rule bt_changes[OF l h'(5)]) (use n lr in auto)
      ultimately have "bt h' par (Some y) \<langle>l, x, t'\<rangle>" using x Some h'(2) by simp
      moreover have "add_btree_node y n h = Some h'" using gt False Some h'(1) by (subst add_btree_node.simps) simp
      moreover have "ordered h (inorder \<langle>l, x, t'\<rangle>)" using Node.prems(2) h'(3,4) gt x by auto
      moreover have "changes h h' (insert n (set_tree \<langle>l, x, r\<rangle>))" using h'(5) by (auto simp: changes_def)
      ultimately show ?thesis using h'(3) by (intro exI[of _ h'] exI[of _ "\<langle>l, x, t'\<rangle>"]) auto
    qed
  qed
qed simp

section \<open>Sorted chains\<close>

text \<open>A list of free areas is a tree without left children.\<close>

fun chain :: "'a list \<Rightarrow> 'a tree" where
  "chain [] = \<langle>\<rangle>" | "chain (x # xs) = \<langle>\<langle>\<rangle>, x, chain xs\<rangle>"

lemma inorder_chain [simp]: "inorder (chain xs) = xs"
  by (induction xs) auto

lemma set_chain [simp]: "set_tree (chain xs) = set xs"
  by (induction xs) auto

lemma chain_Leaf [simp]: "chain xs = \<langle>\<rangle> \<longleftrightarrow> xs = []"
  by (cases xs) auto

lemma root_of_chain: "root_of (chain xs) = (case xs of [] \<Rightarrow> None | x # _ \<Rightarrow> Some x)"
  by (cases xs) auto

lemma cut_chain: "distinct xs \<Longrightarrow> cut d (chain xs) = chain (remove1 d xs)"
proof (induction xs)
  case (Cons x xs)
  have "joined \<langle>\<rangle> (chain xs) = chain xs" by (cases xs) (auto simp: joined_def)
  then show ?case using Cons by auto
qed simp

lemma bt_chain_next: "bt h par (Some y) (chain (y # xs)) \<Longrightarrow> rchild (h y) = (case xs of [] \<Rightarrow> None | x # _ \<Rightarrow> Some x)"
  using bt_root root_of_chain by (auto dest!: bt_root)

lemma add_sorted_btree_node_chain:
  assumes "bt h par (Some y) (chain (y # xs))" and "ordered h (y # xs)" and "n \<noteq> y" and "n \<notin> set xs"
    and "\<forall>x\<in>set xs. addr h x \<noteq> addr h n" and "addr h y < addr h n" and "lchild (h n) = None" and "rchild (h n) = None"
  shows "\<exists>h' ys. add_sorted_btree_node y n h = Some h' \<and> bt h' par (Some y) (chain (y # ys)) \<and>
     set ys = insert n (set xs) \<and> ordered h (y # ys) \<and> changes h h' (insert n (insert y (set xs)))"
  using assms
proof (induction xs arbitrary: par y)
  case Nil
  let ?h = "upd n (\<lambda>a. a\<lparr>parent := Some y\<rparr>) (upd y (\<lambda>a. a\<lparr>rchild := Some n\<rparr>) h)"
  have "changes h ?h {n, y}" by (intro changes_upd_in changes_refl) auto
  moreover have "add_sorted_btree_node y n h = Some ?h" using Nil by (subst add_sorted_btree_node.simps) auto
  moreover have "bt ?h par (Some y) (chain [y, n])" using Nil by (auto simp: upd_apply)
  ultimately show ?case using Nil by (intro exI[of _ ?h] exI[of _ "[n]"]) auto
next
  case (Cons x xs)
  have y: "parent (h y) = par" "lchild (h y) = None" "rchild (h y) = Some x" and b: "bt h (Some y) (Some x) (chain (x # xs))"
    using Cons.prems(1) by auto
  have d: "x \<noteq> y" "n \<noteq> x" "x \<notin> set xs" "y \<notin> set xs" using Cons.prems ordered_distinct[OF Cons.prems(2)] by auto
  show ?case
  proof (cases "addr h n < addr h x")
    case True
    let ?h = "upd y (\<lambda>a. a\<lparr>rchild := Some n\<rparr>) (upd x (\<lambda>a. a\<lparr>parent := Some n\<rparr>)
       (upd n (\<lambda>a. a\<lparr>rchild := Some x\<rparr>) (upd n (\<lambda>a. a\<lparr>parent := Some y\<rparr>) h)))"
    have c: "changes h ?h {n, y, x}" by (intro changes_upd_in changes_refl) auto
    have "bt h (Some x) (rchild (h x)) (chain xs)" using b by auto
    then have "bt ?h (Some x) (rchild (h x)) (chain xs)"
      by (rule bt_changes[OF _ c]) (use Cons.prems d in auto)
    then have "bt ?h par (Some y) (chain (y # n # x # xs))" using y d b Cons.prems by (auto simp: upd_apply)
    moreover have "add_sorted_btree_node y n h = Some ?h" using True y Cons.prems(6)
      by (subst add_sorted_btree_node.simps) auto
    moreover have "ordered h (y # n # x # xs)" using True Cons.prems by auto
    moreover have "changes h ?h (insert n (insert y (set (x # xs))))" using c by (auto simp: changes_def)
    ultimately show ?thesis by (intro exI[of _ ?h] exI[of _ "n # x # xs"]) auto
  next
    case False
    then have "addr h x < addr h n" using Cons.prems(5) by force
    from Cons.IH[OF b _ _ _ _ this Cons.prems(7,8)] obtain h' ys where h': "add_sorted_btree_node x n h = Some h'"
      "bt h' (Some y) (Some x) (chain (x # ys))" "set ys = insert n (set xs)" "ordered h (x # ys)"
      "changes h h' (insert n (insert x (set xs)))" using Cons.prems by auto
    have "h' y = h y" using h'(5) d Cons.prems by (simp add: changes_def)
    then have "bt h' par (Some y) (chain (y # x # ys))" using y h'(2) by simp
    moreover have "add_sorted_btree_node y n h = Some h'" using False y Cons.prems(6) h'(1)
      by (subst add_sorted_btree_node.simps) auto
    moreover have "ordered h (y # x # ys)" using h' Cons.prems by auto
    moreover have "changes h h' (insert n (insert y (set (x # xs))))" using h'(5) by (auto simp: changes_def)
    ultimately show ?thesis using h'(3) by (intro exI[of _ h'] exI[of _ "x # ys"]) auto
  qed
qed

end
