(* ===== verification/Buddy.thy ===== *)
theory Buddy
  imports CMath Buddy_Tree
begin

text \<open>
  The buddy allocator, \<^verbatim>\<open>lib/common/sw_buddy.c\<close>, over the trees of theory Buddy_Tree.  The pool keeps
  a tree of the allocated blocks and one sorted chain of free blocks for each bin; the descriptors
  come from an array at the start of the pool.  Accessing \<^verbatim>\<open>free_area\<close> beyond its \<^verbatim>\<open>MAX_BINS\<close>
  elements is \<open>None\<close>.  The invariant \<open>buddy_inv\<close> says that live blocks never overlap.
\<close>

definition MAX_BINS :: nat where "MAX_BINS = 20"

record sw_buddy_pool =
  areas :: area_mem
  total_area_cnt :: u32
  next_free_index :: u32
  alloc_cnt :: u32
  mem_start :: u32
  mem_size :: u32
  pool_start :: u32
  pool_size :: u32
  max_alloc_size :: u32
  min_alloc_size :: u32
  curr_heap_size :: u32
  max_bin :: u32

definition empty_area :: sw_area where
  "empty_area = \<lparr>parent = None, lchild = None, rchild = None, mem_addr = 0, block_size = 0, bin = 0, cnt = 0\<rparr>"

definition set_areas :: "area_mem \<Rightarrow> sw_buddy_pool \<Rightarrow> sw_buddy_pool" where
  "set_areas h p = p\<lparr>areas := h\<rparr>"

definition upd_area :: "anode \<Rightarrow> (sw_area \<Rightarrow> sw_area) \<Rightarrow> sw_buddy_pool \<Rightarrow> sw_buddy_pool" where
  "upd_area x f p = p\<lparr>areas := upd x f (areas p)\<rparr>"

definition free_head :: "nat \<Rightarrow> anode option" where
  "free_head b = (if b < MAX_BINS then Some (Free_Area b) else None)"

section \<open>Descriptors\<close>

definition get_free_node :: "sw_buddy_pool \<Rightarrow> anode option \<times> sw_buddy_pool" where
  "get_free_node p =
     (let start = nat (sint (next_free_index p)); total = nat (sint (total_area_cnt p));
          unused = (\<lambda>i. addr (areas p) (Area i) = 0)
      in case List.find unused [start..<total] of
           Some i \<Rightarrow> (Some (Area i), upd_area (Area i) (\<lambda>_. empty_area)
                       (p\<lparr>next_free_index := if of_nat (i + 1) \<noteq> total_area_cnt p then of_nat (i + 1) else 0\<rparr>))
         | None \<Rightarrow>
           (case List.find unused [0..<start] of
              Some i \<Rightarrow> (Some (Area i), upd_area (Area i) (\<lambda>_. empty_area) (p\<lparr>next_free_index := of_nat (i + 1)\<rparr>))
            | None \<Rightarrow> (None, p)))"

section \<open>Taking blocks\<close>

definition remove_from :: "anode option \<Rightarrow> anode \<Rightarrow> area_mem \<Rightarrow> area_mem option" where
  "remove_from q d h = (case q of None \<Rightarrow> Some h | Some x \<Rightarrow> remove_btree_node x d h)"

definition take_node :: "nat \<Rightarrow> anode \<Rightarrow> sw_buddy_pool \<Rightarrow> sw_buddy_pool option" where
  "take_node b x p = do {
     hd \<leftarrow> free_head b;
     h \<leftarrow> remove_from (parent (areas p x)) x (areas p);
     Some (upd_area hd (\<lambda>a. a\<lparr>cnt := cnt a - 1\<rparr>) (set_areas h p))
   }"

partial_function (option) scan_run ::
    "u32 \<Rightarrow> u32 \<Rightarrow> u32 \<Rightarrow> (anode \<times> anode) option \<Rightarrow> anode option \<Rightarrow> area_mem \<Rightarrow> (anode option \<times> u32) option" where
  "scan_run sz num count fp cur h =
     (case cur of
        None \<Rightarrow> Some (map_option fst fp, count)
      | Some c \<Rightarrow>
          (case fp of
             None \<Rightarrow> scan_run sz num count (Some (c, c)) (rchild (h c)) h
           | Some (f, q) \<Rightarrow>
               if addr h q + sz = addr h c
               then if count + 1 = num then Some (Some f, count + 1)
                    else scan_run sz num (count + 1) (Some (f, c)) (Some c) h
               else scan_run sz num 1 (Some (c, c)) (rchild (h c)) h))"

fun take_run :: "nat \<Rightarrow> anode option \<Rightarrow> nat \<Rightarrow> sw_buddy_pool \<Rightarrow> sw_buddy_pool option" where
  "take_run b cur 0 p = Some p"
| "take_run b cur (Suc n) p = do {
     c \<leftarrow> cur;
     let nxt = rchild (areas p c) in do {
       p' \<leftarrow> take_node b c p;
       take_run b nxt n p'
     }
   }"

definition get_contiguous_block :: "u32 \<Rightarrow> u32 \<Rightarrow> sw_buddy_pool \<Rightarrow> (anode option \<times> sw_buddy_pool) option" where
  "get_contiguous_block num_blocks b p =
     (if b > max_bin p then Some (None, p)
      else do {
        hd \<leftarrow> free_head (unat b);
        if rchild (areas p hd) = None then Some (None, p)
        else if cnt (areas p hd) < num_blocks then Some (None, p)
        else do {
          (first, count) \<leftarrow> scan_run (max_alloc_size p) num_blocks 1 None (rchild (areas p hd)) (areas p);
          if first = None \<or> count \<noteq> num_blocks then Some (None, p)
          else map_option (\<lambda>p. (first, p)) (take_run (unat b) first (unat count) p)
        }
      })"

definition is_empty_bin :: "nat \<Rightarrow> sw_buddy_pool \<Rightarrow> bool option" where
  "is_empty_bin b p = map_option (\<lambda>hd. rchild (areas p hd) = None) (free_head b)"

fun first_bin :: "nat list \<Rightarrow> sw_buddy_pool \<Rightarrow> nat option option" where
  "first_bin [] p = Some None"
| "first_bin (i # is) p = do {
     e \<leftarrow> is_empty_bin i p;
     if e then first_bin is p else Some (Some i)
   }"

text \<open>The inner loop: the block \<open>node\<close> is halved from bin \<open>idx2\<close> down to bin \<open>b\<close>; each upper half
  becomes a free block.\<close>

fun split_loop :: "anode \<Rightarrow> nat \<Rightarrow> nat \<Rightarrow> sw_buddy_pool \<Rightarrow> (anode option \<times> sw_buddy_pool) option" where
  "split_loop node b 0 p = Some (None, p)"
| "split_loop node b (Suc i) p =
     (if b < Suc i then
        (case get_free_node p of
           (None, p) \<Rightarrow> Some (None, p)
         | (Some f, p) \<Rightarrow>
             let sz = push_bit i (min_alloc_size p);
                 p = upd_area f (\<lambda>a. a\<lparr>bin := of_nat i, block_size := sz,
                       mem_addr := addr (areas p) node + sz\<rparr>) p
             in do {
               hd \<leftarrow> free_head i;
               h \<leftarrow> add_sorted_btree_node hd f (areas p);
               let p = upd_area hd (\<lambda>a. a\<lparr>cnt := cnt a + 1\<rparr>) (set_areas h p) in
               if b = i then Some (Some node, upd_area node (\<lambda>a. a\<lparr>block_size := sz, bin := of_nat i\<rparr>) p)
               else split_loop node b i p
             })
      else Some (None, p))"

definition get_free_buddy :: "nat \<Rightarrow> sw_buddy_pool \<Rightarrow> (anode option \<times> sw_buddy_pool) option" where
  "get_free_buddy b p = do {
     i \<leftarrow> first_bin [b..<unat (max_bin p) + 1] p;
     case i of
       None \<Rightarrow> Some (None, p)
     | Some idx \<Rightarrow> do {
         hd \<leftarrow> free_head idx;
         node \<leftarrow> rchild (areas p hd);
         p \<leftarrow> take_node idx node p;
         if idx = b then Some (Some node, p) else split_loop node b idx p
       }
   }"

section \<open>Returning blocks\<close>

definition merge_pair :: "nat \<Rightarrow> anode \<Rightarrow> anode \<Rightarrow> sw_buddy_pool \<Rightarrow> sw_buddy_pool option" where
  "merge_pair idx f m p = do {
     hd \<leftarrow> free_head idx;
     hd1 \<leftarrow> free_head (idx + 1);
     h \<leftarrow> remove_btree_node hd f (areas p);
     h \<leftarrow> remove_btree_node hd m h;
     let p = upd_area hd (\<lambda>a. a\<lparr>cnt := cnt a - 2\<rparr>) (set_areas h p);
         buddy = addr (areas p) f + push_bit idx (min_alloc_size p);
         swapped = buddy < addr (areas p) f;
         keep = (if swapped then m else f);
         p = upd_area (if swapped then f else m) (\<lambda>a. a\<lparr>mem_addr := 0\<rparr>) p;
         p = upd_area keep (\<lambda>a. a\<lparr>bin := of_nat (idx + 1), block_size := push_bit (idx + 1) (min_alloc_size p)\<rparr>) p;
         p = upd_area hd1 (\<lambda>a. a\<lparr>cnt := cnt a + 1\<rparr>) p
     in map_option (\<lambda>h. set_areas h p) (add_sorted_btree_node hd1 keep (areas p))
   }"

fun merge_loop :: "anode \<Rightarrow> nat list \<Rightarrow> sw_buddy_pool \<Rightarrow> sw_buddy_pool option" where
  "merge_loop temp [] p = Some p"
| "merge_loop temp (idx # is) p = do {
     hd \<leftarrow> free_head idx;
     case rchild (areas p hd) of
       None \<Rightarrow> Some p
     | Some f \<Rightarrow> do {
         r \<leftarrow> search_btree_node (Some hd) (addr (areas p) f + push_bit idx (min_alloc_size p)) (areas p);
         case r of
           Some m \<Rightarrow> do {
             p \<leftarrow> merge_pair idx f m p;
             if of_nat (idx + 1) = max_bin p then Some p else merge_loop temp is p
           }
         | None \<Rightarrow> if temp = f then Some p else merge_loop temp is p
       }
   }"

definition return_to_free_area :: "anode \<Rightarrow> u32 \<Rightarrow> sw_buddy_pool \<Rightarrow> sw_buddy_pool option" where
  "return_to_free_area x b p = do {
     hd \<leftarrow> free_head (unat b);
     let p = upd_area x (\<lambda>a. a\<lparr>bin := b, block_size := push_bit (unat b) (min_alloc_size p)\<rparr>) p;
         p = upd_area hd (\<lambda>a. a\<lparr>cnt := cnt a + 1\<rparr>) p
     in do {
       h \<leftarrow> add_sorted_btree_node hd x (areas p);
       if b = max_bin p then Some (set_areas h p)
       else merge_loop x [unat b..<unat (max_bin p) + 1] (set_areas h p)
     }
   }"

section \<open>The interface\<close>

definition sizeof_sw_area :: u32 where "sizeof_sw_area = 28"

definition get_manage_area :: "u32 \<Rightarrow> u32 \<Rightarrow> u32" where
  "get_manage_area heap_size min_size =
     (let len = drop_bit (unat (log_of_2 min_size)) heap_size * sizeof_sw_area
      in if len AND (PAGE_SIZE - 1) \<noteq> 0 then (len AND NOT (PAGE_SIZE - 1)) + PAGE_SIZE else len)"

fun init_nodes :: "nat \<Rightarrow> u32 \<Rightarrow> u32 \<Rightarrow> sw_buddy_pool \<Rightarrow> (sw_buddy_pool \<times> unit sw_result) option" where
  "init_nodes 0 start b p = Some (p, Inr ())"
| "init_nodes (Suc n) start b p =
     (case get_free_node p of
        (None, p) \<Rightarrow> Some (p, Inl SW_ENODATA)
      | (Some f, p) \<Rightarrow> do {
          hd \<leftarrow> free_head (unat b);
          let p = upd_area f (\<lambda>a. a\<lparr>mem_addr := start, bin := b, block_size := max_alloc_size p\<rparr>) p in do {
            h \<leftarrow> add_sorted_btree_node hd f (areas p);
            init_nodes n (start + max_alloc_size p) b
              (upd_area hd (\<lambda>a. a\<lparr>cnt := cnt a + 1\<rparr>) (set_areas h p))
          }
        })"

definition clear_areas :: "nat \<Rightarrow> area_mem \<Rightarrow> area_mem" where
  "clear_areas n h = (\<lambda>x. case x of
      Alloc_Tree \<Rightarrow> empty_area
    | Free_Area b \<Rightarrow> if b < MAX_BINS then empty_area else h x
    | Area i \<Rightarrow> if i < n then empty_area else h x)"

definition sw_buddy_init ::
    "sw_buddy_pool \<Rightarrow> u32 \<Rightarrow> u64 \<Rightarrow> u32 \<Rightarrow> u32 \<Rightarrow> (sw_buddy_pool \<times> unit sw_result) option" where
  "sw_buddy_init p start sz min_size max_size =
     (if \<not> is_pow_of_2 (ucast min_size) then Some (p, Inl SW_EINVAL)
      else if \<not> is_pow_of_2 (ucast max_size) then Some (p, Inl SW_EINVAL)
      else
        let min_shift = log_of_2 min_size; max_shift = log_of_2 max_size;
            p = p\<lparr>total_area_cnt := drop_bit (unat min_shift) max_size\<rparr>;
            manage = get_manage_area max_size min_size;
            nodes = drop_bit (unat max_shift) max_size;
            b = (if nodes > 0 then max_shift - min_shift + 1 else log_of_2 (total_area_cnt p));
            total = (if nodes > 0 then nodes else 1)
        in if max_shift - min_shift + 1 > of_nat MAX_BINS then Some (p, Inl SW_EINVAL)
        else
          let p = p\<lparr>next_free_index := 0, alloc_cnt := 0, areas := (areas p)(Alloc_Tree := empty_area)\<rparr>;
              msize = sz - ucast manage
          in if msize = 0 then Some (p, Inl SW_EINVAL)
          else init_nodes (unat total) (start + manage) b
                 (p\<lparr>mem_start := start + manage, mem_size := ucast msize, curr_heap_size := ucast msize,
                    pool_start := start, pool_size := ucast sz,
                    areas := clear_areas (unat (total_area_cnt p)) (areas p),
                    min_alloc_size := min_size, max_alloc_size := max_size, max_bin := b\<rparr>))"

definition add_allocated :: "anode \<Rightarrow> sw_buddy_pool \<Rightarrow> (u32 \<times> sw_buddy_pool) option" where
  "add_allocated node p =
     map_option (\<lambda>h. (addr h node, p\<lparr>curr_heap_size := curr_heap_size p - block_size (areas p node),
         areas := h, alloc_cnt := alloc_cnt p + 1\<rparr>))
       (add_btree_node Alloc_Tree node (areas p))"

definition sw_buddy_alloc :: "u32 \<Rightarrow> sw_buddy_pool \<Rightarrow> (u32 \<times> sw_buddy_pool) option" where
  "sw_buddy_alloc sz p =
     (if sz > curr_heap_size p then Some (0, p)
      else let next_pow = next_pow_of_2 sz in
        if next_pow > curr_heap_size p then Some (0, p)
        else if next_pow > max_alloc_size p then do {
          (r, p) \<leftarrow> get_contiguous_block (drop_bit (unat (max_bin p)) next_pow) (max_bin p) p;
          case r of
            Some node \<Rightarrow> add_allocated node (upd_area node (\<lambda>a. a\<lparr>block_size := next_pow\<rparr>) p)
          | None \<Rightarrow> Some (0, p)
        }
        else do {
          (r, p) \<leftarrow> get_free_buddy (unat (log_of_2 (drop_bit (unat (log_of_2 (min_alloc_size p))) next_pow))) p;
          case r of
            Some node \<Rightarrow> add_allocated node p
          | None \<Rightarrow> Some (0, p)
        })"

definition sw_buddy_free :: "u32 \<Rightarrow> sw_buddy_pool \<Rightarrow> sw_buddy_pool option" where
  "sw_buddy_free ptr p = do {
     r \<leftarrow> search_btree_node (Some Alloc_Tree) ptr (areas p);
     case r of
       None \<Rightarrow> Some p
     | Some node \<Rightarrow> do {
         h \<leftarrow> remove_btree_node Alloc_Tree node (areas p);
         return_to_free_area node (bin (areas p node))
           (p\<lparr>curr_heap_size := curr_heap_size p + block_size (areas p node), areas := h, alloc_cnt := alloc_cnt p - 1\<rparr>)
       }
   }"

definition get_buddy_ptr_size :: "sw_buddy_pool \<Rightarrow> u32 \<Rightarrow> u32 option" where
  "get_buddy_ptr_size p ptr =
     map_option (\<lambda>r. case r of None \<Rightarrow> 0 | Some node \<Rightarrow> block_size (areas p node))
       (search_btree_node (Some Alloc_Tree) ptr (areas p))"

declare scan_run.simps [code]

section \<open>Blocks that do not overlap\<close>

text \<open>\<open>apart lo hi a z S\<close>: the blocks of \<open>z x\<close> bytes at \<open>a x\<close> lie in \<open>lo..hi\<close> and are disjoint.\<close>

definition apart :: "nat \<Rightarrow> nat \<Rightarrow> ('x \<Rightarrow> nat) \<Rightarrow> ('x \<Rightarrow> nat) \<Rightarrow> 'x set \<Rightarrow> bool" where
  "apart lo hi a z S \<longleftrightarrow>
     (\<forall>x\<in>S. 0 < z x \<and> lo \<le> a x \<and> a x + z x \<le> hi) \<and>
     (\<forall>x\<in>S. \<forall>y\<in>S. x \<noteq> y \<longrightarrow> a x + z x \<le> a y \<or> a y + z y \<le> a x)"

lemma apart_subset: "apart lo hi a z S \<Longrightarrow> R \<subseteq> S \<Longrightarrow> apart lo hi a z R"
  unfolding apart_def by (meson subsetD)

lemma apart_cong: "apart lo hi a z S \<Longrightarrow> (\<And>x. x \<in> S \<Longrightarrow> a' x = a x \<and> z' x = z x) \<Longrightarrow> apart lo hi a' z' S"
  unfolding apart_def by (metis (no_types, lifting))

lemma apart_inj: "apart lo hi a z S \<Longrightarrow> x \<in> S \<Longrightarrow> y \<in> S \<Longrightarrow> a x = a y \<Longrightarrow> x = y"
  by (force simp: apart_def)

lemma apart_pair: "apart lo hi a z S \<Longrightarrow> x \<in> S \<Longrightarrow> y \<in> S \<Longrightarrow> x \<noteq> y \<Longrightarrow> a x + z x \<le> a y \<or> a y + z y \<le> a x"
  by (simp add: apart_def)

lemma apart_bound: "apart lo hi a z S \<Longrightarrow> x \<in> S \<Longrightarrow> 0 < z x \<and> lo \<le> a x \<and> a x + z x \<le> hi"
  by (simp add: apart_def)

lemma apart_split:
  assumes "apart lo hi a z S" and "x \<in> S" and "y \<notin> S" and "z x = m + m" and "0 < m"
  shows "apart lo hi (a(y := a x + m)) (z(x := m, y := m)) (insert y S)"
proof -
  have x: "lo \<le> a x" "a x + z x \<le> hi" using assms by (auto simp: apart_def)
  have o: "a x + z x \<le> a w \<or> a w + z w \<le> a x" if "w \<in> S" "w \<noteq> x" for w
    using apart_pair[OF assms(1,2) that(1)] that(2) by auto
  have 1: "\<forall>v\<in>insert y S. 0 < (z(x := m, y := m)) v \<and> lo \<le> (a(y := a x + m)) v \<and>
      (a(y := a x + m)) v + (z(x := m, y := m)) v \<le> hi"
    using assms x by (auto simp: apart_def)
  have 2: "(a(y := a x + m)) v + (z(x := m, y := m)) v \<le> (a(y := a x + m)) w \<or>
      (a(y := a x + m)) w + (z(x := m, y := m)) w \<le> (a(y := a x + m)) v"
    if vw: "v \<in> insert y S" "w \<in> insert y S" "v \<noteq> w" for v w
  proof -
    have s: "v \<in> S \<Longrightarrow> w \<in> S \<Longrightarrow> a v + z v \<le> a w \<or> a w + z w \<le> a v" using assms(1) vw(3) by (auto simp: apart_def)
    show ?thesis
    proof (cases "v = y \<or> w = y")
      case True
      have xy: "x \<noteq> y" using assms(2,3) by auto
      have up: "(a(y := a x + m)) y + m \<le> a u \<or> a u + (z(x := m, y := m)) u \<le> a x + m" if "u \<in> S" "u \<noteq> y" for u
        using o[of u] that assms(4) by (cases "u = x") auto
      show ?thesis using True vw up[of v] up[of w] xy by auto
    next
      case False
      then have "v \<in> S" "w \<in> S" using vw by auto
      then show ?thesis using False vw(3) s assms(4) by (cases "v = x"; cases "w = x") auto
    qed
  qed
  show ?thesis unfolding apart_def using 1 2 by blast
qed

lemma apart_merge:
  assumes "apart lo hi a z S" and "x \<in> S" and "y \<in> S" and "x \<noteq> y" and "a y = a x + m" and "z x = m" and "z y = m"
  shows "apart lo hi a (z(x := m + m)) (S - {y})"
proof -
  have xy: "lo \<le> a x" "0 < m" "a y + m \<le> hi" using assms by (auto simp: apart_def)
  have o: "(a x + m \<le> a w \<or> a w + z w \<le> a x) \<and> (a y + m \<le> a w \<or> a w + z w \<le> a y) \<and> 0 < z w"
    if "w \<in> S" "w \<noteq> x" "w \<noteq> y" for w
    using apart_pair[OF assms(1,2) that(1)] apart_pair[OF assms(1,3) that(1)] apart_bound[OF assms(1) that(1)]
      that(2,3) assms(5,6,7) by auto
  have 1: "\<forall>v\<in>S - {y}. 0 < (z(x := m + m)) v \<and> lo \<le> a v \<and> a v + (z(x := m + m)) v \<le> hi"
    using assms(1,5) xy by (auto simp: apart_def)
  have 2: "a v + (z(x := m + m)) v \<le> a w \<or> a w + (z(x := m + m)) w \<le> a v"
    if vw: "v \<in> S - {y}" "w \<in> S - {y}" "v \<noteq> w" for v w
  proof -
    have "a v + z v \<le> a w \<or> a w + z w \<le> a v" using assms(1) vw by (auto simp: apart_def)
    then show ?thesis using vw o[of v] o[of w] assms(5) by auto
  qed
  show ?thesis unfolding apart_def using 1 2 by blast
qed

section \<open>The trees of a pool\<close>

text \<open>Index \<open>None\<close> is the tree of allocated blocks, \<open>Some b\<close> the chain of bin \<open>b\<close>.\<close>

definition root_node :: "nat option \<Rightarrow> anode" where
  "root_node i = (case i of None \<Rightarrow> Alloc_Tree | Some b \<Rightarrow> Free_Area b)"

lemma root_node_inj [simp]: "root_node i = root_node j \<longleftrightarrow> i = j"
  by (auto simp: root_node_def split: option.splits)

lemma root_node_Area [simp]: "root_node i \<noteq> Area n" "Area n \<noteq> root_node i"
  by (auto simp: root_node_def split: option.splits)

type_synonym forest = "nat option \<Rightarrow> anode tree"

definition members :: "forest \<Rightarrow> nat option \<Rightarrow> anode set" where
  "members T i = set_tree (T i) - {root_node i}"

definition indices :: "nat \<Rightarrow> nat option set" where
  "indices k = insert None (Some ` {..Suc k})"

lemma indices_simps [simp]: "None \<in> indices k" "Some b \<in> indices k \<longleftrightarrow> b \<le> Suc k"
  by (auto simp: indices_def)

definition forest_in :: "area_mem \<Rightarrow> nat \<Rightarrow> forest \<Rightarrow> bool" where
  "forest_in h k T \<longleftrightarrow>
     (\<forall>i\<in>indices k. bt h None (Some (root_node i)) (T i) \<and> ordered h (inorder (T i)) \<and> addr h (root_node i) = 0 \<and>
        members T i \<subseteq> range Area) \<and>
     (\<forall>i\<in>indices k. \<forall>j\<in>indices k. i \<noteq> j \<longrightarrow> members T i \<inter> members T j = {}) \<and>
     (\<forall>b\<le>Suc k. \<exists>xs. T (Some b) = chain (root_node (Some b) # xs))"

lemma forest_root: "forest_in h k T \<Longrightarrow> i \<in> indices k \<Longrightarrow> root_node i \<in> set_tree (T i)"
  unfolding forest_in_def by (metis bt_root root_of_in)

lemma forest_nodes: "forest_in h k T \<Longrightarrow> i \<in> indices k \<Longrightarrow> set_tree (T i) = insert (root_node i) (members T i)"
  using forest_root by (auto simp: members_def)

lemma forest_area: "forest_in h k T \<Longrightarrow> i \<in> indices k \<Longrightarrow> x \<in> members T i \<Longrightarrow> \<exists>n. x = Area n"
  by (auto simp: forest_in_def)

lemma forest_disjoint:
  assumes "forest_in h k T" and "i \<in> indices k" and "j \<in> indices k" and "i \<noteq> j"
  shows "set_tree (T i) \<inter> set_tree (T j) = {}"
proof -
  have "members T i \<inter> members T j = {}" using assms unfolding forest_in_def by blast
  moreover have "root_node i \<notin> members T j" "root_node j \<notin> members T i"
    using forest_area[OF assms(1,2)] forest_area[OF assms(1,3)] by force+
  ultimately show ?thesis using forest_nodes[OF assms(1,2)] forest_nodes[OF assms(1,3)] assms(4) by auto
qed

lemma forest_data:
  assumes "forest_in h k T" and "\<And>x. same_links h h' x" and "\<And>i x. i \<in> indices k \<Longrightarrow> x \<in> set_tree (T i) \<Longrightarrow> addr h' x = addr h x"
  shows "forest_in h' k T"
proof -
  have o: "ordered h' (inorder (T i)) = ordered h (inorder (T i))" if "i \<in> indices k" for i
    unfolding ordered_def using assms(3)[OF that] by (metis (mono_tags, lifting) map_cong set_inorder)
  have a: "addr h' (root_node i) = addr h (root_node i)" if "i \<in> indices k" for i
    using assms(3)[OF that] forest_root[OF assms(1) that] .
  have b: "bt h' None (Some (root_node i)) (T i)" if "i \<in> indices k" for i
    using assms(1,2) that by (auto simp: forest_in_def intro: bt_cong)
  show ?thesis using assms(1) o a b unfolding forest_in_def by simp
qed

lemma forest_frame:
  assumes "forest_in h k T" and "\<And>x. x \<noteq> y \<Longrightarrow> h' x = h x" and "\<And>i. i \<in> indices k \<Longrightarrow> y \<notin> set_tree (T i)"
  shows "forest_in h' k T"
proof -
  have e: "h' x = h x" if ix: "i \<in> indices k" "x \<in> set_tree (T i)" for i x
    using assms(3)[OF ix(1)] ix(2) by (intro assms(2)) auto
  have o: "ordered h' (inorder (T i)) = ordered h (inorder (T i))" if "i \<in> indices k" for i
    unfolding ordered_def using e[OF that] by (metis (mono_tags, lifting) map_cong set_inorder)
  have a: "addr h' (root_node i) = addr h (root_node i)" if "i \<in> indices k" for i
    using e[OF that] forest_root[OF assms(1) that] by simp
  have b: "bt h' None (Some (root_node i)) (T i)" if i: "i \<in> indices k" for i
    using assms(1) i e[OF i] by (auto simp: forest_in_def same_links_def intro: bt_cong)
  show ?thesis using assms(1) o a b unfolding forest_in_def by simp
qed

lemma forest_update:
  assumes "forest_in h k T" and "i \<in> indices k" and "bt h' None (Some (root_node i)) t"
    and "ordered h (inorder t)" and "changes h h' (X \<union> set_tree (T i))" and "set_tree t \<subseteq> set_tree (T i) \<union> X"
    and "X \<subseteq> range Area" and "\<And>j. j \<in> indices k \<Longrightarrow> X \<inter> set_tree (T j) = {}"
    and "\<And>b. i = Some b \<Longrightarrow> \<exists>xs. t = chain (root_node i # xs)"
  shows "forest_in h' k (T(i := t))"
proof -
  have ad: "addr h' x = addr h x" for x using assms(5) by (rule changes_addr)
  have o: "ordered h' xs = ordered h xs" for xs using assms(5) by (intro ordered_data) (simp add: changes_def)
  have ot: "bt h' None (Some (root_node j)) (T j)" if "j \<in> indices k" "j \<noteq> i" for j
  proof (rule bt_changes[OF _ assms(5)])
    show "bt h None (Some (root_node j)) (T j)" using assms(1) that(1) by (simp add: forest_in_def)
    show "(X \<union> set_tree (T i)) \<inter> set_tree (T j) = {}"
      using assms(8)[OF that(1)] forest_disjoint[OF assms(1,2) that(1)] that(2) by blast
  qed
  have m: "members (T(i := t)) i \<subseteq> members T i \<union> X" "members (T(i := t)) i = set_tree t - {root_node i}"
    using assms(6) by (auto simp: members_def)
  have mo: "members (T(i := t)) j = members T j" if "j \<noteq> i" for j using that by (simp add: members_def)
  have dis: "members (T(i := t)) a \<inter> members (T(i := t)) b = {}" if ab: "a \<in> indices k" "b \<in> indices k" "a \<noteq> b" for a b
  proof -
    have d: "members T a \<inter> members T b = {}" using assms(1) ab unfolding forest_in_def by blast
    have "X \<inter> members T j = {}" if "j \<in> indices k" for j using assms(8)[OF that] by (auto simp: members_def)
    then have "X \<inter> members T a = {}" "X \<inter> members T b = {}" using ab by auto
    then show ?thesis using d m(1) mo[of a] mo[of b] ab(3) by (cases "a = i"; cases "b = i") (simp_all, blast+)
  qed
  have A: "members (T(i := t)) j \<subseteq> range Area" if "j \<in> indices k" for j
    using assms(1,7) m(1) mo that by (cases "j = i") (auto simp: forest_in_def, blast)
  show ?thesis unfolding forest_in_def
  proof (intro conjI ballI impI)
    fix j assume j: "j \<in> indices k"
    show "bt h' None (Some (root_node j)) ((T(i := t)) j)" using assms(3) ot[OF j] by auto
    show "ordered h' (inorder ((T(i := t)) j))" using assms(1,4) j o by (auto simp: forest_in_def)
    show "addr h' (root_node j) = 0" using assms(1) j ad by (auto simp: forest_in_def)
    show "members (T(i := t)) j \<subseteq> range Area" using A[OF j] .
  next
    show "\<forall>b\<le>Suc k. \<exists>xs. (T(i := t)) (Some b) = chain (root_node (Some b) # xs)"
      using assms(1,9) by (auto simp: forest_in_def)
  qed (use dis in blast)
qed

section \<open>The invariant\<close>

definition blk :: "area_mem \<Rightarrow> (anode \<Rightarrow> nat) \<Rightarrow> nat \<Rightarrow> nat \<Rightarrow> anode \<Rightarrow> nat \<Rightarrow> bool" where
  "blk h z s k x b \<longleftrightarrow> bin (h x) = of_nat b \<and> z x = 2 ^ (s + b) \<and> (b \<le> k \<longrightarrow> unat (block_size (h x)) = 2 ^ (s + b))"

definition blk_ok :: "area_mem \<Rightarrow> (anode \<Rightarrow> nat) \<Rightarrow> nat \<Rightarrow> nat \<Rightarrow> nat option \<Rightarrow> anode \<Rightarrow> bool" where
  "blk_ok h z s k i x = (case i of Some b \<Rightarrow> blk h z s k x b | None \<Rightarrow> \<exists>b\<le>k. blk h z s k x b)"

definition live :: "nat \<Rightarrow> forest \<Rightarrow> anode set \<Rightarrow> anode set" where
  "live k T H = H \<union> (\<Union>i\<in>indices k. members T i)"

text \<open>\<open>T\<close> are the trees, \<open>H\<close> the blocks an operation has taken out of them, \<open>z\<close> the sizes.\<close>

definition area_inv :: "nat \<Rightarrow> nat \<Rightarrow> nat \<Rightarrow> forest \<Rightarrow> anode set \<Rightarrow> (anode \<Rightarrow> nat) \<Rightarrow> area_mem \<Rightarrow> bool" where
  "area_inv s k lo T H z h \<longleftrightarrow>
     forest_in h k T \<and> H \<subseteq> range Area \<and> (\<forall>i\<in>indices k. H \<inter> members T i = {}) \<and>
     0 < lo \<and> lo + 2 ^ (s + k + 1) < 2 ^ 32 \<and>
     apart lo (lo + 2 ^ (s + k + 1)) (\<lambda>x. unat (addr h x)) z (live k T H) \<and>
     (\<forall>i\<in>indices k. \<forall>x\<in>members T i. blk_ok h z s k i x) \<and>
     (\<forall>x\<in>H. lchild (h x) = None \<and> rchild (h x) = None)"

lemma area_invD:
  assumes "area_inv s k lo T H z h"
  shows "forest_in h k T" "H \<subseteq> range Area" "\<And>i. i \<in> indices k \<Longrightarrow> H \<inter> members T i = {}" "0 < lo" "lo + 2 ^ (s + k + 1) < 2 ^ 32"
    "apart lo (lo + 2 ^ (s + k + 1)) (\<lambda>x. unat (addr h x)) z (live k T H)"
    "\<And>i x. i \<in> indices k \<Longrightarrow> x \<in> members T i \<Longrightarrow> blk_ok h z s k i x"
    "\<And>x. x \<in> H \<Longrightarrow> lchild (h x) = None \<and> rchild (h x) = None"
  using assms by (simp_all add: area_inv_def)

lemma live_member: "x \<in> members T i \<Longrightarrow> i \<in> indices k \<Longrightarrow> x \<in> live k T H"
  by (auto simp: live_def)

lemma live_range: "area_inv s k lo T H z h \<Longrightarrow> x \<in> live k T H \<Longrightarrow> x \<in> range Area"
  by (auto simp: area_inv_def live_def forest_in_def)

lemma live_addr: "area_inv s k lo T H z h \<Longrightarrow> x \<in> live k T H \<Longrightarrow> addr h x \<noteq> 0"
  using apart_bound[OF area_invD(6)] area_invD(4) by fastforce

lemma live_inj: "area_inv s k lo T H z h \<Longrightarrow> x \<in> live k T H \<Longrightarrow> y \<in> live k T H \<Longrightarrow> addr h x = addr h y \<Longrightarrow> x = y"
  using apart_inj[OF area_invD(6)] by (metis (no_types, lifting))

lemma not_in_trees: "area_inv s k lo T H z h \<Longrightarrow> x \<in> range Area \<Longrightarrow> x \<notin> live k T H \<Longrightarrow> i \<in> indices k \<Longrightarrow> x \<notin> set_tree (T i)"
  using forest_nodes[OF area_invD(1)] by (auto simp: live_def)

lemma held_out: "area_inv s k lo T H z h \<Longrightarrow> x \<in> H \<Longrightarrow> i \<in> indices k \<Longrightarrow> x \<notin> set_tree (T i)"
  using forest_nodes[OF area_invD(1)] by (auto simp: area_inv_def)

lemma blk_ok_cong: "blk_ok h z s k i x \<Longrightarrow> bin (h' x) = bin (h x) \<Longrightarrow> block_size (h' x) = block_size (h x) \<Longrightarrow> z' x = z x \<Longrightarrow> blk_ok h' z' s k i x"
  by (auto simp: blk_ok_def blk_def split: option.splits)

text \<open>A descriptor that is not in use may be overwritten.\<close>

lemma area_inv_unused:
  assumes "area_inv s k lo T H z h" and "x \<in> range Area" and "x \<notin> live k T H" and "\<And>y. y \<noteq> x \<Longrightarrow> h' y = h y"
  shows "area_inv s k lo T H z h'"
proof -
  have e: "h' y = h y" if "y \<in> live k T H" for y using that assms(3,4) by metis
  have "forest_in h' k T"
    by (rule forest_frame[OF area_invD(1)[OF assms(1)] assms(4) not_in_trees[OF assms(1-3)]])
  moreover have "apart lo (lo + 2 ^ (s + k + 1)) (\<lambda>x. unat (addr h' x)) z (live k T H)"
    by (rule apart_cong[OF area_invD(6)[OF assms(1)]]) (simp add: e)
  moreover have "blk_ok h' z s k i y" if "i \<in> indices k" "y \<in> members T i" for i y
    by (rule blk_ok_cong[OF area_invD(7)[OF assms(1) that]]) (simp_all add: e[OF live_member[OF that(2,1)]])
  moreover have "h' y = h y" if "y \<in> H" for y using that e by (simp add: live_def)
  ultimately show ?thesis using assms(1) by (simp add: area_inv_def)
qed

text \<open>Counters of the roots, and the fields of blocks that are held, may change.\<close>

lemma area_inv_fields:
  assumes "area_inv s k lo T H z h" and "\<And>x. same_links h h' x" and "\<And>x. addr h' x = addr h x"
    and "\<And>x i. i \<in> indices k \<Longrightarrow> x \<in> members T i \<Longrightarrow> bin (h' x) = bin (h x) \<and> block_size (h' x) = block_size (h x)"
  shows "area_inv s k lo T H z h'"
proof -
  have "forest_in h' k T" using forest_data[OF area_invD(1)[OF assms(1)] assms(2)] assms(3) by blast
  moreover have "blk_ok h' z s k i y" if "i \<in> indices k" "y \<in> members T i" for i y
    by (rule blk_ok_cong[OF area_invD(7)[OF assms(1) that]]) (simp_all add: assms(4)[OF that])
  ultimately show ?thesis using assms(1-3) by (simp add: area_inv_def same_links_def)
qed

lemma area_inv_root_cnt:
  assumes "area_inv s k lo T H z h" and "i \<in> indices k"
  shows "area_inv s k lo T H z (upd (root_node i) (\<lambda>a. a\<lparr>cnt := f a\<rparr>) h)"
proof (rule area_inv_fields[OF assms(1)])
  show "same_links h (upd (root_node i) (\<lambda>a. a\<lparr>cnt := f a\<rparr>) h) x" for x by (auto simp: same_links_def upd_apply)
  show "addr (upd (root_node i) (\<lambda>a. a\<lparr>cnt := f a\<rparr>) h) x = addr h x" for x by (auto simp: upd_apply)
  show "bin (upd (root_node i) (\<lambda>a. a\<lparr>cnt := f a\<rparr>) h x) = bin (h x) \<and>
      block_size (upd (root_node i) (\<lambda>a. a\<lparr>cnt := f a\<rparr>) h x) = block_size (h x)" for x by (auto simp: upd_apply)
qed

lemma area_inv_held_fields:
  assumes "area_inv s k lo T H z h" and "x \<in> H"
  shows "area_inv s k lo T H z (upd x (\<lambda>a. a\<lparr>bin := b, block_size := c\<rparr>) h)"
proof (rule area_inv_fields[OF assms(1)])
  show "bin (upd x (\<lambda>a. a\<lparr>bin := b, block_size := c\<rparr>) h y) = bin (h y) \<and>
      block_size (upd x (\<lambda>a. a\<lparr>bin := b, block_size := c\<rparr>) h y) = block_size (h y)"
    if "i \<in> indices k" "y \<in> members T i" for y i
    using that area_invD(3)[OF assms(1) that(1)] assms(2) by (auto simp: upd_apply)
qed (auto simp: same_links_def upd_apply)

lemma area_inv_add:
  assumes "area_inv s k lo T H z h" and "i \<in> indices k" and "x \<in> H" and "blk_ok h z s k i x"
    and "op = (if i = None then add_btree_node else add_sorted_btree_node)"
  shows "\<exists>h' t'. op (root_node i) x h = Some h' \<and> set_tree t' = insert x (set_tree (T i)) \<and> same_data h h' \<and>
     area_inv s k lo (T(i := t')) (H - {x}) z h'"
proof -
  note I = area_invD[OF assms(1)]
  have F: "bt h None (Some (root_node i)) (T i)" "ordered h (inorder (T i))" "addr h (root_node i) = 0"
    using I(1) assms(2) by (auto simp: forest_in_def)
  have xl: "x \<in> live k T H" using assms(3) by (simp add: live_def)
  have xn: "x \<notin> set_tree (T j)" if "j \<in> indices k" for j
    using held_out[OF assms(1,3) that] .
  have xr: "x \<noteq> root_node i" using forest_root[OF I(1) assms(2)] xn[OF assms(2)] by auto
  have ad: "addr h y \<noteq> addr h x" if "y \<in> set_tree (T i)" for y
  proof (cases "y = root_node i")
    case False
    then have "y \<in> live k T H" using that assms(2) by (auto simp: live_def members_def)
    then show ?thesis using live_inj[OF assms(1) _ xl] that xn[OF assms(2)] by blast
  qed (use F(3) live_addr[OF assms(1) xl] in simp)
  have ch: "lchild (h x) = None" "rchild (h x) = None" using I(8)[OF assms(3)] by auto
  obtain h' t' where h': "op (root_node i) x h = Some h'" "bt h' None (Some (root_node i)) t'"
      "set_tree t' = insert x (set_tree (T i))" "ordered h (inorder t')" "changes h h' (insert x (set_tree (T i)))"
      "\<And>b. i = Some b \<Longrightarrow> \<exists>xs. t' = chain (root_node i # xs)"
  proof (cases i)
    case None
    show ?thesis using that add_btree_node_bt[OF F(1,2) xn[OF assms(2)] _ ch] ad assms(5) None by auto
  next
    case (Some b)
    obtain xs where xs: "T i = chain (root_node i # xs)" using I(1) assms(2) Some by (auto simp: forest_in_def)
    have "addr h (root_node i) < addr h x" using F(3) live_addr[OF assms(1) xl] by (simp add: word_neq_0_conv)
    moreover have "\<forall>y\<in>set xs. addr h y \<noteq> addr h x" "x \<notin> set xs" using ad xn[OF assms(2)] xs by auto
    ultimately have "\<exists>h' ys. add_sorted_btree_node (root_node i) x h = Some h' \<and>
        bt h' None (Some (root_node i)) (chain (root_node i # ys)) \<and> set ys = insert x (set xs) \<and>
        ordered h (root_node i # ys) \<and> changes h h' (insert x (insert (root_node i) (set xs)))"
      using add_sorted_btree_node_chain[of h None "root_node i" xs x] F(1,2) xr ch xs by (simp add: inorder_chain del: chain.simps)
    then obtain h' ys where y: "add_sorted_btree_node (root_node i) x h = Some h'"
        "bt h' None (Some (root_node i)) (chain (root_node i # ys))" "set ys = insert x (set xs)"
        "ordered h (root_node i # ys)" "changes h h' (insert x (insert (root_node i) (set xs)))" by blast
    show ?thesis
    proof (rule that)
      show "op (root_node i) x h = Some h'" using y(1) assms(5) Some by simp
      show "bt h' None (Some (root_node i)) (chain (root_node i # ys))" by (rule y(2))
      show "set_tree (chain (root_node i # ys)) = insert x (set_tree (T i))" using y(3) xs by auto
      show "ordered h (inorder (chain (root_node i # ys)))" using y(4) by (simp only: inorder_chain)
      show "changes h h' (insert x (set_tree (T i)))" using y(5) xs by simp
      show "\<exists>zs. chain (root_node i # ys) = chain (root_node i # zs)" by blast
    qed
  qed
  have dat: "same_data h h'" using h'(5) by (simp add: changes_def)
  have f': "forest_in h' k (T(i := t'))"
    by (rule forest_update[OF I(1) assms(2) h'(2,4), where X = "{x}"]) (use h' xn I(2) assms(3) in auto)
  have mem: "members (T(i := t')) j = (if j = i then insert x (members T i) else members T j)" for j
    using h'(3) xr by (auto simp: members_def)
  have lv: "live k (T(i := t')) (H - {x}) = live k T H"
    using assms(2,3) by (auto simp: live_def mem split: if_splits)
  have H': "h' y = h y" if "y \<in> H - {x}" for y
    using changesD[OF h'(5), of y] held_out[OF assms(1) _ assms(2)] that by auto
  have "blk_ok h' z s k j y" if "j \<in> indices k" "y \<in> members (T(i := t')) j" for j y
  proof -
    have "blk_ok h z s k j y" using that mem I(7) assms(4) by (auto split: if_splits)
    then show ?thesis by (rule blk_ok_cong) (use dat in \<open>auto simp: same_data_def\<close>)
  qed
  moreover have "apart lo (lo + 2 ^ (s + k + 1)) (\<lambda>x. unat (addr h' x)) z (live k (T(i := t')) (H - {x}))"
    unfolding lv by (rule apart_cong[OF I(6)]) (use dat in \<open>simp add: same_data_def\<close>)
  moreover have "(H - {x}) \<inter> members (T(i := t')) j = {}" if "j \<in> indices k" for j
    using I(3)[OF that] mem by auto
  ultimately have "area_inv s k lo (T(i := t')) (H - {x}) z h'"
    using f' I H' unfolding area_inv_def by auto
  then show ?thesis using h'(1,3) dat by blast
qed

lemma area_inv_remove:
  assumes "area_inv s k lo T H z h" and "i \<in> indices k" and "x \<in> members T i"
  shows "\<exists>h'. remove_btree_node (root_node i) x h = Some h' \<and> same_data h h' \<and>
     area_inv s k lo (T(i := cut x (T i))) (insert x H) z h' \<and> set_tree (cut x (T i)) = set_tree (T i) - {x}"
proof -
  note I = area_invD[OF assms(1)]
  have F: "bt h None (Some (root_node i)) (T i)" "ordered h (inorder (T i))" using I(1) assms(2) by (auto simp: forest_in_def)
  have x: "x \<in> set_tree (T i)" "x \<noteq> root_node i" using assms(3) by (auto simp: members_def)
  obtain h' where h': "remove_btree_node (root_node i) x h = Some h'" "bt h' None (Some (root_node i)) (cut x (T i))"
      "inorder (cut x (T i)) = remove1 x (inorder (T i))" "changes h h' (set_tree (T i))" "unlinked h' x"
    using remove_btree_node_bt[OF F x] by blast
  have st: "set_tree (cut x (T i)) = set_tree (T i) - {x}" by (rule set_tree_cut[OF ordered_distinct[OF F(2)]])
  have dat: "same_data h h'" using h'(4) by (simp add: changes_def)
  have f': "forest_in h' k (T(i := cut x (T i)))"
  proof (rule forest_update[OF I(1) assms(2) h'(2), where X = "{}"])
    show "ordered h (inorder (cut x (T i)))" using h'(3) ordered_remove1[OF F(2)] by simp
    show "\<exists>xs. cut x (T i) = chain (root_node i # xs)" if "i = Some b" for b
    proof -
      obtain xs where xs: "T i = chain (root_node i # xs)" using I(1) assms(2) \<open>i = Some b\<close> by (auto simp: forest_in_def)
      have "distinct (root_node i # xs)" using ordered_distinct[OF F(2)] xs by (simp del: chain.simps)
      from cut_chain[OF this, of x] show ?thesis using xs x(2) by (auto simp del: chain.simps)
    qed
  qed (use h' st in auto)
  have mem: "members (T(i := cut x (T i))) j = (if j = i then members T i - {x} else members T j)" for j
    using st by (auto simp: members_def)
  have xo: "x \<notin> members T j" if "j \<in> indices k" "j \<noteq> i" for j
    using I(1) that assms(2,3) unfolding forest_in_def by blast
  have lv: "live k (T(i := cut x (T i))) (insert x H) = live k T H"
    using assms(2,3) by (auto simp: live_def mem split: if_splits)
  have H': "h' y = h y" if "y \<in> H" for y
    using changesD[OF h'(4)] held_out[OF assms(1) that assms(2)] .
  have "blk_ok h' z s k j y" if "j \<in> indices k" "y \<in> members (T(i := cut x (T i))) j" for j y
  proof -
    have "blk_ok h z s k j y" using that mem I(7) by (auto split: if_splits)
    then show ?thesis by (rule blk_ok_cong) (use dat in \<open>auto simp: same_data_def\<close>)
  qed
  moreover have "apart lo (lo + 2 ^ (s + k + 1)) (\<lambda>x. unat (addr h' x)) z (live k (T(i := cut x (T i))) (insert x H))"
    unfolding lv by (rule apart_cong[OF I(6)]) (use dat in \<open>simp add: same_data_def\<close>)
  moreover have "insert x H \<inter> members (T(i := cut x (T i))) j = {}" if "j \<in> indices k" for j
    using I(3)[OF that] mem xo[OF that] by auto
  moreover have "insert x H \<subseteq> range Area" using I(1,2) assms(2,3) by (auto simp: forest_in_def)
  moreover have "lchild (h' y) = None \<and> rchild (h' y) = None" if "y \<in> insert x H" for y
    using that H' I(8) h'(5) by (auto simp: unlinked_def)
  ultimately have "area_inv s k lo (T(i := cut x (T i))) (insert x H) z h'"
    using f' I(4,5) unfolding area_inv_def by auto
  then show ?thesis using h'(1) dat st by blast
qed

section \<open>Allocating\<close>

definition same_pool :: "sw_buddy_pool \<Rightarrow> sw_buddy_pool \<Rightarrow> bool" where
  "same_pool p p' \<longleftrightarrow> total_area_cnt p' = total_area_cnt p \<and> alloc_cnt p' = alloc_cnt p \<and> mem_start p' = mem_start p \<and>
     mem_size p' = mem_size p \<and> pool_start p' = pool_start p \<and> pool_size p' = pool_size p \<and>
     max_alloc_size p' = max_alloc_size p \<and> min_alloc_size p' = min_alloc_size p \<and>
     curr_heap_size p' = curr_heap_size p \<and> max_bin p' = max_bin p"

lemma same_pool_refl [simp]: "same_pool p p"
  by (simp add: same_pool_def)

lemma same_poolD:
  assumes "same_pool p p'"
  shows "total_area_cnt p' = total_area_cnt p" "alloc_cnt p' = alloc_cnt p" "mem_start p' = mem_start p"
    "max_alloc_size p' = max_alloc_size p" "min_alloc_size p' = min_alloc_size p"
    "curr_heap_size p' = curr_heap_size p" "max_bin p' = max_bin p"
  using assms by (simp_all add: same_pool_def)

lemma same_pool_trans [trans]: "same_pool p p' \<Longrightarrow> same_pool p' p'' \<Longrightarrow> same_pool p p''"
  by (simp add: same_pool_def)

lemma same_pool_set_areas [simp]: "same_pool p (set_areas h p)" "same_pool p (upd_area x f p)"
  by (simp_all add: same_pool_def set_areas_def upd_area_def)

lemma areas_set [simp]: "areas (set_areas h p) = h" "areas (upd_area x f p) = upd x f (areas p)"
  by (simp_all add: set_areas_def upd_area_def)

lemma get_free_node_some:
  assumes "get_free_node p = (Some f, p')"
  shows "f \<in> range Area" "addr (areas p) f = 0" "same_pool p p'" "areas p' = (areas p)(f := empty_area)"
  using assms by (auto simp: get_free_node_def Let_def upd_area_def upd_def same_pool_def split: option.splits prod.splits
      dest!: find_in)

lemma get_free_node_none: "get_free_node p = (None, p') \<Longrightarrow> p' = p"
  by (auto simp: get_free_node_def Let_def split: option.splits)

definition pool_ok :: "nat \<Rightarrow> nat \<Rightarrow> sw_buddy_pool \<Rightarrow> bool" where
  "pool_ok s k p \<longleftrightarrow> min_alloc_size p = 2 ^ s \<and> max_alloc_size p = 2 ^ (s + k) \<and> max_bin p = of_nat (Suc k) \<and>
     Suc k < MAX_BINS \<and> s + k < 31"

lemma pool_ok_same: "same_pool p p' \<Longrightarrow> pool_ok s k p' = pool_ok s k p"
  by (simp add: pool_ok_def same_poolD)

lemma free_head_ok: "pool_ok s k p \<Longrightarrow> b \<le> Suc k \<Longrightarrow> free_head b = Some (root_node (Some b))"
  by (simp add: pool_ok_def free_head_def root_node_def)

lemma push_min: "pool_ok s k p \<Longrightarrow> push_bit i (min_alloc_size p) = 2 ^ (s + i)"
  by (simp add: pool_ok_def push_bit_eq_mult power_add mult.commute)

lemma unat_pow: "j < 32 \<Longrightarrow> unat (2 ^ j :: u32) = 2 ^ j"
  by (rule unat_exp) simp

lemma chain_first:
  assumes "area_inv s k lo T H z h" and "b \<le> Suc k" and "rchild (h (root_node (Some b))) = Some x"
  shows "x \<in> members T (Some b)" "parent (h x) = Some (root_node (Some b))"
proof -
  have F: "bt h None (Some (root_node (Some b))) (T (Some b))" "ordered h (inorder (T (Some b)))"
      "\<exists>xs. T (Some b) = chain (root_node (Some b) # xs)"
    using area_invD(1)[OF assms(1)] assms(2) by (simp_all add: forest_in_def)
  then obtain xs where xs: "T (Some b) = chain (root_node (Some b) # xs)" by blast
  then have "bt h (Some (root_node (Some b))) (Some x) (chain xs)" using F(1) assms(3) by simp
  then obtain ys where "xs = x # ys" "parent (h x) = Some (root_node (Some b))" by (cases xs) auto
  moreover have "root_node (Some b) \<notin> set xs" using xs F(2) ordered_distinct[of h "root_node (Some b) # xs"] by (simp only: inorder_chain) simp
  ultimately show "x \<in> members T (Some b)" "parent (h x) = Some (root_node (Some b))" using xs by (auto simp: members_def)
qed

lemma area_inv_drop: "area_inv s k lo T H z h \<Longrightarrow> H' \<subseteq> H \<Longrightarrow> area_inv s k lo T H' z h"
proof -
  assume a: "area_inv s k lo T H z h" "H' \<subseteq> H"
  then have "live k T H' \<subseteq> live k T H" by (auto simp: live_def)
  from apart_subset[OF area_invD(6)[OF a(1)] this] show ?thesis using a by (auto simp: area_inv_def)
qed

lemma area_inv_split:
  assumes "area_inv s k lo T H z h" and "x \<in> H" and "z x = m + m" and "f \<in> range Area" and "f \<notin> live k T H"
    and "addr h f = addr h x + of_nat m" and "lchild (h f) = None \<and> rchild (h f) = None"
  shows "area_inv s k lo T (insert f H) (z(x := m, f := m)) h"
proof -
  note I = area_invD[OF assms(1)]
  have x: "x \<in> live k T H" using assms(2) by (simp add: live_def)
  have b: "0 < m" "unat (addr h x) + (m + m) \<le> lo + 2 ^ (s + k + 1)" using apart_bound[OF I(6) x] assms(3) by auto
  then have lt: "unat (addr h x) + (m + m) < 2 ^ 32" using I(5) by linarith
  then have "unat (of_nat m :: u32) = m" by (intro unat_of_nat_small) simp
  then have f: "unat (addr h f) = unat (addr h x) + m" using lt assms(6) by (simp add: unat_add_small)
  have "apart lo (lo + 2 ^ (s + k + 1)) ((\<lambda>x. unat (addr h x))(f := unat (addr h x) + m)) (z(x := m, f := m))
      (insert f (live k T H))"
    by (rule apart_split[OF I(6) x assms(5,3) b(1)])
  moreover have "(\<lambda>x. unat (addr h x))(f := unat (addr h x) + m) = (\<lambda>x. unat (addr h x))" using f by auto
  moreover have "live k T (insert f H) = insert f (live k T H)" by (simp add: live_def)
  moreover have "insert f H \<inter> members T i = {}" if "i \<in> indices k" for i
    using I(3)[OF that] assms(5) that by (auto simp: live_def)
  moreover have "blk_ok h (z(x := m, f := m)) s k i y" if "i \<in> indices k" "y \<in> members T i" for i y
    by (rule blk_ok_cong[OF I(7)[OF that]]) (use calculation(4)[OF that(1)] that(2) assms(2) in auto)
  ultimately show ?thesis using assms(4,7) I unfolding area_inv_def by auto
qed

lemma take_node_ok:
  assumes "area_inv s k lo T H z (areas p)" and "pool_ok s k p" and "b \<le> Suc k"
    and "rchild (areas p (root_node (Some b))) = Some x"
  shows "\<exists>p'. take_node b x p = Some p' \<and> same_pool p p' \<and>
     area_inv s k lo (T(Some b := cut x (T (Some b)))) (insert x H) z (areas p') \<and>
     (\<forall>y. addr (areas p') y = addr (areas p) y \<and> bin (areas p' y) = bin (areas p y) \<and> block_size (areas p' y) = block_size (areas p y))"
proof -
  note f = chain_first[OF assms(1,3,4)]
  obtain h where h: "remove_btree_node (root_node (Some b)) x (areas p) = Some h" "same_data (areas p) h"
      "area_inv s k lo (T(Some b := cut x (T (Some b)))) (insert x H) z h"
    using area_inv_remove[OF assms(1) _ f(1)] assms(3) by auto
  have "area_inv s k lo (T(Some b := cut x (T (Some b)))) (insert x H) z (upd (root_node (Some b)) (\<lambda>a. a\<lparr>cnt := cnt a - 1\<rparr>) h)"
    by (rule area_inv_root_cnt[OF h(3)]) (use assms(3) in simp)
  then show ?thesis using h(1,2) f(2) free_head_ok[OF assms(2,3)]
    by (auto simp: take_node_def remove_from_def same_data_def upd_apply
        intro: same_pool_trans[OF same_pool_set_areas(1) same_pool_set_areas(2)])
qed

definition same_allocated ::
    "forest \<Rightarrow> (anode \<Rightarrow> nat) \<Rightarrow> area_mem \<Rightarrow> forest \<Rightarrow> (anode \<Rightarrow> nat) \<Rightarrow> area_mem \<Rightarrow> bool" where
  "same_allocated T z h T' z' h' \<longleftrightarrow> T' None = T None \<and> (\<forall>y\<in>members T None. z' y = z y \<and> addr h' y = addr h y)"

lemma same_allocated_trans:
  "same_allocated T z h T' z' h' \<Longrightarrow> same_allocated T' z' h' T'' z'' h'' \<Longrightarrow> same_allocated T z h T'' z'' h''"
  by (auto simp: same_allocated_def members_def)

lemma same_allocated_addr:
  "same_allocated T z h T' z' h' \<Longrightarrow> (\<And>y. addr h'' y = addr h' y) \<Longrightarrow> same_allocated T z h T' z' h''"
  by (simp add: same_allocated_def)

text \<open>One round of the inner loop.\<close>

lemma split_round:
  assumes "area_inv s k lo T {x} z (areas p)" and "pool_ok s k p" and "i \<le> k" and "z x = 2 ^ (s + Suc i)"
    and "get_free_node p = (Some f, p1)"
    and "p2 = upd_area f (\<lambda>a. a\<lparr>bin := of_nat i, block_size := push_bit i (min_alloc_size p1),
           mem_addr := addr (areas p1) x + push_bit i (min_alloc_size p1)\<rparr>) p1"
  shows "\<exists>h T' z'. add_sorted_btree_node (root_node (Some i)) f (areas p2) = Some h \<and> same_data (areas p2) h \<and>
     area_inv s k lo T' {x} z' h \<and> z' x = 2 ^ (s + i) \<and> same_allocated T z (areas p) T' z' h \<and> addr h x = addr (areas p) x"
proof -
  note g = get_free_node_some[OF assms(5)]
  have xl: "x \<in> live k T {x}" by (simp add: live_def)
  have fl: "f \<notin> live k T {x}" using live_addr[OF assms(1)] g(2) by blast
  then have fx: "f \<noteq> x" using xl by auto
  have sz: "push_bit i (min_alloc_size p1) = 2 ^ (s + i)" "s + i < 32"
    using push_min[OF assms(2)] same_poolD(5)[OF g(3)] assms(2,3) by (auto simp: pool_ok_def)
  have A: "areas p2 = (areas p)(f := empty_area\<lparr>bin := of_nat i, block_size := 2 ^ (s + i), mem_addr := addr (areas p) x + 2 ^ (s + i)\<rparr>)"
    using assms(6) g(4) fx sz by (simp add: upd_area_def upd_def)
  have 1: "area_inv s k lo T {x} z (areas p2)" by (rule area_inv_unused[OF assms(1) g(1) fl]) (simp add: A)
  have 2: "area_inv s k lo T (insert f {x}) (z(x := 2 ^ (s + i), f := 2 ^ (s + i))) (areas p2)"
    by (rule area_inv_split[OF 1 _ _ g(1) fl]) (use assms(4) fx in \<open>simp_all add: A empty_area_def\<close>)
  have b: "blk_ok (areas p2) (z(x := 2 ^ (s + i), f := 2 ^ (s + i))) s k (Some i) f"
    using sz(2) by (simp add: blk_ok_def blk_def A unat_pow)
  obtain h t where h: "add_sorted_btree_node (root_node (Some i)) f (areas p2) = Some h" "same_data (areas p2) h"
      "area_inv s k lo (T(Some i := t)) (insert f {x} - {f}) (z(x := 2 ^ (s + i), f := 2 ^ (s + i))) h"
    using area_inv_add[OF 2 _ _ b refl] assms(3) by auto
  have "insert f {x} - {f} = {x}" using fx by auto
  moreover have "same_allocated T z (areas p) (T(Some i := t)) (z(x := 2 ^ (s + i), f := 2 ^ (s + i))) h"
    unfolding same_allocated_def
  proof (intro conjI ballI)
    fix y assume y: "y \<in> members T None"
    have "y \<noteq> f" using fl live_member[OF y, of k "{x}"] by auto
    moreover have "y \<noteq> x" using y area_invD(3)[OF assms(1), of None] by auto
    ultimately show "(z(x := 2 ^ (s + i), f := 2 ^ (s + i))) y = z y" "addr h y = addr (areas p) y"
      using h(2) by (simp_all add: same_data_def A)
  qed simp
  moreover have "addr h x = addr (areas p) x" using h(2) fx by (simp add: same_data_def A)
  ultimately show ?thesis using h fx
    by (intro exI[of _ h] exI[of _ "T(Some i := t)"] exI[of _ "z(x := 2 ^ (s + i), f := 2 ^ (s + i))"]) simp
qed

lemma split_loop_ok:
  assumes "area_inv s k lo T {x} z (areas p)" and "pool_ok s k p" and "b < i" and "i \<le> Suc k" and "z x = 2 ^ (s + i)"
  shows "\<exists>r p' T' z'. split_loop x b i p = Some (r, p') \<and> same_pool p p' \<and> same_allocated T z (areas p) T' z' (areas p') \<and>
     (r = None \<and> area_inv s k lo T' {} z' (areas p') \<or>
      r = Some x \<and> area_inv s k lo T' {x} z' (areas p') \<and> blk (areas p') z' s k x b \<and> addr (areas p') x = addr (areas p) x)"
  using assms
proof (induction i arbitrary: p T z)
  case (Suc i)
  show ?case
  proof (cases "get_free_node p")
    case (Pair r p1)
    show ?thesis
    proof (cases r)
      case None
      then have "split_loop x b (Suc i) p = Some (None, p)" using Pair get_free_node_none[of p p1] Suc.prems(3) by simp
      moreover have "area_inv s k lo T {} z (areas p)" by (rule area_inv_drop[OF Suc.prems(1)]) simp
      ultimately show ?thesis by (intro exI[of _ None] exI[of _ p] exI[of _ T] exI[of _ z]) (simp add: same_allocated_def)
    next
      case (Some f)
      then have gf: "get_free_node p = (Some f, p1)" using Pair by simp
      note g = get_free_node_some[OF gf]
      define sz where "sz = push_bit i (min_alloc_size p1)"
      define p2 where "p2 = upd_area f (\<lambda>a. a\<lparr>bin := of_nat i, block_size := sz, mem_addr := addr (areas p1) x + sz\<rparr>) p1"
      obtain h T' z' where h: "add_sorted_btree_node (root_node (Some i)) f (areas p2) = Some h"
          "area_inv s k lo T' {x} z' h" "z' x = 2 ^ (s + i)" "same_allocated T z (areas p) T' z' h" "addr h x = addr (areas p) x"
        using split_round[OF Suc.prems(1,2) _ Suc.prems(5) gf p2_def[unfolded sz_def]] Suc.prems(4) by blast
      define p3 where "p3 = upd_area (root_node (Some i)) (\<lambda>a. a\<lparr>cnt := cnt a + 1\<rparr>) (set_areas h p2)"
      have sp: "same_pool p p3" unfolding p3_def p2_def using g(3) by (simp add: same_pool_def upd_area_def set_areas_def)
      have i3: "area_inv s k lo T' {x} z' (areas p3)"
        unfolding p3_def using area_inv_root_cnt[OF h(2), of "Some i"] Suc.prems(4) by simp
      have a3: "addr (areas p3) x = addr (areas p) x" using h(5) by (auto simp: p3_def upd_apply)
      have sa: "same_allocated T z (areas p) T' z' (areas p3)"
        by (rule same_allocated_addr[OF h(4)]) (simp add: p3_def upd_apply)
      have fh: "free_head i = Some (root_node (Some i))" using free_head_ok[OF Suc.prems(2)] Suc.prems(4) by simp
      have szv: "sz = 2 ^ (s + i)" "s + i < 32"
        using push_min[OF Suc.prems(2)] same_poolD(5)[OF g(3)] Suc.prems(2,4) by (auto simp: sz_def pool_ok_def)
      have run: "split_loop x b (Suc i) p =
          (if b = i then Some (Some x, upd_area x (\<lambda>a. a\<lparr>block_size := sz, bin := of_nat i\<rparr>) p3) else split_loop x b i p3)"
        using gf fh h(1) Suc.prems(3) by (simp add: Let_def p3_def p2_def sz_def)
      show ?thesis
      proof (cases "b = i")
        case True
        have "(\<lambda>a::sw_area. a\<lparr>block_size := sz, bin := of_nat i\<rparr>) = (\<lambda>a. a\<lparr>bin := of_nat i, block_size := sz\<rparr>)" by auto
        then have "area_inv s k lo T' {x} z' (areas (upd_area x (\<lambda>a. a\<lparr>block_size := sz, bin := of_nat i\<rparr>) p3))"
          using area_inv_held_fields[OF i3, of x] by simp
        moreover have "blk (areas (upd_area x (\<lambda>a. a\<lparr>block_size := sz, bin := of_nat i\<rparr>) p3)) z' s k x b"
          using True h(3) szv by (simp add: blk_def unat_pow)
        moreover have "same_pool p (upd_area x (\<lambda>a. a\<lparr>block_size := sz, bin := of_nat i\<rparr>) p3)"
          by (rule same_pool_trans[OF sp]) simp
        moreover have "same_allocated T z (areas p) T' z' (areas (upd_area x (\<lambda>a. a\<lparr>block_size := sz, bin := of_nat i\<rparr>) p3))"
          by (rule same_allocated_addr[OF sa]) (simp add: upd_apply)
        ultimately show ?thesis unfolding run if_P[OF True] using a3
          by (intro exI[of _ "Some x"] exI[of _ "upd_area x (\<lambda>a. a\<lparr>block_size := sz, bin := of_nat i\<rparr>) p3"] exI[of _ T'] exI[of _ z']) simp
      next
        case False
        then have lt: "b < i" "i \<le> Suc k" "pool_ok s k p3" using Suc.prems pool_ok_same[OF sp] by auto
        from Suc.IH[OF i3 lt(3,1,2) h(3)] obtain r p' T'' z'' where r: "split_loop x b i p3 = Some (r, p')" "same_pool p3 p'"
          "same_allocated T' z' (areas p3) T'' z'' (areas p')" "r = None \<and> area_inv s k lo T'' {} z'' (areas p') \<or>
           r = Some x \<and> area_inv s k lo T'' {x} z'' (areas p') \<and> blk (areas p') z'' s k x b \<and> addr (areas p') x = addr (areas p3) x" by blast
        then show ?thesis unfolding run if_not_P[OF False] using same_pool_trans[OF sp r(2)] same_allocated_trans[OF sa r(3)] a3 by metis
      qed
    qed
  qed
qed simp

lemma first_bin_find:
  assumes "pool_ok s k p" and "\<forall>i\<in>set is. i \<le> Suc k"
  shows "first_bin is p = Some (List.find (\<lambda>i. rchild (areas p (root_node (Some i))) \<noteq> None) is)"
  using assms(2) by (induction "is") (auto simp: is_empty_bin_def free_head_ok[OF assms(1)])

lemma max_bin_ok: "pool_ok s k p \<Longrightarrow> unat (max_bin p) = Suc k"
proof -
  assume a: "pool_ok s k p"
  then have "unat (of_nat (Suc k) :: u32) = Suc k" by (intro unat_of_nat_small) (simp add: pool_ok_def MAX_BINS_def)
  then show ?thesis using a by (simp only: pool_ok_def)
qed

lemma get_free_buddy_ok:
  assumes "area_inv s k lo T {} z (areas p)" and "pool_ok s k p" and "b \<le> k"
  shows "\<exists>r p' T' z'. get_free_buddy b p = Some (r, p') \<and> same_pool p p' \<and> same_allocated T z (areas p) T' z' (areas p') \<and>
     (r = None \<and> area_inv s k lo T' {} z' (areas p') \<or>
      (\<exists>x. r = Some x \<and> area_inv s k lo T' {x} z' (areas p') \<and> blk (areas p') z' s k x b))"
proof -
  let ?find = "List.find (\<lambda>i. rchild (areas p (root_node (Some i))) \<noteq> None) [b..<Suc k + 1]"
  have fb: "first_bin [b..<unat (max_bin p) + 1] p = Some ?find"
    unfolding max_bin_ok[OF assms(2)] by (rule first_bin_find[OF assms(2)]) auto
  show ?thesis
  proof (cases ?find)
    case None
    then have "get_free_buddy b p = Some (None, p)" using fb by (simp add: get_free_buddy_def)
    then show ?thesis using assms(1)
      by (intro exI[of _ None] exI[of _ p] exI[of _ T] exI[of _ z]) (simp add: same_allocated_def)
  next
    case (Some idx)
    from find_in[OF this] have idx: "b \<le> idx" "idx \<le> Suc k" "rchild (areas p (root_node (Some idx))) \<noteq> None" by auto
    then obtain x where x: "rchild (areas p (root_node (Some idx))) = Some x" by blast
    define T1 where "T1 = T(Some idx := cut x (T (Some idx)))"
    have xm: "x \<in> members T (Some idx)" by (rule chain_first[OF assms(1) idx(2) x])
    have bx: "blk (areas p) z s k x idx" using area_invD(7)[OF assms(1) _ xm] idx(2) by (simp add: blk_ok_def)
    obtain p1 where p1: "take_node idx x p = Some p1" "same_pool p p1" "area_inv s k lo T1 {x} z (areas p1)"
        "\<forall>y. addr (areas p1) y = addr (areas p) y \<and> bin (areas p1 y) = bin (areas p y) \<and> block_size (areas p1 y) = block_size (areas p y)"
      using take_node_ok[OF assms(1,2) idx(2) x] unfolding T1_def by blast
    have sa: "same_allocated T z (areas p) T1 z (areas p1)" using p1(4) by (simp add: same_allocated_def T1_def)
    have run: "get_free_buddy b p = (if idx = b then Some (Some x, p1) else split_loop x b idx p1)"
      using fb Some x p1(1) free_head_ok[OF assms(2) idx(2)] by (simp add: get_free_buddy_def)
    show ?thesis
    proof (cases "idx = b")
      case True
      then have "blk (areas p1) z s k x b" using bx p1(4) by (simp add: blk_def)
      then show ?thesis unfolding run if_P[OF True] using p1(2,3) sa
        by (intro exI[of _ "Some x"] exI[of _ p1] exI[of _ T1] exI[of _ z]) simp
    next
      case False
      then have lt: "b < idx" using idx(1) by simp
      have "z x = 2 ^ (s + idx)" using bx by (simp add: blk_def)
      from split_loop_ok[OF p1(3) _ lt idx(2) this] obtain r p' T' z' where r: "split_loop x b idx p1 = Some (r, p')"
          "same_pool p1 p'" "same_allocated T1 z (areas p1) T' z' (areas p')" "r = None \<and> area_inv s k lo T' {} z' (areas p') \<or>
          r = Some x \<and> area_inv s k lo T' {x} z' (areas p') \<and> blk (areas p') z' s k x b"
        using pool_ok_same[OF p1(2)] assms(2) by blast
      show ?thesis unfolding run if_not_P[OF False]
        using r same_pool_trans[OF p1(2) r(2)] same_allocated_trans[OF sa r(3)] by blast
    qed
  qed
qed

section \<open>What the client sees\<close>

definition pool_inv :: "nat \<Rightarrow> nat \<Rightarrow> forest \<Rightarrow> (anode \<Rightarrow> nat) \<Rightarrow> sw_buddy_pool \<Rightarrow> bool" where
  "pool_inv s k T z p \<longleftrightarrow> pool_ok s k p \<and> area_inv s k (unat (mem_start p)) T {} z (areas p) \<and>
     unat (curr_heap_size p) + sum z (members T None) = 2 ^ (s + k)"

definition buddy_inv :: "sw_buddy_pool \<Rightarrow> bool" where
  "buddy_inv p \<longleftrightarrow> (\<exists>s k T z. pool_inv s k T z p)"

text \<open>The length of the allocated block at an address, 0 if there is none.\<close>

definition block_len :: "sw_buddy_pool \<Rightarrow> u32 \<Rightarrow> nat" where
  "block_len p a = (if a = 0 then 0 else case get_buddy_ptr_size p a of Some n \<Rightarrow> unat n | None \<Rightarrow> 0)"

lemma find_the_one:
  assumes "x \<in> set xs" and "P x" and "\<And>y. y \<in> set xs \<Longrightarrow> P y \<Longrightarrow> y = x"
  shows "List.find P xs = Some x"
proof (cases "List.find P xs")
  case None
  then show ?thesis using assms(1,2) by (simp add: find_None)
next
  case (Some y)
  then show ?thesis using assms(3) find_in by metis
qed

lemma search_alloc:
  assumes "area_inv s k lo T H z h"
  shows "search_btree_node (Some Alloc_Tree) a h = Some (List.find (\<lambda>x. addr h x = a) (inorder (T None)))"
proof -
  have "bt h None (Some (root_node None)) (T None)" "ordered h (inorder (T None))"
    using area_invD(1)[OF assms] by (auto simp: forest_in_def)
  from search_bt[OF this] show ?thesis by (simp add: root_node_def)
qed

lemma find_alloc:
  assumes "area_inv s k lo T H z h" and "x \<in> members T None"
  shows "List.find (\<lambda>y. addr h y = addr h x) (inorder (T None)) = Some x"
proof (rule find_the_one)
  show "x \<in> set (inorder (T None))" using assms(2) by (simp add: members_def)
  fix y assume y: "y \<in> set (inorder (T None))" "addr h y = addr h x"
  have xl: "x \<in> live k T H" using assms(2) by (simp add: live_member)
  have "y \<noteq> root_node None"
    using y(2) live_addr[OF assms(1) xl] area_invD(1)[OF assms(1)] by (auto simp: forest_in_def)
  then have "y \<in> live k T H" using y(1) by (intro live_member[of _ _ None]) (auto simp: members_def)
  then show "y = x" using live_inj[OF assms(1) _ xl] y(2) by blast
qed simp

lemma find_alloc_none:
  assumes "a \<noteq> 0" and "area_inv s k lo T H z h" and "\<forall>x\<in>members T None. addr h x \<noteq> a"
  shows "List.find (\<lambda>y. addr h y = a) (inorder (T None)) = None"
proof -
  have "addr h (root_node None) = 0" using area_invD(1)[OF assms(2)] by (auto simp: forest_in_def)
  then show ?thesis using assms(1,3) by (auto simp: find_None members_def)
qed

lemma block_len_member:
  assumes "area_inv s k lo T H z (areas p)" and "x \<in> members T None"
  shows "block_len p (addr (areas p) x) = z x"
proof -
  have "addr (areas p) x \<noteq> 0" using live_addr[OF assms(1)] live_member[OF assms(2)] by simp
  moreover have "unat (block_size (areas p x)) = z x"
    using area_invD(7)[OF assms(1) _ assms(2)] by (auto simp: blk_ok_def blk_def)
  ultimately show ?thesis
    using search_alloc[OF assms(1)] find_alloc[OF assms] by (simp add: block_len_def get_buddy_ptr_size_def)
qed

lemma block_len_none:
  assumes "area_inv s k lo T H z (areas p)" and "\<forall>x\<in>members T None. addr (areas p) x \<noteq> a"
  shows "block_len p a = 0"
  using search_alloc[OF assms(1)] find_alloc_none[OF _ assms]
  by (simp add: block_len_def get_buddy_ptr_size_def)

lemma block_len_pos:
  assumes "area_inv s k lo T H z (areas p)" and "0 < block_len p a"
  shows "\<exists>x\<in>members T None. addr (areas p) x = a \<and> z x = block_len p a"
  using assms block_len_none block_len_member by (metis less_irrefl)

lemma members_finite: "finite (members T i)"
  by (simp add: members_def)

lemma pool_invD:
  assumes "pool_inv s k T z p"
  shows "pool_ok s k p" "area_inv s k (unat (mem_start p)) T {} z (areas p)"
    "unat (curr_heap_size p) + sum z (members T None) = 2 ^ (s + k)"
  using assms by (auto simp: pool_inv_def)

lemma size_dvd:
  assumes "pool_inv s k T z p"
  shows "2 ^ s dvd unat (curr_heap_size p)"
proof -
  note I = pool_invD[OF assms]
  have "2 ^ s dvd z x" if "x \<in> members T None" for x
    using area_invD(7)[OF I(2) _ that] by (auto simp: blk_ok_def blk_def power_add)
  then have "2 ^ s dvd sum z (members T None)" by (rule dvd_sum)
  moreover have "(2::nat) ^ s dvd 2 ^ (s + k)" by (simp add: power_add)
  ultimately show ?thesis using I(3) by (metis dvd_add_left_iff)
qed

lemma same_allocated_sum: "same_allocated T z h T' z' h' \<Longrightarrow> sum z' (members T' None) = sum z (members T None)"
  by (auto simp: same_allocated_def members_def intro: sum.cong)

definition same_blocks :: "forest \<Rightarrow> (anode \<Rightarrow> nat) \<Rightarrow> area_mem \<Rightarrow> (anode \<Rightarrow> nat) \<Rightarrow> area_mem \<Rightarrow> bool" where
  "same_blocks T z h z' h' \<longleftrightarrow> (\<forall>y\<in>members T None. z' y = z y \<and> addr h' y = addr h y)"

lemma add_allocated_ok:
  assumes "pool_ok s k p" and "area_inv s k (unat (mem_start p)) T {x} z (areas p)" and "b \<le> k" and "blk (areas p) z s k x b"
    and "unat (curr_heap_size p) + sum z (members T None) = 2 ^ (s + k)" and "z x \<le> unat (curr_heap_size p)"
  shows "\<exists>p' T'. add_allocated x p = Some (addr (areas p) x, p') \<and> pool_inv s k T' z p' \<and> mem_start p' = mem_start p \<and>
     x \<notin> members T None \<and> members T' None = insert x (members T None) \<and> same_blocks T z (areas p) z (areas p') \<and>
     addr (areas p') x = addr (areas p) x"
proof -
  have "blk_ok (areas p) z s k None x" using assms(3,4) by (auto simp: blk_ok_def)
  from area_inv_add[OF assms(2) _ _ this refl] obtain h t where h: "add_btree_node Alloc_Tree x (areas p) = Some h"
      "set_tree t = insert x (set_tree (T None))" "same_data (areas p) h" "area_inv s k (unat (mem_start p)) (T(None := t)) ({x} - {x}) z h"
    by (auto simp: root_node_def)
  have xo: "x \<notin> members T None" using area_invD(3)[OF assms(2), of None] by auto
  have xr: "x \<noteq> root_node None" using area_invD(2)[OF assms(2)] by auto
  have m: "members (T(None := t)) None = insert x (members T None)" using h(2) xr by (auto simp: members_def)
  define p' where "p' = p\<lparr>curr_heap_size := curr_heap_size p - block_size (areas p x), areas := h, alloc_cnt := alloc_cnt p + 1\<rparr>"
  have bs: "unat (block_size (areas p x)) = z x" using assms(3,4) by (simp add: blk_def)
  have "unat (curr_heap_size p') = unat (curr_heap_size p) - z x"
    using assms(6) bs by (simp add: p'_def unat_sub_le word_le_nat_alt)
  then have "unat (curr_heap_size p') + sum z (members (T(None := t)) None) = 2 ^ (s + k)"
    using assms(5,6) xo by (simp add: m members_finite)
  moreover have "pool_ok s k p'" using assms(1) by (simp add: p'_def pool_ok_def)
  ultimately have "pool_inv s k (T(None := t)) z p'" using h(4) by (simp add: pool_inv_def p'_def)
  moreover have "add_allocated x p = Some (addr (areas p) x, p')" using h(1,3) by (simp add: add_allocated_def p'_def same_data_def)
  moreover have "same_blocks T z (areas p) z (areas p')" "addr (areas p') x = addr (areas p) x"
    using h(3) by (simp_all add: same_blocks_def p'_def same_data_def)
  ultimately show ?thesis using xo m by (intro exI[of _ p'] exI[of _ "T(None := t)"]) (simp add: p'_def)
qed

lemma request_bin:
  assumes "pool_inv s k T z p" and "\<not> sz > curr_heap_size p" and "\<not> next_pow_of_2 sz > curr_heap_size p"
  shows "\<exists>j. j \<le> s + k \<and> next_pow_of_2 sz = 2 ^ j \<and> unat sz \<le> 2 ^ j \<and> 2 ^ j \<le> unat (curr_heap_size p)"
proof -
  note I = pool_invD[OF assms(1)]
  have sk: "s + k < 31" using I(1) by (simp add: pool_ok_def)
  then have "(2::nat) ^ (s + k) < 2 ^ 31" by (rule power_strict_increasing) simp
  then have c: "unat (curr_heap_size p) \<le> 2 ^ (s + k)" "(2::nat) ^ (s + k) < 2 ^ 31" using I(3) by auto
  have le: "unat sz \<le> unat (curr_heap_size p)" "unat (next_pow_of_2 sz) \<le> unat (curr_heap_size p)"
    using assms(2,3) by (simp_all add: word_less_nat_alt)
  have j: "j \<le> s + k" if "(2::nat) ^ j \<le> 2 ^ (s + k)" for j using that by (rule power_le_imp_le_exp[rotated]) simp
  show ?thesis
    using next_pow_of_2_cases[of sz]
  proof cases
    case zero
    then show ?thesis using le by (intro exI[of _ 0]) simp
  next
    case (power i)
    then have "2 ^ i \<le> unat (curr_heap_size p)" using le by (simp add: unat_exp)
    then have "i \<le> s + k" using c(1) by (intro j) linarith
    then show ?thesis using power \<open>2 ^ i \<le> _\<close> by (intro exI[of _ i]) (simp add: unat_exp)
  next
    case (between i)
    have "(2::nat) ^ i < 2 ^ 31" using between(2) le c by linarith
    then have i: "i < 31" by (rule power_less_imp_less_exp[rotated]) simp
    then have "2 ^ Suc i \<le> unat (curr_heap_size p)" using le(2) between(4) by (simp add: unat_exp del: power_Suc)
    then have "Suc i \<le> s + k" using c(1) by (intro j) linarith
    then show ?thesis using between \<open>2 ^ Suc i \<le> _\<close> by (intro exI[of _ "Suc i"]) (simp del: power_Suc)
  qed
qed

lemma bin_of_request:
  assumes "pool_ok s k p" and "j \<le> s + k"
  shows "unat (log_of_2 (drop_bit (unat (log_of_2 (min_alloc_size p))) (2 ^ j))) = j - s"
proof -
  have s: "s < 32" "j < 32" "s + k < 31" using assms by (auto simp: pool_ok_def)
  have "unat (log_of_2 (min_alloc_size p)) = s"
    using assms(1) s log_of_2_exp[of s] by (simp add: pool_ok_def unat_of_nat_small)
  moreover have "drop_bit s (2 ^ j :: u32) = (if s \<le> j then 2 ^ (j - s) else 0)"
  proof (rule bit_word_eqI)
    fix n assume "n < LENGTH(32)"
    then show "bit (drop_bit s (2 ^ j :: u32)) n = bit (if s \<le> j then 2 ^ (j - s) else 0 :: u32) n"
      using s(2) by (auto simp: bit_drop_bit_eq bit_exp_iff)
  qed
  moreover have "unat (log_of_2 (2 ^ (j - s))) = j - s" using s log_of_2_exp[of "j - s"] by (simp add: unat_of_nat_small)
  ultimately show ?thesis using log_of_2_zero by auto
qed

lemma sw_buddy_alloc_ok:
  assumes "pool_inv s k T z p"
  shows "\<exists>a p' T' z'. sw_buddy_alloc sz p = Some (a, p') \<and> pool_inv s k T' z' p' \<and> mem_start p' = mem_start p \<and>
     same_blocks T z (areas p) z' (areas p') \<and>
     (a = 0 \<and> T' None = T None \<or>
      (\<exists>x. x \<notin> members T None \<and> members T' None = insert x (members T None) \<and> a = addr (areas p') x \<and> unat sz \<le> z' x))"
proof (cases "sz > curr_heap_size p \<or> next_pow_of_2 sz > curr_heap_size p")
  case True
  then have "sw_buddy_alloc sz p = Some (0, p)" by (auto simp: sw_buddy_alloc_def Let_def)
  then show ?thesis using assms
    by (intro exI[of _ 0] exI[of _ p] exI[of _ T] exI[of _ z]) (simp add: same_blocks_def)
next
  case False
  note I = pool_invD[OF assms]
  obtain j where j: "j \<le> s + k" "next_pow_of_2 sz = 2 ^ j" "unat sz \<le> 2 ^ j" "2 ^ j \<le> unat (curr_heap_size p)"
    using request_bin[OF assms] False by blast
  have sk: "s + k < 31" using I(1) by (simp add: pool_ok_def)
  have "\<not> next_pow_of_2 sz > max_alloc_size p"
    using j(1,2) I(1) sk by (simp add: pool_ok_def word_less_nat_alt unat_exp not_less power_increasing)
  then have run: "sw_buddy_alloc sz p = do {
      (r, p) \<leftarrow> get_free_buddy (j - s) p;
      case r of Some node \<Rightarrow> add_allocated node p | None \<Rightarrow> Some (0, p) }"
    using False j(2) bin_of_request[OF I(1) j(1)] by (simp add: sw_buddy_alloc_def Let_def)
  have b: "j - s \<le> k" using j(1) by simp
  from get_free_buddy_ok[OF I(2,1) b] obtain r p1 T1 z1 where g: "get_free_buddy (j - s) p = Some (r, p1)" "same_pool p p1"
      "same_allocated T z (areas p) T1 z1 (areas p1)"
      "r = None \<and> area_inv s k (unat (mem_start p)) T1 {} z1 (areas p1) \<or>
       (\<exists>x. r = Some x \<and> area_inv s k (unat (mem_start p)) T1 {x} z1 (areas p1) \<and> blk (areas p1) z1 s k x (j - s))" by blast
  have p1: "pool_ok s k p1" "mem_start p1 = mem_start p" "curr_heap_size p1 = curr_heap_size p"
    using pool_ok_same[OF g(2)] I(1) same_poolD[OF g(2)] by auto
  have m1: "members T1 None = members T None" "T1 None = T None" using g(3) by (simp_all add: same_allocated_def members_def)
  have c: "unat (curr_heap_size p1) + sum z1 (members T1 None) = 2 ^ (s + k)"
    using I(3) p1(3) same_allocated_sum[OF g(3)] by simp
  have sb: "same_blocks T z (areas p) z1 (areas p1)" using g(3) by (simp add: same_blocks_def same_allocated_def)
  from g(4) show ?thesis
  proof (elim disjE exE conjE)
    assume "r = None" "area_inv s k (unat (mem_start p)) T1 {} z1 (areas p1)"
    then show ?thesis using run g(1) p1 c m1 sb
      by (intro exI[of _ 0] exI[of _ p1] exI[of _ T1] exI[of _ z1]) (simp add: pool_inv_def)
  next
    fix x assume x: "r = Some x" "area_inv s k (unat (mem_start p)) T1 {x} z1 (areas p1)" "blk (areas p1) z1 s k x (j - s)"
    have zx: "z1 x = 2 ^ (s + (j - s))" using x(3) by (simp add: blk_def)
    have "0 < unat (curr_heap_size p)" using j(4) by (meson less_le_trans zero_less_numeral zero_less_power)
    then have "2 ^ s \<le> unat (curr_heap_size p)" using size_dvd[OF assms] by (rule dvd_imp_le[rotated])
    then have le: "z1 x \<le> unat (curr_heap_size p1)" using zx j(4) p1(3) by (cases "s \<le> j") auto
    have "(2::nat) ^ j \<le> z1 x" unfolding zx by (rule power_increasing) simp_all
    then have up: "unat sz \<le> z1 x" using j(3) by linarith
    from add_allocated_ok[OF p1(1) x(2)[folded p1(2)] b x(3) c le] obtain p' T' where
      "add_allocated x p1 = Some (addr (areas p1) x, p')" "pool_inv s k T' z1 p'" "mem_start p' = mem_start p1"
      "x \<notin> members T1 None" "members T' None = insert x (members T1 None)" "same_blocks T1 z1 (areas p1) z1 (areas p')"
      "addr (areas p') x = addr (areas p1) x" by blast
    moreover from this have "same_blocks T z (areas p) z1 (areas p')" using sb m1 by (simp add: same_blocks_def)
    ultimately show ?thesis using run g(1) x(1) p1(2) m1(1) up
      by (intro exI[of _ "addr (areas p1) x"] exI[of _ p'] exI[of _ T'] exI[of _ z1]) auto
  qed
qed

section \<open>Freeing\<close>

lemma area_inv_merge:
  assumes "area_inv s k lo T H z h" and "x \<in> H" and "y \<in> H" and "x \<noteq> y"
    and "unat (addr h y) = unat (addr h x) + m" and "z x = m" and "z y = m"
  shows "area_inv s k lo T (H - {y}) (z(x := m + m)) h"
proof -
  note I = area_invD[OF assms(1)]
  have l: "x \<in> live k T H" "y \<in> live k T H" using assms(2,3) by (simp_all add: live_def)
  have "apart lo (lo + 2 ^ (s + k + 1)) (\<lambda>x. unat (addr h x)) (z(x := m + m)) (live k T H - {y})"
    by (rule apart_merge[OF I(6) l assms(4,5,6,7)])
  moreover have "y \<notin> members T i" "x \<notin> members T i" if "i \<in> indices k" for i using I(3)[OF that] assms(2,3) by auto
  moreover from this have "live k T (H - {y}) = live k T H - {y}" by (auto simp: live_def)
  moreover have "blk_ok h (z(x := m + m)) s k i w" if "i \<in> indices k" "w \<in> members T i" for i w
    by (rule blk_ok_cong[OF I(7)[OF that]]) (use calculation(3)[OF that(1)] that(2) in auto)
  moreover have "(H - {y}) \<inter> members T i = {}" if "i \<in> indices k" for i using I(3)[OF that] by auto
  ultimately show ?thesis using I unfolding area_inv_def by auto
qed

lemma buddy_addr:
  assumes "area_inv s k lo T H z (areas p)" and "pool_ok s k p" and "idx \<le> Suc k" and "x \<in> members T (Some idx)"
  shows "unat (addr (areas p) x + push_bit idx (min_alloc_size p)) = unat (addr (areas p) x) + 2 ^ (s + idx)"
    and "lo \<le> unat (addr (areas p) x)" and "unat (addr (areas p) x) + 2 ^ (s + idx) \<le> lo + 2 ^ (s + k + 1)"
proof -
  note I = area_invD[OF assms(1)]
  have "z x = 2 ^ (s + idx)" using I(7)[OF _ assms(4)] assms(3) by (simp add: blk_ok_def blk_def)
  then have b: "lo \<le> unat (addr (areas p) x)" "unat (addr (areas p) x) + 2 ^ (s + idx) \<le> lo + 2 ^ (s + k + 1)"
    using apart_bound[OF I(6) live_member[OF assms(4)]] assms(3) by auto
  show "lo \<le> unat (addr (areas p) x)" "unat (addr (areas p) x) + 2 ^ (s + idx) \<le> lo + 2 ^ (s + k + 1)" by (fact b)+
  have "unat (2 ^ (s + idx) :: u32) = 2 ^ (s + idx)" using assms(2,3) by (intro unat_pow) (simp add: pool_ok_def)
  then show "unat (addr (areas p) x + push_bit idx (min_alloc_size p)) = unat (addr (areas p) x) + 2 ^ (s + idx)"
    using b(2) I(5) push_min[OF assms(2)] by (simp add: unat_add_small)
qed

lemma merge_pair_ok:
  assumes "area_inv s k lo T {} z (areas p)" and "pool_ok s k p" and "idx \<le> k"
    and "f \<in> members T (Some idx)" and "m \<in> members T (Some idx)"
    and "addr (areas p) m = addr (areas p) f + push_bit idx (min_alloc_size p)"
  shows "\<exists>p' T' z'. merge_pair idx f m p = Some p' \<and> same_pool p p' \<and> area_inv s k lo T' {} z' (areas p') \<and>
     same_allocated T z (areas p) T' z' (areas p')"
proof -
  let ?b = "push_bit idx (min_alloc_size p)" and ?r = "root_node (Some idx)" and ?r1 = "root_node (Some (Suc idx))"
  have i: "Some idx \<in> indices k" "Some (Suc idx) \<in> indices k" using assms(3) by auto
  note ba = buddy_addr[OF assms(1,2) _ assms(4)]
  have am: "unat (addr (areas p) m) = unat (addr (areas p) f) + 2 ^ (s + idx)" using ba(1) assms(3,6) by simp
  then have fm: "f \<noteq> m" by auto
  obtain h1 where h1: "remove_btree_node ?r f (areas p) = Some h1" "same_data (areas p) h1"
      "area_inv s k lo (T(Some idx := cut f (T (Some idx)))) {f} z h1" "set_tree (cut f (T (Some idx))) = set_tree (T (Some idx)) - {f}"
    using area_inv_remove[OF assms(1) i(1) assms(4)] by auto
  let ?T1 = "T(Some idx := cut f (T (Some idx)))"
  have m1: "m \<in> members ?T1 (Some idx)" using assms(5) h1(4) fm by (auto simp: members_def)
  obtain h2 where h2: "remove_btree_node ?r m h1 = Some h2" "same_data h1 h2"
      "area_inv s k lo (?T1(Some idx := cut m (?T1 (Some idx)))) {m, f} z h2"
    using area_inv_remove[OF h1(3) i(1) m1] by (auto simp: insert_commute)
  define T2 where "T2 = ?T1(Some idx := cut m (?T1 (Some idx)))"
  have d2: "same_data (areas p) h2" using h1(2) h2(2) by (rule same_data_trans)
  define h3 where "h3 = upd ?r (\<lambda>a. a\<lparr>cnt := cnt a - 2\<rparr>) h2"
  have i3: "area_inv s k lo T2 {m, f} z h3" unfolding h3_def T2_def by (rule area_inv_root_cnt[OF h2(3) i(1)])
  have a3: "addr h3 x = addr (areas p) x" for x using d2 by (simp add: h3_def upd_apply same_data_def)
  have z: "z f = 2 ^ (s + idx)" "z m = 2 ^ (s + idx)"
    using area_invD(7)[OF assms(1) i(1) assms(4)] area_invD(7)[OF assms(1) i(1) assms(5)] by (simp_all add: blk_ok_def blk_def)
  let ?z = "z(f := 2 ^ (s + idx) + 2 ^ (s + idx))"
  have "{m, f} - {m} = {f}" using fm by auto
  then have i4: "area_inv s k lo T2 {f} ?z h3"
    using area_inv_merge[OF i3 _ _ fm _ z] am a3 by simp
  define h4 where "h4 = upd m (\<lambda>a. a\<lparr>mem_addr := 0\<rparr>) h3"
  have mR: "m \<in> range Area" by (rule live_range[OF assms(1) live_member[OF assms(5) i(1)]])
  have ml: "m \<notin> live k T2 {f}" using fm area_invD(3)[OF i3] by (auto simp: live_def)
  have i5: "area_inv s k lo T2 {f} ?z h4" by (rule area_inv_unused[OF i4 mR ml]) (simp add: h4_def)
  define h5 where "h5 = upd f (\<lambda>a. a\<lparr>bin := of_nat (idx + 1), block_size := push_bit (idx + 1) (min_alloc_size p)\<rparr>) h4"
  have i6: "area_inv s k lo T2 {f} ?z h5" unfolding h5_def by (rule area_inv_held_fields[OF i5]) simp
  define h6 where "h6 = upd ?r1 (\<lambda>a. a\<lparr>cnt := cnt a + 1\<rparr>) h5"
  have i7: "area_inv s k lo T2 {f} ?z h6" unfolding h6_def by (rule area_inv_root_cnt[OF i6 i(2)])
  have fr: "f \<noteq> ?r1" using live_range[OF assms(1) live_member[OF assms(4) i(1)]] by auto
  have b: "blk_ok h6 ?z s k (Some (Suc idx)) f"
    using fr push_min[OF assms(2), of "Suc idx"] assms(2,3) unat_pow[of "s + Suc idx"]
    by (simp add: blk_ok_def blk_def h6_def h5_def unat_pow pool_ok_def)
  obtain h7 t where h7: "add_sorted_btree_node ?r1 f h6 = Some h7" "same_data h6 h7"
      "area_inv s k lo (T2(Some (Suc idx) := t)) {} ?z h7"
    using area_inv_add[OF i7 i(2) _ b refl] by auto
  have ns: "\<not> addr (areas p) f + ?b < addr (areas p) f"
    using ba(1) assms(3) by (simp add: word_less_nat_alt not_less)
  define p' where "p' = set_areas h7 p"
  have run: "merge_pair idx f m p = Some p'"
    using free_head_ok[OF assms(2), of idx] free_head_ok[OF assms(2), of "Suc idx"] assms(3) h1(1) h2(1) h7(1) ns
      a3[unfolded h3_def] d2 by (simp add: merge_pair_def Let_def upd_area_def set_areas_def h6_def h5_def h4_def h3_def p'_def same_data_def)
  have "same_allocated T z (areas p) (T2(Some (Suc idx) := t)) ?z (areas p')"
    unfolding same_allocated_def
  proof (intro conjI ballI)
    fix y assume y: "y \<in> members T None"
    have "members T None \<inter> members T (Some idx) = {}"
      using area_invD(1)[OF assms(1)] i(1) unfolding forest_in_def by (metis indices_simps(1) option.distinct(1))
    then have "y \<noteq> f" "y \<noteq> m" using y assms(4,5) by auto
    then show "?z y = z y" "addr (areas p') y = addr (areas p) y"
      using h7(2) a3 by (simp_all add: p'_def same_data_def h6_def h5_def h4_def upd_apply)
  qed (simp add: T2_def)
  then show ?thesis using run h7(3)
    by (intro exI[of _ p'] exI[of _ "T2(Some (Suc idx) := t)"] exI[of _ ?z]) (simp add: p'_def)
qed

lemma merge_loop_ok:
  assumes "area_inv s k lo T {} z (areas p)" and "pool_ok s k p" and "\<forall>i\<in>set is. i \<le> Suc k"
  shows "\<exists>p' T' z'. merge_loop t is p = Some p' \<and> same_pool p p' \<and> area_inv s k lo T' {} z' (areas p') \<and>
     same_allocated T z (areas p) T' z' (areas p')"
  using assms
proof (induction "is" arbitrary: p T z)
  case Nil
  then show ?case by (intro exI[of _ p] exI[of _ T] exI[of _ z]) (simp add: same_allocated_def)
next
  case (Cons idx rest)
  have idx: "idx \<le> Suc k" "\<forall>i\<in>set rest. i \<le> Suc k" using Cons.prems(3) by auto
  have hd: "free_head idx = Some (root_node (Some idx))" using free_head_ok[OF Cons.prems(2) idx(1)] .
  have refl: "\<exists>p' T' z'. Some p = Some p' \<and> same_pool p p' \<and> area_inv s k lo T' {} z' (areas p') \<and>
     same_allocated T z (areas p) T' z' (areas p')"
    using Cons.prems(1) by (intro exI[of _ p] exI[of _ T] exI[of _ z]) (simp add: same_allocated_def)
  show ?case
  proof (cases "rchild (areas p (root_node (Some idx)))")
    case None
    then show ?thesis using hd refl by simp
  next
    case (Some f)
    have fm: "f \<in> members T (Some idx)" by (rule chain_first[OF Cons.prems(1) idx(1) Some])
    note ba = buddy_addr[OF Cons.prems(1,2) idx(1) fm]
    let ?buddy = "addr (areas p) f + push_bit idx (min_alloc_size p)"
    let ?find = "List.find (\<lambda>x. addr (areas p) x = ?buddy) (inorder (T (Some idx)))"
    have F: "bt (areas p) None (Some (root_node (Some idx))) (T (Some idx))" "ordered (areas p) (inorder (T (Some idx)))"
        "addr (areas p) (root_node (Some idx)) = 0"
      using area_invD(1)[OF Cons.prems(1)] idx(1) by (auto simp: forest_in_def)
    have s: "search_btree_node (Some (root_node (Some idx))) ?buddy (areas p) = Some ?find" by (rule search_bt[OF F(1,2)])
    show ?thesis
    proof (cases ?find)
      case None
      then show ?thesis using hd Some s refl Cons.IH[OF Cons.prems(1,2) idx(2)] by simp
    next
      case find: (Some m)
      from find_in[OF find] have m: "m \<in> set_tree (T (Some idx))" "addr (areas p) m = ?buddy" by auto
      have am: "unat (addr (areas p) m) = unat (addr (areas p) f) + 2 ^ (s + idx)" using m(2) ba(1) by simp
      then have "m \<noteq> root_node (Some idx)" using F(3) by auto
      then have mm: "m \<in> members T (Some idx)" using m(1) by (simp add: members_def)
      have "idx \<noteq> Suc k"
      proof
        assume "idx = Suc k"
        then have "unat (addr (areas p) m) \<le> lo" using buddy_addr(3)[OF Cons.prems(1,2) idx(1) mm] by simp
        moreover have "0 < (2::nat) ^ (s + idx)" by simp
        ultimately show False using ba(2) am by linarith
      qed
      then have "idx \<le> k" using idx(1) by simp
      from merge_pair_ok[OF Cons.prems(1,2) this fm mm m(2)] obtain p1 T1 z1 where p1: "merge_pair idx f m p = Some p1"
          "same_pool p p1" "area_inv s k lo T1 {} z1 (areas p1)" "same_allocated T z (areas p) T1 z1 (areas p1)" by blast
      have "pool_ok s k p1" using Cons.prems(2) pool_ok_same[OF p1(2)] by simp
      from Cons.IH[OF p1(3) this idx(2)] obtain p2 T2 z2 where p2: "merge_loop t rest p1 = Some p2" "same_pool p1 p2"
          "area_inv s k lo T2 {} z2 (areas p2)" "same_allocated T1 z1 (areas p1) T2 z2 (areas p2)" by blast
      show ?thesis
        using hd Some s find p1 p2 same_pool_trans[OF p1(2) p2(2)] same_allocated_trans[OF p1(4) p2(4)]
        by (cases "of_nat (idx + 1) = max_bin p1") auto
    qed
  qed
qed

lemma return_to_free_area_ok:
  assumes "area_inv s k lo T {x} z (areas p)" and "pool_ok s k p" and "b \<le> k" and "z x = 2 ^ (s + b)"
  shows "\<exists>p' T' z'. return_to_free_area x (of_nat b) p = Some p' \<and> same_pool p p' \<and> area_inv s k lo T' {} z' (areas p') \<and>
     same_allocated T z (areas p) T' z' (areas p')"
proof -
  let ?r = "root_node (Some b)"
  have b: "unat (of_nat b :: u32) = b" using assms(2,3) by (intro unat_of_nat_small) (simp add: pool_ok_def MAX_BINS_def)
  have hd: "free_head b = Some ?r" using free_head_ok[OF assms(2)] assms(3) by simp
  define p1 where "p1 = upd_area ?r (\<lambda>a. a\<lparr>cnt := cnt a + 1\<rparr>)
     (upd_area x (\<lambda>a. a\<lparr>bin := of_nat b, block_size := push_bit b (min_alloc_size p)\<rparr>) p)"
  have i1: "area_inv s k lo T {x} z (areas p1)" unfolding p1_def areas_set
    by (intro area_inv_root_cnt area_inv_held_fields assms(1)) (use assms(3) in auto)
  have xr: "x \<noteq> ?r" using area_invD(2)[OF assms(1)] by auto
  have bo: "blk_ok (areas p1) z s k (Some b) x"
    using push_min[OF assms(2), of b] assms(2-4) xr by (simp add: blk_ok_def blk_def p1_def unat_pow pool_ok_def)
  obtain h t where h: "add_sorted_btree_node ?r x (areas p1) = Some h" "same_data (areas p1) h"
      "area_inv s k lo (T(Some b := t)) {} z h"
    using area_inv_add[OF i1 _ _ bo refl] assms(3) by auto
  define p2 where "p2 = set_areas h p1"
  have s2: "same_pool p p2" by (simp add: p2_def p1_def same_pool_def set_areas_def upd_area_def)
  have ok2: "pool_ok s k p2" using pool_ok_same[OF s2] assms(2) by simp
  have sa: "same_allocated T z (areas p) (T(Some b := t)) z (areas p2)"
    using h(2) by (simp add: same_allocated_def p2_def same_data_def) (simp add: p1_def upd_apply)
  have "area_inv s k lo (T(Some b := t)) {} z (areas p2)" using h(3) by (simp add: p2_def)
  moreover have "\<forall>i\<in>set [b..<Suc k + 1]. i \<le> Suc k" by auto
  ultimately obtain p3 T3 z3 where p3: "merge_loop x [b..<Suc k + 1] p2 = Some p3"
      "same_pool p2 p3" "area_inv s k lo T3 {} z3 (areas p3)" "same_allocated (T(Some b := t)) z (areas p2) T3 z3 (areas p3)"
    using merge_loop_ok[OF _ ok2] by blast
  have "return_to_free_area x (of_nat b) p =
      (if of_nat b = max_bin p then Some p2 else merge_loop x [b..<unat (max_bin p) + 1] p2)"
    using b hd h(1) by (simp add: return_to_free_area_def Let_def p2_def p1_def upd_area_def set_areas_def)
  also have "\<dots> = Some p3"
  proof -
    have "of_nat b \<noteq> max_bin p" using max_bin_ok[OF assms(2)] b assms(3) by auto
    then show ?thesis using p3(1) max_bin_ok[OF assms(2)] by simp
  qed
  finally show ?thesis using p3(3) same_pool_trans[OF s2 p3(2)] same_allocated_trans[OF sa p3(4)] by blast
qed

lemma sw_buddy_free_ok:
  assumes "pool_inv s k T z p" and "x \<in> members T None"
  shows "\<exists>p' T' z'. sw_buddy_free (addr (areas p) x) p = Some p' \<and> pool_inv s k T' z' p' \<and> mem_start p' = mem_start p \<and>
     members T' None = members T None - {x} \<and> (\<forall>y\<in>members T None - {x}. z' y = z y \<and> addr (areas p') y = addr (areas p) y)"
proof -
  note I = pool_invD[OF assms(1)]
  obtain b where b: "b \<le> k" "blk (areas p) z s k x b" using area_invD(7)[OF I(2) _ assms(2)] by (auto simp: blk_ok_def)
  have bs: "unat (block_size (areas p x)) = z x" "bin (areas p x) = of_nat b" "z x = 2 ^ (s + b)" using b by (auto simp: blk_def)
  obtain h where h: "remove_btree_node Alloc_Tree x (areas p) = Some h" "same_data (areas p) h"
      "area_inv s k (unat (mem_start p)) (T(None := cut x (T None))) {x} z h" "set_tree (cut x (T None)) = set_tree (T None) - {x}"
    using area_inv_remove[OF I(2) _ assms(2)] by (auto simp: root_node_def)
  define p1 where "p1 = p\<lparr>curr_heap_size := curr_heap_size p + block_size (areas p x), areas := h, alloc_cnt := alloc_cnt p - 1\<rparr>"
  have m1: "members (T(None := cut x (T None))) None = members T None - {x}" using h(4) by (auto simp: members_def)
  have ok1: "pool_ok s k p1" "mem_start p1 = mem_start p" using I(1) by (simp_all add: p1_def pool_ok_def)
  have sum: "sum z (members T None) = z x + sum z (members T None - {x})" using assms(2) by (simp add: sum.remove members_finite)
  have "s + k < 31" using I(1) by (simp add: pool_ok_def)
  then have "(2::nat) ^ (s + k) < 2 ^ 31" by (rule power_strict_increasing) simp
  then have "unat (curr_heap_size p) + z x < 2 ^ 32" using I(3) sum by simp
  then have c1: "unat (curr_heap_size p1) + sum z (members T None - {x}) = 2 ^ (s + k)"
    using I(3) sum bs(1) by (simp add: p1_def unat_add_small)
  from return_to_free_area_ok[of s k "unat (mem_start p1)" "T(None := cut x (T None))" x z p1 b] h(3) ok1 b(1) bs(3)
  obtain p2 T2 z2 where p2: "return_to_free_area x (of_nat b) p1 = Some p2" "same_pool p1 p2"
      "area_inv s k (unat (mem_start p1)) T2 {} z2 (areas p2)" "same_allocated (T(None := cut x (T None))) z (areas p1) T2 z2 (areas p2)"
    by (auto simp: p1_def)
  have m2: "members T2 None = members T None - {x}" using p2(4) m1 by (simp add: same_allocated_def members_def)
  have "\<forall>y\<in>members T None - {x}. z2 y = z y \<and> addr (areas p2) y = addr (areas p) y"
    using p2(4) m1 h(2) by (simp add: same_allocated_def p1_def same_data_def)
  moreover from this have "sum z2 (members T2 None) = sum z (members T None - {x})" unfolding m2 by (intro sum.cong) auto
  then have "pool_inv s k T2 z2 p2"
    using p2(3) c1 ok1 pool_ok_same[OF p2(2)] same_poolD[OF p2(2)] by (simp add: pool_inv_def)
  moreover have "sw_buddy_free (addr (areas p) x) p = Some p2"
    using search_alloc[OF I(2)] find_alloc[OF I(2) assms(2)] h(1) p2(1) bs(2) by (simp add: sw_buddy_free_def p1_def)
  ultimately show ?thesis using m2 ok1 same_poolD[OF p2(2)] by auto
qed

lemma block_len_iff:
  assumes "pool_inv s k T z p" and "0 < n"
  shows "block_len p a = n \<longleftrightarrow> (\<exists>x\<in>members T None. addr (areas p) x = a \<and> z x = n)"
  using block_len_pos[OF pool_invD(2)[OF assms(1)]] block_len_member[OF pool_invD(2)[OF assms(1)]] assms(2) by metis

lemma block_len_eqI:
  assumes "\<And>n. 0 < n \<Longrightarrow> block_len p' a = n \<longleftrightarrow> block_len p a = n"
  shows "block_len p' a = block_len p a"
  using assms[of "block_len p a"] assms[of "block_len p' a"] by (cases "block_len p a = 0"; cases "block_len p' a = 0") auto

lemma block_len_same:
  assumes "pool_inv s k T z p" and "pool_inv s k T' z' p'" and "members T' None = insert x (members T None)"
    and "\<forall>y\<in>members T None. z' y = z y \<and> addr (areas p') y = addr (areas p) y" and "addr (areas p') x \<noteq> a"
  shows "block_len p' a = block_len p a"
proof (rule block_len_eqI)
  fix n :: nat assume n: "0 < n"
  show "block_len p' a = n \<longleftrightarrow> block_len p a = n"
    unfolding block_len_iff[OF assms(1) n] block_len_iff[OF assms(2) n] assms(3) using assms(4,5) by auto
qed

lemma block_len_eq:
  assumes "pool_inv s k T z p" and "pool_inv s k T' z' p'" and "members T' None = members T None"
    and "\<forall>y\<in>members T None. z' y = z y \<and> addr (areas p') y = addr (areas p) y"
  shows "block_len p' a = block_len p a"
proof (rule block_len_eqI)
  fix n :: nat assume n: "0 < n"
  show "block_len p' a = n \<longleftrightarrow> block_len p a = n"
    unfolding block_len_iff[OF assms(1) n] block_len_iff[OF assms(2) n] assms(3) using assms(4) by auto
qed

lemma buddy_inv_apart:
  assumes "buddy_inv p" and "0 < block_len p a" and "0 < block_len p c" and "a \<noteq> c"
  shows "unat a + block_len p a \<le> unat c \<or> unat c + block_len p c \<le> unat a"
proof -
  obtain s k T z where I: "pool_inv s k T z p" using assms(1) by (auto simp: buddy_inv_def)
  obtain x y where xy: "x \<in> members T None" "addr (areas p) x = a" "z x = block_len p a"
      "y \<in> members T None" "addr (areas p) y = c" "z y = block_len p c"
    using block_len_pos[OF pool_invD(2)[OF I] assms(2)] block_len_pos[OF pool_invD(2)[OF I] assms(3)] by blast
  from apart_pair[OF area_invD(6)[OF pool_invD(2)[OF I]] live_member[OF xy(1)] live_member[OF xy(4)]] assms(4) xy
  show ?thesis by auto
qed

lemma buddy_inv_bounds:
  assumes "buddy_inv p" and "0 < block_len p a"
  shows "unat (mem_start p) \<le> unat a \<and> unat a + block_len p a \<le> unat (mem_start p) + 2 * unat (max_alloc_size p)"
proof -
  obtain s k T z where I: "pool_inv s k T z p" using assms(1) by (auto simp: buddy_inv_def)
  obtain x where x: "x \<in> members T None" "addr (areas p) x = a" "z x = block_len p a"
    using block_len_pos[OF pool_invD(2)[OF I] assms(2)] by blast
  have "unat (max_alloc_size p) = 2 ^ (s + k)" using pool_invD(1)[OF I] by (simp add: pool_ok_def unat_pow)
  then show ?thesis using apart_bound[OF area_invD(6)[OF pool_invD(2)[OF I]] live_member[OF x(1)]] x by auto
qed

lemma buddy_alloc_law:
  assumes "buddy_inv p"
  shows "\<exists>a p'. sw_buddy_alloc sz p = Some (a, p') \<and> buddy_inv p' \<and>
     (if a = 0 then block_len p' = block_len p
      else block_len p a = 0 \<and> 0 < block_len p' a \<and> unat sz \<le> block_len p' a \<and>
        (\<forall>c. c \<noteq> a \<longrightarrow> block_len p' c = block_len p c))"
proof -
  obtain s k T z where I: "pool_inv s k T z p" using assms by (auto simp: buddy_inv_def)
  from sw_buddy_alloc_ok[OF I, of sz] obtain a p' T' z' where r: "sw_buddy_alloc sz p = Some (a, p')" "pool_inv s k T' z' p'"
      "same_blocks T z (areas p) z' (areas p')"
      "a = 0 \<and> T' None = T None \<or>
       (\<exists>x. x \<notin> members T None \<and> members T' None = insert x (members T None) \<and> a = addr (areas p') x \<and> unat sz \<le> z' x)"
    by blast
  have inv: "buddy_inv p'" using r(2) by (auto simp: buddy_inv_def)
  have same: "\<forall>y\<in>members T None. z' y = z y \<and> addr (areas p') y = addr (areas p) y" using r(3) by (simp add: same_blocks_def)
  from r(4) show ?thesis
  proof (elim disjE exE conjE)
    assume a: "a = 0" "T' None = T None"
    then have "members T' None = members T None" by (simp add: members_def)
    from block_len_eq[OF I r(2) this same] have "block_len p' = block_len p" by auto
    then show ?thesis using r(1) a inv by (intro exI[of _ a] exI[of _ p']) simp
  next
    fix x assume x: "x \<notin> members T None" "members T' None = insert x (members T None)" "a = addr (areas p') x" "unat sz \<le> z' x"
    have xm: "x \<in> members T' None" using x(2) by simp
    note I' = pool_invD(2)[OF r(2)]
    have xl: "x \<in> live k T' {}" by (rule live_member[OF xm]) simp
    have a0: "a \<noteq> 0" using live_addr[OF I' xl] x(3) by simp
    have new: "block_len p' a = z' x" using block_len_member[OF I' xm] x(3) by simp
    have pos: "0 < z' x" using apart_bound[OF area_invD(6)[OF I'] xl] by simp
    have old: "block_len p a = 0"
    proof (rule block_len_none[OF pool_invD(2)[OF I]], intro ballI notI)
      fix y assume y: "y \<in> members T None" "addr (areas p) y = a"
      then have "y \<in> live k T' {}" using x(2) by (intro live_member) auto
      moreover have "addr (areas p') y = addr (areas p') x" using y same x(3) by simp
      ultimately show False using live_inj[OF I' _ xl] y(1) x(1) by blast
    qed
    have "\<forall>c. c \<noteq> a \<longrightarrow> block_len p' c = block_len p c"
      using block_len_same[OF I r(2) x(2) same] x(3) by auto
    then show ?thesis using r(1) inv a0 new pos old x(4) by (intro exI[of _ a] exI[of _ p']) simp
  qed
qed

lemma buddy_free_law:
  assumes "buddy_inv p" and "a \<noteq> 0"
  shows "\<exists>p'. sw_buddy_free a p = Some p' \<and> buddy_inv p' \<and> block_len p' = (block_len p)(a := 0)"
proof -
  obtain s k T z where I: "pool_inv s k T z p" using assms(1) by (auto simp: buddy_inv_def)
  note I2 = pool_invD(2)[OF I]
  show ?thesis
  proof (cases "\<exists>x\<in>members T None. addr (areas p) x = a")
    case False
    then have "sw_buddy_free a p = Some p"
      using search_alloc[OF I2, of a] find_alloc_none[OF assms(2) I2] by (simp add: sw_buddy_free_def)
    moreover have "block_len p a = 0" using block_len_none[OF I2] False by blast
    ultimately show ?thesis using assms(1) by (intro exI[of _ p]) auto
  next
    case True
    then obtain x where x: "x \<in> members T None" "addr (areas p) x = a" by blast
    from sw_buddy_free_ok[OF I x(1)] x(2) obtain p' T' z' where r: "sw_buddy_free a p = Some p'" "pool_inv s k T' z' p'"
        "members T' None = members T None - {x}" "\<forall>y\<in>members T None - {x}. z' y = z y \<and> addr (areas p') y = addr (areas p) y"
      by blast
    have xl: "x \<in> live k T {}" by (rule live_member[OF x(1)]) simp
    have ne: "addr (areas p) y \<noteq> a" if "y \<in> members T None" "y \<noteq> x" for y
      using live_inj[OF I2 _ xl] live_member[OF that(1), of k "{}"] that(2) x(2) by auto
    have "block_len p' c = ((block_len p)(a := 0)) c" for c
    proof (cases "c = a")
      case True
      then show ?thesis using block_len_none[OF pool_invD(2)[OF r(2)], of a] ne r(3,4) by auto
    next
      case False
      have i: "insert x (members T' None) = members T None" using r(3) x(1) by auto
      have "block_len p c = block_len p' c"
      proof (rule block_len_eqI)
        fix n :: nat assume n: "0 < n"
        show "block_len p c = n \<longleftrightarrow> block_len p' c = n"
          unfolding block_len_iff[OF I n] block_len_iff[OF r(2) n] i[symmetric] using r(3,4) x(2) False by auto
      qed
      then show ?thesis using False by simp
    qed
    then show ?thesis using r(1,2) by (intro exI[of _ p']) (auto simp: buddy_inv_def)
  qed
qed

section \<open>Allocators of blocks\<close>

text \<open>What a client of a block allocator relies on.\<close>

locale block_allocator =
  fixes inv :: "'s \<Rightarrow> bool" and len :: "'s \<Rightarrow> u32 \<Rightarrow> nat"
    and alloc :: "u32 \<Rightarrow> 's \<Rightarrow> (u32 \<times> 's) option" and free :: "u32 \<Rightarrow> 's \<Rightarrow> 's option"
  assumes apart: "inv p \<Longrightarrow> 0 < len p a \<Longrightarrow> 0 < len p c \<Longrightarrow> a \<noteq> c \<Longrightarrow>
      unat a + len p a \<le> unat c \<or> unat c + len p c \<le> unat a"
    and alloc_law: "inv p \<Longrightarrow> \<exists>a p'. alloc sz p = Some (a, p') \<and> inv p' \<and>
     (if a = 0 then len p' = len p
      else len p a = 0 \<and> 0 < len p' a \<and> unat sz \<le> len p' a \<and> (\<forall>c. c \<noteq> a \<longrightarrow> len p' c = len p c))"
    and free_law: "inv p \<Longrightarrow> a \<noteq> 0 \<Longrightarrow> \<exists>p'. free a p = Some p' \<and> inv p' \<and> len p' = (len p)(a := 0)"
begin

lemma alloc_inv: "inv p \<Longrightarrow> alloc sz p = Some (a, p') \<Longrightarrow> inv p'"
  using alloc_law[of p sz] by auto

lemma alloc_separate:
  assumes "inv p" and "alloc sz p = Some (a, p')" and "a \<noteq> 0" and "0 < len p c"
  shows "len p' c = len p c \<and> (unat a + unat sz \<le> unat c \<or> unat c + len p c \<le> unat a)"
proof -
  from alloc_law[OF assms(1), of sz] assms(2,3) have r: "inv p'" "len p a = 0" "0 < len p' a" "unat sz \<le> len p' a"
      "\<forall>c. c \<noteq> a \<longrightarrow> len p' c = len p c" by auto
  have "c \<noteq> a" using r(2) assms(4) by auto
  then show ?thesis using apart[OF r(1,3), of c] r(4,5) assms(4) by auto
qed

lemma free_alloc:
  assumes "inv p" and "alloc sz p = Some (a, p')" and "a \<noteq> 0"
  shows "\<exists>p''. free a p' = Some p'' \<and> inv p'' \<and> len p'' = len p"
proof -
  from alloc_law[OF assms(1), of sz] assms(2,3) have r: "inv p'" "len p a = 0" "\<forall>c. c \<noteq> a \<longrightarrow> len p' c = len p c" by auto
  from free_law[OF r(1) assms(3)] r(2,3) show ?thesis by force
qed

fun run :: "(bool \<times> u32) list \<Rightarrow> 's \<Rightarrow> 's option" where
  "run [] p = Some p"
| "run ((allocate, n) # ops) p =
     (if allocate then Option.bind (alloc n p) (\<lambda>(a, p'). run ops p')
      else if n = 0 then run ops p else Option.bind (free n p) (run ops))"

lemma run_inv: "inv p \<Longrightarrow> \<exists>p'. run ops p = Some p' \<and> inv p'"
proof (induction ops arbitrary: p)
  case (Cons o1 ops)
  obtain al n where o1: "o1 = (al, n)" by (cases o1)
  obtain a p1 where "alloc n p = Some (a, p1)" "inv p1" using alloc_law[OF Cons.prems, of n] by blast
  moreover have "n \<noteq> 0 \<Longrightarrow> \<exists>p1. free n p = Some p1 \<and> inv p1" using free_law[OF Cons.prems] by blast
  ultimately show ?case using Cons.IH Cons.prems by (auto simp: o1)
qed simp

end

interpretation buddy: block_allocator buddy_inv block_len sw_buddy_alloc sw_buddy_free
  by (rule block_allocator.intro) (erule (3) buddy_inv_apart, rule buddy_alloc_law, assumption, erule (1) buddy_free_law)

section \<open>Initialisation\<close>

definition init_forest :: "nat \<Rightarrow> forest" where
  "init_forest k i = chain [root_node i]"

lemma init_members [simp]: "members (init_forest k) i = {}"
  by (simp add: init_forest_def members_def)

lemma ucast_u64_back: "(ucast (ucast (x :: u32) :: u64) :: u32) = x"
  by (rule bit_word_eqI) (simp add: bit_simps)

lemma is_pow_of_2_exp: "j < 32 \<Longrightarrow> is_pow_of_2 (ucast (2 ^ j :: u32))"
proof -
  assume j: "j < 32"
  have "(ucast (2 ^ j :: u32) :: u64) = 2 ^ j"
    using j by (intro unsigned_word_eqI[where 'a = nat]) (simp add: unat_ucast_u64 unat_exp)
  then show ?thesis unfolding is_pow_of_2_iff using j by (intro exI[of _ j]) simp
qed

lemma drop_bit_exp: "i \<le> j \<Longrightarrow> j < 32 \<Longrightarrow> drop_bit i (2 ^ j :: u32) = 2 ^ (j - i)"
  by (rule bit_word_eqI) (auto simp: bit_drop_bit_eq bit_exp_iff)

lemma sint_small: "unat (w :: u32) < 2 ^ 31 \<Longrightarrow> nat (sint w) = unat w"
proof -
  assume "unat w < 2 ^ 31"
  then have "unat w < 2147483648" by simp
  then have "uint w < 2147483648" unfolding uint_of_unat by linarith
  then have "sint w = uint w" by (rule sint_u32_cases(1))
  then show ?thesis by simp
qed

definition initial_areas :: "nat \<Rightarrow> area_mem \<Rightarrow> bool" where
  "initial_areas k h \<longleftrightarrow> (\<forall>i\<in>indices k. h (root_node i) = empty_area) \<and> h (Area 0) = empty_area"

lemma initial_forest: "initial_areas k h \<Longrightarrow> forest_in h k (init_forest k)"
  unfolding initial_areas_def forest_in_def init_members
  by (auto simp: init_forest_def empty_area_def intro!: exI[of _ "[]"])

lemma initial_block:
  assumes "initial_areas k h" and "0 < unat lo" and "unat lo + 2 ^ (s + k + 1) < 2 ^ 32" and "Suc k < MAX_BINS"
    and "h1 = upd (Area 0) (\<lambda>a. a\<lparr>mem_addr := lo, bin := of_nat (Suc k), block_size := c\<rparr>) h"
  shows "\<exists>h' t. add_sorted_btree_node (root_node (Some (Suc k))) (Area 0) h1 = Some h' \<and>
     area_inv s k (unat lo) ((init_forest k)(Some (Suc k) := t)) {} (\<lambda>_. 2 ^ (s + k + 1)) h'"
proof -
  have f: "forest_in h1 k (init_forest k)"
    by (rule forest_frame[OF initial_forest[OF assms(1)], where y = "Area 0"])
      (auto simp: assms(5) upd_apply init_forest_def)
  have "area_inv s k (unat lo) (init_forest k) {Area 0} (\<lambda>_. 2 ^ (s + k + 1)) h1"
    using f assms by (simp add: area_inv_def live_def apart_def initial_areas_def empty_area_def)
  moreover have "blk_ok h1 (\<lambda>_. 2 ^ (s + k + 1)) s k (Some (Suc k)) (Area 0)"
    by (simp add: blk_ok_def blk_def assms(5))
  ultimately show ?thesis
    using area_inv_add[of s k "unat lo" "init_forest k" "{Area 0}" "\<lambda>_. 2 ^ (s + k + 1)" h1 "Some (Suc k)" "Area 0", OF _ _ _ _ refl] by auto
qed

lemma sw_buddy_init_ok:
  assumes "s + k < 31" and "Suc k < MAX_BINS"
    and "lo = start + get_manage_area (2 ^ (s + k)) (2 ^ s)" and "0 < unat lo" and "unat lo + 2 ^ (s + k + 1) < 2 ^ 32"
    and "sz - ucast (get_manage_area (2 ^ (s + k)) (2 ^ s)) = (ucast (2 ^ (s + k) :: u32) :: u64)"
  shows "\<exists>p'. sw_buddy_init p start sz (2 ^ s) (2 ^ (s + k)) = Some (p', Inr ()) \<and> buddy_inv p' \<and>
     mem_start p' = lo \<and> max_alloc_size p' = 2 ^ (s + k) \<and> (\<forall>a. block_len p' a = 0)"
proof -
  have k: "s + k < 32" "k < 20" "k < 31" using assms(1,2) by (auto simp: MAX_BINS_def)
  have un: "unat (of_nat j :: u32) = j" if "j < 64" for j using that by (intro unat_of_nat_small) simp
  have lg: "log_of_2 (2 ^ s) = of_nat s" "log_of_2 (2 ^ (s + k)) = of_nat (s + k)" using k log_of_2_exp by auto
  define h0 where "h0 = clear_areas (2 ^ k) ((areas p)(Alloc_Tree := empty_area))"
  define p0 where "p0 = p\<lparr>total_area_cnt := 2 ^ k, next_free_index := 0, alloc_cnt := 0,
     mem_start := lo, mem_size := 2 ^ (s + k), curr_heap_size := 2 ^ (s + k),
     pool_start := start, pool_size := ucast sz, areas := h0, min_alloc_size := 2 ^ s, max_alloc_size := 2 ^ (s + k),
     max_bin := of_nat (Suc k)\<rparr>"
  have bins: "log_of_2 (2 ^ (s + k)) - log_of_2 (2 ^ s) + 1 = (of_nat (Suc k) :: u32)" by (simp add: lg)
  have nb: "\<not> (of_nat (Suc k) :: u32) > of_nat MAX_BINS"
    using k(2) un[of "Suc k"] un[of 20] by (simp add: word_less_nat_alt MAX_BINS_def del: of_nat_Suc)
  have u0: "unat (2 ^ (s + k) :: u32) = 2 ^ (s + k)" using k by (simp add: unat_exp)
  have mz: "(ucast (2 ^ (s + k) :: u32) :: u64) \<noteq> 0"
  proof
    assume "(ucast (2 ^ (s + k) :: u32) :: u64) = 0"
    then have "unat (2 ^ (s + k) :: u32) = 0" using unat_ucast_u64[of "2 ^ (s + k)"] by simp
    then show False using u0 by simp
  qed
  have d: "drop_bit (unat (of_nat s :: u32)) (2 ^ (s + k)) = (2 ^ k :: u32)"
    "drop_bit (unat (of_nat (s + k) :: u32)) (2 ^ (s + k)) = (1 :: u32)"
    using k un[of s] un[of "s + k"] drop_bit_exp[of s "s + k"] drop_bit_exp[of "s + k" "s + k"] by (simp_all del: of_nat_add)
  have u2: "unat (2 ^ k :: u32) = 2 ^ k" using k by (simp add: unat_exp)
  have run: "sw_buddy_init p start sz (2 ^ s) (2 ^ (s + k)) = init_nodes 1 lo (of_nat (Suc k)) p0"
    using is_pow_of_2_exp[of s] is_pow_of_2_exp[of "s + k"] k nb bins d assms(3,6) mz u2
    by (simp add: sw_buddy_init_def Let_def lg p0_def h0_def ucast_u64_back del: of_nat_Suc of_nat_add)
  have init: "initial_areas k h0"
    using assms(2) by (auto simp: initial_areas_def h0_def clear_areas_def root_node_def indices_def)
  have "unat (2 ^ k :: u32) < 2 ^ 31" unfolding u2 by (rule power_strict_increasing) (use k in simp_all)
  then have "nat (sint (2 ^ k :: u32)) = 2 ^ k" using sint_small u2 by metis
  then have "List.find (\<lambda>i. addr h0 (Area i) = 0) [nat (sint (0::u32))..<nat (sint (2 ^ k :: u32))] = Some 0"
    using init by (simp add: upt_rec initial_areas_def empty_area_def)
  then obtain nx where gf: "get_free_node p0 = (Some (Area 0), upd_area (Area 0) (\<lambda>_. empty_area) (p0\<lparr>next_free_index := nx\<rparr>))"
    by (simp add: get_free_node_def p0_def)
  define p1 where "p1 = upd_area (Area 0) (\<lambda>a. a\<lparr>mem_addr := lo, bin := of_nat (Suc k), block_size := 2 ^ (s + k)\<rparr>)
     (upd_area (Area 0) (\<lambda>_. empty_area) (p0\<lparr>next_free_index := nx\<rparr>))"
  have e: "upd (Area 0) (\<lambda>_. empty_area) h0 = h0" using init by (auto simp: upd_def initial_areas_def)
  have a1: "areas p1 = upd (Area 0) (\<lambda>a. a\<lparr>mem_addr := lo, bin := of_nat (Suc k), block_size := 2 ^ (s + k)\<rparr>) h0"
    by (simp add: p1_def e) (simp add: p0_def e)
  obtain h' t where h: "add_sorted_btree_node (root_node (Some (Suc k))) (Area 0) (areas p1) = Some h'"
      "area_inv s k (unat lo) ((init_forest k)(Some (Suc k) := t)) {} (\<lambda>_. 2 ^ (s + k + 1)) h'"
    using initial_block[OF init assms(4,5,2) a1] by blast
  define p' where "p' = upd_area (root_node (Some (Suc k))) (\<lambda>a. a\<lparr>cnt := cnt a + 1\<rparr>) (set_areas h' p1)"
  have hd: "free_head (unat (of_nat (Suc k) :: u32)) = Some (root_node (Some (Suc k)))"
    using un[of "Suc k"] k assms(2) by (simp add: free_head_def root_node_def del: of_nat_Suc)
  have "max_alloc_size (upd_area (Area 0) (\<lambda>_. empty_area) (p0\<lparr>next_free_index := nx\<rparr>)) = 2 ^ (s + k)"
    by (simp add: upd_area_def p0_def)
  moreover have a0: "areas p0 = h0" by (simp add: p0_def)
  ultimately have "init_nodes 1 lo (of_nat (Suc k)) p0 = Some (p', Inr ())"
    using gf hd h(1)[unfolded a1] e a0 by (simp add: p'_def Let_def p1_def[symmetric] del: of_nat_Suc)
  moreover have inv: "pool_inv s k ((init_forest k)(Some (Suc k) := t)) (\<lambda>_. 2 ^ (s + k + 1)) p'"
  proof -
    have "area_inv s k (unat lo) ((init_forest k)(Some (Suc k) := t)) {} (\<lambda>_. 2 ^ (s + k + 1)) (areas p')"
      unfolding p'_def areas_set by (rule area_inv_root_cnt[OF h(2)]) simp
    moreover have "members ((init_forest k)(Some (Suc k) := t)) None = {}" by (simp add: members_def init_forest_def)
    ultimately show ?thesis using assms(1,2) u0
      by (simp add: pool_inv_def pool_ok_def p'_def p1_def p0_def upd_area_def set_areas_def)
  qed
  moreover have "block_len p' a = 0" for a
    by (rule block_len_none[OF pool_invD(2)[OF inv]]) (simp add: members_def init_forest_def)
  moreover have "mem_start p' = lo" "max_alloc_size p' = 2 ^ (s + k)" by (simp_all add: p'_def p1_def p0_def upd_area_def set_areas_def)
  ultimately show ?thesis using run by (auto simp: buddy_inv_def)
qed

section \<open>The bounds of the heap\<close>

text \<open>The same allocator with the bounds of its heap fixed: no operation moves them.\<close>

definition heap_at :: "u32 \<Rightarrow> u32 \<Rightarrow> sw_buddy_pool \<Rightarrow> bool" where
  "heap_at lo m p \<longleftrightarrow> buddy_inv p \<and> mem_start p = lo \<and> max_alloc_size p = m"

lemma pool_inv_max: "pool_inv s k T z p \<Longrightarrow> max_alloc_size p = 2 ^ (s + k)"
  by (simp add: pool_inv_def pool_ok_def)

lemma sw_buddy_alloc_keeps_heap:
  assumes "buddy_inv p" and "sw_buddy_alloc n p = Some (a, p')"
  shows "mem_start p' = mem_start p \<and> max_alloc_size p' = max_alloc_size p"
proof -
  obtain s k T z where I: "pool_inv s k T z p" using assms(1) by (auto simp: buddy_inv_def)
  show ?thesis using sw_buddy_alloc_ok[OF I, of n] pool_inv_max[OF I] assms(2) by (auto dest: pool_inv_max)
qed

lemma sw_buddy_free_keeps_heap:
  assumes "buddy_inv p" and "a \<noteq> 0" and "sw_buddy_free a p = Some p'"
  shows "mem_start p' = mem_start p \<and> max_alloc_size p' = max_alloc_size p"
proof -
  obtain s k T z where I: "pool_inv s k T z p" using assms(1) by (auto simp: buddy_inv_def)
  show ?thesis
  proof (cases "\<exists>x\<in>members T None. addr (areas p) x = a")
    case True
    then obtain x where x: "x \<in> members T None" "addr (areas p) x = a" by blast
    show ?thesis using sw_buddy_free_ok[OF I x(1)] x(2) pool_inv_max[OF I] assms(3) by (auto dest: pool_inv_max)
  next
    case False
    then have "sw_buddy_free a p = Some p"
      using search_alloc[OF pool_invD(2)[OF I], of a] find_alloc_none[OF assms(2) pool_invD(2)[OF I]] by (simp add: sw_buddy_free_def)
    then show ?thesis using assms(3) by simp
  qed
qed

lemma heap_at_allocator: "block_allocator (heap_at lo m) block_len sw_buddy_alloc sw_buddy_free"
proof
  fix p a c assume "heap_at lo m p" "0 < block_len p a" "0 < block_len p c" "a \<noteq> c"
  then show "unat a + block_len p a \<le> unat c \<or> unat c + block_len p c \<le> unat a"
    using buddy.apart unfolding heap_at_def by blast
next
  fix p sz assume p: "heap_at lo m p"
  then show "\<exists>a p'. sw_buddy_alloc sz p = Some (a, p') \<and> heap_at lo m p' \<and>
     (if a = 0 then block_len p' = block_len p
      else block_len p a = 0 \<and> 0 < block_len p' a \<and> unat sz \<le> block_len p' a \<and> (\<forall>c. c \<noteq> a \<longrightarrow> block_len p' c = block_len p c))"
    using buddy_alloc_law[of p sz] sw_buddy_alloc_keeps_heap[of p sz] unfolding heap_at_def by metis
next
  fix p and a :: u32 assume "heap_at lo m p" "a \<noteq> 0"
  then show "\<exists>p'. sw_buddy_free a p = Some p' \<and> heap_at lo m p' \<and> block_len p' = (block_len p)(a := 0)"
    using buddy_free_law[of p a] sw_buddy_free_keeps_heap[of p a] unfolding heap_at_def by metis
qed

interpretation buddy_at: block_allocator "heap_at lo m" block_len sw_buddy_alloc sw_buddy_free for lo m
  by (rule heap_at_allocator)

lemma heap_at_bounds:
  "heap_at lo m p \<Longrightarrow> 0 < block_len p a \<Longrightarrow> unat lo \<le> unat a \<and> unat a + block_len p a \<le> unat lo + 2 * unat m"
  using buddy_inv_bounds unfolding heap_at_def by blast

section \<open>Running the allocator\<close>

text \<open>For evaluation the descriptors are a table; an update replaces an entry.\<close>

definition tab :: "(anode \<times> sw_area) list \<Rightarrow> area_mem" where
  "tab xs x = (case map_of xs x of Some a \<Rightarrow> a | None \<Rightarrow> empty_area)"

fun put :: "anode \<Rightarrow> sw_area \<Rightarrow> (anode \<times> sw_area) list \<Rightarrow> (anode \<times> sw_area) list" where
  "put x a [] = [(x, a)]" | "put x a ((y, b) # xs) = (if x = y then (x, a) # xs else (y, b) # put x a xs)"

lemma map_of_put: "map_of (put x a xs) = (map_of xs)(x \<mapsto> a)"
  by (induction x a xs rule: put.induct) (auto simp: fun_eq_iff)

lemma tab_upd: "upd x f (tab xs) = tab (put x (f (tab xs x)) xs)"
  by (rule ext) (simp add: upd_def tab_def map_of_put)

lemma tab_fun_upd: "(tab xs)(x := a) = tab (put x a xs)"
  by (rule ext) (simp add: tab_def map_of_put)

lemma tab_clear: "clear_areas n (tab [(Alloc_Tree, empty_area)]) = tab []"
  by (rule ext) (simp add: tab_def clear_areas_def split: anode.split)

lemma empty_area_fields: "mem_addr empty_area = 0" "lchild empty_area = None" "rchild empty_area = None" "parent empty_area = None"
  "bin empty_area = 0" "block_size empty_area = 0" "cnt empty_area = 0"
  by (simp_all add: empty_area_def)

lemma tab_Nil: "tab [] x = empty_area"
  by (simp add: tab_def)

lemma tab_Cons: "tab ((y, a) # xs) x = (if y = x then a else tab xs x)"
  by (simp add: tab_def)

lemmas split_loop_numeral = split_loop.simps(2)[of x b "pred_numeral n" p for x b n p, folded numeral_eq_Suc]

text \<open>An example: a heap of 128 bytes, served in blocks of at least 16 bytes; it starts at 0x11000, after
  the descriptors.\<close>

definition blank_pool :: sw_buddy_pool where
  "blank_pool = \<lparr>areas = tab [], total_area_cnt = 0, next_free_index = 0, alloc_cnt = 0, mem_start = 0,
     mem_size = 0, pool_start = 0, pool_size = 0, max_alloc_size = 0, min_alloc_size = 0, curr_heap_size = 0, max_bin = 0\<rparr>"

definition demo_init :: "u32 \<Rightarrow> sw_buddy_pool option" where
  "demo_init n = map_option fst (sw_buddy_init blank_pool 0x10000 (ucast (n + get_manage_area n 16)) 16 n)"

fun alloc_all :: "u32 list \<Rightarrow> sw_buddy_pool \<Rightarrow> (u32 list \<times> sw_buddy_pool) option" where
  "alloc_all [] p = Some ([], p)"
| "alloc_all (n # ns) p = do { (a, p) \<leftarrow> sw_buddy_alloc n p; (as, p) \<leftarrow> alloc_all ns p; Some (a # as, p) }"

lemmas buddy_eval = split_loop_numeral tab_upd tab_fun_upd tab_clear tab_Nil tab_Cons empty_area_fields sw_buddy_alloc_def sw_buddy_free_def add_allocated_def upd_area_def set_areas_def
  get_free_buddy_def get_free_node_def take_node_def remove_from_def free_head_def is_empty_bin_def MAX_BINS_def merge_pair_def return_to_free_area_def
  add_sorted_btree_node.simps add_btree_node.simps search_btree_node.simps remove_btree_node.simps delete_node_def replace_node_def
  redirect_def detach_min_def detach_max_def take_left_def take_right_def take_parent_def upd_at_def get_min_node.simps get_max_node.simps
  upt_rec[of 0 "numeral n" for n] upt_rec[of "Suc m" "numeral n" for m n] Let_def get_buddy_ptr_size_def demo_init_def sw_buddy_init_def blank_pool_def

lemma eval_facts:
  "is_pow_of_2 16" "is_pow_of_2 128"  "is_pow_of_2 64"
  "log_of_2 1 = 0" "log_of_2 2 = 1" "log_of_2 4 = 2" "log_of_2 8 = 3" "log_of_2 16 = 4" "log_of_2 64 = 6" "log_of_2 128 = 7"
  "next_pow_of_2 16 = 16" "next_pow_of_2 20 = 32" "next_pow_of_2 32 = 32" "next_pow_of_2 64 = 64"
  "get_manage_area 128 16 = 0x1000" "get_manage_area 64 16 = 0x1000"
  by code_simp+

lemma demo_init_ok: "\<exists>p. demo_init 128 = Some p \<and> buddy_inv p \<and> mem_start p = 0x11000 \<and> max_alloc_size p = 128"
proof -
  have "(ucast (0x1080 :: u32) :: u64) - ucast (0x1000 :: u32) = ucast (128 :: u32)" by simp
  then show ?thesis
    using sw_buddy_init_ok[of 4 3 "0x11000" "0x10000" "ucast (128 + get_manage_area 128 16)" blank_pool]
    by (auto simp: demo_init_def MAX_BINS_def eval_facts)
qed

lemma demo_buddy_alloc: "map_option fst (Option.bind (demo_init 128) (sw_buddy_alloc 20)) = Some 0x11000"
  by (simp add: eval_facts buddy_eval)

section \<open>The properties\<close>

text \<open>C1. \<^verbatim>\<open>sw_buddy_alloc\<close> returns (it ends and follows no bad pointer), keeps the pool's invariant, and
  a block it hands out is at least as large as the request and overlaps no block that is already
  handed out; those keep their lengths.\<close>

theorem buddy_alloc_separate:
  assumes "buddy_inv p"
  shows "\<exists>a p'. sw_buddy_alloc n p = Some (a, p') \<and> buddy_inv p' \<and>
     (a \<noteq> 0 \<longrightarrow> unat n \<le> block_len p' a \<and>
        (\<forall>c. 0 < block_len p c \<longrightarrow> block_len p' c = block_len p c \<and>
           (unat a + block_len p' a \<le> unat c \<or> unat c + block_len p c \<le> unat a)))"
proof -
  obtain a p' where r: "sw_buddy_alloc n p = Some (a, p')" "buddy_inv p'"
      "if a = 0 then block_len p' = block_len p
       else block_len p a = 0 \<and> 0 < block_len p' a \<and> unat n \<le> block_len p' a \<and> (\<forall>c. c \<noteq> a \<longrightarrow> block_len p' c = block_len p c)"
    using buddy_alloc_law[OF assms, of n] by blast
  have "block_len p' c = block_len p c \<and> (unat a + block_len p' a \<le> unat c \<or> unat c + block_len p c \<le> unat a)"
    if c: "a \<noteq> 0" "0 < block_len p c" for c
  proof -
    have "c \<noteq> a" using r(3) c by auto
    then show ?thesis using buddy_inv_apart[OF r(2), of a c] r(3) c by auto
  qed
  then show ?thesis using r by auto
qed

lemma buddy_alloc_separate_witness:
  "\<exists>p a p'. demo_init 128 = Some p \<and> sw_buddy_alloc 20 p = Some (a, p') \<and> buddy_inv p' \<and> a = 0x11000"
proof -
  obtain p where p: "demo_init 128 = Some p" "buddy_inv p" using demo_init_ok by blast
  from buddy_alloc_separate[OF p(2), of 20] obtain a p' where r: "sw_buddy_alloc 20 p = Some (a, p')" "buddy_inv p'" by blast
  have "a = 0x11000" using demo_buddy_alloc p(1) r(1) by (auto simp: bind_eq_Some_conv)
  then show ?thesis using p(1) r by blast
qed

text \<open>C2. Freeing the block that was just allocated gives every address the length it had before, and
  freeing any address but \<^verbatim>\<open>NULL\<close> returns and removes exactly the block at that address, merging free
  neighbours on the way.\<close>

theorem buddy_free_undoes_alloc:
  assumes "buddy_inv p" and "sw_buddy_alloc n p = Some (a, p')" and "a \<noteq> 0"
  shows "\<exists>p''. sw_buddy_free a p' = Some p'' \<and> buddy_inv p'' \<and> block_len p'' = block_len p"
  using assms by (rule buddy.free_alloc)

lemma buddy_free_undoes_alloc_witness:
  "\<exists>p a p' p''. demo_init 128 = Some p \<and> sw_buddy_alloc 20 p = Some (a, p') \<and> a = 0x11000 \<and>
     sw_buddy_free a p' = Some p'' \<and> buddy_inv p'' \<and> block_len p'' = block_len p"
proof -
  obtain p where p: "demo_init 128 = Some p" "buddy_inv p" using demo_init_ok by blast
  obtain a p' where r: "sw_buddy_alloc 20 p = Some (a, p')" using buddy_alloc_law[OF p(2), of 20] by blast
  have a: "a = 0x11000" using demo_buddy_alloc p(1) r by (auto simp: bind_eq_Some_conv)
  then have "a \<noteq> 0" by simp
  from buddy_free_undoes_alloc[OF p(2) r this] show ?thesis using p(1) r a by blast
qed

text \<open>C3. After \<^verbatim>\<open>sw_buddy_init\<close> on a heap of \<open>2 ^ (s + k)\<close> bytes in blocks of at least \<open>2 ^ s\<close>, every sequence
  of requests and releases returns, and so does a further request; it answers \<^verbatim>\<open>NULL\<close> or a block of
  at least the requested size between the end of the descriptors and twice the heap's size from
  there, and every other block that is handed out lies there too.\<close>

theorem buddy_block_bounds:
  assumes "s + k < 31" and "Suc k < MAX_BINS"
    and "lo = start + get_manage_area (2 ^ (s + k)) (2 ^ s)" and "0 < unat lo" and "unat lo + 2 ^ (s + k + 1) < 2 ^ 32"
    and "sz - ucast (get_manage_area (2 ^ (s + k)) (2 ^ s)) = (ucast (2 ^ (s + k) :: u32) :: u64)"
  shows "\<exists>p p' a p''. sw_buddy_init q start sz (2 ^ s) (2 ^ (s + k)) = Some (p, Inr ()) \<and>
     buddy.run ops p = Some p' \<and> sw_buddy_alloc n p' = Some (a, p'') \<and>
     (a \<noteq> 0 \<longrightarrow> unat n \<le> block_len p'' a \<and> 0 < block_len p'' a) \<and>
     (\<forall>c. 0 < block_len p'' c \<longrightarrow> unat lo \<le> unat c \<and> unat c + block_len p'' c \<le> unat lo + 2 * 2 ^ (s + k))"
proof -
  obtain p where p: "sw_buddy_init q start sz (2 ^ s) (2 ^ (s + k)) = Some (p, Inr ())" "heap_at lo (2 ^ (s + k)) p"
    using sw_buddy_init_ok[OF assms] unfolding heap_at_def by blast
  obtain p' where p': "buddy.run ops p = Some p'" "heap_at lo (2 ^ (s + k)) p'" using buddy_at.run_inv[OF p(2)] by blast
  obtain a p'' where a: "sw_buddy_alloc n p' = Some (a, p'')" "heap_at lo (2 ^ (s + k)) p''"
      "a \<noteq> 0 \<longrightarrow> unat n \<le> block_len p'' a \<and> 0 < block_len p'' a"
    using buddy_at.alloc_law[OF p'(2), of n] by (auto split: if_splits)
  have "unat (2 ^ (s + k) :: u32) = 2 ^ (s + k)" using assms(1) by (simp add: unat_pow)
  then show ?thesis using p(1) p'(1) a heap_at_bounds[OF a(2)] by auto
qed

lemma buddy_block_bounds_witness:
  "\<exists>p p' a p''. sw_buddy_init blank_pool 0x10000 0x1080 16 128 = Some (p, Inr ()) \<and>
     buddy.run [(True, 40), (True, 20), (False, 0x11000)] p = Some p' \<and> sw_buddy_alloc 60 p' = Some (a, p'') \<and>
     (a = 0 \<or> 60 \<le> block_len p'' a \<and> 0x11000 \<le> unat a \<and> unat a + block_len p'' a \<le> 0x11000 + 256)"
proof -
  have "(0x1080 :: u64) - ucast (get_manage_area 128 16) = ucast (128 :: u32)" by (simp add: eval_facts)
  then show ?thesis
    using buddy_block_bounds[of 4 3 "0x11000" "0x10000" "0x1080" blank_pool "[(True, 40), (True, 20), (False, 0x11000)]" 60]
    by (fastforce simp: MAX_BINS_def eval_facts)
qed

text \<open>The heap's own end is no bound: \<^verbatim>\<open>max_bin\<close> is one too large, so the pool starts with a block of
  twice the heap, and once the heap is fragmented a request is served from beyond its end (here the
  heap ends at 0x11080).\<close>

theorem buddy_block_beyond_heap:
  "do { p \<leftarrow> demo_init 128; (as, p) \<leftarrow> alloc_all [32, 32, 32, 32] p;
        p \<leftarrow> sw_buddy_free (as ! 0) p; p \<leftarrow> sw_buddy_free (as ! 2) p;
        (a, p) \<leftarrow> sw_buddy_alloc 64 p; Some (mem_start p + mem_size p, a) } = Some (0x11080, 0x11080)"
  by (simp add: eval_facts buddy_eval)

text \<open>There are as few descriptors as smallest blocks, but the halves of the block beyond the heap need
  descriptors too: a heap of four blocks serves two requests, and the third loses a block for good.\<close>

theorem buddy_runs_out_of_descriptors:
  "map_option fst (Option.bind (demo_init 64) (alloc_all [16, 16, 16, 16])) = Some [0x11000, 0x11010, 0, 0]"
  by (simp add: eval_facts buddy_eval)

text \<open>Every sequence of requests and releases runs to its end, whatever they ask for.\<close>

theorem buddy_history_returns:
  assumes "buddy_inv p"
  shows "\<exists>p'. buddy.run ops p = Some p' \<and> buddy_inv p'"
  using assms by (rule buddy.run_inv)

lemma buddy_history_returns_witness:
  "\<exists>p p'. demo_init 128 = Some p \<and> buddy.run [(True, 40), (False, 0x11000), (False, 5), (True, 1000)] p = Some p' \<and> buddy_inv p'"
  using demo_init_ok buddy_history_returns by blast

end
