(* ===== verification/Shm.thy ===== *)
theory Shm
  imports Task Sem
begin

text \<open>
  Shared memory segments, \<^verbatim>\<open>lib/kernel/sw_shared_memory.c\<close> with \<^verbatim>\<open>lib/kernel/include/sw_shm.h\<close>.  A
  segment is a physical run of pages, a node of the list \<^verbatim>\<open>shared_memory_ref\<close> and a run of slots
  of \<^verbatim>\<open>shm_id_pool\<close>, whose first slot is its identifier; a task that is not the creator takes
  a further run of slots as its window of user addresses.  The state extends the task state with
  the list, the structures and the pool; \<open>shm_id_pool\<close> is the memory from the pool's first
  element on, so that an index beyond the sixteen elements has a value and can be written.  An
  operation has the value \<open>None\<close> when it dereferences \<^verbatim>\<open>NULL\<close> or does not end.
\<close>

section \<open>Data\<close>

type_synonym u16 = "16 word"
type_synonym sptr = u32

datatype shm_cell = Shm_Ref | Shm_Head sptr

record sw_shared_memory =
  shm_id :: u32
  shm_creator_id :: u16
  shm_last_modify :: u16
  shm_flags :: u16
  shm_vir_addr :: u32
  shm_phy_addr :: u32
  shm_size :: u32
  shm_status :: u32

record shm_world = tee +
  shm_bytes :: bytes
  shm_links :: "(shm_cell, sptr) links"
  shms :: "sptr \<Rightarrow> sw_shared_memory"
  shm_id_pool :: "nat \<Rightarrow> u16"
  shm_freed :: "sptr list"

definition SW_ERROR :: u32 where "SW_ERROR = - 1"
definition SW_OK :: u32 where "SW_OK = 0"
definition SHARED_MEM_INSTANCE :: nat where "SHARED_MEM_INSTANCE = 16"
definition SHM_AT_ADDR :: u32 where "SHM_AT_ADDR = 0x00100000"

definition shm_cmd_stat :: u32 where "shm_cmd_stat = 5"
definition shm_cmd_set_cid :: u32 where "shm_cmd_set_cid = 6"
definition shm_cmd_set_lid :: u32 where "shm_cmd_set_lid = 7"
definition shm_cmd_set_flag :: u32 where "shm_cmd_set_flag = 8"
definition shm_cmd_set_stat :: u32 where "shm_cmd_set_stat = 9"
definition shm_cmd_destroy :: u32 where "shm_cmd_destroy = 10"

definition shm_flag_write :: u32 where "shm_flag_write = 2"
definition shm_flag_ctrl :: u32 where "shm_flag_ctrl = 8"
definition shm_flag_create :: u32 where "shm_flag_create = 16"

definition set_shm :: "sptr \<Rightarrow> sw_shared_memory \<Rightarrow> shm_world \<Rightarrow> shm_world" where
  "set_shm p r s = s\<lparr>shms := (shms s)(p := r)\<rparr>"

section \<open>Slots\<close>

text \<open>The scan for \<open>sz\<close> bytes of consecutive free slots: the index it stops at and the slots
  counted.\<close>

function shm_scan :: "(nat \<Rightarrow> u16) \<Rightarrow> u32 \<Rightarrow> nat \<Rightarrow> nat \<Rightarrow> nat \<times> nat" where
  "shm_scan pool sz i n =
     (if i < SHARED_MEM_INSTANCE \<and> of_nat n * PAGE_SIZE < sz
      then let n1 = (if pool i = 1 then 0 else n);
               n2 = (if pool i = 0 then n1 + 1 else n1)
           in shm_scan pool sz (i + 1) n2
      else (i, n))"
  by pat_completeness auto
termination by (relation "measure (\<lambda>(_, _, i, _). SHARED_MEM_INSTANCE - i)") auto

declare shm_scan.simps [simp del]

text \<open>The scan and the test behind it: the first slot of the run and its length.\<close>

definition shm_slots :: "(nat \<Rightarrow> u16) \<Rightarrow> u32 \<Rightarrow> (nat \<times> nat) option" where
  "shm_slots pool sz =
     (case shm_scan pool sz 1 0 of (i, n) \<Rightarrow>
        if sz div PAGE_SIZE \<noteq> of_nat n then None else Some (i - n, n))"

fun fill_slots :: "u16 \<Rightarrow> nat \<Rightarrow> nat \<Rightarrow> (nat \<Rightarrow> u16) \<Rightarrow> (nat \<Rightarrow> u16)" where
  "fill_slots v i 0 pool = pool"
| "fill_slots v i (Suc n) pool = fill_slots v (i + 1) n (pool(i := v))"

text \<open>The loop of the destruction counts the size down; it ends when the size is a multiple of the
  page size.\<close>

partial_function (option) clear_slots :: "u32 \<Rightarrow> u32 \<Rightarrow> (nat \<Rightarrow> u16) \<Rightarrow> (nat \<Rightarrow> u16) option" where
  "clear_slots i sz pool =
     (if sz = 0 then Some pool else clear_slots (i + 1) (sz - PAGE_SIZE) (pool(unat i := 0)))"

declare clear_slots.simps [code]

section \<open>Searching the segments\<close>

text \<open>The traversal leaves in \<^verbatim>\<open>shm\<close> the last segment it looked at, also when it finds none, and in
  \<^verbatim>\<open>temp\<close> the cell it stopped at.\<close>

partial_function (option) shm_search_from ::
    "(shm_cell, sptr) links \<Rightarrow> (sptr option \<Rightarrow> bool) \<Rightarrow> sptr option \<Rightarrow> shm_cell option \<Rightarrow>
     (bool \<times> shm_cell \<times> sptr option) option" where
  "shm_search_from L P shm temp =
     Option.bind temp (\<lambda>c. if c = Shm_Ref then Some (False, c, shm)
                          else if P (data_of L c) then Some (True, c, data_of L c)
                          else shm_search_from L P (data_of L c) (next_of L c))"

declare shm_search_from.simps [code]

definition shm_search ::
    "(sptr option \<Rightarrow> bool) \<Rightarrow> shm_world \<Rightarrow> (bool \<times> shm_cell \<times> sptr option) option" where
  "shm_search P s = shm_search_from (shm_links s) P None (next_of (shm_links s) Shm_Ref)"

definition has_shm_id :: "shm_world \<Rightarrow> u32 \<Rightarrow> sptr option \<Rightarrow> bool" where
  "has_shm_id s i d = (case d of Some p \<Rightarrow> shm_id (shms s p) = i | None \<Rightarrow> False)"

section \<open>Creation\<close>

text \<open>The label \<^verbatim>\<open>shmget_error\<close>.\<close>

definition shmget_error :: "sptr option \<Rightarrow> u32 \<Rightarrow> shm_world \<Rightarrow> (shm_world \<times> u32) option" where
  "shmget_error shm sz s = do {
     p \<leftarrow> shm;
     let r = shms s p;
         s1 = (if shm_vir_addr r \<noteq> SW_ERROR then s\<lparr>pt := vir_unreserve (shm_vir_addr r) sz (pt s)\<rparr> else s);
         s2 = (if shm_phy_addr r \<noteq> 0 then s1\<lparr>pt := phy_free (shm_phy_addr r) sz (pt s1)\<rparr> else s1)
     in Some (s2\<lparr>shm_freed := shm_freed s2 @ [p]\<rparr>, SW_ERROR)
   }"

text \<open>The new structure before its memory is allocated.\<close>

definition shm_blank :: "u32 \<Rightarrow> u32 \<Rightarrow> u32 \<Rightarrow> sw_shared_memory" where
  "shm_blank i tid flags =
     \<lparr>shm_id = i, shm_creator_id = ucast tid, shm_last_modify = 0, shm_flags = ucast flags,
      shm_vir_addr = 0, shm_phy_addr = 0, shm_size = 0, shm_status = 0\<rparr>"

text \<open>From the allocated structure \<open>p\<close> on, for the run of \<open>n\<close> slots from \<open>i\<close> on.\<close>

definition shm_create_at ::
    "pt_env \<Rightarrow> u32 \<Rightarrow> u32 \<Rightarrow> u32 \<Rightarrow> nat \<Rightarrow> nat \<Rightarrow> sptr \<Rightarrow> shm_world \<Rightarrow> (shm_world \<times> u32) option" where
  "shm_create_at env name sz flags i n p s =
     (let s0 = (set_shm p (shm_blank (of_nat i) (current_task_id s) flags) s)
                 \<lparr>shm_bytes := sw_strncpy p name MAX_NAME_LEN (sw_memset p 0 MAX_NAME_LEN (shm_bytes s))\<rparr> in
      case phy_alloc sz (pt s0) of (pt1, pa) \<Rightarrow>
        let s1 = (set_shm p ((shms s0 p)\<lparr>shm_phy_addr := pa\<rparr>) s0)\<lparr>pt := pt1\<rparr> in
        if pa = SW_OK then shmget_error (Some p) sz s1
        else let va = phys_to_virt env pa;
                 s2 = set_shm p ((shms s1 p)\<lparr>shm_vir_addr := va\<rparr>) s1 in
          case vir_reserve va sz (pt s2) of (pt2, r) \<Rightarrow>
            let s3 = s2\<lparr>pt := pt2\<rparr> in
            if r \<noteq> Inr () then shmget_error (Some p) sz s3
            else do {
              L \<leftarrow> add_link Shm_Ref (Shm_Head p) TAIL
                (set_link_data (Shm_Head p) (Some p) (link_init (Shm_Head p) (shm_links s3)));
              Some (set_shm p ((shms s3 p)\<lparr>shm_size := sz, shm_status := 0\<rparr>)
                      (s3\<lparr>shm_links := L, shm_id_pool := fill_slots 1 i n (shm_id_pool s3)\<rparr>), of_nat i)
            })"

text \<open>\<open>obj\<close> is the address the heap returns, 0 when it has none: the code tests it against
  \<^verbatim>\<open>SW_ERROR\<close>, and the clearing of the structure at address 0 is then a bad access.\<close>

definition shm_create ::
    "pt_env \<Rightarrow> u32 \<Rightarrow> u32 \<Rightarrow> u32 \<Rightarrow> u32 \<Rightarrow> shm_world \<Rightarrow> (shm_world \<times> u32) option" where
  "shm_create env name size0 flags obj s = do {
     (found, temp, shm) \<leftarrow> shm_search (name_matches (shm_bytes s) name) s;
     if \<not> found \<and> flags AND shm_flag_create \<noteq> 0
     then let sz = page_align size0 in
       case shm_slots (shm_id_pool s) sz of
         None \<Rightarrow> shmget_error shm sz s
       | Some (i, n) \<Rightarrow>
           if obj = SW_ERROR then Some (s, SW_ERROR)
           else if obj = 0 then None
           else shm_create_at env name sz flags i n obj s
     else if found then do { p \<leftarrow> shm; Some (s, shm_id (shms s p)) }
     else Some (s, SW_ERROR)
   }"

section \<open>Control\<close>

text \<open>The cases of the switch from the last to the first: without a permission each falls into the
  next.  The buffer is the word it points to, \<open>None\<close> for \<^verbatim>\<open>NULL\<close>; it is returned with its new
  contents.\<close>

type_synonym ctl_result = "(shm_world \<times> u32 \<times> u32 option) option"

definition shm_owner :: "shm_world \<Rightarrow> sptr \<Rightarrow> bool" where
  "shm_owner s p \<longleftrightarrow> current_task_id s = ucast (shm_creator_id (shms s p))"

definition shm_ctrl :: "shm_world \<Rightarrow> sptr \<Rightarrow> bool" where
  "shm_ctrl s p \<longleftrightarrow> ucast (shm_flags (shms s p)) AND shm_flag_ctrl \<noteq> 0"

definition shm_set_stat :: "sptr \<Rightarrow> u32 option \<Rightarrow> shm_world \<Rightarrow> ctl_result" where
  "shm_set_stat p buffer s = do {
     b \<leftarrow> buffer;
     Some (set_shm p ((shms s p)\<lparr>shm_status := b\<rparr>) s, SW_OK, buffer)
   }"

definition shm_set_flag :: "sptr \<Rightarrow> u32 option \<Rightarrow> shm_world \<Rightarrow> ctl_result" where
  "shm_set_flag p buffer s =
     (if shm_owner s p \<or> shm_ctrl s p
      then case buffer of None \<Rightarrow> Some (s, SW_ERROR, buffer)
        | Some b \<Rightarrow> Some (set_shm p ((shms s p)\<lparr>shm_flags := ucast b\<rparr>) s, SW_OK, buffer)
      else shm_set_stat p buffer s)"

definition shm_set_lid :: "sptr \<Rightarrow> u32 option \<Rightarrow> shm_world \<Rightarrow> ctl_result" where
  "shm_set_lid p buffer s =
     (if shm_owner s p \<or> shm_flags (shms s p) \<noteq> 0
      then case buffer of None \<Rightarrow> Some (s, SW_ERROR, buffer)
        | Some b \<Rightarrow> Some (set_shm p ((shms s p)\<lparr>shm_last_modify := ucast b\<rparr>) s, SW_OK, buffer)
      else shm_set_flag p buffer s)"

definition shm_set_cid :: "sptr \<Rightarrow> u32 option \<Rightarrow> shm_world \<Rightarrow> ctl_result" where
  "shm_set_cid p buffer s =
     (if shm_owner s p \<or> shm_ctrl s p
      then case buffer of None \<Rightarrow> Some (s, SW_ERROR, buffer)
        | Some b \<Rightarrow> Some (set_shm p ((shms s p)\<lparr>shm_creator_id := ucast b\<rparr>) s, SW_OK, buffer)
      else shm_set_lid p buffer s)"

text \<open>\<open>i\<close> is the identifier the caller gave.\<close>

definition shm_destroy :: "u32 \<Rightarrow> shm_cell \<Rightarrow> sptr \<Rightarrow> shm_world \<Rightarrow> shm_world option" where
  "shm_destroy i temp p s = do {
     L \<leftarrow> remove_link temp (shm_links s);
     let r = shms s p;
         s0 = s\<lparr>shm_links := L\<rparr>;
         s1 = (if shm_vir_addr r = SW_ERROR then s0\<lparr>pt := vir_unreserve (shm_vir_addr r) (shm_size r) (pt s0)\<rparr> else s0);
         s2 = (if shm_phy_addr r \<noteq> 0 then s1\<lparr>pt := phy_free (shm_phy_addr r) (shm_size r) (pt s1)\<rparr> else s1)
     in do {
       pool \<leftarrow> clear_slots i (shm_size r) (shm_id_pool s2);
       Some (set_shm p (r\<lparr>shm_size := 0\<rparr>) (s2\<lparr>shm_id_pool := pool, shm_freed := shm_freed s2 @ [p]\<rparr>))
     }
   }"

definition shm_control :: "u32 \<Rightarrow> u32 \<Rightarrow> u32 option \<Rightarrow> shm_world \<Rightarrow> ctl_result" where
  "shm_control i cmd_id buffer s = do {
     (found, temp, shm) \<leftarrow> shm_search (has_shm_id s i) s;
     if \<not> found then Some (s, SW_ERROR, buffer)
     else do {
       p \<leftarrow> shm;
       if cmd_id = shm_cmd_set_cid then shm_set_cid p buffer s
       else if cmd_id = shm_cmd_set_lid then shm_set_lid p buffer s
       else if cmd_id = shm_cmd_set_flag then shm_set_flag p buffer s
       else if cmd_id = shm_cmd_set_stat then shm_set_stat p buffer s
       else if cmd_id = shm_cmd_stat then do { b \<leftarrow> buffer; Some (s, SW_OK, Some (shm_status (shms s p))) }
       else if cmd_id = shm_cmd_destroy then do { s' \<leftarrow> shm_destroy i temp p s; Some (s', SW_OK, buffer) }
       else Some (s, SW_OK, buffer)
     }
   }"

section \<open>Attaching and detaching\<close>

text \<open>The address the segment is attached at, when the caller leaves the choice to the kernel
  (\<open>None\<close>: no window is free).  For the creator, \<^verbatim>\<open>id\<close> has just been set to 1.\<close>

definition shm_window :: "bool \<Rightarrow> sptr \<Rightarrow> shm_world \<Rightarrow> (u32 \<times> shm_world) option" where
  "shm_window creator p s =
     (if creator then Some (SHM_AT_ADDR + 1 * PAGE_SIZE, s)
      else case shm_slots (shm_id_pool s) (shm_size (shms s p)) of
          None \<Rightarrow> None
        | Some (i, n) \<Rightarrow> Some (SHM_AT_ADDR + of_nat i * PAGE_SIZE,
                              s\<lparr>shm_id_pool := fill_slots 1 i n (shm_id_pool s)\<rparr>))"

text \<open>The release of the slots of a window.\<close>

definition shm_unslot :: "u32 \<Rightarrow> u32 \<Rightarrow> shm_world \<Rightarrow> shm_world" where
  "shm_unslot addr sz s =
     s\<lparr>shm_id_pool := fill_slots 0 (unat ((addr - SHM_AT_ADDR) div PAGE_SIZE)) (unat (sz div PAGE_SIZE))
                        (shm_id_pool s)\<rparr>"

definition shm_attach ::
    "pt_env \<Rightarrow> u32 \<Rightarrow> u32 \<Rightarrow> u32 \<Rightarrow> shm_world \<Rightarrow> (shm_world \<times> u32) option" where
  "shm_attach env i addr flag s = do {
     (found, temp, shm) \<leftarrow> shm_search (has_shm_id s i) s;
     if \<not> found then None
     else do {
       p \<leftarrow> shm;
       cur \<leftarrow> get_current_task s;
       task \<leftarrow> cur;
       let r = shms s p; creator = (task_id (tasks s task) = ucast (shm_creator_id r)) in
       case (if addr \<noteq> 0 then Some (addr, s) else shm_window creator p s) of
         None \<Rightarrow> Some (s, SW_ERROR)
       | Some (at_addr, s1) \<Rightarrow>
           let pt_base = (if addr \<noteq> 0 then 0 else secure_ptd env);
               fg = ucast (shm_flags r) AND flag in
           if fg = 0 then Some (s1, 0)
           else do {
             (pt', m) \<leftarrow>
               (if fg AND shm_flag_write \<noteq> 0
                then map_user_data_memory env at_addr (shm_phy_addr r) (shm_size r) pt_base (pt s1)
                else map_user_rodata_memory env at_addr (shm_phy_addr r) (shm_size r) pt_base (pt s1));
             let s2 = s1\<lparr>pt := pt'\<rparr> in
             Some (if m = Inr () then (s2, at_addr)
                   else (if \<not> creator then shm_unslot at_addr (shm_size r) s2 else s2, SW_ERROR))
           }
     }
   }"

definition shm_detach :: "pt_env \<Rightarrow> u32 \<Rightarrow> u32 \<Rightarrow> shm_world \<Rightarrow> (shm_world \<times> u32) option" where
  "shm_detach env i addr s = do {
     (found, temp, shm) \<leftarrow> shm_search (has_shm_id s i) s;
     if \<not> found then Some (s, SW_ERROR)
     else do {
       p \<leftarrow> shm;
       cur \<leftarrow> get_current_task s;
       task \<leftarrow> cur;
       let r = shms s p;
           s1 = (if task_id (tasks s task) \<noteq> ucast (shm_creator_id r)
                 then shm_unslot addr (shm_size r) s else s)
       in do {
         (pt', m) \<leftarrow> unmap_user_memory env addr (shm_size r) (secure_ptd env) (pt s1);
         Some (s1\<lparr>pt := pt'\<rparr>, if m = Inr () then SW_OK else SW_ERROR)
       }
     }
   }"

section \<open>The slot pool as a range allocator\<close>

lemma slot_size_less: "n < 2 ^ 20 \<Longrightarrow> unat (of_nat n * PAGE_SIZE) = n * 4096"
proof -
  assume n: "n < 2 ^ 20"
  have "of_nat n * PAGE_SIZE = (of_nat (n * 4096) :: u32)" by (simp add: PAGE_SIZE_def)
  moreover have "unat (of_nat (n * 4096) :: u32) = n * 4096"
    using n by (intro unat_of_nat_small) simp
  ultimately show ?thesis by simp
qed

lemma slot_size_div: "n < 2 ^ 20 \<Longrightarrow> of_nat n * PAGE_SIZE div PAGE_SIZE = (of_nat n :: u32)"
proof -
  assume n: "n < 2 ^ 20"
  have "unat ((of_nat n * PAGE_SIZE) div PAGE_SIZE :: u32) = n"
    using slot_size_less[OF n] by (simp add: unat_div PAGE_SIZE_def)
  moreover have "unat (of_nat n :: u32) = n" using n by (intro unat_of_nat_small) simp
  ultimately have "unat ((of_nat n * PAGE_SIZE) div PAGE_SIZE :: u32) = unat (of_nat n :: u32)" by simp
  then show ?thesis by (rule unsigned_word_eqI)
qed

lemma fill_slots_at [simp]: "fill_slots v i n pool j = (if i \<le> j \<and> j < i + n then v else pool j)"
proof (induction n arbitrary: i pool)
  case (Suc n)
  have "fill_slots v i (Suc n) pool j = (if i + 1 \<le> j \<and> j < i + 1 + n then v else (pool(i := v)) j)"
    by (simp only: fill_slots.simps Suc.IH)
  also have "\<dots> = (if i \<le> j \<and> j < i + Suc n then v else pool j)" by auto
  finally show ?case .
qed auto

text \<open>The scan for \<open>N\<close> slots, over numbers.\<close>

lemma shm_scan_step:
  assumes "N < 2 ^ 20" and "n \<le> N" and "n < i"
  shows "shm_scan pool (of_nat N * PAGE_SIZE) i n =
     (if i < 16 \<and> n < N
      then shm_scan pool (of_nat N * PAGE_SIZE) (i + 1)
             (if pool i = 1 then 0 else if pool i = 0 then n + 1 else n)
      else (i, n))"
proof -
  have "(of_nat n * PAGE_SIZE :: u32) < of_nat N * PAGE_SIZE \<longleftrightarrow> n < N"
    using slot_size_less[of n] slot_size_less[of N] assms by (simp add: word_less_nat_alt)
  then show ?thesis
    by (subst shm_scan.simps) (auto simp: SHARED_MEM_INSTANCE_def Let_def)
qed

text \<open>No run of \<open>N\<close> free slots starts before \<open>k\<close>.\<close>

definition no_run :: "(nat \<Rightarrow> u16) \<Rightarrow> nat \<Rightarrow> nat \<Rightarrow> bool" where
  "no_run pool N k \<longleftrightarrow> (\<forall>j. 1 \<le> j \<longrightarrow> j < k \<longrightarrow> (\<exists>m. j \<le> m \<and> m < j + N \<and> pool m = 1))"

lemma shm_scan_result:
  assumes "N < 2 ^ 20" and "n \<le> N" and "n < i" and "i \<le> 16"
    and "\<forall>j. i - n \<le> j \<longrightarrow> j < i \<longrightarrow> pool j \<noteq> 1"
    and "(\<forall>j<16. pool j = 0 \<or> pool j = 1) \<longrightarrow> no_run pool N (i - n)"
    and "shm_scan pool (of_nat N * PAGE_SIZE) i n = (i', n')"
  shows "n' < i' \<and> i' \<le> 16 \<and> n' \<le> N \<and> (n' < N \<longrightarrow> i' = 16) \<and>
     (\<forall>j. i' - n' \<le> j \<longrightarrow> j < i' \<longrightarrow> pool j \<noteq> 1) \<and>
     ((\<forall>j<16. pool j = 0 \<or> pool j = 1) \<longrightarrow> no_run pool N (i' - n'))"
  using assms
proof (induction "16 - i" arbitrary: i n)
  case 0
  then show ?case using shm_scan_step[of N n i pool] by simp
next
  case (Suc k)
  show ?case
  proof (cases "n < N")
    case False
    then show ?thesis using Suc.prems shm_scan_step[of N n i pool] by simp
  next
    case True
    let ?n = "if pool i = 1 then 0 else if pool i = 0 then n + 1 else n"
    have "i < 16" using Suc.hyps(2) by simp
    then have eq: "shm_scan pool (of_nat N * PAGE_SIZE) (i + 1) ?n = (i', n')"
      using Suc.prems(7) shm_scan_step[OF Suc.prems(1-3), of pool] True by (metis (no_types))
    have free: "\<forall>j. i + 1 - ?n \<le> j \<longrightarrow> j < i + 1 \<longrightarrow> pool j \<noteq> 1"
    proof (intro allI impI)
      fix j assume j: "i + 1 - ?n \<le> j" "j < i + 1"
      show "pool j \<noteq> 1"
        using j Suc.prems(3,5) by (cases "j = i") (auto split: if_splits)
    qed
    have norun: "(\<forall>j<16. pool j = 0 \<or> pool j = 1) \<longrightarrow> no_run pool N (i + 1 - ?n)"
    proof
      assume bin: "\<forall>j<16. pool j = 0 \<or> pool j = 1"
      with Suc.prems(6) have old: "no_run pool N (i - n)" by simp
      have "i < 16" using Suc.hyps(2) by simp
      with bin consider "pool i = 1" | "pool i = 0" by blast
      then show "no_run pool N (i + 1 - ?n)"
      proof cases
        case 1
        show ?thesis unfolding no_run_def
        proof (intro allI impI)
          fix j assume j: "1 \<le> j" "j < i + 1 - ?n"
          show "\<exists>m. j \<le> m \<and> m < j + N \<and> pool m = 1"
          proof (cases "j < i - n")
            case True
            then show ?thesis using old j by (simp add: no_run_def)
          next
            case False
            then have "j \<le> i" "i < j + N" using j 1 \<open>n < N\<close> Suc.prems(3) by auto
            then show ?thesis using 1 by blast
          qed
        qed
      next
        case 2
        then show ?thesis using old by simp
      qed
    qed
    show ?thesis
      using Suc.hyps(2) Suc.prems(1-3) True
      by (intro Suc.hyps(1)[OF _ _ _ _ _ free norun eq]) auto
  qed
qed

definition slots_used :: "(nat \<Rightarrow> u16) \<Rightarrow> nat set" where
  "slots_used pool = {i. pool i = 1}"

definition slots_take :: "nat \<Rightarrow> (nat \<Rightarrow> u16) \<Rightarrow> (nat \<times> (nat \<Rightarrow> u16)) option" where
  "slots_take n pool =
     (if 2 ^ 20 \<le> n then None
      else map_option (\<lambda>(i, m). (i, fill_slots 1 i m pool)) (shm_slots pool (of_nat n * PAGE_SIZE)))"

lemma shm_slots_Some:
  assumes "N < 2 ^ 20" and "shm_slots pool (of_nat N * PAGE_SIZE) = Some (i, n)"
  shows "n = N" and "1 \<le> i" and "i + N \<le> 16" and "units (i, N) \<inter> slots_used pool = {}"
    and "(\<forall>j<16. pool j = 0 \<or> pool j = 1) \<Longrightarrow> no_run pool N i"
proof -
  obtain i' n' where sc: "shm_scan pool (of_nat N * PAGE_SIZE) 1 0 = (i', n')" by fastforce
  have r: "n' < i' \<and> i' \<le> 16 \<and> n' \<le> N \<and> (n' < N \<longrightarrow> i' = 16) \<and>
     (\<forall>j. i' - n' \<le> j \<longrightarrow> j < i' \<longrightarrow> pool j \<noteq> 1) \<and>
     ((\<forall>j<16. pool j = 0 \<or> pool j = 1) \<longrightarrow> no_run pool N (i' - n'))"
    by (rule shm_scan_result[OF assms(1) _ _ _ _ _ sc]) (auto simp: no_run_def)
  have eq: "of_nat N = (of_nat n' :: u32)" "n = n'" "i = i' - n'"
    using assms(2) sc slot_size_div[OF assms(1)] by (auto simp: shm_slots_def split: if_splits)
  have "unat (of_nat N :: u32) = N" "unat (of_nat n' :: u32) = n'"
    using assms(1) r by (auto intro!: unat_of_nat_small)
  with eq(1) have "N = n'" by metis
  then show "n = N" "1 \<le> i" "i + N \<le> 16" "units (i, N) \<inter> slots_used pool = {}"
    "(\<forall>j<16. pool j = 0 \<or> pool j = 1) \<Longrightarrow> no_run pool N i"
    using r eq by (auto simp: units_def slots_used_def)
qed

interpretation slots: range_allocator slots_used slots_take "\<lambda>i n. fill_slots 0 i n"
proof (unfold_locales, goal_cases)
  case (1 n s i s')
  then show ?case using shm_slots_Some(1,4)[of n s i] by (auto simp: slots_take_def split: if_splits)
next
  case (2 n s i s')
  then show ?case using shm_slots_Some(1)[of n s i] by (auto simp: slots_take_def slots_used_def units_def split: if_splits)
next
  case (3 i n s)
  show ?case by (auto simp: slots_used_def units_def)
qed

text \<open>No window is missed: when the scan fails, no run of free slots of that length exists.\<close>

lemma shm_slots_None:
  assumes "N < 2 ^ 20" and "\<forall>j<16. pool j = 0 \<or> pool j = 1"
    and "shm_slots pool (of_nat N * PAGE_SIZE) = None"
  shows "1 \<le> i \<Longrightarrow> i + N \<le> 16 \<Longrightarrow> units (i, N) \<inter> slots_used pool \<noteq> {}"
proof -
  assume i: "1 \<le> i" "i + N \<le> 16"
  obtain i' n' where sc: "shm_scan pool (of_nat N * PAGE_SIZE) 1 0 = (i', n')" by fastforce
  have r: "n' < i' \<and> i' \<le> 16 \<and> n' \<le> N \<and> (n' < N \<longrightarrow> i' = 16) \<and>
     (\<forall>j. i' - n' \<le> j \<longrightarrow> j < i' \<longrightarrow> pool j \<noteq> 1) \<and>
     ((\<forall>j<16. pool j = 0 \<or> pool j = 1) \<longrightarrow> no_run pool N (i' - n'))"
    by (rule shm_scan_result[OF assms(1) _ _ _ _ _ sc]) (auto simp: no_run_def)
  have "of_nat n' \<noteq> (of_nat N :: u32)"
    using assms(3) sc slot_size_div[OF assms(1)] by (auto simp: shm_slots_def split: if_splits)
  then have "n' < N" using r by (cases "n' = N") auto
  then have "i < i' - n'" "no_run pool N (i' - n')" using r i assms(2) by auto
  then obtain m where "i \<le> m" "m < i + N" "pool m = 1"
    using i(1) unfolding no_run_def by blast
  then show ?thesis by (auto simp: units_def slots_used_def)
qed

section \<open>Invariant\<close>

lemma shm_search_walk:
  "linked L (l # zs @ [Shm_Ref]) \<Longrightarrow> Shm_Ref \<notin> set zs \<Longrightarrow>
     shm_search_from L P d (next_of L l) =
       Some (case List.find (\<lambda>c. P (data_of L c)) zs of
               Some c \<Rightarrow> (True, c, data_of L c)
             | None \<Rightarrow> (False, Shm_Ref, if zs = [] then d else data_of L (last zs)))"
proof (induction zs arbitrary: l d)
  case Nil
  then show ?case by (simp add: shm_search_from.simps)
next
  case (Cons z zs)
  have "shm_search_from L P d (next_of L l) = shm_search_from L P d (Some z)"
    using Cons.prems by simp
  also have "\<dots> = (if P (data_of L z) then Some (True, z, data_of L z)
      else shm_search_from L P (data_of L z) (next_of L z))"
    using Cons.prems by (subst shm_search_from.simps) auto
  finally show ?case using Cons by (auto split: option.splits)
qed

text \<open>The slots of a segment.\<close>

definition seg :: "shm_world \<Rightarrow> sptr \<Rightarrow> nat \<times> nat" where
  "seg s p = (unat (shm_id (shms s p)), unat (shm_size (shms s p)) div 4096)"

definition segs_listed :: "shm_world \<Rightarrow> sptr list \<Rightarrow> bool" where
  "segs_listed s ps \<longleftrightarrow>
     dlist (shm_links s) Shm_Ref (map Shm_Head ps) \<and>
     (\<forall>p\<in>set ps. data_of (shm_links s) (Shm_Head p) = Some p)"

definition seg_ok :: "shm_world \<Rightarrow> sptr \<Rightarrow> bool" where
  "seg_ok s p \<longleftrightarrow> shm_size (shms s p) AND (PAGE_SIZE - 1) = 0 \<and> 0 < snd (seg s p) \<and>
     1 \<le> fst (seg s p) \<and> fst (seg s p) + snd (seg s p) \<le> 16"

text \<open>\<open>ws\<close> are the windows of the tasks that have attached a segment they did not create.\<close>

definition shm_inv :: "shm_world \<Rightarrow> sptr list \<Rightarrow> (nat \<times> nat) list \<Rightarrow> bool" where
  "shm_inv s ps ws \<longleftrightarrow> segs_listed s ps \<and> (\<forall>p\<in>set ps. seg_ok s p) \<and>
     slots.owns (shm_id_pool s) (map (seg s) ps @ ws) \<and>
     (\<forall>j<16. shm_id_pool s j = 0 \<or> shm_id_pool s j = 1)"

lemma shm_search_listed:
  assumes "segs_listed s ps"
  shows "shm_search P s =
     Some (case List.find (\<lambda>p. P (Some p)) ps of
             Some p \<Rightarrow> (True, Shm_Head p, Some p)
           | None \<Rightarrow> (False, Shm_Ref, if ps = [] then None else Some (last ps)))"
proof -
  let ?L = "shm_links s"
  have "List.find (\<lambda>c. P (data_of ?L c)) (map Shm_Head ps) = map_option Shm_Head (List.find (\<lambda>p. P (data_of ?L (Shm_Head p))) ps)"
    by (rule find_map)
  also have "List.find (\<lambda>p. P (data_of ?L (Shm_Head p))) ps = List.find (\<lambda>p. P (Some p)) ps"
    using assms by (intro find_cong) (auto simp: segs_listed_def)
  finally have f: "List.find (\<lambda>c. P (data_of ?L c)) (map Shm_Head ps) = map_option Shm_Head (List.find (\<lambda>p. P (Some p)) ps)" .
  have "shm_search P s = Some (case List.find (\<lambda>c. P (data_of ?L c)) (map Shm_Head ps) of
               Some c \<Rightarrow> (True, c, data_of ?L c)
             | None \<Rightarrow> (False, Shm_Ref, if map Shm_Head ps = [] then None else data_of ?L (last (map Shm_Head ps))))"
    unfolding shm_search_def using assms
    by (intro shm_search_walk) (auto simp: segs_listed_def dlist_def)
  also have "\<dots> = Some (case List.find (\<lambda>p. P (Some p)) ps of
             Some p \<Rightarrow> (True, Shm_Head p, Some p)
           | None \<Rightarrow> (False, Shm_Ref, if ps = [] then None else Some (last ps)))"
    using assms find_in[of "\<lambda>p. P (Some p)" ps] unfolding f
    by (auto simp: segs_listed_def last_map split: option.splits)
  finally show ?thesis .
qed

text \<open>The identifier of a segment is unique.\<close>

lemma ranges_disjoint_nth_unique:
  "ranges_disjoint (map f ps @ ws) \<Longrightarrow> distinct ps \<Longrightarrow> p \<in> set ps \<Longrightarrow> q \<in> set ps \<Longrightarrow>
     m \<in> units (f p) \<Longrightarrow> m \<in> units (f q) \<Longrightarrow> p = q"
  by (induction ps) (auto simp: disjoint_iff)

lemma segs_distinct: "segs_listed s ps \<Longrightarrow> distinct ps"
  by (auto simp: segs_listed_def dlist_def distinct_map)

lemma shm_id_unique:
  assumes "shm_inv s ps ws" and "p \<in> set ps" and "q \<in> set ps" and "shm_id (shms s p) = shm_id (shms s q)"
  shows "p = q"
proof -
  have "fst (seg s p) \<in> units (seg s p)" "fst (seg s p) \<in> units (seg s q)"
    using assms by (auto simp: shm_inv_def seg_ok_def units_def seg_def)
  then show ?thesis
    using assms ranges_disjoint_nth_unique[of "seg s" ps ws p q "fst (seg s p)"] segs_distinct[of s ps]
    by (auto simp: shm_inv_def slots.owns_def)
qed

lemma shm_search_id:
  assumes "shm_inv s ps ws" and "p \<in> set ps" and "shm_id (shms s p) = i"
  shows "shm_search (has_shm_id s i) s = Some (True, Shm_Head p, Some p)"
proof -
  have "List.find (\<lambda>q. has_shm_id s i (Some q)) ps = Some p"
  proof (cases "List.find (\<lambda>q. has_shm_id s i (Some q)) ps")
    case None
    then show ?thesis using assms by (auto simp: find_None has_shm_id_def)
  next
    case (Some q)
    then show ?thesis using find_in[OF Some] shm_id_unique[OF assms(1,2), of q] assms(3) by (auto simp: has_shm_id_def)
  qed
  then show ?thesis using assms(1) by (simp add: shm_search_listed[of s ps] shm_inv_def)
qed

lemma ranges_disjoint_append:
  "ranges_disjoint (xs @ ys) \<longleftrightarrow> ranges_disjoint xs \<and> ranges_disjoint ys \<and>
     (\<forall>x\<in>set xs. \<forall>y\<in>set ys. units x \<inter> units y = {})"
  by (induction xs) auto

section \<open>Creation\<close>

lemma page_multiple:
  assumes "sz AND (PAGE_SIZE - 1) = 0"
  shows "sz = of_nat (unat sz div 4096) * PAGE_SIZE" and "unat sz div 4096 < 2 ^ 20"
proof -
  show less: "unat sz div 4096 < 2 ^ 20" using unat_u32_lt[of sz] by simp
  have "unat sz mod 4096 = 0" using assms page_size_low by simp
  then have "unat (of_nat (unat sz div 4096) * PAGE_SIZE :: u32) = unat sz"
    using slot_size_less[OF less] by auto
  then show "sz = of_nat (unat sz div 4096) * PAGE_SIZE" using unsigned_word_eqI by metis
qed

lemma page_align_multiple: "page_align sz AND (PAGE_SIZE - 1) = 0"
  using page_align_low PAGE_SIZE_mask by simp

lemma page_align_slots: "pages_of sz = unat (page_align sz) div 4096"
  by (simp add: pages_of_def PAGE_SHIFT_def unat_drop_bit)

lemma shm_slots_align:
  assumes "shm_slots pool (page_align sz) = Some (i, n)"
  shows "n = pages_of sz" and "1 \<le> i" and "i + n \<le> 16" and "units (i, n) \<inter> slots_used pool = {}"
    and "slots_take (pages_of sz) pool = Some (i, fill_slots 1 i n pool)"
proof -
  have sz: "page_align sz = of_nat (pages_of sz) * PAGE_SIZE"
    using page_multiple(1)[OF page_align_multiple] by (simp add: page_align_slots)
  note r = shm_slots_Some[OF pages_of_less assms[unfolded sz]]
  show "n = pages_of sz" "1 \<le> i" "i + n \<le> 16" "units (i, n) \<inter> slots_used pool = {}" using r by simp_all
  show "slots_take (pages_of sz) pool = Some (i, fill_slots 1 i n pool)"
    using assms pages_of_less[of sz] by (simp add: slots_take_def sz[symmetric])
qed

text \<open>What the creation leaves alone: the structures, the list and the pool.\<close>

lemma set_shm_sels [simp]:
  "shms (set_shm p r s) = (shms s)(p := r)"
  "pt (set_shm p r s) = pt s" "shm_links (set_shm p r s) = shm_links s"
  "shm_id_pool (set_shm p r s) = shm_id_pool s" "shm_freed (set_shm p r s) = shm_freed s"
  "shm_bytes (set_shm p r s) = shm_bytes s" "current_task_id (set_shm p r s) = current_task_id s"
  by (simp_all add: set_shm_def)

lemma shmget_error_result: "shmget_error shm sz s = Some (s', i) \<Longrightarrow> i = SW_ERROR"
  by (auto simp: shmget_error_def Let_def split: Option.bind_splits)

lemma shm_create_at_ok:
  assumes "shm_create_at env name sz flags i n p s = Some (s', k)" and "k \<noteq> SW_ERROR"
  shows "\<exists>L pa. k = of_nat i \<and>
    add_link Shm_Ref (Shm_Head p) TAIL
      (set_link_data (Shm_Head p) (Some p) (link_init (Shm_Head p) (shm_links s))) = Some L \<and>
    shm_links s' = L \<and> shm_id_pool s' = fill_slots 1 i n (shm_id_pool s) \<and>
    shms s' = (shms s)(p := \<lparr>shm_id = of_nat i, shm_creator_id = ucast (current_task_id s),
      shm_last_modify = 0, shm_flags = ucast flags, shm_vir_addr = phys_to_virt env pa,
      shm_phy_addr = pa, shm_size = sz, shm_status = 0\<rparr>) \<and>
    pa \<noteq> 0 \<and> snd (phy_alloc sz (pt s)) = pa \<and>
    vir_reserve (phys_to_virt env pa) sz (fst (phy_alloc sz (pt s))) = (pt s', Inr ())"
proof -
  obtain pt1 pa where pa: "phy_alloc sz (pt s) = (pt1, pa)" by fastforce
  obtain pt2 r where r: "vir_reserve (phys_to_virt env pa) sz pt1 = (pt2, r)" by fastforce
  show ?thesis
    using assms pa r shmget_error_result
    by (auto simp: shm_create_at_def Let_def SW_OK_def shm_blank_def split: if_splits Option.bind_splits)
qed

lemma dlist_link_init: "x \<notin> set (h # xs) \<Longrightarrow> dlist (link_init x L) h xs = dlist L h xs"
  by (rule dlist_frame) auto

lemma segs_listed_add:
  assumes "segs_listed s ps" and "p \<notin> set ps"
    and "add_link Shm_Ref (Shm_Head p) TAIL
      (set_link_data (Shm_Head p) (Some p) (link_init (Shm_Head p) (shm_links s))) = Some L"
    and "shm_links s' = L"
  shows "segs_listed s' (ps @ [p])"
proof -
  let ?L = "set_link_data (Shm_Head p) (Some p) (link_init (Shm_Head p) (shm_links s))"
  have fresh: "Shm_Head p \<notin> set (Shm_Ref # map Shm_Head ps)" using assms(2) by auto
  then have "dlist ?L Shm_Ref (map Shm_Head ps)"
    using assms(1) by (simp add: dlist_link_init segs_listed_def)
  from dlist_add_TAIL[OF this fresh] assms(3)
  have "dlist L Shm_Ref (map Shm_Head ps @ [Shm_Head p])" "data_of L = data_of ?L"
    by (auto dest: same_outside_data)
  then show ?thesis using assms by (auto simp: segs_listed_def)
qed

lemma shm_owns_append:
  "slots.owns pool (xs @ r # ys) \<longleftrightarrow> slots.owns pool (r # xs @ ys)"
proof -
  have "ranges_disjoint (xs @ r # ys) \<longleftrightarrow> ranges_disjoint (r # xs @ ys)"
    by (induction xs) (simp_all add: Int_commute conj_commute conj_left_commute ball_conj_distrib)
  then show ?thesis by (simp add: slots.owns_def conj_commute conj_left_commute)
qed

lemma shm_create_inv:
  assumes inv: "shm_inv s ps ws" and new: "p \<notin> set ps" and pos: "0 < pages_of sz"
    and slots: "shm_slots (shm_id_pool s) (page_align sz) = Some (i, n)"
    and ok: "shm_create_at env name (page_align sz) flags i n p s = Some (s', k)" "k \<noteq> SW_ERROR"
  shows "shm_inv s' (ps @ [p]) ws" and "seg s' p = (i, n)" and "k = of_nat i"
    and "\<And>q. q \<noteq> p \<Longrightarrow> shms s' q = shms s q" and "k = shm_id (shms s' p)"
proof -
  obtain L pa where c: "k = of_nat i"
    "add_link Shm_Ref (Shm_Head p) TAIL
      (set_link_data (Shm_Head p) (Some p) (link_init (Shm_Head p) (shm_links s))) = Some L"
    "shm_links s' = L" "shm_id_pool s' = fill_slots 1 i n (shm_id_pool s)"
    "shms s' = (shms s)(p := \<lparr>shm_id = of_nat i, shm_creator_id = ucast (current_task_id s),
      shm_last_modify = 0, shm_flags = ucast flags, shm_vir_addr = phys_to_virt env pa,
      shm_phy_addr = pa, shm_size = page_align sz, shm_status = 0\<rparr>)"
    using shm_create_at_ok[OF ok] by blast
  note sl = shm_slots_align[OF slots]
  have iu: "unat (of_nat i :: u32) = i" using sl(3) by (intro unat_of_nat_small) simp
  show segp: "seg s' p = (i, n)"
    using c(5) iu sl(1) by (simp add: seg_def page_align_slots)
  have other: "\<And>q. q \<in> set ps \<Longrightarrow> seg s' q = seg s q" using new c(5) by (auto simp: seg_def)
  have ok': "\<forall>q\<in>set (ps @ [p]). seg_ok s' q"
  proof
    fix q assume "q \<in> set (ps @ [p])"
    then consider "q \<in> set ps" | "q = p" by auto
    then show "seg_ok s' q"
    proof cases
      case 1
      then show ?thesis using inv c(5) new other[OF 1] by (auto simp: shm_inv_def seg_ok_def)
    next
      case 2
      then show ?thesis using segp sl pos c(5) page_align_multiple by (auto simp: seg_ok_def)
    qed
  qed
  have "slots.owns (shm_id_pool s') ((i, n) # map (seg s) ps @ ws)"
    using slots.owns_take[of "shm_id_pool s" "map (seg s) ps @ ws" n i "shm_id_pool s'"] inv sl(1,5) c(4)
    by (simp add: shm_inv_def)
  moreover have "map (seg s') (ps @ [p]) @ ws = map (seg s) ps @ (i, n) # ws" using segp other by simp
  ultimately have "slots.owns (shm_id_pool s') (map (seg s') (ps @ [p]) @ ws)"
    by (simp only: shm_owns_append)
  moreover have "\<forall>j<16. shm_id_pool s' j = 0 \<or> shm_id_pool s' j = 1"
    using inv c(4) by (simp add: shm_inv_def)
  ultimately show "shm_inv s' (ps @ [p]) ws"
    using ok' segs_listed_add[OF _ new c(2,3)] inv by (simp add: shm_inv_def)
  show "k = of_nat i" by (rule c(1))
  show "k = shm_id (shms s' p)" using c(1,5) by simp
  show "\<And>q. q \<noteq> p \<Longrightarrow> shms s' q = shms s q" using c(5) by simp
qed

lemma shm_create_new:
  assumes "segs_listed s ps" and "\<forall>q\<in>set ps. \<not> name_matches (shm_bytes s) name (Some q)"
    and "shm_create env name sz flags obj s = Some (s', k)" and "k \<noteq> SW_ERROR"
  shows "\<exists>i n. shm_slots (shm_id_pool s) (page_align sz) = Some (i, n) \<and>
     shm_create_at env name (page_align sz) flags i n obj s = Some (s', k)"
proof -
  have "List.find (\<lambda>q. name_matches (shm_bytes s) name (Some q)) ps = None"
    using assms(2) by (auto simp: find_None)
  then obtain d where "shm_search (name_matches (shm_bytes s) name) s = Some (False, Shm_Ref, d)"
    using shm_search_listed[OF assms(1)] by simp
  then show ?thesis
    using assms(3,4) shmget_error_result
    by (auto simp: shm_create_def Let_def split: if_splits option.splits)
qed

text \<open>C9. Creating a segment under a new name, when it succeeds, takes the first run of free slots that is
  long enough; the identifier returned is its first slot, which no other segment has, and the
  slots of all segments and windows stay disjoint.  The size must not round to 0: the identifier
  of an empty segment need not be its own.\<close>

theorem shm_create_segment:
  assumes "shm_inv s ps ws" and "obj \<notin> set ps" and "0 < pages_of sz"
    and "\<forall>q\<in>set ps. \<not> name_matches (shm_bytes s) name (Some q)"
    and "shm_create env name sz flags obj s = Some (s', k)" and "k \<noteq> SW_ERROR"
  shows "shm_inv s' (ps @ [obj]) ws \<and> k = shm_id (shms s' obj) \<and>
     seg s' obj = (unat k, pages_of sz) \<and> (\<forall>q\<in>set ps. shm_id (shms s' q) \<noteq> k) \<and>
     no_run (shm_id_pool s) (pages_of sz) (unat k)"
proof -
  obtain i n where c: "shm_slots (shm_id_pool s) (page_align sz) = Some (i, n)"
    "shm_create_at env name (page_align sz) flags i n obj s = Some (s', k)"
    using shm_create_new[OF _ assms(4-6)] assms(1) unfolding shm_inv_def by blast
  note r = shm_create_inv[OF assms(1,2,3) c assms(6)]
  have ku: "unat k = i"
    using r(3) shm_slots_align(3)[OF c(1)] by (simp add: unat_of_nat_small)
  have "shm_id (shms s' q) \<noteq> k" if "q \<in> set ps" for q
    using shm_id_unique[OF r(1), of q obj] that r(5) assms(2) by auto
  moreover have "no_run (shm_id_pool s) (pages_of sz) i"
  proof (rule shm_slots_Some(5)[OF pages_of_less])
    show "shm_slots (shm_id_pool s) (of_nat (pages_of sz) * PAGE_SIZE) = Some (i, n)"
      using c(1) page_multiple(1)[OF page_align_multiple, of sz] by (simp add: page_align_slots)
  qed (use assms(1) in \<open>simp add: shm_inv_def\<close>)
  ultimately show ?thesis
    using r ku shm_slots_align(1)[OF c(1)] by auto
qed

section \<open>Destruction\<close>

lemma clear_slots_fill:
  "N < 2 ^ 20 \<Longrightarrow> i + N < 2 ^ 32 \<Longrightarrow>
     clear_slots (of_nat i) (of_nat N * PAGE_SIZE) pool = Some (fill_slots 0 i N pool)"
proof (induction N arbitrary: i pool)
  case 0
  then show ?case by (simp add: clear_slots.simps)
next
  case (Suc N)
  have nz: "of_nat (Suc N) * PAGE_SIZE \<noteq> 0"
    using slot_size_less[OF Suc.prems(1)] by auto
  have dec: "of_nat (Suc N) * PAGE_SIZE - PAGE_SIZE = of_nat N * PAGE_SIZE"
    by (simp add: algebra_simps)
  have iu: "unat (of_nat i :: u32) = i" using Suc.prems by (intro unat_of_nat_small) simp
  have "clear_slots (of_nat i) (of_nat (Suc N) * PAGE_SIZE) pool =
      clear_slots (of_nat (Suc i)) (of_nat N * PAGE_SIZE) (pool(i := 0))"
    unfolding clear_slots.simps[of "of_nat i" "of_nat (Suc N) * PAGE_SIZE"] if_not_P[OF nz] dec iu
    by (simp only: of_nat_Suc add.commute)
  also have "\<dots> = Some (fill_slots 0 (Suc i) N (pool(i := 0)))"
    using Suc.prems by (intro Suc.IH) auto
  also have "fill_slots 0 (Suc i) N (pool(i := 0)) = fill_slots 0 i (Suc N) pool"
    by (subst fill_slots.simps(2)) (simp only: Suc_eq_plus1)
  finally show ?case .
qed

lemma segs_listed_remove:
  assumes "segs_listed s ps" and "p \<in> set ps"
  shows "\<exists>L. remove_link (Shm_Head p) (shm_links s) = Some L \<and>
     (\<forall>s'. shm_links s' = L \<longrightarrow> segs_listed s' (remove1 p ps))"
proof -
  have d: "dlist (shm_links s) Shm_Ref (map Shm_Head ps)" using assms by (simp add: segs_listed_def)
  obtain L where L: "remove_link (Shm_Head p) (shm_links s) = Some L"
    "dlist L Shm_Ref (remove1 (Shm_Head p) (map Shm_Head ps))" "data_of L = data_of (shm_links s)"
    using dlist_remove[OF d, of "Shm_Head p"] assms(2) by (auto dest: same_outside_data)
  have "remove1 (Shm_Head p) (map Shm_Head ps) = map Shm_Head (remove1 p ps)"
    by (induction ps) auto
  then show ?thesis using L assms(1) by (auto simp: segs_listed_def dest: notin_set_remove1)
qed

lemma seg_clear:
  assumes "seg_ok s p"
  shows "clear_slots (shm_id (shms s p)) (shm_size (shms s p)) pool =
     Some (fill_slots 0 (fst (seg s p)) (snd (seg s p)) pool)"
proof -
  have sz: "shm_size (shms s p) = of_nat (snd (seg s p)) * PAGE_SIZE" "snd (seg s p) < 2 ^ 20"
    using assms page_multiple[of "shm_size (shms s p)"] by (auto simp: seg_ok_def seg_def)
  have i: "shm_id (shms s p) = of_nat (fst (seg s p))" by (simp add: seg_def)
  show ?thesis unfolding sz(1) i
    using assms sz(2) by (intro clear_slots_fill) (auto simp: seg_ok_def)
qed


lemma owns_seg_remove:
  assumes "slots.owns pool (map f ps @ ws)" and "distinct ps" and "p \<in> set ps" and "f p = (i, n)"
  shows "slots.owns (fill_slots 0 i n pool) (map f (remove1 p ps) @ ws)"
proof -
  obtain as bs where ps: "ps = as @ p # bs" "p \<notin> set as" using split_list_first[OF assms(3)] by blast
  then have "slots.owns pool ((i, n) # map f as @ map f bs @ ws)"
    using assms(1,4) shm_owns_append[of pool "map f as" "(i, n)" "map f bs @ ws"] by simp
  then have "slots.owns (fill_slots 0 i n pool) (remove1 (i, n) ((i, n) # map f as @ map f bs @ ws))"
    by (rule slots.owns_release) simp
  then show ?thesis using ps by (simp add: remove1_append)
qed

lemma shm_destroy_inv:
  assumes inv: "shm_inv s ps ws" and p: "p \<in> set ps"
  shows "\<exists>L. shm_destroy (shm_id (shms s p)) (Shm_Head p) p s =
     Some (set_shm p ((shms s p)\<lparr>shm_size := 0\<rparr>)
       (s\<lparr>shm_links := L,
         pt := (let pt1 = (if shm_vir_addr (shms s p) = SW_ERROR
                    then vir_unreserve (shm_vir_addr (shms s p)) (shm_size (shms s p)) (pt s) else pt s) in
                if shm_phy_addr (shms s p) \<noteq> 0
                then phy_free (shm_phy_addr (shms s p)) (shm_size (shms s p)) pt1 else pt1),
         shm_id_pool := fill_slots 0 (fst (seg s p)) (snd (seg s p)) (shm_id_pool s),
         shm_freed := shm_freed s @ [p]\<rparr>)) \<and>
     (\<forall>s'. shm_links s' = L \<longrightarrow> segs_listed s' (remove1 p ps))"
proof -
  obtain L where L: "remove_link (Shm_Head p) (shm_links s) = Some L"
    "\<forall>s'. shm_links s' = L \<longrightarrow> segs_listed s' (remove1 p ps)"
    using segs_listed_remove[OF _ p] inv unfolding shm_inv_def by blast
  have ok: "seg_ok s p" using inv p by (simp add: shm_inv_def)
  show ?thesis
    using L by (intro exI[of _ L]) (simp add: shm_destroy_def seg_clear[OF ok] Let_def)
qed

text \<open>Whoever calls it, the destroy command of an existing segment succeeds: exactly the segment's
  slots become free, the segment leaves the list and the slots of the others stay theirs.\<close>

theorem shm_destroy_segment:
  assumes "shm_inv s ps ws" and "p \<in> set ps"
  shows "\<exists>s'. shm_control (shm_id (shms s p)) shm_cmd_destroy buffer s = Some (s', SW_OK, buffer) \<and>
     shm_inv s' (remove1 p ps) ws \<and>
     slots_used (shm_id_pool s') = slots_used (shm_id_pool s) - units (seg s p) \<and>
     shm_freed s' = shm_freed s @ [p]"
proof -
  have inv: "segs_listed s ps" "\<forall>p\<in>set ps. seg_ok s p" "slots.owns (shm_id_pool s) (map (seg s) ps @ ws)"
    "\<forall>j<16. shm_id_pool s j = 0 \<or> shm_id_pool s j = 1" "distinct ps"
    using assms(1) segs_distinct by (auto simp: shm_inv_def)
  obtain L where L: "\<forall>s'. shm_links s' = L \<longrightarrow> segs_listed s' (remove1 p ps)" and
    d: "\<exists>pt'. shm_destroy (shm_id (shms s p)) (Shm_Head p) p s =
     Some (set_shm p ((shms s p)\<lparr>shm_size := 0\<rparr>)
       (s\<lparr>shm_links := L, pt := pt',
         shm_id_pool := fill_slots 0 (fst (seg s p)) (snd (seg s p)) (shm_id_pool s),
         shm_freed := shm_freed s @ [p]\<rparr>))"
    using shm_destroy_inv[OF assms] by blast
  from d obtain s' where s': "shm_destroy (shm_id (shms s p)) (Shm_Head p) p s = Some s'"
    "shms s' = (shms s)(p := (shms s p)\<lparr>shm_size := 0\<rparr>)" "shm_links s' = L"
    "shm_id_pool s' = fill_slots 0 (fst (seg s p)) (snd (seg s p)) (shm_id_pool s)"
    "shm_freed s' = shm_freed s @ [p]"
    by auto
  have other: "shms s' q = shms s q" "seg s' q = seg s q" if "q \<in> set (remove1 p ps)" for q
    using that inv(5) s'(2) by (auto simp: seg_def)
  have "shm_inv s' (remove1 p ps) ws"
    unfolding shm_inv_def
  proof (intro conjI)
    show "segs_listed s' (remove1 p ps)" using L s'(3) by blast
    show "\<forall>q\<in>set (remove1 p ps). seg_ok s' q"
      using inv(2) other by (auto simp: seg_ok_def dest: notin_set_remove1)
    have "map (seg s') (remove1 p ps) = map (seg s) (remove1 p ps)" using other(2) by simp
    then show "slots.owns (shm_id_pool s') (map (seg s') (remove1 p ps) @ ws)"
      unfolding s'(4) using owns_seg_remove[OF inv(3,5) assms(2) prod.collapse[symmetric]] by (simp only:)
    show "\<forall>j<16. shm_id_pool s' j = 0 \<or> shm_id_pool s' j = 1" using inv(4) s'(4) by simp
  qed
  moreover have "shm_control (shm_id (shms s p)) shm_cmd_destroy buffer s = Some (s', SW_OK, buffer)"
    using shm_search_id[OF assms refl] s'(1)
    by (simp add: shm_control_def shm_cmd_set_cid_def shm_cmd_set_lid_def shm_cmd_set_flag_def
        shm_cmd_set_stat_def shm_cmd_stat_def shm_cmd_destroy_def)
  ultimately show ?thesis
    using s'(4,5) slots.release_used[of "fst (seg s p)" "snd (seg s p)" "shm_id_pool s"] by auto
qed

section \<open>Failure and permissions\<close>

text \<open>When the slots run out, the error path works on the last segment of the list, which the
  search has left in \<^verbatim>\<open>shm\<close>: its pages and its structure are freed although it stays listed.  With no
  segment at all the path reads through \<^verbatim>\<open>NULL\<close>.\<close>

theorem shm_create_exhausted:
  assumes "shm_inv s ps ws" and "\<forall>q\<in>set ps. \<not> name_matches (shm_bytes s) name (Some q)"
    and "flags AND shm_flag_create \<noteq> 0" and "shm_slots (shm_id_pool s) (page_align sz) = None"
    and "shm_phy_addr (shms s (last ps)) \<noteq> 0" and "shm_vir_addr (shms s (last ps)) \<noteq> SW_ERROR"
  shows "shm_create env name sz flags obj s =
     (if ps = [] then None
      else Some (s\<lparr>pt := phy_free (shm_phy_addr (shms s (last ps))) (page_align sz)
                          (vir_unreserve (shm_vir_addr (shms s (last ps))) (page_align sz) (pt s)),
                  shm_freed := shm_freed s @ [last ps]\<rparr>, SW_ERROR))"
proof -
  have "List.find (\<lambda>q. name_matches (shm_bytes s) name (Some q)) ps = None"
    using assms(2) by (auto simp: find_None)
  then have "shm_search (name_matches (shm_bytes s) name) s =
      Some (False, Shm_Ref, if ps = [] then None else Some (last ps))"
    using assms(1) by (simp add: shm_search_listed[of s ps] shm_inv_def)
  then show ?thesis using assms(3-6) by (simp add: shm_create_def shmget_error_def Let_def)
qed

definition same_rights :: "shm_world \<Rightarrow> shm_world \<Rightarrow> sptr \<Rightarrow> bool" where
  "same_rights s s' q \<longleftrightarrow> shm_creator_id (shms s' q) = shm_creator_id (shms s q) \<and>
     shm_flags (shms s' q) = shm_flags (shms s q) \<and> shm_id (shms s' q) = shm_id (shms s q) \<and>
     shm_phy_addr (shms s' q) = shm_phy_addr (shms s q) \<and> shm_size (shms s' q) = shm_size (shms s q)"

lemma set_stat_same:
  "shm_set_stat p buffer s = Some (s', r, b) \<Longrightarrow>
     same_rights s s' q \<and> pt s' = pt s \<and> shm_links s' = shm_links s \<and> shm_id_pool s' = shm_id_pool s"
  by (auto simp: shm_set_stat_def same_rights_def split: Option.bind_splits)

lemma set_flag_same:
  "\<not> shm_owner s p \<Longrightarrow> \<not> shm_ctrl s p \<Longrightarrow> shm_set_flag p buffer s = Some (s', r, b) \<Longrightarrow>
     same_rights s s' q \<and> pt s' = pt s \<and> shm_links s' = shm_links s \<and> shm_id_pool s' = shm_id_pool s"
  using set_stat_same by (simp add: shm_set_flag_def)

lemma set_lid_same:
  assumes "\<not> shm_owner s p" and "\<not> shm_ctrl s p" and "shm_set_lid p buffer s = Some (s', r, b)"
  shows "same_rights s s' q \<and> pt s' = pt s \<and> shm_links s' = shm_links s \<and> shm_id_pool s' = shm_id_pool s"
proof (cases "shm_flags (shms s p) = 0")
  case True
  then show ?thesis using assms set_flag_same[of s p buffer s' r b q] by (simp add: shm_set_lid_def)
next
  case False
  then show ?thesis using assms
    by (cases buffer) (auto simp: shm_set_lid_def same_rights_def)
qed

lemma set_cid_same:
  "\<not> shm_owner s p \<Longrightarrow> \<not> shm_ctrl s p \<Longrightarrow> shm_set_cid p buffer s = Some (s', r, b) \<Longrightarrow>
     same_rights s s' q \<and> pt s' = pt s \<and> shm_links s' = shm_links s \<and> shm_id_pool s' = shm_id_pool s"
  using set_lid_same by (simp add: shm_set_cid_def)

text \<open>C10. A task that neither created a segment nor finds its control flag set cannot change any
  segment's creator, flags, memory or slots by a command other than the destruction, although
  the cases of the switch fall into each other: what it reaches is the status and, for a segment
  with some flag, the last modifier.\<close>

theorem shm_control_protects:
  assumes "shm_inv s ps ws" and "p \<in> set ps" and "\<not> shm_owner s p" and "\<not> shm_ctrl s p"
    and "cmd \<noteq> shm_cmd_destroy"
    and "shm_control (shm_id (shms s p)) cmd buffer s = Some (s', r, b)"
  shows "same_rights s s' q \<and> pt s' = pt s \<and> shm_links s' = shm_links s \<and> shm_id_pool s' = shm_id_pool s"
proof -
  have same: "same_rights s s q" by (simp add: same_rights_def)
  have c: "shm_control (shm_id (shms s p)) cmd buffer s =
     (if cmd = shm_cmd_set_cid then shm_set_cid p buffer s
       else if cmd = shm_cmd_set_lid then shm_set_lid p buffer s
       else if cmd = shm_cmd_set_flag then shm_set_flag p buffer s
       else if cmd = shm_cmd_set_stat then shm_set_stat p buffer s
       else if cmd = shm_cmd_stat then do { b \<leftarrow> buffer; Some (s, SW_OK, Some (shm_status (shms s p))) }
       else Some (s, SW_OK, buffer))"
    using assms(5) shm_search_id[OF assms(1,2) refl] by (simp add: shm_control_def)
  consider "shm_set_cid p buffer s = Some (s', r, b)" | "shm_set_lid p buffer s = Some (s', r, b)"
    | "shm_set_flag p buffer s = Some (s', r, b)" | "shm_set_stat p buffer s = Some (s', r, b)" | "s' = s"
    using assms(6) unfolding c by (auto split: if_splits Option.bind_splits)
  then show ?thesis
  proof cases
    case 1
    then show ?thesis by (rule set_cid_same[OF assms(3,4)])
  next
    case 2
    then show ?thesis by (rule set_lid_same[OF assms(3,4)])
  next
    case 3
    then show ?thesis by (rule set_flag_same[OF assms(3,4)])
  next
    case 4
    then show ?thesis by (rule set_stat_same)
  next
    case 5
    then show ?thesis using same by simp
  qed
qed

section \<open>Windows\<close>

lemma binary_fill: "\<forall>j<16. pool j = 0 \<or> pool j = 1 \<Longrightarrow> i + n \<le> 16 \<Longrightarrow>
    units (i, n) \<inter> slots_used pool = {} \<Longrightarrow> fill_slots 0 i n (fill_slots 1 i n pool) = pool"
proof (rule ext)
  fix j
  assume a: "\<forall>j<16. pool j = 0 \<or> pool j = 1" "i + n \<le> 16" "units (i, n) \<inter> slots_used pool = {}"
  show "fill_slots 0 i n (fill_slots 1 i n pool) j = pool j"
  proof (cases "i \<le> j \<and> j < i + n")
    case True
    then have "pool j \<noteq> 1" "j < 16" using a(2,3) by (auto simp: units_def slots_used_def)
    then have "pool j = 0" using a(1) by blast
    then show ?thesis using True by simp
  next
    case False
    then show ?thesis by auto
  qed
qed

lemma window_slot: "i < 2 ^ 20 \<Longrightarrow> unat ((SHM_AT_ADDR + of_nat i * PAGE_SIZE - SHM_AT_ADDR) div PAGE_SIZE) = i"
  by (simp add: slot_size_div unat_of_nat_small)

lemma size_slots: "seg_ok s p \<Longrightarrow> unat (shm_size (shms s p) div PAGE_SIZE) = snd (seg s p)"
  by (simp add: seg_def unat_div PAGE_SIZE_def)

definition foreign :: "shm_world \<Rightarrow> tptr \<Rightarrow> sptr \<Rightarrow> bool" where
  "foreign s t p \<longleftrightarrow> task_id (tasks s t) \<noteq> ucast (shm_creator_id (shms s p))"

lemma shm_inv_window:
  assumes "shm_inv s ps ws" and "shm_slots (shm_id_pool s) (shm_size (shms s p)) = Some (i, n)" and "p \<in> set ps"
  shows "n = snd (seg s p)" and "1 \<le> i" and "i + n \<le> 16"
    and "units (i, n) \<inter> slots_used (shm_id_pool s) = {}"
    and "slots.owns (fill_slots 1 i n (shm_id_pool s)) (map (seg s) ps @ (i, n) # ws)"
proof -
  have ok: "seg_ok s p" using assms by (simp add: shm_inv_def)
  have sz: "shm_size (shms s p) = of_nat (snd (seg s p)) * PAGE_SIZE" "snd (seg s p) < 2 ^ 20"
    using ok page_multiple[of "shm_size (shms s p)"] by (auto simp: seg_ok_def seg_def)
  note r = shm_slots_Some[OF sz(2) assms(2)[unfolded sz(1)]]
  show "n = snd (seg s p)" "1 \<le> i" "i + n \<le> 16" "units (i, n) \<inter> slots_used (shm_id_pool s) = {}"
    using r by simp_all
  have "slots_take n (shm_id_pool s) = Some (i, fill_slots 1 i n (shm_id_pool s))"
    using assms(2) r(1) sz by (simp add: slots_take_def)
  then have "slots.owns (fill_slots 1 i n (shm_id_pool s)) ((i, n) # map (seg s) ps @ ws)"
    using slots.owns_take assms(1) unfolding shm_inv_def by blast
  then show "slots.owns (fill_slots 1 i n (shm_id_pool s)) (map (seg s) ps @ (i, n) # ws)"
    by (simp only: shm_owns_append)
qed

lemma shm_inv_pool:
  assumes "shm_inv s ps ws" and "slots.owns pool (map (seg s) ps @ vs)" and "\<forall>j<16. pool j = 0 \<or> pool j = 1"
    and "shm_links s' = shm_links s" and "shms s' = shms s" and "shm_id_pool s' = pool"
  shows "shm_inv s' ps vs"
proof -
  have "seg s' = seg s" using assms(5) by (simp add: seg_def fun_eq_iff)
  then show ?thesis using assms by (simp add: shm_inv_def segs_listed_def seg_ok_def)
qed

lemma shm_attach_cases:
  assumes inv: "shm_inv s ps ws" and p: "p \<in> set ps" and t: "get_current_task s = Some (Some t)"
    and f: "foreign s t p" and a: "shm_attach env (shm_id (shms s p)) 0 flag s = Some (s', a)"
  shows "(a = SW_ERROR \<and> shm_id_pool s' = shm_id_pool s) \<or>
     (\<exists>i n. n = snd (seg s p) \<and> 1 \<le> i \<and> i + n \<le> 16 \<and>
        units (i, n) \<inter> slots_used (shm_id_pool s) = {} \<and> shm_inv s' ps ((i, n) # ws) \<and>
        (\<exists>pt'. s' = s\<lparr>shm_id_pool := fill_slots 1 i n (shm_id_pool s), pt := pt'\<rparr>) \<and>
        a = (if ucast (shm_flags (shms s p)) AND flag = 0 then 0 else SHM_AT_ADDR + of_nat i * PAGE_SIZE))"
proof -
  have bin: "\<forall>j<16. shm_id_pool s j = 0 \<or> shm_id_pool s j = 1" and ok: "seg_ok s p"
    using inv p by (simp_all add: shm_inv_def)
  note S = shm_search_id[OF inv p refl]
  show ?thesis
  proof (cases "shm_slots (shm_id_pool s) (shm_size (shms s p))")
    case None
    then show ?thesis
      using a S t f by (simp add: shm_attach_def shm_window_def foreign_def Let_def)
  next
    case (Some w)
    obtain i n where w: "w = (i, n)" by fastforce
    note sl = shm_inv_window[OF inv Some[unfolded w] p]
    let ?pool = "fill_slots 1 i n (shm_id_pool s)"
    have inv': "shm_inv s'' ps ((i, n) # ws)"
      if "shm_links s'' = shm_links s" "shms s'' = shms s" "shm_id_pool s'' = ?pool" for s''
      by (rule shm_inv_pool[OF inv sl(5) _ that]) (use bin in auto)
    have restored: "shm_id_pool (shm_unslot (SHM_AT_ADDR + of_nat i * PAGE_SIZE) (shm_size (shms s p)) s'') = shm_id_pool s"
      if "shm_id_pool s'' = ?pool" for s''
    proof -
      have "unat ((SHM_AT_ADDR + of_nat i * PAGE_SIZE - SHM_AT_ADDR) div PAGE_SIZE) = i"
        using sl(3) by (intro window_slot) simp
      then show ?thesis
        using that binary_fill[OF bin sl(3,4)] sl(1) unfolding shm_unslot_def size_slots[OF ok] by (simp only:) simp
    qed
    show ?thesis
    proof (cases "ucast (shm_flags (shms s p)) AND flag = 0")
      case True
      have "(s' = s\<lparr>shm_id_pool := ?pool\<rparr>) \<and> a = 0"
        using a S t f Some w True
        by (simp add: shm_attach_def shm_window_def foreign_def Let_def)
      then have "\<exists>pt'. s' = s\<lparr>shm_id_pool := ?pool, pt := pt'\<rparr>" by (intro exI[of _ "pt s"]) simp
      then show ?thesis using True sl inv'[of s'] \<open>(s' = s\<lparr>shm_id_pool := ?pool\<rparr>) \<and> a = 0\<close>
        by - (rule disjI2, rule exI[of _ i], rule exI[of _ n], simp)
    next
      case False
      define mp where "mp =
        (if (ucast (shm_flags (shms s p)) AND flag) AND shm_flag_write \<noteq> 0
         then map_user_data_memory env (SHM_AT_ADDR + of_nat i * PAGE_SIZE) (shm_phy_addr (shms s p))
                (shm_size (shms s p)) (secure_ptd env) (pt s)
         else map_user_rodata_memory env (SHM_AT_ADDR + of_nat i * PAGE_SIZE) (shm_phy_addr (shms s p))
                (shm_size (shms s p)) (secure_ptd env) (pt s))"
      have A: "shm_attach env (shm_id (shms s p)) 0 flag s =
        Option.bind mp (\<lambda>(pt', m). Some (
          if m = Inr () then (s\<lparr>shm_id_pool := ?pool, pt := pt'\<rparr>, SHM_AT_ADDR + of_nat i * PAGE_SIZE)
          else (shm_unslot (SHM_AT_ADDR + of_nat i * PAGE_SIZE) (shm_size (shms s p))
                  (s\<lparr>shm_id_pool := ?pool, pt := pt'\<rparr>), SW_ERROR)))"
        using S t f Some w False unfolding mp_def
        by (simp add: shm_attach_def shm_window_def foreign_def Let_def cong: if_cong)
      obtain pt' m where mp: "mp = Some (pt', m)" using a A by (cases mp) auto
      show ?thesis
      proof (cases "m = Inr ()")
        case True
        then have "s' = s\<lparr>shm_id_pool := ?pool, pt := pt'\<rparr>" "a = SHM_AT_ADDR + of_nat i * PAGE_SIZE"
          using a A mp by simp_all
        then show ?thesis using False sl inv'[of s'] 
          by - (rule disjI2, rule exI[of _ i], rule exI[of _ n], auto)
      next
        case False
        then show ?thesis using a A mp restored[of "s\<lparr>shm_id_pool := ?pool, pt := pt'\<rparr>"] by simp
      qed
    qed
  qed
qed

text \<open>A task that attaches a segment of another task and leaves the address to the kernel either
  gets a window of fresh slots that overlaps no segment and no other window, or an error that
  leaves the slots as they were, or, when the segment's flags and its own have nothing in
  common, the address 0 with the slots of the window taken all the same.\<close>

theorem shm_attach_window:
  assumes inv: "shm_inv s ps ws" and p: "p \<in> set ps" and t: "get_current_task s = Some (Some t)"
    and f: "foreign s t p" and a: "shm_attach env (shm_id (shms s p)) 0 flag s = Some (s', a)"
  shows "(a = SW_ERROR \<and> shm_id_pool s' = shm_id_pool s) \<or>
     (\<exists>i n. n = snd (seg s p) \<and> 1 \<le> i \<and> i + n \<le> 16 \<and>
        units (i, n) \<inter> slots_used (shm_id_pool s) = {} \<and> shm_inv s' ps ((i, n) # ws) \<and>
        a = (if ucast (shm_flags (shms s p)) AND flag = 0 then 0 else SHM_AT_ADDR + of_nat i * PAGE_SIZE))"
  using shm_attach_cases[OF assms] by blast

lemma current_task_cong:
  "links s' = links s \<Longrightarrow> tasks s' = tasks s \<Longrightarrow> current_task_id s' = current_task_id s \<Longrightarrow>
     get_current_task s' = get_current_task s"
  unfolding get_current_task_def find_task_def has_task_id_def[abs_def] by (simp only:)

text \<open>C11. Detaching a window returns its slots: after a successful attachment and the detachment of the
  address it returned, the pool is the one before, whatever the unmapping answers.\<close>

theorem shm_detach_returns_window:
  assumes "shm_inv s ps ws" and "p \<in> set ps" and "get_current_task s = Some (Some t)" and "foreign s t p"
    and "shm_attach env (shm_id (shms s p)) 0 flag s = Some (s', a)" and "a \<noteq> SW_ERROR" and "a \<noteq> 0"
  shows "\<exists>s'' r. shm_detach env (shm_id (shms s p)) a s' = Some (s'', r) \<and>
     shm_id_pool s'' = shm_id_pool s \<and> shm_inv s'' ps ws"
proof -
  have bin: "\<forall>j<16. shm_id_pool s j = 0 \<or> shm_id_pool s j = 1" and ok: "seg_ok s p"
    using assms(1,2) by (simp_all add: shm_inv_def)
  obtain i n pt' where w: "n = snd (seg s p)" "i + n \<le> 16" "units (i, n) \<inter> slots_used (shm_id_pool s) = {}"
    "shm_inv s' ps ((i, n) # ws)" "a = SHM_AT_ADDR + of_nat i * PAGE_SIZE"
    "s' = s\<lparr>shm_id_pool := fill_slots 1 i n (shm_id_pool s), pt := pt'\<rparr>"
    using shm_attach_cases[OF assms(1-5)] assms(6,7) by (metis (no_types, lifting))
  have S: "shm_search (has_shm_id s' (shm_id (shms s p))) s' = Some (True, Shm_Head p, Some p)"
    using shm_search_id[OF w(4) assms(2)] w(6) by simp
  have T: "get_current_task s' = Some (Some t)" "foreign s' t p"
    using assms(3,4) w(6) current_task_cong[of s' s] by (simp_all add: foreign_def)
  have "unat ((SHM_AT_ADDR + of_nat i * PAGE_SIZE - SHM_AT_ADDR) div PAGE_SIZE) = i"
    using w(2) by (intro window_slot) simp
  then have pool: "shm_id_pool (shm_unslot a (shm_size (shms s p)) s') = shm_id_pool s"
    using binary_fill[OF bin w(2,3)] w(1,5,6) unfolding shm_unslot_def size_slots[OF ok] by (simp only:) simp
  obtain pt'' m where um: "unmap_user_memory env a (shm_size (shms s p)) (secure_ptd env)
      (pt (shm_unslot a (shm_size (shms s p)) s')) = Some (pt'', m)"
    using unmap_user_memory_total by blast
  let ?s = "(shm_unslot a (shm_size (shms s p)) s')\<lparr>pt := pt''\<rparr>"
  have "shm_detach env (shm_id (shms s p)) a s' = Some (?s, if m = Inr () then SW_OK else SW_ERROR)"
    using S T um w(6) by (simp add: shm_detach_def foreign_def Let_def)
  moreover have "shm_inv ?s ps ws"
  proof (rule shm_inv_pool[OF assms(1)])
    show "slots.owns (shm_id_pool s) (map (seg s) ps @ ws)" using assms(1) by (simp add: shm_inv_def)
    show "shm_links ?s = shm_links s" "shms ?s = shms s" using w(6) by (simp_all add: shm_unslot_def)
    show "shm_id_pool ?s = shm_id_pool s" using pool by simp
  qed (rule bin)
  ultimately show ?thesis using pool by (intro exI[of _ ?s] exI) (auto simp del: fill_slots_at)
qed

text \<open>The index of the slots a detachment frees comes from the caller's address without a check: for
  an address beyond the window area the write goes past the pool's sixteen elements.\<close>

lemma shm_detach_writes_past_pool:
  assumes "shm_inv s ps ws" and "p \<in> set ps" and "get_current_task s = Some (Some t)" and "foreign s t p"
    and "shm_detach env (shm_id (shms s p)) addr s = Some (s', r)"
    and "unat ((addr - SHM_AT_ADDR) div PAGE_SIZE) = k"
  shows "shm_id_pool s' k = 0"
proof -
  have ok: "seg_ok s p" using assms(1,2) by (simp add: shm_inv_def)
  then have "0 < unat (shm_size (shms s p) div PAGE_SIZE)" by (simp add: size_slots seg_ok_def)
  then have "shm_id_pool (shm_unslot addr (shm_size (shms s p)) s) k = 0"
    using assms(6) by (simp add: shm_unslot_def)
  then show ?thesis
    using assms(3-5) shm_search_id[OF assms(1,2) refl]
    by (auto simp: shm_detach_def foreign_def Let_def split: Option.bind_splits)
qed

text \<open>All segments of a creator are attached at the same address.\<close>

lemma shm_attach_creator:
  assumes "shm_inv s ps ws" and "p \<in> set ps" and "get_current_task s = Some (Some t)" and "\<not> foreign s t p"
    and "shm_attach env (shm_id (shms s p)) 0 flag s = Some (s', a)"
  shows "a = SHM_AT_ADDR + PAGE_SIZE \<or> a = SW_ERROR \<or> a = 0"
  using assms(3-5) shm_search_id[OF assms(1,2) refl]
  by (auto simp: shm_attach_def shm_window_def foreign_def Let_def split: Option.bind_splits if_splits)

section \<open>Creation followed by destruction\<close>

lemma sw_phy_addr_free_vir_mark:
  "sw_phy_addr_free pa sz (vir_mark r n info) =
     (vir_mark r n (fst (sw_phy_addr_free pa sz info)), snd (sw_phy_addr_free pa sz info))"
  by (simp add: sw_phy_addr_free_def vir_mark_def phy_release_def Let_def)

lemma sw_vir_addr_reserve_Inr:
  "sw_vir_addr_reserve va sz info = (info', Inr ()) \<Longrightarrow> \<exists>r. info' = vir_mark r (pages_of sz) info"
  by (auto simp: sw_vir_addr_reserve_def Let_def pages_of_def split: if_splits)

text \<open>Creating a segment and destroying it again gives back its slots and its physical pages but not
  the reservation of its virtual pages: each such round leaves the counter of free virtual pages
  lower by the size of the segment.\<close>

theorem shm_create_destroy_leaks:
  assumes inv: "shm_inv s ps ws" and new: "obj \<notin> set ps" "0 < pages_of sz"
    "\<forall>q\<in>set ps. \<not> name_matches (shm_bytes s) name (Some q)"
    and c: "shm_create env name sz flags obj s = Some (s', k)" "k \<noteq> SW_ERROR"
    and sized: "phy_sized (pages_info (pt s))"
    and region: "let info = pages_info (pt s); pa = shm_phy_addr (shms s' obj) in
       phy_addr_start info \<le> pa \<and> pa \<le> phy_addr_start info + phy_memregion_size info"
    and va: "shm_vir_addr (shms s' obj) \<noteq> SW_ERROR"
    and d: "shm_control k shm_cmd_destroy buffer s' = Some (s'', r, b)"
  shows "shm_id_pool s'' = shm_id_pool s \<and>
     phy_mem_bmap (pages_info (pt s'')) = phy_mem_bmap (pages_info (pt s)) \<and>
     num_phy_pag_free (pages_info (pt s'')) = num_phy_pag_free (pages_info (pt s)) \<and>
     num_vir_pag_free (pages_info (pt s'')) = num_vir_pag_free (pages_info (pt s)) - of_nat (pages_of sz)"
proof -
  let ?info = "pages_info (pt s)" and ?sz = "page_align sz"
  obtain i n where sl: "shm_slots (shm_id_pool s) ?sz = Some (i, n)"
    and at: "shm_create_at env name ?sz flags i n obj s = Some (s', k)"
    using shm_create_new[OF _ new(3) c] inv unfolding shm_inv_def by blast
  note I = shm_create_inv[OF inv new(1,2) sl at c(2)]
  note w = shm_slots_align[OF sl]
  obtain pa where co: "shm_id_pool s' = fill_slots 1 i n (shm_id_pool s)" "shm_size (shms s' obj) = ?sz"
      "shm_phy_addr (shms s' obj) = pa" "pa \<noteq> 0" "snd (phy_alloc ?sz (pt s)) = pa"
      "vir_reserve (shm_vir_addr (shms s' obj)) ?sz (fst (phy_alloc ?sz (pt s))) = (pt s', Inr ())"
    using shm_create_at_ok[OF at c(2)] by auto
  obtain info1 where al: "sw_phy_page_alloc ?sz ?info = (info1, pa)"
    "fst (phy_alloc ?sz (pt s)) = (pt s)\<lparr>pages_info := info1\<rparr>"
    using co(5) by (auto simp: phy_alloc_def split: prod.splits)
  obtain m where vm: "pages_info (pt s') = vir_mark m (pages_of ?sz) info1"
    using co(6) unfolding al(2) by (auto simp: vir_reserve_def dest!: sw_vir_addr_reserve_Inr split: prod.splits dest: sym[where t = "pt s'"])
  have "pages_of ?sz < 2 ^ 19" using w(1,3) by (simp add: page_simps)
  then have fr: "sw_phy_addr_free pa ?sz info1 = (?info, Inr ())"
    using region co(3) by (intro phy_free_alloc[OF sized al(1) co(4)]) (simp_all add: Let_def)
  have dd: "shm_destroy k (Shm_Head obj) obj s' = Some s''"
    using d shm_search_id[OF I(1), of obj k] I(5)
    by (auto simp: shm_control_def shm_cmd_set_cid_def shm_cmd_set_lid_def shm_cmd_set_flag_def
        shm_cmd_set_stat_def shm_cmd_stat_def shm_cmd_destroy_def split: Option.bind_splits)
  have s'': "pt s'' = phy_free pa ?sz (pt s')" "shm_id_pool s'' = fill_slots 0 i n (shm_id_pool s')"
    using shm_destroy_inv[OF I(1), of obj] dd va I(2,5) co(2,3,4) by auto
  have "pages_info (pt s'') = vir_mark m (pages_of ?sz) ?info"
    using s''(1) vm fr by (simp add: phy_free_def sw_phy_addr_free_vir_mark)
  moreover have "shm_id_pool s'' = shm_id_pool s"
    unfolding s''(2) co(1) using inv w(3,4) by (intro binary_fill) (simp_all add: shm_inv_def)
  ultimately show ?thesis by (simp add: vir_mark_def page_simps)
qed

section \<open>A concrete world\<close>

text \<open>Task 17 runs; task 18 has created the segment 1, one page that others may read and write, named
  \<^verbatim>\<open>A\<close>; address \<open>0x100\<close> holds the name \<^verbatim>\<open>B\<close>.\<close>

definition demo_shm :: shm_world where
  "demo_shm =
     \<lparr>links = links demo_tee, tasks = tasks demo_tee, current_task_id = 17, task_id_pool = (\<lambda>_. 1),
      switches = [], pt = demo_pt, exec_mode = 0, open_fds = (\<lambda>_. []), closed_fds = [], freed = [],
      shm_bytes = (\<lambda>_. 0)(0x9000 := 65, 0x100 := 66),
      shm_links =
        \<lparr>next_of = (\<lambda>_. None)(Shm_Ref := Some (Shm_Head 0x9000), Shm_Head 0x9000 := Some Shm_Ref),
         prev_of = (\<lambda>_. None)(Shm_Ref := Some (Shm_Head 0x9000), Shm_Head 0x9000 := Some Shm_Ref),
         data_of = (\<lambda>_. None)(Shm_Head 0x9000 := Some 0x9000)\<rparr>,
      shms = (\<lambda>_. shm_blank 0 0 0)(0x9000 :=
        \<lparr>shm_id = 1, shm_creator_id = 18, shm_last_modify = 0, shm_flags = 3,
         shm_vir_addr = 0x3C004000, shm_phy_addr = 0x3C004000, shm_size = 4096, shm_status = 0\<rparr>),
      shm_id_pool = (\<lambda>_. 0)(1 := 1), shm_freed = []\<rparr>"

lemma demo_shm_sels [simp]:
  "links demo_shm = links demo_tee" "tasks demo_shm = tasks demo_tee" "current_task_id demo_shm = 17"
  "pt demo_shm = demo_pt" "shm_id_pool demo_shm = (\<lambda>_. 0)(1 := 1)" "shm_freed demo_shm = []"
  "shms demo_shm 0x9000 = \<lparr>shm_id = 1, shm_creator_id = 18, shm_last_modify = 0, shm_flags = 3,
         shm_vir_addr = 0x3C004000, shm_phy_addr = 0x3C004000, shm_size = 4096, shm_status = 0\<rparr>"
  "shm_bytes demo_shm = (\<lambda>_. 0)(0x9000 := 65, 0x100 := 66)"
  by (simp_all add: demo_shm_def)

lemma demo_shm_inv: "shm_inv demo_shm [0x9000] []"
  by (auto simp: shm_inv_def segs_listed_def dlist_def demo_shm_def seg_ok_def seg_def PAGE_SIZE_def
      slots.owns_def units_def slots_used_def)

lemma demo_shm_name: "\<not> name_matches (shm_bytes demo_shm) 0x100 (Some 0x9000)"
  by code_simp

lemma demo_shm_current: "get_current_task demo_shm = Some (Some 1)"
  using find_task_rep[OF demo_tee_rep(1), of 17] current_task_cong[of demo_shm demo_tee]
  by (simp add: get_current_task_def find_task_def lookup_def demo_tee_def demo_global_def demo_task_def)

lemma demo_shm_foreign: "foreign demo_shm 1 0x9000"
  by (simp add: foreign_def demo_tee_def demo_global_def demo_task_def)

definition demo_new :: "(shm_world \<times> u32) option" where
  "demo_new = shm_create flat_env 0x100 4096 18 0xA000 demo_shm"

lemma demo_new_id: "map_option snd demo_new = Some 2"
  by code_simp

lemma demo_new_addr: "map_option (\<lambda>(s, _). (shm_phy_addr (shms s 0xA000), shm_vir_addr (shms s 0xA000))) demo_new =
   Some (0x3C001000, 0x3C001000)"
  by code_simp

lemma demo_pages: "pages_of 4096 = 1"
  by (simp add: pages_of_ceil)

theorem shm_create_segment_witness:
  "\<exists>s'. shm_create flat_env 0x100 4096 18 0xA000 demo_shm = Some (s', 2) \<and>
     shm_inv s' [0x9000, 0xA000] [] \<and> seg s' 0xA000 = (2, 1)"
proof -
  obtain s' where s': "shm_create flat_env 0x100 4096 18 0xA000 demo_shm = Some (s', 2)"
    using demo_new_id by (auto simp: demo_new_def)
  have "(2 :: u32) \<noteq> SW_ERROR" by (simp add: SW_ERROR_def)
  from shm_create_segment[OF demo_shm_inv _ _ _ s' this] show ?thesis
    using s' demo_shm_name demo_pages by simp
qed

theorem shm_destroy_segment_witness:
  "\<exists>s'. shm_control 1 shm_cmd_destroy None demo_shm = Some (s', SW_OK, None) \<and> shm_inv s' [] [] \<and>
     slots_used (shm_id_pool s') = {}"
proof -
  have "slots_used (shm_id_pool demo_shm) - units (seg demo_shm 0x9000) = {}"
    by (auto simp: slots_used_def units_def seg_def)
  then show ?thesis
    using shm_destroy_segment[OF demo_shm_inv, of "0x9000" None] by auto
qed

theorem shm_attach_window_witness:
  "\<exists>s' a. shm_attach flat_env 1 0 1 demo_shm = Some (s', a) \<and> a = 0x102000 \<and>
     shm_inv s' [0x9000] [(2, 1)]"
proof -
  have "map_option snd (shm_attach flat_env 1 0 1 demo_shm) = Some 0x102000" by code_simp
  then obtain s' where s': "shm_attach flat_env (shm_id (shms demo_shm 0x9000)) 0 1 demo_shm = Some (s', 0x102000)"
    by auto
  from shm_attach_window[OF demo_shm_inv _ demo_shm_current demo_shm_foreign s']
  obtain i where i: "1 \<le> i" "i + 1 \<le> 16" "shm_inv s' [0x9000] [(i, 1)]"
    "0x102000 = SHM_AT_ADDR + of_nat i * PAGE_SIZE"
    by (auto simp: SW_ERROR_def seg_def split: if_splits)
  have "unat (of_nat i * PAGE_SIZE :: u32) = i * 4096" using i(2) by (intro slot_size_less) simp
  moreover have "of_nat i * PAGE_SIZE = (0x2000 :: u32)" using i(4) by (simp add: SHM_AT_ADDR_def algebra_simps)
  ultimately have "i = 2" by simp
  then show ?thesis using i(3) s' by auto
qed


theorem shm_detach_returns_window_witness:
  "\<exists>s' s'' r. shm_attach flat_env 1 0 1 demo_shm = Some (s', 0x102000) \<and>
     shm_detach flat_env 1 0x102000 s' = Some (s'', r) \<and> shm_id_pool s'' = (\<lambda>_. 0)(1 := 1)"
proof -
  have "map_option snd (shm_attach flat_env 1 0 1 demo_shm) = Some 0x102000" by code_simp
  then obtain s' where s': "shm_attach flat_env (shm_id (shms demo_shm 0x9000)) 0 1 demo_shm = Some (s', 0x102000)"
    by auto
  have "(0x102000 :: u32) \<noteq> SW_ERROR" "(0x102000 :: u32) \<noteq> 0" by (simp_all add: SW_ERROR_def)
  from shm_detach_returns_window[OF demo_shm_inv _ demo_shm_current demo_shm_foreign s' this]
  show ?thesis using s' by auto
qed

text \<open>Task 17 tries to take over the segment of task 18: the command falls through to the last modifier.\<close>

theorem shm_control_protects_witness:
  "\<exists>s' r b. shm_control 1 shm_cmd_set_cid (Some 17) demo_shm = Some (s', r, b) \<and>
     shm_creator_id (shms s' 0x9000) = 18 \<and> shm_last_modify (shms s' 0x9000) = 17"
proof -
  have "map_option (\<lambda>(s', r, b). shm_last_modify (shms s' 0x9000)) (shm_control 1 shm_cmd_set_cid (Some 17) demo_shm) = Some 17"
    by code_simp
  then obtain s' r b where c: "shm_control (shm_id (shms demo_shm 0x9000)) shm_cmd_set_cid (Some 17) demo_shm = Some (s', r, b)"
    "shm_last_modify (shms s' 0x9000) = 17" by auto
  have "\<not> shm_owner demo_shm 0x9000" "\<not> shm_ctrl demo_shm 0x9000" "shm_cmd_set_cid \<noteq> shm_cmd_destroy"
    by (simp_all add: shm_owner_def shm_ctrl_def shm_flag_ctrl_def shm_cmd_set_cid_def shm_cmd_destroy_def)
  from shm_control_protects[OF demo_shm_inv _ this c(1), of "0x9000"] c show ?thesis
    by (auto simp: same_rights_def)
qed

text \<open>Sixteen pages do not fit.\<close>

theorem shm_create_exhausted_witness:
  "\<exists>s'. shm_create flat_env 0x100 0x10000 18 0xA000 demo_shm = Some (s', SW_ERROR) \<and> shm_freed s' = [0x9000]"
proof -
  have "shm_slots (shm_id_pool demo_shm) (page_align 0x10000) = None" by code_simp
  moreover have "(18 :: u32) AND shm_flag_create \<noteq> 0" by (simp add: shm_flag_create_def)
  moreover have "shm_phy_addr (shms demo_shm (last [0x9000])) \<noteq> 0"
    "shm_vir_addr (shms demo_shm (last [0x9000])) \<noteq> SW_ERROR" by (simp_all add: SW_ERROR_def)
  ultimately show ?thesis
    using shm_create_exhausted[OF demo_shm_inv, of "0x100" 18 "0x10000" flat_env "0xA000"] demo_shm_name
    by simp
qed

end
