(* ===== verification/Heap.thy ===== *)
theory Heap
  imports Task Buddy Str_Mem
begin

text \<open>
  The kernel's heaps, \<^verbatim>\<open>lib/kernel/sw_heap.c\<close> with \<^verbatim>\<open>lib/kernel/sw_errno.c\<close>, the heap of a user task,
  \<^verbatim>\<open>lib/user/sw_user_heap.c\<close>, and the memory interface of the secure applications,
  \<^verbatim>\<open>lib/user/otz_tee_mem_mgmt.c\<close>.  A heap is a pool of the buddy allocator with a counter of the
  blocks handed out; the common heap has the identifier 0, a task's heap lies in its thread-local
  storage and has the task's identifier.  The state extends the task state with the heaps, the
  error numbers and the bytes of memory.
\<close>

section \<open>Data\<close>

record sw_heap_info =
  buddy_pool :: sw_buddy_pool
  num_blocks_alloc :: u32
  heap_vir_addr :: u32
  heap_phy_addr :: u32

record heap_world = tee +
  tls_heaps :: "tptr \<Rightarrow> sw_heap_info"
  common_heap :: sw_heap_info
  task_errno :: "tptr \<Rightarrow> sw_error"
  global_errno :: sw_error
  hbytes :: bytes

datatype heap_ref = Common_Heap | Tls_Heap tptr

definition COMMON_HEAP_ID :: u32 where "COMMON_HEAP_ID = 0"

fun heap_at :: "heap_world \<Rightarrow> heap_ref \<Rightarrow> sw_heap_info" where
  "heap_at s Common_Heap = common_heap s"
| "heap_at s (Tls_Heap t) = tls_heaps s t"

fun set_heap :: "heap_ref \<Rightarrow> sw_heap_info \<Rightarrow> heap_world \<Rightarrow> heap_world" where
  "set_heap Common_Heap hi s = s\<lparr>common_heap := hi\<rparr>"
| "set_heap (Tls_Heap t) hi s = s\<lparr>tls_heaps := (tls_heaps s)(t := hi)\<rparr>"

section \<open>Thread-local storage and error numbers\<close>

text \<open>The task whose thread-local storage \<^verbatim>\<open>get_task_tls\<close> returns, \<open>None\<close> for \<^verbatim>\<open>NULL\<close>.\<close>

definition tls_task :: "u32 \<Rightarrow> heap_world \<Rightarrow> tptr option option" where
  "tls_task tid s = do {
     r \<leftarrow> find_task Task_List tid s;
     Some (case r of None \<Rightarrow> None | Some t \<Rightarrow> if tls_addr (tasks s t) = 0 then None else Some t)
   }"

definition sw_seterrno :: "sw_error \<Rightarrow> heap_world \<Rightarrow> heap_world option" where
  "sw_seterrno e s = do {
     r \<leftarrow> tls_task (current_task_id s) s;
     Some (case r of Some t \<Rightarrow> s\<lparr>task_errno := (task_errno s)(t := e)\<rparr> | None \<Rightarrow> s\<lparr>global_errno := e\<rparr>)
   }"

definition sw_geterrno :: "heap_world \<Rightarrow> sw_error option" where
  "sw_geterrno s = do {
     r \<leftarrow> tls_task (current_task_id s) s;
     Some (case r of Some t \<Rightarrow> task_errno s t | None \<Rightarrow> global_errno s)
   }"

definition get_heap_info :: "u32 \<Rightarrow> heap_world \<Rightarrow> (heap_world \<times> heap_ref option) option" where
  "get_heap_info hid s =
     (if hid \<noteq> COMMON_HEAP_ID
      then do {
        r \<leftarrow> tls_task hid s;
        case r of
          None \<Rightarrow> do { s' \<leftarrow> sw_seterrno SW_EINVAL s; Some (s', None) }
        | Some t \<Rightarrow> Some (s, Some (Tls_Heap t))
      }
      else Some (s, Some Common_Heap))"

section \<open>Allocation and release\<close>







section \<open>Creating and deleting heaps\<close>

text \<open>A heap in kernel memory.  The last component tells whether the result is \<^verbatim>\<open>SW_OK\<close>.\<close>

definition alloc_private_heap_at ::
    "pt_env \<Rightarrow> u32 \<Rightarrow> u32 \<Rightarrow> mem_info \<Rightarrow> sw_heap_info \<Rightarrow> (mem_info \<times> sw_heap_info \<times> bool) option" where
  "alloc_private_heap_at env sz min_size info hi =
     (let whole = sz + get_manage_area sz min_size in
      case sw_vir_page_alloc whole info of
        (info1, Inl e) \<Rightarrow> Some (info1, hi, False)
      | (info1, Inr heap_start) \<Rightarrow>
          if heap_start = 0 then Some (info1, hi, False)
          else do {
            (pool, r) \<leftarrow> sw_buddy_init (buddy_pool hi) heap_start (ucast whole) min_size sz;
            let hi1 = hi\<lparr>buddy_pool := pool\<rparr>;
            Some (if r \<noteq> Inr () then (fst (sw_vir_addr_free (v2p env) heap_start whole info1), hi1, False)
                  else (info1, hi1\<lparr>num_blocks_alloc := 0, heap_vir_addr := heap_start\<rparr>, True))
          })"

text \<open>The exit of \<^verbatim>\<open>alloc_user_heap\<close> after a failure.\<close>

definition alloc_user_heap_fail ::
    "pt_env \<Rightarrow> u32 \<Rightarrow> u32 \<Rightarrow> u32 \<Rightarrow> u32 \<Rightarrow> heap_world \<Rightarrow> (heap_world \<times> bool) option" where
  "alloc_user_heap_fail env heap_start kern_addr phy whole s = do {
     pt1 \<leftarrow> (if heap_start \<noteq> 0
            then map_option fst (unmap_user_memory env heap_start whole (secure_ptd env) (pt s)) else Some (pt s));
     let pt2 = (if kern_addr \<noteq> 0 then vir_unreserve kern_addr whole pt1 else pt1);
     let pt3 = (if phy \<noteq> 0 then phy_free phy whole pt2 else pt2);
     Some (s\<lparr>pt := pt3\<rparr>, False)
   }"

definition alloc_user_heap :: "pt_env \<Rightarrow> u32 \<Rightarrow> u32 \<Rightarrow> u32 \<Rightarrow> heap_world \<Rightarrow> (heap_world \<times> bool) option" where
  "alloc_user_heap env hid sz min_size s = do {
     (s0, r) \<leftarrow> get_heap_info hid s;
     case r of
       None \<Rightarrow> alloc_user_heap_fail env 0 0 0 0 s0
     | Some h \<Rightarrow>
         let whole = sz + get_manage_area sz min_size; (pt1, phy) = phy_alloc whole (pt s0);
             s1 = s0\<lparr>pt := pt1\<rparr> in
         if phy = 0 then alloc_user_heap_fail env 0 0 0 whole s1
         else do {
           tk \<leftarrow> get_task hid s1;
           case tk of
             None \<Rightarrow> alloc_user_heap_fail env 0 0 phy whole s1
           | Some t \<Rightarrow>
               let va = phys_to_virt env phy; (pt2, rv) = vir_reserve va whole pt1 in
               if rv \<noteq> Inr () then alloc_user_heap_fail env 0 0 phy whole (s1\<lparr>pt := pt2\<rparr>)
               else do {
                 (pt3, m) \<leftarrow>
                   (if mode (tasks s1 t) = TASK_USER_MODE
                    then map_user_data_memory env va phy whole (secure_ptd env) pt2
                    else map_user_memory env va phy whole PTF_PROT_KRW (secure_ptd env) pt2);
                 if m \<noteq> Inr () then alloc_user_heap_fail env 0 va phy whole (s1\<lparr>pt := pt3\<rparr>)
                 else do {
                   let hi = heap_at s1 h;
                   (pool, b) \<leftarrow> sw_buddy_init (buddy_pool hi) va (ucast whole) min_size sz;
                   let s2 = (set_heap h (hi\<lparr>buddy_pool := pool\<rparr>) s1)\<lparr>pt := pt3\<rparr>;
                   if b \<noteq> Inr () then alloc_user_heap_fail env va va phy whole s2
                   else Some (set_heap h (hi\<lparr>buddy_pool := pool, heap_vir_addr := va, heap_phy_addr := phy\<rparr>) s2, True)
                 }
               }
         }
   }"

text \<open>Pending blocks and a missing task make the result an error but do not stop the release.\<close>

definition free_user_heap :: "pt_env \<Rightarrow> u32 \<Rightarrow> heap_world \<Rightarrow> (heap_world \<times> bool) option" where
  "free_user_heap env hid s = do {
     (s0, r) \<leftarrow> get_heap_info hid s;
     case r of
       None \<Rightarrow> Some (s0, False)
     | Some h \<Rightarrow> do {
         let hi = heap_at s0 h; let idle = (num_blocks_alloc hi = 0);
         s1 \<leftarrow> (if idle then Some s0 else sw_seterrno SW_EBUSY s0);
         tk \<leftarrow> get_task hid s1;
         if heap_phy_addr hi = 0 then Some (s1, idle \<and> tk \<noteq> None)
         else do {
           let sz = pool_size (buddy_pool hi);
           (pt1, um) \<leftarrow> (if tk \<noteq> None then unmap_user_memory env (heap_vir_addr hi) sz (secure_ptd env) (pt s1)
                         else Some (pt s1, Inr ()));
           let (i2, vr) = sw_vir_free_reserve (heap_vir_addr hi) sz (pages_info pt1);
           let (i3, pr) = sw_phy_addr_free (heap_phy_addr hi) sz i2;
           Some (s1\<lparr>pt := pt1\<lparr>pages_info := i3\<rparr>\<rparr>,
                 idle \<and> tk \<noteq> None \<and> um = Inr () \<and> vr = Inr () \<and> pr = Inr ())
         }
       }
   }"

text \<open>Here the error of pending blocks is overwritten by the result of the release.\<close>

definition free_private_heap :: "pt_env \<Rightarrow> u32 \<Rightarrow> heap_world \<Rightarrow> (heap_world \<times> bool) option" where
  "free_private_heap env hid s = do {
     (s0, r) \<leftarrow> get_heap_info hid s;
     case r of
       None \<Rightarrow> Some (s0, False)
     | Some h \<Rightarrow> do {
         let hi = heap_at s0 h;
         s1 \<leftarrow> (if num_blocks_alloc hi = 0 then Some s0 else sw_seterrno SW_EBUSY s0);
         let (i, rv) = sw_vir_addr_free (v2p env) (pool_start (buddy_pool hi)) (pool_size (buddy_pool hi)) (pages_info (pt s1));
         Some (s1\<lparr>pt := (pt s1)\<lparr>pages_info := i\<rparr>\<rparr>, rv = Inr ())
       }
   }"

section \<open>The heap of a user task\<close>

text \<open>A user task works on the heap in its own thread-local storage.\<close>

definition usr_malloc :: "u32 \<Rightarrow> sw_heap_info \<Rightarrow> (sw_heap_info \<times> u32) option" where
  "usr_malloc sz hi = do {
     (a, pool) \<leftarrow> sw_buddy_alloc sz (buddy_pool hi);
     let hi1 = hi\<lparr>buddy_pool := pool\<rparr>;
     Some (if a \<noteq> 0 then hi1\<lparr>num_blocks_alloc := num_blocks_alloc hi1 + 1\<rparr> else hi1, a)
   }"

definition get_usr_ptr_size :: "u32 \<Rightarrow> sw_heap_info \<Rightarrow> u32 option" where
  "get_usr_ptr_size ptr hi = get_buddy_ptr_size (buddy_pool hi) ptr"

definition usr_free :: "u32 \<Rightarrow> sw_heap_info \<Rightarrow> sw_heap_info option" where
  "usr_free ptr hi =
     (if ptr = 0 then Some hi
      else do {
        pool \<leftarrow> sw_buddy_free ptr (buddy_pool hi);
        Some (hi\<lparr>buddy_pool := pool, num_blocks_alloc := num_blocks_alloc hi - 1\<rparr>)
      })"

definition usr_realloc ::
    "u32 \<Rightarrow> u32 \<Rightarrow> sw_heap_info \<times> bytes \<Rightarrow> ((sw_heap_info \<times> bytes) \<times> u32) option" where
  "usr_realloc ptr sz s =
     (case s of (hi, m) \<Rightarrow>
        if ptr = 0 then do { (hi1, a) \<leftarrow> usr_malloc sz hi; Some ((hi1, m), a) }
        else if sz = 0 then do { hi1 \<leftarrow> usr_free ptr hi; Some ((hi1, m), 0) }
        else do {
          (hi1, a) \<leftarrow> usr_malloc sz hi;
          old_size \<leftarrow> get_usr_ptr_size ptr hi1;
          if a = 0 \<and> min old_size sz \<noteq> 0 then None
          else do {
            hi2 \<leftarrow> usr_free ptr hi1;
            Some ((hi2, sw_memcpy a ptr (min old_size sz) m), a)
          }
        })"

section \<open>The memory interface of the secure applications\<close>

definition TEE_Malloc :: "u32 \<Rightarrow> u32 \<Rightarrow> sw_heap_info \<times> bytes \<Rightarrow> ((sw_heap_info \<times> bytes) \<times> u32) option" where
  "TEE_Malloc sz hint s =
     (case s of (hi, m) \<Rightarrow> do {
        (hi1, buffer) \<leftarrow> usr_malloc sz hi;
        Some ((hi1, if buffer \<noteq> 0 \<and> hint = 0 then sw_memset buffer 0 sz m else m), buffer)
      })"

definition TEE_Realloc where
  "TEE_Realloc buffer new_size = usr_realloc buffer new_size"

definition TEE_Free :: "u32 \<Rightarrow> sw_heap_info \<times> bytes \<Rightarrow> (sw_heap_info \<times> bytes) option" where
  "TEE_Free buffer s = map_option (\<lambda>hi. (hi, snd s)) (usr_free buffer (fst s))"

definition TEE_MemMove where "TEE_MemMove dest src n m = sw_memmove dest src n m"
definition TEE_MemCompare where "TEE_MemCompare src dest len m = sw_memcmp m src dest len"
definition TEE_MemFill where "TEE_MemFill buffer x sz m = sw_memset buffer x sz m"
definition TEE_MemCpy where "TEE_MemCpy dest src n m = sw_memcpy dest src n m"
definition TEE_MemnCpy where "TEE_MemnCpy dest src n dst_len src_len m = fst (sw_memncpy dest src n dst_len src_len m)"

section \<open>Every heap is a block allocator\<close>

text \<open>The heap that an identifier stands for, \<open>None\<close> when there is none.\<close>

definition heap_of :: "u32 \<Rightarrow> heap_world \<Rightarrow> heap_ref option" where
  "heap_of hid s =
     (if hid = COMMON_HEAP_ID then Some Common_Heap
      else case tls_task hid s of Some (Some t) \<Rightarrow> Some (Tls_Heap t) | _ \<Rightarrow> None)"

lemma heap_of_info: "heap_of hid s = Some h \<Longrightarrow> get_heap_info hid s = Some (s, Some h)"
  by (auto simp: heap_of_def get_heap_info_def split: if_splits option.splits)

lemma tls_task_cong:
  "links s' = links s \<Longrightarrow> tasks s' = tasks s \<Longrightarrow> tls_task tid s' = tls_task tid s"
  unfolding tls_task_def find_task_def has_task_id_def[abs_def] by (simp only:)

lemma heap_of_cong: "links s' = links s \<Longrightarrow> tasks s' = tasks s \<Longrightarrow> heap_of hid s' = heap_of hid s"
  using tls_task_cong[of s' s hid] by (simp add: heap_of_def)

lemma set_heap_sels [simp]:
  "links (set_heap h hi s) = links s" "tasks (set_heap h hi s) = tasks s"
  "current_task_id (set_heap h hi s) = current_task_id s" "hbytes (set_heap h hi s) = hbytes s"
  "pt (set_heap h hi s) = pt s"
  "heap_at (set_heap h hi s) g = (if g = h then hi else heap_at s g)"
  by (cases h; cases g; simp)+

lemma heap_of_set [simp]: "heap_of hid (set_heap h hi s) = heap_of hid s"
  by (rule heap_of_cong) simp_all










text \<open>The heap of a user task.\<close>

interpretation usr: block_allocator "\<lambda>hi. buddy_inv (buddy_pool hi)" "\<lambda>hi. block_len (buddy_pool hi)"
  "\<lambda>sz hi. map_option prod.swap (usr_malloc sz hi)" usr_free
proof (unfold_locales, goal_cases)
  case (1 hi a c)
  then show ?case by (rule buddy.apart)
next
  case (2 hi sz)
  obtain a p where a: "sw_buddy_alloc sz (buddy_pool hi) = Some (a, p)" "buddy_inv p"
    "if a = 0 then block_len p = block_len (buddy_pool hi)
     else block_len (buddy_pool hi) a = 0 \<and> 0 < block_len p a \<and> unat sz \<le> block_len p a \<and>
       (\<forall>c. c \<noteq> a \<longrightarrow> block_len p c = block_len (buddy_pool hi) c)"
    using buddy.alloc_law[OF 2, of sz] by blast
  let ?h = "if a \<noteq> 0 then hi\<lparr>buddy_pool := p, num_blocks_alloc := num_blocks_alloc hi + 1\<rparr> else hi\<lparr>buddy_pool := p\<rparr>"
  have "map_option prod.swap (usr_malloc sz hi) = Some (a, ?h)" using a(1) by (simp add: usr_malloc_def Let_def)
  then show ?case using a(2,3) by (intro exI[of _ a] exI[of _ ?h]) simp
next
  case (3 hi a)
  obtain p where "sw_buddy_free a (buddy_pool hi) = Some p" "buddy_inv p"
    "block_len p = (block_len (buddy_pool hi))(a := 0)"
    using buddy.free_law[OF 3] by blast
  then show ?case using 3(2) by (simp add: usr_free_def)
qed

section \<open>Counting\<close>

text \<open>The counter of a heap is the number of its blocks.\<close>

definition counted :: "sw_heap_info \<Rightarrow> bool" where
  "counted hi \<longleftrightarrow> buddy_inv (buddy_pool hi) \<and> unat (num_blocks_alloc hi) = card {a. 0 < block_len (buddy_pool hi) a}"

lemma blocks_finite: "finite {a. 0 < block_len p (a :: u32)}"
  by simp

lemma counted_malloc:
  assumes "counted hi" and "sw_buddy_alloc sz (buddy_pool hi) = Some (a, p)"
  shows "counted (hi\<lparr>buddy_pool := p, num_blocks_alloc := num_blocks_alloc hi + (if a > 0 then 1 else 0)\<rparr>)"
proof -
  let ?S = "{a. 0 < block_len (buddy_pool hi) a}"
  have inv: "buddy_inv (buddy_pool hi)" and cnt: "unat (num_blocks_alloc hi) = card ?S"
    using assms(1) by (auto simp: counted_def)
  have law: "buddy_inv p \<and> (if a = 0 then block_len p = block_len (buddy_pool hi)
     else block_len (buddy_pool hi) a = 0 \<and> 0 < block_len p a \<and> (\<forall>c. c \<noteq> a \<longrightarrow> block_len p c = block_len (buddy_pool hi) c))"
    using buddy.alloc_law[OF inv, of sz] assms(2) by auto
  show ?thesis
  proof (cases "a = 0")
    case True
    then show ?thesis using law cnt by (simp add: counted_def)
  next
    case False
    then have b: "block_len p = (block_len (buddy_pool hi))(a := block_len p a)" "0 < block_len p a"
      and "a \<notin> ?S" using law by (auto simp: fun_eq_iff)
    have "{c. 0 < block_len p c} = insert a ?S" by (subst b(1)) (use b(2) in auto)
    then have c1: "card {c. 0 < block_len p c} = Suc (card ?S)" using \<open>a \<notin> ?S\<close> by simp
    have "card (insert a ?S) \<le> card (UNIV - {0 :: u32})"
    proof (rule card_mono)
      show "insert a ?S \<subseteq> UNIV - {0}" using False by (auto simp: block_len_def)
    qed simp
    also have "\<dots> < 2 ^ 32" by (simp add: card_Diff_singleton card_word)
    finally have "Suc (card ?S) < 2 ^ 32" using \<open>a \<notin> ?S\<close> by simp
    then have "unat (num_blocks_alloc hi + 1) = Suc (card ?S)"
      using cnt by (subst unat_add_small) simp_all
    then show ?thesis using False law c1 by (simp add: counted_def word_gt_0)
  qed
qed

lemma counted_free:
  assumes "counted hi" and "0 < block_len (buddy_pool hi) a" and "sw_buddy_free a (buddy_pool hi) = Some p"
  shows "counted (hi\<lparr>buddy_pool := p, num_blocks_alloc := num_blocks_alloc hi - 1\<rparr>)"
proof -
  let ?S = "{a. 0 < block_len (buddy_pool hi) a}"
  have a0: "a \<noteq> 0" using assms(2) by (auto simp: block_len_def)
  have inv: "buddy_inv (buddy_pool hi)" and cnt: "unat (num_blocks_alloc hi) = card ?S"
    using assms(1) by (auto simp: counted_def)
  have law: "buddy_inv p" "block_len p = (block_len (buddy_pool hi))(a := 0)"
    using buddy.free_law[OF inv a0] assms(3) by auto
  have S: "{c. 0 < block_len p c} = ?S - {a}" using law(2) by auto
  have c1: "card {c. 0 < block_len p c} = card ?S - 1"
    unfolding S using assms(2) by (intro card_Diff_singleton) simp
  have "0 < card ?S" unfolding card_gt_0_iff using assms(2) by auto
  then have "unat (num_blocks_alloc hi - 1) = card ?S - 1"
    using cnt by (subst unat_sub_le) (simp_all add: word_le_nat_alt)
  then show ?thesis using law(1) c1 by (simp add: counted_def)
qed

text \<open>Releasing an address that is not a block of the heap leaves the blocks and lowers the counter.\<close>

lemma free_of_nothing_miscounts:
  assumes "counted hi" and "block_len (buddy_pool hi) a = 0" and "a \<noteq> 0" and "sw_buddy_free a (buddy_pool hi) = Some p"
    and "num_blocks_alloc hi \<noteq> 0"
  shows "\<not> counted (hi\<lparr>buddy_pool := p, num_blocks_alloc := num_blocks_alloc hi - 1\<rparr>)"
proof -
  have "block_len p = block_len (buddy_pool hi)"
    using buddy.free_law[OF _ assms(3), of "buddy_pool hi"] assms(1,2,4) by (auto simp: counted_def)
  moreover have "num_blocks_alloc hi - 1 \<noteq> num_blocks_alloc hi" by simp
  then have "unat (num_blocks_alloc hi - 1) \<noteq> unat (num_blocks_alloc hi)" using unsigned_word_eqI by blast
  ultimately show ?thesis using assms(1) by (auto simp: counted_def)
qed

section \<open>Reallocation\<close>








section \<open>Life of a heap\<close>

text \<open>A private heap of a power of two bytes is ready after its creation: the pool satisfies the
  invariant of the allocator, no block is handed out and the counter is 0.\<close>

theorem private_heap_ready:
  assumes "s + k < 31" and "Suc k < MAX_BINS"
    and "sw_vir_page_alloc (2 ^ (s + k) + get_manage_area (2 ^ (s + k)) (2 ^ s)) info = (info', Inr start)"
    and "start \<noteq> 0" and "0 < unat (start + get_manage_area (2 ^ (s + k)) (2 ^ s))"
    and "unat (start + get_manage_area (2 ^ (s + k)) (2 ^ s)) + 2 ^ (s + k + 1) < 2 ^ 32"
    and "2 ^ (s + k) + unat (get_manage_area (2 ^ (s + k)) (2 ^ s)) < 2 ^ 32"
  shows "\<exists>hi'. alloc_private_heap_at env (2 ^ (s + k)) (2 ^ s) info hi = Some (info', hi', True) \<and>
     counted hi' \<and> heap_vir_addr hi' = start \<and> (\<forall>a. block_len (buddy_pool hi') a = 0)"
proof -
  let ?m = "get_manage_area (2 ^ (s + k)) (2 ^ s)"
  have u: "unat (2 ^ (s + k) :: u32) = 2 ^ (s + k)" using assms(1) by (simp add: unat_exp)
  have "(ucast (2 ^ (s + k) + ?m) :: u64) = ucast (2 ^ (s + k) :: u32) + ucast ?m"
  proof (rule unsigned_word_eqI[where 'a = nat])
    have "unat (2 ^ (s + k) + ?m) = 2 ^ (s + k) + unat ?m"
      using assms(7) u by (subst unat_add_small) simp_all
    moreover have "unat ((ucast (2 ^ (s + k) :: u32) :: u64) + ucast ?m) = 2 ^ (s + k) + unat ?m"
      using assms(7) u by (subst unat_add_small) (simp_all add: unat_ucast_u64)
    ultimately show "unat (ucast (2 ^ (s + k) + ?m) :: u64) = unat ((ucast (2 ^ (s + k) :: u32) :: u64) + ucast ?m)"
      by (simp add: unat_ucast_u64)
  qed
  then have "(ucast (2 ^ (s + k) + ?m) :: u64) - ucast ?m = ucast (2 ^ (s + k) :: u32)" by simp
  then obtain p where p: "sw_buddy_init (buddy_pool hi) start (ucast (2 ^ (s + k) + ?m)) (2 ^ s) (2 ^ (s + k)) = Some (p, Inr ())"
    "buddy_inv p" "\<forall>a. block_len p a = 0"
    using sw_buddy_init_ok[OF assms(1,2) refl assms(5,6)] by blast
  let ?h = "hi\<lparr>buddy_pool := p, num_blocks_alloc := 0, heap_vir_addr := start\<rparr>"
  have "alloc_private_heap_at env (2 ^ (s + k)) (2 ^ s) info hi = Some (info', ?h, True)"
    using assms(3,4) p(1) by (simp add: alloc_private_heap_at_def Let_def)
  then show ?thesis using p by (intro exI[of _ ?h]) (simp add: counted_def)
qed

text \<open>A history of a heap: a request, or the release of an address.  \<open>live_frees\<close> says that only blocks
  that are handed out are released.\<close>

datatype heap_op = Malloc u32 | Free u32

fun heap_step :: "heap_op \<Rightarrow> sw_heap_info \<Rightarrow> sw_heap_info option" where
  "heap_step (Malloc sz) hi = map_option fst (usr_malloc sz hi)"
| "heap_step (Free a) hi = usr_free a hi"

fun heap_history :: "heap_op list \<Rightarrow> sw_heap_info \<Rightarrow> sw_heap_info option" where
  "heap_history [] hi = Some hi"
| "heap_history (x # xs) hi = Option.bind (heap_step x hi) (heap_history xs)"

fun live_frees :: "heap_op list \<Rightarrow> sw_heap_info \<Rightarrow> bool" where
  "live_frees [] hi \<longleftrightarrow> True"
| "live_frees (x # xs) hi \<longleftrightarrow>
     (case x of Free a \<Rightarrow> 0 < block_len (buddy_pool hi) a | Malloc sz \<Rightarrow> True) \<and>
     (case heap_step x hi of Some hi' \<Rightarrow> live_frees xs hi' | None \<Rightarrow> True)"

lemma heap_step_counted:
  assumes "counted hi" and "case x of Free a \<Rightarrow> 0 < block_len (buddy_pool hi) a | Malloc sz \<Rightarrow> True"
  shows "\<exists>hi'. heap_step x hi = Some hi' \<and> counted hi'"
proof (cases x)
  case (Malloc sz)
  obtain a p where a: "sw_buddy_alloc sz (buddy_pool hi) = Some (a, p)"
    using buddy.alloc_law[of "buddy_pool hi" sz] assms(1) by (auto simp: counted_def)
  from counted_malloc[OF assms(1) a] show ?thesis
    using Malloc a by (cases "a = 0") (simp_all add: usr_malloc_def Let_def word_gt_0)
next
  case (Free a)
  then have a0: "0 < block_len (buddy_pool hi) a" "a \<noteq> 0" using assms(2) by (auto simp: block_len_def)
  obtain p where p: "sw_buddy_free a (buddy_pool hi) = Some p"
    using buddy.free_law[OF _ a0(2), of "buddy_pool hi"] assms(1) by (auto simp: counted_def)
  from counted_free[OF assms(1) a0(1) p] show ?thesis using Free a0(2) p by (simp add: usr_free_def)
qed

text \<open>C13. Any sequence of allocations and releases on a user heap, as long as only blocks that are handed
  out are released, runs to its end and keeps the counter equal to the number of blocks handed
  out.\<close>

theorem heap_history_counted:
  assumes "counted hi" and "live_frees ops hi"
  shows "\<exists>hi'. heap_history ops hi = Some hi' \<and> counted hi'"
  using assms
proof (induction ops arbitrary: hi)
  case (Cons x ops)
  then obtain h1 where "heap_step x hi = Some h1" "counted h1" using heap_step_counted[of hi x] by auto
  then show ?case using Cons by auto
qed simp

text \<open>Deleting a private heap with pending blocks is reported as a success when its pages go back.\<close>

lemma free_private_heap_ignores_pending:
  assumes "heap_of hid s = Some h" and "sw_seterrno SW_EBUSY s = Some s1"
    and "sw_vir_addr_free (v2p env) (pool_start (buddy_pool (heap_at s h))) (pool_size (buddy_pool (heap_at s h)))
      (pages_info (pt s1)) = (i, Inr ())"
    and "num_blocks_alloc (heap_at s h) \<noteq> 0"
  shows "free_private_heap env hid s = Some (s1\<lparr>pt := (pt s1)\<lparr>pages_info := i\<rparr>\<rparr>, True)"
  using assms by (simp add: free_private_heap_def heap_of_info Let_def)

section \<open>A concrete heap\<close>

definition demo_hi :: sw_heap_info where
  "demo_hi = \<lparr>buddy_pool = the (demo_init 128), num_blocks_alloc = 0, heap_vir_addr = 0x10000, heap_phy_addr = 0\<rparr>"

lemma demo_pool_empty: "buddy_inv (the (demo_init 128))" "block_len (the (demo_init 128)) a = 0"
proof -
  have "(ucast (0x1080 :: u32) :: u64) - ucast (0x1000 :: u32) = ucast (128 :: u32)" by simp
  then have "\<exists>p. demo_init 128 = Some p \<and> buddy_inv p \<and> (\<forall>a. block_len p a = 0)"
    using sw_buddy_init_ok[of 4 3 "0x11000" "0x10000" "ucast (128 + get_manage_area 128 16)" blank_pool]
    by (auto simp: demo_init_def MAX_BINS_def eval_facts)
  then show "buddy_inv (the (demo_init 128))" "block_len (the (demo_init 128)) a = 0" by auto
qed

lemma demo_hi_counted: "counted demo_hi"
  using demo_pool_empty by (simp add: counted_def demo_hi_def)

lemma demo_hi_alloc:
  "\<exists>p. sw_buddy_alloc 20 (buddy_pool demo_hi) = Some (0x11000, p) \<and> buddy_inv p \<and> 0 < block_len p 0x11000"
proof -
  obtain a p where a: "sw_buddy_alloc 20 (buddy_pool demo_hi) = Some (a, p)" "buddy_inv p"
    "a \<noteq> 0 \<longrightarrow> 0 < block_len p a"
    using buddy.alloc_law[of "buddy_pool demo_hi" 20] demo_hi_counted by (auto simp: counted_def split: if_splits)
  have "a = 0x11000"
    using demo_buddy_alloc a(1) by (auto simp: demo_hi_def bind_eq_Some_conv)
  then show ?thesis using a by auto
qed

definition demo_hi1 :: sw_heap_info where
  "demo_hi1 = demo_hi\<lparr>buddy_pool := snd (the (sw_buddy_alloc 20 (buddy_pool demo_hi))), num_blocks_alloc := 1\<rparr>"

lemma demo_hi1_block: "buddy_inv (buddy_pool demo_hi1)" "0 < block_len (buddy_pool demo_hi1) 0x11000"
  "heap_step (Malloc 20) demo_hi = Some demo_hi1"
  using demo_hi_alloc by (auto simp: demo_hi1_def usr_malloc_def Let_def demo_hi_def)

theorem heap_history_counted_witness:
  "\<exists>hi'. heap_history [Malloc 20, Free 0x11000] demo_hi = Some hi' \<and> counted hi'"
proof -
  have "live_frees [Malloc 20, Free 0x11000] demo_hi"
    using demo_hi1_block by (auto split: option.splits)
  from heap_history_counted[OF demo_hi_counted this] show ?thesis .
qed

text \<open>Task 17 runs and has one block; the common heap is empty.\<close>

definition demo_heaps :: heap_world where
  "demo_heaps =
     \<lparr>links = links demo_tee, tasks = tasks demo_tee, current_task_id = 17, task_id_pool = (\<lambda>_. 1),
      switches = [], pt = demo_pt, exec_mode = 0, open_fds = (\<lambda>_. []), closed_fds = [], freed = [],
      tls_heaps = (\<lambda>_. demo_hi1), common_heap = demo_hi, task_errno = (\<lambda>_. SW_ENONE), global_errno = SW_ENONE,
      hbytes = (\<lambda>a. ucast a)\<rparr>"

lemma demo_heaps_sels [simp]:
  "links demo_heaps = links demo_tee" "tasks demo_heaps = tasks demo_tee" "current_task_id demo_heaps = 17"
  "tls_heaps demo_heaps = (\<lambda>_. demo_hi1)" "common_heap demo_heaps = demo_hi" "hbytes demo_heaps = (\<lambda>a. ucast a)"
  by (simp_all add: demo_heaps_def)






theorem private_heap_ready_witness:
  "\<exists>info' hi'. alloc_private_heap_at demo_env 64 16 demo_info demo_hi = Some (info', hi', True) \<and>
     counted hi' \<and> heap_vir_addr hi' = 0x3C000000"
proof -
  have "snd (sw_vir_page_alloc 0x1040 demo_info) = Inr 0x3C000000" by code_simp
  then obtain info' where v: "sw_vir_page_alloc 0x1040 demo_info = (info', Inr 0x3C000000)"
    by (cases "sw_vir_page_alloc 0x1040 demo_info") auto
  have "Suc 2 < MAX_BINS" by (simp add: MAX_BINS_def)
  from private_heap_ready[of 4 2 demo_info info' "0x3C000000" demo_env demo_hi, OF _ this] v
  show ?thesis by (auto simp: eval_facts)
qed

end
