(* ===== verification/Spec2Isabelle.thy ===== *)
theory Spec2Isabelle
  imports Prelude CMath Mem_Mng Links Scheduler Page_Table Timer Task Wait Str_Mem Sem Big_Int ACL Codec Secure_Api Command Driver Driver_Runs Tee_Client Tee_Client_Runs Buddy Shm Heap
begin

text \<open>
  A development beside \<^verbatim>\<open>OVTEE-ZC702\<close> (Open Virtualization's SierraTEE on the Zynq ZC702 board): the
  secure-world kernel, the Linux driver that talks to it and the client library on top of the driver.  Paths are
  relative to \<^verbatim>\<open>src/trustzone/tzone_sdk/sierratee/src\<close>, those of the driver and the library to
  \<^verbatim>\<open>src/trustzone/tzone_sdk\<close>.

  \<^bold>\<open>The system.\<close>  Linux runs in the non-secure world.  A client opens the device of the driver
  (\<^verbatim>\<open>otz_driver/otz_client_main.c\<close>), opens a session of a service, encodes its parameters into
  buffers of the driver and sends a command; the driver passes it to the secure world with an SMC,
  and the client decodes the response; \<^verbatim>\<open>otz_api/otz_tee_api.c\<close> wraps these requests as the TEE client interface.
  The monitor resumes the secure kernel, whose dispatcher task (\<^verbatim>\<open>apps/dispatcher_task.c\<close>)
  reads the command from shared memory, opens or closes a session or starts the task that serves the
  session (\<^verbatim>\<open>core/secure_api.c\<close>), and hands the result back.  A session is a task: \<^verbatim>\<open>core/task.c\<close>
  takes its stacks and heap from the page manager (\<^verbatim>\<open>core/mem_mng.c\<close>), maps them
  (\<^verbatim>\<open>arch/arm/armv7/page_table.c\<close>), and puts it on the task list, from which the round-robin scheduler
  (\<^verbatim>\<open>core/global.c\<close>, \<^verbatim>\<open>core/scheduler.c\<close>) runs it.  Tasks sleep on pending queues
  (\<^verbatim>\<open>lib/kernel/sw_wait.c\<close>), which mutexes and semaphores use, and on timers (\<^verbatim>\<open>core/sw_timer.c\<close>).
  The task of a session maps the command, its buffers and the descriptors of the parameters, calls
  its service with them and unmaps them (\<^verbatim>\<open>lib/common/task_control.c\<close>); services decode and encode
  parameters, allocate from the heap of their task (\<^verbatim>\<open>lib/kernel/sw_heap.c\<close>, a buddy pool of
  \<^verbatim>\<open>lib/common/sw_buddy.c\<close>) and share memory (\<^verbatim>\<open>lib/kernel/sw_shared_memory.c\<close>).

  \<^bold>\<open>Theories.\<close>
  \<^item> Prelude: machine words, error numbers, pages, and lemmas all components share.
  \<^item> CMath: \<^verbatim>\<open>lib/common/sw_math.c\<close>, \<^verbatim>\<open>sw_div.c\<close>, \<^verbatim>\<open>sw_endian.c\<close>; powers of two, software division.
  \<^item> Str_Mem: \<^verbatim>\<open>lib/common/sw_string_functions.c\<close> and \<^verbatim>\<open>sw_mem_functions.c\<close> over a byte memory.
  \<^item> Big_Int: \<^verbatim>\<open>lib/user/otz_tee_arith_api.c\<close>, big integers of the TEE interface.
  \<^item> Links: \<^verbatim>\<open>include/sw_link.h\<close>, circular doubly linked lists at pointer level, and the queue
    interface \<open>linked_store\<close> the other components use them through.
  \<^item> Buddy_Tree, Buddy: \<^verbatim>\<open>lib/common/sw_buddy.c\<close>, search trees and sorted chains of descriptors at
    pointer level, the allocator on top of them, and the interface \<open>block_allocator\<close>.
  \<^item> Range_Alloc, Mem_Mng: the interface of an allocator of page runs, and the page manager
    \<^verbatim>\<open>core/mem_mng.c\<close>, whose two bitmaps provide it.
  \<^item> Page_Table: \<^verbatim>\<open>arch/arm/armv7/page_table.c\<close>, ARMv7 short-descriptor tables in memory.
  \<^item> Timer: \<^verbatim>\<open>core/sw_timer.c\<close> and the time conversions of \<^verbatim>\<open>arch/arm/armv7/cpu_api.c\<close>.
  \<^item> Scheduler: \<^verbatim>\<open>core/global.c\<close>, \<^verbatim>\<open>core/scheduler.c\<close> and the queries of \<^verbatim>\<open>core/task.c\<close>.
  \<^item> Task: creation and destruction of tasks, \<^verbatim>\<open>core/task.c\<close>.
  \<^item> Wait: \<^verbatim>\<open>lib/kernel/sw_wait.c\<close> and the wait macro of \<^verbatim>\<open>sw_wait.h\<close>.
  \<^item> Sem: \<^verbatim>\<open>lib/kernel/sw_semaphores.c\<close> with the exclusive-access code of \<^verbatim>\<open>sw_semaphores_asm.S\<close>.
  \<^item> ACL: \<^verbatim>\<open>lib/kernel/sw_user_mgmt.c\<close>, the access control list.
  \<^item> Secure_Api: \<^verbatim>\<open>core/secure_api.c\<close>, \<^verbatim>\<open>apps/dispatcher_task.c\<close>, \<^verbatim>\<open>drivers/zynq7/board_config.c\<close> and
    \<^verbatim>\<open>arch/arm/armv7/cpu_ipi.c\<close>; it composes the components above.
  \<^item> Codec, Command: \<^verbatim>\<open>lib/common/task_control.c\<close>; the encoding of parameters between secure
    applications and from the driver, and the service of a command by the task of its session.
  \<^item> Heap: \<^verbatim>\<open>lib/kernel/sw_heap.c\<close>, \<^verbatim>\<open>lib/user/sw_user_heap.c\<close> and \<^verbatim>\<open>otz_tee_mem_mgmt.c\<close>; every heap is an
    interpretation of \<open>block_allocator\<close>.
  \<^item> Shm: \<^verbatim>\<open>lib/kernel/sw_shared_memory.c\<close>, segments and the windows of tasks on them.
  \<^item> Driver: \<^verbatim>\<open>otz_driver/otz_client_main.c\<close> with \<^verbatim>\<open>include/otz_client.h\<close>: files, services, sessions,
    encode contexts, shared buffers, and every request of the device.  What the secure world answers
    is a parameter.
  \<^item> Driver_Runs: runs of the device interface, and the way of parameters from the user through the
    driver to the decoder of Codec.
  \<^item> Tee_Client, Tee_Client_Runs: \<^verbatim>\<open>otz_api/otz_tee_api.c\<close> with \<^verbatim>\<open>include/otz_tee_client_api.h\<close> over the
    driver: contexts, shared memory, sessions, the invocation of a command; the way of inputs from the
    client to the secure decoder.

  \<^bold>\<open>Conventions.\<close>  Words keep their C width and wrap.  A function that reports \<^verbatim>\<open>SW_ERROR\<close> returns
  \<open>Inl e\<close>, with \<open>e\<close> the error number it has set; success is \<open>Inr\<close>.  The value \<open>None\<close> of an operation
  stands for one that does not return: it follows a bad pointer, loops forever or panics.  Loops
  whose end is not evident are partial functions or \<open>while_option\<close>, so that a theorem that says
  \<open>f x = Some y\<close> includes termination; no fuel is used.  Pointers to kernel objects are numbers or
  elements of a datatype, with the embedded links and fields in functions of the pointer.  What the
  heap answers to an allocation, the MMU's translation, the readings of the counter and the addresses
  the linker assigns are parameters.  Operations the kernel runs with interrupts disabled are
  single steps; the blocking operations of mutexes are a step relation with one step per access to
  the lock word, so that the passes of \<^verbatim>\<open>cpu_release_mutex\<close> can be interrupted; an exclusive load and
  its store are one access.  Nothing is mapped at address 0, so reading or copying through \<^verbatim>\<open>NULL\<close> is
  a fault.

  \<^bold>\<open>Lemma groups.\<close>  Representation predicates (\<open>dlist\<close>, \<open>bt\<close>, \<open>sched_rep\<close>, \<open>timer_rep\<close>, \<open>acl_rep\<close>,
  \<open>pool_inv\<close>) relate pointer structures to lists, trees and sets; for every operation a lemma says that
  it keeps the predicate and what it does to the abstract value.  \<open>kernel_ok\<close> (Task) is the invariant of the
  scheduler's structures, kept by every kernel operation and, in Secure_Api, by every run of the
  step relation \<open>api_step\<close>.  \<open>buddy_inv\<close> says that the live blocks of a heap never overlap; \<open>heap_at\<close> adds that
  no operation moves the bounds of the heap.  In Command, \<open>holds_sections\<close> counts the mappings a command
  has made.  In Driver, \<open>step_ok\<close> says what a request keeps of all sessions and contexts; in Driver_Runs,
  \<open>stored\<close> relates the request buffer to the parameters of the user; in Tee_Client_Runs, \<open>op_runs\<close> says that a session
  has at most the one encode context of the running operation besides its own, and \<open>passing\<close> which parameters
  the library has encoded so far.  Numbered
  paragraphs mark the properties; theorems without a number record deviations and side results.
  Where the code deviates from its intent, the theorem states what the code does, e.g. a fragmented
  heap that hands out memory beyond its end, or a mutex held twice after a release that was interrupted.

  \<^bold>\<open>Configuration.\<close>  \<^verbatim>\<open>config/zynq7\<close>: one guest, SMP, no asynchronous notification, no crypto, shell,
  kernel integrity monitor, FFmpeg or tests.  \<^verbatim>\<open>tee_panic\<close> does not return.

  \<^bold>\<open>Bounds.\<close>  Identifiers of tasks are 8 bits wide in the pool, timer values 64 bits, page bitmaps as long as the
  regions they cover.  The heap theorems assume a heap whose doubled size ends below 2^32 and whose
  bins fit the array \<^verbatim>\<open>free_area\<close>, as \<^verbatim>\<open>sw_buddy_init\<close> sets up for the callers of the kernel.

  \<^bold>\<open>Not modelled.\<close>  The older client library \<^verbatim>\<open>otz_api/otz_api.c\<close> and the applications of the non-secure world; the monitor and
  the context switch (assembly), boot, exception entry and the scheduling of guests (they act on processor
  registers); device drivers and board tables; the cryptographic interface, which forwards to
  OpenSSL; demonstration services, tests, the shell, printing and module initialisation.
\<close>

end
